(* ===== verification/Prelude.thy ===== *)
theory Prelude
  imports Main "HOL-Library.Word" "HOL-Library.Multiset" "HOL-Library.Sublist"
begin

text \<open>
  Shared material of the development: names for the machine types and the console,
  decimal printing (\<open>std::to_string\<close>), reachability of a step relation with the locale
  that turns "every step keeps it" into "every reachable state has it", and generic
  lemmas on lists and words the component theories use.
\<close>

unbundle bit_operations_syntax

section \<open>Types\<close>

type_synonym byte = "8 word"
type_synonym u32 = "32 word"
type_synonym u64 = "64 word"

text \<open>
  What the program prints with \<open>std::cout\<close>, one list entry per line.
\<close>

type_synonym console = "string list"

text \<open>
  \<open>tl::expected<T, E>\<close> and \<open>std::expected<T, E>\<close>: \<^term>\<open>Inl\<close> carries the error.
\<close>

type_synonym ('a, 'e) expected = "'e + 'a"

section \<open>Simplification sets\<close>

named_theorems record_ops \<open>definitions of the one-line accessors and updates of a component\<close>
named_theorems policy_defs \<open>definitions of the policy classes\<close>

section \<open>Decimal printing\<close>

definition digit_char :: "nat \<Rightarrow> char" where
  "digit_char d = char_of (48 + d)"

fun show_nat :: "nat \<Rightarrow> string" where
  "show_nat n = (if n < 10 then [digit_char n] else show_nat (n div 10) @ [digit_char (n mod 10)])"

declare show_nat.simps [simp del]

definition to_string :: "int \<Rightarrow> string" where
  "to_string i = (if i < 0 then CHR ''-'' # show_nat (nat (- i)) else show_nat (nat i))"

text \<open>The inverse reading, used to show that distinct numbers print differently.\<close>

definition read_digits :: "string \<Rightarrow> nat" where
  "read_digits s = foldl (\<lambda>n c. 10 * n + (of_char c - 48)) 0 s"

lemma read_digits_snoc: "read_digits (s @ [c]) = 10 * read_digits s + (of_char c - 48)"
  by (simp add: read_digits_def)

lemma of_digit_char: "d < 10 \<Longrightarrow> of_char (digit_char d) = (48 + d :: nat)"
  by (simp add: digit_char_def)

lemma read_show_nat: "read_digits (show_nat n) = n"
proof (induction n rule: show_nat.induct)
  case (1 n)
  show ?case
  proof (cases "n < 10")
    case True
    then show ?thesis
      by (simp add: show_nat.simps [of n] read_digits_def of_digit_char)
  next
    case False
    with 1 have "read_digits (show_nat (n div 10)) = n div 10" by simp
    with False show ?thesis
      by (simp add: show_nat.simps [of n] read_digits_snoc of_digit_char)
  qed
qed

lemma show_nat_inject [simp]: "show_nat m = show_nat n \<longleftrightarrow> m = n"
  by (metis read_show_nat)

lemma hd_show_nat: "\<exists>d < 10. hd (show_nat n) = digit_char d"
proof (induction n rule: show_nat.induct)
  case (1 n)
  show ?case
  proof (cases "n < 10")
    case True
    then show ?thesis by (auto simp: show_nat.simps [of n])
  next
    case False
    have "show_nat (n div 10) \<noteq> []"
      by (subst show_nat.simps) simp
    with 1 False show ?thesis
      by (simp add: show_nat.simps [of n])
  qed
qed

lemma show_nat_no_sign: "show_nat n \<noteq> CHR ''-'' # s"
proof
  assume eq: "show_nat n = CHR ''-'' # s"
  obtain d where d: "d < 10" "hd (show_nat n) = digit_char d"
    using hd_show_nat by blast
  then have "of_char (CHR ''-'') = (48 + d :: nat)"
    using eq of_digit_char [OF d(1)] by simp
  then show False by simp
qed

lemma to_string_inject [simp]: "to_string i = to_string j \<longleftrightarrow> i = j"
  using show_nat_no_sign show_nat_no_sign [symmetric]
  by (auto simp: to_string_def split: if_splits)

section \<open>Reachable states\<close>

text \<open>
  The states a step relation can reach from an initial state. Components with several
  threads give one step relation whose rules are the atomic accesses of the code; a run
  is any interleaving of them.
\<close>

inductive reach :: "('s \<Rightarrow> bool) \<Rightarrow> ('s \<Rightarrow> 's \<Rightarrow> bool) \<Rightarrow> 's \<Rightarrow> bool"
  for I :: "'s \<Rightarrow> bool" and R :: "'s \<Rightarrow> 's \<Rightarrow> bool" where
  reach_init: "I s \<Longrightarrow> reach I R s"
| reach_step: "reach I R s \<Longrightarrow> R s t \<Longrightarrow> reach I R t"

locale invariant_system =
  fixes I :: "'s \<Rightarrow> bool"
    and R :: "'s \<Rightarrow> 's \<Rightarrow> bool"
    and Inv :: "'s \<Rightarrow> bool"
  assumes inv_init: "I s \<Longrightarrow> Inv s"
    and inv_step: "Inv s \<Longrightarrow> R s t \<Longrightarrow> Inv t"
begin

lemma reach_inv: "reach I R s \<Longrightarrow> Inv s"
  by (induction rule: reach.induct) (auto intro: inv_init inv_step)

lemma steps_inv: "R\<^sup>*\<^sup>* s t \<Longrightarrow> Inv s \<Longrightarrow> Inv t"
  by (induction rule: rtranclp_induct) (auto intro: inv_step)

end

lemma reach_steps: "R\<^sup>*\<^sup>* s t \<Longrightarrow> reach I R s \<Longrightarrow> reach I R t"
  by (induction rule: rtranclp_induct) (auto intro: reach_step)

text \<open>
  A deterministic component: an operation per event, run over a list of events.
\<close>

fun run_ops :: "('s \<Rightarrow> 'e \<Rightarrow> 'o \<times> 's) \<Rightarrow> 's \<Rightarrow> 'e list \<Rightarrow> 'o list \<times> 's" where
  "run_ops f s [] = ([], s)"
| "run_ops f s (e # es) =
     (let (y, s') = f s e; (ys, s'') = run_ops f s' es in (y # ys, s''))"

lemma run_ops_append:
  "run_ops f s (xs @ ys) =
     (let (os, s') = run_ops f s xs; (os', s'') = run_ops f s' ys in (os @ os', s''))"
  by (induction xs arbitrary: s) (auto simp: Let_def split: prod.splits)

lemma run_ops_length [simp]: "length (fst (run_ops f s es)) = length es"
  by (induction es arbitrary: s) (auto simp: Let_def case_prod_beta)

locale op_invariant =
  fixes f :: "'s \<Rightarrow> 'e \<Rightarrow> 'o \<times> 's"
    and Inv :: "'s \<Rightarrow> bool"
  assumes op_inv: "Inv s \<Longrightarrow> Inv (snd (f s e))"
begin

lemma run_ops_inv: "Inv s \<Longrightarrow> Inv (snd (run_ops f s es))"
proof (induction es arbitrary: s)
  case (Cons e es)
  from op_inv [OF Cons.prems, of e] show ?case
    using Cons.IH [of "snd (f s e)"] by (auto simp: Let_def split: prod.splits)
qed simp

end

section \<open>Lists\<close>

lemma last_filter_snoc:
  "filter P (xs @ [x]) = (if P x then filter P xs @ [x] else filter P xs)"
  by simp

definition last_opt :: "'a list \<Rightarrow> 'a option" where
  "last_opt xs = (if xs = [] then None else Some (last xs))"

lemma last_opt_Nil [simp]: "last_opt [] = None"
  and last_opt_snoc [simp]: "last_opt (xs @ [x]) = Some x"
  by (simp_all add: last_opt_def)

lemma take_drop_next [simp]: "take r (drop k xs) @ drop (k + r) xs = drop k xs"
  by (metis append_take_drop_id drop_drop add.commute)

lemma take_drop_next' [simp]: "take r (drop k xs) @ drop (k + r) xs @ ys = drop k xs @ ys"
  by (metis take_drop_next append_assoc)

section \<open>Lines\<close>

text \<open>\<open>std::getline\<close> until it fails: a last line without newline counts unless it is empty.\<close>

fun getlines :: "string \<Rightarrow> string \<Rightarrow> string list" where
  "getlines line [] = (if line = [] then [] else [line])"
| "getlines line (c # cs) =
     (if c = CHR 0x0A then line # getlines [] cs else getlines (line @ [c]) cs)"

lemma getlines_join:
  "concat (map (\<lambda>l. l @ [CHR 0x0A]) (getlines line cs)) =
     (if line @ cs = [] \<or> cs \<noteq> [] \<and> last cs = CHR 0x0A then line @ cs else line @ cs @ [CHR 0x0A])"
  by (induction line cs rule: getlines.induct) (auto split: if_splits)

lemma getlines_no_newline:
  "CHR 0x0A \<notin> set line \<Longrightarrow> l \<in> set (getlines line cs) \<Longrightarrow> CHR 0x0A \<notin> set l"
  by (induction line cs rule: getlines.induct) (auto split: if_splits)

section \<open>Words\<close>

lemma unat_less_64: "unat (w :: u64) < 2 ^ 64"
  using unsigned_less [of w] by simp

end
