(* ===== verification/State_Reducer.thy ===== *)
theory State_Reducer
  imports Prelude
begin

text \<open>
  \<open>cpp_test/stand_cpp/018.check_state\<close>: the class \<open>StateReducer\<close>, which folds a
  periodic stream of status codes into a steadier one with a confirmation window. The
  theory holds the class, its operations, the abstract window of frames it stands for and
  the refinement between them. Time points are \<open>steady_clock\<close> nanoseconds (the value
  \<open>now_provider_\<close> returns in the call), the window is given in milliseconds, counters
  are 64-bit words.
\<close>

section \<open>The class\<close>

record state_reducer =
  confirm_window :: int
  business_threshold :: u64
  window_start :: "int option"
  business_count :: u64
  last_business_state :: "int option"

definition StateReducer :: "int \<Rightarrow> u64 \<Rightarrow> state_reducer" where
  "StateReducer window threshold =
     \<lparr>confirm_window = window, business_threshold = threshold,
      window_start = None, business_count = 0, last_business_state = None\<rparr>"

definition clearPending :: "state_reducer \<Rightarrow> state_reducer" where
  "clearPending r = r\<lparr>window_start := None, business_count := 0, last_business_state := None\<rparr>"

definition foldPending :: "state_reducer \<Rightarrow> int" where
  "foldPending r = (case last_business_state r of None \<Rightarrow> 0 | Some s \<Rightarrow> s)"

text \<open>\<open>now - *window_start_\<close> is in nanoseconds, \<open>confirm_window_\<close> in milliseconds.\<close>

definition isExpired :: "state_reducer \<Rightarrow> int \<Rightarrow> bool" where
  "isExpired r now =
     (case window_start r of None \<Rightarrow> False
      | Some start \<Rightarrow> confirm_window r * 1000000 \<le> now - start)"

definition appendPending :: "state_reducer \<Rightarrow> int \<Rightarrow> int \<Rightarrow> state_reducer" where
  "appendPending r state now =
     (let r1 = (if window_start r = None then r\<lparr>window_start := Some now\<rparr> else r)
      in if 1 \<le> state \<and> state \<le> 4
         then r1\<lparr>business_count := business_count r1 + 1, last_business_state := Some state\<rparr>
         else r1)"

text \<open>\<open>push(state)\<close>; the clock value the call reads is its first argument.\<close>

definition push :: "state_reducer \<Rightarrow> int \<times> int \<Rightarrow> int \<times> state_reducer" where
  "push r = (\<lambda>(now, state).
     if state \<ge> 6 then (state, clearPending r)
     else let expired = False; output = 0 in
       if isExpired r now then
         let output = foldPending r; r1 = clearPending r
         in (if state \<noteq> 0 then state else output, r1)
       else
         let r1 = appendPending r state now
         in if business_threshold r1 \<le> business_count r1 then (5, clearPending r1)
            else (if expired then output else 0, r1))"

lemmas reducer_defs = StateReducer_def clearPending_def foldPending_def isExpired_def
  appendPending_def push_def

section \<open>The window of frames it stands for\<close>

text \<open>
  The design comment of the file as a specification. It names three kinds of codes: idle
  (\<open>0\<close>), business (\<open>1..4\<close>) and direct (\<open>6..N\<close>). The specification keeps the frames of the
  open window themselves, each with its arrival time. A direct code is passed on and
  drops the window; any other code outside \<open>0..4\<close> does not enter the window. Once the
  window has expired, a business frame is passed on and an idle frame gives the
  folded window; before that a frame enters the window, which is confirmed when it
  holds the threshold number of business frames.
\<close>

definition business :: "int \<Rightarrow> bool" where
  "business s \<longleftrightarrow> 1 \<le> s \<and> s \<le> 4"

definition direct :: "int \<Rightarrow> bool" where
  "direct s \<longleftrightarrow> 6 \<le> s"

definition listed :: "int \<Rightarrow> bool" where
  "listed s \<longleftrightarrow> s = 0 \<or> business s \<or> direct s"

definition window_business :: "(int \<times> int) list \<Rightarrow> int list" where
  "window_business w = filter business (map snd w)"

definition window_fold :: "(int \<times> int) list \<Rightarrow> int" where
  "window_fold w = (case last_opt (window_business w) of None \<Rightarrow> 0 | Some s \<Rightarrow> s)"

definition window_over :: "int \<Rightarrow> (int \<times> int) list \<Rightarrow> int \<Rightarrow> bool" where
  "window_over n w now \<longleftrightarrow> w \<noteq> [] \<and> n * 1000000 \<le> now - fst (hd w)"

definition window_push ::
  "int \<Rightarrow> nat \<Rightarrow> (int \<times> int) list \<Rightarrow> int \<times> int \<Rightarrow> int \<times> (int \<times> int) list" where
  "window_push n m w = (\<lambda>(now, s).
     if direct s then (s, [])
     else if s \<noteq> 0 \<and> \<not> business s then (0, w)
     else if window_over n w now then (if business s then s else window_fold w, [])
     else if m \<le> length (window_business (w @ [(now, s)])) then (5, [])
     else (0, w @ [(now, s)]))"

lemmas window_defs = window_push_def window_over_def window_fold_def direct_def listed_def

definition represents :: "int \<Rightarrow> u64 \<Rightarrow> state_reducer \<Rightarrow> (int \<times> int) list \<Rightarrow> bool" where
  "represents n m r w \<longleftrightarrow>
     confirm_window r = n \<and> business_threshold r = m \<and>
     window_start r = (if w = [] then None else Some (fst (hd w))) \<and>
     unat (business_count r) = length (window_business w) \<and>
     last_business_state r = last_opt (window_business w) \<and>
     (w = [] \<or> length (window_business w) < unat m)"

lemma represents_init: "represents n m (StateReducer n m) []"
  by (simp add: represents_def StateReducer_def window_business_def)

lemma represents_clear: "represents n m r w \<Longrightarrow> represents n m (clearPending r) []"
  by (simp add: represents_def clearPending_def window_business_def)

lemma represents_expired:
  "represents n m r w \<Longrightarrow> isExpired r now \<longleftrightarrow> window_over n w now"
  by (auto simp: represents_def isExpired_def window_over_def split: option.splits)

lemma represents_fold:
  "represents n m r w \<Longrightarrow> foldPending r = window_fold w"
  by (simp add: represents_def foldPending_def window_fold_def)

lemma window_business_snoc:
  "window_business (w @ [(now, s)]) =
     (if business s then window_business w @ [s] else window_business w)"
  by (simp add: window_business_def)

text \<open>
  Appending a frame. The 64-bit counter does not wrap: an open window holds fewer business
  frames than the threshold, which is itself a 64-bit value.
\<close>

lemma append_count:
  assumes "represents n m r w"
  shows "unat (business_count (appendPending r s now)) = length (window_business (w @ [(now, s)]))"
proof -
  have "length (window_business w) < 2 ^ 64 - 1"
    using assms unsigned_less [where 'a = nat and 'b = 64, of m]
    by (auto simp: represents_def window_business_def)
  then have "unat (business_count r + 1) = Suc (unat (business_count r))"
    using assms by (simp add: represents_def unat_word_ariths)
  then show ?thesis
    using assms
    by (auto simp: represents_def appendPending_def window_business_snoc business_def Let_def)
qed

lemma append_represents:
  assumes "represents n m r w"
    and "length (window_business (w @ [(now, s)])) < unat m"
  shows "represents n m (appendPending r s now) (w @ [(now, s)])"
  using assms append_count [OF assms(1), of s now]
  by (auto simp: represents_def appendPending_def window_business_snoc business_def Let_def
      hd_append)

lemma append_business_threshold [simp]:
  "business_threshold (appendPending r s now) = business_threshold r"
  by (simp add: appendPending_def Let_def)

lemma append_threshold:
  assumes "represents n m r w"
  shows "business_threshold (appendPending r s now) \<le> business_count (appendPending r s now)
     \<longleftrightarrow> unat m \<le> length (window_business (w @ [(now, s)]))"
  using append_count [OF assms, of s now] assms
  by (simp add: word_le_nat_alt) (simp add: represents_def)

lemma push_refines:
  assumes "represents n m r w" and "listed (snd e)"
  shows "fst (push r e) = fst (window_push n (unat m) w e)
    \<and> represents n m (snd (push r e)) (snd (window_push n (unat m) w e))"
proof (cases e)
  case (Pair now s)
  have clear: "represents n m (clearPending r') []" if "represents n m r' w'" for r' w'
    using that by (rule represents_clear)
  have thr: "represents n m (clearPending (appendPending r s now)) []"
    using assms(1)
    by (simp add: represents_def clearPending_def appendPending_def window_business_def Let_def)
  have code: "s = 0 \<or> business s \<or> direct s" and "direct s \<longleftrightarrow> 6 \<le> s"
    and "business s \<Longrightarrow> s \<noteq> 0 \<and> \<not> 6 \<le> s"
    using assms(2) by (auto simp: Pair listed_def direct_def business_def)
  then show ?thesis
    unfolding Pair push_def window_push_def Let_def prod.case
    using assms(1) represents_expired [OF assms(1), of now] represents_fold [OF assms(1)]
      append_threshold [OF assms(1), of s now] append_represents [OF assms(1), of now s] clear thr
    by (auto simp: not_le)
qed

lemma run_refines:
  "represents n m r w \<Longrightarrow> \<forall>e \<in> set es. listed (snd e) \<Longrightarrow>
     fst (run_ops push r es) = fst (run_ops (window_push n (unat m)) w es)
     \<and> represents n m (snd (run_ops push r es)) (snd (run_ops (window_push n (unat m)) w es))"
proof (induction es arbitrary: r w)
  case (Cons e es)
  from push_refines [OF Cons.prems(1), of e] Cons.prems(2)
  have "fst (push r e) = fst (window_push n (unat m) w e)"
    and "represents n m (snd (push r e)) (snd (window_push n (unat m) w e))"
    by auto
  with Cons.IH Cons.prems(2) show ?case
    by (simp add: Let_def case_prod_beta)
qed simp

section \<open>Where a confirmation comes from\<close>

text \<open>
  When every code is documented, the frames of the open window are the latest ones, none
  of them late.
\<close>

definition on_time :: "int \<Rightarrow> (int \<times> int) list \<Rightarrow> bool" where
  "on_time n w \<longleftrightarrow> (\<forall>e \<in> set (tl w). fst e - fst (hd w) < n * 1000000)"

lemma on_time_snoc:
  "on_time n (w @ [e]) \<longleftrightarrow> on_time n w \<and> (w = [] \<or> fst e - fst (hd w) < n * 1000000)"
  by (cases w) (auto simp: on_time_def)

lemma window_push_frames:
  assumes "suffix w es" and "on_time n w" and "listed (snd e)"
  shows "suffix (snd (window_push n m w e)) (es @ [e])
    \<and> on_time n (snd (window_push n m w e))"
proof -
  have "suffix (w @ [e]) (es @ [e])"
    using assms(1) by (auto simp: suffix_def)
  moreover have "suffix [] (es @ [e])" and "on_time n []" and "on_time n [e]"
    by (auto simp: on_time_def)
  ultimately show ?thesis
    using assms(2,3)
    by (cases e) (auto simp: window_push_def window_over_def listed_def on_time_snoc not_le)
qed

lemma window_run_frames:
  "\<forall>e \<in> set es. listed (snd e) \<Longrightarrow> suffix (snd (run_ops (window_push n m) [] es)) es
   \<and> on_time n (snd (run_ops (window_push n m) [] es))"
proof (induction es rule: rev_induct)
  case Nil
  then show ?case by (simp add: on_time_def)
next
  case (snoc e es)
  then show ?case
    using window_push_frames [of "snd (run_ops (window_push n m) [] es)" es n e m]
    by (auto simp: run_ops_append Let_def case_prod_beta)
qed

lemma window_push_five:
  assumes "fst (window_push n m w (now, s)) = 5" and "listed s"
  shows "m \<le> length (window_business (w @ [(now, s)]))
    \<and> (w = [] \<or> now - fst (hd w) < n * 1000000)"
proof -
  have "last_opt (window_business w) \<noteq> Some 5"
    by (auto simp: last_opt_def window_business_def business_def
        dest: last_in_set [of "filter business (map snd w)"])
  then show ?thesis
    using assms by (auto simp: window_defs business_def split: if_splits option.splits)
qed

text \<open>
  C9: for any stream of frames whose codes are the documented ones (\<open>0\<close>, \<open>1..4\<close>, \<open>6..N\<close>) and
  any clock values, the outputs of \<open>StateReducer\<close> are those of the documented
  confirmation window, which keeps the frames themselves: the start time, the 64-bit counter
  and the last business state of the class never disagree with the frames they summarise
  (the counter does not wrap for any threshold).
\<close>

theorem reducer_refines_window:
  assumes "\<forall>e \<in> set es. listed (snd e)"
  shows "fst (run_ops push (StateReducer n m) es) = fst (run_ops (window_push n (unat m)) [] es)"
  using run_refines [OF represents_init assms] by simp

theorem reducer_refines_window_witness:
  "fst (run_ops push (StateReducer 1000 3) [(0, 1), (100000000, 0), (400000000, 2), (1000000000, 0), (1100000000, 7)])
     = [0, 0, 0, 2, 7] \<and>
   fst (run_ops (window_push 1000 3) [] [(0, 1), (100000000, 0), (400000000, 2), (1000000000, 0), (1100000000, 7)])
     = [0, 0, 0, 2, 7]"
proof -
  let ?es = "[(0, 1), (100000000, 0), (400000000, 2), (1000000000, 0), (1100000000, 7)] :: (int \<times> int) list"
  have "fst (run_ops push (StateReducer 1000 3) ?es) = fst (run_ops (window_push 1000 (unat (3 :: u64))) [] ?es)"
    by (rule reducer_refines_window) (simp add: listed_def business_def direct_def)
  moreover have "fst (run_ops (window_push 1000 3) [] ?es) = [0, 0, 0, 2, 7]"
    by (simp add: window_defs window_business_def business_def last_opt_def)
  ultimately show ?thesis by simp
qed

text \<open>
  when every code is a documented one, an output 5 means confirmation: the frames up
  to and including the current one end with a block, none later than the window after its
  first frame, that holds at least the threshold number of business states \<open>1..4\<close>.
\<close>

theorem five_means_confirmed:
  assumes "last (fst (run_ops push (StateReducer n m) (es @ [(now, s)]))) = 5"
    and "\<forall>e \<in> set (es @ [(now, s)]). listed (snd e)"
  shows "\<exists>w. suffix w (es @ [(now, s)]) \<and> w \<noteq> [] \<and> on_time n w
    \<and> unat m \<le> length (window_business w)"
proof -
  let ?w = "snd (run_ops (window_push n (unat m)) [] es)"
  have five: "fst (window_push n (unat m) ?w (now, s)) = 5"
    using assms(1) run_refines [OF represents_init assms(2), of n m]
    by (simp add: run_ops_append Let_def case_prod_beta)
  have sfx: "suffix ?w es" and ot: "on_time n ?w"
    using window_run_frames [of es n "unat m"] assms(2) by auto
  from window_push_five [OF five] assms(2)
  have "unat m \<le> length (window_business (?w @ [(now, s)]))"
    and "?w = [] \<or> now - fst (hd ?w) < n * 1000000"
    by auto
  moreover have "suffix (?w @ [(now, s)]) (es @ [(now, s)])"
    using sfx by (auto simp: suffix_def)
  ultimately show ?thesis
    using ot by (intro exI [of _ "?w @ [(now, s)]"]) (simp add: on_time_snoc)
qed

theorem five_means_confirmed_witness:
  "\<exists>w. suffix w ([(0, 1), (100000000, 0), (300000000, 2)] @ [(700000000, 4)]) \<and> w \<noteq> []
    \<and> on_time 1000 w \<and> unat (3 :: u64) \<le> length (window_business w)"
  by (rule five_means_confirmed) (code_simp, simp add: listed_def business_def)

text \<open>
  Outside the documented codes the class and its design comment part: such codes are not
  kept out of the window. A negative code or the code 5 opens a window of its own, and after the window has expired it is returned as it is, so
  the output 5 can appear with no business state counted.
\<close>

theorem unlisted_codes_pass:
  assumes "s < 0 \<or> s = 5" and "0 < m" and "n * 1000000 \<le> t' - t"
  shows "fst (run_ops push (StateReducer n m) [(t, s), (t', s)]) = [0, s]"
proof -
  have "\<not> m \<le> (0 :: u64)"
    using assms(2) by simp
  with assms show ?thesis
    by (auto simp: reducer_defs Let_def)
qed

theorem unlisted_codes_pass_witness:
  "fst (run_ops push (StateReducer 1000 3) [(0, 5), (1000000000, 5)]) = [0, 5]"
  by (rule unlisted_codes_pass) simp_all

section \<open>The unit tests\<close>

definition ms :: "int \<Rightarrow> int" where "ms value = value * 1000000"

text \<open>A test: the clock and the pushed code of each call, and what the call is expected to return.\<close>

type_synonym reducer_test = "((int \<times> int) \<times> int) list"

definition OutputFiveWhenThresholdReachedWithinWindow :: reducer_test where
  "OutputFiveWhenThresholdReachedWithinWindow =
     [((ms 0, 1), 0), ((ms 100, 0), 0), ((ms 300, 2), 0), ((ms 700, 4), 5)]"

definition TimeoutWithIdleFrameOutputsFoldedBusinessState :: reducer_test where
  "TimeoutWithIdleFrameOutputsFoldedBusinessState =
     [((ms 0, 1), 0), ((ms 100, 0), 0), ((ms 400, 2), 0), ((ms 1000, 0), 2)]"

definition TimeoutWithBusinessFrameOutputsLatestBusinessState :: reducer_test where
  "TimeoutWithBusinessFrameOutputsLatestBusinessState =
     [((ms 0, 1), 0), ((ms 100, 0), 0), ((ms 400, 2), 0), ((ms 1000, 3), 3)]"

definition TimeoutOutputsZeroWhenOnlyIdleStatesExist :: reducer_test where
  "TimeoutOutputsZeroWhenOnlyIdleStatesExist = [((ms 0, 0), 0), ((ms 200, 0), 0), ((ms 1000, 0), 0)]"

definition DirectStatePassesThroughAndClearsPendingWindow :: reducer_test where
  "DirectStatePassesThroughAndClearsPendingWindow = [((ms 0, 1), 0), ((ms 100, 0), 0), ((ms 200, 6), 6)]"

definition LatestBusinessStateIsConsumedImmediatelyAfterTimeout :: reducer_test where
  "LatestBusinessStateIsConsumedImmediatelyAfterTimeout =
     [((ms 0, 1), 0), ((ms 200, 2), 0), ((ms 1200, 3), 3), ((ms 2199, 0), 0), ((ms 2200, 0), 0)]"

definition StateReducerTest :: "reducer_test list" where
  "StateReducerTest = [OutputFiveWhenThresholdReachedWithinWindow, TimeoutWithIdleFrameOutputsFoldedBusinessState,
     TimeoutWithBusinessFrameOutputsLatestBusinessState, TimeoutOutputsZeroWhenOnlyIdleStatesExist,
     DirectStatePassesThroughAndClearsPendingWindow, LatestBusinessStateIsConsumedImmediatelyAfterTimeout]"

lemmas reducer_tests = StateReducerTest_def ms_def OutputFiveWhenThresholdReachedWithinWindow_def
  TimeoutWithIdleFrameOutputsFoldedBusinessState_def TimeoutWithBusinessFrameOutputsLatestBusinessState_def
  TimeoutOutputsZeroWhenOnlyIdleStatesExist_def DirectStatePassesThroughAndClearsPendingWindow_def
  LatestBusinessStateIsConsumedImmediatelyAfterTimeout_def

text \<open>The origin of the clock does not matter.\<close>

definition shift :: "int \<Rightarrow> state_reducer \<Rightarrow> state_reducer" where
  "shift d r = r\<lparr>window_start := map_option (\<lambda>t. t + d) (window_start r)\<rparr>"

lemma push_shift: "push (shift d r) (t + d, s) = map_prod id (shift d) (push r (t, s))"
  by (cases "window_start r") (auto simp: reducer_defs shift_def Let_def)

lemma run_shift:
  "run_ops push (shift d r) (map (\<lambda>(t, s). (t + d, s)) fs) = map_prod id (shift d) (run_ops push r fs)"
proof (induction fs arbitrary: r)
  case (Cons f fs)
  obtain t s where f: "f = (t, s)" by (cases f)
  obtain y r' where p: "push r (t, s) = (y, r')" by fastforce
  from Cons [of r'] p show ?case
    by (simp add: f push_shift Let_def case_prod_beta map_prod_def)
qed simp

text \<open>
  The reducer depends on the differences of the clock only: the same codes at times
  shifted by any amount give the same output. In particular the six tests of the class, which
  start a clock at zero, pass at every time of the real clock.
\<close>

theorem clock_origin_irrelevant:
  "fst (run_ops push (StateReducer n m) (map (\<lambda>(t, s). (t + d, s)) fs)) = fst (run_ops push (StateReducer n m) fs) \<and>
   map (\<lambda>test. fst (run_ops push (StateReducer 1000 3) (map (\<lambda>((t, s), _). (t + d, s)) test))) StateReducerTest =
     map (map snd) StateReducerTest"
proof
  have sh: "fst (run_ops push (StateReducer n m) (map (\<lambda>(t, s). (t + d, s)) fs)) = fst (run_ops push (StateReducer n m) fs)"
    for n m fs
    using run_shift [of d "StateReducer n m" fs] by (simp add: shift_def StateReducer_def)
  then show "fst (run_ops push (StateReducer n m) (map (\<lambda>(t, s). (t + d, s)) fs)) = fst (run_ops push (StateReducer n m) fs)" .
  have "map (\<lambda>((t, s), _). (t + d, s)) test = map (\<lambda>(t, s). (t + d, s)) (map fst test)" for test :: reducer_test
    by (simp add: case_prod_beta comp_def)
  then have "map (\<lambda>test. fst (run_ops push (StateReducer 1000 3) (map (\<lambda>((t, s), _). (t + d, s)) test))) StateReducerTest =
      map (\<lambda>test. fst (run_ops push (StateReducer 1000 3) (map fst test))) StateReducerTest"
    by (simp only: sh)
  also have "\<dots> = map (map snd) StateReducerTest"
  proof -
    have "\<not> (3 :: u64) \<le> 1" by (simp add: word_le_nat_alt)
    then show ?thesis by (simp add: reducer_tests reducer_defs Let_def)
  qed
  finally show "map (\<lambda>test. fst (run_ops push (StateReducer 1000 3) (map (\<lambda>((t, s), _). (t + d, s)) test))) StateReducerTest =
     map (map snd) StateReducerTest" .
qed

end
