(* ===== verification/Log_Struct.thy ===== *)
theory Log_Struct
  imports Prelude
begin

text \<open>
  \<open>utils/log_struct\<close>: the class \<open>LogStruct\<close>, a double-buffered binary logger. The
  calling thread appends fixed-size structs to the current buffer; \<open>flush()\<close> exchanges the
  buffers and raises a flag; the background thread \<open>writeToFile\<close> writes the other buffer
  to the file. The methods are given twice: as functions on the object, and as two thread
  programs whose steps are the single accesses to shared state, so that a run is any
  interleaving of the caller and the background thread.
\<close>

section \<open>The object\<close>

text \<open>
  \<open>current_vector_\<close> and \<open>next_vector_\<close> are pointers to one of the two vectors. The file
  field holds the bytes this object has written through its descriptor (opened with
  \<open>O_APPEND\<close>); \<open>fd_open\<close>, \<open>buffers_freed\<close> and \<open>stop_requested\<close> record what the
  destructor has done. \<open>log_size_t\<close> wraps at \<open>2 ^ 64\<close>.
\<close>

datatype vec_id = Vector1 | Vector2

record log_struct =
  struct_size :: nat
  byte_size :: nat
  polling_interval :: nat
  is_running :: bool
  is_writing :: bool
  has_data_to_write :: bool
  last_write_time :: int
  vector1 :: "byte list"
  vector2 :: "byte list"
  current_vector :: vec_id
  next_vector :: vec_id
  fd_open :: bool
  log_file :: "byte list"
  buffers_freed :: bool
  stop_requested :: bool

definition log_size_t :: "nat \<Rightarrow> nat" where
  "log_size_t n = n mod 2 ^ 64"

definition vec :: "('a log_struct_scheme) \<Rightarrow> vec_id \<Rightarrow> byte list" where
  "vec s v = (case v of Vector1 \<Rightarrow> vector1 s | Vector2 \<Rightarrow> vector2 s)"

definition set_vec :: "vec_id \<Rightarrow> byte list \<Rightarrow> ('a log_struct_scheme) \<Rightarrow> ('a log_struct_scheme)" where
  "set_vec v xs s = (case v of Vector1 \<Rightarrow> s\<lparr>vector1 := xs\<rparr> | Vector2 \<Rightarrow> s\<lparr>vector2 := xs\<rparr>)"

text \<open>The constructor; \<open>None\<close> when \<open>::open\<close> fails and it throws.\<close>

definition LogStruct :: "bool \<Rightarrow> int \<Rightarrow> nat \<Rightarrow> nat \<Rightarrow> nat \<Rightarrow> log_struct option" where
  "LogStruct open_ok now st_size reverse_size interval =
     (if \<not> open_ok then None
      else Some \<lparr>struct_size = st_size, byte_size = log_size_t (st_size * reverse_size),
        polling_interval = interval, is_running = True, is_writing = False,
        has_data_to_write = False, last_write_time = now, vector1 = [], vector2 = [],
        current_vector = Vector1, next_vector = Vector2, fd_open = True, log_file = [],
        buffers_freed = False, stop_requested = False\<rparr>)"

section \<open>The methods as functions\<close>

definition flush :: "log_struct \<Rightarrow> bool \<times> log_struct" where
  "flush s =
     (if is_writing s then (False, s)
      else let s1 = s\<lparr>is_writing := True\<rparr>;
               old_current = current_vector s1;
               old_next = next_vector s1;
               s2 = s1\<lparr>current_vector := old_next\<rparr>;
               s3 = s2\<lparr>next_vector := old_current\<rparr>;
               s4 = s3\<lparr>has_data_to_write := True\<rparr>
           in (True, s4))"

definition is_full :: "('a log_struct_scheme) \<Rightarrow> vec_id \<Rightarrow> bool" where
  "is_full s cur \<longleftrightarrow> log_size_t (length (vec s cur) + struct_size s) > byte_size s"

text \<open>Time in nanoseconds, the polling interval in milliseconds.\<close>

definition flush_due :: "('a log_struct_scheme) \<Rightarrow> vec_id \<Rightarrow> int \<Rightarrow> bool" where
  "flush_due s cur now \<longleftrightarrow>
     int (polling_interval s) * 1000000 \<le> now - last_write_time s \<or> byte_size s \<le> length (vec s cur)"

text \<open>\<open>data\<close> is the null pointer or the \<open>struct_size_\<close> bytes it points to.\<close>

definition log_write :: "byte list option \<Rightarrow> int \<Rightarrow> log_struct \<Rightarrow> bool \<times> log_struct" where
  "log_write data now s =
     (let cur = current_vector s;
          finish = (\<lambda>s. if flush_due s cur now
                        then let (ok, s') = flush s
                             in (True, if ok then s'\<lparr>last_write_time := now\<rparr> else s')
                        else (True, s))
      in case data of
           None \<Rightarrow> finish s
         | Some d \<Rightarrow> if is_full s cur then (False, s)
                     else finish (set_vec cur (vec s cur @ d) s))"

text \<open>
  The inner loop of \<open>writeToFile\<close> over the results of the \<open>::write\<close> calls: it stops when
  everything is written or a call fails.
\<close>

fun write_loop :: "int list \<Rightarrow> byte list \<Rightarrow> nat \<Rightarrow> byte list" where
  "write_loop rs target written =
     (if written < length target then
        (case rs of
           [] \<Rightarrow> []
         | r # rs' \<Rightarrow> if r < 0 then []
             else take (nat r) (drop written target) @ write_loop rs' target (written + nat r))
      else [])"

declare write_loop.simps [simp del]

text \<open>One iteration of the background thread, from its wake-up to its exit test.\<close>

definition writer_round :: "int list \<Rightarrow> log_struct \<Rightarrow> bool \<times> log_struct" where
  "writer_round rs s =
     (let target = next_vector s;
          s1 = (if vec s target \<noteq> []
                then set_vec target [] (s\<lparr>log_file := log_file s @ write_loop rs (vec s target) 0\<rparr>)
                else s);
          s2 = s1\<lparr>is_writing := False\<rparr>;
          s3 = s2\<lparr>has_data_to_write := False\<rparr>
      in (\<not> is_running s3 \<and> vec s3 (current_vector s3) = [], s3))"

lemma vec_set_vec [simp]: "vec (set_vec v xs s) w = (if v = w then xs else vec s w)"
  by (cases v; cases w) (simp_all add: vec_def set_vec_def)

lemma set_vec_fields [simp]:
  "struct_size (set_vec v xs s) = struct_size s"
  "byte_size (set_vec v xs s) = byte_size s"
  "polling_interval (set_vec v xs s) = polling_interval s"
  "is_running (set_vec v xs s) = is_running s"
  "is_writing (set_vec v xs s) = is_writing s"
  "has_data_to_write (set_vec v xs s) = has_data_to_write s"
  "last_write_time (set_vec v xs s) = last_write_time s"
  "current_vector (set_vec v xs s) = current_vector s"
  "next_vector (set_vec v xs s) = next_vector s"
  "fd_open (set_vec v xs s) = fd_open s"
  "log_file (set_vec v xs s) = log_file s"
  "buffers_freed (set_vec v xs s) = buffers_freed s"
  "stop_requested (set_vec v xs s) = stop_requested s"
  by (cases v; simp add: set_vec_def)+

lemma vec_updates [simp]:
  "vec (s\<lparr>is_running := b\<rparr>) v = vec s v"
  "vec (s\<lparr>is_writing := b\<rparr>) v = vec s v"
  "vec (s\<lparr>has_data_to_write := b\<rparr>) v = vec s v"
  "vec (s\<lparr>last_write_time := t\<rparr>) v = vec s v"
  "vec (s\<lparr>current_vector := w\<rparr>) v = vec s v"
  "vec (s\<lparr>next_vector := w\<rparr>) v = vec s v"
  "vec (s\<lparr>fd_open := b\<rparr>) v = vec s v"
  "vec (s\<lparr>log_file := f\<rparr>) v = vec s v"
  "vec (s\<lparr>buffers_freed := b\<rparr>) v = vec s v"
  "vec (s\<lparr>stop_requested := b\<rparr>) v = vec s v"
  by (cases v; simp add: vec_def)+

section \<open>The two threads\<close>

text \<open>
  Program counters. The caller's thread runs \<open>write\<close>, \<open>flush\<close> and the destructor; a
  counter inside \<open>flush\<close> remembers who called it. The background thread runs
  \<open>writeToFile\<close>.
\<close>

datatype flush_caller = From_User | From_Write int | From_Destructor

datatype client_pc =
    P_Idle
  | P_Append "byte list option" vec_id
  | P_Check vec_id
  | P_Flush_Check flush_caller
  | P_Flush_Mark flush_caller
  | P_Flush_Load flush_caller
  | P_Store_Current vec_id vec_id flush_caller
  | P_Store_Next vec_id flush_caller
  | P_Signal flush_caller
  | D_Close
  | D_Free
  | D_Stop
  | D_Join
  | D_Done

datatype writer_pc =
    W_Test
  | W_Wait
  | W_Load
  | W_Write vec_id nat nat
  | W_Resize vec_id
  | W_Unmark
  | W_Clear
  | W_Exit_Check
  | W_Exited

text \<open>
  Two ghost fields: the bytes \<open>write\<close> has accepted so far, and whether some \<open>::write\<close>
  failed (the loop then gives the rest of the buffer up).
\<close>

record log_sys = log_struct +
  client_pc :: client_pc
  writer_pc :: writer_pc
  accepted :: "byte list"
  write_failed :: bool

datatype client_choice = Call_Write "byte list option" | Call_Flush | Destroy | Clock int | Go

datatype writer_choice = Sys_Write nat | Sys_Error | Run

definition flush_return :: "bool \<Rightarrow> flush_caller \<Rightarrow> log_sys \<Rightarrow> log_sys" where
  "flush_return ok caller s =
     (case caller of
        From_User \<Rightarrow> s\<lparr>client_pc := P_Idle\<rparr>
      | From_Write now \<Rightarrow>
          (if ok then s\<lparr>last_write_time := now\<rparr> else s)\<lparr>client_pc := P_Idle\<rparr>
      | From_Destructor \<Rightarrow> s\<lparr>client_pc := D_Close\<rparr>)"

definition client_step :: "client_choice \<Rightarrow> log_sys \<Rightarrow> log_sys option" where
  "client_step ch s = (case client_pc s of
     P_Idle \<Rightarrow> (case ch of
         Call_Write None \<Rightarrow> Some (s\<lparr>client_pc := P_Append None (current_vector s)\<rparr>)
       | Call_Write (Some d) \<Rightarrow>
           if length d = struct_size s
           then Some (s\<lparr>client_pc := P_Append (Some d) (current_vector s)\<rparr>) else None
       | Call_Flush \<Rightarrow> Some (s\<lparr>client_pc := P_Flush_Check From_User\<rparr>)
       | Destroy \<Rightarrow> Some (s\<lparr>is_running := False, client_pc := P_Flush_Check From_Destructor\<rparr>)
       | _ \<Rightarrow> None)
   | P_Append data cur \<Rightarrow> (case data of
         None \<Rightarrow> Some (s\<lparr>client_pc := P_Check cur\<rparr>)
       | Some d \<Rightarrow>
           if is_full s cur then Some (s\<lparr>client_pc := P_Idle\<rparr>)
           else Some ((set_vec cur (vec s cur @ d) s)\<lparr>accepted := accepted s @ d,
                        client_pc := P_Check cur\<rparr>))
   | P_Check cur \<Rightarrow> (case ch of
         Clock now \<Rightarrow> if flush_due s cur now
           then Some (s\<lparr>client_pc := P_Flush_Check (From_Write now)\<rparr>)
           else Some (s\<lparr>client_pc := P_Idle\<rparr>)
       | _ \<Rightarrow> None)
   | P_Flush_Check c \<Rightarrow>
       Some (if is_writing s then flush_return False c s else s\<lparr>client_pc := P_Flush_Mark c\<rparr>)
   | P_Flush_Mark c \<Rightarrow> Some (s\<lparr>is_writing := True, client_pc := P_Flush_Load c\<rparr>)
   | P_Flush_Load c \<Rightarrow>
       Some (s\<lparr>client_pc := P_Store_Current (current_vector s) (next_vector s) c\<rparr>)
   | P_Store_Current old_current old_next c \<Rightarrow>
       Some (s\<lparr>current_vector := old_next, client_pc := P_Store_Next old_current c\<rparr>)
   | P_Store_Next old_current c \<Rightarrow>
       Some (s\<lparr>next_vector := old_current, client_pc := P_Signal c\<rparr>)
   | P_Signal c \<Rightarrow> Some (flush_return True c (s\<lparr>has_data_to_write := True\<rparr>))
   | D_Close \<Rightarrow> Some (s\<lparr>fd_open := False, client_pc := D_Free\<rparr>)
   | D_Free \<Rightarrow> Some (s\<lparr>buffers_freed := True, client_pc := D_Stop\<rparr>)
   | D_Stop \<Rightarrow> Some (s\<lparr>stop_requested := True, client_pc := D_Join\<rparr>)
   | D_Join \<Rightarrow> if writer_pc s = W_Exited then Some (s\<lparr>client_pc := D_Done\<rparr>) else None
   | D_Done \<Rightarrow> None)"

text \<open>
  \<open>has_data_to_write.wait(false)\<close> blocks while the flag is clear. A \<open>::write\<close> transfers
  at most what is left, or fails; on a closed descriptor it can only fail.
\<close>

definition writer_step :: "writer_choice \<Rightarrow> log_sys \<Rightarrow> log_sys option" where
  "writer_step ch s = (case writer_pc s of
     W_Test \<Rightarrow>
       Some (s\<lparr>writer_pc := (if \<not> stop_requested s \<or> has_data_to_write s then W_Wait else W_Exited)\<rparr>)
   | W_Wait \<Rightarrow> if has_data_to_write s then Some (s\<lparr>writer_pc := W_Load\<rparr>) else None
   | W_Load \<Rightarrow>
       (let target = next_vector s
        in Some (s\<lparr>writer_pc := (if vec s target \<noteq> [] then W_Write target (length (vec s target)) 0
                                 else W_Unmark)\<rparr>))
   | W_Write target need written \<Rightarrow>
       if written < need then
         (case ch of
            Sys_Write r \<Rightarrow>
              if fd_open s \<and> r \<le> need - written
              then Some (s\<lparr>log_file := log_file s @ take r (drop written (vec s target)),
                           writer_pc := W_Write target need (written + r)\<rparr>)
              else None
          | Sys_Error \<Rightarrow> Some (s\<lparr>writer_pc := W_Resize target, write_failed := True\<rparr>)
          | Run \<Rightarrow> None)
       else Some (s\<lparr>writer_pc := W_Resize target\<rparr>)
   | W_Resize target \<Rightarrow> Some (set_vec target [] s\<lparr>writer_pc := W_Unmark\<rparr>)
   | W_Unmark \<Rightarrow> Some (s\<lparr>is_writing := False, writer_pc := W_Clear\<rparr>)
   | W_Clear \<Rightarrow> Some (s\<lparr>has_data_to_write := False, writer_pc := W_Exit_Check\<rparr>)
   | W_Exit_Check \<Rightarrow>
       Some (s\<lparr>writer_pc := (if \<not> is_running s \<and> vec s (current_vector s) = [] then W_Exited
                             else W_Test)\<rparr>)
   | W_Exited \<Rightarrow> None)"

inductive log_step :: "log_sys \<Rightarrow> log_sys \<Rightarrow> bool" where
  client: "client_step ch s = Some t \<Longrightarrow> log_step s t"
| writer: "writer_step ch s = Some t \<Longrightarrow> log_step s t"

inductive_cases log_stepE: "log_step s t"

text \<open>
  A freshly constructed object with both threads at their start. The buffers it allocates
  have \<open>byte_size_ + 1024\<close> bytes each, so the sizes are far below \<open>2 ^ 63\<close>.
\<close>

definition log_start :: "int \<Rightarrow> nat \<Rightarrow> nat \<Rightarrow> nat \<Rightarrow> log_sys" where
  "log_start now st_size reverse_size interval =
     log_struct.extend (the (LogStruct True now st_size reverse_size interval))
       (log_sys.fields P_Idle W_Test [] False)"

definition log_init :: "log_sys \<Rightarrow> bool" where
  "log_init s \<longleftrightarrow> (\<exists>now st_size reverse_size interval.
     st_size < 2 ^ 63 \<and> st_size * reverse_size < 2 ^ 63
     \<and> s = log_start now st_size reverse_size interval)"

section \<open>The invariant of the two threads\<close>

fun in_exchange :: "client_pc \<Rightarrow> bool" where
  "in_exchange (P_Flush_Load c) = True"
| "in_exchange (P_Store_Current v w c) = True"
| "in_exchange (P_Store_Next v c) = True"
| "in_exchange (P_Signal c) = True"
| "in_exchange _ = False"

text \<open>What the caller's thread knows at each point.\<close>

fun client_ok :: "client_pc \<Rightarrow> log_sys \<Rightarrow> bool" where
  "client_ok (P_Append d cur) s \<longleftrightarrow>
     cur = current_vector s \<and> (\<forall>x. d = Some x \<longrightarrow> length x = struct_size s)"
| "client_ok (P_Check cur) s \<longleftrightarrow> cur = current_vector s"
| "client_ok (P_Flush_Mark c) s \<longleftrightarrow> \<not> is_writing s"
| "client_ok (P_Flush_Load c) s \<longleftrightarrow> is_writing s \<and> vec s (next_vector s) = []"
| "client_ok (P_Store_Current v w c) s \<longleftrightarrow>
     is_writing s \<and> v = current_vector s \<and> w = next_vector s \<and> vec s w = []"
| "client_ok (P_Store_Next v c) s \<longleftrightarrow>
     is_writing s \<and> next_vector s = current_vector s \<and> v \<noteq> current_vector s
     \<and> vec s (current_vector s) = []"
| "client_ok (P_Signal c) s \<longleftrightarrow> is_writing s \<and> vec s (current_vector s) = []"
| "client_ok _ s \<longleftrightarrow> True"

definition handed_over :: "log_sys \<Rightarrow> bool" where
  "handed_over s \<longleftrightarrow> is_writing s \<and> \<not> in_exchange (client_pc s)"

text \<open>What the background thread knows at each point.\<close>

fun writer_ok :: "writer_pc \<Rightarrow> log_sys \<Rightarrow> bool" where
  "writer_ok W_Load s \<longleftrightarrow> handed_over s"
| "writer_ok (W_Write t need k) s \<longleftrightarrow>
     handed_over s \<and> t = next_vector s \<and> need = length (vec s t) \<and> k \<le> need"
| "writer_ok (W_Resize t) s \<longleftrightarrow> handed_over s \<and> t = next_vector s"
| "writer_ok W_Unmark s \<longleftrightarrow> handed_over s \<and> vec s (next_vector s) = []"
| "writer_ok W_Clear s \<longleftrightarrow> True"
| "writer_ok W_Exited s \<longleftrightarrow> True"
| "writer_ok _ s \<longleftrightarrow> (has_data_to_write s \<longrightarrow> handed_over s)"

text \<open>The bytes handed to the background thread that are not in the file yet.\<close>

fun unsent :: "writer_pc \<Rightarrow> byte list \<Rightarrow> byte list" where
  "unsent (W_Write t need k) xs = drop k xs"
| "unsent (W_Resize t) xs = []"
| "unsent _ xs = xs"

fun in_exchange_buffer :: "client_pc \<Rightarrow> vec_id option" where
  "in_exchange_buffer (P_Store_Next v c) = Some v"
| "in_exchange_buffer _ = None"

definition in_flight :: "log_sys \<Rightarrow> byte list" where
  "in_flight s = (case in_exchange_buffer (client_pc s) of
     Some v \<Rightarrow> vec s v
   | None \<Rightarrow> unsent (writer_pc s) (vec s (next_vector s)))"

definition backlog :: "log_sys \<Rightarrow> byte list" where
  "backlog s = in_flight s @ vec s (current_vector s)"

definition log_inv :: "log_sys \<Rightarrow> bool" where
  "log_inv s \<longleftrightarrow>
     client_ok (client_pc s) s \<and> writer_ok (writer_pc s) s
     \<and> (in_exchange_buffer (client_pc s) = None \<longrightarrow> current_vector s \<noteq> next_vector s)
     \<and> (\<not> is_writing s \<longrightarrow> vec s (next_vector s) = [])
     \<and> byte_size s < 2 ^ 63 \<and> struct_size s < 2 ^ 63
     \<and> (\<forall>v. length (vec s v) \<le> byte_size s)
     \<and> (\<not> write_failed s \<longrightarrow> accepted s = log_file s @ backlog s)"

lemma vec_sys_updates [simp]:
  "vec (s\<lparr>client_pc := p\<rparr>) v = vec s v"
  "vec (s\<lparr>writer_pc := q\<rparr>) v = vec s v"
  "vec (s\<lparr>accepted := a\<rparr>) v = vec s v"
  "vec (s\<lparr>write_failed := b\<rparr>) v = vec s v"
  by (cases v; simp add: vec_def)+

lemma set_vec_sys_fields [simp]:
  "client_pc (set_vec v xs s) = client_pc s"
  "writer_pc (set_vec v xs s) = writer_pc s"
  "accepted (set_vec v xs s) = accepted s"
  "write_failed (set_vec v xs s) = write_failed s"
  by (cases v; simp add: set_vec_def)+

lemma log_start_inv:
  assumes "log_init s"
  shows "log_inv s"
  using assms
  by (auto simp: log_init_def log_start_def LogStruct_def log_struct.extend_def log_sys.fields_def
      log_inv_def backlog_def in_flight_def log_size_t_def vec_def handed_over_def split: vec_id.splits)

lemma writer_ok_cong:
  "handed_over t = handed_over s \<Longrightarrow> next_vector t = next_vector s
   \<Longrightarrow> vec t (next_vector s) = vec s (next_vector s) \<Longrightarrow> has_data_to_write t = has_data_to_write s
   \<Longrightarrow> writer_ok q t \<longleftrightarrow> writer_ok q s"
  by (cases q) auto

lemma writer_ok_idle:
  assumes "writer_ok q s" and "\<not> handed_over s"
  shows "unsent q xs = xs"
    and "\<not> handed_over t \<Longrightarrow> has_data_to_write t = has_data_to_write s \<Longrightarrow> writer_ok q t"
    and "handed_over t \<Longrightarrow> writer_ok q t"
  using assms by (cases q; auto)+

lemmas log_inv_defs = log_inv_def backlog_def in_flight_def handed_over_def

lemma is_full_iff:
  assumes "log_inv s"
  shows "is_full s cur \<longleftrightarrow> byte_size s < length (vec s cur) + struct_size s"
proof -
  have "length (vec s cur) \<le> byte_size s" "byte_size s < 2 ^ 63" "struct_size s < 2 ^ 63"
    using assms by (simp_all add: log_inv_def)
  then have "length (vec s cur) + struct_size s < 2 ^ 64" by simp
  then show ?thesis by (simp add: is_full_def log_size_t_def)
qed

text \<open>A step that leaves the buffers, the flags and the other thread alone.\<close>

lemma log_inv_frame:
  assumes "log_inv s"
    and "current_vector t = current_vector s" "next_vector t = next_vector s" "\<And>v. vec t v = vec s v"
      "is_writing t = is_writing s" "has_data_to_write t = has_data_to_write s"
      "byte_size t = byte_size s" "struct_size t = struct_size s" "accepted t = accepted s"
      "log_file t = log_file s" "write_failed t = write_failed s" "writer_pc t = writer_pc s"
    and "in_exchange (client_pc t) = in_exchange (client_pc s)"
      "in_exchange_buffer (client_pc t) = in_exchange_buffer (client_pc s)"
    and "client_ok (client_pc t) t"
  shows "log_inv t"
  using assms writer_ok_cong [of t s "writer_pc s"]
  by (simp add: log_inv_defs split: option.split)

lemma client_step_inv:
  assumes inv: "log_inv s" and step: "client_step ch s = Some t"
  shows "log_inv t"
proof -
  note cong = writer_ok_cong [of t s "writer_pc s"]
  note idle = writer_ok_idle(1) [of "writer_pc s" s] writer_ok_idle(2,3) [of "writer_pc s" s t]
  have okc: "client_ok (client_pc s) s" using inv by (simp add: log_inv_def)
  show ?thesis
  proof (cases "client_pc s")
    case P_Idle
    then show ?thesis using step
      by (intro log_inv_frame [OF inv])
        (auto simp: client_step_def split: client_choice.splits option.splits if_splits)
  next
    case (P_Append d cur)
    then show ?thesis using inv step cong is_full_iff [OF inv, of cur]
      by (cases d) (auto simp: log_inv_defs client_step_def split: if_splits)
  next
    case (P_Check cur)
    then show ?thesis using step okc
      by (intro log_inv_frame [OF inv])
        (auto simp: client_step_def split: client_choice.splits if_splits)
  next
    case (P_Flush_Check c)
    then show ?thesis using step
      by (intro log_inv_frame [OF inv]; cases c)
        (auto simp: client_step_def flush_return_def split: if_splits)
  next
    case (P_Flush_Mark c)
    then show ?thesis using inv step idle
      by (auto simp: log_inv_defs client_step_def)
  next
    case (P_Flush_Load c)
    then show ?thesis using step okc
      by (intro log_inv_frame [OF inv]) (auto simp: client_step_def)
  next
    case (P_Store_Current v w c)
    then show ?thesis using inv step idle
      by (auto simp: log_inv_defs client_step_def)
  next
    case (P_Store_Next v c)
    then show ?thesis using inv step idle
      by (auto simp: log_inv_defs client_step_def)
  next
    case (P_Signal c)
    then show ?thesis using inv step idle
      by (cases c) (auto simp: log_inv_defs client_step_def flush_return_def)
  qed (use step in \<open>auto intro!: log_inv_frame [OF inv] simp: client_step_def split: if_splits\<close>)
qed

lemma client_ok_cong:
  "client_ok p s \<Longrightarrow> struct_size t = struct_size s \<Longrightarrow> current_vector t = current_vector s
   \<Longrightarrow> next_vector t = next_vector s \<Longrightarrow> is_writing t = is_writing s
   \<Longrightarrow> (\<And>v. vec t v = vec s v) \<Longrightarrow> client_ok p t"
  by (cases p) auto

lemma client_ok_outside:
  "client_ok p s \<Longrightarrow> \<not> in_exchange p \<Longrightarrow> struct_size t = struct_size s
   \<Longrightarrow> current_vector t = current_vector s \<Longrightarrow> is_writing t \<longrightarrow> is_writing s \<Longrightarrow> client_ok p t"
  by (cases p) auto

lemma no_exchange_buffer: "\<not> in_exchange p \<Longrightarrow> in_exchange_buffer p = None"
  by (cases p) auto

lemma log_inv_writer_frame:
  assumes "log_inv s"
    and "current_vector t = current_vector s" "next_vector t = next_vector s" "\<And>v. vec t v = vec s v"
      "is_writing t = is_writing s" "byte_size t = byte_size s" "struct_size t = struct_size s"
      "accepted t = accepted s" "log_file t = log_file s" "write_failed t = write_failed s"
      "client_pc t = client_pc s"
    and "unsent (writer_pc t) (vec s (next_vector s)) = unsent (writer_pc s) (vec s (next_vector s))"
    and "writer_ok (writer_pc t) t"
  shows "log_inv t"
  using assms client_ok_cong [of "client_pc s" s t]
  by (simp add: log_inv_defs split: option.split)

lemma writer_step_inv:
  assumes inv: "log_inv s" and step: "writer_step ch s = Some t"
  shows "log_inv t"
proof -
  have okw: "writer_ok (writer_pc s) s" using inv by (simp add: log_inv_def)
  note outside = client_ok_outside [of "client_pc s" s t] no_exchange_buffer [of "client_pc s"]
  show ?thesis
  proof (cases "writer_pc s")
    case (W_Write tgt need k)
    then show ?thesis using inv step outside
      by (auto simp: log_inv_defs writer_step_def split: if_splits writer_choice.splits)
  next
    case (W_Resize tgt)
    then show ?thesis using inv step outside by (auto simp: log_inv_defs writer_step_def)
  next
    case W_Unmark
    then show ?thesis using inv step outside by (auto simp: log_inv_defs writer_step_def)
  qed (use step okw in \<open>auto intro!: log_inv_writer_frame [OF inv]
         simp: writer_step_def handed_over_def Let_def split: if_splits\<close>)
qed

interpretation log_threads: invariant_system log_init log_step log_inv
  by unfold_locales (auto elim: log_stepE intro: log_start_inv client_step_inv writer_step_inv)

section \<open>Schedules\<close>

text \<open>A schedule says which thread moves next and what its environment answers.\<close>

fun run_schedule :: "(client_choice + writer_choice) list \<Rightarrow> log_sys \<Rightarrow> log_sys option" where
  "run_schedule [] s = Some s"
| "run_schedule (Inl c # cs) s = (case client_step c s of None \<Rightarrow> None | Some t \<Rightarrow> run_schedule cs t)"
| "run_schedule (Inr w # cs) s = (case writer_step w s of None \<Rightarrow> None | Some t \<Rightarrow> run_schedule cs t)"

lemma run_schedule_steps: "run_schedule cs s = Some t \<Longrightarrow> log_step\<^sup>*\<^sup>* s t"
proof (induction cs s rule: run_schedule.induct)
  case (2 c cs s)
  then show ?case
    by (auto split: option.splits intro: converse_rtranclp_into_rtranclp log_step.client)
next
  case (3 w cs s)
  then show ?case
    by (auto split: option.splits intro: converse_rtranclp_into_rtranclp log_step.writer)
qed simp

lemma run_schedule_reach:
  assumes "run_schedule cs (log_start now st rs iv) = Some t" and "st < 2 ^ 63" and "st * rs < 2 ^ 63"
  shows "reach log_init log_step t"
proof -
  have "log_init (log_start now st rs iv)"
    using assms(2,3) unfolding log_init_def by blast
  then show ?thesis
    by (intro reach_steps [OF run_schedule_steps [OF assms(1)]] reach_init)
qed

lemmas log_exec = log_start_def LogStruct_def log_struct.extend_def log_sys.fields_def log_size_t_def
  client_step_def writer_step_def flush_return_def flush_due_def is_full_def vec_def set_vec_def Let_def

text \<open>Two structs of one byte each: the first is flushed and written, the second is buffered.\<close>

definition demo_schedule :: "(client_choice + writer_choice) list" where
  "demo_schedule =
     [Inl (Call_Write (Some [7])), Inl Go, Inl (Clock 0), Inl Call_Flush, Inl Go, Inl Go, Inl Go,
      Inl Go, Inl Go, Inl Go, Inl (Call_Write (Some [8])), Inl Go, Inl (Clock 0),
      Inr Run, Inr Run, Inr Run]"

definition demo_state :: log_sys where
  "demo_state =
     \<lparr>struct_size = 1, byte_size = 4, polling_interval = 10, is_running = True, is_writing = True,
      has_data_to_write = True, last_write_time = 0, vector1 = [7], vector2 = [8],
      current_vector = Vector2, next_vector = Vector1, fd_open = True, log_file = [],
      buffers_freed = False, stop_requested = False, client_pc = P_Idle,
      writer_pc = W_Write Vector1 1 0, accepted = [7, 8], write_failed = False\<rparr>"

lemma demo_run: "run_schedule demo_schedule (log_start 0 1 4 10) = Some demo_state"
  by (simp add: demo_schedule_def demo_state_def log_exec)

lemma demo_reachable: "reach log_init log_step demo_state"
  by (rule run_schedule_reach [OF demo_run]) simp_all

section \<open>Properties\<close>

text \<open>
  C1: however the two threads interleave, as long as no \<open>::write\<close> call has failed the bytes
  that \<open>write\<close> accepted are exactly the bytes of the file followed by those still in the
  buffers, in order: nothing is lost, duplicated or reordered.
\<close>

theorem no_byte_lost:
  assumes "reach log_init log_step s" and "\<not> write_failed s"
  shows "accepted s = log_file s @ backlog s"
  using log_threads.reach_inv [OF assms(1)] assms(2) by (simp add: log_inv_def)

theorem no_byte_lost_witness:
  "reach log_init log_step demo_state \<and> \<not> write_failed demo_state
   \<and> accepted demo_state = log_file demo_state @ backlog demo_state"
  using no_byte_lost [OF demo_reachable] demo_reachable by (simp add: demo_state_def)

text \<open>
  C6: the buffer the background thread is writing out or emptying is never the buffer the
  caller appends to, in every reachable state.
\<close>

theorem buffers_not_shared:
  assumes "reach log_init log_step s"
    and "writer_pc s = W_Write b need k \<or> writer_pc s = W_Resize b"
  shows "b \<noteq> current_vector s \<and> client_pc s \<noteq> P_Append d b \<and> client_pc s \<noteq> P_Check b"
proof -
  have "log_inv s" by (rule log_threads.reach_inv [OF assms(1)])
  then show ?thesis
    using assms(2) no_exchange_buffer [of "client_pc s"] by (auto simp: log_inv_def handed_over_def)
qed

theorem buffers_not_shared_witness:
  "reach log_init log_step demo_state \<and> writer_pc demo_state = W_Write Vector1 1 0
   \<and> Vector1 \<noteq> current_vector demo_state"
  using buffers_not_shared [OF demo_reachable, of Vector1 1 0] demo_reachable
  by (simp add: demo_state_def)

text \<open>
  neither buffer ever grows past \<open>byte_size_\<close>, the capacity the constructor reserves, so
  an append never reallocates.
\<close>

theorem capacity_respected:
  assumes "reach log_init log_step s"
  shows "length (vec s v) \<le> byte_size s"
  using log_threads.reach_inv [OF assms] by (simp add: log_inv_def)

theorem capacity_respected_witness:
  "reach log_init log_step demo_state \<and> length (vec demo_state Vector2) \<le> byte_size demo_state"
  using capacity_respected [OF demo_reachable, of Vector2] demo_reachable by simp

section \<open>The hand-over race\<close>

text \<open>
  \<open>writeToFile\<close> releases \<open>is_writing_\<close> before it clears \<open>has_data_to_write\<close>. A \<open>flush\<close>
  in between has its signal erased: the background thread sleeps, \<open>is_writing_\<close> stays set
  and every later \<open>flush\<close> is refused.
\<close>

fun past_check :: "client_pc \<Rightarrow> bool" where
  "past_check (P_Flush_Mark c) = True"
| "past_check p = in_exchange p"

fun writer_resting :: "writer_pc \<Rightarrow> bool" where
  "writer_resting W_Test = True"
| "writer_resting W_Wait = True"
| "writer_resting W_Exit_Check = True"
| "writer_resting W_Exited = True"
| "writer_resting _ = False"

definition log_stuck :: "byte list \<Rightarrow> log_sys \<Rightarrow> bool" where
  "log_stuck f s \<longleftrightarrow> is_writing s \<and> \<not> has_data_to_write s \<and> \<not> past_check (client_pc s)
     \<and> writer_resting (writer_pc s) \<and> log_file s = f"

lemma client_step_stuck: "log_stuck f s \<Longrightarrow> client_step ch s = Some t \<Longrightarrow> log_stuck f t"
  by (cases "client_pc s")
    (auto simp: log_stuck_def client_step_def flush_return_def
      split: client_choice.splits option.splits if_splits flush_caller.splits)

lemma writer_step_stuck: "log_stuck f s \<Longrightarrow> writer_step ch s = Some t \<Longrightarrow> log_stuck f t"
  by (cases "writer_pc s") (auto simp: log_stuck_def writer_step_def split: if_splits)

interpretation stuck_threads: invariant_system "log_stuck f" log_step "log_stuck f"
  by unfold_locales (auto elim!: log_stepE intro: client_step_stuck writer_step_stuck)

text \<open>The second flush falls between lines 117 and 118 of the background thread.\<close>

definition race_schedule :: "(client_choice + writer_choice) list" where
  "race_schedule =
     [Inl (Call_Write (Some [7])), Inl Go, Inl (Clock 0), Inl Call_Flush, Inl Go, Inl Go, Inl Go,
      Inl Go, Inl Go, Inl Go, Inl (Call_Write (Some [8])), Inl Go, Inl (Clock 0),
      Inr Run, Inr Run, Inr Run, Inr (Sys_Write 1), Inr Run, Inr Run, Inr Run,
      Inl Call_Flush, Inl Go, Inl Go, Inl Go, Inl Go, Inl Go, Inl Go, Inr Run]"

definition race_state :: log_sys where
  "race_state =
     \<lparr>struct_size = 1, byte_size = 4, polling_interval = 10, is_running = True, is_writing = True,
      has_data_to_write = False, last_write_time = 0, vector1 = [], vector2 = [8],
      current_vector = Vector1, next_vector = Vector2, fd_open = True, log_file = [7],
      buffers_freed = False, stop_requested = False, client_pc = P_Idle,
      writer_pc = W_Exit_Check, accepted = [7, 8], write_failed = False\<rparr>"

lemma race_run: "run_schedule race_schedule (log_start 0 1 4 10) = Some race_state"
  by (simp add: race_schedule_def race_state_def log_exec)

text \<open>
  C14: the lost wake-up. A state can be reached in which no call is in progress, accepted
  bytes are waiting, and whatever the two threads do from then on (more writes, more
  flushes, destruction) the file never receives another byte.
\<close>

theorem flush_signal_can_be_lost:
  "\<exists>s. reach log_init log_step s \<and> client_pc s = P_Idle \<and> \<not> write_failed s \<and> backlog s \<noteq> []
       \<and> {t. log_step\<^sup>*\<^sup>* s t} \<subseteq> {t. log_file t = log_file s}"
proof (intro exI conjI)
  show "reach log_init log_step race_state"
    by (rule run_schedule_reach [OF race_run]) simp_all
  have stuck: "log_stuck [7] race_state" by (simp add: log_stuck_def race_state_def)
  then show "{t. log_step\<^sup>*\<^sup>* race_state t} \<subseteq> {t. log_file t = log_file race_state}"
    using stuck_threads.steps_inv [of race_state _ "[7]"] by (auto simp: log_stuck_def)
qed (simp_all add: race_state_def backlog_def in_flight_def vec_def)

section \<open>Destruction\<close>

definition destroy_schedule :: "(client_choice + writer_choice) list" where
  "destroy_schedule =
     [Inl (Call_Write (Some [7])), Inl Go, Inl (Clock 0), Inl Destroy, Inl Go, Inl Go, Inl Go,
      Inl Go, Inl Go, Inl Go, Inr Run, Inr Run, Inr Run, Inl Go, Inl Go]"

text \<open>
  the destructor closes the descriptor and deletes both buffers before the thread is
  joined. A state can be reached in which the final round has not written its bytes yet,
  the buffers are already freed and the descriptor is closed: the only continuation of the
  background thread is a failing \<open>::write\<close> on freed memory, so the accepted byte is lost.
\<close>

theorem destructor_overtakes_writer:
  "\<exists>s b need. reach log_init log_step s \<and> accepted s \<noteq> [] \<and> log_file s = []
     \<and> buffers_freed s \<and> \<not> fd_open s \<and> writer_pc s = W_Write b need 0 \<and> 0 < need
     \<and> {ch. writer_step ch s \<noteq> None} = {Sys_Error}"
proof -
  obtain s where run: "run_schedule destroy_schedule (log_start 0 1 4 10) = Some s"
      and s: "accepted s = [7]" "log_file s = []" "buffers_freed s" "\<not> fd_open s"
        "writer_pc s = W_Write Vector1 1 0"
    by (simp add: destroy_schedule_def log_exec)
  moreover have "reach log_init log_step s"
    by (rule run_schedule_reach [OF run]) simp_all
  moreover have "{ch. writer_step ch s \<noteq> None} = {Sys_Error}"
  proof -
    have "writer_step ch s \<noteq> None \<longleftrightarrow> ch = Sys_Error" for ch
      using s by (cases ch) (simp_all add: writer_step_def)
    then show ?thesis by simp
  qed
  ultimately show ?thesis
    by (intro exI [of _ s] exI [of _ Vector1] exI [of _ 1]) simp
qed

section \<open>One flush and one round\<close>

lemma write_loop_complete:
  assumes "\<forall>r \<in> set rs. 0 \<le> r" and "int (length target) - int k \<le> sum_list rs"
  shows "write_loop rs target k = drop k target"
  using assms
proof (induction rs arbitrary: k)
  case Nil
  then show ?case by (simp add: write_loop.simps)
next
  case (Cons r rs)
  show ?case
  proof (cases "k < length target")
    case True
    have "write_loop rs target (k + nat r) = drop (k + nat r) target"
      using Cons by (intro Cons.IH) auto
    with True Cons.prems show ?thesis
      by (subst write_loop.simps) (simp add: add.commute [of "nat r"])
  qed (simp add: write_loop.simps)
qed

text \<open>
  with no interference, a \<open>flush\<close> of an idle logger followed by one round of the
  background thread whose \<open>::write\<close> calls, partial or not, do not fail appends the whole
  current buffer to the file, leaves both buffers empty and allows the next flush; the round
  ends the thread exactly when the destructor has run.
\<close>

theorem flush_then_round:
  assumes "\<not> is_writing s" and "vec s (next_vector s) = []" and "current_vector s \<noteq> next_vector s"
    and "\<forall>r \<in> set rs. 0 \<le> r" and "int (length (vec s (current_vector s))) \<le> sum_list rs"
    and "flush s = (ok, s1)" and "writer_round rs s1 = (finished, s2)"
  shows "ok \<and> log_file s2 = log_file s @ vec s (current_vector s)
    \<and> vec s2 v = [] \<and> \<not> is_writing s2 \<and> \<not> has_data_to_write s2
    \<and> current_vector s2 = next_vector s \<and> next_vector s2 = current_vector s
    \<and> finished = (\<not> is_running s)"
proof -
  have *: "write_loop rs (vec s (current_vector s)) 0 = vec s (current_vector s)"
    using write_loop_complete [OF assms(4), of "vec s (current_vector s)" 0] assms(5) by simp
  have s1: "s1 = s\<lparr>is_writing := True, current_vector := next_vector s,
      next_vector := current_vector s, has_data_to_write := True\<rparr>" and ok
    using assms(1,6) by (simp_all add: flush_def Let_def)
  have vecs: "v = current_vector s \<or> v = next_vector s"
    using assms(3) by (metis vec_id.exhaust)
  show ?thesis
    using assms(2,3,7) vecs \<open>ok\<close> *
    by (cases "vec s (current_vector s) = []") (auto simp: s1 writer_round_def Let_def)
qed

definition idle_log :: log_struct where
  "idle_log = (the (LogStruct True 0 2 8 10))\<lparr>vector1 := [1, 2, 3, 4]\<rparr>"

theorem flush_then_round_witness:
  "log_file (snd (writer_round [3, 0, 1] (snd (flush idle_log)))) = [1, 2, 3, 4]"
proof -
  have "\<not> is_writing idle_log" "vec idle_log (next_vector idle_log) = []"
    "current_vector idle_log \<noteq> next_vector idle_log"
    "int (length (vec idle_log (current_vector idle_log))) \<le> sum_list [3, 0, 1]"
    by (simp_all add: idle_log_def LogStruct_def vec_def)
  then show ?thesis
    using flush_then_round [of idle_log "[3, 0, 1]" "fst (flush idle_log)" "snd (flush idle_log)"
        "fst (writer_round [3, 0, 1] (snd (flush idle_log)))"
        "snd (writer_round [3, 0, 1] (snd (flush idle_log)))" Vector1]
    by (simp add: idle_log_def LogStruct_def vec_def)
qed

section \<open>The thread programs are the methods\<close>

definition go :: "nat \<Rightarrow> (client_choice + writer_choice) list" where
  "go n = replicate n (Inl Go)"

lemma go_simps [simp]: "go 0 = []" "go (Suc n) = Inl Go # go n"
  by (simp_all add: go_def)

lemma truncate_fields:
  "log_struct.truncate s = \<lparr>struct_size = struct_size s, byte_size = byte_size s,
     polling_interval = polling_interval s, is_running = is_running s, is_writing = is_writing s,
     has_data_to_write = has_data_to_write s, last_write_time = last_write_time s,
     vector1 = vector1 s, vector2 = vector2 s, current_vector = current_vector s,
     next_vector = next_vector s, fd_open = fd_open s, log_file = log_file s,
     buffers_freed = buffers_freed s, stop_requested = stop_requested s\<rparr>"
  by (cases s) (simp add: log_struct.truncate_def)

text \<open>The uninterrupted run of \<open>flush\<close> from its first line to its return.\<close>

lemma flush_program:
  assumes "client_pc s = P_Flush_Check c" and "flush (log_struct.truncate s) = (ok, s')"
  shows "\<exists>n u. run_schedule (go n) s = Some (flush_return ok c u)
     \<and> log_struct.truncate u = s' \<and> writer_pc u = writer_pc s \<and> accepted u = accepted s"
proof (cases "is_writing s")
  case True
  then have "\<not> ok" "s' = log_struct.truncate s"
    using assms(2) by (simp_all add: flush_def truncate_fields)
  with True assms(1) show ?thesis
    by (intro exI [of _ "Suc 0"] exI [of _ s]) (simp add: client_step_def)
next
  case False
  define u where "u = s\<lparr>is_writing := True, current_vector := next_vector s,
      next_vector := current_vector s, client_pc := P_Signal c, has_data_to_write := True\<rparr>"
  have "ok" "log_struct.truncate u = s'"
    using False assms(2) by (auto simp: flush_def Let_def truncate_fields u_def)
  moreover have "run_schedule (go 6) s = Some (flush_return True c u)"
    using False assms(1) by (simp add: client_step_def eval_nat_numeral u_def)
  ultimately show ?thesis
    by (intro exI [of _ 6] exI [of _ u]) (simp add: u_def)
qed

lemma run_schedule_append:
  "run_schedule (xs @ ys) s = (case run_schedule xs s of None \<Rightarrow> None | Some t \<Rightarrow> run_schedule ys t)"
  by (induction xs s rule: run_schedule.induct) (simp_all split: option.split)

text \<open>From the threshold test at the end of \<open>write\<close> to its return.\<close>

lemma check_program:
  assumes "client_pc s = P_Check cur"
    and "r = (if flush_due s cur now
              then let (ok, s') = flush (log_struct.truncate s)
                   in if ok then s'\<lparr>last_write_time := now\<rparr> else s'
              else log_struct.truncate s)"
  shows "\<exists>cs t. run_schedule (Inl (Clock now) # cs) s = Some t \<and> client_pc t = P_Idle
     \<and> log_struct.truncate t = r \<and> writer_pc t = writer_pc s \<and> accepted t = accepted s"
proof (cases "flush_due s cur now")
  case False
  with assms show ?thesis
    by (intro exI [of _ "[]"]) (simp add: client_step_def truncate_fields)
next
  case True
  define s1 where "s1 = s\<lparr>client_pc := P_Flush_Check (From_Write now)\<rparr>"
  obtain ok s' where fl: "flush (log_struct.truncate s1) = (ok, s')" by fastforce
  then obtain n u where u: "run_schedule (go n) s1 = Some (flush_return ok (From_Write now) u)"
      "log_struct.truncate u = s'" "writer_pc u = writer_pc s1" "accepted u = accepted s1"
    using flush_program [of s1 "From_Write now" ok s'] by (auto simp: s1_def)
  have "log_struct.truncate s1 = log_struct.truncate s"
    by (simp add: s1_def truncate_fields)
  moreover have "log_struct.truncate (flush_return ok (From_Write now) u) =
      (if ok then s'\<lparr>last_write_time := now\<rparr> else s')"
    using u(2) by (auto simp: flush_return_def truncate_fields)
  ultimately show ?thesis
    using True assms fl u
    by (intro exI [of _ "go n"] exI [of _ "flush_return ok (From_Write now) u"])
      (auto simp: client_step_def s1_def flush_return_def)
qed

lemma is_full_pc [simp]: "is_full (s\<lparr>client_pc := p\<rparr>) v = is_full s v"
  by (simp add: is_full_def)

lemma set_vec_pc:
  "set_vec v xs (s\<lparr>client_pc := p\<rparr>)\<lparr>accepted := a, client_pc := q\<rparr>
   = set_vec v xs s\<lparr>accepted := a, client_pc := q\<rparr>"
  by (cases v) (simp_all add: set_vec_def)

lemma on_truncate:
  "vec (log_struct.truncate s) v = vec s v" "is_full (log_struct.truncate s) v = is_full s v"
  "flush_due (log_struct.truncate s) v now = flush_due s v now"
  "current_vector (log_struct.truncate s) = current_vector s"
  "set_vec v xs (log_struct.truncate s) = log_struct.truncate (set_vec v xs s)"
  by (cases v; simp add: truncate_fields vec_def set_vec_def is_full_def flush_due_def)+

text \<open>
  \<open>write\<close>, run by its thread without interruption, has the result and the effect of the
  function that models it on every branch: a refused struct changes nothing, an accepted one
  is recorded, and the threshold test flushes and takes over the time only when the flush is
  taken.
\<close>

theorem write_program_refines:
  assumes "client_pc s = P_Idle" and "data \<in> insert None (Some ` {d. length d = struct_size s})"
    and "log_write data now (log_struct.truncate s) = (ok, s')"
  shows "\<exists>cs t. run_schedule (Inl (Call_Write data) # cs) s = Some t \<and> client_pc t = P_Idle
     \<and> log_struct.truncate t = s' \<and> writer_pc t = writer_pc s
     \<and> accepted t = accepted s @ (if ok then case_option [] id data else [])"
proof (cases "\<exists>d. data = Some d \<and> is_full s (current_vector s)")
  case True
  then have "\<not> ok" "s' = log_struct.truncate s"
    using assms(3) by (auto simp: log_write_def on_truncate Let_def)
  with True assms(1,2) show ?thesis
    by (intro exI [of _ "[Inl Go]"] exI [of _ s]) (auto simp: client_step_def)
next
  case False
  define cur where "cur = current_vector s"
  define s1 where "s1 = (set_vec cur (vec s cur @ case_option [] id data) s)
    \<lparr>accepted := accepted s @ case_option [] id data, client_pc := P_Check cur\<rparr>"
  have same: "set_vec cur (vec s cur) s = s" by (cases cur) (simp_all add: vec_def set_vec_def)
  have run: "run_schedule [Inl (Call_Write data), Inl Go] s = Some s1"
    using False assms(1,2) by (cases data) (auto simp: client_step_def s1_def cur_def set_vec_pc same [unfolded cur_def])
  have tr: "log_struct.truncate s1 =
      set_vec cur (vec s cur @ case_option [] id data) (log_struct.truncate s)"
    by (cases cur) (simp_all add: s1_def truncate_fields set_vec_def)
  have "ok \<and> s' = (if flush_due s1 cur now
              then let (ok, s') = flush (log_struct.truncate s1)
                   in if ok then s'\<lparr>last_write_time := now\<rparr> else s'
              else log_struct.truncate s1)"
    using False assms(3) unfolding tr on_truncate(3) [symmetric, of s1]
    by (cases data) (auto simp: log_write_def on_truncate cur_def same [unfolded cur_def] Let_def
        split: prod.splits if_splits)
  then obtain cs t where "run_schedule (Inl (Clock now) # cs) s1 = Some t" "client_pc t = P_Idle"
      "log_struct.truncate t = s'" "writer_pc t = writer_pc s1" "accepted t = accepted s1" and ok
    using check_program [of s1 cur s' now] by (auto simp: s1_def)
  then show ?thesis
    using run run_schedule_append [of "[Inl (Call_Write data), Inl Go]" "Inl (Clock now) # cs" s]
    by (intro exI [of _ "Inl Go # Inl (Clock now) # cs"] exI [of _ t]) (simp add: s1_def)
qed

theorem write_program_refines_witness:
  "\<exists>cs t. run_schedule (Inl (Call_Write (Some [9])) # cs) race_state = Some t \<and> client_pc t = P_Idle
     \<and> log_struct.truncate t = snd (log_write (Some [9]) 0 (log_struct.truncate race_state))
     \<and> accepted t = [7, 8, 9]"
proof -
  let ?r = "log_write (Some [9]) 0 (log_struct.truncate race_state)"
  have idle: "client_pc race_state = P_Idle" and acc: "accepted race_state = [7, 8]"
    and size: "Some [9 :: byte] \<in> insert None (Some ` {d. length d = struct_size race_state})"
    by (simp_all add: race_state_def)
  have "fst ?r"
    by (simp add: race_state_def log_write_def truncate_fields is_full_def flush_due_def
        log_size_t_def vec_def set_vec_def Let_def)
  then have r: "?r = (True, snd ?r)" by (simp add: prod_eq_iff)
  show ?thesis
    using write_program_refines [OF idle size r] by (auto simp: acc simp del: run_schedule.simps)
qed

end
