(* ===== verification/Atomic_File.thy ===== *)
theory Atomic_File
  imports Prelude
begin

text \<open>
  \<open>utils/filesystem_wrapper/atomic_file_writer\<close>: the class \<open>AtomicFileWriter\<close> writes to a
  temporary file beside the target and renames it over the target on \<open>commit()\<close>. The theory
  first models the calls of \<open>std::filesystem\<close>, \<open>stdio\<close> and POSIX that the class makes, on a
  file system whose snapshots are recorded so that atomicity can be stated, then the class,
  then what it promises.
\<close>

section \<open>Paths\<close>

definition slash :: char where "slash = CHR ''/''"

definition path_filename :: "string \<Rightarrow> string" where
  "path_filename p = rev (takeWhile (\<lambda>c. c \<noteq> slash) (rev p))"

definition parent_path :: "string \<Rightarrow> string" where
  "parent_path p =
     (let d = rev (dropWhile (\<lambda>c. c \<noteq> slash) (rev p));
          e = rev (dropWhile (\<lambda>c. c = slash) (rev d))
      in if e = [] then take 1 d else e)"

text \<open>\<open>operator/\<close> for a relative right-hand side.\<close>

definition path_join :: "string \<Rightarrow> string \<Rightarrow> string" where
  "path_join p q = (if p = [] \<or> last p = slash then p @ q else p @ [slash] @ q)"

fun ancestors :: "string \<Rightarrow> string list" where
  "ancestors p =
     (let q = parent_path p in if q = [] \<or> length p \<le> length q then [p] else p # ancestors q)"

declare ancestors.simps [simp del]

section \<open>The file system\<close>

text \<open>
  Regular files by path with their contents, directories, the messages sent to the logger,
  and \<open>history\<close>: the file map after every change, newest first. A process that reads
  concurrently, or after a crash between two calls, sees one of these maps.
\<close>

type_synonym file_map = "string \<rightharpoonup> string"

record world =
  files :: file_map
  dirs :: "string set"
  history :: "file_map list"
  log_lines :: "string list"

definition set_files :: "file_map \<Rightarrow> world \<Rightarrow> world" where
  "set_files m w = w\<lparr>files := m, history := m # history w\<rparr>"

definition log_line :: "string \<Rightarrow> string \<Rightarrow> world \<Rightarrow> world" where
  "log_line msg p w = w\<lparr>log_lines := log_lines w @ [msg @ '': '' @ p]\<rparr>"

definition path_exists :: "string \<Rightarrow> world \<Rightarrow> bool" where
  "path_exists p w \<longleftrightarrow> p \<in> dirs w \<or> files w p \<noteq> None"

text \<open>How a call ends: it returns, throws, or throws out of a destructor.\<close>

datatype 'a outcome = Returned 'a | Thrown string | Terminated

text \<open>
  What the operating system answers to the calls a writer makes. Counts are the bytes that
  leave the \<open>stdio\<close> buffer for the file when a call fails or the buffer happens to be
  written out early.
\<close>

record ctor_env =
  create_directories_ok :: bool
  fopen_ok :: bool

record write_env =
  fwrite_count :: nat
  fwrite_pushed :: nat

record commit_env =
  fflush_ok :: bool
  fflush_pushed :: nat
  fileno_ok :: bool
  fsync_ok :: bool
  fclose_pushed :: nat
  open_dir_ok :: bool
  rename_ok :: bool
  dir_fsync_ok :: bool
  dir_close_ok :: bool

record dtor_env =
  dtor_fclose_pushed :: nat
  exists_ok :: bool
  remove_ok :: bool

section \<open>The class\<close>

text \<open>\<open>file_\<close> is the null pointer or a stream with the bytes still in its buffer.\<close>

record atomic_file_writer =
  path :: string
  temp_path :: string
  stream :: "string option"

text \<open>Moving \<open>k\<close> bytes of the buffer of the stream to the temporary file.\<close>

definition push_bytes :: "nat \<Rightarrow> atomic_file_writer \<Rightarrow> world \<Rightarrow> atomic_file_writer \<times> world" where
  "push_bytes k a w =
     (case (stream a, files w (temp_path a)) of
        (Some buf, Some disk) \<Rightarrow>
          (a\<lparr>stream := Some (drop k buf)\<rparr>,
           set_files ((files w)(temp_path a \<mapsto> disk @ take k buf)) w)
      | _ \<Rightarrow> (a, w))"

definition create_directories :: "string \<Rightarrow> world \<Rightarrow> world" where
  "create_directories p w = w\<lparr>dirs := dirs w \<union> set (ancestors p)\<rparr>"

definition make_temp_path :: "string \<Rightarrow> string" where
  "make_temp_path p = path_join (parent_path p) (path_filename p) @ ''.tmp''"

text \<open>
  \<open>fopen(..., "wb")\<close> creates or truncates the temporary file. The exception leaves the
  constructor when the parent directory is missing and cannot be created.
\<close>

definition AtomicFileWriter :: "ctor_env \<Rightarrow> string \<Rightarrow> world \<Rightarrow> atomic_file_writer outcome \<times> world" where
  "AtomicFileWriter env p w =
     (let need_dir = parent_path p \<noteq> [] \<and> \<not> path_exists (parent_path p) w
      in if need_dir \<and> \<not> create_directories_ok env then (Thrown ''create_directories'', w)
         else
           let w1 = (if need_dir then create_directories (parent_path p) w else w);
               tmp = make_temp_path p
           in if fopen_ok env \<and> tmp \<notin> dirs w1
              then (Returned \<lparr>path = p, temp_path = tmp, stream = Some []\<rparr>,
                    set_files ((files w1)(tmp \<mapsto> [])) w1)
              else (Returned \<lparr>path = p, temp_path = tmp, stream = None\<rparr>,
                    log_line ''Failed to open file'' tmp w1))"

definition afw_write :: "write_env \<Rightarrow> string \<Rightarrow> atomic_file_writer \<Rightarrow> world
    \<Rightarrow> bool \<times> atomic_file_writer \<times> world" where
  "afw_write env data a w =
     (case stream a of
        None \<Rightarrow> (False, a, log_line ''File not opened'' (temp_path a) w)
      | Some buf \<Rightarrow>
          let written = min (fwrite_count env) (length data);
              (a1, w1) = push_bytes (fwrite_pushed env) (a\<lparr>stream := Some (buf @ take written data)\<rparr>) w
          in if written \<noteq> length data
             then (False, a1, log_line ''Failed to write data to file'' (temp_path a) w1)
             else (True, a1, w1))"

definition rename_file :: "bool \<Rightarrow> string \<Rightarrow> string \<Rightarrow> world \<Rightarrow> bool \<times> world" where
  "rename_file ok src dst w =
     (case files w src of
        None \<Rightarrow> (False, w)
      | Some c \<Rightarrow> if ok \<and> dst \<notin> dirs w
                  then (True, set_files ((files w)(src := None, dst \<mapsto> c)) w)
                  else (False, w))"

definition commit :: "commit_env \<Rightarrow> atomic_file_writer \<Rightarrow> world \<Rightarrow> bool \<times> atomic_file_writer \<times> world" where
  "commit env a w =
     (case stream a of
        None \<Rightarrow> (False, a, log_line ''File not opened'' (temp_path a) w)
      | Some buf \<Rightarrow>
          if \<not> fflush_ok env then
            (let (a1, w1) = push_bytes (fflush_pushed env) a w
             in (False, a1, log_line ''Failed to flush file'' (temp_path a) w1))
          else
            let (a1, w1) = push_bytes (length buf) a w
            in if \<not> fileno_ok env
               then (False, a1, log_line ''Failed to get file descriptor'' (temp_path a) w1)
               else if \<not> fsync_ok env
               then (False, a1, log_line ''Failed to sync file'' (temp_path a) w1)
               else
                 let (a2, w2) = push_bytes (fclose_pushed env) a1 w1;
                     a3 = a2\<lparr>stream := None\<rparr>;
                     parent_dir = (if parent_path (path a) = [] then ''.'' else parent_path (path a));
                     w3 = (if open_dir_ok env then w2 else log_line ''Failed to open directory'' parent_dir w2);
                     (renamed, w4) = rename_file (rename_ok env) (temp_path a) (path a) w3
                 in if \<not> renamed
                    then (False, a3, log_line ''Failed to rename file'' (temp_path a) w4)
                    else
                      let w5 = (if open_dir_ok env \<and> \<not> dir_fsync_ok env
                                then log_line ''Failed to sync directory'' parent_dir w4 else w4);
                          w6 = (if open_dir_ok env \<and> \<not> dir_close_ok env
                                then log_line ''Failed to close directory'' parent_dir w5 else w5)
                      in (True, a3, w6))"

text \<open>The throwing overloads of \<open>exists\<close> and \<open>remove\<close> end the program when they fail here.\<close>

definition destroy_afw :: "dtor_env \<Rightarrow> atomic_file_writer \<Rightarrow> world \<Rightarrow> unit outcome \<times> world" where
  "destroy_afw env a w =
     (let (a1, w1) = (if stream a \<noteq> None then push_bytes (dtor_fclose_pushed env) a w else (a, w))
      in if \<not> exists_ok env then (Terminated, w1)
         else if path_exists (temp_path a) w1 then
           (let w2 = log_line ''File not committed or committed failed'' (temp_path a) w1
            in if remove_ok env
               then (Returned (), set_files ((files w2)(temp_path a := None)) (w2\<lparr>dirs := dirs w2 - {temp_path a}\<rparr>))
               else (Terminated, w2))
         else (Returned (), w1))"

text \<open>\<open>filesystem_wrapper.cpp\<close>: the writer is a local variable, destroyed on every return.\<close>

definition atomicWriteFile :: "ctor_env \<Rightarrow> write_env \<Rightarrow> commit_env \<Rightarrow> dtor_env \<Rightarrow> string \<Rightarrow> string
    \<Rightarrow> world \<Rightarrow> bool outcome \<times> world" where
  "atomicWriteFile ce we me de p data w =
     (case AtomicFileWriter ce p w of
        (Thrown e, w1) \<Rightarrow> (Thrown e, w1)
      | (Terminated, w1) \<Rightarrow> (Terminated, w1)
      | (Returned a, w1) \<Rightarrow>
          let (ok, a2, w2) = afw_write we data a w1;
              (res, a3, w3) = (if ok then commit me a2 w2 else (False, a2, w2))
          in case destroy_afw de a3 w3 of
               (Returned u, w4) \<Rightarrow> (Returned res, w4)
             | (_, w4) \<Rightarrow> (Terminated, w4))"

section \<open>Paths: the temporary file is another file\<close>

lemma filename_no_slash: "slash \<notin> set (path_filename p)"
  by (auto simp: path_filename_def dest: set_takeWhileD)

lemma filename_append:
  assumes "slash \<notin> set q" and "p = [] \<or> last p = slash"
  shows "path_filename (p @ q) = q"
proof -
  have "takeWhile (\<lambda>c. c \<noteq> slash) (rev q @ rev p) = rev q"
    using assms by (cases p rule: rev_cases) (auto simp: takeWhile_append takeWhile_eq_all_conv [THEN iffD2])
  then show ?thesis by (simp add: path_filename_def)
qed

lemma filename_join:
  assumes "slash \<notin> set q"
  shows "path_filename (path_join p q) = q"
proof (cases "p = [] \<or> last p = slash")
  case True
  then show ?thesis using filename_append [OF assms True] by (simp add: path_join_def)
next
  case False
  then show ?thesis using filename_append [OF assms, of "p @ [slash]"] by (simp add: path_join_def)
qed

lemma filename_temp_path: "path_filename (make_temp_path p) = path_filename p @ ''.tmp''"
proof -
  have "make_temp_path p = path_join (parent_path p) (path_filename p @ ''.tmp'')"
    by (simp add: make_temp_path_def path_join_def)
  moreover have "slash \<notin> set (path_filename p @ ''.tmp'')"
    using filename_no_slash by (auto simp: slash_def)
  ultimately show ?thesis by (metis filename_join)
qed

lemma temp_path_neq [simp]: "make_temp_path p \<noteq> p" "p \<noteq> make_temp_path p"
  using filename_temp_path [of p] by (metis append_self_conv list.distinct(1))+

section \<open>What each operation does to the file map\<close>

text \<open>Every map seen so far satisfies \<open>P\<close>.\<close>

definition all_seen :: "(file_map \<Rightarrow> bool) \<Rightarrow> world \<Rightarrow> bool" where
  "all_seen P w \<longleftrightarrow> P (files w) \<and> (\<forall>m \<in> set (history w). P m)"

definition ignores :: "string \<Rightarrow> (file_map \<Rightarrow> bool) \<Rightarrow> bool" where
  "ignores q P \<longleftrightarrow> (\<forall>m c. P m \<longrightarrow> P (m(q := c)))"

text \<open>The bytes given to the stream so far: what is in the file and then in the buffer.\<close>

definition holds :: "atomic_file_writer \<Rightarrow> world \<Rightarrow> string \<Rightarrow> bool" where
  "holds a w d \<longleftrightarrow>
     (\<exists>buf disk. stream a = Some buf \<and> files w (temp_path a) = Some disk \<and> disk @ buf = d)"

lemma all_seen_set_files: "all_seen P w \<Longrightarrow> P m \<Longrightarrow> all_seen P (set_files m w)"
  by (simp add: all_seen_def set_files_def)

lemma all_seen_upd: "ignores q P \<Longrightarrow> all_seen P w \<Longrightarrow> P ((files w)(q := c))"
  by (simp add: all_seen_def ignores_def)

lemma world_fields [simp]:
  "files (set_files m w) = m" "dirs (set_files m w) = dirs w"
  "files (log_line s p w) = files w" "dirs (log_line s p w) = dirs w"
  "all_seen P (log_line s p w) = all_seen P w"
  "files (w\<lparr>dirs := D\<rparr>) = files w" "all_seen P (w\<lparr>dirs := D\<rparr>) = all_seen P w"
  "files (create_directories p w) = files w" "all_seen P (create_directories p w) = all_seen P w"
  by (simp_all add: set_files_def log_line_def all_seen_def create_directories_def)

lemma push_bytes_spec:
  assumes "push_bytes k a w = (a', w')"
  shows "path a' = path a" "temp_path a' = temp_path a" "dirs w' = dirs w"
    and "(files w')(temp_path a := None) = (files w)(temp_path a := None)"
    and "holds a w d \<Longrightarrow> holds a' w' d"
    and "ignores (temp_path a) P \<Longrightarrow> all_seen P w \<Longrightarrow> all_seen P w'"
  using assms
  by (auto simp: push_bytes_def holds_def ignores_def all_seen_def set_files_def
      split: option.splits prod.splits)

lemma push_bytes_all:
  assumes "push_bytes (length buf) a w = (a', w')" and "stream a = Some buf" and "holds a w d"
  shows "stream a' = Some []" and "files w' (temp_path a) = Some d"
  using assms by (auto simp: push_bytes_def holds_def split: option.splits)

lemma push_bytes_empty:
  assumes "push_bytes k a w = (a', w')" and "stream a = Some []" and "files w (temp_path a) = Some d"
  shows "files w' = files w"
  using assms by (auto simp: push_bytes_def)

lemma AtomicFileWriter_spec:
  assumes "AtomicFileWriter env p w = (Returned a, w')"
  shows "path a = p" "temp_path a = make_temp_path p"
    and "(files w')(make_temp_path p := None) = (files w)(make_temp_path p := None)"
    and "stream a \<noteq> None \<Longrightarrow> holds a w' []"
    and "ignores (make_temp_path p) P \<Longrightarrow> all_seen P w \<Longrightarrow> all_seen P w'"
  using assms
  by (auto simp: AtomicFileWriter_def Let_def holds_def ignores_def all_seen_set_files
      split: if_splits) (simp_all add: all_seen_def set_files_def create_directories_def)

lemma AtomicFileWriter_thrown:
  "AtomicFileWriter env p w = (Thrown e, w') \<Longrightarrow> w' = w"
  "AtomicFileWriter env p w \<noteq> (Terminated, w')"
  by (auto simp: AtomicFileWriter_def Let_def split: if_splits)

lemma afw_write_spec:
  assumes "afw_write env data a w = (ok, a', w')"
  shows "path a' = path a" "temp_path a' = temp_path a" "dirs w' = dirs w"
    and "(files w')(temp_path a := None) = (files w)(temp_path a := None)"
    and "ok \<Longrightarrow> holds a w d \<Longrightarrow> holds a' w' (d @ data)"
    and "ignores (temp_path a) P \<Longrightarrow> all_seen P w \<Longrightarrow> all_seen P w'"
    and "ok \<Longrightarrow> stream a \<noteq> None"
proof -
  show "path a' = path a" "temp_path a' = temp_path a" "dirs w' = dirs w"
    "(files w')(temp_path a := None) = (files w)(temp_path a := None)"
    "ignores (temp_path a) P \<Longrightarrow> all_seen P w \<Longrightarrow> all_seen P w'"
    "ok \<Longrightarrow> stream a \<noteq> None"
    using assms
    by (auto simp: afw_write_def Let_def split: option.splits prod.splits if_splits
        dest: push_bytes_spec)
  assume "ok" "holds a w d"
  then obtain buf where buf: "stream a = Some buf" by (auto simp: holds_def)
  have "holds (a\<lparr>stream := Some (buf @ data)\<rparr>) w (d @ data)"
    using \<open>holds a w d\<close> buf by (auto simp: holds_def)
  with assms buf \<open>ok\<close> show "holds a' w' (d @ data)"
    by (auto simp: afw_write_def Let_def split: prod.splits if_splits dest: push_bytes_spec)
qed

lemma rename_file_spec:
  assumes "rename_file ok src dst w = (renamed, w')"
  shows "\<not> renamed \<Longrightarrow> w' = w"
    and "renamed \<Longrightarrow> files w src = Some c \<Longrightarrow> files w' = (files w)(src := None, dst \<mapsto> c)"
    and "renamed \<Longrightarrow> history w' = files w' # history w"
  using assms by (auto simp: rename_file_def set_files_def split: option.splits if_splits)

lemma push_bytes_frame:
  "push_bytes k a w = (a', w') \<Longrightarrow> temp_path a' = temp_path a
     \<and> (files w')(temp_path a := None) = (files w)(temp_path a := None)
     \<and> (\<forall>P. ignores (temp_path a) P \<longrightarrow> all_seen P w \<longrightarrow> all_seen P w')"
  using push_bytes_spec [of k a w a' w'] by blast

lemma commit_false:
  assumes "commit env a w = (False, a', w')"
  shows "temp_path a' = temp_path a
    \<and> (files w')(temp_path a := None) = (files w)(temp_path a := None)
    \<and> (\<forall>P. ignores (temp_path a) P \<longrightarrow> all_seen P w \<longrightarrow> all_seen P w')"
  using assms
  by (auto simp: commit_def Let_def split: option.splits prod.splits if_splits
      dest!: push_bytes_frame rename_file_spec(1))

lemma commit_true:
  assumes "commit env a w = (True, a', w')" and held: "holds a w d"
    and "path a \<noteq> temp_path a"
  shows "temp_path a' = temp_path a \<and> stream a' = None
    \<and> files w' (path a) = Some d \<and> files w' (temp_path a) = None
    \<and> (\<forall>q. q \<noteq> path a \<longrightarrow> q \<noteq> temp_path a \<longrightarrow> files w' q = files w q)
    \<and> (\<forall>P. ignores (temp_path a) P \<longrightarrow> all_seen P w \<longrightarrow> P (files w') \<longrightarrow> all_seen P w')"
proof -
  obtain buf where buf: "stream a = Some buf" using held by (auto simp: holds_def)
  obtain a1 w1 where p1: "push_bytes (length buf) a w = (a1, w1)" by fastforce
  obtain a2 w2 where p2: "push_bytes (fclose_pushed env) a1 w1 = (a2, w2)" by fastforce
  define dir where "dir = (if parent_path (path a) = [] then ''.'' else parent_path (path a))"
  define w3 where "w3 = (if open_dir_ok env then w2 else log_line ''Failed to open directory'' dir w2)"
  obtain r w4 where p3: "rename_file (rename_ok env) (temp_path a) (path a) w3 = (r, w4)" by fastforce
  have r: "r" "a' = a2\<lparr>stream := None\<rparr>"
    and w': "files w' = files w4" "\<And>P. all_seen P w' = all_seen P w4"
    using assms(1) p3
    unfolding commit_def buf option.case p1 Let_def prod.case p2 dir_def [symmetric] w3_def [symmetric]
    by (auto split: if_splits prod.splits)
  note f1 = push_bytes_frame [OF p1] and f2 = push_bytes_frame [OF p2]
  have s1: "stream a1 = Some []" "files w1 (temp_path a) = Some d"
    using push_bytes_all [OF p1 buf held] by auto
  have w2: "files w2 = files w1" using push_bytes_empty [OF p2 s1(1)] s1(2) f1 by simp
  have w3: "files w3 = files w2" "\<And>P. all_seen P w3 = all_seen P w2" by (simp_all add: w3_def)
  have w4: "files w4 = (files w1)(temp_path a := None, path a \<mapsto> d)"
    using rename_file_spec(2) [OF p3 r(1), of d] s1(2) w2 w3 by simp
  have "all_seen P w'" if "ignores (temp_path a) P" "all_seen P w" "P (files w')" for P
  proof -
    have "all_seen P w3" using f1 f2 w3(2) that by metis
    then have "all_seen P w4"
      using rename_file_spec(3) [OF p3 r(1)] w'(1) that(3) by (simp add: all_seen_def)
    then show ?thesis using w'(2) by simp
  qed
  moreover have "files w' q = files w q" if "q \<noteq> path a" "q \<noteq> temp_path a" for q
    using that w4 w' f1 by (metis fun_upd_other)
  ultimately show ?thesis using w' w4 r f1 f2 assms(3) by simp
qed

lemma destroy_afw_frame:
  assumes "destroy_afw env a w = (res, w')"
  shows "(files w')(temp_path a := None) = (files w)(temp_path a := None)
    \<and> (\<forall>P. ignores (temp_path a) P \<longrightarrow> all_seen P w \<longrightarrow> all_seen P w')
    \<and> (res = Returned () \<longrightarrow> files w' (temp_path a) = None)"
  using assms
  by (auto simp: destroy_afw_def Let_def path_exists_def all_seen_set_files all_seen_upd
      split: if_splits prod.splits dest!: push_bytes_frame)

text \<open>\<open>atomicWriteFile\<close> taken apart once, for the theorems below.\<close>

lemma atomicWriteFile_cases:
  assumes "atomicWriteFile ce we me de p data w = (res, w')"
  obtains (thrown) e where "AtomicFileWriter ce p w = (Thrown e, w')" "res = Thrown e" "w' = w"
  | (refused) a w1 a2 w2 d where "AtomicFileWriter ce p w = (Returned a, w1)"
      "afw_write we data a w1 = (False, a2, w2)" "destroy_afw de a2 w2 = (d, w')"
      "res = (case d of Returned u \<Rightarrow> Returned False | _ \<Rightarrow> Terminated)"
  | (committed) a w1 a2 w2 ok a3 w3 d where "AtomicFileWriter ce p w = (Returned a, w1)"
      "afw_write we data a w1 = (True, a2, w2)" "commit me a2 w2 = (ok, a3, w3)"
      "destroy_afw de a3 w3 = (d, w')" "res = (case d of Returned u \<Rightarrow> Returned ok | _ \<Rightarrow> Terminated)"
proof -
  obtain r0 w1 where c: "AtomicFileWriter ce p w = (r0, w1)" by fastforce
  show thesis
  proof (cases r0)
    case (Thrown e)
    then show thesis
      using assms c AtomicFileWriter_thrown(1) [of ce p w e w1]
      by (intro thrown) (auto simp: atomicWriteFile_def)
  next
    case Terminated
    then show thesis using c AtomicFileWriter_thrown(2) by blast
  next
    case (Returned a)
    obtain ok1 a2 w2 where wr: "afw_write we data a w1 = (ok1, a2, w2)" using prod_cases3 by blast
    obtain ok a3 w3 where cm: "commit me a2 w2 = (ok, a3, w3)" using prod_cases3 by blast
    show thesis
    proof (cases ok1)
      case True
      obtain d w4 where "destroy_afw de a3 w3 = (d, w4)" by fastforce
      with assms c wr cm Returned True show thesis
        by (intro committed [of a w1 a2 w2 ok a3 w3 d])
          (auto simp: atomicWriteFile_def split: outcome.splits)
    next
      case False
      obtain d w4 where "destroy_afw de a2 w2 = (d, w4)" by fastforce
      with assms c wr Returned False show thesis
        by (intro refused [of a w1 a2 w2 d])
          (auto simp: atomicWriteFile_def split: outcome.splits)
    qed
  qed
qed

lemma fun_upd_None_D: "m(q := None) = m'(q := None) \<Longrightarrow> r \<noteq> q \<Longrightarrow> m r = m' r"
  by (metis fun_upd_other)

lemma atomic_write_effect:
  assumes "atomicWriteFile ce we me de p data w = (Returned True, w')"
  shows "files w' p = Some data \<and> files w' (make_temp_path p) = None
    \<and> (q \<notin> {p, make_temp_path p} \<longrightarrow> files w' q = files w q)"
  using assms
proof (cases rule: atomicWriteFile_cases)
  case (committed a w1 a2 w2 ok a3 w3 d)
  note ctor = AtomicFileWriter_spec [OF committed(1)]
  note wr = afw_write_spec [OF committed(2)]
  have d: "d = Returned ()" "ok" using committed(5) by (auto split: outcome.splits)
  have "holds a2 w2 data" using wr(5,7) ctor(4) by force
  with committed(3) d have c: "temp_path a3 = make_temp_path p" "files w3 p = Some data"
      "\<forall>q. q \<noteq> p \<longrightarrow> q \<noteq> make_temp_path p \<longrightarrow> files w3 q = files w2 q"
    using commit_true [of me a2 w2 a3 w3 data] ctor(1,2) wr(1,2) by auto
  note ds = destroy_afw_frame [OF committed(4), unfolded c(1)]
  show ?thesis
    using c ds d fun_upd_None_D [of "files w'" "make_temp_path p" "files w3"]
      fun_upd_None_D [OF wr(4)] fun_upd_None_D [OF ctor(3)] ctor(2) by auto
qed (auto split: outcome.splits)

section \<open>Properties\<close>

text \<open>
  C10: when \<open>atomicWriteFile\<close> returns true the target holds exactly the given data, the
  temporary file is gone and every other file is as before, whatever partial writes and
  failures of the directory calls happened on the way.
\<close>

theorem atomic_write_success:
  assumes "atomicWriteFile ce we me de p data w = (Returned True, w')"
  shows "files w' p = Some data \<and> files w' (make_temp_path p) = None
    \<and> (q \<notin> {p, make_temp_path p} \<longrightarrow> files w' q = files w q)"
  by (rule atomic_write_effect [OF assms])

text \<open>
  C27: when it returns false the target and every other file but the temporary one are
  untouched, and the temporary file has been removed.
\<close>

theorem atomic_write_failure:
  assumes "atomicWriteFile ce we me de p data w = (Returned False, w')"
  shows "files w' = (files w)(make_temp_path p := None)"
  using assms
proof (cases rule: atomicWriteFile_cases)
  case (refused a w1 a2 w2 d)
  note ctor = AtomicFileWriter_spec [OF refused(1)]
  note wr = afw_write_spec [OF refused(2)]
  have d: "d = Returned ()" using refused(4) by (auto split: outcome.splits)
  show ?thesis
    using destroy_afw_frame [OF refused(3)] d wr(2,4) ctor(2,3) by (metis fun_upd_triv)
next
  case (committed a w1 a2 w2 ok a3 w3 d)
  note ctor = AtomicFileWriter_spec [OF committed(1)]
  note wr = afw_write_spec [OF committed(2)]
  have d: "d = Returned ()" "\<not> ok" using committed(5) by (auto split: outcome.splits)
  have c: "temp_path a3 = make_temp_path p"
      "(files w3)(make_temp_path p := None) = (files w)(make_temp_path p := None)"
    using commit_false [of me a2 w2 a3 w3] committed(3) d(2) wr(2,4) ctor(2,3) by simp_all
  show ?thesis
    using destroy_afw_frame [OF committed(4)] d(1) unfolding c(1) by (metis c(2) fun_upd_triv)
qed simp

text \<open>
  C2: atomicity. In every file map that exists at any moment of \<open>atomicWriteFile\<close>, however
  it ends (true, false, an exception, or termination in the destructor), the target has its
  old contents or the complete new data.
\<close>

theorem atomic_write_all_or_nothing:
  assumes "atomicWriteFile ce we me de p data w = (res, w')" and "history w = []"
    and "m \<in> insert (files w') (set (history w'))"
  shows "m p = files w p \<or> m p = Some data"
proof -
  define P where "P m \<longleftrightarrow> m p = files w p \<or> m p = Some data" for m :: file_map
  have ign: "ignores (make_temp_path p) P" by (simp add: ignores_def P_def)
  have start: "all_seen P w" using assms(2) by (simp add: all_seen_def P_def)
  have "all_seen P w'"
    using assms(1)
  proof (cases rule: atomicWriteFile_cases)
    case (thrown e)
    then show ?thesis using start by simp
  next
    case (refused a w1 a2 w2 d)
    note ctor = AtomicFileWriter_spec [OF refused(1)]
    note wr = afw_write_spec [OF refused(2)]
    show ?thesis
      using destroy_afw_frame [OF refused(3)] wr(2) wr(6) ctor(2) ctor(5) ign start by simp
  next
    case (committed a w1 a2 w2 ok a3 w3 d)
    note ctor = AtomicFileWriter_spec [OF committed(1)]
    note wr = afw_write_spec [OF committed(2)]
    have w2: "all_seen P w2" using wr(6) ctor(2) ctor(5) ign start by simp
    have "all_seen P w3 \<and> temp_path a3 = temp_path a2"
    proof (cases ok)
      case True
      have "holds a2 w2 data" using wr(5,7) ctor(4) by force
      then show ?thesis
        using commit_true [of me a2 w2 a3 w3 data] committed(3) True w2 ign wr(1,2) ctor(1,2)
        by (auto simp: P_def)
    next
      case False
      then show ?thesis
        using commit_false [of me a2 w2 a3 w3] committed(3) w2 ign wr(2) ctor(2) by simp
    qed
    then show ?thesis
      using destroy_afw_frame [OF committed(4)] wr(2) ctor(2) ign by simp
  qed
  then show ?thesis using assms(3) by (auto simp: all_seen_def P_def)
qed

text \<open>A run in which the data leaves the buffer in pieces and the directory sync fails.\<close>

definition demo_world :: world where
  "demo_world = \<lparr>files = [''d/cfg'' \<mapsto> ''old'', ''d/x'' \<mapsto> ''x''], dirs = {''d''}, history = [], log_lines = []\<rparr>"

definition demo_commit :: commit_env where
  "demo_commit = \<lparr>fflush_ok = True, fflush_pushed = 0, fileno_ok = True, fsync_ok = True,
     fclose_pushed = 0, open_dir_ok = True, rename_ok = True, dir_fsync_ok = False, dir_close_ok = True\<rparr>"

abbreviation demo_write :: "nat \<Rightarrow> bool outcome \<times> world" where
  "demo_write n \<equiv> atomicWriteFile \<lparr>create_directories_ok = True, fopen_ok = True\<rparr>
     \<lparr>fwrite_count = n, fwrite_pushed = 2\<rparr> demo_commit
     \<lparr>dtor_fclose_pushed = 0, exists_ok = True, remove_ok = True\<rparr> ''d/cfg'' ''new!'' demo_world"

lemmas afw_exec = atomicWriteFile_def AtomicFileWriter_def afw_write_def commit_def destroy_afw_def
  push_bytes_def rename_file_def set_files_def log_line_def path_exists_def make_temp_path_def
  path_join_def parent_path_def path_filename_def slash_def demo_world_def demo_commit_def Let_def

lemma demo_write_ok: "fst (demo_write 4) = Returned True"
  and demo_write_short: "fst (demo_write 3) = Returned False"
  by (simp_all add: afw_exec)

theorem atomic_write_success_witness:
  "fst (demo_write 4) = Returned True \<and> files (snd (demo_write 4)) ''d/cfg'' = Some ''new!''
   \<and> files (snd (demo_write 4)) ''d/x'' = Some ''x''"
proof -
  obtain w' where w': "demo_write 4 = (Returned True, w')"
    using demo_write_ok by (metis prod.collapse)
  have "''d/x'' \<notin> {''d/cfg'', make_temp_path ''d/cfg''}" "files demo_world ''d/x'' = Some ''x''"
    by (simp_all add: afw_exec)
  then show ?thesis
    using atomic_write_success [OF w', of "''d/x''"] w' by simp
qed

theorem atomic_write_failure_witness:
  "fst (demo_write 3) = Returned False
   \<and> files (snd (demo_write 3)) = (files demo_world)(make_temp_path ''d/cfg'' := None)"
proof -
  obtain w' where w': "demo_write 3 = (Returned False, w')"
    using demo_write_short by (metis prod.collapse)
  then show ?thesis using atomic_write_failure [OF w'] by simp
qed

theorem atomic_write_all_or_nothing_witness:
  "history demo_world = [] \<and> length (history (snd (demo_write 4))) = 5
   \<and> (history (snd (demo_write 4)) ! 4) ''d/cfg'' = Some ''old''
   \<and> (history (snd (demo_write 4)) ! 0) ''d/cfg'' = Some ''new!''"
proof -
  have h: "history demo_world = []" by (simp add: demo_world_def)
  have len: "length (history (snd (demo_write 4))) = 5" by (simp add: afw_exec)
  have seen: "(history (snd (demo_write 4)) ! i) ''d/cfg'' \<in> {Some ''old'', Some ''new!''}" if "i < 5" for i
  proof -
    have "history (snd (demo_write 4)) ! i \<in> insert (files (snd (demo_write 4))) (set (history (snd (demo_write 4))))"
      using len that by simp
    then show ?thesis
      using atomic_write_all_or_nothing [OF prod.collapse [of "demo_write 4", symmetric] h]
      by (auto simp: demo_world_def)
  qed
  show ?thesis using h len seen [of 4] seen [of 0] by (simp add: afw_exec)
qed

text \<open>
  the comment in the constructor says that it cannot throw, but it calls the throwing
  overload of \<open>create_directories\<close>: when the parent directory does not exist and cannot be
  created, the exception leaves the constructor and \<open>atomicWriteFile\<close>, for every target
  and every data.
\<close>

theorem constructor_can_throw:
  assumes "parent_path p \<noteq> []" and "\<not> path_exists (parent_path p) w" and "\<not> create_directories_ok ce"
  shows "\<exists>e. AtomicFileWriter ce p w = (Thrown e, w) \<and> atomicWriteFile ce we me de p data w = (Thrown e, w)"
  using assms by (simp add: AtomicFileWriter_def atomicWriteFile_def)

theorem constructor_can_throw_witness:
  "\<exists>e. AtomicFileWriter \<lparr>create_directories_ok = False, fopen_ok = True\<rparr> ''e/cfg'' demo_world = (Thrown e, demo_world)"
proof -
  have "parent_path ''e/cfg'' \<noteq> []" "\<not> path_exists (parent_path ''e/cfg'') demo_world"
    by (simp_all add: parent_path_def slash_def path_exists_def demo_world_def Let_def)
  then show ?thesis
    using constructor_can_throw [of "''e/cfg''" demo_world "\<lparr>create_directories_ok = False, fopen_ok = True\<rparr>"
        "\<lparr>fwrite_count = 0, fwrite_pushed = 0\<rparr>" demo_commit
        "\<lparr>dtor_fclose_pushed = 0, exists_ok = True, remove_ok = True\<rparr>" "''a''"]
    by auto
qed

end
