(* ===== verification/Filesystem_Wrapper.thy ===== *)
theory Filesystem_Wrapper
  imports Atomic_File
begin

text \<open>
  \<open>utils/filesystem_wrapper/filesystem_wrapper.cpp\<close>: the free functions on paths. \<open>Trim\<close>
  runs a regular expression; it is modelled as the search that \<open>std::regex_replace\<close> makes and
  proved equal to stripping both ends. Reading is modelled on the file system of
  \<open>Atomic_File\<close>; many functions of the file are stubs that ignore their argument.
\<close>

section \<open>detail::Trim\<close>

text \<open>\<open>\s\<close> in the ECMAScript grammar with the classic locale.\<close>

definition is_space :: "char \<Rightarrow> bool" where
  "is_space c \<longleftrightarrow> of_char c \<in> {9, 10, 11, 12, 13, 32 :: nat}"

text \<open>
  \<open>std::regex_replace(str, "^\s+|\s+$", "")\<close>: the search moves right one character at a
  time; \<open>^\<close> matches only where the text begins (later searches have
  \<open>match_prev_avail\<close>), \<open>\s+$\<close> where a run of blanks reaches the end; a match is dropped
  and the search goes on behind it.
\<close>

function trim_search :: "bool \<Rightarrow> string \<Rightarrow> string" where
  "trim_search at_begin [] = []"
| "trim_search at_begin (c # cs) =
     (if at_begin \<and> is_space c then trim_search False (dropWhile is_space cs)
      else if is_space c \<and> dropWhile is_space cs = [] then []
      else c # trim_search False cs)"
  by pat_completeness auto
termination
  by (relation "measure (length \<circ> snd)")
    (auto simp: le_imp_less_Suc length_dropWhile_le)

definition Trim :: "string \<Rightarrow> string" where
  "Trim str = trim_search True str"

definition strip :: "string \<Rightarrow> string" where
  "strip s = rev (dropWhile is_space (rev (dropWhile is_space s)))"

lemma strip_end_Cons:
  "rev (dropWhile is_space (rev (c # cs))) =
     (if is_space c \<and> dropWhile is_space cs = [] then [] else c # rev (dropWhile is_space (rev cs)))"
  by (auto simp: dropWhile_append)

lemma trim_search_end: "trim_search False s = rev (dropWhile is_space (rev s))"
proof (induction s)
  case (Cons c cs)
  then show ?case unfolding strip_end_Cons by simp
qed simp

lemma Trim_strip: "Trim s = strip s"
proof (cases s)
  case (Cons c cs)
  then show ?thesis
    unfolding Trim_def strip_def
    using trim_search_end [of "c # cs"]
    by (cases "is_space c") (simp_all add: trim_search_end)
qed (simp add: Trim_def strip_def)

section \<open>The stubs\<close>

definition isPathExist :: "string \<Rightarrow> world \<Rightarrow> bool" where "isPathExist p w = path_exists p w"

definition isFile :: "string \<Rightarrow> bool" where "isFile p = True"
definition isDirectory :: "string \<Rightarrow> bool" where "isDirectory p = True"
definition isFileExist :: "string \<Rightarrow> bool" where "isFileExist p = True"
definition isDirectoryExist :: "string \<Rightarrow> bool" where "isDirectoryExist p = True"

definition createDirectoryIfNotExists :: "string \<Rightarrow> world \<Rightarrow> bool \<times> world" where
  "createDirectoryIfNotExists p w = (True, w)"
definition deleteFile :: "string \<Rightarrow> world \<Rightarrow> bool \<times> world" where
  "deleteFile p w = (True, w)"
definition deleteDirectory :: "string \<Rightarrow> world \<Rightarrow> bool \<times> world" where
  "deleteDirectory p w = (True, w)"
definition deleteDirectoryContents :: "string \<Rightarrow> world \<Rightarrow> bool \<times> world" where
  "deleteDirectoryContents p w = (True, w)"
definition copyFile :: "string \<Rightarrow> string \<Rightarrow> world \<Rightarrow> bool \<times> world" where
  "copyFile src dst w = (True, w)"
definition copyDirectory :: "string \<Rightarrow> string \<Rightarrow> world \<Rightarrow> bool \<times> world" where
  "copyDirectory src dst w = (True, w)"
definition copyDirectoryContents :: "string \<Rightarrow> string \<Rightarrow> world \<Rightarrow> bool \<times> world" where
  "copyDirectoryContents src dst w = (True, w)"
definition moveFile :: "string \<Rightarrow> string \<Rightarrow> world \<Rightarrow> bool \<times> world" where
  "moveFile src dst w = (True, w)"
definition moveDirectory :: "string \<Rightarrow> string \<Rightarrow> world \<Rightarrow> bool \<times> world" where
  "moveDirectory src dst w = (True, w)"
definition moveDirectoryContents :: "string \<Rightarrow> string \<Rightarrow> world \<Rightarrow> bool \<times> world" where
  "moveDirectoryContents src dst w = (True, w)"
definition hasReadPermission :: "string \<Rightarrow> bool" where "hasReadPermission p = True"
definition hasWritePermission :: "string \<Rightarrow> bool" where "hasWritePermission p = True"
definition hasExecutePermission :: "string \<Rightarrow> bool" where "hasExecutePermission p = True"

definition getFileSize :: "string \<Rightarrow> (nat, string) expected" where "getFileSize p = Inr 0"
definition getFileModificationTime :: "int \<Rightarrow> string \<Rightarrow> (int, string) expected" where
  "getFileModificationTime now p = Inr now"
definition getFileCreationTime :: "int \<Rightarrow> string \<Rightarrow> (int, string) expected" where
  "getFileCreationTime now p = Inr now"
definition getDirectoryContents :: "string \<Rightarrow> (string list, string) expected" where
  "getDirectoryContents p = Inr []"
definition getDirectoryContentsRelative :: "string \<Rightarrow> (string list, string) expected" where
  "getDirectoryContentsRelative p = Inr []"

section \<open>Reading\<close>

text \<open>
  An \<open>std::ifstream\<close> after its constructor: whether it is open and its state bits. The
  constructor of the string walks the stream's buffer through \<open>istreambuf_iterator\<close>, which
  does not touch the state bits of the stream. On a directory the buffer's read fails and
  throws.
\<close>

record ifstream =
  is_open :: bool
  failbit :: bool
  eofbit :: bool

definition open_ifstream :: "bool \<Rightarrow> string \<Rightarrow> world \<Rightarrow> ifstream" where
  "open_ifstream open_ok p w =
     (let ok = open_ok \<and> path_exists p w in \<lparr>is_open = ok, failbit = \<not> ok, eofbit = False\<rparr>)"

definition streambuf_contents :: "string \<Rightarrow> world \<Rightarrow> string option" where
  "streambuf_contents p w = files w p"

definition readFileContent :: "bool \<Rightarrow> string \<Rightarrow> world \<Rightarrow> (string, string) expected outcome" where
  "readFileContent open_ok p w =
     (let ifs = open_ifstream open_ok p w
      in if \<not> is_open ifs then Returned (Inl (''Failed to open file: '' @ p))
         else case streambuf_contents p w of
                None \<Rightarrow> Thrown ''basic_filebuf::underflow''
              | Some content \<Rightarrow>
                  if failbit ifs then Returned (Inl (''Failed to read file: '' @ p))
                  else if eofbit ifs then Returned (Inl (''File is empty: '' @ p))
                  else Returned (Inr content))"

fun first_not_empty :: "string list \<Rightarrow> string option" where
  "first_not_empty [] = None"
| "first_not_empty (line # lines) =
     (let trimmed_line = Trim line
      in if trimmed_line \<noteq> [] then Some trimmed_line else first_not_empty lines)"

definition getFileFirstNotEmptyLine :: "bool \<Rightarrow> string \<Rightarrow> world \<Rightarrow> (string, string) expected outcome" where
  "getFileFirstNotEmptyLine open_ok p w =
     (case readFileContent open_ok p w of
        Thrown e \<Rightarrow> Thrown e
      | Terminated \<Rightarrow> Terminated
      | Returned (Inl e) \<Rightarrow> Returned (Inl e)
      | Returned (Inr content) \<Rightarrow>
          (case first_not_empty (getlines [] content) of
             Some line \<Rightarrow> Returned (Inr line)
           | None \<Rightarrow> Returned (Inl (''No not empty line found in file: '' @ p))))"

lemma Trim_parts:
  "\<exists>pre post. s = pre @ Trim s @ post \<and> list_all is_space (pre @ post)
     \<and> (Trim s = [] \<or> \<not> is_space (hd (Trim s)) \<and> \<not> is_space (last (Trim s)))"
proof -
  define m where "m = dropWhile is_space s"
  define t where "t = rev (dropWhile is_space (rev m))"
  have "s = takeWhile is_space s @ m" by (simp add: m_def)
  moreover have m: "m = t @ rev (takeWhile is_space (rev m))"
    by (metis rev_append rev_rev_ident t_def takeWhile_dropWhile_id)
  moreover have "list_all is_space (takeWhile is_space s @ rev (takeWhile is_space (rev m)))"
    by (auto simp: list_all_iff dest: set_takeWhileD)
  moreover have "t \<noteq> [] \<Longrightarrow> \<not> is_space (last t)"
    unfolding t_def by (simp add: last_rev hd_dropWhile)
  moreover have "t \<noteq> [] \<Longrightarrow> \<not> is_space (hd t)"
  proof -
    assume "t \<noteq> []"
    then have "hd t = hd m" "m \<noteq> []" using m by (metis hd_append2, auto)
    then show ?thesis unfolding m_def by (simp add: hd_dropWhile)
  qed
  ultimately show ?thesis
    using Trim_strip [of s] unfolding strip_def m_def [symmetric] t_def [symmetric]
    by (metis append.assoc)
qed

abbreviation newline :: char where "newline \<equiv> CHR 0x0A"

text \<open>The first line with something on it, in the text as a whole.\<close>

definition first_line_at :: "string \<Rightarrow> string \<Rightarrow> bool" where
  "first_line_at l s \<longleftrightarrow> l \<noteq> [] \<and> newline \<notin> set l
     \<and> (\<exists>pre post. s = pre @ l @ post \<and> list_all is_space pre
          \<and> list_all is_space (takeWhile (\<lambda>c. c \<noteq> newline) post))
     \<and> \<not> is_space (hd l) \<and> \<not> is_space (last l)"

lemma blank_newline [simp]: "is_space newline"
  by (simp add: is_space_def)

lemma Trim_empty_iff: "Trim s = [] \<longleftrightarrow> list_all is_space s"
proof
  assume "Trim s = []"
  then show "list_all is_space s" using Trim_parts [of s] by auto
next
  assume "list_all is_space s"
  then have "dropWhile is_space s = []" by (simp add: list_all_iff dropWhile_eq_Nil_conv)
  then show "Trim s = []" unfolding Trim_strip strip_def by (simp only: rev.simps dropWhile.simps)
qed

lemma Trim_first_line:
  assumes "Trim line \<noteq> []" and "newline \<notin> set line" and "rest = [] \<or> hd rest = newline"
  shows "first_line_at (Trim line) (line @ rest)"
proof -
  obtain pre post where eq: "line = pre @ Trim line @ post" and sp: "list_all is_space (pre @ post)"
      and ends: "\<not> is_space (hd (Trim line))" "\<not> is_space (last (Trim line))"
    using Trim_parts [of line] assms(1) by blast
  have nl: "newline \<notin> set (Trim line)" "newline \<notin> set post"
    using assms(2) by (subst (asm) eq; simp)+
  then have "takeWhile (\<lambda>c. c \<noteq> newline) (post @ rest) = post"
    using assms(3) by (cases rest) (auto simp: takeWhile_append)
  moreover have "line @ rest = pre @ Trim line @ post @ rest" using eq by (metis append.assoc)
  ultimately show ?thesis
    unfolding first_line_at_def using assms(1) nl ends sp
    by (intro conjI exI [of _ pre] exI [of _ "post @ rest"]) auto
qed

lemma first_line_at_prepend:
  "list_all is_space xs \<Longrightarrow> first_line_at l s \<Longrightarrow> first_line_at l (xs @ s)"
  unfolding first_line_at_def by (metis append.assoc list_all_append)

lemma first_not_empty_Some:
  assumes "newline \<notin> set line" and "first_not_empty (getlines line cs) = Some l"
  shows "first_line_at l (line @ cs)"
  using assms
proof (induction cs arbitrary: line)
  case Nil
  then show ?case
    using Trim_first_line [of line "[]"] by (auto simp: Let_def split: if_splits)
next
  case (Cons c cs)
  show ?case
  proof (cases "c = newline")
    case False
    then show ?thesis using Cons.IH [of "line @ [c]"] Cons.prems by simp
  next
    case True
    show ?thesis
    proof (cases "Trim line = []")
      case blank: True
      then have "first_line_at l cs" using Cons.IH [of "[]"] Cons.prems True by (simp add: Let_def)
      then show ?thesis
        using first_line_at_prepend [of "line @ [c]" l cs] blank True by (simp add: Trim_empty_iff)
    next
      case False
      then show ?thesis
        using Trim_first_line [of line "c # cs"] Cons.prems True by (simp add: Let_def)
    qed
  qed
qed

lemma first_not_empty_None:
  "first_not_empty (getlines line cs) = None \<longleftrightarrow> list_all is_space (line @ cs)"
proof (induction cs arbitrary: line)
  case (Cons c cs)
  then show ?case by (auto simp: Let_def Trim_empty_iff)
qed (auto simp: Let_def Trim_empty_iff)

section \<open>Properties\<close>

text \<open>
  C32: \<open>Trim\<close>, the regular-expression search, returns the text without its leading and
  trailing blanks: the text is blanks, the result, blanks, and the result neither begins nor
  ends with a blank.
\<close>

theorem Trim_correct:
  "\<exists>pre post. s = pre @ Trim s @ post \<and> list_all is_space (pre @ post)
     \<and> (Trim s = [] \<or> \<not> is_space (hd (Trim s)) \<and> \<not> is_space (last (Trim s)))"
  by (rule Trim_parts)

text \<open>
  for a readable file, \<open>getFileFirstNotEmptyLine\<close> fails with its own message exactly
  when the file has nothing but blanks, and otherwise returns the first line that has
  something on it, stripped: only blanks come before it in the file, and only blanks follow
  it on its line.
\<close>

theorem first_line_correct:
  assumes "files w p = Some c"
  shows "case getFileFirstNotEmptyLine True p w of
      Returned (Inr l) \<Rightarrow> first_line_at l c
    | Returned (Inl e) \<Rightarrow> list_all is_space c \<and> e = ''No not empty line found in file: '' @ p
    | _ \<Rightarrow> False"
  using assms first_not_empty_Some [of "[]" c] first_not_empty_None [of "[]" c]
  by (auto simp: getFileFirstNotEmptyLine_def readFileContent_def open_ifstream_def
      streambuf_contents_def path_exists_def Let_def split: option.split)

definition lines_world :: world where
  "lines_world = demo_world\<lparr>files := [''d/v'' \<mapsto> [newline] @ ''  v1.2 '' @ [newline] @ ''x'']\<rparr>"

theorem first_line_correct_witness:
  "getFileFirstNotEmptyLine True ''d/v'' lines_world = Returned (Inr ''v1.2'')
   \<and> first_line_at ''v1.2'' ([newline] @ ''  v1.2 '' @ [newline] @ ''x'')"
proof -
  have "getFileFirstNotEmptyLine True ''d/v'' lines_world = Returned (Inr ''v1.2'')"
    by (simp add: getFileFirstNotEmptyLine_def readFileContent_def open_ifstream_def lines_world_def
        streambuf_contents_def path_exists_def Let_def Trim_def is_space_def)
  then show ?thesis
    using first_line_correct [of lines_world "''d/v''"] by (simp add: lines_world_def)
qed

text \<open>
  C28: reading back what an atomic write that returned true has written gives exactly the
  data, for every data, the empty text included: the "File is empty" answer is never given.
\<close>

theorem read_after_atomic_write:
  assumes "atomicWriteFile ce we me de p data w = (Returned True, w')"
  shows "readFileContent True p w' = Returned (Inr data)"
  using atomic_write_effect [OF assms]
  by (simp add: readFileContent_def open_ifstream_def streambuf_contents_def path_exists_def)

theorem read_after_atomic_write_witness:
  "readFileContent True ''d/cfg'' (snd (demo_write 4)) = Returned (Inr ''new!'')"
proof -
  obtain w' where w': "demo_write 4 = (Returned True, w')"
    using demo_write_ok by (metis prod.collapse)
  then show ?thesis using read_after_atomic_write [OF w'] by simp
qed

end
