(* ===== verification/Channel.thy ===== *)
theory Channel
  imports Prelude
begin

text \<open>
  Channels with a bounded buffer, \<open>boost::asio::experimental::channel\<close>. They are not part of
  the repository: the classes that use them (tasks, the throttling proxy, the channel
  examples) take a record of operations. The documentation lets \<open>try_send\<close> succeed when the
  buffer has room or a receive operation waits, which then takes the message over.
  \<open>channel_law\<close> is this behaviour for a channel on which no receive waits during a \<open>try_send\<close>;
  \<open>shared_channel_law\<close> also allows the one message that a waiting receive takes over. In both a
  message counts as in the channel until its receiver goes on with it. Each operation is one
  step: \<open>experimental::channel\<close> is not meant to be used by several threads at once, and what
  happens then is not covered.
\<close>

section \<open>Operations and their law\<close>

text \<open>
  \<open>try_send\<close> with no error code; what \<open>async_receive\<close> completes with (error message if
  any, message) and the channel after it, or nothing while the receiver stays suspended;
  \<open>close\<close>.
\<close>

record ('c, 'm) channel_ops =
  try_send :: "'m \<Rightarrow> 'c \<Rightarrow> bool \<times> 'c"
  receive :: "'c \<Rightarrow> ((string option \<times> 'm) \<times> 'c) option"
  close :: "'c \<Rightarrow> 'c"

definition channel_law :: "('c, 'm) channel_ops \<Rightarrow> ('c \<Rightarrow> 'm list) \<Rightarrow> nat \<Rightarrow> bool" where
  "channel_law ops items cap \<longleftrightarrow>
     (\<forall>c m. if length (items c) < cap
            then fst (try_send ops m c) \<and> items (snd (try_send ops m c)) = items c @ [m]
            else try_send ops m c = (False, c))
     \<and> (\<forall>c. case items c of
              [] \<Rightarrow> receive ops c = None
            | m # ms \<Rightarrow> (\<exists>c'. receive ops c = Some ((None, m), c') \<and> items c' = ms))"

text \<open>A full channel may accept one more message, for a receive that is waiting.\<close>

definition shared_channel_law :: "('c, 'm) channel_ops \<Rightarrow> ('c \<Rightarrow> 'm list) \<Rightarrow> nat \<Rightarrow> bool" where
  "shared_channel_law ops items cap \<longleftrightarrow>
     (\<forall>c m. let (ok, c') = try_send ops m c
            in (if ok then length (items c) \<le> cap \<and> items c' = items c @ [m]
                else cap \<le> length (items c) \<and> c' = c))
     \<and> (\<forall>c. case items c of
              [] \<Rightarrow> receive ops c = None
            | m # ms \<Rightarrow> (\<exists>c'. receive ops c = Some ((None, m), c') \<and> items c' = ms))"

lemma shared_sent:
  assumes "shared_channel_law ops items cap" "try_send ops m c = (ok, c')"
  shows "if ok then length (items c) \<le> cap \<and> items c' = items c @ [m] else cap \<le> length (items c) \<and> c' = c"
  using assms unfolding shared_channel_law_def by (metis (mono_tags, lifting) case_prod_conv)

lemma shared_room:
  assumes "shared_channel_law ops items cap" and "length (items c) < cap"
  obtains c' where "try_send ops m c = (True, c')" and "items c' = items c @ [m]"
proof -
  obtain ok c' where send: "try_send ops m c = (ok, c')" by fastforce
  from shared_sent [OF assms(1) send] assms(2) have "ok" "items c' = items c @ [m]"
    by (auto split: if_splits)
  with send that show thesis by simp
qed

lemma shared_receive:
  "shared_channel_law ops items cap \<Longrightarrow> items c = m # ms \<Longrightarrow>
   \<exists>c'. receive ops c = Some ((None, m), c') \<and> items c' = ms"
  "shared_channel_law ops items cap \<Longrightarrow> items c = [] \<Longrightarrow> receive ops c = None"
  unfolding shared_channel_law_def by (drule conjunct2, drule spec [of _ c], simp)+

lemma shared_received:
  "shared_channel_law ops items cap \<Longrightarrow> receive ops c = Some ((e, m), c') \<Longrightarrow>
   e = None \<and> items c = m # items c'"
  using shared_receive [of ops items cap c] by (cases "items c") auto

lemma channel_room:
  assumes "channel_law ops items cap" and "length (items c) < cap"
  obtains c' where "try_send ops m c = (True, c')" and "items c' = items c @ [m]"
proof -
  have "fst (try_send ops m c) \<and> items (snd (try_send ops m c)) = items c @ [m]"
    using assms by (simp add: channel_law_def)
  then show thesis by (intro that [of "snd (try_send ops m c)"]) (simp_all add: prod_eq_iff)
qed

lemma channel_full:
  "channel_law ops items cap \<Longrightarrow> \<not> length (items c) < cap \<Longrightarrow> try_send ops m c = (False, c)"
  by (simp add: channel_law_def)

lemma channel_refused: "channel_law ops items cap \<Longrightarrow> try_send ops m c = (False, c') \<Longrightarrow> c' = c"
  by (metis channel_full channel_room prod.inject)

lemma channel_sent:
  "channel_law ops items cap \<Longrightarrow> try_send ops m c = (True, c') \<Longrightarrow>
   length (items c) < cap \<and> items c' = items c @ [m]"
  by (metis channel_full channel_room prod.inject)

lemma channel_receive:
  "channel_law ops items cap \<Longrightarrow> items c = m # ms \<Longrightarrow>
   \<exists>c'. receive ops c = Some ((None, m), c') \<and> items c' = ms"
  "channel_law ops items cap \<Longrightarrow> items c = [] \<Longrightarrow> receive ops c = None"
  unfolding channel_law_def by (drule conjunct2, drule spec [of _ c], simp)+

lemma channel_received:
  "channel_law ops items cap \<Longrightarrow> receive ops c = Some ((e, m), c') \<Longrightarrow>
   e = None \<and> items c = m # items c'"
  using channel_receive [of ops items cap c] by (cases "items c") auto

lemma channel_law_shared: "channel_law ops items cap \<Longrightarrow> shared_channel_law ops items cap"
proof -
  assume law: "channel_law ops items cap"
  have "cap \<le> length (items c)" if "try_send ops m c = (False, c')" for m c c'
    using channel_room [OF law, of c m] that by fastforce
  with law show ?thesis
    unfolding shared_channel_law_def Let_def
    by (auto split: list.split dest: channel_sent channel_refused channel_receive)
qed

section \<open>A bounded queue as a channel\<close>

text \<open>A concrete channel for the witnesses: the buffer is a list.\<close>

definition list_channel :: "nat \<Rightarrow> ('m list, 'm) channel_ops" where
  "list_channel cap =
     \<lparr>try_send = (\<lambda>m c. if length c < cap then (True, c @ [m]) else (False, c)),
      receive = (\<lambda>c. case c of [] \<Rightarrow> None | m # ms \<Rightarrow> Some ((None, m), ms)),
      close = (\<lambda>c. c)\<rparr>"

lemma list_channel_law: "channel_law (list_channel cap) id cap"
  by (auto simp: channel_law_def list_channel_def split: list.split)

text \<open>One place more than the buffer: a receive waits whenever the buffer is full.\<close>

lemma list_channel_shared: "shared_channel_law (list_channel (Suc cap)) id cap"
  by (auto simp: shared_channel_law_def list_channel_def split: list.split)

end
