(* ===== verification/Task.thy ===== *)
theory Task
  imports Channel
begin

text \<open>
  \<open>behaviortree_test/task/task.hpp\<close>: the class template \<open>Task\<close>. The two
  \<open>boost::asio::experimental::channel\<close>s it uses are not part of the repository: they are a
  record of operations every definition takes, and \<open>channel_law\<close> states the documented
  behaviour of a channel with a bounded buffer. Every method locks the status mutex for its
  whole body, so a method is one atomic step; the two coroutine fragments
  \<open>wait_for_input_parameters\<close> and \<open>async_wait_for_resume\<close> are cut at their suspension points.
\<close>

section \<open>Commands, states, results\<close>

datatype TaskCommand = CANCEL | PAUSE | RESUME

datatype TaskResult = SUCCESS | FAILURE | CANCELLED

datatype TaskStatus = INITIAL | RUNNING | COMPLETED | FAILED | CANCELLED | PAUSED

fun command_to_string :: "TaskCommand \<Rightarrow> string" where
  "command_to_string CANCEL = ''CANCEL''"
| "command_to_string PAUSE = ''PAUSE''"
| "command_to_string RESUME = ''RESUME''"

fun status_to_string :: "TaskStatus \<Rightarrow> string" where
  "status_to_string INITIAL = ''INITIAL''"
| "status_to_string RUNNING = ''RUNNING''"
| "status_to_string COMPLETED = ''COMPLETED''"
| "status_to_string FAILED = ''FAILED''"
| "status_to_string TaskStatus.CANCELLED = ''CANCELLED''"
| "status_to_string PAUSED = ''PAUSED''"

fun result_to_string :: "TaskResult \<Rightarrow> string" where
  "result_to_string SUCCESS = ''SUCCESS''"
| "result_to_string FAILURE = ''FAILURE''"
| "result_to_string TaskResult.CANCELLED = ''CANCELLED''"

section \<open>Futures\<close>

text \<open>\<open>std::future\<close>: without shared state, waiting, holding a value, holding an exception.\<close>

datatype 'a future = No_State | Pending | Ready 'a | Exceptional

section \<open>The class\<close>

record ('c, 'i) task =
  name :: string
  current_status :: TaskStatus
  result :: "TaskResult future"
  cached_result :: "TaskResult option"
  input_parameters_channel :: 'i
  task_control_channel :: 'c

definition Task :: "string \<Rightarrow> 'i \<Rightarrow> 'c \<Rightarrow> ('c, 'i) task" where
  "Task n ich cch =
     \<lparr>name = n, current_status = INITIAL, result = No_State, cached_result = None,
      input_parameters_channel = ich, task_control_channel = cch\<rparr>"

text \<open>\<open>post_coroutine\<close> returns the future the coroutine's completion handler will fill.\<close>

definition run :: "('c, 'i) task \<Rightarrow> bool \<times> ('c, 'i) task" where
  "run t = (if current_status t \<noteq> INITIAL then (False, t)
            else (True, t\<lparr>current_status := RUNNING, result := Pending\<rparr>))"

text \<open>\<open>result_.get()\<close> releases the shared state of the future.\<close>

definition get_current_status :: "('c, 'i) task \<Rightarrow> TaskStatus \<times> ('c, 'i) task" where
  "get_current_status t =
     (let t' =
        (if cached_result t \<noteq> None then t
         else case result t of
             No_State \<Rightarrow> t
           | Pending \<Rightarrow> t
           | Ready r \<Rightarrow>
               (case r of
                  SUCCESS \<Rightarrow> t\<lparr>result := No_State, cached_result := Some r, current_status := COMPLETED\<rparr>
                | FAILURE \<Rightarrow> t\<lparr>result := No_State, cached_result := Some r, current_status := FAILED\<rparr>
                | TaskResult.CANCELLED \<Rightarrow>
                    t\<lparr>result := No_State, cached_result := Some r, current_status := TaskStatus.CANCELLED\<rparr>)
           | Exceptional \<Rightarrow>
               t\<lparr>result := No_State, cached_result := Some FAILURE, current_status := FAILED\<rparr>)
      in (current_status t', t'))"

definition send_input_parameters ::
    "('i, 'm) channel_ops \<Rightarrow> 'm \<Rightarrow> ('c, 'i) task \<Rightarrow> bool \<times> ('c, 'i) task" where
  "send_input_parameters iops v t =
     (let (ok, ch) = try_send iops v (input_parameters_channel t)
      in (ok, t\<lparr>input_parameters_channel := ch\<rparr>))"

definition send_command ::
    "('c, TaskCommand) channel_ops \<Rightarrow> TaskCommand \<Rightarrow> ('c, 'i) task \<Rightarrow> bool \<times> ('c, 'i) task" where
  "send_command cops cmd t =
     (let (ok, ch) = try_send cops cmd (task_control_channel t)
      in (ok, t\<lparr>task_control_channel := ch\<rparr>))"

definition pause :: "('c, TaskCommand) channel_ops \<Rightarrow> ('c, 'i) task \<Rightarrow> bool \<times> ('c, 'i) task" where
  "pause cops t =
     (if current_status t \<noteq> RUNNING \<and> current_status t \<noteq> PAUSED then (False, t)
      else let (ok, t1) = send_command cops PAUSE t
           in if \<not> ok then (False, t1) else (True, t1\<lparr>current_status := PAUSED\<rparr>))"

definition resume :: "('c, TaskCommand) channel_ops \<Rightarrow> ('c, 'i) task \<Rightarrow> bool \<times> ('c, 'i) task" where
  "resume cops t = send_command cops RESUME t"

definition cancel :: "('c, TaskCommand) channel_ops \<Rightarrow> ('c, 'i) task \<Rightarrow> bool \<times> ('c, 'i) task" where
  "cancel cops t =
     (if current_status t = COMPLETED \<or> current_status t = FAILED then (True, t)
      else if current_status t \<noteq> RUNNING \<and> current_status t \<noteq> PAUSED
              \<and> current_status t \<noteq> TaskStatus.CANCELLED then (False, t)
      else let (ok, t1) = send_command cops CANCEL t
           in if \<not> ok then (False, t1) else (True, t1\<lparr>current_status := TaskStatus.CANCELLED\<rparr>))"

text \<open>
  The destructor: it repeats \<open>cancel\<close> until it succeeds, then closes both channels; \<open>None\<close>
  when it has not returned after that many attempts.
\<close>

fun destroy_task :: "('c, TaskCommand) channel_ops \<Rightarrow> ('i, 'm) channel_ops \<Rightarrow> nat
    \<Rightarrow> ('c, 'i) task \<Rightarrow> ('c, 'i) task option" where
  "destroy_task cops iops 0 t = None"
| "destroy_task cops iops (Suc n) t =
     (let (ok, t1) = cancel cops t
      in if ok
         then Some (t1\<lparr>input_parameters_channel := close iops (input_parameters_channel t1),
                        task_control_channel := close cops (task_control_channel t1)\<rparr>)
         else destroy_task cops iops n t1)"

definition set_status :: "TaskStatus \<Rightarrow> ('c, 'i) task \<Rightarrow> bool \<times> ('c, 'i) task" where
  "set_status status t =
     (if status = current_status t then (True, t)
      else case current_status t of
        INITIAL \<Rightarrow> (case status of
            INITIAL \<Rightarrow> (True, t)
          | RUNNING \<Rightarrow> (True, t\<lparr>current_status := RUNNING\<rparr>)
          | TaskStatus.CANCELLED \<Rightarrow> (True, t\<lparr>current_status := TaskStatus.CANCELLED\<rparr>)
          | PAUSED \<Rightarrow> (False, t)
          | COMPLETED \<Rightarrow> (False, t)
          | FAILED \<Rightarrow> (False, t))
      | RUNNING \<Rightarrow> (case status of
            INITIAL \<Rightarrow> (False, t)
          | RUNNING \<Rightarrow> (True, t)
          | PAUSED \<Rightarrow> (True, t\<lparr>current_status := PAUSED\<rparr>)
          | TaskStatus.CANCELLED \<Rightarrow> (True, t\<lparr>current_status := TaskStatus.CANCELLED\<rparr>)
          | COMPLETED \<Rightarrow> (True, t\<lparr>current_status := COMPLETED\<rparr>)
          | FAILED \<Rightarrow> (True, t\<lparr>current_status := FAILED\<rparr>))
      | PAUSED \<Rightarrow> (case status of
            INITIAL \<Rightarrow> (False, t)
          | RUNNING \<Rightarrow> (True, t\<lparr>current_status := RUNNING\<rparr>)
          | PAUSED \<Rightarrow> (True, t)
          | TaskStatus.CANCELLED \<Rightarrow> (True, t\<lparr>current_status := TaskStatus.CANCELLED\<rparr>)
          | COMPLETED \<Rightarrow> (False, t)
          | FAILED \<Rightarrow> (False, t))
      | TaskStatus.CANCELLED \<Rightarrow> (status = TaskStatus.CANCELLED, t)
      | COMPLETED \<Rightarrow> (status = COMPLETED, t)
      | FAILED \<Rightarrow> (status = FAILED, t))"

definition is_paused :: "('c, 'i) task \<Rightarrow> bool" where
  "is_paused t \<longleftrightarrow> current_status t = PAUSED"
definition is_cancelled :: "('c, 'i) task \<Rightarrow> bool" where
  "is_cancelled t \<longleftrightarrow> current_status t = TaskStatus.CANCELLED"
definition is_completed :: "('c, 'i) task \<Rightarrow> bool" where
  "is_completed t \<longleftrightarrow> current_status t = COMPLETED"
definition is_failed :: "('c, 'i) task \<Rightarrow> bool" where
  "is_failed t \<longleftrightarrow> current_status t = FAILED"
definition is_running :: "('c, 'i) task \<Rightarrow> bool" where
  "is_running t \<longleftrightarrow> current_status t = RUNNING"
definition is_initial :: "('c, 'i) task \<Rightarrow> bool" where
  "is_initial t \<longleftrightarrow> current_status t = INITIAL"

section \<open>The coroutine fragments\<close>

text \<open>
  \<open>wait_for_input_parameters\<close>: what it returns once one of the two receives has completed,
  on the left an input, on the right a command.
\<close>

definition wait_for_input_parameters ::
    "string \<Rightarrow> (string option \<times> 'm) + (string option \<times> TaskCommand) \<Rightarrow> ('m, string) expected" where
  "wait_for_input_parameters n received = (case received of
     Inl (e, value) \<Rightarrow> (case e of Some msg \<Rightarrow> Inl msg | None \<Rightarrow> Inr value)
   | Inr (e, command) \<Rightarrow> (case e of Some msg \<Rightarrow> Inl msg | None \<Rightarrow>
       (case command of
          CANCEL \<Rightarrow> Inl (''Task '' @ n @ '' cancelled while waiting for input parameters'')
        | PAUSE \<Rightarrow> Inl (''Task '' @ n @ '' paused while waiting for input parameters'')
        | RESUME \<Rightarrow> Inl (''Task '' @ n @ '' resumed while waiting for input parameters''))))"

text \<open>
  \<open>async_wait_for_resume\<close>: the loop test with \<open>when_pause\<close>, which ends the wait or
  suspends it on the control channel, and the treatment of a received command, which ends
  the wait, repeats the test, or goes on to \<open>set_status(RUNNING)\<close>.
\<close>

datatype wait_state = Wait_Done bool | Wait_Test | Wait_Receive | Wait_Set_Running

definition wait_resume_test :: "bool \<Rightarrow> ('c, 'i) task \<Rightarrow> wait_state" where
  "wait_resume_test when_pause t =
     (if is_paused t then (if \<not> when_pause then Wait_Done False else Wait_Receive) else Wait_Done True)"

definition wait_resume_command :: "bool \<Rightarrow> string option \<times> TaskCommand \<Rightarrow> wait_state" where
  "wait_resume_command when_resume received = (case received of (e, command) \<Rightarrow>
     if e \<noteq> None then Wait_Done False
     else if command = RESUME then (if \<not> when_resume then Wait_Done False else Wait_Set_Running)
     else if command = PAUSE then Wait_Test
     else Wait_Done False)"

definition async_wait_for_resume ::
    "('c, TaskCommand) channel_ops \<Rightarrow> bool \<Rightarrow> bool \<Rightarrow> wait_state \<Rightarrow> ('c, 'i) task
     \<Rightarrow> (wait_state \<times> ('c, 'i) task) option" where
  "async_wait_for_resume cops when_pause when_resume ws t = (case ws of
     Wait_Done b \<Rightarrow> None
   | Wait_Test \<Rightarrow> Some (wait_resume_test when_pause t, t)
   | Wait_Receive \<Rightarrow>
       (case receive cops (task_control_channel t) of
          None \<Rightarrow> None
        | Some (received, ch) \<Rightarrow>
            Some (wait_resume_command when_resume received, t\<lparr>task_control_channel := ch\<rparr>))
   | Wait_Set_Running \<Rightarrow> (let (ok, t') = set_status RUNNING t in Some (Wait_Done ok, t')))"

section \<open>Calls\<close>

text \<open>
  The calls a task can receive, and the completion of its coroutine, which fills the future
  once (\<open>None\<close>: the coroutine threw). The answer is a boolean or a status.
\<close>

datatype 'm task_call =
    Run
  | Get_Status
  | Send 'm
  | Pause
  | Resume
  | Cancel
  | Set_Status TaskStatus
  | Finish "TaskResult option"

datatype answer = Yes_No bool | Status TaskStatus

definition finish :: "TaskResult option \<Rightarrow> ('c, 'i) task \<Rightarrow> ('c, 'i) task" where
  "finish r t =
     (if result t = Pending then t\<lparr>result := (case r of Some x \<Rightarrow> Ready x | None \<Rightarrow> Exceptional)\<rparr> else t)"

definition task_op :: "('c, TaskCommand) channel_ops \<Rightarrow> ('i, 'm) channel_ops \<Rightarrow> ('c, 'i) task
    \<Rightarrow> 'm task_call \<Rightarrow> answer \<times> ('c, 'i) task" where
  "task_op cops iops t call = (case call of
     Run \<Rightarrow> (let (b, u) = run t in (Yes_No b, u))
   | Get_Status \<Rightarrow> (let (b, u) = get_current_status t in (Status b, u))
   | Send v \<Rightarrow> (let (b, u) = send_input_parameters iops v t in (Yes_No b, u))
   | Pause \<Rightarrow> (let (b, u) = pause cops t in (Yes_No b, u))
   | Resume \<Rightarrow> (let (b, u) = resume cops t in (Yes_No b, u))
   | Cancel \<Rightarrow> (let (b, u) = cancel cops t in (Yes_No b, u))
   | Set_Status s \<Rightarrow> (let (b, u) = set_status s t in (Yes_No b, u))
   | Finish r \<Rightarrow> (Yes_No True, finish r t))"

lemmas task_ops = run_def get_current_status_def send_input_parameters_def send_command_def pause_def
  resume_def cancel_def set_status_def finish_def Let_def

fun status_of :: "TaskResult \<Rightarrow> TaskStatus" where
  "status_of SUCCESS = COMPLETED"
| "status_of FAILURE = FAILED"
| "status_of TaskResult.CANCELLED = TaskStatus.CANCELLED"

definition final_with :: "TaskResult \<Rightarrow> ('c, 'i) task \<Rightarrow> bool" where
  "final_with r t \<longleftrightarrow> cached_result t = Some r \<and> current_status t = status_of r"

lemma task_op_final: "final_with r t \<Longrightarrow> final_with r (snd (task_op cops iops t call))"
  by (cases call; cases r)
    (auto simp: final_with_def task_op_def task_ops split: prod.splits TaskStatus.splits)

interpretation final_task: op_invariant "task_op cops iops" "final_with r"
  by unfold_locales (rule task_op_final)

lemma get_status_final:
  assumes "cached_result t = None" and "result t = Ready r"
  shows "final_with r (snd (get_current_status t))"
  using assms by (cases r) (simp_all add: final_with_def get_current_status_def)

section \<open>Properties of the methods\<close>

text \<open>
  C4: once \<open>get_current_status\<close> has collected the result of the coroutine, the status is the
  one of that result and no later sequence of calls, in any order, changes it.
\<close>

theorem collected_status_is_final:
  assumes "cached_result t = None" and "result t = Ready r" and "get_current_status t = (st, t1)"
    and "run_ops (task_op cops iops) t1 calls = (answers, t2)"
  shows "st = status_of r \<and> current_status t2 = status_of r \<and> cached_result t2 = Some r"
proof -
  have "final_with r t1" using get_status_final [OF assms(1,2)] assms(3) by simp
  moreover have "final_with r t2"
    using final_task.run_ops_inv [OF calculation, of cops iops calls] assms(4) by simp
  ultimately show ?thesis using assms(3) by (auto simp: final_with_def get_current_status_def Let_def)
qed

text \<open>The transitions \<open>set_status\<close> lets through, as a table.\<close>

definition allowed :: "(TaskStatus \<times> TaskStatus) list" where
  "allowed =
     [(INITIAL, RUNNING), (INITIAL, TaskStatus.CANCELLED), (RUNNING, PAUSED),
      (RUNNING, TaskStatus.CANCELLED), (RUNNING, COMPLETED), (RUNNING, FAILED), (PAUSED, RUNNING),
      (PAUSED, TaskStatus.CANCELLED)]"

lemma set_status_allowed:
  "set_status s t =
     (if s = current_status t \<or> (current_status t, s) \<in> set allowed
      then (True, t\<lparr>current_status := s\<rparr>) else (False, t))"
  by (cases "current_status t"; cases s) (simp_all add: set_status_def allowed_def)

lemma send_command_refused:
  "channel_law cops items cap \<Longrightarrow> send_command cops cmd t = (False, t') \<Longrightarrow> t' = t"
  by (auto simp: send_command_def Let_def split: prod.splits dest: channel_refused)

lemma send_input_refused:
  "channel_law iops items cap \<Longrightarrow> send_input_parameters iops v t = (False, t') \<Longrightarrow> t' = t"
  by (auto simp: send_input_parameters_def Let_def split: prod.splits dest: channel_refused)

text \<open>A task on which \<open>cancel\<close> is refused stays so: the destructor repeats the call forever.\<close>

lemma cancel_refused:
  assumes "channel_law cops items cap" and "current_status t \<notin> {COMPLETED, FAILED}"
    and "current_status t = INITIAL \<or> \<not> length (items (task_control_channel t)) < cap"
  shows "cancel cops t = (False, t)"
  using assms(2,3) channel_full [OF assms(1), of "task_control_channel t" CANCEL]
  by (cases "current_status t") (auto simp: task_ops split: prod.splits)

lemma destroy_stuck: "cancel cops t = (False, t) \<Longrightarrow> destroy_task cops iops n t = None"
  by (induction n) simp_all

text \<open>
  \<open>set_status\<close> succeeds exactly for the current status itself and the transitions of the
  table, and then the status is the requested one; otherwise nothing changes.
\<close>

theorem set_status_table:
  "set_status s t =
     (if s = current_status t \<or> (current_status t, s) \<in> set allowed
      then (True, t\<lparr>current_status := s\<rparr>) else (False, t))"
  by (rule set_status_allowed)

text \<open>
  a call that answers false changes nothing. The comment on \<open>cancel\<close> says the
  opposite (that the status has changed even when it returns false).
\<close>

theorem refused_call_changes_nothing:
  assumes "channel_law cops items cap" and "channel_law iops in_items cap'"
    and "task_op cops iops t call = (Yes_No False, t')"
  shows "t' = t"
proof -
  note refused = send_command_refused [OF assms(1)] send_input_refused [OF assms(2)]
  show ?thesis
    using assms(3)
    by (cases call)
      (auto simp: task_op_def run_def get_current_status_def pause_def resume_def cancel_def
        set_status_allowed finish_def Let_def split: if_splits prod.splits dest!: refused)
qed

text \<open>
  C24: the destructor returns exactly when the task has completed or failed, or has been
  started and its control channel has room. A task that was never run, or whose channel
  holds a command nobody will receive, makes it repeat \<open>cancel\<close> forever.
\<close>

theorem destructor_returns_iff:
  assumes "channel_law cops items cap"
  shows "(\<exists>n u. destroy_task cops iops n t = Some u) \<longleftrightarrow>
     current_status t \<in> {COMPLETED, FAILED}
     \<or> current_status t \<noteq> INITIAL \<and> length (items (task_control_channel t)) < cap"
    (is "_ \<longleftrightarrow> ?ok")
proof
  assume ?ok
  have "fst (cancel cops t)"
  proof (cases "current_status t \<in> {COMPLETED, FAILED}")
    case True
    then show ?thesis by (auto simp: cancel_def)
  next
    case False
    with \<open>?ok\<close> have room: "length (items (task_control_channel t)) < cap" "current_status t \<noteq> INITIAL"
      by auto
    obtain c' where "try_send cops CANCEL (task_control_channel t) = (True, c')"
      by (rule channel_room [OF assms room(1)])
    with False room(2) show ?thesis
      by (cases "current_status t") (simp_all add: cancel_def send_command_def)
  qed
  then have "\<exists>u. destroy_task cops iops (Suc 0) t = Some u" by (simp add: case_prod_beta Let_def)
  then show "\<exists>n u. destroy_task cops iops n t = Some u" by blast
next
  assume "\<exists>n u. destroy_task cops iops n t = Some u"
  then obtain n where n: "destroy_task cops iops n t \<noteq> None" by auto
  show ?ok
  proof (rule ccontr)
    assume "\<not> ?ok"
    then have "cancel cops t = (False, t)" by (intro cancel_refused [OF assms]) auto
    with n show False by (simp add: destroy_stuck)
  qed
qed

text \<open>
  \<open>wait_for_input_parameters\<close> returns a value exactly when an input arrived without an
  error. Each of the three commands ends the wait with an error, where its comment says that
  PAUSE waits to be resumed and that RESUME continues waiting.
\<close>

theorem commands_end_the_wait:
  "(wait_for_input_parameters n received = Inr v \<longleftrightarrow> received = Inl (None, v))
   \<and> (\<exists>msg. wait_for_input_parameters n (Inr (None, cmd)) = Inl msg)"
  by (cases received; cases cmd)
    (auto simp: wait_for_input_parameters_def split: option.splits TaskCommand.splits)

section \<open>Channels for the witnesses\<close>

definition ctl :: "(TaskCommand list, TaskCommand) channel_ops" where "ctl = list_channel 1"
definition inp :: "(int list, int) channel_ops" where "inp = list_channel 1"

lemma ctl_law: "channel_law ctl id 1" and inp_law: "channel_law inp id 1"
  by (simp_all only: ctl_def inp_def list_channel_law)

definition fresh :: "(TaskCommand list, int list) task" where
  "fresh = Task ''t'' [] []"

lemmas task_exec = task_op_def task_ops ctl_def inp_def list_channel_def fresh_def Task_def

text \<open>A task that finished, was cancelled, and is then asked for its status.\<close>

definition finished_task :: "(TaskCommand list, int list) task" where
  "finished_task = snd (run_ops (task_op ctl inp) fresh [Run, Finish (Some SUCCESS), Cancel])"

theorem collected_status_is_final_witness:
  "fst (get_current_status finished_task) = COMPLETED
   \<and> current_status (snd (run_ops (task_op ctl inp) (snd (get_current_status finished_task))
        [Pause, Cancel, Set_Status RUNNING, Run])) = COMPLETED"
proof -
  have "cached_result finished_task = None" "result finished_task = Ready SUCCESS"
    by (simp_all add: finished_task_def task_exec)
  from collected_status_is_final [OF this surjective_pairing surjective_pairing,
      of ctl inp "[Pause, Cancel, Set_Status RUNNING, Run]"]
  show ?thesis by (simp del: run_ops.simps)
qed

theorem refused_call_changes_nothing_witness:
  "task_op ctl inp fresh Cancel = (Yes_No False, fresh)"
proof -
  have "task_op ctl inp fresh Cancel = (Yes_No False, snd (task_op ctl inp fresh Cancel))"
    by (simp add: task_exec)
  then show ?thesis using refused_call_changes_nothing [OF ctl_law inp_law] by metis
qed

theorem destructor_returns_iff_witness:
  "\<nexists>n u. destroy_task ctl inp n fresh = Some u"
  using destructor_returns_iff [OF ctl_law, of inp fresh] by (simp add: task_exec)

text \<open>
  CANCELLED is not a final status, although \<open>set_status\<close> calls it one: for every channel
  that behaves as documented, a task whose coroutine has already returned SUCCESS accepts
  \<open>cancel\<close>, reports success of it, and then answers COMPLETED.
\<close>

theorem cancelled_is_not_final:
  assumes "channel_law cops items cap" and "items cch = []" and "0 < cap"
  shows "fst (run_ops (task_op cops iops) (Task n ich cch)
      [Run, Finish (Some SUCCESS), Cancel, Get_Status]) =
    [Yes_No True, Yes_No True, Yes_No True, Status COMPLETED]"
proof -
  obtain c' where "try_send cops CANCEL cch = (True, c')"
    using channel_room [OF assms(1), of cch CANCEL] assms(2,3) by auto
  then show ?thesis by (simp add: task_op_def task_ops Task_def)
qed

theorem cancelled_is_not_final_witness:
  "fst (run_ops (task_op ctl inp) fresh [Run, Finish (Some SUCCESS), Cancel, Get_Status]) =
    [Yes_No True, Yes_No True, Yes_No True, Status COMPLETED]"
  using cancelled_is_not_final [OF ctl_law, of "[]" inp "''t''" "[]"] by (simp add: fresh_def)

end
