(* ===== verification/Task_Coroutine.thy ===== *)
theory Task_Coroutine
  imports Task
begin

text \<open>
  The coroutines that run inside a \<open>Task\<close>: \<open>TestTask\<close> of \<open>024.test_task.cpp\<close> and
  \<open>025.test_user_data.cpp\<close> and \<open>OtaTask\<close> of \<open>026.ota_state.cpp\<close>. The three have the same
  loop (test for cancellation, wait while paused, wait for an input or a command) and differ
  in what they do with the outcomes; these reactions are a record, and one step function runs
  the loop. A run of the system interleaves the steps of the coroutine with the calls of the
  threads that hold the task.
\<close>

section \<open>Where the coroutine is\<close>

datatype coro_pc =
    Not_Started
  | At_Top
  | In_Wait wait_state
  | In_Input
  | Returning TaskResult
  | Returned

text \<open>
  The reactions of a coroutine body: at the head of the loop (given the members of the
  derived class and the answer of \<open>is_cancelled()\<close>), after \<open>async_wait_for_resume\<close> returned
  false, after an input arrived.
\<close>

record ('m, 'x) coro_body =
  on_top :: "'x \<Rightarrow> bool \<Rightarrow> coro_pc"
  on_wait_false :: coro_pc
  on_input :: "'m \<Rightarrow> coro_pc"

record ('c, 'i, 'x) coro =
  self :: "('c, 'i) task"
  members :: 'x
  pc :: coro_pc

text \<open>Which receive completes when \<open>co_await (a || b)\<close> finds both channels filled.\<close>

definition select_received :: "('c, TaskCommand) channel_ops \<Rightarrow> ('i, 'm) channel_ops \<Rightarrow> bool
    \<Rightarrow> ('c, 'i) task
    \<Rightarrow> (((string option \<times> 'm) + (string option \<times> TaskCommand)) \<times> ('c, 'i) task) option" where
  "select_received cops iops input_first t =
     (let from_input = (case receive iops (input_parameters_channel t) of
            None \<Rightarrow> None | Some (x, ch) \<Rightarrow> Some (Inl x, t\<lparr>input_parameters_channel := ch\<rparr>));
          from_control = (case receive cops (task_control_channel t) of
            None \<Rightarrow> None | Some (x, ch) \<Rightarrow> Some (Inr x, t\<lparr>task_control_channel := ch\<rparr>))
      in if input_first then (case from_input of None \<Rightarrow> from_control | Some y \<Rightarrow> Some y)
         else (case from_control of None \<Rightarrow> from_input | Some y \<Rightarrow> Some y))"

text \<open>\<open>None\<close>: suspended, or the coroutine is not running. Both hooks return true in the sources.\<close>

definition coro_step :: "('m, 'x) coro_body \<Rightarrow> ('c, TaskCommand) channel_ops \<Rightarrow> ('i, 'm) channel_ops
    \<Rightarrow> bool \<Rightarrow> ('c, 'i, 'x) coro \<Rightarrow> ('c, 'i, 'x) coro option" where
  "coro_step body cops iops input_first s = (case pc s of
     Not_Started \<Rightarrow> None
   | At_Top \<Rightarrow> Some (s\<lparr>pc := on_top body (members s) (is_cancelled (self s))\<rparr>)
   | In_Wait (Wait_Done b) \<Rightarrow> Some (s\<lparr>pc := (if b then In_Input else on_wait_false body)\<rparr>)
   | In_Wait ws \<Rightarrow>
       (case async_wait_for_resume cops True True ws (self s) of
          None \<Rightarrow> None
        | Some (ws', t) \<Rightarrow> Some (s\<lparr>self := t, pc := In_Wait ws'\<rparr>))
   | In_Input \<Rightarrow>
       (case select_received cops iops input_first (self s) of
          None \<Rightarrow> None
        | Some (received, t) \<Rightarrow>
            (case wait_for_input_parameters (name t) received of
               Inl e \<Rightarrow> Some (s\<lparr>self := t, pc := At_Top\<rparr>)
             | Inr v \<Rightarrow> Some (s\<lparr>self := t, pc := on_input body v\<rparr>)))
   | Returning r \<Rightarrow> Some (s\<lparr>self := finish (Some r) (self s), pc := Returned\<rparr>)
   | Returned \<Rightarrow> None)"

text \<open>
  Both receives of \<open>co_await (a || b)\<close> may have completed before the coroutine goes on: the
  outcome is that of the one that completed first, and the message of the other is dropped.
\<close>

definition select_both :: "('c, TaskCommand) channel_ops \<Rightarrow> ('i, 'm) channel_ops \<Rightarrow> bool
    \<Rightarrow> ('c, 'i) task
    \<Rightarrow> (((string option \<times> 'm) + (string option \<times> TaskCommand)) \<times> ('c, 'i) task) option" where
  "select_both cops iops input_first t =
     (case (receive iops (input_parameters_channel t), receive cops (task_control_channel t)) of
        (Some (x, ich), Some (y, cch)) \<Rightarrow>
          Some (if input_first then Inl x else Inr y,
                t\<lparr>input_parameters_channel := ich, task_control_channel := cch\<rparr>)
      | _ \<Rightarrow> None)"

definition coro_race :: "('m, 'x) coro_body \<Rightarrow> ('c, TaskCommand) channel_ops \<Rightarrow> ('i, 'm) channel_ops
    \<Rightarrow> bool \<Rightarrow> ('c, 'i, 'x) coro \<Rightarrow> ('c, 'i, 'x) coro option" where
  "coro_race body cops iops input_first s =
     (if pc s = In_Input then
        (case select_both cops iops input_first (self s) of
           None \<Rightarrow> None
         | Some (received, t) \<Rightarrow>
             (case wait_for_input_parameters (name t) received of
                Inl e \<Rightarrow> Some (s\<lparr>self := t, pc := At_Top\<rparr>)
              | Inr v \<Rightarrow> Some (s\<lparr>self := t, pc := on_input body v\<rparr>)))
      else None)"

section \<open>The bodies\<close>

text \<open>\<open>TestTask\<close>: the members are \<open>is_end\<close> and \<open>final_result_\<close>.\<close>

definition test_body :: "(int, bool \<times> TaskResult) coro_body" where
  "test_body =
     \<lparr>on_top = (\<lambda>(is_end, final_result) cancelled.
        if is_end then Returning final_result
        else if cancelled then Returning TaskResult.CANCELLED
        else In_Wait Wait_Test),
      on_wait_false = Returning TaskResult.CANCELLED,
      on_input = (\<lambda>v. At_Top)\<rparr>"

datatype OtaState = IDLE | DOWNLOADING | VERIFYING | UPDATING | OTA_COMPLETED | OTA_FAILED

definition ota_body :: "(OtaState, unit) coro_body" where
  "ota_body =
     \<lparr>on_top = (\<lambda>_ cancelled. if cancelled then Returning TaskResult.CANCELLED else In_Wait Wait_Test),
      on_wait_false = At_Top,
      on_input = (\<lambda>input_parameters. case input_parameters of
          IDLE \<Rightarrow> Returning SUCCESS
        | DOWNLOADING \<Rightarrow> At_Top
        | VERIFYING \<Rightarrow> At_Top
        | UPDATING \<Rightarrow> At_Top
        | OTA_COMPLETED \<Rightarrow> Returning SUCCESS
        | OTA_FAILED \<Rightarrow> Returning FAILURE)\<rparr>"

section \<open>The system\<close>

text \<open>
  A call from outside: \<open>run()\<close> also posts the coroutine. \<open>Set_Status\<close> is protected and
  \<open>Finish\<close> belongs to the coroutine, so neither is a client call.
\<close>

fun client_call :: "'m task_call \<Rightarrow> bool" where
  "client_call (Set_Status s) = False"
| "client_call (Finish r) = False"
| "client_call _ = True"

definition call_step :: "('c, TaskCommand) channel_ops \<Rightarrow> ('i, 'm) channel_ops \<Rightarrow> 'm task_call
    \<Rightarrow> ('c, 'i, 'x) coro \<Rightarrow> answer \<times> ('c, 'i, 'x) coro" where
  "call_step cops iops call s =
     (let (a, t) = task_op cops iops (self s) call
      in (a, s\<lparr>self := t, pc := (if call = Run \<and> a = Yes_No True then At_Top else pc s)\<rparr>))"

inductive coro_rel :: "('m, 'x) coro_body \<Rightarrow> ('c, TaskCommand) channel_ops \<Rightarrow> ('i, 'm) channel_ops
    \<Rightarrow> ('c, 'i, 'x) coro \<Rightarrow> ('c, 'i, 'x) coro \<Rightarrow> bool"
  for body cops iops where
  coroutine: "coro_step body cops iops ch s = Some t \<Longrightarrow> coro_rel body cops iops s t"
| race: "coro_race body cops iops ch s = Some t \<Longrightarrow> coro_rel body cops iops s t"
| outside: "client_call call \<Longrightarrow> call_step cops iops call s = (a, t) \<Longrightarrow> coro_rel body cops iops s t"
| member_store: "t = s\<lparr>members := x\<rparr> \<Longrightarrow> coro_rel body cops iops s t"

inductive_cases coro_relE: "coro_rel body cops iops s t"

definition coro_init :: "('c \<Rightarrow> TaskCommand list) \<Rightarrow> ('c, 'i, 'x) coro \<Rightarrow> bool" where
  "coro_init items s \<longleftrightarrow>
     self s = Task (name (self s)) (input_parameters_channel (self s)) (task_control_channel (self s))
     \<and> items (task_control_channel (self s)) = [] \<and> pc s = Not_Started"

section \<open>A cancelled task ends\<close>

fun waiting :: "coro_pc \<Rightarrow> bool" where
  "waiting (In_Wait Wait_Test) = True"
| "waiting (In_Wait Wait_Receive) = True"
| "waiting (In_Wait (Wait_Done True)) = True"
| "waiting In_Input = True"
| "waiting _ = False"

definition body_ok :: "('m, 'x) coro_body \<Rightarrow> bool" where
  "body_ok body \<longleftrightarrow> (\<forall>x. \<exists>r. on_top body x True = Returning r)
     \<and> on_wait_false body \<in> insert At_Top (range Returning)
     \<and> (\<forall>v. on_input body v \<in> insert At_Top (range Returning))"

text \<open>
  A cancelled task whose coroutine sits in one of the waits has the CANCEL command in its
  channel.
\<close>

definition cancel_inv :: "('c \<Rightarrow> TaskCommand list) \<Rightarrow> ('c, 'i, 'x) coro \<Rightarrow> bool" where
  "cancel_inv items s \<longleftrightarrow>
     (current_status (self s) = TaskStatus.CANCELLED \<and> result (self s) = Pending \<and> waiting (pc s)
      \<longrightarrow> CANCEL \<in> set (items (task_control_channel (self s))))"

lemma ota_body_ok: "body_ok ota_body"
  by (auto simp: body_ok_def ota_body_def split: OtaState.split)

lemma test_body_ok: "body_ok test_body"
  by (auto simp: body_ok_def test_body_def)

lemma not_waiting: "p \<in> insert At_Top (range Returning) \<Longrightarrow> \<not> waiting p"
  by auto

lemma body_not_waiting:
  assumes "body_ok body"
  shows "\<not> waiting (on_top body x True)" "\<not> waiting (on_wait_false body)" "\<not> waiting (on_input body v)"
proof -
  obtain r where "on_top body x True = Returning r"
    using assms unfolding body_ok_def by blast
  then show "\<not> waiting (on_top body x True)" by simp
  show "\<not> waiting (on_wait_false body)" "\<not> waiting (on_input body v)"
    using assms by (auto simp: body_ok_def intro!: not_waiting)
qed

lemma call_step_inv:
  assumes law: "shared_channel_law cops items 1" and inv: "cancel_inv items s"
    and call: "client_call call" and step: "call_step cops iops call s = (a, t)"
  shows "cancel_inv items t"
proof -
  have sent: "m \<in> set (items ch')" if "try_send cops m ch = (True, ch')" for m ch ch'
    using shared_sent [OF law that] by simp
  have kept: "CANCEL \<in> set (items ch')" if "try_send cops m ch = (ok, ch')" "CANCEL \<in> set (items ch)" for m ch ch' ok
    using shared_sent [OF law that(1)] that(2) by (auto split: if_splits)
  show ?thesis
  proof (cases call)
    case Run
    then show ?thesis using inv step
      by (auto simp: cancel_inv_def call_step_def task_op_def run_def Let_def split: if_splits)
  next
    case Get_Status
    then show ?thesis using inv step
      by (auto simp: cancel_inv_def call_step_def task_op_def get_current_status_def Let_def
          split: future.splits TaskResult.splits)
  next
    case (Send v)
    then show ?thesis using inv step
      by (auto simp: cancel_inv_def call_step_def task_op_def send_input_parameters_def Let_def
          split: prod.splits)
  next
    case Pause
    then show ?thesis using inv step
      by (auto simp: cancel_inv_def call_step_def task_op_def pause_def send_command_def Let_def
          split: prod.splits if_splits)
  next
    case Resume
    then show ?thesis using inv step
      by (auto simp: cancel_inv_def call_step_def task_op_def resume_def send_command_def Let_def
          split: prod.splits dest: kept)
  next
    case Cancel
    then show ?thesis using inv step
      by (auto simp: cancel_inv_def call_step_def task_op_def cancel_def send_command_def Let_def
          split: prod.splits if_splits dest: sent kept)
  qed (use call in simp_all)
qed

lemma coro_step_inv:
  assumes law: "shared_channel_law cops items 1" and body: "body_ok body" and inv: "cancel_inv items s"
    and step: "coro_step body cops iops ch s = Some t"
  shows "cancel_inv items t"
proof -
  note bodies = body_not_waiting [OF body]
  show ?thesis
  proof (cases "pc s")
    case At_Top
    then show ?thesis using step bodies
      by (auto simp: cancel_inv_def coro_step_def is_cancelled_def)
  next
    case (In_Wait ws)
    show ?thesis
    proof (cases ws)
      case (Wait_Done b)
      then show ?thesis using In_Wait inv step bodies
        by (cases b) (auto simp: cancel_inv_def coro_step_def)
    next
      case Wait_Test
      then show ?thesis using In_Wait inv step
        by (auto simp: cancel_inv_def coro_step_def async_wait_for_resume_def wait_resume_test_def)
    next
      case Wait_Receive
      then show ?thesis using In_Wait inv step
        by (auto simp: cancel_inv_def coro_step_def async_wait_for_resume_def wait_resume_command_def
            split: option.splits if_splits dest!: shared_received [OF law])
    next
      case Wait_Set_Running
      then show ?thesis using In_Wait inv step
        by (auto simp: cancel_inv_def coro_step_def async_wait_for_resume_def set_status_allowed
            allowed_def Let_def split: if_splits)
    qed
  next
    case In_Input
    then show ?thesis using inv step bodies
      by (auto simp: cancel_inv_def coro_step_def select_received_def
          split: option.splits if_splits sum.splits)
  next
    case (Returning r)
    then show ?thesis using step by (auto simp: cancel_inv_def coro_step_def)
  qed (use step in \<open>simp_all add: coro_step_def\<close>)
qed

lemma coro_race_inv:
  assumes body: "body_ok body" and step: "coro_race body cops iops ch s = Some t"
  shows "cancel_inv items t"
  using step body_not_waiting [OF body]
  by (auto simp: cancel_inv_def coro_race_def split: option.splits if_splits sum.splits)

text \<open>The invariant holds for channels that keep their law and bodies that obey \<open>body_ok\<close>.\<close>

definition cancel_sys_inv :: "('c, TaskCommand) channel_ops \<Rightarrow> ('m, 'x) coro_body
    \<Rightarrow> ('c \<Rightarrow> TaskCommand list) \<Rightarrow> ('c, 'i, 'x) coro \<Rightarrow> bool" where
  "cancel_sys_inv cops body items s \<longleftrightarrow>
     (shared_channel_law cops items 1 \<longrightarrow> body_ok body \<longrightarrow> cancel_inv items s)"

lemma coro_rel_inv:
  assumes "cancel_sys_inv cops body items s" and "coro_rel body cops iops s t"
  shows "cancel_sys_inv cops body items t"
  unfolding cancel_sys_inv_def
proof (intro impI)
  assume law: "shared_channel_law cops items 1" and body: "body_ok body"
  then have inv: "cancel_inv items s" using assms(1) by (simp add: cancel_sys_inv_def)
  from assms(2) show "cancel_inv items t"
  proof (cases rule: coro_rel.cases)
    case (coroutine ch)
    then show ?thesis by (rule coro_step_inv [OF law body inv])
  next
    case (race ch)
    then show ?thesis by (rule coro_race_inv [OF body])
  next
    case (outside call a)
    then show ?thesis by (rule call_step_inv [OF law inv])
  next
    case (member_store x)
    then show ?thesis using inv by (simp add: cancel_inv_def)
  qed
qed

interpretation coro_system:
  invariant_system "coro_init items" "coro_rel body cops iops" "cancel_sys_inv cops body items"
proof unfold_locales
  show "cancel_sys_inv cops body items s" if "coro_init items s" for s
    using that by (simp add: coro_init_def cancel_sys_inv_def cancel_inv_def)
qed (rule coro_rel_inv)

text \<open>The coroutine alone, for a list of channel preferences; it rests where it cannot move.\<close>

fun coro_run :: "('m, 'x) coro_body \<Rightarrow> ('c, TaskCommand) channel_ops \<Rightarrow> ('i, 'm) channel_ops
    \<Rightarrow> bool list \<Rightarrow> ('c, 'i, 'x) coro \<Rightarrow> ('c, 'i, 'x) coro" where
  "coro_run body cops iops [] s = s"
| "coro_run body cops iops (ch # chs) s =
     (case coro_step body cops iops ch s of None \<Rightarrow> s | Some t \<Rightarrow> coro_run body cops iops chs t)"

text \<open>
  The same with the choice, at each step, that both receives have completed; where that does
  not apply the step is an ordinary one.
\<close>

datatype pick = Pick bool | Race bool

fun coro_pick :: "('m, 'x) coro_body \<Rightarrow> ('c, TaskCommand) channel_ops \<Rightarrow> ('i, 'm) channel_ops
    \<Rightarrow> pick \<Rightarrow> ('c, 'i, 'x) coro \<Rightarrow> ('c, 'i, 'x) coro option" where
  "coro_pick body cops iops (Pick ch) s = coro_step body cops iops ch s"
| "coro_pick body cops iops (Race ch) s =
     (case coro_race body cops iops ch s of None \<Rightarrow> coro_step body cops iops ch s | Some t \<Rightarrow> Some t)"

fun coro_picks :: "('m, 'x) coro_body \<Rightarrow> ('c, TaskCommand) channel_ops \<Rightarrow> ('i, 'm) channel_ops
    \<Rightarrow> pick list \<Rightarrow> ('c, 'i, 'x) coro \<Rightarrow> ('c, 'i, 'x) coro" where
  "coro_picks body cops iops [] s = s"
| "coro_picks body cops iops (p # ps) s =
     (case coro_pick body cops iops p s of None \<Rightarrow> s | Some t \<Rightarrow> coro_picks body cops iops ps t)"

text \<open>How many steps a cancelled coroutine needs at most.\<close>

fun steps_left :: "coro_pc \<Rightarrow> nat" where
  "steps_left Not_Started = 0"
| "steps_left Returned = 0"
| "steps_left (Returning r) = 1"
| "steps_left At_Top = 2"
| "steps_left In_Input = 3"
| "steps_left (In_Wait Wait_Test) = 5"
| "steps_left (In_Wait (Wait_Done b)) = 4"
| "steps_left (In_Wait Wait_Receive) = 6"
| "steps_left (In_Wait Wait_Set_Running) = 5"

definition coro_ending :: "('c \<Rightarrow> TaskCommand list) \<Rightarrow> ('c, 'i, 'x) coro \<Rightarrow> bool" where
  "coro_ending items s \<longleftrightarrow>
     (if pc s = Returned then \<exists>r. result (self s) = Ready r
      else current_status (self s) = TaskStatus.CANCELLED \<and> result (self s) = Pending
           \<and> pc s \<noteq> Not_Started \<and> cancel_inv items s)"

lemma steps_left_body:
  assumes "body_ok body"
  shows "steps_left (on_top body x True) = 1" "on_top body x True \<noteq> Not_Started"
    "on_top body x True \<noteq> Returned"
    "steps_left (on_wait_false body) \<le> 2" "on_wait_false body \<noteq> Not_Started"
    "on_wait_false body \<noteq> Returned"
    "steps_left (on_input body v) < 3" "on_input body v \<noteq> Not_Started" "on_input body v \<noteq> Returned"
proof -
  obtain r where "on_top body x True = Returning r"
    using assms unfolding body_ok_def by blast
  then show "steps_left (on_top body x True) = 1" "on_top body x True \<noteq> Not_Started"
    "on_top body x True \<noteq> Returned" by simp_all
  have "on_wait_false body \<in> insert At_Top (range Returning)"
    "on_input body v \<in> insert At_Top (range Returning)"
    using assms by (simp_all add: body_ok_def)
  then show "steps_left (on_wait_false body) \<le> 2" "on_wait_false body \<noteq> Not_Started"
    "on_wait_false body \<noteq> Returned" "steps_left (on_input body v) < 3"
    "on_input body v \<noteq> Not_Started" "on_input body v \<noteq> Returned" by auto
qed

definition coro_goes_on :: "('c, 'i, 'x) coro \<Rightarrow> ('c, 'i, 'x) coro \<Rightarrow> bool" where
  "coro_goes_on s t \<longleftrightarrow> steps_left (pc t) < steps_left (pc s)
     \<and> (pc t = Returned \<longrightarrow> (\<exists>r. result (self t) = Ready r))
     \<and> (pc t \<noteq> Returned \<longrightarrow> current_status (self t) = TaskStatus.CANCELLED
          \<and> result (self t) = Pending \<and> pc t \<noteq> Not_Started)"

lemma coro_step_ending:
  assumes law: "shared_channel_law cops items 1" and body: "body_ok body"
    and s: "coro_ending items s" "pc s \<noteq> Returned"
  shows "\<exists>t. coro_step body cops iops ch s = Some t \<and> coro_goes_on s t"
proof -
  note bd = steps_left_body [OF body]
  have st: "current_status (self s) = TaskStatus.CANCELLED" "result (self s) = Pending"
      "pc s \<noteq> Not_Started" "waiting (pc s) \<Longrightarrow> CANCEL \<in> set (items (task_control_channel (self s)))"
    using s by (auto simp: coro_ending_def cancel_inv_def)
  have rc: "waiting (pc s) \<Longrightarrow> \<exists>m c'. receive cops (task_control_channel (self s)) = Some ((None, m), c')"
    using st(4) shared_receive(1) [OF law] by (cases "items (task_control_channel (self s))") fastforce+
  show ?thesis
  proof (cases "pc s")
    case At_Top
    then show ?thesis using st bd(1-3) by (simp add: coro_goes_on_def coro_step_def is_cancelled_def)
  next
    case (In_Wait ws)
    show ?thesis
    proof (cases ws)
      case (Wait_Done b)
      then show ?thesis using In_Wait st bd(4-6) by (cases b) (simp_all add: coro_goes_on_def coro_step_def)
    next
      case Wait_Test
      then show ?thesis using In_Wait st
        by (simp add: coro_goes_on_def coro_step_def async_wait_for_resume_def wait_resume_test_def is_paused_def)
    next
      case Wait_Receive
      then show ?thesis using In_Wait st rc
        by (auto simp: coro_goes_on_def coro_step_def async_wait_for_resume_def wait_resume_command_def)
    next
      case Wait_Set_Running
      then show ?thesis using In_Wait st
        by (simp add: coro_goes_on_def coro_step_def async_wait_for_resume_def set_status_allowed allowed_def)
    qed
  next
    case In_Input
    then obtain m c' where "receive cops (task_control_channel (self s)) = Some ((None, m), c')"
      using rc by auto
    then show ?thesis using In_Input st bd(7-9)
      by (auto simp: coro_goes_on_def coro_step_def select_received_def wait_for_input_parameters_def Let_def
          split: option.splits sum.splits TaskCommand.splits)
  next
    case (Returning r)
    then show ?thesis using st by (simp add: coro_goes_on_def coro_step_def finish_def)
  qed (use s st in auto)
qed

lemma coro_race_ending:
  assumes body: "body_ok body" and s: "coro_ending items s"
    and step: "coro_race body cops iops ch s = Some t"
  shows "coro_goes_on s t"
  using step s steps_left_body(7-9) [OF body]
  by (auto simp: coro_race_def coro_goes_on_def coro_ending_def select_both_def
      split: option.splits sum.splits if_splits)

lemma coro_pick_ending:
  assumes law: "shared_channel_law cops items 1" and body: "body_ok body"
    and s: "coro_ending items s" "pc s \<noteq> Returned"
  shows "\<exists>t. coro_pick body cops iops p s = Some t \<and> coro_ending items t \<and> steps_left (pc t) < steps_left (pc s)"
proof -
  have inv: "cancel_inv items s" using s by (simp add: coro_ending_def)
  have "\<exists>t. coro_pick body cops iops p s = Some t \<and> cancel_inv items t \<and> coro_goes_on s t"
  proof (cases p)
    case (Pick ch)
    then show ?thesis
      using coro_step_ending [OF law body s, of iops ch] coro_step_inv [OF law body inv] by fastforce
  next
    case (Race ch)
    show ?thesis
    proof (cases "coro_race body cops iops ch s")
      case None
      then show ?thesis
        using Race coro_step_ending [OF law body s, of iops ch] coro_step_inv [OF law body inv] by fastforce
    next
      case (Some t)
      then show ?thesis
        using Race coro_race_ending [OF body s(1) Some] coro_race_inv [OF body Some] by simp
    qed
  qed
  then show ?thesis by (auto simp: coro_goes_on_def coro_ending_def)
qed

lemma coro_picks_ends:
  assumes "shared_channel_law cops items 1" and "body_ok body" and "coro_ending items s"
    and "steps_left (pc s) \<le> length ps"
  shows "pc (coro_picks body cops iops ps s) = Returned
    \<and> (\<exists>r. result (self (coro_picks body cops iops ps s)) = Ready r)"
  using assms(3,4)
proof (induction ps arbitrary: s)
  case Nil
  then have "pc s = Returned" by (cases "pc s" rule: steps_left.cases) (auto simp: coro_ending_def)
  then show ?case using Nil by (simp add: coro_ending_def)
next
  case (Cons p ps)
  show ?case
  proof (cases "pc s = Returned")
    case True
    then have "coro_pick body cops iops p s = None" by (cases p) (simp_all add: coro_step_def coro_race_def)
    with True show ?thesis using Cons.prems by (simp add: coro_ending_def)
  next
    case False
    obtain t where "coro_pick body cops iops p s = Some t" "coro_ending items t" "steps_left (pc t) < steps_left (pc s)"
      using coro_pick_ending [OF assms(1,2) Cons.prems(1) False] by blast
    then show ?thesis using Cons.IH [of t] Cons.prems(2) by simp
  qed
qed

section \<open>Schedules\<close>

text \<open>One event of a run: a call from outside, a step of the coroutine, a store to the members.\<close>

datatype ('m, 'x) event = Call "'m task_call" | Coro bool | Store 'x

fun coro_event :: "('m, 'x) event \<Rightarrow> bool" where
  "coro_event (Coro ch) = True"
| "coro_event _ = False"

fun exec_events :: "('m, 'x) coro_body \<Rightarrow> ('c, TaskCommand) channel_ops \<Rightarrow> ('i, 'm) channel_ops
    \<Rightarrow> ('m, 'x) event list \<Rightarrow> ('c, 'i, 'x) coro \<Rightarrow> (answer list \<times> ('c, 'i, 'x) coro) option" where
  "exec_events body cops iops [] s = Some ([], s)"
| "exec_events body cops iops (Call c # es) s =
     (if client_call c then
        (let (a, t) = call_step cops iops c s in map_option (map_prod (Cons a) id) (exec_events body cops iops es t))
      else None)"
| "exec_events body cops iops (Coro ch # es) s =
     (case coro_step body cops iops ch s of
        None \<Rightarrow> None | Some t \<Rightarrow> exec_events body cops iops es t)"
| "exec_events body cops iops (Store x # es) s = exec_events body cops iops es (s\<lparr>members := x\<rparr>)"

lemma exec_events_steps:
  "exec_events body cops iops es s = Some (as, t) \<Longrightarrow> (coro_rel body cops iops)\<^sup>*\<^sup>* s t"
proof (induction body cops iops es s arbitrary: as t rule: exec_events.induct)
  case (2 body cops iops c es s)
  obtain a u where u: "call_step cops iops c s = (a, u)" by fastforce
  with 2 have "coro_rel body cops iops s u" "(coro_rel body cops iops)\<^sup>*\<^sup>* u t"
    by (auto split: if_splits intro: coro_rel.outside)
  then show ?case by (rule converse_rtranclp_into_rtranclp)
next
  case (3 body cops iops ch es s)
  then show ?case
    by (auto split: option.splits intro: converse_rtranclp_into_rtranclp coro_rel.coroutine)
next
  case (4 body cops iops x es s)
  then have "(coro_rel body cops iops)\<^sup>*\<^sup>* (s\<lparr>members := x\<rparr>) t" by simp
  moreover have "coro_rel body cops iops s (s\<lparr>members := x\<rparr>)"
    by (rule coro_rel.member_store) (rule refl)
  ultimately show ?case by (rule converse_rtranclp_into_rtranclp [rotated])
qed simp

definition start :: "'x \<Rightarrow> (TaskCommand list, 'm list, 'x) coro" where
  "start x = \<lparr>self = Task ''t'' [] [], members = x, pc = Not_Started\<rparr>"

lemma exec_events_reach:
  "exec_events body cops iops es (start x) = Some (as, t) \<Longrightarrow> reach (coro_init id) (coro_rel body cops iops) t"
  by (rule reach_steps [OF exec_events_steps reach_init]) (auto simp: coro_init_def start_def Task_def)

definition ota_inp :: "(OtaState list, OtaState) channel_ops" where "ota_inp = list_channel 1"

lemmas coro_exec = call_step_def coro_step_def task_op_def task_ops is_cancelled_def is_paused_def
  async_wait_for_resume_def wait_resume_test_def wait_resume_command_def select_received_def
  wait_for_input_parameters_def allowed_def ctl_def inp_def ota_inp_def list_channel_def start_def
  Task_def ota_body_def test_body_def

section \<open>Properties\<close>

text \<open>
  C13: for every interleaving of calls with the coroutine of \<open>OtaTask\<close>, over channels whose
  full buffer may still take the message a suspended receive is waiting for, and with messages
  lost to the receive that completes second: once the status is CANCELLED and the coroutine
  is still running, the coroutine needs no further help. After at most six steps of its own it
  has returned and its future is ready, wherever it was suspended and whatever other
  commands lie before the CANCEL. Each operation of a channel is one step.
\<close>

theorem ota_cancel_ends:
  assumes "shared_channel_law cops items 1"
    and "reach (coro_init items) (coro_rel ota_body cops iops) s"
    and "current_status (self s) = TaskStatus.CANCELLED" and "result (self s) = Pending"
    and "pc s \<notin> {Not_Started, Returned}" and "6 \<le> length ps"
  shows "pc (coro_picks ota_body cops iops ps s) = Returned
    \<and> (\<exists>r. result (self (coro_picks ota_body cops iops ps s)) = Ready r)"
proof (rule coro_picks_ends [OF assms(1) ota_body_ok])
  have "cancel_inv items s"
    using coro_system.reach_inv [OF assms(2)] assms(1) ota_body_ok by (simp add: cancel_sys_inv_def)
  with assms(3-5) show "coro_ending items s" by (simp add: coro_ending_def)
  have "steps_left (pc s) \<le> 6" by (cases "pc s" rule: steps_left.cases) auto
  with assms(6) show "steps_left (pc s) \<le> length ps" by simp
qed

text \<open>
  A paused coroutine waits in its receive; a RESUME and then a CANCEL are accepted before it goes
  on.
\<close>

definition wide_ctl :: "(TaskCommand list, TaskCommand) channel_ops" where "wide_ctl = list_channel 2"

lemma wide_ctl_law: "shared_channel_law wide_ctl id 1"
  using list_channel_shared [of 1] by (simp add: wide_ctl_def numeral_2_eq_2)

definition resumed_ota :: "(TaskCommand list, OtaState list, unit) coro" where
  "resumed_ota =
     \<lparr>self = \<lparr>name = ''t'', current_status = TaskStatus.CANCELLED, result = Pending,
        cached_result = None, input_parameters_channel = [], task_control_channel = [RESUME, CANCEL]\<rparr>,
      members = (), pc = In_Wait Wait_Receive\<rparr>"

lemma resumed_ota_run:
  "exec_events ota_body wide_ctl ota_inp
     [Call Run, Call Pause, Coro True, Coro True, Coro True, Coro True, Call Resume, Call Cancel] (start ()) =
     Some ([Yes_No True, Yes_No True, Yes_No True, Yes_No True], resumed_ota)"
  by (simp add: coro_exec wide_ctl_def resumed_ota_def)

theorem ota_cancel_ends_witness:
  "pc (coro_picks ota_body wide_ctl ota_inp (replicate 6 (Race True)) resumed_ota) = Returned"
  using ota_cancel_ends [OF wide_ctl_law exec_events_reach [OF resumed_ota_run], of "replicate 6 (Race True)"]
  by (simp add: resumed_ota_def del: coro_picks.simps replicate.simps)

text \<open>
  The task is paused and resumed; after the coroutine has taken the RESUME command and
  before it sets the status, the task is paused again.
\<close>

definition lost_pause :: "(OtaState, unit) event list" where
  "lost_pause =
     [Call Run, Call Pause, Coro True, Coro True, Coro True, Coro True, Call Resume, Coro True,
      Call Pause, Coro True, Coro True, Coro True, Coro True, Coro True, Coro True]"

text \<open>
  a pause can be lost. There is a run in which the last call is \<open>pause()\<close>, it answered
  true, and yet the coroutine has consumed the command, the status is RUNNING and the
  coroutine waits for input as if it had never been paused.
\<close>

theorem pause_can_be_lost:
  "\<exists>s. exec_events ota_body ctl ota_inp lost_pause (start ()) = Some ([Yes_No True, Yes_No True, Yes_No True, Yes_No True], s)
     \<and> filter (\<lambda>e. \<not> coro_event e) lost_pause = [Call Run, Call Pause, Call Resume, Call Pause]
     \<and> current_status (self s) = RUNNING \<and> pc s = In_Input \<and> task_control_channel (self s) = []"
  by (simp add: lost_pause_def coro_exec)

text \<open>
  \<open>end_task\<close> as its three actions on a running task: 024 resumes before it stores
  \<open>is_end\<close>, 025 after. \<open>final_result_\<close> is initially SUCCESS.
\<close>

definition end_result :: "int \<Rightarrow> TaskResult" where
  "end_result value = (if value > 10 then SUCCESS else FAILURE)"

definition end_task_024 :: "int \<Rightarrow> (int, bool \<times> TaskResult) event list" where
  "end_task_024 value = [Store (False, end_result value), Call Resume, Store (True, end_result value)]"

definition end_task_025 :: "int \<Rightarrow> (int, bool \<times> TaskResult) event list" where
  "end_task_025 value = [Store (False, end_result value), Store (True, end_result value), Call Resume]"

text \<open>
  in the order of 025, \<open>end_task(value)\<close> on a running task whose coroutine is suspended
  on empty channels makes the coroutine return within three steps, with SUCCESS for values
  above 10 and FAILURE otherwise, for every channel that behaves as documented.
\<close>

theorem end_task_025_ends:
  assumes "shared_channel_law cops items 1" and "items (task_control_channel (self s)) = []"
    and "receive iops (input_parameters_channel (self s)) = None"
    and "pc s = In_Input" and "result (self s) = Pending"
  shows "\<exists>t. exec_events test_body cops iops (end_task_025 value) s = Some ([Yes_No True], t)
     \<and> pc (coro_run test_body cops iops [b1, b2, b3] t) = Returned
     \<and> result (self (coro_run test_body cops iops [b1, b2, b3] t)) =
         Ready (if value > 10 then SUCCESS else FAILURE)"
proof -
  obtain c' where c': "try_send cops RESUME (task_control_channel (self s)) = (True, c')"
      "items c' = [RESUME]"
    using shared_room [OF assms(1), of "task_control_channel (self s)" RESUME] assms(2) by auto
  obtain c'' where c'': "receive cops c' = Some ((None, RESUME), c'')" "items c'' = []"
    using shared_receive(1) [OF assms(1) c'(2)] by auto
  show ?thesis
    using assms(3-5) c' c''
    by (simp add: end_task_025_def end_result_def call_step_def task_op_def resume_def
        send_command_def coro_step_def select_received_def wait_for_input_parameters_def
        test_body_def finish_def Let_def)
qed

definition waiting_test :: "(TaskCommand list, int list, bool \<times> TaskResult) coro" where
  "waiting_test =
     \<lparr>self = \<lparr>name = ''t'', current_status = RUNNING, result = Pending, cached_result = None,
        input_parameters_channel = [], task_control_channel = []\<rparr>,
      members = (False, SUCCESS), pc = In_Input\<rparr>"

lemma waiting_test_run:
  "exec_events test_body ctl inp [Call Run, Coro True, Coro True, Coro True] (start (False, SUCCESS)) =
     Some ([Yes_No True], waiting_test)"
  by (simp add: coro_exec waiting_test_def)

theorem end_task_025_ends_witness:
  "\<exists>t. exec_events test_body ctl inp (end_task_025 3) waiting_test = Some ([Yes_No True], t)
     \<and> result (self (coro_run test_body ctl inp [True, True, True] t)) = Ready FAILURE"
proof -
  have "id (task_control_channel (self waiting_test)) = []" "pc waiting_test = In_Input"
    "receive inp (input_parameters_channel (self waiting_test)) = None"
    "result (self waiting_test) = Pending"
    by (simp_all add: waiting_test_def inp_def list_channel_def)
  from end_task_025_ends [OF channel_law_shared [OF ctl_law] this(1) this(3) this(2) this(4), of 3 True True True]
  show ?thesis by auto
qed

text \<open>
  in the order of 024 the end can be missed. The coroutine may run between the resume and
  the store of \<open>is_end\<close>; \<open>end_task\<close> has then returned with \<open>is_end\<close> set while the coroutine
  is suspended on empty channels and will not look at \<open>is_end\<close> again by itself.
\<close>

theorem end_task_024_can_be_missed:
  "\<exists>es s. filter (\<lambda>e. \<not> coro_event e) es = end_task_024 11
     \<and> exec_events test_body ctl inp es waiting_test = Some ([Yes_No True], s)
     \<and> reach (coro_init id) (coro_rel test_body ctl inp) waiting_test
     \<and> members s = (True, SUCCESS) \<and> result (self s) = Pending
     \<and> {ch. coro_step test_body ctl inp ch s \<noteq> None} = {}"
proof (intro exI conjI)
  let ?es = "[Store (False, SUCCESS), Call Resume, Coro True, Coro True, Coro True, Coro True,
      Store (True, SUCCESS)] :: (int, bool \<times> TaskResult) event list"
  let ?s = "waiting_test\<lparr>members := (True, SUCCESS)\<rparr>"
  show "filter (\<lambda>e. \<not> coro_event e) ?es = end_task_024 11"
    by (simp add: end_task_024_def end_result_def)
  show "exec_events test_body ctl inp ?es waiting_test = Some ([Yes_No True], ?s)"
    by (simp add: coro_exec waiting_test_def)
  show "reach (coro_init id) (coro_rel test_body ctl inp) waiting_test"
    by (rule exec_events_reach [OF waiting_test_run])
  show "{ch. coro_step test_body ctl inp ch ?s \<noteq> None} = {}"
    by (simp add: coro_exec waiting_test_def)
qed (simp_all add: waiting_test_def)

end
