(* ===== verification/Ota_Node.thy ===== *)
theory Ota_Node
  imports Task_Coroutine
begin

text \<open>
  \<open>behaviortree_test/026.ota_state.cpp\<close>: the names of the OTA states and the behaviour-tree
  node \<open>OtaNode\<close>, which drives an \<open>OtaTask\<close>. The tree library is not part of the repository:
  the answer of its \<open>getInput\<close> is an argument, and the node's status is returned to it.
\<close>

section \<open>Names of the states\<close>

fun ota_to_string :: "OtaState \<Rightarrow> string" where
  "ota_to_string IDLE = ''IDLE''"
| "ota_to_string DOWNLOADING = ''DOWNLOADING''"
| "ota_to_string VERIFYING = ''VERIFYING''"
| "ota_to_string UPDATING = ''UPDATING''"
| "ota_to_string OTA_COMPLETED = ''COMPLETED''"
| "ota_to_string OTA_FAILED = ''FAILED''"

definition convertFromString :: "string \<Rightarrow> (OtaState, string) expected" where
  "convertFromString state_str =
     (if state_str = ''IDLE'' then Inr IDLE
      else if state_str = ''DOWNLOADING'' then Inr DOWNLOADING
      else if state_str = ''VERIFYING'' then Inr VERIFYING
      else if state_str = ''UPDATING'' then Inr UPDATING
      else if state_str = ''COMPLETED'' then Inr OTA_COMPLETED
      else if state_str = ''FAILED'' then Inr OTA_FAILED
      else Inl (''Invalid OtaState: '' @ state_str))"

section \<open>OtaNode\<close>

datatype NodeStatus = BT_RUNNING | BT_SUCCESS | BT_FAILURE

text \<open>
  \<open>ota_task_\<close> is a shared pointer, null at first; \<open>new_task\<close> is what
  \<open>make_shared<OtaTask>()\<close> constructs.
\<close>

record ('c, 'i) ota_node =
  ota_task :: "('c, 'i) task option"

definition onStart :: "(OtaState, string) expected \<Rightarrow> ('c, 'i) task \<Rightarrow> ('c, 'i) ota_node
    \<Rightarrow> NodeStatus \<times> ('c, 'i) ota_node" where
  "onStart res new_task n = (case res of
     Inl e \<Rightarrow> (BT_FAILURE, n)
   | Inr ota_state \<Rightarrow>
       if ota_state = IDLE then (BT_FAILURE, n)
       else let task = (case ota_task n of None \<Rightarrow> new_task | Some t \<Rightarrow> t);
                (ok, task') = run task
            in (if \<not> ok then BT_FAILURE else BT_RUNNING, n\<lparr>ota_task := Some task'\<rparr>))"

text \<open>\<open>onRunning\<close> is only called after a start, with the pointer set.\<close>

definition onRunning :: "('i, OtaState) channel_ops \<Rightarrow> (OtaState, string) expected
    \<Rightarrow> ('c, 'i) ota_node \<Rightarrow> (NodeStatus \<times> ('c, 'i) ota_node) option" where
  "onRunning iops res n = (case ota_task n of
     None \<Rightarrow> None
   | Some task \<Rightarrow>
       let (task_run_status, task1) = get_current_status task;
           n1 = n\<lparr>ota_task := Some task1\<rparr>
       in if task_run_status = COMPLETED then Some (BT_SUCCESS, n1)
          else if task_run_status = FAILED then Some (BT_FAILURE, n1)
          else case res of
                 Inl e \<Rightarrow> Some (BT_FAILURE, n1)
               | Inr ota_state \<Rightarrow>
                   let (sent, task2) = send_input_parameters iops ota_state task1
                   in Some (BT_RUNNING, n1\<lparr>ota_task := Some task2\<rparr>))"

text \<open>The released task lives on while its coroutine holds it; it is returned here.\<close>

definition onHalted :: "('c, TaskCommand) channel_ops \<Rightarrow> ('c, 'i) ota_node
    \<Rightarrow> ('c, 'i) task option \<times> ('c, 'i) ota_node" where
  "onHalted cops n = (case ota_task n of
     None \<Rightarrow> (None, n)
   | Some task \<Rightarrow> (Some (snd (cancel cops task)), n\<lparr>ota_task := None\<rparr>))"

section \<open>Properties\<close>

text \<open>
  the names of the OTA states are read back: \<open>convertFromString\<close> accepts exactly the six
  names that \<open>to_string\<close> prints, each as its own state, and rejects every other text with a
  message that quotes it.
\<close>

theorem ota_state_names:
  "(convertFromString str = Inr s \<longleftrightarrow> str = ota_to_string s)
   \<and> (convertFromString str = Inl e \<longleftrightarrow> str \<notin> range ota_to_string \<and> e = ''Invalid OtaState: '' @ str)"
proof -
  have read_back: "convertFromString (ota_to_string s) = Inr s" for s
    by (cases s) (simp_all add: convertFromString_def)
  have name_of: "convertFromString str = Inr s \<Longrightarrow> str = ota_to_string s" for s
    by (auto simp: convertFromString_def split: if_splits)
  have err: "convertFromString str = Inl e \<Longrightarrow> e = ''Invalid OtaState: '' @ str" for e
    by (simp add: convertFromString_def split: if_splits)
  show ?thesis
  proof (cases "convertFromString str")
    case (Inl e')
    then have "str \<notin> range ota_to_string" using read_back by auto
    then show ?thesis using Inl err [OF Inl] by auto
  next
    case (Inr s')
    then have "str = ota_to_string s'" by (rule name_of)
    then show ?thesis using Inr read_back by (metis Inl_Inr_False Inr_inject rangeI)
  qed
qed

lemma run_refused: "current_status t \<noteq> INITIAL \<Longrightarrow> run t = (False, t)"
  by (simp add: run_def)

lemma onStart_spent:
  assumes "ota_task n = Some t" and "current_status t \<noteq> INITIAL"
  shows "onStart res new_task n = (BT_FAILURE, n)"
  using assms by (cases n) (auto simp: onStart_def run_refused split: sum.split)

text \<open>
  a finished node cannot be started again. After \<open>onRunning\<close> has answered SUCCESS or has
  seen its task fail, every later \<open>onStart\<close>, for any input, answers FAILURE and changes
  nothing, because the finished task is kept and \<open>run()\<close> refuses it; only \<open>onHalted\<close>, which
  the tree calls for running nodes, makes a new start possible.
\<close>

theorem finished_node_never_restarts:
  assumes "onRunning iops res n = Some (st, n')" and "st \<noteq> BT_RUNNING" and "res = Inr s"
  shows "onStart res' new_task n' = (BT_FAILURE, n')
    \<and> (s' \<noteq> IDLE \<longrightarrow> fst (onStart (Inr s') (Task m ich cch) (snd (onHalted cops n'))) = BT_RUNNING)"
proof -
  obtain t where t: "ota_task n' = Some t" "current_status t \<in> {COMPLETED, FAILED}"
    using assms
    by (auto simp: onRunning_def get_current_status_def Let_def
        split: option.splits if_splits prod.splits)
  then have "current_status t \<noteq> INITIAL" by auto
  then show ?thesis
    using onStart_spent [OF t(1)] t(1) by (simp add: onHalted_def) (simp add: onStart_def run_def Task_def)
qed

definition done_node :: "(TaskCommand list, OtaState list) ota_node" where
  "done_node = \<lparr>ota_task = Some ((Task ''OtaTask'' [] [])\<lparr>current_status := RUNNING, result := Ready SUCCESS\<rparr>)\<rparr>"

theorem finished_node_never_restarts_witness:
  "\<exists>n'. onRunning ota_inp (Inr OTA_COMPLETED) done_node = Some (BT_SUCCESS, n')
      \<and> onStart (Inr DOWNLOADING) (Task ''OtaTask'' [] []) n' = (BT_FAILURE, n')"
proof -
  obtain n' where n': "onRunning ota_inp (Inr OTA_COMPLETED) done_node = Some (BT_SUCCESS, n')"
    by (simp add: onRunning_def done_node_def get_current_status_def Task_def)
  then show ?thesis using finished_node_never_restarts [OF n' _ refl] by auto
qed

end
