(* ===== verification/Chunk_Header.thy ===== *)
theory Chunk_Header
  imports Prelude
begin

text \<open>
  \<open>cpp_test/iceoryx/002.chunk_head.cpp\<close>: the layout of a shared-memory chunk (header, user
  header, back-offset, aligned payload) and the way back from a payload pointer to its header.
  Addresses and sizes are 64-bit words with wrap-around, the header fields are 32-bit words
  stored in memory byte by byte.
\<close>

section \<open>Memory\<close>

type_synonym memory = "u64 \<Rightarrow> byte"

definition store32 :: "u64 \<Rightarrow> u32 \<Rightarrow> memory \<Rightarrow> memory" where
  "store32 a v m = m(a := ucast v, a + 1 := ucast (drop_bit 8 v), a + 2 := ucast (drop_bit 16 v),
     a + 3 := ucast (drop_bit 24 v))"

definition load32 :: "memory \<Rightarrow> u64 \<Rightarrow> u32" where
  "load32 m a = ucast (m a) OR push_bit 8 (ucast (m (a + 1))) OR push_bit 16 (ucast (m (a + 2)))
     OR push_bit 24 (ucast (m (a + 3)))"

section \<open>The chunk\<close>

text \<open>\<open>sizeof(ChunkHeader)\<close>, and the offsets of its four fields.\<close>

definition header_size :: u64 where "header_size = 16"
definition userHeaderSize_at :: u64 where "userHeaderSize_at = 0"
definition userPayloadSize_at :: u64 where "userPayloadSize_at = 4"
definition userPayloadAlignment_at :: u64 where "userPayloadAlignment_at = 8"
definition userPayloadOffset_at :: u64 where "userPayloadOffset_at = 12"

definition userPayload :: "memory \<Rightarrow> u64 \<Rightarrow> u64" where
  "userPayload m this = this + ucast (load32 m (this + userPayloadOffset_at))"

text \<open>\<open>None\<close> is the null pointer.\<close>

definition userHeader :: "memory \<Rightarrow> u64 \<Rightarrow> u64 option" where
  "userHeader m this =
     (if load32 m (this + userHeaderSize_at) = 0 then None else Some (this + header_size))"

definition fromUserPayload :: "memory \<Rightarrow> u64 \<Rightarrow> u64" where
  "fromUserPayload m payload = payload - ucast (load32 m (payload - 4))"

definition align :: "u64 \<Rightarrow> u64 \<Rightarrow> u64" where
  "align value alignment = (value + alignment - 1) AND NOT (alignment - 1)"

definition payload_offset :: "u64 \<Rightarrow> u64 \<Rightarrow> u64" where
  "payload_offset userPayloadAlignment userHeaderSize =
     (let chunkHeaderSize = header_size + userHeaderSize;
          backOffsetAlignment = 4;
          anticipatedBackOffset = align chunkHeaderSize backOffsetAlignment;
          unalignedPayload = anticipatedBackOffset + 4
      in align unalignedPayload userPayloadAlignment)"

text \<open>The arguments of \<open>std::aligned_alloc\<close>: alignment and size.\<close>

definition chunk_request :: "u64 \<Rightarrow> u64 \<Rightarrow> u64 \<Rightarrow> u64 \<times> u64" where
  "chunk_request userPayloadSize userPayloadAlignment userHeaderSize =
     (let totalSize = payload_offset userPayloadAlignment userHeaderSize + userPayloadSize;
          minAlign = max userPayloadAlignment 4
      in (minAlign, align totalSize minAlign))"

text \<open>\<open>raw\<close> is what \<open>std::aligned_alloc\<close> answered; the code does not test it for null.\<close>

definition allocateChunk :: "u64 \<Rightarrow> u64 \<Rightarrow> u64 \<Rightarrow> u64 \<Rightarrow> memory \<Rightarrow> (u64 \<times> memory) option" where
  "allocateChunk raw userPayloadSize userPayloadAlignment userHeaderSize m =
     (if raw = 0 then None
      else
        let alignedPayload = payload_offset userPayloadAlignment userHeaderSize;
            m1 = store32 (raw + userHeaderSize_at) (ucast userHeaderSize) m;
            m2 = store32 (raw + userPayloadSize_at) (ucast userPayloadSize) m1;
            m3 = store32 (raw + userPayloadAlignment_at) (ucast userPayloadAlignment) m2;
            m4 = store32 (raw + userPayloadOffset_at) (ucast alignedPayload) m3;
            offset = (ucast alignedPayload :: u32);
            m5 = store32 (raw + alignedPayload - 4) offset m4
        in Some (raw, m5))"

section \<open>Loads after stores\<close>

lemma byte_split:
  fixes v :: u32
  shows "ucast (ucast v :: byte) OR push_bit 8 (ucast (ucast (drop_bit 8 v) :: byte))
    OR push_bit 16 (ucast (ucast (drop_bit 16 v) :: byte))
    OR push_bit 24 (ucast (ucast (drop_bit 24 v) :: byte)) = v" (is "?l = v")
proof (rule bit_word_eqI)
  fix n
  assume "n < LENGTH(32)"
  then consider "n < 8" | "8 \<le> n \<and> n < 16" | "16 \<le> n \<and> n < 24" | "24 \<le> n \<and> n < 32"
    by simp linarith
  then show "bit ?l n \<longleftrightarrow> bit v n"
    by cases (auto simp: bit_or_iff bit_push_bit_iff bit_unsigned_iff bit_drop_bit_eq)
qed

definition at :: "u64 \<Rightarrow> nat \<Rightarrow> u64" where
  "at raw i = raw + of_nat i"

lemma at_eq_iff: "i < 2 ^ 64 \<Longrightarrow> j < 2 ^ 64 \<Longrightarrow> at raw i = at raw j \<longleftrightarrow> i = j"
  by (simp add: at_def word_of_nat_eq_iff take_bit_eq_mod)

lemma at_plus: "at raw i + 1 = at raw (Suc i)" "at raw i + 2 = at raw (Suc (Suc i))"
  "at raw i + 3 = at raw (Suc (Suc (Suc i)))"
  by (simp_all add: at_def algebra_simps)

lemma load_store_same:
  assumes "i + 4 \<le> 2 ^ 64"
  shows "load32 (store32 (at raw i) v m) (at raw i) = v"
  using assms byte_split [of v] unfolding load32_def store32_def at_plus by (simp add: at_eq_iff)

lemma load_store_other:
  assumes "i + 4 \<le> 2 ^ 64" and "j + 4 \<le> 2 ^ 64" and "i + 4 \<le> j \<or> j + 4 \<le> i"
  shows "load32 (store32 (at raw i) v m) (at raw j) = load32 m (at raw j)"
  using assms unfolding load32_def store32_def at_plus by (auto simp: at_eq_iff)

section \<open>Alignment\<close>

lemma unat_clear_low_bits:
  fixes w :: u64
  assumes "k < 64"
  shows "unat (w AND NOT (mask k)) = unat w div 2 ^ k * 2 ^ k"
proof -
  have "unat (w AND NOT (mask k)) = unat (push_bit k (drop_bit k w))"
    by (rule arg_cong [of _ _ unat], rule bit_eqI) (auto simp: bit_and_iff bit_not_iff bit_mask_iff bit_push_bit_iff bit_drop_bit_eq)
  also have "\<dots> = take_bit 64 (push_bit k (unat (drop_bit k w)))"
    by (simp only: unsigned_push_bit_eq) simp
  also have "unat (drop_bit k w) = unat w div 2 ^ k"
    by (simp only: unat_drop_bit_eq) (simp add: drop_bit_eq_div)
  finally have "unat (w AND NOT (mask k)) = unat w div 2 ^ k * 2 ^ k mod 2 ^ 64"
    by (simp only: push_bit_eq_mult take_bit_eq_mod)
  moreover have "unat w div 2 ^ k * 2 ^ k < 2 ^ 64"
    by (rule le_less_trans [OF div_times_less_eq_dividend unat_less_64])
  ultimately show ?thesis by (simp only: mod_less)
qed

definition round_up :: "nat \<Rightarrow> nat \<Rightarrow> nat" where
  "round_up n k = (n + 2 ^ k - 1) div 2 ^ k * 2 ^ k"

lemma round_up_props: "n \<le> round_up n k" "round_up n k < n + 2 ^ k" "2 ^ k dvd round_up n k"
proof -
  have "n + 2 ^ k - 1 < round_up n k + 2 ^ k"
    unfolding round_up_def
    by (metis add.commute dividend_less_div_times zero_less_numeral zero_less_power)
  then show "n \<le> round_up n k" by simp
  have "round_up n k \<le> n + 2 ^ k - 1"
    unfolding round_up_def by simp
  then show "round_up n k < n + 2 ^ k"
    by (metis One_nat_def add_gr_0 diff_less le_imp_less_Suc le_less_trans less_one zero_less_numeral zero_less_power)
qed (simp add: round_up_def)

lemma unat_align:
  assumes "k < 64" and "unat v + 2 ^ k \<le> 2 ^ 64"
  shows "unat (align v (2 ^ k)) = round_up (unat v) k"
proof -
  have m: "(2 ^ k - 1 :: u64) = mask k" by (simp add: mask_eq_exp_minus_1)
  have "unat (mask k :: u64) = 2 ^ k - 1"
  proof -
    have "(2 :: nat) ^ k \<le> 2 ^ 64" using assms(1) by (intro power_increasing) simp_all
    then have "(mask k :: nat) < 2 ^ 64" by (simp add: mask_eq_exp_minus_1)
    moreover have "(mask k :: u64) = of_nat (mask k)" by (simp only: of_nat_mask_eq)
    ultimately have "unat (mask k :: u64) = mask k" by (simp only: unat_of_nat) simp
    then show ?thesis by (simp add: mask_eq_exp_minus_1)
  qed
  then have "unat (v + mask k) = unat v + 2 ^ k - 1"
    using assms(2) by (subst unat_add_lem [THEN iffD1]) auto
  then show ?thesis
    using unat_clear_low_bits [OF assms(1), of "v + mask k"]
    unfolding align_def round_up_def by (simp add: m add_diff_eq [symmetric])
qed

section \<open>The layout\<close>

text \<open>Sizes for which nothing wraps: everything fits below \<open>2 ^ 32\<close>, the header's field width.\<close>

definition small_chunk :: "u64 \<Rightarrow> u64 \<Rightarrow> nat \<Rightarrow> bool" where
  "small_chunk psize usize k \<longleftrightarrow> k < 32 \<and> unat usize + unat psize + 2 * 2 ^ k + 32 < 2 ^ 32"

lemma payload_offset_round:
  assumes "small_chunk psize usize k"
  shows "unat (payload_offset (2 ^ k) usize) = round_up (round_up (16 + unat usize) 2 + 4) k"
proof -
  have k: "k < 64" and sz: "unat usize + 2 * 2 ^ k + 32 < 2 ^ 32"
    using assms by (simp_all add: small_chunk_def)
  have h: "unat (header_size + usize) = 16 + unat usize"
    using sz by (subst unat_add_lem [THEN iffD1]) (simp_all add: header_size_def)
  have a: "unat (align (header_size + usize) 4) = round_up (16 + unat usize) 2"
    using unat_align [of 2 "header_size + usize"] h sz by simp
  have up: "round_up (16 + unat usize) 2 < 16 + unat usize + 4"
    using round_up_props(2) [of "16 + unat usize" 2] by simp
  have b: "unat (align (header_size + usize) 4 + 4) = round_up (16 + unat usize) 2 + 4"
    using a up sz by (subst unat_add_lem [THEN iffD1]) simp_all
  show ?thesis
    unfolding payload_offset_def Let_def
    using unat_align [OF k, of "align (header_size + usize) 4 + 4"] b up sz by simp
qed

lemma payload_offset_bounds:
  assumes "small_chunk psize usize k"
  defines "n \<equiv> unat (payload_offset (2 ^ k) usize)"
  shows "20 + unat usize \<le> n" "n + unat psize + 2 ^ k < 2 ^ 32" "2 ^ k dvd n"
    "n < 24 + unat usize + 2 ^ k"
proof -
  let ?r = "round_up (16 + unat usize) 2"
  have n: "n = round_up (?r + 4) k" using payload_offset_round [OF assms(1)] by (simp add: n_def)
  have r: "16 + unat usize \<le> ?r" "?r < 20 + unat usize"
    using round_up_props(1,2) [of "16 + unat usize" 2] by simp_all
  show "20 + unat usize \<le> n" "2 ^ k dvd n"
    using r(1) round_up_props(1) [of "?r + 4" k] round_up_props(3) [of k "?r + 4"] n by simp_all
  show "n < 24 + unat usize + 2 ^ k" using r(2) round_up_props(2) [of "?r + 4" k] n by simp
  then show "n + unat psize + 2 ^ k < 2 ^ 32" using assms(1) by (simp add: small_chunk_def)
qed

lemma allocateChunk_at:
  assumes "raw \<noteq> 0" and "4 \<le> n" and "payload_offset al usize = of_nat n"
  shows "allocateChunk raw psize al usize m =
    Some (raw, store32 (at raw (n - 4)) (of_nat n) (store32 (at raw 12) (of_nat n)
      (store32 (at raw 8) (ucast al) (store32 (at raw 4) (ucast psize) (store32 (at raw 0) (ucast usize) m)))))"
proof -
  have prev: "raw + of_nat n - 4 = at raw (n - 4)" using assms(2) by (simp add: at_def of_nat_diff)
  have "(ucast (of_nat n :: u64) :: u32) = of_nat n"
    by (simp add: unsigned_of_nat of_nat_take_bit take_bit_word_eq_self)
  then show ?thesis
    using assms(1,3)
    by (simp add: allocateChunk_def Let_def prev) (simp add: at_def userHeaderSize_at_def userPayloadSize_at_def
        userPayloadAlignment_at_def userPayloadOffset_at_def)
qed

lemma chunk_fields:
  assumes small: "small_chunk psize usize k" and "raw \<noteq> 0"
    and alloc: "allocateChunk raw psize (2 ^ k) usize m = Some (h, m')"
  defines "n \<equiv> unat (payload_offset (2 ^ k) usize)"
  shows "h = raw" "load32 m' (at raw (n - 4)) = of_nat n" "load32 m' (at raw 12) = of_nat n"
    "load32 m' (at raw 8) = ucast (2 ^ k :: u64)" "load32 m' (at raw 4) = ucast psize"
    "load32 m' (at raw 0) = ucast usize"
proof -
  have n: "20 \<le> n" "n < 2 ^ 32"
    using payload_offset_bounds [OF small] by (simp_all add: n_def)
  have off: "payload_offset (2 ^ k) usize = of_nat n" by (simp add: n_def)
  have "4 \<le> n" using n by simp
  note al = allocateChunk_at [OF assms(2) this off, of psize m]
  show "h = raw" using al alloc by simp
  show "load32 m' (at raw (n - 4)) = of_nat n" "load32 m' (at raw 12) = of_nat n"
    "load32 m' (at raw 8) = ucast (2 ^ k :: u64)" "load32 m' (at raw 4) = ucast psize"
    "load32 m' (at raw 0) = ucast usize"
    using al alloc n by (auto simp: load_store_same load_store_other)
qed

lemma ucast_of_nat_32: "n < 2 ^ 32 \<Longrightarrow> ucast (of_nat n :: u32) = (of_nat n :: u64)"
  by (simp add: unsigned_of_nat take_bit_eq_mod)

lemma ucast_back:
  assumes "unat (w :: u64) < 2 ^ 32"
  shows "ucast (ucast w :: u32) = w"
proof (cases w rule: word_nat_cases)
  case (1 n)
  then have "n < 2 ^ 32" using assms by (simp add: unat_of_nat)
  then show ?thesis using 1(1) by (simp add: unsigned_of_nat take_bit_eq_mod)
qed

lemma ucast_32_eq_0: "unat (w :: u64) < 2 ^ 32 \<Longrightarrow> (ucast w :: u32) = 0 \<longleftrightarrow> w = 0"
  using ucast_back [of w] by (metis unsigned_0)

lemma userPayload_chunk:
  assumes "small_chunk psize usize k" and "raw \<noteq> 0"
    and "allocateChunk raw psize (2 ^ k) usize m = Some (h, m')"
  shows "userPayload m' h = at raw (unat (payload_offset (2 ^ k) usize))"
proof -
  have "unat (payload_offset (2 ^ k) usize) < 2 ^ 32"
    using payload_offset_bounds [OF assms(1)] by simp
  then show ?thesis
    using chunk_fields [OF assms]
    by (simp add: userPayload_def userPayloadOffset_at_def at_def ucast_back)
qed

section \<open>Properties\<close>

text \<open>
  C25: the way back. For every alignment \<open>2 ^ k\<close> and every user header and payload size for
  which the chunk stays below \<open>2 ^ 32\<close> bytes, \<open>fromUserPayload\<close> applied to the payload pointer
  of a fresh chunk returns its header, and the header reads back the sizes it was given (a
  null user header exactly for size 0): the back-offset does not overwrite the header.
\<close>

theorem chunk_roundtrip:
  assumes "small_chunk psize usize k" and "raw \<noteq> 0"
    and "allocateChunk raw psize (2 ^ k) usize m = Some (h, m')"
  shows "h = raw \<and> fromUserPayload m' (userPayload m' h) = h
    \<and> ucast (load32 m' (h + userPayloadSize_at)) = psize
    \<and> userHeader m' h = (if usize = 0 then None else Some (h + header_size))"
proof -
  let ?n = "unat (payload_offset (2 ^ k) usize)"
  have n: "20 \<le> ?n" "?n < 2 ^ 32"
    using payload_offset_bounds [OF assms(1)] by simp_all
  note f = chunk_fields [OF assms]
  have "at raw ?n - 4 = at raw (?n - 4)" using n by (simp add: at_def of_nat_diff)
  then have "fromUserPayload m' (userPayload m' h) = raw"
    using userPayload_chunk [OF assms] f(2) ucast_of_nat_32 [OF n(2)]
    by (simp add: fromUserPayload_def del: of_nat_unat) (simp add: at_def)
  moreover have "unat psize < 2 ^ 32" "unat usize < 2 ^ 32"
    using assms(1) by (simp_all add: small_chunk_def)
  ultimately show ?thesis
    using f ucast_32_eq_0 [of usize] ucast_back [of psize]
    by (simp add: userHeader_def userHeaderSize_at_def userPayloadSize_at_def at_def)
qed

theorem chunk_roundtrip_witness:
  "fromUserPayload (snd (the (allocateChunk 4096 16 (2 ^ 3) 8 (\<lambda>_. 0))))
     (userPayload (snd (the (allocateChunk 4096 16 (2 ^ 3) 8 (\<lambda>_. 0)))) 4096) = 4096"
proof -
  have "allocateChunk 4096 16 (2 ^ 3) 8 (\<lambda>_. 0) =
      Some (4096, snd (the (allocateChunk 4096 16 (2 ^ 3) 8 (\<lambda>_. 0))))"
    by (simp add: allocateChunk_def Let_def)
  then show ?thesis
    using chunk_roundtrip [of 16 8 3 4096] by (simp add: small_chunk_def)
qed

lemma unat_pow2: "k < 64 \<Longrightarrow> unat (2 ^ k :: u64) = 2 ^ k"
  using unat_of_nat [of "2 ^ k", where 'a = 64] power_strict_increasing [of k 64 "2 :: nat"] by simp

lemma max_align:
  assumes "k < 32"
  shows "max (2 ^ k :: u64) 4 = 2 ^ (max k 2)"
proof (cases "2 \<le> k")
  case True
  have "unat (4 :: u64) \<le> unat (2 ^ k :: u64)"
    using power_increasing [OF True, of "2 :: nat"] assms by (simp add: unat_pow2)
  then have "(4 :: u64) \<le> 2 ^ k" by (simp only: word_le_nat_alt)
  then show ?thesis using True by (simp add: max_absorb1)
next
  case False
  then have "k = 0 \<or> k = 1" by auto
  then show ?thesis by (auto simp: max_def)
qed

lemma chunk_block_size:
  assumes small: "small_chunk psize usize k"
  shows "unat (payload_offset (2 ^ k) usize) + unat psize
    \<le> unat (snd (chunk_request psize (2 ^ k) usize))"
proof -
  let ?n = "unat (payload_offset (2 ^ k) usize)" and ?j = "max k 2"
  have k: "k < 32" and b: "?n + unat psize + 2 ^ k < 2 ^ 32"
    using small payload_offset_bounds [OF small] by (simp_all add: small_chunk_def)
  have j: "?j < 64" using k by simp
  have "(2 :: nat) ^ ?j \<le> 2 ^ 32" using k by (intro power_increasing) auto
  then have "unat (payload_offset (2 ^ k) usize + psize) + 2 ^ ?j \<le> 2 ^ 64"
    and t: "unat (payload_offset (2 ^ k) usize + psize) = ?n + unat psize"
    using b by (simp_all add: unat_word_ariths)
  then have "unat (snd (chunk_request psize (2 ^ k) usize)) = round_up (?n + unat psize) ?j"
    using unat_align [OF j] by (simp add: chunk_request_def Let_def max_align [OF k])
  then show ?thesis using round_up_props(1) by simp
qed

text \<open>
  the layout. When \<open>aligned_alloc\<close> answers an address with the requested alignment, the
  payload is aligned as asked, starts behind the header, the user header and the back-offset,
  and ends inside the requested block.
\<close>

theorem chunk_layout:
  assumes "small_chunk psize usize k" and "raw \<noteq> 0"
    and "allocateChunk raw psize (2 ^ k) usize m = Some (h, m')"
    and "unat (fst (chunk_request psize (2 ^ k) usize)) dvd unat raw"
    and "unat raw + unat (snd (chunk_request psize (2 ^ k) usize)) < 2 ^ 64"
  shows "2 ^ k dvd unat (userPayload m' h)
    \<and> unat h + 16 + unat usize + 4 \<le> unat (userPayload m' h)
    \<and> unat (userPayload m' h) + unat psize \<le> unat raw + unat (snd (chunk_request psize (2 ^ k) usize))"
proof -
  let ?n = "unat (payload_offset (2 ^ k) usize)"
  note b = payload_offset_bounds [OF assms(1)] and s = chunk_block_size [OF assms(1)]
  have k: "k < 32" using assms(1) by (simp add: small_chunk_def)
  have "unat (fst (chunk_request psize (2 ^ k) usize)) = 2 ^ max k 2"
    using k by (simp add: chunk_request_def Let_def max_align unat_pow2)
  then have raw: "2 ^ k dvd unat raw"
    using assms(4) power_le_dvd [of "2 :: nat" "max k 2" "unat raw" k] by simp
  have "unat (at raw ?n) = unat raw + ?n"
    using s assms(5) by (simp add: at_def unat_word_ariths)
  then show ?thesis
    using userPayload_chunk [OF assms(1-3)] chunk_fields(1) [OF assms(1-3)] b s raw by simp
qed

theorem chunk_layout_witness:
  "2 ^ 6 dvd unat (userPayload (snd (the (allocateChunk 4096 16 (2 ^ 6) 8 (\<lambda>_. 0)))) 4096)"
proof -
  have alloc: "allocateChunk 4096 16 (2 ^ 6) 8 (\<lambda>_. 0) =
      Some (4096, snd (the (allocateChunk 4096 16 (2 ^ 6) 8 (\<lambda>_. 0))))"
    by (simp add: allocateChunk_def Let_def)
  have "small_chunk 16 8 6" by (simp add: small_chunk_def)
  moreover have "fst (chunk_request 16 (2 ^ 6) 8) = 64" "snd (chunk_request 16 (2 ^ 6) 8) = 128"
    by (simp_all add: chunk_request_def payload_offset_def align_def header_size_def Let_def)
  ultimately show ?thesis
    using chunk_layout [OF _ _ alloc] by simp
qed

end
