(* ===== verification/Relative_Pointer.thy ===== *)
theory Relative_Pointer
  imports Prelude
begin

text \<open>
  \<open>cpp_test/iceoryx/003.relative_pointer\<close>: pointers that hold a segment id and an offset and
  are resolved against each process's own registry; the segment table roudi sends over a
  socket; the checks of the sender; and the control message through which sender and receiver
  hand a value over, as an interleaving of their single accesses to shared memory.
\<close>

section \<open>Segment table\<close>

record SegmentInfo =
  seg_id :: u64
  shm_name :: "byte list"
  seg_size :: u64
  is_control :: byte
  pad :: "byte list"

definition bytes64 :: "u64 \<Rightarrow> byte list" where
  "bytes64 w = map (\<lambda>i. ucast (drop_bit (8 * i) w)) [0..<8]"

definition word64 :: "byte list \<Rightarrow> u64" where
  "word64 bs = foldr (\<lambda>b acc. push_bit 8 acc OR ucast b) bs 0"

text \<open>The 88 bytes of the struct as \<open>::write\<close> sends them and \<open>::read\<close> stores them.\<close>

definition encode_segment :: "SegmentInfo \<Rightarrow> byte list" where
  "encode_segment s =
     bytes64 (seg_id s) @ shm_name s @ bytes64 (seg_size s) @ [is_control s] @ pad s"

definition decode_segment :: "byte list \<Rightarrow> SegmentInfo" where
  "decode_segment bs =
     \<lparr>seg_id = word64 (take 8 bs), shm_name = take 64 (drop 8 bs),
      seg_size = word64 (take 8 (drop 72 bs)), is_control = bs ! 80, pad = take 7 (drop 81 bs)\<rparr>"

definition seg_wf :: "SegmentInfo \<Rightarrow> bool" where
  "seg_wf s \<longleftrightarrow> length (shm_name s) = 64 \<and> length (pad s) = 7"

definition bytes32 :: "u32 \<Rightarrow> byte list" where
  "bytes32 w = map (\<lambda>i. ucast (drop_bit (8 * i) w)) [0..<4]"

definition word32 :: "byte list \<Rightarrow> u32" where
  "word32 bs = foldr (\<lambda>b acc. push_bit 8 acc OR ucast b) bs 0"

definition REQ_GET_SEGMENTS :: byte where "REQ_GET_SEGMENTS = 1"

text \<open>\<open>handleClient\<close>: the bytes sent in answer to the request bytes received.\<close>

definition handleClient :: "byte list \<Rightarrow> SegmentInfo list \<Rightarrow> byte list" where
  "handleClient req g_segments =
     (if req = [] \<or> hd req \<noteq> REQ_GET_SEGMENTS then []
      else bytes32 (of_nat (length g_segments)) @ concat (map encode_segment g_segments))"

text \<open>
  \<open>getSegmentsFromRoudi\<close> on the bytes that arrive (each \<open>::read\<close> returns what it asks for or
  the program exits with the given message).
\<close>

fun read_segments :: "nat \<Rightarrow> byte list \<Rightarrow> (SegmentInfo list, string) expected" where
  "read_segments 0 bs = Inr []"
| "read_segments (Suc n) bs =
     (if length bs < 88 then Inl ''read SegmentInfo''
      else case read_segments n (drop 88 bs) of
             Inl e \<Rightarrow> Inl e
           | Inr ss \<Rightarrow> Inr (decode_segment (take 88 bs) # ss))"

definition getSegmentsFromRoudi :: "(byte list \<Rightarrow> byte list) \<Rightarrow> (SegmentInfo list, string) expected" where
  "getSegmentsFromRoudi server =
     (let bs = server [REQ_GET_SEGMENTS]
      in if length bs < 4 then Inl ''read count''
         else read_segments (unat (word32 (take 4 bs))) (drop 4 bs))"

fun findControlSegment :: "SegmentInfo list \<Rightarrow> SegmentInfo option" where
  "findControlSegment [] = None"
| "findControlSegment (s # segs) = (if is_control s \<noteq> 0 then Some s else findControlSegment segs)"

section \<open>Roudi's segments\<close>

definition NUM_DATA_SEGMENTS :: nat where "NUM_DATA_SEGMENTS = 4"

text \<open>\<open>snprintf\<close> into the 64-byte name: at most 63 characters, then zeros.\<close>

definition shm_name_of :: "string \<Rightarrow> byte list" where
  "shm_name_of s = map of_char (take 63 s) @ replicate (64 - length (take 63 s)) 0"

definition control_segment :: SegmentInfo where
  "control_segment =
     \<lparr>seg_id = 0, shm_name = shm_name_of ''/cpp_003_ctrl'', seg_size = 4096, is_control = 1,
      pad = replicate 7 0\<rparr>"

definition data_segment :: "nat \<Rightarrow> SegmentInfo" where
  "data_segment i =
     \<lparr>seg_id = of_nat (i + 1), shm_name = shm_name_of (''/cpp_003_seg_'' @ show_nat i),
      seg_size = 4096, is_control = 0, pad = replicate 7 0\<rparr>"

text \<open>The outcome of the three system calls of \<open>createSegment\<close>.\<close>

record create_env =
  shm_open_ok :: bool
  ftruncate_ok :: bool
  mmap_ok :: bool

definition createSegment :: "create_env \<Rightarrow> bool" where
  "createSegment e = (if \<not> shm_open_ok e then False
     else if \<not> ftruncate_ok e then False
     else if \<not> mmap_ok e then False else True)"

fun create_all :: "(SegmentInfo \<times> create_env) list \<Rightarrow> SegmentInfo list \<Rightarrow> SegmentInfo list option" where
  "create_all [] g_segments = Some g_segments"
| "create_all ((s, e) # rest) g_segments =
     (if createSegment e then create_all rest (g_segments @ [s]) else None)"

text \<open>The segments \<open>main\<close> creates, the control segment first; \<open>None\<close> when it gives up.\<close>

definition roudi_segments :: "(nat \<Rightarrow> create_env) \<Rightarrow> SegmentInfo list option" where
  "roudi_segments env =
     create_all ((control_segment, env 0) # map (\<lambda>i. (data_segment i, env (Suc i))) [0..<NUM_DATA_SEGMENTS]) []"

section \<open>Registry and relative pointers\<close>

type_synonym registry = "u64 \<rightharpoonup> u64"

definition registerSegment :: "u64 \<Rightarrow> u64 \<Rightarrow> registry \<Rightarrow> registry" where
  "registerSegment i base reg = reg(i \<mapsto> base)"

definition getBase :: "u64 \<Rightarrow> registry \<Rightarrow> (u64, string) expected" where
  "getBase i reg = (case reg i of
     None \<Rightarrow> Inl ''SegmentRegistry: unknown segment id'' | Some b \<Rightarrow> Inr b)"

record relative_pointer =
  m_id :: u64
  m_offset :: u64

definition RelativePointer_ptr :: "u64 \<Rightarrow> u64 \<Rightarrow> registry \<Rightarrow> (relative_pointer, string) expected" where
  "RelativePointer_ptr p segmentId reg = (case getBase segmentId reg of
     Inl e \<Rightarrow> Inl e | Inr base \<Rightarrow> Inr \<lparr>m_id = segmentId, m_offset = p - base\<rparr>)"

definition RelativePointer :: "u64 \<Rightarrow> u64 \<Rightarrow> relative_pointer" where
  "RelativePointer segmentId off = \<lparr>m_id = segmentId, m_offset = off\<rparr>"

definition get :: "relative_pointer \<Rightarrow> registry \<Rightarrow> (u64, string) expected" where
  "get p reg = (case getBase (m_id p) reg of Inl e \<Rightarrow> Inl e | Inr base \<Rightarrow> Inr (base + m_offset p))"

section \<open>The sender's checks\<close>

text \<open>From the parsed arguments to the target segment; the message of the first test that fails.\<close>

definition sender_target :: "u32 \<Rightarrow> u64 \<Rightarrow> u64 \<Rightarrow> SegmentInfo list
    \<Rightarrow> (SegmentInfo \<times> SegmentInfo, string) expected" where
  "sender_target dataSegIdx off value segments =
     (if value = 0 then Inl ''value must be non-zero''
      else if off mod 8 \<noteq> 0 then Inl ''offset must be 8-byte aligned''
      else case findControlSegment segments of
             None \<Rightarrow> Inl ''No control segment found''
           | Some ctrlInfo \<Rightarrow>
               let dataSegs = filter (\<lambda>s. is_control s = 0) segments
               in if length dataSegs \<le> unat dataSegIdx then Inl ''data_seg_index out of range''
                  else let targetInfo = dataSegs ! unat dataSegIdx
                       in if seg_size targetInfo < off + 8 then Inl ''exceeds segment size''
                          else Inr (ctrlInfo, targetInfo))"

section \<open>The control message\<close>

text \<open>
  Shared memory: the data cells by segment and offset, and the three fields of the control
  message. Two senders can run at once; each goes through its accesses in order.
\<close>

datatype sender_pc = S_Data | S_Wait | S_Segment | S_Offset | S_Ready | S_Done

datatype receiver_pc =
    R_Poll
  | R_Segment
  | R_Offset u64
  | R_Read u64 u64
  | R_Clear_Segment
  | R_Clear_Offset
  | R_Clear_Ready

record shared =
  data :: "u64 \<times> u64 \<Rightarrow> u64"
  ready :: bool
  segment_id :: u64
  msg_offset :: u64
  sender_at :: "nat \<Rightarrow> sender_pc"
  receiver_at :: receiver_pc
  received :: "(u64 \<times> u64 \<times> u64) list"

text \<open>
  One access of sender \<open>n\<close>, who sends \<open>value\<close> at \<open>(seg, off)\<close>. The compare-exchange
  replaces 0 by 0: it waits for \<open>ready = 0\<close> and claims nothing.
\<close>

definition sender_step :: "nat \<Rightarrow> u64 \<times> u64 \<times> u64 \<Rightarrow> shared \<Rightarrow> shared" where
  "sender_step n msg s = (case msg of (seg, off, value) \<Rightarrow> (case sender_at s n of
     S_Data \<Rightarrow> s\<lparr>data := (data s)((seg, off) := value), sender_at := (sender_at s)(n := S_Wait)\<rparr>
   | S_Wait \<Rightarrow> if ready s then s else s\<lparr>sender_at := (sender_at s)(n := S_Segment)\<rparr>
   | S_Segment \<Rightarrow> s\<lparr>segment_id := seg, sender_at := (sender_at s)(n := S_Offset)\<rparr>
   | S_Offset \<Rightarrow> s\<lparr>msg_offset := off, sender_at := (sender_at s)(n := S_Ready)\<rparr>
   | S_Ready \<Rightarrow> s\<lparr>ready := True, sender_at := (sender_at s)(n := S_Done)\<rparr>
   | S_Done \<Rightarrow> s))"

text \<open>
  One access of the receiver, whose registry knows the segments \<open>known\<close>; an unknown id is
  reported and the message is cleared all the same.
\<close>

definition receiver_step :: "(u64 \<Rightarrow> bool) \<Rightarrow> shared \<Rightarrow> shared" where
  "receiver_step known s = (case receiver_at s of
     R_Poll \<Rightarrow> if ready s then s\<lparr>receiver_at := R_Segment\<rparr> else s
   | R_Segment \<Rightarrow> s\<lparr>receiver_at := R_Offset (segment_id s)\<rparr>
   | R_Offset seg \<Rightarrow> s\<lparr>receiver_at := R_Read seg (msg_offset s)\<rparr>
   | R_Read seg off \<Rightarrow>
       s\<lparr>received := (if known seg then received s @ [(seg, off, data s (seg, off))] else received s),
         receiver_at := R_Clear_Segment\<rparr>
   | R_Clear_Segment \<Rightarrow> s\<lparr>segment_id := 0, receiver_at := R_Clear_Offset\<rparr>
   | R_Clear_Offset \<Rightarrow> s\<lparr>msg_offset := 0, receiver_at := R_Clear_Ready\<rparr>
   | R_Clear_Ready \<Rightarrow> s\<lparr>ready := False, receiver_at := R_Poll\<rparr>)"

text \<open>The senders that run are those with a message.\<close>

inductive share_step :: "(u64 \<Rightarrow> bool) \<Rightarrow> (nat \<rightharpoonup> u64 \<times> u64 \<times> u64) \<Rightarrow> shared \<Rightarrow> shared \<Rightarrow> bool"
  for known msgs where
  sender: "msgs n = Some msg \<Longrightarrow> t = sender_step n msg s \<Longrightarrow> share_step known msgs s t"
| receiver: "t = receiver_step known s \<Longrightarrow> share_step known msgs s t"

inductive_cases share_stepE: "share_step known msgs s t"

definition share_init :: "shared \<Rightarrow> bool" where
  "share_init s \<longleftrightarrow> \<not> ready s \<and> sender_at s = (\<lambda>_. S_Data) \<and> receiver_at s = R_Poll \<and> received s = []"

section \<open>Bytes\<close>

lemma bytes_word:
  fixes w :: "'a::len word"
  assumes "8 \<le> LENGTH('a)"
  shows "foldr (\<lambda>b acc. push_bit 8 acc OR ucast b) (map (\<lambda>i. ucast (drop_bit (8 * i) w) :: byte) [0..<n]) 0
    = take_bit (8 * n) w"
proof (induction n arbitrary: w)
  case (Suc n)
  have bytes: "map (\<lambda>i. ucast (drop_bit (8 * i) w) :: byte) [0..<Suc n] =
      ucast w # map (\<lambda>i. ucast (drop_bit (8 * i) (drop_bit 8 w))) [0..<n]"
    by (simp add: upt_conv_Cons map_Suc_upt [symmetric] add.commute del: upt_Suc)
  have "push_bit 8 (take_bit (8 * n) (drop_bit 8 w)) OR ucast (ucast w :: byte) = take_bit (8 * Suc n) w"
    using assms
    by (intro bit_eqI) (auto simp: bit_or_iff bit_push_bit_iff bit_take_bit_iff bit_drop_bit_eq bit_unsigned_iff)
  then show ?case unfolding bytes using Suc.IH [of "drop_bit 8 w"] by (simp del: drop_bit_drop_bit)
qed simp

lemma word64_bytes64 [simp]: "word64 (bytes64 w) = w"
  using bytes_word [of w 8] by (simp add: word64_def bytes64_def take_bit_word_eq_self del: upt_Suc)

lemma word32_bytes32 [simp]: "word32 (bytes32 w) = w"
  using bytes_word [of w 4] by (simp add: word32_def bytes32_def take_bit_word_eq_self del: upt_Suc)

lemma length_bytes [simp]: "length (bytes64 w) = 8" "length (bytes32 v) = 4"
  by (simp_all add: bytes64_def bytes32_def)

lemma length_encode [simp]: "seg_wf s \<Longrightarrow> length (encode_segment s) = 88"
  by (simp add: encode_segment_def seg_wf_def)

lemma decode_encode:
  assumes "seg_wf s"
  shows "decode_segment (encode_segment s) = s"
  using assms
  by (cases s) (simp add: seg_wf_def decode_segment_def encode_segment_def nth_append)

lemma read_segments_encoded:
  assumes "\<forall>s \<in> set segs. seg_wf s"
  shows "read_segments (length segs) (concat (map encode_segment segs)) = Inr segs"
  using assms by (induction segs) (simp_all add: decode_encode)

section \<open>One sender\<close>

fun clearing :: "receiver_pc \<Rightarrow> bool" where
  "clearing R_Clear_Segment = True"
| "clearing R_Clear_Offset = True"
| "clearing R_Clear_Ready = True"
| "clearing _ = False"

text \<open>What holds while the message \<open>(seg, off, v)\<close> is on its way, by the sender's position.\<close>

definition delivered :: "u64 \<times> u64 \<times> u64 \<Rightarrow> shared \<Rightarrow> bool" where
  "delivered msg s \<longleftrightarrow> received s = [msg] \<and> (if ready s then clearing (receiver_at s) else receiver_at s = R_Poll)"

definition announced :: "u64 \<times> u64 \<times> u64 \<Rightarrow> shared \<Rightarrow> bool" where
  "announced msg s \<longleftrightarrow> (case msg of (seg, off, v) \<Rightarrow>
     received s = [] \<and> ready s \<and> segment_id s = seg \<and> msg_offset s = off
     \<and> receiver_at s \<in> {R_Poll, R_Segment, R_Offset seg, R_Read seg off})"

definition one_sender_inv :: "u64 \<times> u64 \<times> u64 \<Rightarrow> shared \<Rightarrow> bool" where
  "one_sender_inv msg s \<longleftrightarrow> (case msg of (seg, off, v) \<Rightarrow>
     (sender_at s 0 \<noteq> S_Data \<longrightarrow> data s (seg, off) = v)
     \<and> (sender_at s 0 \<noteq> S_Done \<longrightarrow> received s = [] \<and> \<not> ready s \<and> receiver_at s = R_Poll)
     \<and> (sender_at s 0 \<in> {S_Offset, S_Ready} \<longrightarrow> segment_id s = seg)
     \<and> (sender_at s 0 = S_Ready \<longrightarrow> msg_offset s = off)
     \<and> (sender_at s 0 = S_Done \<longrightarrow> announced msg s \<or> delivered msg s))"

lemma sender_step_inv: "one_sender_inv msg s \<Longrightarrow> one_sender_inv msg (sender_step 0 msg s)"
  by (cases "sender_at s 0")
    (auto simp: one_sender_inv_def sender_step_def announced_def delivered_def split: prod.splits)

lemma receiver_step_inv:
  assumes "known (fst msg)" and "one_sender_inv msg s"
  shows "one_sender_inv msg (receiver_step known s)"
  using assms
  by (cases "receiver_at s"; cases "sender_at s 0")
    (auto simp: one_sender_inv_def receiver_step_def announced_def delivered_def split: prod.splits if_splits)

interpretation one_sender: invariant_system share_init "share_step known [0 \<mapsto> msg]"
    "\<lambda>s. known (fst msg) \<longrightarrow> one_sender_inv msg s"
proof unfold_locales
  fix s :: shared
  assume "share_init s"
  then show "known (fst msg) \<longrightarrow> one_sender_inv msg s"
    by (auto simp: share_init_def one_sender_inv_def split: prod.splits)
next
  fix s t :: shared
  assume "known (fst msg) \<longrightarrow> one_sender_inv msg s" and "share_step known [0 \<mapsto> msg] s t"
  then show "known (fst msg) \<longrightarrow> one_sender_inv msg t"
    by (auto elim!: share_stepE simp: sender_step_inv receiver_step_inv split: if_splits)
qed

section \<open>Properties\<close>

text \<open>
  the segment table survives the socket: for every table of well-formed entries (names of
  64 bytes) with fewer than \<open>2 ^ 32\<close> of them, what a client decodes from the bytes of
  \<open>handleClient\<close> is the table itself.
\<close>

theorem segment_table_transfer:
  assumes "\<forall>s \<in> set segs. seg_wf s" and "length segs < 2 ^ 32"
  shows "getSegmentsFromRoudi (\<lambda>req. handleClient req segs) = Inr segs"
  using read_segments_encoded [OF assms(1)] assms(2)
  by (simp add: getSegmentsFromRoudi_def handleClient_def unat_of_nat)

theorem segment_table_transfer_witness:
  "getSegmentsFromRoudi (\<lambda>req. handleClient req [control_segment, data_segment 0]) =
     Inr [control_segment, data_segment 0]"
  by (rule segment_table_transfer)
    (simp_all add: seg_wf_def control_segment_def data_segment_def shm_name_of_def)

text \<open>
  relative pointers. A pointer into a registered segment is resolved in the same process
  to itself, and in any other process that has the segment to the same distance from that
  process's own base; a process that does not know the segment gets the error.
\<close>

theorem relative_pointer_resolves:
  assumes "reg seg = Some base"
  shows "\<exists>p. RelativePointer_ptr addr seg reg = Inr p \<and> get p reg = Inr addr
    \<and> get p reg' = (case reg' seg of
        Some base' \<Rightarrow> Inr (base' + (addr - base)) | None \<Rightarrow> Inl ''SegmentRegistry: unknown segment id'')"
  using assms by (simp add: RelativePointer_ptr_def get_def getBase_def split: option.split)

theorem relative_pointer_resolves_witness:
  "\<exists>p. RelativePointer_ptr 1040 1 (registerSegment 1 1024 (\<lambda>_. None)) = Inr p
    \<and> get p (registerSegment 1 8192 (\<lambda>_. None)) = Inr 8208"
  using relative_pointer_resolves [of "registerSegment 1 1024 (\<lambda>_. None)" 1 1024 1040
      "registerSegment 1 8192 (\<lambda>_. None)"]
  by (auto simp: registerSegment_def)

text \<open>
  C12: one sender and one receiver, in every interleaving: the receiver never reads anything
  but the message that was sent, reads it at most once, and has read it when the sender is
  done and the control segment is free again.
\<close>

theorem message_delivered_once:
  assumes "reach share_init (share_step known [0 \<mapsto> msg]) s" and "known (fst msg)"
  shows "(received s = [] \<or> received s = [msg]) \<and> (sender_at s 0 = S_Done \<and> \<not> ready s \<longrightarrow> received s = [msg])"
proof -
  have "one_sender_inv msg s" using one_sender.reach_inv [OF assms(1)] assms(2) by blast
  then show ?thesis
    by (cases "sender_at s 0 = S_Done") (auto simp: one_sender_inv_def announced_def delivered_def split: prod.splits)
qed

fun run_share :: "(u64 \<Rightarrow> bool) \<Rightarrow> (nat \<rightharpoonup> u64 \<times> u64 \<times> u64) \<Rightarrow> nat option list \<Rightarrow> shared \<Rightarrow> shared" where
  "run_share known msgs [] s = s"
| "run_share known msgs (None # cs) s = run_share known msgs cs (receiver_step known s)"
| "run_share known msgs (Some n # cs) s =
     run_share known msgs cs (case msgs n of None \<Rightarrow> s | Some msg \<Rightarrow> sender_step n msg s)"

lemma run_share_steps: "(share_step known msgs)\<^sup>*\<^sup>* s (run_share known msgs cs s)"
proof (induction known msgs cs s rule: run_share.induct)
  case (2 known msgs cs s)
  then show ?case
    by (auto intro: converse_rtranclp_into_rtranclp share_step.receiver)
next
  case (3 known msgs n cs s)
  then show ?case
    by (auto split: option.splits intro: converse_rtranclp_into_rtranclp share_step.sender)
qed simp

definition empty_share :: shared where
  "empty_share = \<lparr>data = (\<lambda>_. 0), ready = False, segment_id = 0, msg_offset = 0,
     sender_at = (\<lambda>_. S_Data), receiver_at = R_Poll, received = []\<rparr>"

lemma run_share_reach: "reach share_init (share_step known msgs) (run_share known msgs cs empty_share)"
  by (rule reach_steps [OF run_share_steps reach_init]) (simp add: share_init_def empty_share_def)

lemmas share_exec = sender_step_def receiver_step_def empty_share_def

theorem message_delivered_once_witness:
  "received (run_share (\<lambda>_. True) [0 \<mapsto> (1, 8, 42)] ([Some 0, Some 0, Some 0, Some 0, Some 0, None, None, None, None, None, None, None]) empty_share) = [(1, 8, 42)]"
proof -
  let ?s = "run_share (\<lambda>_. True) [0 \<mapsto> (1, 8, 42)] ([Some 0, Some 0, Some 0, Some 0, Some 0, None, None, None, None, None, None, None]) empty_share"
  have "sender_at ?s 0 = S_Done \<and> \<not> ready ?s" by (simp add: share_exec)
  then show ?thesis using message_delivered_once [OF run_share_reach, of "\<lambda>_. True" "(1, 8, 42)"] by blast
qed

text \<open>
  two senders at once. The wait for \<open>ready = 0\<close> does not reserve the control segment, so
  both can pass it; a run exists in which the receiver reads a pair of segment and offset that
  nobody sent, both senders are done, the control segment is free, and neither message has
  been delivered.
\<close>

theorem two_senders_mix:
  "\<exists>s. reach share_init (share_step (\<lambda>_. True) [0 \<mapsto> (1, 8, 42), 1 \<mapsto> (2, 16, 43)]) s
     \<and> sender_at s 0 = S_Done \<and> sender_at s 1 = S_Done \<and> \<not> ready s \<and> received s = [(2, 8, 0)]"
proof -
  let ?cs = "[Some 0, Some 0, Some 1, Some 1, Some 0, Some 1, Some 1, Some 0, Some 0, Some 1,
    None, None, None, None, None, None, None] :: nat option list"
  let ?s = "run_share (\<lambda>_. True) [0 \<mapsto> (1, 8, 42), 1 \<mapsto> (2, 16, 43)] ?cs empty_share"
  have "sender_at ?s 0 = S_Done \<and> sender_at ?s 1 = S_Done \<and> \<not> ready ?s \<and> received ?s = [(2, 8, 0)]"
    by (simp add: share_exec)
  then show ?thesis using run_share_reach by blast
qed

section \<open>The bounds check of the sender\<close>

lemma wrap_check:
  fixes off size :: u64
  assumes "off mod 8 = 0"
  shows "size < off + 8 \<longleftrightarrow> \<not> (unat off + 8 \<le> unat size \<or> off = - 8)"
proof -
  have "unat (off mod 8) = unat off mod 8" by (simp add: unat_mod_distrib)
  then have m: "unat off mod 8 = 0" using assms by simp
  have neg: "off = - 8 \<longleftrightarrow> unat off = 2 ^ 64 - 8"
    by (simp add: word_eq_iff_unsigned [where ?'a = nat])
  show ?thesis
  proof (cases "unat off + 8 < 2 ^ 64")
    case True
    then have "unat (off + 8) = unat off + 8" by (subst unat_add_lem [THEN iffD1]) simp_all
    then show ?thesis using True neg by (simp add: word_less_nat_alt not_le)
  next
    case False
    have "unat off = 2 ^ 64 - 8" using False m unat_less_64 [of off] by simp presburger
    then have "off = - 8" using neg by blast
    then show ?thesis by simp
  qed
qed

text \<open>
  which offsets pass the sender's checks. Accepted are exactly non-zero values, aligned
  offsets, an existing data segment and a cell inside it, and one offset more:
  \<open>2 ^ 64 - 8\<close>, for which the sum with 8 wraps to 0, so that the sender writes 8 bytes in
  front of the segment.
\<close>

theorem sender_accepts_iff:
  "sender_target idx off value segs = Inr (ctrl, target) \<longleftrightarrow>
     value \<noteq> 0 \<and> off mod 8 = 0 \<and> findControlSegment segs = Some ctrl
     \<and> unat idx < length (filter (\<lambda>s. is_control s = 0) segs)
     \<and> target = filter (\<lambda>s. is_control s = 0) segs ! unat idx
     \<and> (unat off + 8 \<le> unat (seg_size target) \<or> off = - 8)"
  by (auto simp: sender_target_def Let_def wrap_check split: option.split)

section \<open>Roudi's table\<close>

lemma create_all_Some:
  "create_all ps acc = Some gs \<Longrightarrow> gs = acc @ map fst ps \<and> (\<forall>p \<in> set ps. createSegment (snd p))"
  by (induction ps acc rule: create_all.induct) (auto split: if_splits)

lemma findControl_first: "is_control s \<noteq> 0 \<Longrightarrow> findControlSegment (s # segs) = Some s"
  by simp

text \<open>
  the table of a roudi that started: five well-formed segments with the different ids
  0 to 4, of which a client finds the first as the control segment and has the other four as
  data segments; with it a sender can only fail on its own arguments.
\<close>

theorem roudi_table:
  assumes "roudi_segments env = Some segs"
  shows "map seg_id segs = [0, 1, 2, 3, 4] \<and> (\<forall>s \<in> set segs. seg_wf s)
    \<and> findControlSegment segs = Some control_segment
    \<and> filter (\<lambda>s. is_control s = 0) segs = map data_segment [0, 1, 2, 3]"
proof -
  have "segs = control_segment # map data_segment [0, 1, 2, 3]"
    using create_all_Some [OF assms [unfolded roudi_segments_def]]
    by (simp add: NUM_DATA_SEGMENTS_def eval_nat_numeral upt_rec)
  then show ?thesis
    by (simp add: control_segment_def data_segment_def seg_wf_def shm_name_of_def)
qed

definition good_env :: create_env where
  "good_env = \<lparr>shm_open_ok = True, ftruncate_ok = True, mmap_ok = True\<rparr>"

theorem roudi_table_witness:
  "\<exists>segs. roudi_segments (\<lambda>_. good_env) = Some segs \<and> findControlSegment segs = Some control_segment"
proof -
  obtain segs where "roudi_segments (\<lambda>_. good_env) = Some segs"
    by (simp add: roudi_segments_def createSegment_def good_env_def NUM_DATA_SEGMENTS_def
        eval_nat_numeral upt_rec)
  then show ?thesis using roudi_table by blast
qed

end
