(* ===== verification/Template_Policy.thy ===== *)
theory Template_Policy
  imports Prelude
begin

text \<open>
  \<open>cpp_test/stand_cpp/014.template_policy.cpp\<close>: host classes parameterised by policy classes.
  A policy is a record of the functions its class offers, a host is a definition that takes
  the policies as arguments; what a call prints is returned as text. The parts on \<open>double\<close>
  (discounts and shapes) are not modelled.
\<close>

section \<open>Output\<close>

definition endl :: string where "endl = [CHR 0x0A]"

section \<open>Log policies and Service\<close>

definition ConsoleLogPolicy :: "string \<Rightarrow> string" where
  "ConsoleLogPolicy msg = ''[Console] '' @ msg @ endl"

definition NullLogPolicy :: "string \<Rightarrow> string" where
  "NullLogPolicy msg = []"

definition PrefixLogPolicy :: "string \<Rightarrow> string" where
  "PrefixLogPolicy msg = ''[PREFIX][LOG] '' @ msg @ endl"

definition do_work :: "(string \<Rightarrow> string) \<Rightarrow> string" where
  "do_work log = log ''Service started'' @ log ''Service finished''"

section \<open>Sorter\<close>

record compare_policy =
  compare :: "int \<Rightarrow> int \<Rightarrow> bool"
  compare_name :: string

text \<open>The names are the UTF-8 bytes of the source.\<close>

definition AscendingCompare :: compare_policy where
  "AscendingCompare =
     \<lparr>compare = (\<lambda>a b. a < b),
      compare_name = [CHR 0xE5, CHR 0x8D, CHR 0x87, CHR 0xE5, CHR 0xBA, CHR 0x8F]\<rparr>"

definition DescendingCompare :: compare_policy where
  "DescendingCompare =
     \<lparr>compare = (\<lambda>a b. a > b),
      compare_name = [CHR 0xE9, CHR 0x99, CHR 0x8D, CHR 0xE5, CHR 0xBA, CHR 0x8F]\<rparr>"

definition sort_label :: string where
  "sort_label = [CHR 0xE6, CHR 0x8E, CHR 0x92, CHR 0xE5, CHR 0xBA, CHR 0x8F] @ '': ''"

definition InlineOutput :: "int list \<Rightarrow> string" where
  "InlineOutput data = concat (map (\<lambda>v. to_string v @ '' '') data) @ endl"

text \<open>The loop that writes a separator before every element but the first.\<close>

fun print_from :: "nat \<Rightarrow> int list \<Rightarrow> string" where
  "print_from i [] = []"
| "print_from i (v # vs) = (if i > 0 then '', '' else []) @ to_string v @ print_from (Suc i) vs"

definition BracketOutput :: "int list \<Rightarrow> string" where
  "BracketOutput data = ''['' @ print_from 0 data @ '']'' @ endl"

text \<open>The two loops of \<open>sort_and_print\<close>.\<close>

function sort_inner :: "(int \<Rightarrow> int \<Rightarrow> bool) \<Rightarrow> nat \<Rightarrow> nat \<Rightarrow> int list \<Rightarrow> int list" where
  "sort_inner c i j data =
     (if j < length data
      then sort_inner c i (Suc j) (if c (data ! j) (data ! i) then data[i := data ! j, j := data ! i] else data)
      else data)"
  by pat_completeness auto
termination
  by (relation "measure (\<lambda>(c, i, j, data). length data - j)") auto

declare sort_inner.simps [simp del]

lemma length_sort_inner [simp]: "length (sort_inner c i j data) = length data"
  by (induction c i j data rule: sort_inner.induct) (simp add: sort_inner.simps)

function sort_outer :: "(int \<Rightarrow> int \<Rightarrow> bool) \<Rightarrow> nat \<Rightarrow> int list \<Rightarrow> int list" where
  "sort_outer c i data =
     (if i < length data then sort_outer c (Suc i) (sort_inner c i (Suc i) data) else data)"
  by pat_completeness auto
termination
  by (relation "measure (\<lambda>(c, i, data). length data - i)") auto

declare sort_outer.simps [simp del]

definition sort_and_print :: "compare_policy \<Rightarrow> (int list \<Rightarrow> string) \<Rightarrow> int list \<Rightarrow> string" where
  "sort_and_print cp print data =
     compare_name cp @ sort_label @ print (sort_outer (compare cp) 0 data)"

section \<open>The sort, for any comparison that is a strict order\<close>

locale strict_compare =
  fixes c :: "int \<Rightarrow> int \<Rightarrow> bool"
  assumes irrefl: "\<not> c a a"
    and trans: "c a b \<Longrightarrow> c b d \<Longrightarrow> c a d"
begin

lemma asym: "c a b \<Longrightarrow> \<not> c b a"
  using irrefl trans by blast

lemma inner_spec:
  assumes "i < j" and "i < length data" and "\<And>k. i < k \<Longrightarrow> k < j \<Longrightarrow> k < length data \<Longrightarrow> \<not> c (data ! k) (data ! i)"
  shows "mset (sort_inner c i j data) = mset data
    \<and> take i (sort_inner c i j data) = take i data
    \<and> (\<forall>k. i < k \<longrightarrow> k < length data \<longrightarrow> \<not> c (sort_inner c i j data ! k) (sort_inner c i j data ! i))"
  using assms
proof (induction "length data - j" arbitrary: j data)
  case 0
  then show ?case by (subst (1 2 3 4) sort_inner.simps) simp
next
  case (Suc n)
  then have j: "j < length data" by simp
  define next_data where
    "next_data = (if c (data ! j) (data ! i) then data[i := data ! j, j := data ! i] else data)"
  have len: "length next_data = length data" by (simp add: next_data_def)
  have ms: "mset next_data = mset data"
    using j Suc.prems(2) by (simp add: next_data_def mset_swap)
  have pre: "take i next_data = take i data"
    using Suc.prems(1) by (simp add: next_data_def)
  have "\<not> c (next_data ! k) (next_data ! i)" if k: "i < k" "k < Suc j" "k < length next_data" for k
  proof (cases "c (data ! j) (data ! i)")
    case True
    show ?thesis
    proof (cases "k = j")
      case True
      with \<open>c (data ! j) (data ! i)\<close> show ?thesis
        using asym j Suc.prems(1,2) by (simp add: next_data_def)
    next
      case False
      then have "\<not> c (data ! k) (data ! i)" using k Suc.prems(3) len by simp
      with \<open>c (data ! j) (data ! i)\<close> have "\<not> c (data ! k) (data ! j)" using trans by blast
      with False \<open>c (data ! j) (data ! i)\<close> show ?thesis
        using k Suc.prems(1,2) j by (simp add: next_data_def)
    qed
  next
    case False
    then show ?thesis
      using k Suc.prems(3) by (cases "k = j") (simp_all add: next_data_def)
  qed
  then have "mset (sort_inner c i (Suc j) next_data) = mset next_data
    \<and> take i (sort_inner c i (Suc j) next_data) = take i next_data
    \<and> (\<forall>k. i < k \<longrightarrow> k < length next_data \<longrightarrow>
          \<not> c (sort_inner c i (Suc j) next_data ! k) (sort_inner c i (Suc j) next_data ! i))"
    using Suc.hyps(2) Suc.prems(1,2) len by (intro Suc.hyps(1)) auto
  moreover have "sort_inner c i j data = sort_inner c i (Suc j) next_data"
    using j by (simp add: sort_inner.simps [of c i j data] next_data_def)
  ultimately show ?case using ms pre len by simp
qed

text \<open>The first \<open>i\<close> elements are in order and nothing behind them belongs before them.\<close>

definition sorted_upto :: "nat \<Rightarrow> int list \<Rightarrow> bool" where
  "sorted_upto i data \<longleftrightarrow> sorted_wrt (\<lambda>a b. \<not> c b a) (take i data)
     \<and> (\<forall>a \<in> set (take i data). \<forall>b \<in> set (drop i data). \<not> c b a)"

lemma sorted_upto_step:
  assumes "sorted_upto i data" and i: "i < length data"
  shows "sorted_upto (Suc i) (sort_inner c i (Suc i) data)"
proof -
  let ?r = "sort_inner c i (Suc i) data"
  have spec: "mset ?r = mset data" "take i ?r = take i data"
    and least: "\<And>k. i < k \<Longrightarrow> k < length data \<Longrightarrow> \<not> c (?r ! k) (?r ! i)"
    using inner_spec [of i "Suc i" data] i by auto
  have "mset (take i ?r) + mset (drop i ?r) = mset (take i data) + mset (drop i data)"
    using spec(1) by (metis append_take_drop_id mset_append)
  then have "mset (drop i ?r) = mset (drop i data)" using spec(2) by simp
  then have "set (drop i ?r) = set (drop i data)" by (rule mset_eq_setD)
  moreover have "take (Suc i) ?r = take i data @ [?r ! i]"
    using i spec(2) by (simp add: take_Suc_conv_app_nth)
  moreover have "drop i ?r = ?r ! i # drop (Suc i) ?r"
    using i by (simp add: Cons_nth_drop_Suc)
  moreover have "\<not> c b (?r ! i)" if b: "b \<in> set (drop (Suc i) ?r)" for b
  proof -
    obtain k where "k < length (drop (Suc i) ?r)" "b = drop (Suc i) ?r ! k"
      using b unfolding in_set_conv_nth by auto
    then show ?thesis using least [of "Suc i + k"] by auto
  qed
  ultimately show ?thesis
    using assms(1) by (auto simp: sorted_upto_def sorted_wrt_append)
qed

lemma outer_spec:
  assumes "sorted_upto i data" and "i \<le> length data"
  shows "mset (sort_outer c i data) = mset data \<and> sorted_wrt (\<lambda>a b. \<not> c b a) (sort_outer c i data)"
  using assms
proof (induction "length data - i" arbitrary: i data)
  case 0
  then show ?case by (simp add: sort_outer.simps [of c i data] sorted_upto_def)
next
  case (Suc n)
  then have i: "i < length data" by simp
  have "mset (sort_inner c i (Suc i) data) = mset data"
    using inner_spec [of i "Suc i" data] i by auto
  then show ?case
    using Suc.hyps(1) [of "sort_inner c i (Suc i) data" "Suc i"] Suc.hyps(2) Suc.prems
      sorted_upto_step [OF Suc.prems(1) i] i
    by (simp add: sort_outer.simps [of c i data])
qed

lemma sort_spec:
  "mset (sort_outer c 0 data) = mset data" "sorted_wrt (\<lambda>a b. \<not> c b a) (sort_outer c 0 data)"
  using outer_spec [of 0 data] by (simp_all add: sorted_upto_def)

end

interpretation ascending: strict_compare "compare AscendingCompare"
  by unfold_locales (simp_all add: AscendingCompare_def)

interpretation descending: strict_compare "compare DescendingCompare"
  by unfold_locales (simp_all add: DescendingCompare_def)

text \<open>
  C35: the exchange sort of \<open>Sorter\<close> sorts: with the ascending policy the data printed is
  the sorted input, with the descending policy its reversal, for every input and both output
  policies.
\<close>

theorem sorter_sorts:
  "sort_and_print AscendingCompare print data =
     compare_name AscendingCompare @ sort_label @ print (sort data)
   \<and> sort_and_print DescendingCompare print data =
     compare_name DescendingCompare @ sort_label @ print (rev (sort data))"
proof -
  have "sort_outer (compare AscendingCompare) 0 data = sort data"
    using ascending.sort_spec [of data]
    by (intro sym [OF properties_for_sort]) (simp_all add: AscendingCompare_def not_less)
  moreover have "rev (sort_outer (compare DescendingCompare) 0 data) = sort data"
    using descending.sort_spec [of data]
    by (intro sym [OF properties_for_sort])
      (simp_all add: DescendingCompare_def not_less sorted_wrt_rev)
  ultimately show ?thesis by (simp add: sort_and_print_def) (metis rev_rev_ident)
qed

section \<open>Repository\<close>

record thread_policy =
  lock :: string
  unlock :: string
  thread_policy_name :: string

record log_policy =
  log :: "string \<Rightarrow> string"
  log_policy_name :: string

text \<open>\<open>validate\<close> answers and may print.\<close>

record validation_policy =
  validate :: "int \<Rightarrow> bool \<times> string"
  validation_policy_name :: string

definition NoLock :: thread_policy where
  "NoLock = \<lparr>lock = [], unlock = [], thread_policy_name = ''NoLock''\<rparr>"

definition MutexLock :: thread_policy where
  "MutexLock = \<lparr>lock = ''    [mutex locked]'' @ endl, unlock = ''    [mutex unlocked]'' @ endl,
     thread_policy_name = ''MutexLock''\<rparr>"

definition StdoutLog :: log_policy where
  "StdoutLog = \<lparr>log = (\<lambda>msg. ''    [log] '' @ msg @ endl), log_policy_name = ''StdoutLog''\<rparr>"

definition SilentLog :: log_policy where
  "SilentLog = \<lparr>log = (\<lambda>msg. []), log_policy_name = ''SilentLog''\<rparr>"

definition StrictValidation :: validation_policy where
  "StrictValidation = \<lparr>validate = (\<lambda>value. let ok = (value > 0 \<and> value < 1000)
       in (ok, if \<not> ok then ''    [validate] REJECTED: '' @ to_string value @ endl else [])),
     validation_policy_name = ''Strict''\<rparr>"

definition NoValidation :: validation_policy where
  "NoValidation = \<lparr>validate = (\<lambda>value. (True, [])), validation_policy_name = ''None''\<rparr>"

text \<open>The host: its only member is the vector; a call returns its answer with what it printed.\<close>

definition describe :: "thread_policy \<Rightarrow> log_policy \<Rightarrow> validation_policy \<Rightarrow> string" where
  "describe tp lp vp = ''  Repository<'' @ thread_policy_name tp @ '', '' @ log_policy_name lp @ '', ''
     @ validation_policy_name vp @ ''>'' @ endl"

definition add :: "thread_policy \<Rightarrow> log_policy \<Rightarrow> validation_policy \<Rightarrow> int list \<Rightarrow> int
    \<Rightarrow> (bool \<times> string) \<times> int list" where
  "add tp lp vp data value =
     (let (ok, out) = validate vp value
      in if \<not> ok then ((False, out @ log lp (''Validation failed for value: '' @ to_string value)), data)
         else let data' = data @ [value]
              in ((True, out @ lock tp @ unlock tp @ log lp (''Added value: '' @ to_string value)), data'))"

definition print :: "int list \<Rightarrow> string" where
  "print data = ''  data: ['' @ print_from 0 data @ '']'' @ endl"

lemma repository_run:
  "run_ops (add tp lp vp) data vals = (map (\<lambda>v. fst (add tp lp vp [] v)) vals,
     data @ filter (\<lambda>v. fst (validate vp v)) vals)"
  by (induction vals arbitrary: data) (auto simp: add_def Let_def split: prod.splits)

text \<open>
  for any policies and any values, a repository holds exactly the values its validation
  policy accepts, in the order they were added, and answers each call accordingly. With
  \<open>StrictValidation\<close> these are the values strictly between 0 and 1000, with
  \<open>NoValidation\<close> all of them.
\<close>

theorem repository_contents:
  "snd (run_ops (add tp lp vp) [] vals) = filter (\<lambda>v. fst (validate vp v)) vals
   \<and> map fst (fst (run_ops (add tp lp vp) [] vals)) = map (\<lambda>v. fst (validate vp v)) vals
   \<and> snd (run_ops (add tp lp StrictValidation) [] vals) = filter (\<lambda>v. 0 < v \<and> v < 1000) vals
   \<and> snd (run_ops (add tp lp NoValidation) [] vals) = vals"
  by (auto simp: repository_run StrictValidation_def NoValidation_def add_def Let_def split: prod.splits)

section \<open>PluginHost\<close>

datatype policy_tag = LockTag | LogTag | ValidateTag

datatype plugin_policy =
    Lock_Policy (on_lock: string) (on_unlock: string)
  | Log_Policy (on_log: "string \<Rightarrow> string")
  | Validate_Policy (on_validate: "int \<Rightarrow> bool \<times> string")

fun tag_of :: "plugin_policy \<Rightarrow> policy_tag" where
  "tag_of (Lock_Policy l u) = LockTag"
| "tag_of (Log_Policy f) = LogTag"
| "tag_of (Validate_Policy f) = ValidateTag"

definition DefaultLock :: plugin_policy where "DefaultLock = Lock_Policy [] []"
definition DefaultLog :: plugin_policy where "DefaultLog = Log_Policy (\<lambda>msg. [])"
definition DefaultValidate :: plugin_policy where "DefaultValidate = Validate_Policy (\<lambda>v. (True, []))"

definition SpinLock :: plugin_policy where
  "SpinLock = Lock_Policy (''    [spinlock locked]'' @ endl) (''    [spinlock unlocked]'' @ endl)"

definition ColorLog :: plugin_policy where
  "ColorLog = Log_Policy (\<lambda>msg. ''    '' @ [CHR 0x1B] @ ''[32m[log]'' @ [CHR 0x1B] @ ''[0m '' @ msg @ endl)"

definition RangeValidate :: plugin_policy where
  "RangeValidate = Validate_Policy (\<lambda>value. let ok = (value \<ge> 0 \<and> value \<le> 100)
     in (ok, if \<not> ok then ''    [range] REJECTED: '' @ to_string value @ endl else []))"

fun FindPolicy :: "policy_tag \<Rightarrow> plugin_policy \<Rightarrow> plugin_policy list \<Rightarrow> plugin_policy" where
  "FindPolicy tag dflt [] = dflt"
| "FindPolicy tag dflt (head # tail) = (if tag_of head = tag then head else FindPolicy tag dflt tail)"

definition plugin_add :: "plugin_policy list \<Rightarrow> int list \<Rightarrow> int \<Rightarrow> (bool \<times> string) \<times> int list" where
  "plugin_add policies data value =
     (let lockP = FindPolicy LockTag DefaultLock policies;
          logP = FindPolicy LogTag DefaultLog policies;
          validateP = FindPolicy ValidateTag DefaultValidate policies;
          (ok, out) = on_validate validateP value
      in if \<not> ok then ((False, out @ on_log logP (''Validation failed: '' @ to_string value)), data)
         else ((True, out @ on_lock lockP @ on_unlock lockP @ on_log logP (''Added: '' @ to_string value)),
               data @ [value]))"

lemma FindPolicy_tag: "tag_of dflt = tag \<Longrightarrow> tag_of (FindPolicy tag dflt ps) = tag"
  by (induction ps) auto

lemma FindPolicy_member:
  "p \<in> set ps \<Longrightarrow> tag_of p = tag \<Longrightarrow> distinct (map tag_of ps) \<Longrightarrow> FindPolicy tag dflt ps = p"
  by (induction ps) (auto simp: image_iff)

lemma FindPolicy_absent: "tag \<notin> tag_of ` set ps \<Longrightarrow> FindPolicy tag dflt ps = dflt"
  by (induction ps) auto

lemma FindPolicy_perm:
  assumes "mset ps = mset qs" and "distinct (map tag_of ps)"
  shows "FindPolicy tag dflt ps = FindPolicy tag dflt qs"
proof -
  have s: "set ps = set qs" using assms(1) by (rule mset_eq_setD)
  have d: "distinct (map tag_of qs)"
    using assms by (metis mset_eq_imp_distinct_iff mset_map)
  show ?thesis
  proof (cases "tag \<in> tag_of ` set ps")
    case True
    then obtain p where "p \<in> set ps" "tag_of p = tag" by auto
    then show ?thesis using FindPolicy_member assms(2) d s by metis
  qed (simp add: FindPolicy_absent s)
qed

text \<open>
  the order of the policies of a \<open>PluginHost\<close> does not matter: hosts whose policy lists
  are permutations of one another, with at most one policy per kind, answer and print the
  same for every sequence of calls; a kind that is missing falls back to the default, so a
  host without a validation policy accepts every value.
\<close>

theorem plugin_order_irrelevant:
  assumes "mset ps = mset qs" and "distinct (map tag_of ps)"
  shows "run_ops (plugin_add ps) data vals = run_ops (plugin_add qs) data vals
    \<and> (ValidateTag \<notin> tag_of ` set ps \<longrightarrow> snd (run_ops (plugin_add qs) data vals) = data @ vals)"
proof -
  have same: "plugin_add ps = plugin_add qs"
    by (intro ext) (simp add: plugin_add_def FindPolicy_perm [OF assms])
  have "snd (run_ops (plugin_add ps) data vals) = data @ vals" if "ValidateTag \<notin> tag_of ` set ps"
    by (induction vals arbitrary: data)
      (auto simp: plugin_add_def FindPolicy_absent [OF that] DefaultValidate_def Let_def case_prod_beta)
  then show ?thesis using same by simp
qed

theorem plugin_order_irrelevant_witness:
  "run_ops (plugin_add [RangeValidate, ColorLog, SpinLock]) [] [10, 999] =
   run_ops (plugin_add [SpinLock, RangeValidate, ColorLog]) [] [10, 999]"
  using plugin_order_irrelevant [of "[RangeValidate, ColorLog, SpinLock]" "[SpinLock, RangeValidate, ColorLog]" "[]" "[10, 999]"]
  by (simp add: RangeValidate_def ColorLog_def SpinLock_def)

section \<open>Token\<close>

record token =
  token_id :: int
  token_name :: string

definition compare_key :: "token \<Rightarrow> int" where "compare_key t = token_id t"

definition token_eq :: "token \<Rightarrow> token \<Rightarrow> bool" where
  "token_eq a b \<longleftrightarrow> compare_key a = compare_key b"

definition token_ne :: "token \<Rightarrow> token \<Rightarrow> bool" where "token_ne a b \<longleftrightarrow> \<not> token_eq a b"

text \<open>\<open>operator<=>\<close> on the keys and the relations the language derives from it.\<close>

definition spaceship :: "token \<Rightarrow> token \<Rightarrow> int" where
  "spaceship a b = (if compare_key a < compare_key b then - 1 else if compare_key a = compare_key b then 0 else 1)"

definition token_less :: "token \<Rightarrow> token \<Rightarrow> bool" where "token_less a b \<longleftrightarrow> spaceship a b < 0"
definition token_le :: "token \<Rightarrow> token \<Rightarrow> bool" where "token_le a b \<longleftrightarrow> spaceship a b \<le> 0"

lemma token_order:
  "token_le a b \<longleftrightarrow> token_less a b \<or> token_eq a b" "token_le a b \<or> token_le b a"
  "token_le a b \<and> token_le b a \<longleftrightarrow> token_eq a b" "token_le a b \<Longrightarrow> token_le b d \<Longrightarrow> token_le a d"
  by (auto simp: token_le_def token_less_def token_eq_def spaceship_def split: if_splits)

section \<open>The demonstrations\<close>

text \<open>What they print; their Chinese headings are arguments.\<close>

definition demo_log_policy :: "string \<Rightarrow> string" where
  "demo_log_policy heading =
     heading @ endl
     @ do_work ConsoleLogPolicy @ endl
     @ do_work NullLogPolicy @ endl
     @ do_work PrefixLogPolicy @ endl"

definition demo_multi_policy :: "string \<Rightarrow> string" where
  "demo_multi_policy heading =
     (let data = [5, 3, 8, 1, 9, 2, 7]
      in heading @ endl
         @ sort_and_print AscendingCompare InlineOutput data
         @ sort_and_print DescendingCompare BracketOutput data
         @ sort_and_print AscendingCompare BracketOutput data @ endl)"

text \<open>Adding several values and printing the data afterwards.\<close>

definition add_all_and_print :: "(int list \<Rightarrow> int \<Rightarrow> (bool \<times> string) \<times> int list) \<Rightarrow> int list \<Rightarrow> string" where
  "add_all_and_print f vals =
     (let (answers, data) = run_ops f [] vals in concat (map snd answers) @ print data)"

definition demo_mixin_policy :: "string \<Rightarrow> string \<Rightarrow> string \<Rightarrow> string" where
  "demo_mixin_policy heading part1 part2 =
     heading @ endl @ endl @ part1 @ endl
     @ describe MutexLock StdoutLog StrictValidation
     @ add_all_and_print (add MutexLock StdoutLog StrictValidation) [42, - 1, 999, 1001]
     @ endl @ part2 @ endl
     @ describe NoLock SilentLog NoValidation
     @ add_all_and_print (add NoLock SilentLog NoValidation) [42, - 1, 1001] @ endl"

definition demo_variadic_policy :: "string \<Rightarrow> string \<Rightarrow> string \<Rightarrow> string \<Rightarrow> string \<Rightarrow> string" where
  "demo_variadic_policy heading part1 part2 part3 part4 =
     heading @ endl @ endl @ part1 @ endl
     @ add_all_and_print (plugin_add []) [42, - 1]
     @ endl @ part2 @ endl
     @ add_all_and_print (plugin_add [ColorLog]) [42, - 1]
     @ endl @ part3 @ endl
     @ add_all_and_print (plugin_add [SpinLock, RangeValidate]) [42, 200, 50]
     @ endl @ part4 @ endl
     @ add_all_and_print (plugin_add [RangeValidate, ColorLog, SpinLock]) [10, 999, 88] @ endl"

end
