(* ===== verification/Thread_Pool.thy ===== *)
theory Thread_Pool
  imports Prelude
begin

text \<open>
  The singleton pool of \<open>src/utils/thread_pool/thread_pool.hpp\<close>: small functions and
  coroutines run by the workers of one \<open>boost::asio::io_context\<close>, long running tasks on
  threads of their own, and \<open>stop\<close>. The pool, its workers, its long running threads and the
  threads that call it form one state; an \<open>action\<close> names the thread that moves, and
  \<open>pool_step\<close> is its next access to the shared state (\<open>None\<close>: the thread is blocked).
  The \<open>io_context\<close> is Boost code: its operations are the argument \<open>io\<close> of every
  definition, and \<open>io_context_laws\<close> states what its documentation promises.
\<close>

section \<open>The io_context\<close>

text \<open>
  \<open>io_pending\<close> is not an operation of the library: it is the multiset of the handlers that
  were posted and not yet dispatched, in terms of which the documentation is written.
\<close>

record ('c, 'h) io_ops =
  io_new :: 'c
  io_post :: "'h \<Rightarrow> 'c \<Rightarrow> 'c"
  io_stop :: "'c \<Rightarrow> 'c"
  io_stopped :: "'c \<Rightarrow> bool"
  io_pop :: "'c \<Rightarrow> ('h \<times> 'c) option"
  io_pending :: "'c \<Rightarrow> 'h multiset"

definition io_context_laws :: "('c, 'h) io_ops \<Rightarrow> bool" where
  "io_context_laws io \<longleftrightarrow>
     io_pending io (io_new io) = {#} \<and> \<not> io_stopped io (io_new io) \<and>
     (\<forall>h c. io_pending io (io_post io h c) = add_mset h (io_pending io c)) \<and>
     (\<forall>h c. io_stopped io (io_post io h c) = io_stopped io c) \<and>
     (\<forall>c. io_pending io (io_stop io c) = io_pending io c) \<and>
     (\<forall>c. io_stopped io (io_stop io c)) \<and>
     (\<forall>c. io_pop io c = None \<longleftrightarrow> io_pending io c = {#}) \<and>
     (\<forall>c h c'. io_pop io c = Some (h, c') \<longrightarrow>
        io_pending io c = add_mset h (io_pending io c') \<and> io_stopped io c' = io_stopped io c)"

text \<open>A first-in first-out queue with a flag satisfies them; the witnesses run on it.\<close>

definition fifo_pop :: "'h list \<times> bool \<Rightarrow> ('h \<times> ('h list \<times> bool)) option" where
  "fifo_pop c = (case fst c of [] \<Rightarrow> None | h # hs \<Rightarrow> Some (h, (hs, snd c)))"

definition fifo :: "('h list \<times> bool, 'h) io_ops" where
  "fifo = \<lparr> io_new = ([], False), io_post = (\<lambda>h c. (fst c @ [h], snd c)),
            io_stop = (\<lambda>c. (fst c, True)), io_stopped = snd, io_pop = fifo_pop,
            io_pending = (\<lambda>c. mset (fst c)) \<rparr>"

lemma fifo_laws: "io_context_laws fifo"
  by (auto simp: io_context_laws_def fifo_def fifo_pop_def split: list.splits)

section \<open>What is submitted\<close>

text \<open>
  The functions come from the caller: a call carries what running its function does,
  return a value or throw. A coroutine function first makes an awaitable (or throws); the
  awaitable resumes a number of times through the \<open>io_context\<close> before it ends.
\<close>

datatype 'v outcome = Returns 'v | Throws string

datatype 'v coro_call = Call_Throws string | Awaitable nat "'v outcome"

fun coro_outcome :: "'v coro_call \<Rightarrow> 'v outcome" where
  "coro_outcome (Call_Throws e) = Throws e"
| "coro_outcome (Awaitable k out) = out"

text \<open>
  A handler in the \<open>io_context\<close>: the lambda of \<open>post\<close>, the lambda of \<open>post_coro\<close>, or the
  coroutine \<open>co_spawn\<close> has started. The number is that of the promise the handler fulfils
  (for a coroutine, of the promise whose lambda waits for it).
\<close>

datatype 'v handler =
    Run_Function nat "'v outcome"
  | Run_Coro nat "'v coro_call"
  | Coroutine nat nat "'v outcome"

datatype 'v small_worker =
    In_Run
  | Executing "'v handler"
  | Blocked_Get nat "'v coro_call"
  | Run_Returned

text \<open>A long running task ends by itself, ends when its stop token says so, or never.\<close>

datatype long_task = Ends_Itself | Ends_On_Stop | Never_Ends

record long_thread =
  long_name :: string
  long_task :: long_task
  stop_requested :: bool
  long_finished :: bool

datatype 'v request =
    Post "'v outcome"
  | Post_Coro "'v coro_call"
  | Add_Long string long_task
  | Stop

datatype answer = Nullopt | Future nat | Added bool | Stop_Returned

text \<open>Where a calling thread is: between two accesses to the shared state.\<close>

datatype 'v caller =
    Client "answer option"
  | Post_Checked "'v handler"
  | Add_Checked string long_task
  | Stop_Exchanged
  | Stop_Joining nat
  | Stop_Locking
  | Stop_Requesting nat
  | Stop_Joining_Long nat

record ('c, 'v) pool =
  is_running :: bool
  io_context :: 'c
  small_task_workers :: "'v small_worker list"
  long_running_workers :: "nat list"
  long_running_workers_mutex :: "nat option"
  long_threads :: "long_thread list"
  promises :: "nat \<Rightarrow> 'v outcome option"
  spawned :: "nat \<Rightarrow> 'v outcome option"
  submitted :: "'v outcome list"
  callers :: "'v caller list"

text \<open>
  \<open>submitted\<close> lists, per promise number, the outcome of the function the promise was made
  for; the code never reads it.
\<close>

section \<open>Construction\<close>

definition set_running_thread_count :: "nat \<Rightarrow> nat \<Rightarrow> nat option" where
  "set_running_thread_count thread_count g_default_thread_count =
     (if thread_count > 0 then Some thread_count else None)"

text \<open>Linux limits a thread's name to 15 characters; a longer one is refused with ERANGE.\<close>

definition pthread_setname_np :: "string \<Rightarrow> string \<Rightarrow> string" where
  "pthread_setname_np name old = (if length name \<le> 15 then name else old)"

definition small_worker_name :: "string \<Rightarrow> string" where
  "small_worker_name process_name = pthread_setname_np ''small_task_worker'' process_name"

text \<open>The constructor; \<open>Expects\<close> ends the program (\<open>None\<close>) on a count of 0.\<close>

definition make_pool :: "('c, 'v handler) io_ops \<Rightarrow> nat \<Rightarrow> nat \<Rightarrow> ('c, 'v) pool option" where
  "make_pool io thread_count clients =
     (if thread_count > 0
      then Some \<lparr> is_running = True, io_context = io_new io,
                  small_task_workers = replicate thread_count In_Run,
                  long_running_workers = [], long_running_workers_mutex = None,
                  long_threads = [], promises = (\<lambda>_. None), spawned = (\<lambda>_. None),
                  submitted = [], callers = replicate clients (Client None) \<rparr>
      else None)"

definition pool_init :: "('c, 'v handler) io_ops \<Rightarrow> ('c, 'v) pool \<Rightarrow> bool" where
  "pool_init io s \<longleftrightarrow> (\<exists>n k. make_pool io n k = Some s)"

section \<open>The calls\<close>

definition move_caller :: "nat \<Rightarrow> 'v caller \<Rightarrow> ('c, 'v) pool \<Rightarrow> ('c, 'v) pool" where
  "move_caller t c s = s\<lparr>callers := (callers s)[t := c]\<rparr>"

definition move_worker :: "nat \<Rightarrow> 'v small_worker \<Rightarrow> ('c, 'v) pool \<Rightarrow> ('c, 'v) pool" where
  "move_worker i w s = s\<lparr>small_task_workers := (small_task_workers s)[i := w]\<rparr>"

text \<open>
  The first access of each call: \<open>post\<close>, \<open>post_coro\<close> and \<open>addLongRunningTask\<close> read
  \<open>is_running_\<close>, \<open>stop\<close> exchanges it.
\<close>

definition post :: "'v outcome \<Rightarrow> nat \<Rightarrow> ('c, 'v) pool \<Rightarrow> ('c, 'v) pool" where
  "post out t s =
     (if \<not> is_running s then move_caller t (Client (Some Nullopt)) s
      else move_caller t (Post_Checked (Run_Function (length (submitted s)) out))
             (s\<lparr>submitted := submitted s @ [out]\<rparr>))"

definition post_coro :: "'v coro_call \<Rightarrow> nat \<Rightarrow> ('c, 'v) pool \<Rightarrow> ('c, 'v) pool" where
  "post_coro call t s =
     (if \<not> is_running s then move_caller t (Client (Some Nullopt)) s
      else move_caller t (Post_Checked (Run_Coro (length (submitted s)) call))
             (s\<lparr>submitted := submitted s @ [coro_outcome call]\<rparr>))"

definition addLongRunningTask ::
  "string \<Rightarrow> long_task \<Rightarrow> nat \<Rightarrow> ('c, 'v) pool \<Rightarrow> ('c, 'v) pool" where
  "addLongRunningTask thread_name task t s =
     (if \<not> is_running s then move_caller t (Client (Some (Added False))) s
      else move_caller t (Add_Checked thread_name task) s)"

definition stop :: "nat \<Rightarrow> ('c, 'v) pool \<Rightarrow> ('c, 'v) pool" where
  "stop t s =
     (if \<not> is_running s then move_caller t (Client (Some Stop_Returned)) s
      else move_caller t Stop_Exchanged (s\<lparr>is_running := False\<rparr>))"

fun call :: "'v request \<Rightarrow> nat \<Rightarrow> ('c, 'v) pool \<Rightarrow> ('c, 'v) pool" where
  "call (Post out) t s = post out t s"
| "call (Post_Coro cc) t s = post_coro cc t s"
| "call (Add_Long name task) t s = addLongRunningTask name task t s"
| "call Stop t s = stop t s"

text \<open>The handler's promise number; the answer of the call is the promise's future.\<close>

fun handler_id :: "'v handler \<Rightarrow> nat" where
  "handler_id (Run_Function p out) = p"
| "handler_id (Run_Coro p cc) = p"
| "handler_id (Coroutine p k out) = p"

text \<open>
  The rest of a call. \<open>addLongRunningTask\<close> adds the thread under the lock; \<open>stop\<close> stops the
  \<open>io_context\<close>, joins the workers in order, clears them, takes the lock, and asks each long
  running thread to stop and joins it before it asks the next.
\<close>

definition request_stop :: "nat \<Rightarrow> ('c, 'v) pool \<Rightarrow> ('c, 'v) pool" where
  "request_stop w s =
     s\<lparr>long_threads := (long_threads s)[w := (long_threads s ! w)\<lparr>stop_requested := True\<rparr>]\<rparr>"

definition add_worker_thread :: "string \<Rightarrow> long_task \<Rightarrow> ('c, 'v) pool \<Rightarrow> ('c, 'v) pool" where
  "add_worker_thread name task s =
     s\<lparr>long_running_workers := long_running_workers s @ [length (long_threads s)],
       long_threads := long_threads s @
         [\<lparr>long_name = pthread_setname_np name [], long_task = task,
           stop_requested = False, long_finished = False\<rparr>]\<rparr>"

definition caller_step ::
  "('c, 'v handler) io_ops \<Rightarrow> nat \<Rightarrow> ('c, 'v) pool \<Rightarrow> ('c, 'v) pool option" where
  "caller_step io t s =
     (if t < length (callers s) then
        (case callers s ! t of
           Client a \<Rightarrow> None
         | Post_Checked h \<Rightarrow>
             Some (move_caller t (Client (Some (Future (handler_id h))))
                     (s\<lparr>io_context := io_post io h (io_context s)\<rparr>))
         | Add_Checked name task \<Rightarrow>
             (if long_running_workers_mutex s = None
              then Some (move_caller t (Client (Some (Added True))) (add_worker_thread name task s))
              else None)
         | Stop_Exchanged \<Rightarrow>
             Some (move_caller t (Stop_Joining 0) (s\<lparr>io_context := io_stop io (io_context s)\<rparr>))
         | Stop_Joining i \<Rightarrow>
             (if i < length (small_task_workers s)
              then (if small_task_workers s ! i = Run_Returned
                    then Some (move_caller t (Stop_Joining (Suc i)) s) else None)
              else Some (move_caller t Stop_Locking (s\<lparr>small_task_workers := []\<rparr>)))
         | Stop_Locking \<Rightarrow>
             (if long_running_workers_mutex s = None
              then Some (move_caller t (Stop_Requesting 0)
                           (s\<lparr>long_running_workers_mutex := Some t\<rparr>))
              else None)
         | Stop_Requesting i \<Rightarrow>
             (if i < length (long_running_workers s)
              then Some (move_caller t (Stop_Joining_Long i)
                           (request_stop (long_running_workers s ! i) s))
              else Some (move_caller t (Client (Some Stop_Returned))
                           (s\<lparr>long_running_workers := [], long_running_workers_mutex := None\<rparr>)))
         | Stop_Joining_Long i \<Rightarrow>
             (if long_finished (long_threads s ! (long_running_workers s ! i))
              then Some (move_caller t (Stop_Requesting (Suc i)) s) else None))
      else None)"

section \<open>The workers\<close>

text \<open>
  \<open>io_context::run\<close> of a worker: it returns once the context is stopped, else dispatches
  the next handler and waits when there is none (the work guard keeps it from returning).
  The lambda of \<open>post\<close> fulfils its promise with the value or the exception. The lambda of
  \<open>post_coro\<close> starts the coroutine with \<open>co_spawn\<close>, which posts it to the same context, and
  then waits in \<open>fut.get()\<close>.
\<close>

definition set_promise :: "nat \<Rightarrow> 'v outcome \<Rightarrow> ('c, 'v) pool \<Rightarrow> ('c, 'v) pool" where
  "set_promise p out s = s\<lparr>promises := (promises s)(p \<mapsto> out)\<rparr>"

definition worker_step ::
  "('c, 'v handler) io_ops \<Rightarrow> nat \<Rightarrow> ('c, 'v) pool \<Rightarrow> ('c, 'v) pool option" where
  "worker_step io i s =
     (if i < length (small_task_workers s) then
        (case small_task_workers s ! i of
           In_Run \<Rightarrow>
             (if io_stopped io (io_context s) then Some (move_worker i Run_Returned s)
              else (case io_pop io (io_context s) of
                      None \<Rightarrow> None
                    | Some (h, c) \<Rightarrow> Some (move_worker i (Executing h) (s\<lparr>io_context := c\<rparr>))))
         | Executing h \<Rightarrow>
             (case h of
                Run_Function p out \<Rightarrow> Some (move_worker i In_Run (set_promise p out s))
              | Run_Coro p (Call_Throws e) \<Rightarrow>
                  Some (move_worker i In_Run (set_promise p (Throws e) s))
              | Run_Coro p (Awaitable k out) \<Rightarrow>
                  Some (move_worker i (Blocked_Get p (Awaitable k out))
                          (s\<lparr>io_context := io_post io (Coroutine p k out) (io_context s)\<rparr>))
              | Coroutine p (Suc k) out \<Rightarrow>
                  Some (move_worker i In_Run
                          (s\<lparr>io_context := io_post io (Coroutine p k out) (io_context s)\<rparr>))
              | Coroutine p 0 out \<Rightarrow>
                  Some (move_worker i In_Run (s\<lparr>spawned := (spawned s)(p \<mapsto> out)\<rparr>)))
         | Blocked_Get p cc \<Rightarrow>
             (case spawned s p of
                None \<Rightarrow> None
              | Some out \<Rightarrow> Some (move_worker i In_Run (set_promise p out s)))
         | Run_Returned \<Rightarrow> None)
      else None)"

text \<open>\<open>execute_task\<close> on a long running thread: the task runs until it ends.\<close>

definition execute_task :: "nat \<Rightarrow> ('c, 'v) pool \<Rightarrow> ('c, 'v) pool option" where
  "execute_task w s =
     (if w < length (long_threads s) then
        (let th = long_threads s ! w in
         if \<not> long_finished th \<and>
            (long_task th = Ends_Itself \<or> long_task th = Ends_On_Stop \<and> stop_requested th)
         then Some (s\<lparr>long_threads := (long_threads s)[w := th\<lparr>long_finished := True\<rparr>]\<rparr>)
         else None)
      else None)"

section \<open>All threads together\<close>

datatype 'v action = Call nat "'v request" | Caller nat | Worker nat | Long nat

text \<open>A calling thread starts a call only when it is in none.\<close>

fun pool_step :: "('c, 'v handler) io_ops \<Rightarrow> ('c, 'v) pool \<Rightarrow> 'v action \<Rightarrow> ('c, 'v) pool option"
  where
  "pool_step io s (Call t r) =
     (if t < length (callers s) then
        (case callers s ! t of Client a \<Rightarrow> Some (call r t s) | _ \<Rightarrow> None)
      else None)"
| "pool_step io s (Caller t) = caller_step io t s"
| "pool_step io s (Worker i) = worker_step io i s"
| "pool_step io s (Long w) = execute_task w s"

fun pool_run ::
  "('c, 'v handler) io_ops \<Rightarrow> ('c, 'v) pool \<Rightarrow> 'v action list \<Rightarrow> ('c, 'v) pool option" where
  "pool_run io s [] = Some s"
| "pool_run io s (a # as) =
     (case pool_step io s a of None \<Rightarrow> None | Some t \<Rightarrow> pool_run io t as)"

definition pool_next :: "('c, 'v handler) io_ops \<Rightarrow> ('c, 'v) pool \<Rightarrow> ('c, 'v) pool \<Rightarrow> bool" where
  "pool_next io s t \<longleftrightarrow> (\<exists>a. pool_step io s a = Some t)"

section \<open>Every promise is in one place\<close>

text \<open>
  The promise \<open>p\<close> is held by the call that made it, by its handler in the \<open>io_context\<close>, by
  the worker that runs the handler, or it has been fulfilled.
\<close>

fun fulfils :: "nat \<Rightarrow> 'v handler \<Rightarrow> bool" where
  "fulfils p (Run_Function q out) = (q = p)"
| "fulfils p (Run_Coro q cc) = (q = p)"
| "fulfils p (Coroutine q k out) = False"

fun worker_holds :: "nat \<Rightarrow> 'v small_worker \<Rightarrow> bool" where
  "worker_holds p (Executing h) = fulfils p h"
| "worker_holds p (Blocked_Get q cc) = (q = p)"
| "worker_holds p In_Run = False"
| "worker_holds p Run_Returned = False"

fun caller_holds :: "nat \<Rightarrow> 'v caller \<Rightarrow> bool" where
  "caller_holds p (Post_Checked h) = fulfils p h"
| "caller_holds p _ = False"

definition occ :: "('a \<Rightarrow> bool) \<Rightarrow> 'a list \<Rightarrow> nat" where
  "occ P xs = length (filter P xs)"

definition queued :: "('c, 'v handler) io_ops \<Rightarrow> ('c, 'v) pool \<Rightarrow> nat \<Rightarrow> nat" where
  "queued io s p = size (filter_mset (fulfils p) (io_pending io (io_context s)))"

definition places :: "('c, 'v handler) io_ops \<Rightarrow> ('c, 'v) pool \<Rightarrow> nat \<Rightarrow> nat" where
  "places io s p =
     queued io s p + occ (worker_holds p) (small_task_workers s) +
     occ (caller_holds p) (callers s) + (if promises s p = None then 0 else 1)"

lemma occ_simps [simp]: "occ P [] = 0" "occ P (x # xs) = (if P x then 1 else 0) + occ P xs"
  by (simp_all add: occ_def)

lemma occ_replicate [simp]: "occ P (replicate n x) = (if P x then n else 0)"
  by (induction n) auto

lemma occ_update:
  "i < length xs \<Longrightarrow>
   occ P (xs[i := y]) + (if P (xs ! i) then 1 else 0) = occ P xs + (if P y then 1 else 0)"
proof (induction xs arbitrary: i)
  case (Cons x xs)
  then show ?case by (cases i) auto
qed simp

lemma occ_none: "(\<And>x. x \<in> set xs \<Longrightarrow> \<not> P x) \<Longrightarrow> occ P xs = 0"
  by (auto simp: occ_def filter_empty_conv)

lemma io_law_facts:
  assumes "io_context_laws io"
  shows law_new: "io_pending io (io_new io) = {#}" "\<not> io_stopped io (io_new io)"
    and law_post: "io_pending io (io_post io h c) = add_mset h (io_pending io c)"
        "io_stopped io (io_post io h c) = io_stopped io c"
    and law_stop: "io_pending io (io_stop io c) = io_pending io c" "io_stopped io (io_stop io c)"
    and law_none: "io_pop io c = None \<longleftrightarrow> io_pending io c = {#}"
    and law_pop: "io_pop io c = Some (h, c') \<Longrightarrow> io_pending io c = add_mset h (io_pending io c')"
        "io_pop io c = Some (h, c') \<Longrightarrow> io_stopped io c' = io_stopped io c"
  using assms unfolding io_context_laws_def by blast+

lemmas io_laws = law_new law_post law_stop

text \<open>What holds the outcome of a submission agrees with what was submitted.\<close>

fun handler_ok :: "'v outcome list \<Rightarrow> 'v handler \<Rightarrow> bool" where
  "handler_ok sub (Run_Function p out) = (p < length sub \<and> sub ! p = out)"
| "handler_ok sub (Run_Coro p cc) = (p < length sub \<and> sub ! p = coro_outcome cc)"
| "handler_ok sub (Coroutine p k out) = (p < length sub \<and> sub ! p = out)"

fun worker_ok :: "'v outcome list \<Rightarrow> 'v small_worker \<Rightarrow> bool" where
  "worker_ok sub (Executing h) = handler_ok sub h"
| "worker_ok sub (Blocked_Get p cc) = (p < length sub)"
| "worker_ok sub In_Run = True"
| "worker_ok sub Run_Returned = True"

text \<open>A \<open>stop\<close> that joins worker \<open>i\<close> has seen all earlier workers return.\<close>

fun caller_ok :: "'v outcome list \<Rightarrow> 'v small_worker list \<Rightarrow> 'v caller \<Rightarrow> bool" where
  "caller_ok sub ws (Post_Checked h) = handler_ok sub h"
| "caller_ok sub ws (Stop_Joining i) = (\<forall>w \<in> set (take i ws). w = Run_Returned)"
| "caller_ok sub ws _ = True"

definition outcome_ok :: "'v outcome list \<Rightarrow> (nat \<Rightarrow> 'v outcome option) \<Rightarrow> bool" where
  "outcome_ok sub f \<longleftrightarrow> (\<forall>p out. f p = Some out \<longrightarrow> p < length sub \<and> sub ! p = out)"

definition pool_inv :: "('c, 'v handler) io_ops \<Rightarrow> ('c, 'v) pool \<Rightarrow> bool" where
  "pool_inv io s \<longleftrightarrow>
     (\<forall>p. places io s p = (if p < length (submitted s) then 1 else 0)) \<and>
     (\<forall>h \<in># io_pending io (io_context s). handler_ok (submitted s) h) \<and>
     (\<forall>w \<in> set (small_task_workers s). worker_ok (submitted s) w) \<and>
     (\<forall>c \<in> set (callers s). caller_ok (submitted s) (small_task_workers s) c) \<and>
     outcome_ok (submitted s) (promises s) \<and> outcome_ok (submitted s) (spawned s)"

lemma handler_ok_mono: "handler_ok sub h \<Longrightarrow> handler_ok (sub @ [x]) h"
  by (cases h) (auto simp: nth_append)

lemma worker_ok_mono: "worker_ok sub w \<Longrightarrow> worker_ok (sub @ [x]) w"
  by (cases w) (auto simp: handler_ok_mono)

lemma caller_ok_mono: "caller_ok sub ws c \<Longrightarrow> caller_ok (sub @ [x]) ws c"
  by (cases c) (auto simp: handler_ok_mono)

lemma outcome_ok_mono: "outcome_ok sub f \<Longrightarrow> outcome_ok (sub @ [x]) f"
  by (fastforce simp: outcome_ok_def nth_append)

lemmas ok_mono = handler_ok_mono worker_ok_mono caller_ok_mono outcome_ok_mono

lemma outcome_ok_upd: "outcome_ok sub f \<Longrightarrow> p < length sub \<Longrightarrow> outcome_ok sub (f(p \<mapsto> sub ! p))"
  by (auto simp: outcome_ok_def)

lemma pool_frame [simp]:
  "io_context (move_caller t c s) = io_context s"
  "small_task_workers (move_caller t c s) = small_task_workers s"
  "callers (move_caller t c s) = (callers s)[t := c]"
  "promises (move_caller t c s) = promises s" "spawned (move_caller t c s) = spawned s"
  "submitted (move_caller t c s) = submitted s" "is_running (move_caller t c s) = is_running s"
  "long_running_workers (move_caller t c s) = long_running_workers s"
  "long_running_workers_mutex (move_caller t c s) = long_running_workers_mutex s"
  "long_threads (move_caller t c s) = long_threads s"
  "io_context (move_worker i w s) = io_context s"
  "small_task_workers (move_worker i w s) = (small_task_workers s)[i := w]"
  "callers (move_worker i w s) = callers s"
  "promises (move_worker i w s) = promises s" "spawned (move_worker i w s) = spawned s"
  "submitted (move_worker i w s) = submitted s" "is_running (move_worker i w s) = is_running s"
  "long_running_workers (move_worker i w s) = long_running_workers s"
  "long_running_workers_mutex (move_worker i w s) = long_running_workers_mutex s"
  "long_threads (move_worker i w s) = long_threads s"
  by (simp_all add: move_caller_def move_worker_def)

lemma promise_frame [simp]:
  "io_context (set_promise p v s) = io_context s"
  "small_task_workers (set_promise p v s) = small_task_workers s"
  "callers (set_promise p v s) = callers s"
  "promises (set_promise p v s) = (promises s)(p \<mapsto> v)"
  "spawned (set_promise p v s) = spawned s" "submitted (set_promise p v s) = submitted s"
  "is_running (set_promise p v s) = is_running s"
  "long_running_workers (set_promise p v s) = long_running_workers s"
  "long_running_workers_mutex (set_promise p v s) = long_running_workers_mutex s"
  "long_threads (set_promise p v s) = long_threads s"
  by (simp_all add: set_promise_def)

lemma call_frame [simp]:
  "small_task_workers (call r t s) = small_task_workers s" "spawned (call r t s) = spawned s"
  "promises (call r t s) = promises s" "long_threads (call r t s) = long_threads s"
  "long_running_workers (call r t s) = long_running_workers s"
  "long_running_workers_mutex (call r t s) = long_running_workers_mutex s"
  by (cases r; simp add: post_def post_coro_def addLongRunningTask_def stop_def)+

lemma caller_frame:
  assumes "caller_step io t s = Some s'"
  shows "is_running s' = is_running s" "promises s' = promises s" "spawned s' = spawned s"
    "small_task_workers s' = small_task_workers s \<or> small_task_workers s' = []"
  using assms
  by (auto simp: caller_step_def add_worker_thread_def request_stop_def
      split: if_splits caller.splits)

lemma worker_frame:
  assumes "worker_step io i s = Some s'"
  shows "is_running s' = is_running s" "callers s' = callers s" "long_threads s' = long_threads s"
    "long_running_workers s' = long_running_workers s"
    "length (small_task_workers s') = length (small_task_workers s)"
    "i < length (small_task_workers s)"
  using assms
  by (auto simp: worker_step_def split: if_splits small_worker.splits
      handler.splits coro_call.splits nat.splits option.splits)

lemma long_frame:
  assumes "execute_task w s = Some s'"
  shows "\<exists>th. s' = s\<lparr>long_threads := th\<rparr>"
  using assms by (auto simp: execute_task_def Let_def split: if_splits)

lemma places_worker:
  assumes "i < length (small_task_workers s)"
  shows "places io (move_worker i w s) p + (if worker_holds p (small_task_workers s ! i) then 1 else 0)
         = places io s p + (if worker_holds p w then 1 else 0)"
  using occ_update [OF assms, of "worker_holds p" w] by (simp add: places_def queued_def)

lemma places_caller:
  assumes "t < length (callers s)"
  shows "places io (move_caller t c s) p + (if caller_holds p (callers s ! t) then 1 else 0)
         = places io s p + (if caller_holds p c then 1 else 0)"
  using occ_update [OF assms, of "caller_holds p" c] by (simp add: places_def queued_def)

lemma pool_invD:
  assumes "pool_inv io s"
  shows inv_places: "places io s p = (if p < length (submitted s) then 1 else 0)"
    and inv_pending: "h \<in># io_pending io (io_context s) \<Longrightarrow> handler_ok (submitted s) h"
    and inv_worker: "i < length (small_task_workers s) \<Longrightarrow>
                      worker_ok (submitted s) (small_task_workers s ! i)"
    and inv_caller: "t < length (callers s) \<Longrightarrow>
                      caller_ok (submitted s) (small_task_workers s) (callers s ! t)"
    and inv_promises: "outcome_ok (submitted s) (promises s)"
    and inv_spawned: "outcome_ok (submitted s) (spawned s)"
  using assms by (auto simp: pool_inv_def)

lemma pool_inv_cong:
  assumes "pool_inv io s" "io_context t = io_context s"
    "small_task_workers t = small_task_workers s" "callers t = callers s"
    "promises t = promises s" "spawned t = spawned s" "submitted t = submitted s"
  shows "pool_inv io t"
  using assms by (simp add: pool_inv_def places_def queued_def)

text \<open>A calling thread moves and takes no promise with it.\<close>

lemma inv_move_caller:
  assumes inv: "pool_inv io s" and t: "t < length (callers s)"
    and same: "\<And>p. caller_holds p c = caller_holds p (callers s ! t)"
    and ok: "caller_ok (submitted s) (small_task_workers s) c"
  shows "pool_inv io (move_caller t c s)"
proof -
  have "places io (move_caller t c s) p = places io s p" for p
    using places_caller [OF t, of io c p] same [of p] by simp
  moreover have "\<forall>x \<in> set ((callers s)[t := c]). caller_ok (submitted s) (small_task_workers s) x"
    using inv ok set_update_subset_insert [of "callers s" t c] by (auto simp: pool_inv_def)
  ultimately show ?thesis
    using inv by (simp add: pool_inv_def)
qed

text \<open>A worker that has not returned moves; a \<open>stop\<close> that joins never passed it.\<close>

lemma caller_ok_worker:
  assumes "caller_ok sub ws c" "i < length ws" "ws ! i \<noteq> Run_Returned"
  shows "caller_ok sub (ws[i := w]) c"
proof (cases c)
  case (Stop_Joining k)
  have "i \<ge> k"
  proof (rule ccontr)
    assume "\<not> i \<ge> k"
    then have "ws ! i \<in> set (take k ws)"
      using assms(2) by (auto simp: in_set_conv_nth intro!: exI [of _ i])
    with assms Stop_Joining show False by simp
  qed
  then show ?thesis
    using assms(1) Stop_Joining by (simp add: take_update_cancel)
qed (use assms in simp_all)

lemma inv_move_worker:
  assumes inv: "pool_inv io s" and i: "i < length (small_task_workers s)"
    and live: "small_task_workers s ! i \<noteq> Run_Returned"
    and s': "small_task_workers s' = (small_task_workers s)[i := w]" "callers s' = callers s"
      "submitted s' = submitted s"
    and pl: "\<And>p. places io s' p = places io s p"
    and ok: "worker_ok (submitted s) w"
      "\<And>h. h \<in># io_pending io (io_context s') \<Longrightarrow> handler_ok (submitted s) h"
      "outcome_ok (submitted s) (promises s')" "outcome_ok (submitted s) (spawned s')"
  shows "pool_inv io s'"
proof -
  have "\<forall>x \<in> set ((small_task_workers s)[i := w]). worker_ok (submitted s) x"
    using inv ok set_update_subset_insert [of "small_task_workers s" i w]
    by (auto simp: pool_inv_def)
  moreover have "\<forall>c \<in> set (callers s).
      caller_ok (submitted s) ((small_task_workers s)[i := w]) c"
    using inv i live by (auto simp: pool_inv_def intro: caller_ok_worker)
  ultimately show ?thesis
    using inv pl ok s' by (simp add: pool_inv_def)
qed

lemma inv_call:
  assumes inv: "pool_inv io s" and t: "t < length (callers s)" and c: "callers s ! t = Client a"
  shows "pool_inv io (call r t s)"
proof -
  have submit: "pool_inv io (move_caller t (Post_Checked h) (s\<lparr>submitted := submitted s @ [out]\<rparr>))"
    if h: "handler_ok (submitted s @ [out]) h"
      "\<And>p. fulfils p h \<longleftrightarrow> p = length (submitted s)" for h out
  proof -
    let ?s = "s\<lparr>submitted := submitted s @ [out]\<rparr>"
    have "places io (move_caller t (Post_Checked h) ?s) p =
          (if p < length (submitted s @ [out]) then 1 else 0)" for p
    proof -
      have "places io ?s p = places io s p" by (simp add: places_def queued_def)
      then show ?thesis
        using places_caller [of t ?s io "Post_Checked h" p] t c h(2) inv_places [OF inv, of p]
        by auto
    qed
    moreover have "\<forall>x \<in> set ((callers s)[t := Post_Checked h]).
        caller_ok (submitted s @ [out]) (small_task_workers s) x"
      using inv h(1) set_update_subset_insert [of "callers s" t "Post_Checked h"]
      by (auto simp: pool_inv_def ok_mono)
    ultimately show ?thesis
      using inv by (simp add: pool_inv_def ok_mono)
  qed
  have move: "pool_inv io (move_caller t c' s)"
    if "\<And>p. \<not> caller_holds p c'" "caller_ok (submitted s) (small_task_workers s) c'" for c'
    using inv_move_caller [OF inv t, of c'] that c by simp
  have running: "pool_inv io (s\<lparr>is_running := False\<rparr>)"
    by (rule pool_inv_cong [OF inv]) simp_all
  have stop: "pool_inv io (move_caller t Stop_Exchanged (s\<lparr>is_running := False\<rparr>))"
    by (rule inv_move_caller [OF running]) (use t c in auto)
  show ?thesis
    by (cases r) (auto simp: post_def post_coro_def addLongRunningTask_def stop_def
        intro!: submit move stop)
qed

lemma inv_caller_step:
  assumes laws: "io_context_laws io" and inv: "pool_inv io s" and step: "caller_step io t s = Some s'"
  shows "pool_inv io s'"
proof -
  from step have t: "t < length (callers s)"
    by (simp add: caller_step_def split: if_splits)
  note c = inv_caller [OF inv t] and t [simp]
  have move: "pool_inv io (move_caller t c' u)"
    if "\<And>p. \<not> caller_holds p (callers s ! t)" "\<And>p. \<not> caller_holds p c'"
      "caller_ok (submitted s) (small_task_workers s) c'"
      "pool_inv io u" "callers u = callers s" "submitted u = submitted s"
      "small_task_workers u = small_task_workers s" for c' u
    using inv_move_caller [of io u t c'] that by simp
  show ?thesis
  proof (cases "callers s ! t")
    case (Post_Checked h)
    let ?u = "s\<lparr>io_context := io_post io h (io_context s)\<rparr>"
    let ?s' = "move_caller t (Client (Some (Future (handler_id h)))) ?u"
    have pl: "places io ?s' p = places io s p" for p
      using places_caller [of t ?u io "Client (Some (Future (handler_id h)))" p] Post_Checked
      by (auto simp: places_def queued_def io_laws [OF laws] split: if_splits)
    moreover have "\<forall>x \<in> set ((callers s)[t := Client (Some (Future (handler_id h)))]).
        caller_ok (submitted s) (small_task_workers s) x"
      using inv set_update_subset_insert
        [of "callers s" t "Client (Some (Future (handler_id h)))"]
      by (auto simp: pool_inv_def)
    ultimately have "pool_inv io ?s'"
      using inv c Post_Checked by (simp add: pool_inv_def io_laws [OF laws])
    with step Post_Checked show ?thesis by (simp add: caller_step_def)
  next
    case (Add_Checked name task)
    have "pool_inv io (add_worker_thread name task s)"
      by (rule pool_inv_cong [OF inv]) (simp_all add: add_worker_thread_def)
    with step Add_Checked show ?thesis
      by (auto simp: caller_step_def add_worker_thread_def split: if_splits intro!: move)
  next
    case Stop_Exchanged
    have "pool_inv io (s\<lparr>io_context := io_stop io (io_context s)\<rparr>)"
      using inv by (simp add: pool_inv_def places_def queued_def io_laws [OF laws])
    with step Stop_Exchanged show ?thesis
      by (auto simp: caller_step_def intro!: move)
  next
    case (Stop_Joining i)
    show ?thesis
    proof (cases "i < length (small_task_workers s)")
      case True
      with step Stop_Joining c inv show ?thesis
        by (auto simp: caller_step_def take_Suc_conv_app_nth split: if_splits intro!: move)
    next
      case False
      let ?u = "s\<lparr>small_task_workers := []\<rparr>"
      have "occ (worker_holds p) (small_task_workers s) = 0" for p
        using c Stop_Joining False by (intro occ_none) (auto dest!: bspec)
      then have "places io ?u p = places io s p" for p
        by (simp add: places_def queued_def)
      moreover have "caller_ok (submitted s) [] x" if "caller_ok (submitted s) ws x" for x ws
        using that by (cases x) auto
      ultimately have "pool_inv io ?u"
        using inv by (auto simp: pool_inv_def)
      then have "pool_inv io (move_caller t Stop_Locking ?u)"
        using Stop_Joining by (intro inv_move_caller) auto
      with step Stop_Joining False show ?thesis by (simp add: caller_step_def)
    qed
  next
    case Stop_Locking
    have "pool_inv io (s\<lparr>long_running_workers_mutex := Some t\<rparr>)"
      by (rule pool_inv_cong [OF inv]) simp_all
    with step Stop_Locking show ?thesis
      by (auto simp: caller_step_def split: if_splits intro!: move)
  next
    case (Stop_Requesting i)
    have "pool_inv io (request_stop w s)" for w
      by (rule pool_inv_cong [OF inv]) (simp_all add: request_stop_def)
    moreover have "pool_inv io (s\<lparr>long_running_workers := [], long_running_workers_mutex := None\<rparr>)"
      by (rule pool_inv_cong [OF inv]) simp_all
    ultimately show ?thesis
      using step Stop_Requesting
      by (auto simp: caller_step_def request_stop_def split: if_splits intro!: move)
  next
    case (Stop_Joining_Long i)
    with step inv show ?thesis
      by (auto simp: caller_step_def split: if_splits intro!: move)
  qed (use step in \<open>simp add: caller_step_def\<close>)
qed

lemma inv_worker_step:
  assumes laws: "io_context_laws io" and inv: "pool_inv io s" and step: "worker_step io i s = Some s'"
  shows "pool_inv io s'"
proof -
  from step have i: "i < length (small_task_workers s)"
    by (simp add: worker_step_def split: if_splits)
  let ?w = "small_task_workers s ! i"
  from step have live: "?w \<noteq> Run_Returned"
    by (auto simp: worker_step_def split: if_splits)
  note wok = inv_worker [OF inv i] and move = inv_move_worker [OF inv i live]
    and pend = inv_pending [OF inv] and outs = inv_promises [OF inv] inv_spawned [OF inv]
  have fulfil: "pool_inv io (move_worker i In_Run (set_promise p v s))"
    if holds: "\<And>q. worker_holds q ?w \<longleftrightarrow> q = p" and p: "p < length (submitted s)"
      and v: "v = submitted s ! p" for p v
  proof (rule move [where w = In_Run])
    have "promises s p = None"
      using inv_places [OF inv, of p] occ_update [OF i, of "worker_holds p" In_Run] holds [of p] p
      by (auto simp: places_def split: if_splits)
    then show "places io (move_worker i In_Run (set_promise p v s)) q = places io s q" for q
      using occ_update [OF i, of "worker_holds q" In_Run] holds [of q]
      by (auto simp: places_def queued_def split: if_splits)
  qed (use pend outs v p in \<open>simp_all add: outcome_ok_upd\<close>)
  have repost: "pool_inv io (move_worker i w (s\<lparr>io_context := io_post io h (io_context s)\<rparr>))"
    if "handler_ok (submitted s) h" "\<And>q. \<not> fulfils q h" "worker_ok (submitted s) w"
      "\<And>q. worker_holds q w = worker_holds q ?w" for h w
  proof (rule move [where w = w])
    show "places io (move_worker i w (s\<lparr>io_context := io_post io h (io_context s)\<rparr>)) q
          = places io s q" for q
      using occ_update [OF i, of "worker_holds q" w] that(2,4) [of q]
      by (auto simp: places_def queued_def io_laws [OF laws] split: if_splits)
  qed (use pend outs that in \<open>auto simp: io_laws [OF laws]\<close>)
  show ?thesis
  proof (cases ?w)
    case In_Run
    show ?thesis
    proof (cases "io_stopped io (io_context s)")
      case True
      have "pool_inv io (move_worker i Run_Returned s)"
      proof (rule move [where w = Run_Returned])
        show "places io (move_worker i Run_Returned s) q = places io s q" for q
          using places_worker [OF i, of io Run_Returned q] In_Run by simp
      qed (use pend outs in simp_all)
      with step i In_Run True show ?thesis by (simp add: worker_step_def)
    next
      case False
      with step i In_Run obtain h c where pop: "io_pop io (io_context s) = Some (h, c)"
        and s': "s' = move_worker i (Executing h) (s\<lparr>io_context := c\<rparr>)"
        by (auto simp: worker_step_def split: option.splits)
      note pending = law_pop(1) [OF laws pop]
      have "pool_inv io (move_worker i (Executing h) (s\<lparr>io_context := c\<rparr>))"
      proof (rule move [where w = "Executing h"])
        show "places io (move_worker i (Executing h) (s\<lparr>io_context := c\<rparr>)) q = places io s q" for q
          using occ_update [OF i, of "worker_holds q" "Executing h"] In_Run
          by (auto simp: places_def queued_def pending split: if_splits)
      qed (use pend outs pending in \<open>simp_all\<close>)
      with s' show ?thesis by simp
    qed
  next
    case (Executing h)
    have ok: "handler_ok (submitted s) h" using wok Executing by simp
    show ?thesis
    proof (cases h)
      case (Run_Function p out)
      with step i Executing ok show ?thesis
        by (auto simp: worker_step_def intro!: fulfil)
    next
      case (Run_Coro p cc)
      with step i Executing ok show ?thesis
        by (cases cc) (auto simp: worker_step_def intro!: fulfil repost)
    next
      case (Coroutine p k out)
      show ?thesis
      proof (cases k)
        case 0
        have "pool_inv io (move_worker i In_Run (s\<lparr>spawned := (spawned s)(p \<mapsto> out)\<rparr>))"
        proof (rule move [where w = In_Run])
          show "places io (move_worker i In_Run (s\<lparr>spawned := (spawned s)(p \<mapsto> out)\<rparr>)) q
                = places io s q" for q
            using occ_update [OF i, of "worker_holds q" In_Run] Executing Coroutine
            by (simp add: places_def queued_def)
        qed (use pend outs ok Coroutine outcome_ok_upd [OF outs(2), of p] in auto)
        with step i Executing Coroutine 0 show ?thesis by (simp add: worker_step_def)
      next
        case (Suc m)
        with step i Executing Coroutine ok show ?thesis
          by (auto simp: worker_step_def intro!: repost)
      qed
    qed
  next
    case (Blocked_Get p cc)
    with step i obtain out where out: "spawned s p = Some out"
      and s': "s' = move_worker i In_Run (set_promise p out s)"
      by (auto simp: worker_step_def split: option.splits)
    then have "out = submitted s ! p" using outs(2) by (auto simp: outcome_ok_def)
    with s' wok Blocked_Get show ?thesis by (auto intro!: fulfil)
  qed (use live in simp)
qed

lemma pool_inv_step:
  assumes "io_context_laws io" "pool_inv io s" "pool_step io s a = Some s'"
  shows "pool_inv io s'"
proof (cases a)
  case (Call t r)
  with assms show ?thesis by (auto split: if_splits caller.splits intro: inv_call)
next
  case (Long w)
  with assms(3) obtain th where "s' = s\<lparr>long_threads := th\<rparr>"
    using long_frame by fastforce
  then show ?thesis by (auto intro: pool_inv_cong [OF assms(2)])
qed (use assms in \<open>auto intro: inv_caller_step inv_worker_step\<close>)

lemma pool_inv_init: "io_context_laws io \<Longrightarrow> pool_init io s \<Longrightarrow> pool_inv io s"
  by (auto simp: pool_init_def make_pool_def pool_inv_def places_def queued_def io_laws
      outcome_ok_def split: if_splits)

lemma pool_reach_inv:
  assumes "io_context_laws io" "reach (pool_init io) (pool_next io) s"
  shows "pool_inv io s"
  using assms(2)
  by (induction rule: reach.induct)
     (auto simp: pool_next_def intro: pool_inv_init pool_inv_step assms(1))

text \<open>
  C3: In every state the pool can reach, whatever the interleaving of callers, workers and
  stops, a promise made by an accepted \<open>post\<close> or \<open>post_coro\<close> is in exactly one place: with
  the call that is about to queue it, in the queue, with one worker, or fulfilled. So no
  accepted task is lost by the pool or run twice, and a fulfilled promise carries exactly
  the value or the exception of the submitted function.
\<close>

theorem promise_in_one_place:
  assumes "io_context_laws io" "reach (pool_init io) (pool_next io) s"
  shows "queued io s p + occ (worker_holds p) (small_task_workers s) +
         occ (caller_holds p) (callers s) + (if promises s p = None then 0 else 1)
           = (if p < length (submitted s) then 1 else 0)
         \<and> promises s p \<in> {None, Some (submitted s ! p)}"
proof -
  note inv = pool_reach_inv [OF assms]
  have "promises s p \<in> {None, Some (submitted s ! p)}"
    using inv_promises [OF inv] by (cases "promises s p") (auto simp: outcome_ok_def)
  then show ?thesis
    using inv_places [OF inv, of p] by (simp add: places_def)
qed

lemma pool_run_reach:
  "reach I (pool_next io) s \<Longrightarrow> pool_run io s as = Some t \<Longrightarrow> reach I (pool_next io) t"
proof (induction as arbitrary: s)
  case (Cons a as)
  then obtain u where u: "pool_step io s a = Some u" "pool_run io u as = Some t"
    by (auto split: option.splits)
  have "pool_next io s u" using u(1) by (auto simp: pool_next_def)
  from Cons.IH [OF reach_step [OF Cons.prems(1) this] u(2)] show ?case .
qed simp

lemma pool_run_init:
  "make_pool io n k = Some s \<Longrightarrow> pool_run io s as = Some t \<Longrightarrow>
   reach (pool_init io) (pool_next io) t"
  by (rule pool_run_reach [of "pool_init io" io s])
     (unfold pool_init_def, blast intro: reach_init, assumption)

definition pool_result :: "nat \<Rightarrow> nat \<Rightarrow> int action list \<Rightarrow> (int handler list \<times> bool, int) pool option"
  where
  "pool_result n k as = (case make_pool fifo n k of None \<Rightarrow> None | Some s \<Rightarrow> pool_run fifo s as)"

lemma pool_result_reach:
  "pool_result n k as = Some t \<Longrightarrow> reach (pool_init fifo) (pool_next fifo) t"
  by (auto simp: pool_result_def split: option.splits intro: pool_run_init)

lemmas pool_exec = pool_result_def make_pool_def fifo_def fifo_pop_def post_def post_coro_def
  addLongRunningTask_def stop_def caller_step_def worker_step_def execute_task_def
  add_worker_thread_def request_stop_def move_caller_def move_worker_def set_promise_def

text \<open>Two posted functions, one of which throws, run by two workers.\<close>

lemma pool_example:
  "\<exists>t. pool_result 2 1 [Call 0 (Post (Returns 5)), Caller 0, Call 0 (Post (Throws ''bad'')),
        Caller 0, Worker 1, Worker 0, Worker 0, Worker 1] = Some t \<and>
       promises t 0 = Some (Returns 5) \<and> promises t 1 = Some (Throws ''bad'')"
  by (simp add: pool_exec numeral_2_eq_2)

theorem promise_in_one_place_witness:
  "\<exists>s. reach (pool_init fifo) (pool_next fifo) s \<and> length (submitted s) = 1 \<and>
     queued fifo s 0 + occ (worker_holds 0) (small_task_workers s) +
     occ (caller_holds 0) (callers s) + (if promises s 0 = None then 0 else 1) = 1 \<and>
     promises s 0 \<in> {None, Some (Returns (5 :: int))}"
proof -
  obtain t where t: "pool_result 1 1 [Call 0 (Post (Returns 5)), Caller 0] = Some t"
    "submitted t = [Returns 5]"
    by (simp add: pool_exec numeral_2_eq_2)
  note r = pool_result_reach [OF t(1)]
  with promise_in_one_place [OF fifo_laws r, of 0] t(2) show ?thesis
    by (intro exI [of _ t]) simp
qed

section \<open>Coroutines can block every worker\<close>

definition blocked_worker :: "('c, 'v) pool \<Rightarrow> 'v small_worker \<Rightarrow> bool" where
  "blocked_worker s w \<longleftrightarrow> (\<exists>p cc. w = Blocked_Get p cc \<and> spawned s p = None)"

definition pool_deadlock :: "('c, 'v) pool \<Rightarrow> bool" where
  "pool_deadlock s \<longleftrightarrow>
     small_task_workers s \<noteq> [] \<and> (\<forall>w \<in> set (small_task_workers s). blocked_worker s w) \<and>
     (\<forall>i. Stop_Joining i \<in> set (callers s) \<longrightarrow> i = 0)"

lemma stop_joining_update:
  assumes "Stop_Joining i \<in> set (cs[t := c])" "\<And>j. c = Stop_Joining j \<Longrightarrow> j = 0"
    "\<forall>i. Stop_Joining i \<in> set cs \<longrightarrow> i = 0"
  shows "i = 0"
  using assms set_update_subset_insert [of cs t c] by blast

lemma deadlock_worker:
  assumes "pool_deadlock s"
  shows "worker_step io i s = None"
proof (cases "i < length (small_task_workers s)")
  case True
  with assms have "blocked_worker s (small_task_workers s ! i)"
    by (simp add: pool_deadlock_def)
  with True show ?thesis by (auto simp: blocked_worker_def worker_step_def)
qed (simp add: worker_step_def)

lemma deadlock_join:
  assumes "pool_deadlock s" "t < length (callers s)" "callers s ! t = Stop_Joining j"
  shows "caller_step io t s = None"
proof -
  have "j = 0" using assms by (metis pool_deadlock_def nth_mem)
  moreover have "small_task_workers s \<noteq> []" "small_task_workers s ! 0 \<noteq> Run_Returned"
    using assms(1) by (auto simp: pool_deadlock_def blocked_worker_def neq_Nil_conv)
  ultimately show ?thesis using assms by (auto simp: caller_step_def)
qed

lemma deadlock_step:
  assumes d: "pool_deadlock s" and step: "pool_step io s a = Some s'"
  shows "pool_deadlock s' \<and> promises s' = promises s \<and> small_task_workers s' = small_task_workers s"
proof (cases a)
  case (Call t r)
  have "Stop_Joining i \<in> set (callers (call r t s)) \<Longrightarrow> i = 0" for i
    using d by (cases r) (auto simp: pool_deadlock_def post_def post_coro_def
        addLongRunningTask_def stop_def split: if_splits dest: stop_joining_update)
  then have "pool_deadlock (call r t s) \<and> promises (call r t s) = promises s \<and>
      small_task_workers (call r t s) = small_task_workers s"
    using d by (simp add: pool_deadlock_def blocked_worker_def)
  with Call step show ?thesis by (auto split: if_splits caller.splits)
next
  case (Caller t)
  with step have t: "t < length (callers s)" and step: "caller_step io t s = Some s'"
    by (auto simp: caller_step_def split: if_splits)
  have j: "callers s ! t = Stop_Joining i \<Longrightarrow> i = 0" for i
    using d t by (metis pool_deadlock_def nth_mem)
  have w: "small_task_workers s \<noteq> []" "small_task_workers s ! 0 \<noteq> Run_Returned"
    using d by (auto simp: pool_deadlock_def blocked_worker_def neq_Nil_conv)
  have same: "small_task_workers s' = small_task_workers s \<and> spawned s' = spawned s \<and>
      promises s' = promises s \<and>
      (\<exists>c. callers s' = (callers s)[t := c] \<and> (\<forall>j. c = Stop_Joining j \<longrightarrow> j = 0))"
    using step t j w
    by (auto simp: caller_step_def add_worker_thread_def request_stop_def
        split: caller.splits if_splits)
  then obtain c where c: "callers s' = (callers s)[t := c]" "\<And>j. c = Stop_Joining j \<Longrightarrow> j = 0"
    by blast
  have "Stop_Joining i \<in> set (callers s') \<Longrightarrow> i = 0" for i
    using stop_joining_update [of i "callers s" t c] c d by (simp add: pool_deadlock_def)
  with same d show ?thesis by (simp add: pool_deadlock_def blocked_worker_def)
next
  case (Worker i)
  with step deadlock_worker [OF d] show ?thesis by simp
next
  case (Long w)
  with step d show ?thesis
    by (auto simp: execute_task_def Let_def pool_deadlock_def blocked_worker_def split: if_splits)
qed

lemma deadlock_forever:
  assumes "(pool_next io)\<^sup>*\<^sup>* s t" "pool_deadlock s"
  shows "pool_deadlock t \<and> promises t = promises s \<and> small_task_workers t = small_task_workers s"
  using assms
proof (induction rule: rtranclp_induct)
  case (step t u)
  then show ?case using deadlock_step [of t io _ u] by (auto simp: pool_next_def)
qed simp

definition coro_handler :: "'v handler \<Rightarrow> bool" where
  "coro_handler h \<longleftrightarrow> (\<exists>p k out. h = Run_Coro p (Awaitable k out))"

text \<open>The states on the way: \<open>n\<close> workers, nothing fulfilled, one idle caller.\<close>

definition on_the_way :: "('c, 'v handler) io_ops \<Rightarrow> ('c, 'v) pool \<Rightarrow> bool" where
  "on_the_way io s \<longleftrightarrow>
     reach (pool_init io) (pool_next io) s \<and> is_running s \<and> \<not> io_stopped io (io_context s) \<and>
     (\<exists>a. callers s = [Client a]) \<and> promises s = (\<lambda>_. None) \<and> spawned s = (\<lambda>_. None)"

lemma reach_pool_step:
  "reach I (pool_next io) s \<Longrightarrow> pool_step io s a = Some t \<Longrightarrow> reach I (pool_next io) t"
  by (rule reach_step [of _ _ s], assumption) (auto simp: pool_next_def)

lemma deadlock_submit:
  assumes laws: "io_context_laws io" and n: "n > 0"
  shows "\<exists>s :: ('c, 'v) pool. on_the_way io s \<and> small_task_workers s = replicate n In_Run \<and>
           length (submitted s) = k \<and>
           size (io_pending io (io_context s)) = k \<and>
           (\<forall>h \<in># io_pending io (io_context s). coro_handler h)"
proof (induction k)
  case 0
  obtain s :: "('c, 'v) pool" where s: "make_pool io n 1 = Some s"
    using n by (simp add: make_pool_def)
  then have "reach (pool_init io) (pool_next io) s"
    by (rule pool_run_init [where as = "[]"]) simp
  with s n show ?case
    by (intro exI [of _ s]) (auto simp: make_pool_def on_the_way_def io_laws [OF laws])
next
  case (Suc k)
  then obtain s :: "('c, 'v) pool" and a where s: "on_the_way io s"
    "small_task_workers s = replicate n In_Run" "length (submitted s) = k"
    "size (io_pending io (io_context s)) = k"
    "\<forall>h \<in># io_pending io (io_context s). coro_handler h" "callers s = [Client a]"
    by (auto simp: on_the_way_def)
  let ?cc = "Awaitable 0 (undefined :: 'v outcome)"
  let ?u = "post_coro ?cc 0 s"
  let ?h = "Run_Coro k ?cc"
  let ?t = "move_caller 0 (Client (Some (Future k))) (?u\<lparr>io_context := io_post io ?h (io_context ?u)\<rparr>)"
  have u: "is_running s" "callers ?u = [Post_Checked ?h]"
    using s by (auto simp: on_the_way_def post_coro_def)
  have "pool_step io s (Call 0 (Post_Coro ?cc)) = Some ?u" using s(6) by simp
  moreover have "pool_step io ?u (Caller 0) = Some ?t"
    using u by (simp add: caller_step_def)
  ultimately have r: "reach (pool_init io) (pool_next io) ?t"
    using s(1) unfolding on_the_way_def by (blast intro: reach_pool_step)
  have "on_the_way io ?t"
    unfolding on_the_way_def using r s u
    by (auto simp: on_the_way_def post_coro_def io_laws [OF laws])
  then show ?case
    by (rule exI [of _ ?t, OF conjI])
       (use s u in \<open>auto simp: post_coro_def io_laws [OF laws] coro_handler_def\<close>)
qed

lemma deadlock_take:
  assumes laws: "io_context_laws io" and n: "n > 0" and "k \<le> n"
  shows "\<exists>(s :: ('c, 'v) pool) hs. on_the_way io s \<and> length (submitted s) = n \<and>
           small_task_workers s = map Executing hs @ replicate (n - k) In_Run \<and>
           length hs = k \<and> (\<forall>h \<in> set hs. coro_handler h) \<and>
           size (io_pending io (io_context s)) = n - k \<and>
           (\<forall>h \<in># io_pending io (io_context s). coro_handler h)"
  using assms(3)
proof (induction k)
  case 0
  obtain s :: "('c, 'v) pool" where "on_the_way io s \<and> small_task_workers s = replicate n In_Run \<and>
      length (submitted s) = n \<and> size (io_pending io (io_context s)) = n \<and>
      (\<forall>h \<in># io_pending io (io_context s). coro_handler h)"
    using deadlock_submit [OF laws n, where k = n] by blast
  then show ?case by (intro exI [of _ s] exI [of _ "[]"]) auto
next
  case (Suc k)
  then obtain s :: "('c, 'v) pool" and hs where s: "on_the_way io s" "length (submitted s) = n"
    "small_task_workers s = map Executing hs @ replicate (n - k) In_Run" "length hs = k"
    "\<forall>h \<in> set hs. coro_handler h" "size (io_pending io (io_context s)) = n - k"
    "\<forall>h \<in># io_pending io (io_context s). coro_handler h"
    by (metis Suc_leD)
  have "io_pending io (io_context s) \<noteq> {#}" using s(6) Suc.prems by auto
  then obtain h c where pop: "io_pop io (io_context s) = Some (h, c)"
    using law_none [OF laws] by (metis option.exhaust surj_pair)
  note pending = law_pop(1) [OF laws pop]
  let ?t = "move_worker k (Executing h) (s\<lparr>io_context := c\<rparr>)"
  have k: "replicate (n - k) (In_Run :: 'v small_worker) = In_Run # replicate (n - Suc k) In_Run"
    using Suc.prems by (metis Suc_diff_le diff_Suc_Suc replicate_Suc)
  have "pool_step io s (Worker k) = Some ?t"
    using s(1,3,4) pop Suc.prems by (simp add: worker_step_def nth_append on_the_way_def)
  then have "reach (pool_init io) (pool_next io) ?t"
    using s(1) unfolding on_the_way_def by (blast intro: reach_pool_step)
  then have "on_the_way io ?t"
    using s(1) law_pop(2) [OF laws pop] by (auto simp: on_the_way_def)
  moreover have "small_task_workers ?t = map Executing (hs @ [h]) @ replicate (n - Suc k) In_Run"
    using s(3,4) by (simp add: k list_update_append)
  ultimately show ?case
    using s pending Suc.prems by (intro exI [of _ ?t] exI [of _ "hs @ [h]"]) auto
qed

lemma deadlock_spawn:
  assumes laws: "io_context_laws io" and n: "n > 0" and "k \<le> n"
  shows "\<exists>(s :: ('c, 'v) pool) ws hs. on_the_way io s \<and> length (submitted s) = n \<and>
           small_task_workers s = ws @ map Executing hs \<and> length ws = k \<and> length hs = n - k \<and>
           (\<forall>w \<in> set ws. blocked_worker s w) \<and> (\<forall>h \<in> set hs. coro_handler h)"
  using assms(3)
proof (induction k)
  case 0
  obtain s :: "('c, 'v) pool" and hs where "on_the_way io s" "length (submitted s) = n"
      "small_task_workers s = map Executing hs" "length hs = n" "\<forall>h \<in> set hs. coro_handler h"
    using deadlock_take [OF laws n, where k = n] by auto
  then show ?case by (intro exI [of _ s] exI [of _ "[]"] exI [of _ hs]) auto
next
  case (Suc k)
  then obtain s :: "('c, 'v) pool" and ws hs where s: "on_the_way io s" "length (submitted s) = n"
    "small_task_workers s = ws @ map Executing hs" "length ws = k" "length hs = n - k"
    "\<forall>w \<in> set ws. blocked_worker s w" "\<forall>h \<in> set hs. coro_handler h"
    by (metis Suc_leD)
  then obtain h hs' where hs: "hs = h # hs'"
    using Suc.prems by (cases hs) auto
  with s(7) obtain p j out where h: "h = Run_Coro p (Awaitable j out)"
    by (auto simp: coro_handler_def)
  let ?w = "Blocked_Get p (Awaitable j out)"
  let ?t = "move_worker k ?w (s\<lparr>io_context := io_post io (Coroutine p j out) (io_context s)\<rparr>)"
  have "pool_step io s (Worker k) = Some ?t"
    using s(3,4) hs h by (simp add: worker_step_def nth_append)
  then have "reach (pool_init io) (pool_next io) ?t"
    using s(1) unfolding on_the_way_def by (blast intro: reach_pool_step)
  then have t: "on_the_way io ?t"
    using s(1) by (auto simp: on_the_way_def io_laws [OF laws])
  have "\<forall>w \<in> set (ws @ [?w]). blocked_worker ?t w"
    using s(6) t by (auto simp: blocked_worker_def on_the_way_def)
  moreover have "small_task_workers ?t = (ws @ [?w]) @ map Executing hs'"
    using s(3,4) hs by (simp add: list_update_append)
  ultimately show ?case
    using s t hs by (intro exI [of _ ?t] exI [of _ "ws @ [?w]"] exI [of _ hs']) auto
qed

text \<open>
  C7: \<open>post_coro\<close> can stop the pool for good. Its lambda waits in \<open>fut.get()\<close> on a worker
  thread for a coroutine that needs a worker of the same \<open>io_context\<close>. Whatever the number
  \<open>n\<close> of workers, \<open>n\<close> accepted coroutines can bring the pool into a state in which every
  worker waits; from then on, whatever callers do, no worker can move, no promise is
  fulfilled, and the workers never return, so a \<open>stop\<close> that joins them never ends either.
\<close>

theorem coroutines_can_block_all_workers:
  assumes laws: "io_context_laws io" and n: "n > 0"
  shows "\<exists>s :: ('c, 'v) pool. reach (pool_init io) (pool_next io) s \<and>
           length (small_task_workers s) = n \<and> length (submitted s) = n \<and>
           (\<forall>t. (pool_next io)\<^sup>*\<^sup>* s t \<longrightarrow>
              (\<forall>i. worker_step io i t = None) \<and> promises t = (\<lambda>_. None) \<and>
              small_task_workers t = small_task_workers s \<and>
              (\<forall>c < length (callers t). \<forall>j.
                 callers t ! c = Stop_Joining j \<longrightarrow> caller_step io c t = None))"
proof -
  obtain s :: "('c, 'v) pool" where s: "on_the_way io s" "length (submitted s) = n"
    "length (small_task_workers s) = n" "\<forall>w \<in> set (small_task_workers s). blocked_worker s w"
    using deadlock_spawn [OF laws n, where k = n] by auto
  then have d: "pool_deadlock s" using n by (auto simp: pool_deadlock_def on_the_way_def)
  show ?thesis
  proof (intro exI [of _ s] conjI allI impI)
    fix t i c j assume t: "(pool_next io)\<^sup>*\<^sup>* s t"
    note f = deadlock_forever [OF t d]
    show "worker_step io i t = None" using f deadlock_worker by blast
    show "promises t = (\<lambda>_. None)" "small_task_workers t = small_task_workers s"
      using f s(1) by (simp_all add: on_the_way_def)
    assume "c < length (callers t)" "callers t ! c = Stop_Joining j"
    with f show "caller_step io c t = None" by (auto intro: deadlock_join)
  qed (use s in \<open>simp_all add: on_the_way_def\<close>)
qed

theorem coroutines_can_block_all_workers_witness:
  "\<exists>s :: (int handler list \<times> bool, int) pool. reach (pool_init fifo) (pool_next fifo) s \<and>
     length (small_task_workers s) = 2 \<and> length (submitted s) = 2 \<and>
     (\<forall>t. (pool_next fifo)\<^sup>*\<^sup>* s t \<longrightarrow> promises t = (\<lambda>_. None))"
  using coroutines_can_block_all_workers [OF fifo_laws, of 2, where ?'v = int] by auto

section \<open>Stopping\<close>

text \<open>
  What a \<open>stop\<close> that won the exchange knows at each point; \<open>lrw_finished s i\<close>: the first
  \<open>i\<close> long running threads of the list have ended.
\<close>

definition lrw_finished :: "('c, 'v) pool \<Rightarrow> nat \<Rightarrow> bool" where
  "lrw_finished s i \<longleftrightarrow>
     (\<forall>j < i. long_finished (long_threads s ! (long_running_workers s ! j)))"

fun stop_pc_ok :: "('c, 'v) pool \<Rightarrow> nat \<Rightarrow> 'v caller \<Rightarrow> bool" where
  "stop_pc_ok s t Stop_Locking = (small_task_workers s = [])"
| "stop_pc_ok s t (Stop_Requesting i) =
     (small_task_workers s = [] \<and> long_running_workers_mutex s = Some t \<and>
      i \<le> length (long_running_workers s) \<and> lrw_finished s i)"
| "stop_pc_ok s t (Stop_Joining_Long i) =
     (small_task_workers s = [] \<and> long_running_workers_mutex s = Some t \<and>
      i < length (long_running_workers s) \<and> lrw_finished s i)"
| "stop_pc_ok s t _ = True"

definition stop_inv :: "('c, 'v) pool \<Rightarrow> bool" where
  "stop_inv s \<longleftrightarrow>
     (\<forall>w < length (long_threads s).
        long_finished (long_threads s ! w) \<or> w \<in> set (long_running_workers s)) \<and>
     (\<forall>w \<in> set (long_running_workers s). w < length (long_threads s)) \<and>
     (\<forall>t < length (callers s). stop_pc_ok s t (callers s ! t))"

lemma stop_pc_cong:
  assumes "small_task_workers s' = small_task_workers s \<or> small_task_workers s' = []"
    "long_running_workers_mutex s' = long_running_workers_mutex s"
    "long_running_workers s' = long_running_workers s"
    "\<And>i. i \<le> length (long_running_workers s) \<Longrightarrow> lrw_finished s i \<Longrightarrow> lrw_finished s' i"
    "stop_pc_ok s t c"
  shows "stop_pc_ok s' t c"
  using assms by (cases c) auto

lemma stop_inv_caller:
  assumes "stop_inv s" "long_threads s' = long_threads s"
    "long_running_workers s' = long_running_workers s"
    "small_task_workers s' = small_task_workers s \<or> small_task_workers s' = []"
    "long_running_workers_mutex s' = long_running_workers_mutex s"
    "callers s' = (callers s)[t := c]" "stop_pc_ok s' t c"
  shows "stop_inv s'"
proof -
  have "stop_pc_ok s' u ((callers s)[t := c] ! u)" if u: "u < length (callers s)" for u
    using assms u stop_pc_cong [of s' s u "callers s ! u"]
    by (cases "u = t") (auto simp: stop_inv_def lrw_finished_def)
  with assms show ?thesis by (simp add: stop_inv_def)
qed

lemma stop_inv_call:
  assumes inv: "stop_inv s" and t: "t < length (callers s)"
  shows "stop_inv (call r t s)"
proof -
  have "\<exists>c. callers (call r t s) = (callers s)[t := c] \<and> (\<forall>u. stop_pc_ok u t c)"
    by (cases r) (auto simp: post_def post_coro_def addLongRunningTask_def stop_def)
  then show ?thesis using inv by (metis stop_inv_caller call_frame)
qed

lemma stop_inv_caller_step:
  assumes inv: "stop_inv s" and step: "caller_step io t s = Some s'"
  shows "stop_inv s'"
proof -
  from step have t: "t < length (callers s)"
    by (simp add: caller_step_def split: if_splits)
  with inv have c: "stop_pc_ok s t (callers s ! t)" by (simp add: stop_inv_def)
  show ?thesis
  proof (cases "callers s ! t")
    case (Add_Checked name task)
    with step t have m: "long_running_workers_mutex s = None"
      and s': "s' = move_caller t (Client (Some (Added True))) (add_worker_thread name task s)"
      by (auto simp: caller_step_def split: if_splits)
    have "stop_pc_ok s' u (callers s' ! u)" if u: "u < length (callers s)" for u
    proof -
      have "stop_pc_ok s u (callers s ! u)" using inv u by (simp add: stop_inv_def)
      then show ?thesis using s' m t u
        by (cases "u = t"; cases "callers s ! u") (auto simp: add_worker_thread_def)
    qed
    then show ?thesis
      using inv s' unfolding stop_inv_def
      by (auto simp: add_worker_thread_def nth_append less_Suc_eq)
  next
    case Stop_Locking
    with step t have m: "long_running_workers_mutex s = None"
      and s': "s' = move_caller t (Stop_Requesting 0) (s\<lparr>long_running_workers_mutex := Some t\<rparr>)"
      by (auto simp: caller_step_def split: if_splits)
    have "stop_pc_ok s' u (callers s' ! u)" if u: "u < length (callers s)" for u
    proof -
      have "stop_pc_ok s u (callers s ! u)" using inv u by (simp add: stop_inv_def)
      then show ?thesis using s' m t u c Stop_Locking
        by (cases "u = t"; cases "callers s ! u") (auto simp: lrw_finished_def)
    qed
    then show ?thesis using inv s' by (simp add: stop_inv_def)
  next
    case (Stop_Requesting i)
    show ?thesis
    proof (cases "i < length (long_running_workers s)")
      case True
      let ?w = "long_running_workers s ! i"
      have s': "s' = move_caller t (Stop_Joining_Long i) (request_stop ?w s)"
        using step t True Stop_Requesting by (simp add: caller_step_def)
      have fin: "long_finished (long_threads s' ! w) = long_finished (long_threads s ! w)" for w
        using s' by (cases "w = ?w"; cases "?w < length (long_threads s)")
          (auto simp: request_stop_def list_update_beyond)
      have "stop_pc_ok s' u (callers s' ! u)" if u: "u < length (callers s)" for u
      proof -
        have "stop_pc_ok s u (callers s ! u)" using inv u by (simp add: stop_inv_def)
        then show ?thesis using s' t u c Stop_Requesting True fin
          by (cases "u = t"; cases "callers s ! u") (auto simp: lrw_finished_def request_stop_def)
      qed
      with inv s' fin show ?thesis by (auto simp: stop_inv_def request_stop_def)
    next
      case False
      have s': "s' = move_caller t (Client (Some Stop_Returned))
          (s\<lparr>long_running_workers := [], long_running_workers_mutex := None\<rparr>)"
        using step t False Stop_Requesting by (simp add: caller_step_def)
      have all: "long_finished (long_threads s ! w)" if w: "w < length (long_threads s)" for w
      proof (cases "w \<in> set (long_running_workers s)")
        case True
        then show ?thesis using c Stop_Requesting False
          by (auto simp: lrw_finished_def in_set_conv_nth)
      qed (use inv w in \<open>auto simp: stop_inv_def\<close>)
      have "stop_pc_ok s' u (callers s' ! u)" if u: "u < length (callers s)" for u
      proof -
        have "stop_pc_ok s u (callers s ! u)" using inv u by (simp add: stop_inv_def)
        then show ?thesis using s' t u c Stop_Requesting
          by (cases "u = t"; cases "callers s ! u") auto
      qed
      with all s' show ?thesis by (simp add: stop_inv_def)
    qed
  next
    case (Stop_Joining_Long i)
    with step t have "long_finished (long_threads s ! (long_running_workers s ! i))"
      and s': "s' = move_caller t (Stop_Requesting (Suc i)) s"
      by (auto simp: caller_step_def split: if_splits)
    with c Stop_Joining_Long have "stop_pc_ok s' t (Stop_Requesting (Suc i))"
      by (auto simp: lrw_finished_def less_Suc_eq)
    with s' show ?thesis by (intro stop_inv_caller [OF inv]) auto
  qed (use step t in \<open>auto simp: caller_step_def split: if_splits intro!: stop_inv_caller [OF inv]\<close>)
qed

lemma stop_inv_step:
  assumes inv: "stop_inv s" and step: "pool_step io s a = Some s'"
  shows "stop_inv s'"
proof (cases a)
  case (Call t r)
  with step inv show ?thesis by (auto split: if_splits caller.splits intro: stop_inv_call)
next
  case (Worker i)
  then have step: "worker_step io i s = Some s'" using step by simp
  have ne: "small_task_workers s \<noteq> []" using worker_frame(6) [OF step] by auto
  note f = worker_frame(2-4) [OF step]
  have "stop_pc_ok s' t c" if "stop_pc_ok s t c" for t c
    using that ne by (cases c) auto
  then show ?thesis using inv f by (simp add: stop_inv_def)
next
  case (Long w)
  with step have w: "w < length (long_threads s)"
    "s' = s\<lparr>long_threads := (long_threads s)[w := (long_threads s ! w)\<lparr>long_finished := True\<rparr>]\<rparr>"
    by (auto simp: execute_task_def Let_def split: if_splits)
  have fin: "long_finished (long_threads s ! v) \<Longrightarrow> long_finished (long_threads s' ! v)" for v
    using w by (cases "v = w") auto
  have "stop_pc_ok s' t c" if "stop_pc_ok s t c" for t c
    using that by (rule stop_pc_cong [rotated -1]) (use w fin in \<open>auto simp: lrw_finished_def\<close>)
  then show ?thesis using inv w fin by (auto simp: stop_inv_def)
qed (use step inv in \<open>auto intro: stop_inv_caller_step\<close>)

lemma stop_inv_init: "pool_init io s \<Longrightarrow> stop_inv s"
  by (auto simp: pool_init_def make_pool_def stop_inv_def split: if_splits)

lemma stop_reach_inv:
  assumes "reach (pool_init io) (pool_next io) s"
  shows "stop_inv s"
  using assms
  by (induction rule: reach.induct) (auto simp: pool_next_def intro: stop_inv_init stop_inv_step)

text \<open>
  C8: When the \<open>stop\<close> that won the exchange of \<open>is_running_\<close> returns (the step of its
  thread \<open>t\<close> that ends the loop over the long running workers), every small worker has
  returned and been joined, every long running thread the pool ever started has ended, and
  both lists are empty.
\<close>

theorem stop_leaves_nothing_running:
  assumes "reach (pool_init io) (pool_next io) s" "callers s ! t = Stop_Requesting i"
    "caller_step io t s = Some s'" "callers s' ! t = Client (Some Stop_Returned)"
  shows "small_task_workers s' = [] \<and> long_running_workers s' = [] \<and>
         (\<forall>w < length (long_threads s'). long_finished (long_threads s' ! w))"
proof -
  from assms(3) have t: "t < length (callers s)" by (simp add: caller_step_def split: if_splits)
  note inv = stop_reach_inv [OF assms(1)]
  then have ws: "small_task_workers s = []"
    using t assms(2) by (metis stop_inv_def stop_pc_ok.simps(2))
  have s': "s' = move_caller t (Client (Some Stop_Returned))
      (s\<lparr>long_running_workers := [], long_running_workers_mutex := None\<rparr>)"
    using assms(2-4) t by (auto simp: caller_step_def request_stop_def split: if_splits)
  have "stop_inv s'" using stop_inv_caller_step [OF inv assms(3)] .
  with s' ws show ?thesis by (auto simp: stop_inv_def)
qed

definition stop_schedule :: "int action list" where
  "stop_schedule = [Call 0 (Add_Long ''poll'' Ends_On_Stop), Caller 0, Call 0 Stop, Caller 0,
     Worker 0, Caller 0, Caller 0, Caller 0, Caller 0, Long 0, Caller 0]"

theorem stop_leaves_nothing_running_witness:
  "\<exists>(s :: (int handler list \<times> bool, int) pool) s'.
     reach (pool_init fifo) (pool_next fifo) s \<and> callers s ! 0 = Stop_Requesting 1 \<and>
     caller_step fifo 0 s = Some s' \<and> length (long_threads s') = 1 \<and>
     small_task_workers s' = [] \<and> long_running_workers s' = [] \<and>
     (\<forall>w < length (long_threads s'). long_finished (long_threads s' ! w))"
proof -
  obtain s s' where s: "pool_result 1 1 stop_schedule = Some s" "callers s ! 0 = Stop_Requesting 1"
    "caller_step fifo 0 s = Some s'" "callers s' ! 0 = Client (Some Stop_Returned)"
    "length (long_threads s') = 1"
    by (simp add: pool_exec stop_schedule_def)
  note r = pool_result_reach [OF s(1)]
  show ?thesis
    using stop_leaves_nothing_running [OF r s(2-4)] r s
    by (intro exI [of _ s] exI [of _ s']) simp
qed

text \<open>\<open>is_running_\<close> is never set again, so a stopped pool stays stopped.\<close>

lemma not_running_call: "\<not> is_running s \<Longrightarrow> \<not> is_running (call r t s)"
  by (cases r) (simp_all add: post_def post_coro_def addLongRunningTask_def stop_def)

lemma not_running_step:
  assumes "pool_step io s a = Some t" "\<not> is_running s"
  shows "\<not> is_running t"
proof (cases a)
  case (Call c r)
  with assms show ?thesis by (auto simp: not_running_call split: if_splits caller.splits)
next
  case (Caller c)
  with assms caller_frame(1) [of io c s t] show ?thesis by simp
next
  case (Worker i)
  with assms worker_frame(1) [of io i s t] show ?thesis by simp
next
  case (Long w)
  with assms long_frame [of w s t] show ?thesis by auto
qed

lemma not_running_steps: "(pool_next io)\<^sup>*\<^sup>* s t \<Longrightarrow> \<not> is_running s \<Longrightarrow> \<not> is_running t"
  by (induction rule: rtranclp_induct) (auto simp: pool_next_def dest: not_running_step)

text \<open>
  Once \<open>stop\<close> has exchanged \<open>is_running_\<close>, every later call of \<open>post\<close> and \<open>post_coro\<close>
  answers \<open>std::nullopt\<close>, every later \<open>addLongRunningTask\<close> answers \<open>false\<close> and every later
  \<open>stop\<close> returns at once, and none of them changes anything else of the pool.
\<close>

theorem stopped_pool_refuses:
  assumes "\<not> is_running s" "(pool_next io)\<^sup>*\<^sup>* s u"
  shows "call r t u =
           move_caller t (Client (Some (case r of Post _ \<Rightarrow> Nullopt | Post_Coro _ \<Rightarrow> Nullopt
              | Add_Long _ _ \<Rightarrow> Added False | Stop \<Rightarrow> Stop_Returned))) u"
  using not_running_steps [OF assms(2,1)]
  by (cases r) (simp_all add: post_def post_coro_def addLongRunningTask_def stop_def)

theorem stopped_pool_refuses_witness:
  "\<exists>s :: (int handler list \<times> bool, int) pool. reach (pool_init fifo) (pool_next fifo) s \<and>
     call (Post (Returns 1)) 0 s = move_caller 0 (Client (Some Nullopt)) s"
proof -
  obtain s where s: "pool_result 1 2 [Call 0 Stop] = Some s" "\<not> is_running s"
    by (simp add: pool_exec)
  then show ?thesis
    using stopped_pool_refuses [of s fifo s "Post (Returns 1)" 0] pool_result_reach [OF s(1)]
    by auto
qed

section \<open>Calls that overlap with stop\<close>

text \<open>Without workers no promise is fulfilled any more.\<close>

lemma no_workers_step:
  assumes "pool_step io s a = Some t" "small_task_workers s = []"
  shows "small_task_workers t = [] \<and> promises t = promises s"
proof (cases a)
  case (Call c r)
  with assms show ?thesis by (auto split: if_splits caller.splits)
next
  case (Caller c)
  with assms caller_frame [of io c s t] show ?thesis by auto
next
  case (Worker i)
  with assms worker_frame(6) [of io i s t] show ?thesis by simp
next
  case (Long w)
  with assms long_frame [of w s t] show ?thesis by auto
qed

lemma no_workers_steps:
  assumes "(pool_next io)\<^sup>*\<^sup>* s t" "small_task_workers s = []"
  shows "small_task_workers t = [] \<and> promises t = promises s"
  using assms
  by (induction rule: rtranclp_induct) (auto simp: pool_next_def dest: no_workers_step)

definition late_post_schedule :: "int action list" where
  "late_post_schedule = [Call 0 (Post (Returns 7)), Call 1 Stop, Caller 1, Worker 0, Caller 1,
     Caller 1, Caller 1, Caller 1, Caller 0]"

text \<open>
  \<open>post\<close> checks \<open>is_running_\<close> and queues the handler in two steps, and \<open>stop\<close> can come
  between them. Then the caller gets a future (not \<open>std::nullopt\<close>), the pool is stopped,
  and the future never becomes ready, whatever happens afterwards.
\<close>

theorem late_post_never_runs:
  "\<exists>s :: (int handler list \<times> bool, int) pool. reach (pool_init fifo) (pool_next fifo) s \<and>
     callers s = [Client (Some (Future 0)), Client (Some Stop_Returned)] \<and>
     (\<forall>t. (pool_next fifo)\<^sup>*\<^sup>* s t \<longrightarrow> promises t 0 = None)"
proof -
  obtain s where s: "pool_result 1 2 late_post_schedule = Some s"
    "callers s = [Client (Some (Future 0)), Client (Some Stop_Returned)]"
    "small_task_workers s = []" "promises s 0 = None"
    by (simp add: pool_exec late_post_schedule_def numeral_2_eq_2)
  show ?thesis
  proof (intro exI [of _ s] conjI allI impI)
    show "promises t 0 = None" if "(pool_next fifo)\<^sup>*\<^sup>* s t" for t
      using no_workers_steps [OF that s(3)] s(4) by simp
  qed (use pool_result_reach [OF s(1)] s(2) in simp_all)
qed

theorem late_post_never_runs_witness:
  "\<exists>s :: (int handler list \<times> bool, int) pool. reach (pool_init fifo) (pool_next fifo) s \<and>
     callers s ! 0 = Client (Some (Future 0)) \<and> promises s 0 = None"
  using late_post_never_runs by auto

text \<open>After every \<open>stop\<close> has returned, nobody asks a long running thread to stop.\<close>

definition unstoppable :: "nat \<Rightarrow> ('c, 'v) pool \<Rightarrow> bool" where
  "unstoppable w s \<longleftrightarrow>
     \<not> is_running s \<and> (\<forall>c \<in> set (callers s). \<exists>a. c = Client a) \<and>
     w < length (long_threads s) \<and> long_task (long_threads s ! w) = Ends_On_Stop \<and>
     \<not> stop_requested (long_threads s ! w) \<and> \<not> long_finished (long_threads s ! w)"

lemma unstoppable_step:
  assumes u: "unstoppable w s" and step: "pool_step io s a = Some t"
  shows "unstoppable w t"
proof (cases a)
  case (Call v r)
  have "\<exists>a. call r v s = move_caller v (Client (Some a)) s"
    using u by (cases r) (auto simp: unstoppable_def post_def post_coro_def
        addLongRunningTask_def stop_def)
  then obtain b where b: "call r v s = move_caller v (Client (Some b)) s" by blast
  have "\<forall>c \<in> set ((callers s)[v := Client (Some b)]). \<exists>a. c = Client a"
    using u set_update_subset_insert [of "callers s" v "Client (Some b)"]
    by (auto simp: unstoppable_def)
  then have "unstoppable w (call r v s)" using u b by (simp add: unstoppable_def)
  with step Call show ?thesis by (auto split: if_splits caller.splits)
next
  case (Caller v)
  then have "v < length (callers s)" using step by (auto simp: caller_step_def split: if_splits)
  then have "callers s ! v \<in> set (callers s)" by (rule nth_mem)
  then obtain b where "callers s ! v = Client b" using u unfolding unstoppable_def by blast
  with Caller step show ?thesis by (auto simp: caller_step_def split: if_splits)
next
  case (Worker i)
  with step worker_frame [of io i s t] u show ?thesis by (simp add: unstoppable_def)
next
  case (Long v)
  with step u show ?thesis
    by (cases "v = w") (auto simp: execute_task_def Let_def unstoppable_def split: if_splits)
qed

lemma unstoppable_steps: "(pool_next io)\<^sup>*\<^sup>* s t \<Longrightarrow> unstoppable w s \<Longrightarrow> unstoppable w t"
  by (induction rule: rtranclp_induct) (auto simp: pool_next_def intro: unstoppable_step)

definition late_add_schedule :: "int action list" where
  "late_add_schedule = [Call 0 (Add_Long ''poll'' Ends_On_Stop), Call 1 Stop, Caller 1, Worker 0,
     Caller 1, Caller 1, Caller 1, Caller 1, Caller 0]"

text \<open>
  \<open>addLongRunningTask\<close> reads \<open>is_running_\<close> before it takes the lock, so \<open>stop\<close> can run in
  between from start to end. The call then answers \<open>true\<close> and starts a thread although the
  pool is stopped; nobody requests a stop on its token any more, so a task that runs until
  its token says stop runs for ever (and the destructor that joins it does not return).
\<close>

theorem late_long_task_never_stops:
  "\<exists>s :: (int handler list \<times> bool, int) pool. reach (pool_init fifo) (pool_next fifo) s \<and>
     callers s = [Client (Some (Added True)), Client (Some Stop_Returned)] \<and>
     long_running_workers s = [0] \<and>
     (\<forall>t. (pool_next fifo)\<^sup>*\<^sup>* s t \<longrightarrow>
        \<not> stop_requested (long_threads t ! 0) \<and> \<not> long_finished (long_threads t ! 0))"
proof -
  obtain s where s: "pool_result 1 2 late_add_schedule = Some s"
    "callers s = [Client (Some (Added True)), Client (Some Stop_Returned)]"
    "long_running_workers s = [0]" "unstoppable 0 s"
    by (simp add: pool_exec late_add_schedule_def numeral_2_eq_2 unstoppable_def)
  show ?thesis
  proof (intro exI [of _ s] conjI allI impI)
    fix t assume "(pool_next fifo)\<^sup>*\<^sup>* s t"
    then have "unstoppable 0 t" using s(4) by (rule unstoppable_steps)
    then show "\<not> stop_requested (long_threads t ! 0)" "\<not> long_finished (long_threads t ! 0)"
      by (simp_all add: unstoppable_def)
  qed (use pool_result_reach [OF s(1)] s(2,3) in simp_all)
qed

theorem late_long_task_never_stops_witness:
  "\<exists>s :: (int handler list \<times> bool, int) pool. reach (pool_init fifo) (pool_next fifo) s \<and>
     long_running_workers s = [0] \<and> \<not> stop_requested (long_threads s ! 0)"
  using late_long_task_never_stops by auto

text \<open>The workers' name is longer than Linux allows, so they keep the process's name.\<close>

lemma small_worker_keeps_name: "small_worker_name process_name = process_name"
  by (simp add: small_worker_name_def pthread_setname_np_def)

end
