(* ===== verification/Coroutine_Pool.thy ===== *)
theory Coroutine_Pool
  imports Thread_Pool
begin

text \<open>
  The two-context pool of \<open>src/behaviortree_test/task/thread_pool.hpp\<close>: functions run on the
  threads of one \<open>io_context\<close>, coroutines on those of another. The handlers, the outcome of
  a submission and the laws of the \<open>io_context\<close> are those of theory \<open>Thread_Pool\<close>. A coroutine
  that awaits a timer or a channel is kept by that operation until it completes, which posts
  the continuation to the coroutines' context; its completion handler fulfils the promise
  itself.
\<close>

section \<open>Awaitable types\<close>

datatype cpp_type = Void_T | Value_T string | Awaitable_T cpp_type

fun is_awaitable :: "cpp_type \<Rightarrow> bool" where
  "is_awaitable (Awaitable_T T) = True"
| "is_awaitable _ = False"

fun awaitable_value_type :: "cpp_type \<Rightarrow> cpp_type" where
  "awaitable_value_type (Awaitable_T T) = T"
| "awaitable_value_type T = T"

text \<open>
  The result type of \<open>post_coroutine\<close> for a function returning \<open>T\<close>; the \<open>static_assert\<close>
  rejects (\<open>None\<close>) a function that returns no awaitable.
\<close>

definition post_coroutine_type :: "cpp_type \<Rightarrow> cpp_type option" where
  "post_coroutine_type T = (if is_awaitable T then Some (awaitable_value_type T) else None)"

lemma post_coroutine_type_iff: "post_coroutine_type T = Some V \<longleftrightarrow> T = Awaitable_T V"
  by (cases T) (auto simp: post_coroutine_type_def)

section \<open>State and operations\<close>

text \<open>Where the thread that calls \<open>stop\<close> (or the destructor) is.\<close>

datatype bt_stop = Not_Stopping | Stop_Coroutine_Context | Join_Normal nat | Join_Coroutine nat
  | Bt_Stopped

record ('c, 'v) bt_pool =
  normal_io_context :: 'c
  normal_threads :: "'v small_worker list"
  coroutine_io_context :: 'c
  coroutine_threads :: "'v small_worker list"
  bt_awaiting :: "'v handler list"
  bt_promises :: "nat \<Rightarrow> 'v outcome option"
  bt_submitted :: "'v outcome list"
  bt_stopping :: bt_stop

definition make_bt_pool :: "('c, 'v handler) io_ops \<Rightarrow> nat \<Rightarrow> nat \<Rightarrow> ('c, 'v) bt_pool" where
  "make_bt_pool io normal coroutine =
     \<lparr> normal_io_context = io_new io, normal_threads = replicate normal In_Run,
       coroutine_io_context = io_new io, coroutine_threads = replicate coroutine In_Run,
       bt_awaiting = [], bt_promises = (\<lambda>_. None), bt_submitted = [], bt_stopping = Not_Stopping \<rparr>"

text \<open>\<open>post\<close> and \<open>post_coroutine\<close> always accept; the answer is the number of the promise.\<close>

definition bt_post ::
  "('c, 'v handler) io_ops \<Rightarrow> 'v outcome \<Rightarrow> ('c, 'v) bt_pool \<Rightarrow> nat \<times> ('c, 'v) bt_pool" where
  "bt_post io out s =
     (let p = length (bt_submitted s) in
      (p, s\<lparr>bt_submitted := bt_submitted s @ [out],
            normal_io_context := io_post io (Run_Function p out) (normal_io_context s)\<rparr>))"

definition post_coroutine ::
  "('c, 'v handler) io_ops \<Rightarrow> nat \<Rightarrow> 'v outcome \<Rightarrow> ('c, 'v) bt_pool \<Rightarrow>
     nat \<times> ('c, 'v) bt_pool" where
  "post_coroutine io k out s =
     (let p = length (bt_submitted s) in
      (p, s\<lparr>bt_submitted := bt_submitted s @ [out],
            coroutine_io_context := io_post io (Coroutine p k out) (coroutine_io_context s)\<rparr>))"

text \<open>
  One dispatch of \<open>io_context::run\<close> on worker \<open>i\<close>: the context, the workers, the promise it
  fulfils, if any, and the coroutine it suspends, if any. The number of a coroutine is how
  often it still awaits something before its completion handler fulfils the promise with the
  value or the exception; it may be as large as one likes, so that a finite run of a
  coroutine that never ends is one with a large number.
\<close>

definition run_worker ::
  "('c, 'v handler) io_ops \<Rightarrow> nat \<Rightarrow> 'c \<Rightarrow> 'v small_worker list \<Rightarrow>
     ('c \<times> 'v small_worker list \<times> (nat \<times> 'v outcome) option \<times> 'v handler list) option" where
  "run_worker io i c ws =
     (if i < length ws then
        (case ws ! i of
           In_Run \<Rightarrow>
             (if io_stopped io c then Some (c, ws[i := Run_Returned], None, [])
              else (case io_pop io c of None \<Rightarrow> None
                    | Some (h, c') \<Rightarrow> Some (c', ws[i := Executing h], None, [])))
         | Executing (Run_Function p out) \<Rightarrow> Some (c, ws[i := In_Run], Some (p, out), [])
         | Executing (Coroutine p 0 out) \<Rightarrow> Some (c, ws[i := In_Run], Some (p, out), [])
         | Executing (Coroutine p (Suc k) out) \<Rightarrow> Some (c, ws[i := In_Run], None, [Coroutine p k out])
         | _ \<Rightarrow> None)
      else None)"

fun fulfil :: "(nat \<times> 'v outcome) option \<Rightarrow> (nat \<Rightarrow> 'v outcome option) \<Rightarrow> nat \<Rightarrow> 'v outcome option"
  where
  "fulfil None f = f"
| "fulfil (Some (p, out)) f = f(p \<mapsto> out)"

definition normal_step ::
  "('c, 'v handler) io_ops \<Rightarrow> nat \<Rightarrow> ('c, 'v) bt_pool \<Rightarrow> ('c, 'v) bt_pool option" where
  "normal_step io i s =
     (case run_worker io i (normal_io_context s) (normal_threads s) of
        None \<Rightarrow> None
      | Some (c, ws, f, parked) \<Rightarrow>
          Some (s\<lparr>normal_io_context := c, normal_threads := ws,
                  bt_promises := fulfil f (bt_promises s), bt_awaiting := bt_awaiting s @ parked\<rparr>))"

definition coroutine_step ::
  "('c, 'v handler) io_ops \<Rightarrow> nat \<Rightarrow> ('c, 'v) bt_pool \<Rightarrow> ('c, 'v) bt_pool option" where
  "coroutine_step io i s =
     (case run_worker io i (coroutine_io_context s) (coroutine_threads s) of
        None \<Rightarrow> None
      | Some (c, ws, f, parked) \<Rightarrow>
          Some (s\<lparr>coroutine_io_context := c, coroutine_threads := ws,
                  bt_promises := fulfil f (bt_promises s), bt_awaiting := bt_awaiting s @ parked\<rparr>))"

text \<open>What coroutine \<open>j\<close> of the awaiting ones waits for completes: the continuation is posted.\<close>

definition await_ready ::
  "('c, 'v handler) io_ops \<Rightarrow> nat \<Rightarrow> ('c, 'v) bt_pool \<Rightarrow> ('c, 'v) bt_pool option" where
  "await_ready io j s =
     (if j < length (bt_awaiting s)
      then Some (s\<lparr>bt_awaiting := take j (bt_awaiting s) @ drop (Suc j) (bt_awaiting s),
                   coroutine_io_context := io_post io (bt_awaiting s ! j) (coroutine_io_context s)\<rparr>)
      else None)"

text \<open>\<open>stop\<close>: stop both contexts, join the function threads, then the coroutine threads.\<close>

definition bt_stop_step ::
  "('c, 'v handler) io_ops \<Rightarrow> ('c, 'v) bt_pool \<Rightarrow> ('c, 'v) bt_pool option" where
  "bt_stop_step io s =
     (case bt_stopping s of
        Not_Stopping \<Rightarrow>
          Some (s\<lparr>normal_io_context := io_stop io (normal_io_context s),
                  bt_stopping := Stop_Coroutine_Context\<rparr>)
      | Stop_Coroutine_Context \<Rightarrow>
          Some (s\<lparr>coroutine_io_context := io_stop io (coroutine_io_context s),
                  bt_stopping := Join_Normal 0\<rparr>)
      | Join_Normal i \<Rightarrow>
          (if i < length (normal_threads s)
           then (if normal_threads s ! i = Run_Returned
                 then Some (s\<lparr>bt_stopping := Join_Normal (Suc i)\<rparr>) else None)
           else Some (s\<lparr>normal_threads := [], bt_stopping := Join_Coroutine 0\<rparr>))
      | Join_Coroutine i \<Rightarrow>
          (if i < length (coroutine_threads s)
           then (if coroutine_threads s ! i = Run_Returned
                 then Some (s\<lparr>bt_stopping := Join_Coroutine (Suc i)\<rparr>) else None)
           else Some (s\<lparr>coroutine_threads := [], bt_stopping := Bt_Stopped\<rparr>))
      | Bt_Stopped \<Rightarrow> None)"

datatype 'v bt_action =
    Bt_Post "'v outcome" | Bt_Post_Coroutine nat "'v outcome"
  | Bt_Normal nat | Bt_Coroutine nat | Bt_Ready nat | Bt_Stop

fun bt_step ::
  "('c, 'v handler) io_ops \<Rightarrow> ('c, 'v) bt_pool \<Rightarrow> 'v bt_action \<Rightarrow> ('c, 'v) bt_pool option" where
  "bt_step io s (Bt_Post out) = Some (snd (bt_post io out s))"
| "bt_step io s (Bt_Post_Coroutine k out) = Some (snd (post_coroutine io k out s))"
| "bt_step io s (Bt_Normal i) = normal_step io i s"
| "bt_step io s (Bt_Coroutine i) = coroutine_step io i s"
| "bt_step io s (Bt_Ready j) = await_ready io j s"
| "bt_step io s Bt_Stop = bt_stop_step io s"

fun bt_run ::
  "('c, 'v handler) io_ops \<Rightarrow> ('c, 'v) bt_pool \<Rightarrow> 'v bt_action list \<Rightarrow> ('c, 'v) bt_pool option"
  where
  "bt_run io s [] = Some s"
| "bt_run io s (a # as) = (case bt_step io s a of None \<Rightarrow> None | Some t \<Rightarrow> bt_run io t as)"

section \<open>Every submission is fulfilled\<close>

text \<open>A handler of the pool that will fulfil promise \<open>p\<close> with \<open>out\<close>, and how much work it is.\<close>

fun owes :: "nat \<Rightarrow> 'v outcome \<Rightarrow> 'v handler \<Rightarrow> bool" where
  "owes p out (Run_Function q v) = (q = p \<and> v = out)"
| "owes p out (Coroutine q k v) = (q = p \<and> v = out)"
| "owes p out (Run_Coro q cc) = False"

fun simple_handler :: "'v handler \<Rightarrow> bool" where
  "simple_handler (Run_Coro q cc) = False"
| "simple_handler _ = True"

fun live_worker :: "'v small_worker \<Rightarrow> bool" where
  "live_worker In_Run = True"
| "live_worker (Executing h) = simple_handler h"
| "live_worker _ = False"

fun handler_work :: "'v handler \<Rightarrow> nat" where
  "handler_work (Coroutine q k v) = 3 * k + 2"
| "handler_work _ = 2"

fun worker_work :: "'v small_worker \<Rightarrow> nat" where
  "worker_work (Executing h) = handler_work h - 1"
| "worker_work _ = 0"

definition context_work :: "('c, 'v handler) io_ops \<Rightarrow> 'c \<Rightarrow> 'v small_worker list \<Rightarrow> nat" where
  "context_work io c ws =
     sum_mset (image_mset handler_work (io_pending io c)) + sum_list (map worker_work ws)"

definition parked_work :: "'v handler list \<Rightarrow> nat" where
  "parked_work hs = sum_list (map (\<lambda>h. Suc (handler_work h)) hs)"

fun is_coro :: "'v handler \<Rightarrow> bool" where
  "is_coro (Coroutine q k v) = True"
| "is_coro _ = False"

definition owed ::
  "('c, 'v handler) io_ops \<Rightarrow> 'c \<Rightarrow> 'v small_worker list \<Rightarrow> nat \<Rightarrow> 'v outcome \<Rightarrow> bool" where
  "owed io c ws p out \<longleftrightarrow>
     (\<exists>h. owes p out h \<and> (h \<in># io_pending io c \<or> Executing h \<in> set ws))"

definition context_ok :: "('c, 'v handler) io_ops \<Rightarrow> 'c \<Rightarrow> 'v small_worker list \<Rightarrow> bool" where
  "context_ok io c ws \<longleftrightarrow>
     \<not> io_stopped io c \<and> (\<forall>h \<in># io_pending io c. simple_handler h) \<and>
     (\<forall>w \<in> set ws. live_worker w)"

lemma handler_work_pos: "0 < handler_work h"
  by (cases h) auto

lemma live_update: "\<forall>w \<in> set ws. live_worker w \<Longrightarrow> live_worker v \<Longrightarrow> \<forall>w \<in> set (ws[i := v]). live_worker w"
  using set_update_subset_insert [of ws i v] by auto

lemma work_update:
  assumes "i < length ws"
  shows "sum_list (map worker_work (ws[i := v])) + worker_work (ws ! i)
         = sum_list (map worker_work ws) + worker_work v"
  using assms
proof (induction ws arbitrary: i)
  case (Cons w ws)
  then show ?case by (cases i) auto
qed simp

lemma executing_update:
  assumes "Executing h \<in> set ws" "i < length ws"
  shows "Executing h \<in> set (ws[i := v]) \<or> ws ! i = Executing h"
proof -
  from assms(1) obtain j where j: "j < length ws" "ws ! j = Executing h"
    by (auto simp: in_set_conv_nth)
  then show ?thesis
    using assms(2) by (cases "j = i") (auto simp: in_set_conv_nth intro!: exI [of _ j])
qed

lemma owed_post:
  assumes "io_context_laws io"
  shows "owed io (io_post io h c) ws p out \<longleftrightarrow> owes p out h \<or> owed io c ws p out"
  by (auto simp: owed_def io_laws [OF assms])

lemma owed_update: "owed io c (ws[i := In_Run]) p out \<Longrightarrow> owed io c ws p out"
  using set_update_subset_insert [of ws i In_Run] by (auto simp: owed_def)

text \<open>A dispatch keeps the context in order, does some of the work and forgets no debt.\<close>

lemma run_worker_progress:
  assumes laws: "io_context_laws io" and ok: "context_ok io c ws"
    and step: "run_worker io i c ws = Some (c', ws', f, pk)"
  shows "context_ok io c' ws' \<and> length ws' = length ws \<and> (\<forall>h \<in> set pk. is_coro h) \<and>
         context_work io c' ws' + parked_work pk < context_work io c ws \<and>
         (\<forall>p out. owed io c ws p out \<longrightarrow>
            owed io c' ws' p out \<or> f = Some (p, out) \<or> (\<exists>h \<in> set pk. owes p out h))"
proof -
  from step have i: "i < length ws" by (auto simp: run_worker_def split: if_splits)
  note live = ok [unfolded context_ok_def]
  have li: "live_worker (ws ! i)" using live i by simp
  show ?thesis
  proof (cases "ws ! i")
    case In_Run
    with step i live obtain h where pop: "io_pop io c = Some (h, c')"
      and ws': "ws' = ws[i := Executing h]" and f: "f = None" "pk = []"
      by (auto simp: run_worker_def split: option.splits)
    note pend = law_pop(1) [OF laws pop] and st = law_pop(2) [OF laws pop]
    have "context_ok io c' ws'"
      using live pend st ws' live_update [of ws "Executing h" i] by (auto simp: context_ok_def)
    moreover have "context_work io c' ws' + parked_work pk < context_work io c ws"
      using work_update [OF i, of "Executing h"] In_Run pend ws' handler_work_pos [of h] f
      by (simp add: context_work_def parked_work_def)
    moreover have "owed io c' ws' p out" if "owed io c ws p out" for p out
    proof -
      from that obtain g where g: "owes p out g" "g \<in># io_pending io c \<or> Executing g \<in> set ws"
        by (auto simp: owed_def)
      have "Executing h \<in> set ws'" using ws' i by (simp add: set_update_memI)
      with g pend In_Run executing_update [of g ws i "Executing h"] i ws' show ?thesis
        by (auto simp: owed_def)
    qed
    ultimately show ?thesis using ws' f by simp
  next
    case (Executing h)
    then obtain p0 k v where h: "h = Run_Function p0 v \<or> h = Coroutine p0 k v"
      using li by (cases h) auto
    have ws': "ws' = ws[i := In_Run]"
      using step i Executing h by (auto simp: run_worker_def split: nat.splits)
    have keep: "Executing g \<in> set ws' \<or> g = h" if "Executing g \<in> set ws" for g
      using executing_update [OF that i, of In_Run] Executing ws' by auto
    have w: "sum_list (map worker_work ws') + (handler_work h - 1) = sum_list (map worker_work ws)"
      using work_update [OF i, of In_Run] Executing ws' by simp
    show ?thesis
    proof (cases "\<exists>m. h = Coroutine p0 (Suc m) v")
      case True
      then obtain m where m: "h = Coroutine p0 (Suc m) v" by blast
      then have c': "c' = c" "f = None" "pk = [Coroutine p0 m v]"
        using step i Executing by (auto simp: run_worker_def)
      have "context_ok io c' ws'"
        using live ws' c' live_update [of ws In_Run i] by (auto simp: context_ok_def)
      moreover have "context_work io c' ws' + parked_work pk < context_work io c ws"
        using w m c' by (simp add: context_work_def parked_work_def)
      moreover have "owed io c' ws' p out \<or> (\<exists>h \<in> set pk. owes p out h)" if "owed io c ws p out" for p out
      proof -
        from that obtain g where g: "owes p out g" "g \<in># io_pending io c \<or> Executing g \<in> set ws"
          by (auto simp: owed_def)
        then show ?thesis
          using keep [of g] m c' by (cases "g = h") (auto simp: owed_def)
      qed
      ultimately show ?thesis using ws' c' by simp
    next
      case False
      then have c': "c' = c" "f = Some (p0, v)" "pk = []"
        using step i Executing h by (auto simp: run_worker_def split: nat.splits)
      have "context_ok io c' ws'"
        using live ws' c' live_update [of ws In_Run i] by (auto simp: context_ok_def)
      moreover have "context_work io c' ws' + parked_work pk < context_work io c ws"
        using w c' h by (auto simp: context_work_def parked_work_def)
      moreover have "owed io c' ws' p out \<or> f = Some (p, out)" if "owed io c ws p out" for p out
      proof -
        from that obtain g where g: "owes p out g" "g \<in># io_pending io c \<or> Executing g \<in> set ws"
          by (auto simp: owed_def)
        then show ?thesis
          using keep [of g] c' h by (cases "g = h") (auto simp: owed_def)
      qed
      ultimately show ?thesis using ws' c' by auto
    qed
  qed (use li in simp_all)
qed

text \<open>When no worker can move, nothing is owed.\<close>

lemma idle_owes_nothing:
  assumes laws: "io_context_laws io" and ok: "context_ok io c ws" and ne: "ws \<noteq> []"
    and idle: "\<And>i. run_worker io i c ws = None"
  shows "\<not> owed io c ws p out"
proof -
  have run: "ws ! i = In_Run" if i: "i < length ws" for i
  proof (cases "ws ! i")
    case (Executing h)
    then have "simple_handler h" using ok i by (metis context_ok_def live_worker.simps(2) nth_mem)
    then show ?thesis
      using idle [of i] i Executing by (cases h) (auto simp: run_worker_def split: nat.splits)
  qed (use ok i in \<open>force simp: context_ok_def dest: nth_mem\<close>)+
  have "run_worker io 0 c ws = None" by (rule idle)
  then have "io_pop io c = None"
    using run [of 0] ne ok by (auto simp: run_worker_def context_ok_def split: option.splits)
  then have "io_pending io c = {#}" using law_none [OF laws] by blast
  moreover have "Executing h \<notin> set ws" for h
    using run by (auto simp: in_set_conv_nth)
  ultimately show ?thesis by (auto simp: owed_def)
qed

definition bt_owed :: "('c, 'v handler) io_ops \<Rightarrow> ('c, 'v) bt_pool \<Rightarrow> nat \<Rightarrow> 'v outcome \<Rightarrow> bool" where
  "bt_owed io s p out \<longleftrightarrow>
     owed io (normal_io_context s) (normal_threads s) p out \<or>
     owed io (coroutine_io_context s) (coroutine_threads s) p out \<or>
     (\<exists>h \<in> set (bt_awaiting s). owes p out h)"

definition bt_inv :: "('c, 'v handler) io_ops \<Rightarrow> nat \<Rightarrow> nat \<Rightarrow> ('c, 'v) bt_pool \<Rightarrow> bool" where
  "bt_inv io n m s \<longleftrightarrow>
     context_ok io (normal_io_context s) (normal_threads s) \<and> length (normal_threads s) = n \<and>
     context_ok io (coroutine_io_context s) (coroutine_threads s) \<and>
     length (coroutine_threads s) = m \<and> (\<forall>h \<in> set (bt_awaiting s). is_coro h) \<and>
     (\<forall>p v. bt_promises s p = Some v \<longrightarrow> p < length (bt_submitted s) \<and> v = bt_submitted s ! p) \<and>
     (\<forall>p < length (bt_submitted s).
        bt_promises s p = Some (bt_submitted s ! p) \<or> bt_owed io s p (bt_submitted s ! p)) \<and>
     (\<forall>p out. bt_owed io s p out \<longrightarrow> p < length (bt_submitted s) \<and> bt_submitted s ! p = out)"

definition bt_work :: "('c, 'v handler) io_ops \<Rightarrow> ('c, 'v) bt_pool \<Rightarrow> nat" where
  "bt_work io s =
     context_work io (normal_io_context s) (normal_threads s) +
     context_work io (coroutine_io_context s) (coroutine_threads s) + parked_work (bt_awaiting s)"

lemma context_ok_post:
  "io_context_laws io \<Longrightarrow> context_ok io c ws \<Longrightarrow> simple_handler h \<Longrightarrow>
   context_ok io (io_post io h c) ws"
  by (auto simp: context_ok_def io_laws)

lemma bt_inv_post:
  assumes laws: "io_context_laws io" and inv: "bt_inv io n m s"
    and ow: "\<And>q v. bt_owed io s' q v \<longleftrightarrow> q = length (bt_submitted s) \<and> v = out \<or> bt_owed io s q v"
    and s': "bt_submitted s' = bt_submitted s @ [out]" "bt_promises s' = bt_promises s"
      "normal_threads s' = normal_threads s" "coroutine_threads s' = coroutine_threads s"
      "bt_awaiting s' = bt_awaiting s"
      "context_ok io (normal_io_context s') (normal_threads s)"
      "context_ok io (coroutine_io_context s') (coroutine_threads s)"
  shows "bt_inv io n m s'"
proof -
  have "bt_promises s' p = Some (bt_submitted s' ! p) \<or> bt_owed io s' p (bt_submitted s' ! p)"
    if "p < length (bt_submitted s')" for p
  proof (cases "p = length (bt_submitted s)")
    case False
    with that s' have "p < length (bt_submitted s)" by simp
    then show ?thesis using inv ow s' by (simp add: bt_inv_def nth_append)
  qed (simp add: ow s')
  moreover have "p < length (bt_submitted s') \<and> bt_submitted s' ! p = v" if "bt_owed io s' p v" for p v
  proof -
    from that ow consider "p = length (bt_submitted s)" "v = out" | "bt_owed io s p v" by blast
    then show ?thesis
    proof cases
      case 2
      with inv have "p < length (bt_submitted s)" "bt_submitted s ! p = v" unfolding bt_inv_def by blast+
      then show ?thesis by (simp add: s'(1) nth_append)
    qed (simp add: s'(1))
  qed
  moreover have "p < length (bt_submitted s') \<and> v = bt_submitted s' ! p" if "bt_promises s' p = Some v" for p v
  proof -
    from that s'(2) inv have "p < length (bt_submitted s)" "v = bt_submitted s ! p"
      unfolding bt_inv_def by auto
    then show ?thesis by (simp add: s'(1) nth_append)
  qed
  ultimately show ?thesis using inv s' by (simp add: bt_inv_def)
qed

text \<open>A debt comes from a debt: dispatching invents none.\<close>

lemma run_worker_owed:
  assumes laws: "io_context_laws io" and ok: "context_ok io c ws"
    and step: "run_worker io i c ws = Some (c', ws', f, pk)"
  shows "(owed io c' ws' p out \<longrightarrow> owed io c ws p out) \<and> (f = Some (p, out) \<longrightarrow> owed io c ws p out) \<and>
    ((\<exists>h \<in> set pk. owes p out h) \<longrightarrow> owed io c ws p out)"
proof -
  from step have i: "i < length ws" by (auto simp: run_worker_def split: if_splits)
  have sub: "Executing g \<in> set (ws[i := v]) \<Longrightarrow> Executing g = v \<or> Executing g \<in> set ws" for g v
    using set_update_subset_insert [of ws i v] by auto
  have mem: "ws ! i \<in> set ws" using i by simp
  show ?thesis
  proof (cases "ws ! i")
    case In_Run
    with step i ok obtain h where pop: "io_pop io c = Some (h, c')"
      and "ws' = ws[i := Executing h]" "f = None" "pk = []"
      by (auto simp: run_worker_def context_ok_def split: option.splits)
    then show ?thesis
      using law_pop(1) [OF laws pop] sub by (auto simp: owed_def)
  next
    case (Executing h)
    have h: "owes p out h \<Longrightarrow> owed io c ws p out"
      using mem Executing by (auto simp: owed_def)
    have ws': "ws' = ws[i := In_Run]" "c' = c"
      and "f = Some (p, out) \<longrightarrow> owes p out h" "(\<exists>h \<in> set pk. owes p out h) \<longrightarrow> owes p out h"
      using step i Executing by (cases h; auto simp: run_worker_def split: nat.splits)+
    then show ?thesis
      using h owed_update [of io c ws i p out] by simp
  qed (use step i in \<open>auto simp: run_worker_def\<close>)
qed

lemma fulfil_other: "\<nexists>v. f = Some (p, v) \<Longrightarrow> fulfil f g p = g p"
  by (cases f) auto

lemma bt_inv_fulfil:
  assumes inv: "bt_inv io n m s"
    and s': "bt_promises s' = fulfil f (bt_promises s)" "bt_submitted s' = bt_submitted s"
      "context_ok io (normal_io_context s') (normal_threads s')" "length (normal_threads s') = n"
      "context_ok io (coroutine_io_context s') (coroutine_threads s')"
      "length (coroutine_threads s') = m" "\<forall>h \<in> set (bt_awaiting s'). is_coro h"
    and keep: "\<And>p out. bt_owed io s p out \<Longrightarrow> bt_owed io s' p out \<or> f = Some (p, out)"
    and origin: "\<And>p out. bt_owed io s' p out \<or> f = Some (p, out) \<Longrightarrow> bt_owed io s p out"
  shows "bt_inv io n m s'"
proof -
  have sub: "bt_owed io s p out \<Longrightarrow> p < length (bt_submitted s) \<and> bt_submitted s ! p = out" for p out
    using inv by (simp add: bt_inv_def)
  have "bt_promises s' p = Some (bt_submitted s ! p) \<or> bt_owed io s' p (bt_submitted s ! p)"
    if p: "p < length (bt_submitted s)" for p
  proof (cases "\<exists>v. f = Some (p, v)")
    case True
    then obtain v where "f = Some (p, v)" by blast
    with s'(1) origin [of p v] sub [of p v] show ?thesis by simp
  next
    case False
    then have "bt_promises s' p = bt_promises s p" using s'(1) fulfil_other by metis
    moreover have "bt_promises s p = Some (bt_submitted s ! p) \<or> bt_owed io s p (bt_submitted s ! p)"
      using inv p unfolding bt_inv_def by blast
    ultimately show ?thesis using keep [of p "bt_submitted s ! p"] False by auto
  qed
  moreover have "p < length (bt_submitted s) \<and> bt_submitted s ! p = out" if "bt_owed io s' p out" for p out
    using sub origin that by blast
  moreover have "p < length (bt_submitted s) \<and> v = bt_submitted s ! p" if "bt_promises s' p = Some v" for p v
  proof (cases "f = Some (p, v)")
    case True
    then show ?thesis using origin sub by blast
  next
    case False
    with that s'(1) have "bt_promises s p = Some v" by (cases f) (auto split: if_splits)
    then show ?thesis using inv unfolding bt_inv_def by blast
  qed
  ultimately show ?thesis using s'(2-) unfolding bt_inv_def by simp
qed

lemma bt_inv_ready:
  assumes laws: "io_context_laws io" and inv: "bt_inv io n m s" and step: "await_ready io j s = Some s'"
  shows "bt_inv io n m s' \<and> bt_work io s' < bt_work io s \<and> bt_submitted s' = bt_submitted s"
proof -
  let ?h = "bt_awaiting s ! j" and ?rest = "take j (bt_awaiting s) @ drop (Suc j) (bt_awaiting s)"
  from step have j: "j < length (bt_awaiting s)"
    and s': "s' = s\<lparr>bt_awaiting := ?rest,
                   coroutine_io_context := io_post io ?h (coroutine_io_context s)\<rparr>"
    by (auto simp: await_ready_def split: if_splits)
  have split: "bt_awaiting s = take j (bt_awaiting s) @ ?h # drop (Suc j) (bt_awaiting s)"
    using j by (rule id_take_nth_drop)
  have mem: "set (bt_awaiting s) = insert ?h (set ?rest)" by (subst split) simp
  have "parked_work (bt_awaiting s) = Suc (handler_work ?h) + parked_work ?rest"
    by (subst split) (simp add: parked_work_def)
  then have "bt_work io s' < bt_work io s"
    using s' by (simp add: bt_work_def context_work_def io_laws [OF laws])
  moreover have "simple_handler ?h" using inv mem unfolding bt_inv_def by (cases ?h) auto
  then have "context_ok io (coroutine_io_context s') (coroutine_threads s')"
    using s' inv by (simp add: bt_inv_def context_ok_post [OF laws])
  moreover have "bt_owed io s' p out \<longleftrightarrow> bt_owed io s p out" for p out
    unfolding bt_owed_def mem using s' by (auto simp: owed_post [OF laws])
  ultimately show ?thesis using inv s' mem unfolding bt_inv_def by simp
qed

lemma bt_inv_work:
  assumes laws: "io_context_laws io" and inv: "bt_inv io n m s"
    and step: "bt_step io s a = Some s'" and a: "a = Bt_Normal i \<or> a = Bt_Coroutine i \<or> a = Bt_Ready i"
  shows "bt_inv io n m s' \<and> bt_work io s' < bt_work io s \<and> bt_submitted s' = bt_submitted s"
proof -
  have ok: "context_ok io (normal_io_context s) (normal_threads s)"
    "context_ok io (coroutine_io_context s) (coroutine_threads s)"
    "length (normal_threads s) = n" "length (coroutine_threads s) = m" "\<forall>h \<in> set (bt_awaiting s). is_coro h"
    using inv by (simp_all add: bt_inv_def)
  consider "a = Bt_Normal i" | "a = Bt_Coroutine i" | "a = Bt_Ready i" using a by blast
  then show ?thesis
  proof cases
    case 1
    with step obtain c ws f pk where r: "run_worker io i (normal_io_context s) (normal_threads s) =
        Some (c, ws, f, pk)" and s': "s' = s\<lparr>normal_io_context := c, normal_threads := ws,
                  bt_promises := fulfil f (bt_promises s), bt_awaiting := bt_awaiting s @ pk\<rparr>"
      by (auto simp: normal_step_def split: option.splits)
    note p = run_worker_progress [OF laws ok(1) r] and q = run_worker_owed [OF laws ok(1) r]
    have ow: "bt_owed io s' q v \<longleftrightarrow> owed io c ws q v \<or> owed io (coroutine_io_context s) (coroutine_threads s) q v \<or>
        (\<exists>h \<in> set (bt_awaiting s). owes q v h) \<or> (\<exists>h \<in> set pk. owes q v h)" for q v
      unfolding bt_owed_def s' by (simp add: bex_Un disj_ac)
    have "bt_inv io n m s'"
    proof (rule bt_inv_fulfil [OF inv, where f = f])
      fix r v
      show "bt_owed io s' r v \<or> f = Some (r, v)" if "bt_owed io s r v"
        using that p unfolding ow bt_owed_def [of io s] by blast
      show "bt_owed io s r v" if "bt_owed io s' r v \<or> f = Some (r, v)"
        using that q [of r v] unfolding ow bt_owed_def [of io s] by blast
    qed (use p ok in \<open>auto simp: s'\<close>)
    with p s' show ?thesis by (simp add: bt_work_def parked_work_def)
  next
    case 2
    with step obtain c ws f pk where r: "run_worker io i (coroutine_io_context s)
        (coroutine_threads s) = Some (c, ws, f, pk)"
      and s': "s' = s\<lparr>coroutine_io_context := c, coroutine_threads := ws,
                  bt_promises := fulfil f (bt_promises s), bt_awaiting := bt_awaiting s @ pk\<rparr>"
      by (auto simp: coroutine_step_def split: option.splits)
    note p = run_worker_progress [OF laws ok(2) r] and q = run_worker_owed [OF laws ok(2) r]
    have ow: "bt_owed io s' q v \<longleftrightarrow> owed io c ws q v \<or> owed io (normal_io_context s) (normal_threads s) q v \<or>
        (\<exists>h \<in> set (bt_awaiting s). owes q v h) \<or> (\<exists>h \<in> set pk. owes q v h)" for q v
      unfolding bt_owed_def s' by (simp add: bex_Un disj_ac)
    have "bt_inv io n m s'"
    proof (rule bt_inv_fulfil [OF inv, where f = f])
      fix r v
      show "bt_owed io s' r v \<or> f = Some (r, v)" if "bt_owed io s r v"
        using that p unfolding ow bt_owed_def [of io s] by blast
      show "bt_owed io s r v" if "bt_owed io s' r v \<or> f = Some (r, v)"
        using that q [of r v] unfolding ow bt_owed_def [of io s] by blast
    qed (use p ok in \<open>auto simp: s'\<close>)
    with p s' show ?thesis by (simp add: bt_work_def parked_work_def)
  next
    case 3
    then show ?thesis using bt_inv_ready [OF laws inv] step by simp
  qed
qed

fun submits :: "'v bt_action \<Rightarrow> bool" where
  "submits (Bt_Post out) = True"
| "submits (Bt_Post_Coroutine k out) = True"
| "submits _ = False"

lemma bt_inv_run:
  assumes laws: "io_context_laws io"
  shows "bt_inv io n m s \<Longrightarrow> bt_run io s as = Some t \<Longrightarrow> Bt_Stop \<notin> set as \<Longrightarrow> bt_inv io n m t"
proof (induction as arbitrary: s)
  case (Cons a as)
  then obtain u where u: "bt_step io s a = Some u" "bt_run io u as = Some t"
    by (auto split: option.splits)
  have "bt_inv io n m u"
  proof (cases "submits a")
    case True
    have ok: "context_ok io (normal_io_context s) (normal_threads s)"
      "context_ok io (coroutine_io_context s) (coroutine_threads s)"
      using Cons.prems(1) by (simp_all add: bt_inv_def)
    obtain out where "bt_submitted u = bt_submitted s @ [out]"
      "\<And>q v. bt_owed io u q v \<longleftrightarrow> q = length (bt_submitted s) \<and> v = out \<or> bt_owed io s q v"
      "bt_promises u = bt_promises s"
      "normal_threads u = normal_threads s" "coroutine_threads u = coroutine_threads s"
      "bt_awaiting u = bt_awaiting s"
      "context_ok io (normal_io_context u) (normal_threads s)"
      "context_ok io (coroutine_io_context u) (coroutine_threads s)"
    proof (cases a)
      case (Bt_Post out)
      show thesis
        by (rule that [of out]) (use u(1) Bt_Post ok in \<open>auto simp: bt_post_def Let_def
            bt_owed_def owed_post [OF laws] context_ok_post [OF laws]\<close>)
    next
      case (Bt_Post_Coroutine k out)
      show thesis
        by (rule that [of out]) (use u(1) Bt_Post_Coroutine ok in \<open>auto simp: post_coroutine_def
            Let_def bt_owed_def owed_post [OF laws] context_ok_post [OF laws]\<close>)
    qed (use True in simp_all)
    then show ?thesis by (intro bt_inv_post [OF laws Cons.prems(1)])
  next
    case False
    with Cons.prems obtain i where "a = Bt_Normal i \<or> a = Bt_Coroutine i \<or> a = Bt_Ready i" by (cases a) auto
    with bt_inv_work [OF laws Cons.prems(1) u(1)] show ?thesis by blast
  qed
  with Cons u show ?case by simp
qed simp

lemma bt_inv_init: "io_context_laws io \<Longrightarrow> bt_inv io n m (make_bt_pool io n m)"
  by (auto simp: make_bt_pool_def bt_inv_def context_ok_def bt_owed_def owed_def io_laws)

lemma bt_idle:
  assumes laws: "io_context_laws io" and inv: "bt_inv io n m s" and pos: "n > 0" "m > 0"
    and idle: "\<And>i. bt_step io s (Bt_Normal i) = None" "\<And>i. bt_step io s (Bt_Coroutine i) = None"
    and p: "p < length (bt_submitted s)"
  shows "bt_promises s p = Some (bt_submitted s ! p) \<or> (\<exists>k. Coroutine p k (bt_submitted s ! p) \<in> set (bt_awaiting s))"
proof -
  have "run_worker io i (normal_io_context s) (normal_threads s) = None"
    "run_worker io i (coroutine_io_context s) (coroutine_threads s) = None" for i
    using idle [of i] by (auto simp: normal_step_def coroutine_step_def split: option.splits)
  then have "\<not> owed io (normal_io_context s) (normal_threads s) q v"
    "\<not> owed io (coroutine_io_context s) (coroutine_threads s) q v" for q v
    using idle_owes_nothing [OF laws] inv pos unfolding bt_inv_def by fastforce+
  with inv p consider "bt_promises s p = Some (bt_submitted s ! p)"
    | h where "h \<in> set (bt_awaiting s)" "owes p (bt_submitted s ! p) h"
    unfolding bt_inv_def bt_owed_def by blast
  then show ?thesis
  proof cases
    case (2 h)
    with inv have "is_coro h" by (simp add: bt_inv_def)
    then obtain q k v where "h = Coroutine q k v" by (cases h) auto
    with 2 show ?thesis by auto
  qed simp
qed

lemma bt_run_bound:
  assumes laws: "io_context_laws io"
  shows "bt_inv io n m s \<Longrightarrow> bt_run io s bs = Some t \<Longrightarrow> \<forall>b \<in> set bs. \<not> submits b \<and> b \<noteq> Bt_Stop \<Longrightarrow>
    length bs \<le> bt_work io s"
proof (induction bs arbitrary: s)
  case (Cons b bs)
  then obtain u where u: "bt_step io s b = Some u" "bt_run io u bs = Some t"
    by (auto split: option.splits)
  from Cons.prems(3) obtain i where "b = Bt_Normal i \<or> b = Bt_Coroutine i \<or> b = Bt_Ready i" by (cases b) auto
  from bt_inv_work [OF laws Cons.prems(1) u(1) this] Cons.IH [of u] u(2) Cons.prems(3) show ?case
    by simp
qed simp

text \<open>
  C11: As long as nobody calls \<open>stop\<close>, a pool with at least one thread for functions and
  one for coroutines makes progress whatever the schedule, with coroutines that suspend on
  timers and channels. From every state a history of submissions, dispatches and completions
  leads to: every sequence of further dispatches and completions of awaited operations has at
  most \<open>bt_work\<close> steps; and when no worker can dispatch anything, every submitted function and
  every coroutine that does not await an operation has fulfilled its promise. A fulfilled promise
  always holds the value or the exception of its own submission. In particular no worker is
  ever held by a coroutine that awaits.
\<close>

theorem bt_pool_always_completes:
  assumes "io_context_laws io" "n > 0" "m > 0"
    "bt_run io (make_bt_pool io n m) as = Some s" "Bt_Stop \<notin> set as"
  shows "(\<forall>bs t. bt_run io s bs = Some t \<and> (\<forall>b \<in> set bs. \<not> submits b \<and> b \<noteq> Bt_Stop) \<longrightarrow> length bs \<le> bt_work io s) \<and>
    ((\<forall>i. bt_step io s (Bt_Normal i) = None \<and> bt_step io s (Bt_Coroutine i) = None) \<longrightarrow>
      (\<forall>p < length (bt_submitted s). bt_promises s p = Some (bt_submitted s ! p) \<or>
         (\<exists>k. Coroutine p k (bt_submitted s ! p) \<in> set (bt_awaiting s)))) \<and>
    (\<forall>p v. bt_promises s p = Some v \<longrightarrow> p < length (bt_submitted s) \<and> v = bt_submitted s ! p)"
proof -
  note inv = bt_inv_run [OF assms(1) bt_inv_init [OF assms(1)] assms(4,5)]
  have "\<forall>p v. bt_promises s p = Some v \<longrightarrow> p < length (bt_submitted s) \<and> v = bt_submitted s ! p"
    using inv unfolding bt_inv_def by blast
  then show ?thesis
    using bt_run_bound [OF assms(1) inv] bt_idle [OF assms(1) inv assms(2,3)] by blast
qed

lemmas bt_exec = make_bt_pool_def bt_post_def post_coroutine_def run_worker_def normal_step_def
  coroutine_step_def await_ready_def bt_stop_step_def fifo_def fifo_pop_def

text \<open>The second coroutine still awaits; the worker is free and has finished the first.\<close>

theorem bt_pool_always_completes_witness:
  "\<exists>s. bt_run fifo (make_bt_pool fifo 1 1)
      [Bt_Post_Coroutine 1 (Returns (7 :: int)), Bt_Coroutine 0, Bt_Coroutine 0, Bt_Post_Coroutine 0 (Returns 123),
       Bt_Coroutine 0, Bt_Coroutine 0] = Some s \<and>
     bt_promises s 1 = Some (Returns 123) \<and> Coroutine 0 0 (Returns 7) \<in> set (bt_awaiting s) \<and>
     (\<forall>bs t. bt_run fifo s bs = Some t \<and> (\<forall>b \<in> set bs. \<not> submits b \<and> b \<noteq> Bt_Stop) \<longrightarrow> length bs \<le> 3)"
proof -
  let ?as = "[Bt_Post_Coroutine 1 (Returns (7 :: int)), Bt_Coroutine 0, Bt_Coroutine 0,
      Bt_Post_Coroutine 0 (Returns 123), Bt_Coroutine 0, Bt_Coroutine 0]"
  obtain s where s: "bt_run fifo (make_bt_pool fifo 1 1) ?as = Some s"
    "bt_submitted s = [Returns 7, Returns 123]" "bt_awaiting s = [Coroutine 0 0 (Returns 7)]"
    "bt_promises s 1 = Some (Returns 123)" "bt_promises s 0 = None" "bt_work fifo s = 3"
    "\<forall>i. bt_step fifo s (Bt_Normal i) = None \<and> bt_step fifo s (Bt_Coroutine i) = None"
    by (simp add: bt_exec bt_work_def context_work_def parked_work_def)
  have "Bt_Stop \<notin> set ?as" by simp
  note bound = bt_pool_always_completes [OF fifo_laws _ _ s(1) this]
  have "\<forall>bs t. bt_run fifo s bs = Some t \<and> (\<forall>b \<in> set bs. \<not> submits b \<and> b \<noteq> Bt_Stop) \<longrightarrow> length bs \<le> 3"
    using bound s(6) by simp
  with s(1,3,4) show ?thesis by simp
qed

section \<open>After stop\<close>

definition bt_stop_schedule :: "int bt_action list" where
  "bt_stop_schedule = [Bt_Stop, Bt_Stop, Bt_Normal 0, Bt_Coroutine 0, Bt_Stop, Bt_Stop, Bt_Stop, Bt_Stop]"

lemma bt_no_workers:
  "normal_threads s = [] \<Longrightarrow> coroutine_threads s = [] \<Longrightarrow> bt_stopping s = Bt_Stopped \<Longrightarrow>
   bt_run io s as = Some t \<Longrightarrow> bt_promises t = bt_promises s"
proof (induction as arbitrary: s)
  case (Cons a as)
  then obtain u where u: "bt_step io s a = Some u" "bt_run io u as = Some t"
    by (auto split: option.splits)
  then have "normal_threads u = []" "coroutine_threads u = []" "bt_stopping u = Bt_Stopped"
    "bt_promises u = bt_promises s"
    using Cons.prems by (cases a; auto simp: bt_post_def post_coroutine_def Let_def
        normal_step_def coroutine_step_def run_worker_def await_ready_def bt_stop_step_def split: if_splits)+
  with Cons.IH [of u] u(2) show ?case by simp
qed simp

text \<open>
  Unlike the other pool, this one has no flag that tells submissions that it has been
  stopped: after \<open>stop\<close> has returned, \<open>post\<close> still accepts a function and hands out a
  future, and whatever is done afterwards that future never becomes ready.
\<close>

theorem bt_post_after_stop_never_runs:
  "\<exists>s p u. bt_run fifo (make_bt_pool fifo 1 1) bt_stop_schedule = Some s \<and>
     bt_stopping s = Bt_Stopped \<and> bt_post fifo (Returns (1 :: int)) s = (p, u) \<and>
     (\<forall>as t. bt_run fifo u as = Some t \<longrightarrow> bt_promises t p = None)"
proof -
  obtain s where s: "bt_run fifo (make_bt_pool fifo 1 1) bt_stop_schedule = Some s"
    "bt_stopping s = Bt_Stopped" "normal_threads s = []" "coroutine_threads s = []"
    "bt_promises s = (\<lambda>_. None)"
    by (simp add: bt_exec bt_stop_schedule_def)
  obtain p u where u: "bt_post fifo (Returns (1 :: int)) s = (p, u)" by fastforce
  then have "normal_threads u = []" "coroutine_threads u = []" "bt_stopping u = Bt_Stopped"
    "bt_promises u = (\<lambda>_. None)"
    using s by (auto simp: bt_post_def Let_def)
  with bt_no_workers [of u fifo] s u show ?thesis by fastforce
qed

theorem bt_post_after_stop_never_runs_witness:
  "\<exists>s p u. bt_run fifo (make_bt_pool fifo 1 1) bt_stop_schedule = Some s \<and>
     bt_post fifo (Returns (1 :: int)) s = (p, u) \<and> bt_promises u p = None"
  using bt_post_after_stop_never_runs bt_run.simps(1) by blast

end
