(* ===== verification/Logging.thy ===== *)
theory Logging
  imports Prelude
begin

text \<open>
  The logging front end of \<open>src/utils/logging\<close>: \<open>init_logging\<close> with its level names,
  \<open>flush_logging\<close>, the format macros and the stream class. spdlog is a library the sources
  only call: its registry and loggers are an opaque state, its functions the argument \<open>sp\<close>
  of the definitions, and \<open>spdlog_laws\<close> states what its documentation says of them. A call
  that would crash the program has the value \<open>None\<close>.
\<close>

section \<open>Levels\<close>

datatype level = Trace | Debug | Info | Warn | Err | Critical | Off

fun level_rank :: "level \<Rightarrow> nat" where
  "level_rank Trace = 0"
| "level_rank Debug = 1"
| "level_rank Info = 2"
| "level_rank Warn = 3"
| "level_rank Err = 4"
| "level_rank Critical = 5"
| "level_rank Off = 6"

lemma level_rank_inject: "level_rank a = level_rank b \<longleftrightarrow> a = b"
  by (cases a; cases b) auto

instantiation level :: linorder
begin

definition less_eq_level :: "level \<Rightarrow> level \<Rightarrow> bool" where
  "less_eq_level a b \<longleftrightarrow> level_rank a \<le> level_rank b"

definition less_level :: "level \<Rightarrow> level \<Rightarrow> bool" where
  "less_level a b \<longleftrightarrow> level_rank a < level_rank b"

instance
  by standard (auto simp: less_eq_level_def less_level_def level_rank_inject)

end

section \<open>spdlog\<close>

record source_loc =
  file_name :: string
  line :: nat
  function_name :: string

record entry =
  entry_loc :: source_loc
  entry_level :: level
  entry_text :: string

text \<open>
  \<open>sp_make name log_file max_size max_files\<close> creates the two sinks and the logger (\<open>None\<close>:
  \<open>spdlog_ex\<close>, the file cannot be opened); \<open>sp_level\<close> and \<open>sp_written\<close> read a logger's level
  and what it has passed to its sinks.
\<close>

record ('l, 'r) spdlog_ops =
  sp_make :: "string \<Rightarrow> string \<Rightarrow> nat \<Rightarrow> nat \<Rightarrow> 'r \<Rightarrow> ('l \<times> 'r) option"
  sp_set_default_logger :: "string \<Rightarrow> 'l \<Rightarrow> 'r \<Rightarrow> 'r"
  sp_set_global_level :: "level \<Rightarrow> 'r \<Rightarrow> 'r"
  sp_set_level :: "'l \<Rightarrow> level \<Rightarrow> 'r \<Rightarrow> 'r"
  sp_set_pattern :: "string \<Rightarrow> 'r \<Rightarrow> 'r"
  sp_get :: "string \<Rightarrow> 'r \<Rightarrow> 'l option"
  sp_flush_on :: "'l \<Rightarrow> level \<Rightarrow> 'r \<Rightarrow> 'r"
  sp_flush :: "'l \<Rightarrow> 'r \<Rightarrow> 'r"
  sp_log :: "'l \<Rightarrow> entry \<Rightarrow> 'r \<Rightarrow> 'r"
  sp_level :: "'l \<Rightarrow> 'r \<Rightarrow> level"
  sp_written :: "'l \<Rightarrow> 'r \<Rightarrow> entry list"

definition spdlog_laws :: "('l, 'r) spdlog_ops \<Rightarrow> bool" where
  "spdlog_laws sp \<longleftrightarrow>
     (\<forall>n l r. sp_get sp n (sp_set_default_logger sp n l r) = Some l) \<and>
     (\<forall>n v r. sp_get sp n (sp_set_global_level sp v r) = sp_get sp n r) \<and>
     (\<forall>n l v r. sp_get sp n (sp_set_level sp l v r) = sp_get sp n r) \<and>
     (\<forall>n p r. sp_get sp n (sp_set_pattern sp p r) = sp_get sp n r) \<and>
     (\<forall>n l v r. sp_get sp n (sp_flush_on sp l v r) = sp_get sp n r) \<and>
     (\<forall>n l r. sp_get sp n (sp_flush sp l r) = sp_get sp n r) \<and>
     (\<forall>n l e r. sp_get sp n (sp_log sp l e r) = sp_get sp n r) \<and>
     (\<forall>l v r. sp_level sp l (sp_set_level sp l v r) = v) \<and>
     (\<forall>l p r. sp_level sp l (sp_set_pattern sp p r) = sp_level sp l r) \<and>
     (\<forall>l e r. sp_level sp l (sp_log sp l e r) = sp_level sp l r) \<and>
     (\<forall>l e r. sp_written sp l (sp_log sp l e r) =
        (if sp_level sp l r \<le> entry_level e then sp_written sp l r @ [e] else sp_written sp l r))"

text \<open>
  An instance for the witnesses: loggers are numbers, the state has the registered names
  and per logger its level and output.
\<close>

record toy_registry =
  toy_names :: "(string \<times> nat) list"
  toy_levels :: "nat \<Rightarrow> level"
  toy_output :: "nat \<Rightarrow> entry list"
  toy_next :: nat

definition toy_spdlog :: "(nat, toy_registry) spdlog_ops" where
  "toy_spdlog = \<lparr>
     sp_make = (\<lambda>n f size files r. if f = [] then None else Some (toy_next r, r\<lparr>toy_next := Suc (toy_next r)\<rparr>)),
     sp_set_default_logger = (\<lambda>n l r. r\<lparr>toy_names := (n, l) # toy_names r\<rparr>),
     sp_set_global_level = (\<lambda>v r. r\<lparr>toy_levels := (\<lambda>_. v)\<rparr>),
     sp_set_level = (\<lambda>l v r. r\<lparr>toy_levels := (toy_levels r)(l := v)\<rparr>),
     sp_set_pattern = (\<lambda>p r. r),
     sp_get = (\<lambda>n r. map_of (toy_names r) n),
     sp_flush_on = (\<lambda>l v r. r),
     sp_flush = (\<lambda>l r. r),
     sp_log = (\<lambda>l e r. if toy_levels r l \<le> entry_level e
        then r\<lparr>toy_output := (toy_output r)(l := toy_output r l @ [e])\<rparr> else r),
     sp_level = (\<lambda>l r. toy_levels r l),
     sp_written = (\<lambda>l r. toy_output r l) \<rparr>"

definition toy_empty :: toy_registry where
  "toy_empty = \<lparr>toy_names = [], toy_levels = (\<lambda>_. Info), toy_output = (\<lambda>_. []), toy_next = 0\<rparr>"

lemma toy_spdlog_laws: "spdlog_laws toy_spdlog"
  unfolding spdlog_laws_def toy_spdlog_def by (intro conjI allI) simp_all

section \<open>logging.cpp\<close>

record ('l, 'r) log_state =
  g_logger :: "'l option"
  spdlog :: 'r

definition log_start :: "'r \<Rightarrow> ('l, 'r) log_state" where
  "log_start r = \<lparr>g_logger = None, spdlog = r\<rparr>"

text \<open>\<open>::tolower\<close> in the "C" locale.\<close>

definition tolower :: "char \<Rightarrow> char" where
  "tolower c = (if 65 \<le> (of_char c :: nat) \<and> (of_char c :: nat) \<le> 90
                then char_of (of_char c + 32 :: nat) else c)"

definition parse_level :: "string \<Rightarrow> level" where
  "parse_level log_level =
     (let lower_level = map tolower log_level in
      if lower_level = ''trace'' then Trace
      else if lower_level = ''debug'' then Debug
      else if lower_level = ''info'' then Info
      else if lower_level = ''warning'' then Warn
      else if lower_level = ''error'' then Err
      else if lower_level = ''fatal'' then Critical
      else Info)"

definition log_pattern :: string where
  "log_pattern = ''[%Y-%m-%d %H:%M:%S.%e] [%^%l%$] [%t] [%g:%#] %v''"

text \<open>\<open>init_logging\<close>: the answer and the new state; an exception leaves the state as it was.\<close>

definition init_logging ::
  "('l, 'r) spdlog_ops \<Rightarrow> string \<Rightarrow> string \<Rightarrow> ('l, 'r) log_state \<Rightarrow> int \<times> ('l, 'r) log_state" where
  "init_logging sp log_name log_level s =
     (case sp_make sp ''multi_sink'' log_name 10485760 10 (spdlog s) of
        None \<Rightarrow> (-1, s)
      | Some (logger, r1) \<Rightarrow>
          (let r2 = sp_set_default_logger sp ''multi_sink'' logger r1;
               lv = parse_level log_level;
               r3 = sp_set_global_level sp lv r2;
               r4 = sp_set_level sp logger lv r3;
               r5 = sp_set_pattern sp log_pattern r4
           in (0, s\<lparr>g_logger := Some logger, spdlog := r5\<rparr>)))"

text \<open>\<open>flush_logging\<close>: \<open>spdlog::get\<close> yields a null pointer for a name not registered.\<close>

definition flush_logging ::
  "('l, 'r) spdlog_ops \<Rightarrow> ('l, 'r) log_state \<Rightarrow> ('l, 'r) log_state option" where
  "flush_logging sp s =
     (let r1 = (case g_logger s of Some l \<Rightarrow> sp_flush_on sp l Critical (spdlog s) | None \<Rightarrow> spdlog s)
      in case sp_get sp ''multi_sink'' r1 of
           None \<Rightarrow> None
         | Some l \<Rightarrow> Some (s\<lparr>spdlog := sp_flush sp l r1\<rparr>))"

definition get_default_logger :: "('l, 'r) log_state \<Rightarrow> 'l option" where
  "get_default_logger s = g_logger s"

section \<open>The format macros\<close>

text \<open>
  \<open>UTILS_SPDLOG_LOG_X(fmt, ...)\<close>; \<open>msg\<close> is the text \<open>fmt\<close> gives with its arguments.
\<close>

definition spdlog_log_macro ::
  "('l, 'r) spdlog_ops \<Rightarrow> level \<Rightarrow> source_loc \<Rightarrow> string \<Rightarrow> ('l, 'r) log_state \<Rightarrow> ('l, 'r) log_state"
  where
  "spdlog_log_macro sp lv loc msg s =
     (case get_default_logger s of
        None \<Rightarrow> s
      | Some logger \<Rightarrow>
          s\<lparr>spdlog := sp_log sp logger \<lparr>entry_loc = loc, entry_level = lv, entry_text = msg\<rparr>
                      (spdlog s)\<rparr>)"

definition UTILS_SPDLOG_LOG_TRACE ::
  "('l, 'r) spdlog_ops \<Rightarrow> source_loc \<Rightarrow> string \<Rightarrow> ('l, 'r) log_state \<Rightarrow> ('l, 'r) log_state" where
  "UTILS_SPDLOG_LOG_TRACE sp = spdlog_log_macro sp Trace"

definition UTILS_SPDLOG_LOG_DEBUG ::
  "('l, 'r) spdlog_ops \<Rightarrow> source_loc \<Rightarrow> string \<Rightarrow> ('l, 'r) log_state \<Rightarrow> ('l, 'r) log_state" where
  "UTILS_SPDLOG_LOG_DEBUG sp = spdlog_log_macro sp Debug"

definition UTILS_SPDLOG_LOG_INFO ::
  "('l, 'r) spdlog_ops \<Rightarrow> source_loc \<Rightarrow> string \<Rightarrow> ('l, 'r) log_state \<Rightarrow> ('l, 'r) log_state" where
  "UTILS_SPDLOG_LOG_INFO sp = spdlog_log_macro sp Info"

definition UTILS_SPDLOG_LOG_WARN ::
  "('l, 'r) spdlog_ops \<Rightarrow> source_loc \<Rightarrow> string \<Rightarrow> ('l, 'r) log_state \<Rightarrow> ('l, 'r) log_state" where
  "UTILS_SPDLOG_LOG_WARN sp = spdlog_log_macro sp Warn"

definition UTILS_SPDLOG_LOG_ERROR ::
  "('l, 'r) spdlog_ops \<Rightarrow> source_loc \<Rightarrow> string \<Rightarrow> ('l, 'r) log_state \<Rightarrow> ('l, 'r) log_state" where
  "UTILS_SPDLOG_LOG_ERROR sp = spdlog_log_macro sp Err"

definition UTILS_SPDLOG_LOG_FATAL ::
  "('l, 'r) spdlog_ops \<Rightarrow> source_loc \<Rightarrow> string \<Rightarrow> ('l, 'r) log_state \<Rightarrow> ('l, 'r) log_state" where
  "UTILS_SPDLOG_LOG_FATAL sp = spdlog_log_macro sp Critical"

section \<open>LogStream\<close>

record 'l log_stream =
  ls_level :: level
  ls_loc :: source_loc
  ls_stream :: string
  ls_logger :: "'l option"

definition LogStream :: "level \<Rightarrow> source_loc \<Rightarrow> ('l, 'r) log_state \<Rightarrow> 'l log_stream" where
  "LogStream level loc s =
     \<lparr>ls_level = level, ls_loc = loc, ls_stream = [], ls_logger = get_default_logger s\<rparr>"

text \<open>\<open>stream << value\<close> with the text the value prints as, and \<open>stream << std::endl\<close>.\<close>

definition stream_value :: "string \<Rightarrow> 'l log_stream \<Rightarrow> 'l log_stream" where
  "stream_value text ls = ls\<lparr>ls_stream := ls_stream ls @ text\<rparr>"

definition stream_manip :: "(string \<Rightarrow> string) \<Rightarrow> 'l log_stream \<Rightarrow> 'l log_stream" where
  "stream_manip manip ls = ls\<lparr>ls_stream := manip (ls_stream ls)\<rparr>"

definition end_LogStream ::
  "('l, 'r) spdlog_ops \<Rightarrow> 'l log_stream \<Rightarrow> ('l, 'r) log_state \<Rightarrow> ('l, 'r) log_state" where
  "end_LogStream sp ls s =
     (case ls_logger ls of
        None \<Rightarrow> s
      | Some logger \<Rightarrow>
          (let msg = ls_stream ls in
           if msg \<noteq> []
           then s\<lparr>spdlog := sp_log sp logger \<lparr>entry_loc = ls_loc ls, entry_level = ls_level ls,
                                               entry_text = msg\<rparr> (spdlog s)\<rparr>
           else s))"

text \<open>
  \<open>UTILS_LOG(L) << v1 << v2 ...;\<close> the level name after \<open>##\<close> must be one of the six; any
  other does not compile (\<open>None\<close>).
\<close>

definition stream_level :: "string \<Rightarrow> level option" where
  "stream_level name =
     map_of [(''TRACE'', Trace), (''DEBUG'', Debug), (''INFO'', Info), (''WARN'', Warn),
             (''ERROR'', Err), (''FATAL'', Critical)] name"

definition UTILS_LOG ::
  "('l, 'r) spdlog_ops \<Rightarrow> string \<Rightarrow> source_loc \<Rightarrow> string list \<Rightarrow> ('l, 'r) log_state \<Rightarrow>
     ('l, 'r) log_state option" where
  "UTILS_LOG sp name loc texts s =
     (case stream_level name of
        None \<Rightarrow> None
      | Some level \<Rightarrow> Some (end_LogStream sp (fold stream_value texts (LogStream level loc s)) s))"

section \<open>Properties\<close>

lemma spdlog_facts:
  assumes "spdlog_laws sp"
  shows sp_get_default: "sp_get sp n (sp_set_default_logger sp n l r) = Some l"
    and sp_get_other: "sp_get sp n (sp_set_global_level sp v r) = sp_get sp n r"
      "sp_get sp n (sp_set_level sp l v r) = sp_get sp n r"
      "sp_get sp n (sp_set_pattern sp p r) = sp_get sp n r"
      "sp_get sp n (sp_flush_on sp l v r) = sp_get sp n r"
      "sp_get sp n (sp_flush sp l r) = sp_get sp n r"
      "sp_get sp n (sp_log sp l e r) = sp_get sp n r"
    and sp_level_set: "sp_level sp l (sp_set_level sp l v r) = v"
      "sp_level sp l (sp_set_pattern sp p r) = sp_level sp l r"
      "sp_level sp l (sp_log sp l e r) = sp_level sp l r"
    and sp_written_log: "sp_written sp l (sp_log sp l e r) =
        (if sp_level sp l r \<le> entry_level e then sp_written sp l r @ [e] else sp_written sp l r)"
  using assms unfolding spdlog_laws_def by simp_all

lemma init_logging_ok:
  assumes "spdlog_laws sp" "init_logging sp name lv s = (0, s')"
  shows "\<exists>l. g_logger s' = Some l \<and> sp_level sp l (spdlog s') = parse_level lv \<and>
             sp_get sp ''multi_sink'' (spdlog s') = Some l"
  using assms(2)
  by (auto simp: init_logging_def Let_def sp_get_default [OF assms(1)] sp_get_other [OF assms(1)]
      sp_level_set [OF assms(1)] split: option.splits)

text \<open>
  After \<open>init_logging\<close> has answered 0, a log macro of level \<open>v\<close> passes exactly its
  message, with its level and source location, to the sinks when \<open>v\<close> is at least the level
  the string was parsed to, and nothing otherwise; the stream macro does the same with the
  concatenation of the streamed values, except that it drops an empty message.
\<close>

theorem logging_filters_by_level:
  assumes "spdlog_laws sp" "init_logging sp name lv s = (0, s')"
  shows "\<exists>l. g_logger s' = Some l \<and>
     sp_written sp l (spdlog (spdlog_log_macro sp v loc msg s')) =
       sp_written sp l (spdlog s') @
       (if parse_level lv \<le> v then [\<lparr>entry_loc = loc, entry_level = v, entry_text = msg\<rparr>] else []) \<and>
     sp_written sp l (spdlog (end_LogStream sp (fold stream_value texts (LogStream v loc s')) s')) =
       sp_written sp l (spdlog s') @
       (if parse_level lv \<le> v \<and> concat texts \<noteq> []
        then [\<lparr>entry_loc = loc, entry_level = v, entry_text = concat texts\<rparr>] else [])"
proof -
  obtain l where l: "g_logger s' = Some l" "sp_level sp l (spdlog s') = parse_level lv"
    using init_logging_ok [OF assms] by blast
  have "fold stream_value texts ls = ls\<lparr>ls_stream := ls_stream ls @ concat texts\<rparr>"
    for ls :: "'a log_stream"
    by (induction texts arbitrary: ls) (simp_all add: stream_value_def)
  then show ?thesis
    using l by (auto simp: spdlog_log_macro_def get_default_logger_def end_LogStream_def
        LogStream_def Let_def sp_written_log [OF assms(1)])
qed

definition loc0 :: source_loc where
  "loc0 = \<lparr>file_name = ''main.cpp'', line = 7, function_name = ''main''\<rparr>"

theorem logging_filters_by_level_witness:
  "\<exists>s l. init_logging toy_spdlog ''test.log'' ''INFO'' (log_start toy_empty) = (0, s) \<and>
     g_logger s = Some l \<and>
     sp_written toy_spdlog l (spdlog (spdlog_log_macro toy_spdlog Debug loc0 ''x'' s)) =
       sp_written toy_spdlog l (spdlog s) \<and>
     sp_written toy_spdlog l (spdlog (spdlog_log_macro toy_spdlog Err loc0 ''x'' s)) =
       sp_written toy_spdlog l (spdlog s) @
         [\<lparr>entry_loc = loc0, entry_level = Err, entry_text = ''x''\<rparr>]"
proof -
  obtain s where s: "init_logging toy_spdlog ''test.log'' ''INFO'' (log_start toy_empty) = (0, s)"
    by (simp add: init_logging_def toy_spdlog_def toy_empty_def log_start_def Let_def)
  have p: "parse_level ''INFO'' = Info" by (simp add: parse_level_def tolower_def Let_def)
  show ?thesis
    using logging_filters_by_level [OF toy_spdlog_laws s, of Debug loc0 "''x''" "[]"]
      logging_filters_by_level [OF toy_spdlog_laws s, of Err loc0 "''x''" "[]"] s
    by (auto simp: p less_eq_level_def)
qed

text \<open>
  The level string: the six names are recognised in any mixture of upper and lower
  case, and every other string, \<open>warn\<close> included (the name spdlog and the \<open>WARN\<close> macros
  use), silently means \<open>info\<close>.
\<close>

theorem parse_level_table:
  "parse_level s =
     (if map tolower s \<in> {''trace'', ''debug'', ''warning'', ''error'', ''fatal''}
      then the (map_of [(''trace'', Trace), (''debug'', Debug), (''warning'', Warn),
                        (''error'', Err), (''fatal'', Critical)] (map tolower s))
      else Info) \<and>
   parse_level (map tolower s) = parse_level s \<and> parse_level ''warn'' = Info \<and>
   parse_level ''WARNING'' = Warn"
proof -
  have "tolower (tolower c) = tolower c" for c
    by (auto simp: tolower_def)
  then have "map tolower (map tolower s) = map tolower s" by simp
  then have "parse_level (map tolower s) = parse_level s" by (simp only: parse_level_def)
  moreover have "parse_level ''warn'' = Info" "parse_level ''WARNING'' = Warn"
    by code_simp+
  ultimately show ?thesis by (simp add: parse_level_def Let_def)
qed

section \<open>Whole programs\<close>

text \<open>A program's calls of the logging interface, in order; \<open>None\<close> when one of them crashes.\<close>

datatype log_call = Init string string | Log level source_loc string
  | Stream level source_loc "string list" | Flush

fun log_step ::
  "('l, 'r) spdlog_ops \<Rightarrow> ('l, 'r) log_state \<Rightarrow> log_call \<Rightarrow> ('l, 'r) log_state option" where
  "log_step sp s (Init name lv) = Some (snd (init_logging sp name lv s))"
| "log_step sp s (Log v loc msg) = Some (spdlog_log_macro sp v loc msg s)"
| "log_step sp s (Stream v loc texts) =
     Some (end_LogStream sp (fold stream_value texts (LogStream v loc s)) s)"
| "log_step sp s Flush = flush_logging sp s"

fun log_run ::
  "('l, 'r) spdlog_ops \<Rightarrow> ('l, 'r) log_state \<Rightarrow> log_call list \<Rightarrow> ('l, 'r) log_state option" where
  "log_run sp s [] = Some s"
| "log_run sp s (c # cs) = (case log_step sp s c of None \<Rightarrow> None | Some t \<Rightarrow> log_run sp t cs)"

definition registered :: "('l, 'r) spdlog_ops \<Rightarrow> ('l, 'r) log_state \<Rightarrow> bool" where
  "registered sp s \<longleftrightarrow> (\<exists>l. sp_get sp ''multi_sink'' (spdlog s) = Some l)"

lemma flush_crash: "spdlog_laws sp \<Longrightarrow> flush_logging sp s = None \<longleftrightarrow> \<not> registered sp s"
  by (auto simp: flush_logging_def registered_def Let_def sp_get_other split: option.splits)

lemma registered_step:
  assumes "spdlog_laws sp" "log_step sp s c = Some t" "registered sp s"
  shows "registered sp t"
proof (cases c)
  case (Init name lv)
  show ?thesis
  proof (cases "fst (init_logging sp name lv s) = 0")
    case True
    then have "init_logging sp name lv s = (0, t)" using Init assms(2) by (cases "init_logging sp name lv s") simp
    then show ?thesis using init_logging_ok [OF assms(1), of name lv s t] by (auto simp: registered_def)
  next
    case False
    then have "t = s" using Init assms(2)
      by (auto simp: init_logging_def Let_def split: option.splits)
    with assms(3) show ?thesis by simp
  qed
qed (use assms in \<open>auto simp: registered_def spdlog_log_macro_def end_LogStream_def flush_logging_def
      Let_def sp_get_other get_default_logger_def split: option.splits if_splits\<close>)

lemma registered_run:
  "spdlog_laws sp \<Longrightarrow> registered sp s \<Longrightarrow> \<exists>t. log_run sp s cs = Some t"
proof (induction cs arbitrary: s)
  case (Cons c cs)
  have "log_step sp s c \<noteq> None"
    using Cons.prems flush_crash [of sp s] by (cases c) auto
  then obtain t where t: "log_step sp s c = Some t" by blast
  from Cons.IH [OF Cons.prems(1) registered_step [OF Cons.prems(1) t Cons.prems(2)]] t show ?case
    by simp
qed simp

text \<open>
  A program that has initialised the logging once successfully never crashes in it
  again, whatever it logs, flushes or initialises (also unsuccessfully) later; flushing
  before that (no logger of the name is registered yet) dereferences a null pointer.
\<close>

theorem logging_safe_after_init:
  assumes "spdlog_laws sp" "init_logging sp name lv s0 = (0, s)"
  shows "(\<exists>t. log_run sp s calls = Some t) \<and>
         (sp_get sp ''multi_sink'' r = None \<longleftrightarrow> log_run sp (log_start r) [Flush] = None)"
proof -
  have "registered sp s" using init_logging_ok [OF assms] by (auto simp: registered_def)
  then show ?thesis
    using registered_run [OF assms(1)] flush_crash [OF assms(1), of "log_start r"]
    by (auto simp: registered_def log_start_def split: option.splits)
qed

theorem logging_safe_after_init_witness:
  "\<exists>s t. init_logging toy_spdlog ''test.log'' ''info'' (log_start toy_empty) = (0, s) \<and>
     log_run toy_spdlog s [Log Info loc0 ''x'', Init [] ''info'', Flush] = Some t \<and>
     log_run toy_spdlog (log_start toy_empty) [Flush] = None"
proof -
  obtain s where s: "init_logging toy_spdlog ''test.log'' ''info'' (log_start toy_empty) = (0, s)"
    by (simp add: init_logging_def toy_spdlog_def toy_empty_def log_start_def Let_def)
  have "sp_get toy_spdlog ''multi_sink'' toy_empty = None"
    by (simp add: toy_spdlog_def toy_empty_def)
  with s logging_safe_after_init [OF toy_spdlog_laws s,
      of "[Log Info loc0 ''x'', Init [] ''info'', Flush]" toy_empty]
  show ?thesis by blast
qed

end
