(* ===== verification/Bt_Nodes.thy ===== *)
theory Bt_Nodes
  imports Prelude
begin

text \<open>
  The behaviour tree nodes of \<open>src/behaviortree_test/sample_nodes\<close> and the trees of the
  tutorials that use them. BehaviorTree.CPP is a library the sources only call: its control
  nodes and its ports are arguments of the definitions (\<open>engine\<close>, \<open>ports\<close>), with what its
  documentation says of them as \<open>engine_laws\<close> and \<open>port_laws\<close>. A \<open>tick\<close> stands for
  \<open>tickWhileRunning\<close>: the world after the node has come to SUCCESS or FAILURE, or the text
  of the exception it threw.
\<close>

section \<open>The engine\<close>

datatype tick_status = SUCCESS | FAILURE | RUNNING

type_synonym 's tick = "'s \<Rightarrow> (tick_status \<times> 's, string) expected"

record 's engine =
  eng_sequence :: "'s tick list \<Rightarrow> 's tick"
  eng_fallback :: "'s tick list \<Rightarrow> 's tick"
  eng_inverter :: "'s tick \<Rightarrow> 's tick"
  eng_retry :: "nat \<Rightarrow> 's tick \<Rightarrow> 's tick"

definition engine_laws :: "'s engine \<Rightarrow> bool" where
  "engine_laws e \<longleftrightarrow>
     (\<forall>s. eng_sequence e [] s = Inr (SUCCESS, s)) \<and>
     (\<forall>c cs s. eng_sequence e (c # cs) s =
        (case c s of Inr (SUCCESS, t) \<Rightarrow> eng_sequence e cs t | r \<Rightarrow> r)) \<and>
     (\<forall>s. eng_fallback e [] s = Inr (FAILURE, s)) \<and>
     (\<forall>c cs s. eng_fallback e (c # cs) s =
        (case c s of Inr (FAILURE, t) \<Rightarrow> eng_fallback e cs t | r \<Rightarrow> r)) \<and>
     (\<forall>c s. eng_inverter e c s =
        (case c s of Inr (SUCCESS, t) \<Rightarrow> Inr (FAILURE, t) | Inr (FAILURE, t) \<Rightarrow> Inr (SUCCESS, t)
           | r \<Rightarrow> r)) \<and>
     (\<forall>c s. eng_retry e 0 c s = Inr (FAILURE, s)) \<and>
     (\<forall>n c s. eng_retry e (Suc n) c s =
        (case c s of Inr (FAILURE, t) \<Rightarrow> eng_retry e n c t | r \<Rightarrow> r))"

text \<open>An engine that has them, for the witnesses.\<close>

fun seq_tick :: "'s tick list \<Rightarrow> 's tick" where
  "seq_tick [] s = Inr (SUCCESS, s)"
| "seq_tick (c # cs) s = (case c s of Inr (SUCCESS, t) \<Rightarrow> seq_tick cs t | r \<Rightarrow> r)"

fun fallback_tick :: "'s tick list \<Rightarrow> 's tick" where
  "fallback_tick [] s = Inr (FAILURE, s)"
| "fallback_tick (c # cs) s = (case c s of Inr (FAILURE, t) \<Rightarrow> fallback_tick cs t | r \<Rightarrow> r)"

fun retry_tick :: "nat \<Rightarrow> 's tick \<Rightarrow> 's tick" where
  "retry_tick 0 c s = Inr (FAILURE, s)"
| "retry_tick (Suc n) c s = (case c s of Inr (FAILURE, t) \<Rightarrow> retry_tick n c t | r \<Rightarrow> r)"

definition invert_tick :: "'s tick \<Rightarrow> 's tick" where
  "invert_tick c s =
     (case c s of Inr (SUCCESS, t) \<Rightarrow> Inr (FAILURE, t) | Inr (FAILURE, t) \<Rightarrow> Inr (SUCCESS, t)
        | r \<Rightarrow> r)"

definition std_engine :: "'s engine" where
  "std_engine = \<lparr>eng_sequence = seq_tick, eng_fallback = fallback_tick,
                 eng_inverter = invert_tick, eng_retry = retry_tick\<rparr>"

lemma std_engine_fields:
  "eng_sequence std_engine = seq_tick" "eng_fallback std_engine = fallback_tick"
  "eng_inverter std_engine = invert_tick" "eng_retry std_engine = retry_tick"
  by (simp_all add: std_engine_def)

lemma std_engine_laws: "engine_laws std_engine"
  unfolding engine_laws_def std_engine_fields by (simp add: invert_tick_def)

lemma engine_facts:
  assumes "engine_laws e"
  shows eng_sequence_Nil: "eng_sequence e [] s = Inr (SUCCESS, s)"
    and eng_sequence_Cons: "eng_sequence e (c # cs) s =
        (case c s of Inr (SUCCESS, t) \<Rightarrow> eng_sequence e cs t | r \<Rightarrow> r)"
    and eng_fallback_Nil: "eng_fallback e [] s = Inr (FAILURE, s)"
    and eng_fallback_Cons: "eng_fallback e (c # cs) s =
        (case c s of Inr (FAILURE, t) \<Rightarrow> eng_fallback e cs t | r \<Rightarrow> r)"
    and eng_inverter_tick: "eng_inverter e c s =
        (case c s of Inr (SUCCESS, t) \<Rightarrow> Inr (FAILURE, t) | Inr (FAILURE, t) \<Rightarrow> Inr (SUCCESS, t)
           | r \<Rightarrow> r)"
    and eng_retry_0: "eng_retry e 0 c s = Inr (FAILURE, s)"
    and eng_retry_Suc: "eng_retry e (Suc n) c s =
        (case c s of Inr (FAILURE, t) \<Rightarrow> eng_retry e n c t | r \<Rightarrow> r)"
  using assms unfolding engine_laws_def by simp_all

lemmas engine_rules = eng_sequence_Nil eng_sequence_Cons eng_fallback_Nil eng_fallback_Cons
  eng_inverter_tick eng_retry_0 eng_retry_Suc

section \<open>CrossDoor\<close>

record cross_door =
  door_open :: bool
  door_locked :: bool
  pick_attempts :: int

definition cross_door0 :: cross_door where
  "cross_door0 = \<lparr>door_open = False, door_locked = True, pick_attempts = 0\<rparr>"

definition isDoorClosed :: "cross_door tick" where
  "isDoorClosed d = Inr (if \<not> door_open d then SUCCESS else FAILURE, d)"

definition passThroughDoor :: "cross_door tick" where
  "passThroughDoor d = Inr (if door_open d then SUCCESS else FAILURE, d)"

definition openDoor :: "cross_door tick" where
  "openDoor d =
     (if door_locked d then Inr (FAILURE, d) else Inr (SUCCESS, d\<lparr>door_open := True\<rparr>))"

definition pickLock :: "cross_door tick" where
  "pickLock d =
     (let d1 = d\<lparr>pick_attempts := pick_attempts d + 1\<rparr>;
          d2 = (if pick_attempts d > 3 then d1\<lparr>door_locked := False, door_open := True\<rparr> else d1)
      in Inr (if door_open d2 then SUCCESS else FAILURE, d2))"

definition smashDoor :: "cross_door tick" where
  "smashDoor d = Inr (SUCCESS, d\<lparr>door_locked := False, door_open := True\<rparr>)"

definition reset_door :: "cross_door \<Rightarrow> cross_door" where
  "reset_door d = d\<lparr>door_open := False, door_locked := True, pick_attempts := 0\<rparr>"

text \<open>The names the XML uses.\<close>

definition registerNodes :: "(string \<times> cross_door tick) list" where
  "registerNodes = [(''IsDoorClosed'', isDoorClosed), (''PassThroughDoor'', passThroughDoor),
     (''OpenDoor'', openDoor), (''PickLock'', pickLock), (''SmashDoor'', smashDoor)]"

definition door_node :: "string \<Rightarrow> cross_door tick" where
  "door_node name = (case map_of registerNodes name of Some t \<Rightarrow> t
     | None \<Rightarrow> (\<lambda>d. Inl (''unknown node '' @ name)))"

text \<open>The XML of \<open>007.crossdoor\<close>.\<close>

definition DoorClosed_tree :: "cross_door engine \<Rightarrow> cross_door tick" where
  "DoorClosed_tree e =
     eng_fallback e [door_node ''OpenDoor'', eng_retry e 5 (door_node ''PickLock''),
                     door_node ''SmashDoor'']"

definition CrossDoor_tree :: "cross_door engine \<Rightarrow> cross_door tick" where
  "CrossDoor_tree e =
     eng_sequence e
       [eng_fallback e [eng_inverter e (door_node ''IsDoorClosed''), DoorClosed_tree e],
        door_node ''PassThroughDoor'']"

definition crossdoor_main :: "cross_door engine \<Rightarrow> (tick_status \<times> cross_door, string) expected" where
  "crossdoor_main e = CrossDoor_tree e cross_door0"

lemma door_nodes [simp]:
  "door_node ''IsDoorClosed'' = isDoorClosed" "door_node ''PassThroughDoor'' = passThroughDoor"
  "door_node ''OpenDoor'' = openDoor" "door_node ''PickLock'' = pickLock"
  "door_node ''SmashDoor'' = smashDoor"
  by (simp_all add: door_node_def registerNodes_def)

text \<open>What \<open>n\<close> attempts at the lock of a closed door come to.\<close>

lemma retry_pickLock:
  assumes e: "engine_laws e" and "\<not> door_open d"
  shows "eng_retry e n pickLock d =
     (if pick_attempts d + int n > 4 \<and> n > 0
      then Inr (SUCCESS, d\<lparr>door_open := True, door_locked := False,
                           pick_attempts := max (pick_attempts d) 4 + 1\<rparr>)
      else Inr (FAILURE, d\<lparr>pick_attempts := pick_attempts d + int n\<rparr>))"
  using assms(2)
proof (induction n arbitrary: d)
  case 0
  then show ?case by (simp add: eng_retry_0 [OF e])
next
  case (Suc n)
  show ?case
  proof (cases "pick_attempts d > 3")
    case True
    with Suc.prems show ?thesis
      by (auto simp: eng_retry_Suc [OF e] pickLock_def Let_def max_def)
  next
    case False
    let ?d = "d\<lparr>pick_attempts := pick_attempts d + 1\<rparr>"
    have "pickLock d = Inr (FAILURE, ?d)"
      using False Suc.prems by (simp add: pickLock_def Let_def)
    moreover have "\<not> door_open ?d" using Suc.prems by simp
    ultimately show ?thesis
      using Suc.IH [of ?d] False by (auto simp: eng_retry_Suc [OF e] max_def)
  qed
qed

text \<open>
  Crossing the door always succeeds, from every state of the door and whatever the
  counter. A closed and locked door whose counter is at 0 or above ends open and unlocked by
  \<open>PickLock\<close>, never by \<open>SmashDoor\<close>: the lock gives way at the attempt that finds the counter
  above 3, which is the fifth on a fresh door (the comments say the third), so the five
  attempts of the XML are exactly enough.
\<close>

theorem crossdoor_always_passes:
  assumes "engine_laws e"
  shows "(\<exists>t. CrossDoor_tree e d = Inr (SUCCESS, t) \<and> door_open t) \<and>
         (\<not> door_open d \<and> door_locked d \<and> pick_attempts d \<ge> 0 \<longrightarrow>
            CrossDoor_tree e d = Inr (SUCCESS, d\<lparr>door_open := True, door_locked := False,
                                        pick_attempts := max (pick_attempts d) 4 + 1\<rparr>)) \<and>
         eng_retry e 4 pickLock cross_door0 = Inr (FAILURE, cross_door0\<lparr>pick_attempts := 4\<rparr>)"
proof -
  note r = engine_rules [OF assms]
  have closed: "DoorClosed_tree e d =
      (if \<not> door_locked d then Inr (SUCCESS, d\<lparr>door_open := True\<rparr>)
       else if pick_attempts d > -1
       then Inr (SUCCESS, d\<lparr>door_open := True, door_locked := False,
                            pick_attempts := max (pick_attempts d) 4 + 1\<rparr>)
       else Inr (SUCCESS, d\<lparr>door_open := True, door_locked := False,
                            pick_attempts := pick_attempts d + 5\<rparr>))"
    if "\<not> door_open d"
    using that retry_pickLock [OF assms that, of 5]
    by (auto simp: DoorClosed_tree_def r openDoor_def smashDoor_def)
  have tree: "CrossDoor_tree e d = (if door_open d then Inr (SUCCESS, d)
      else (case DoorClosed_tree e d of Inr (SUCCESS, t) \<Rightarrow> passThroughDoor t | x \<Rightarrow> x))"
    by (auto simp: CrossDoor_tree_def r isDoorClosed_def passThroughDoor_def
        split: sum.splits prod.splits tick_status.splits)
  have "eng_retry e 4 pickLock cross_door0 = Inr (FAILURE, cross_door0\<lparr>pick_attempts := 4\<rparr>)"
    using retry_pickLock [OF assms, of cross_door0 4] by (simp add: cross_door0_def)
  then show ?thesis
    using closed by (auto simp: tree passThroughDoor_def)
qed

theorem crossdoor_always_passes_witness:
  "crossdoor_main std_engine =
     Inr (SUCCESS, \<lparr>door_open = True, door_locked = False, pick_attempts = 5\<rparr>)"
  using crossdoor_always_passes [OF std_engine_laws, of cross_door0]
  by (simp add: crossdoor_main_def cross_door0_def)

section \<open>Ports\<close>

text \<open>
  A port of a node is given in the XML as a text or as the name of a blackboard entry in
  braces.
\<close>

datatype port = Text string | Entry string

record ('b, 'v) port_ops =
  getInput :: "'b \<Rightarrow> port \<Rightarrow> 'v option"
  setOutput :: "string \<Rightarrow> 'v \<Rightarrow> 'b \<Rightarrow> 'b"
  new_blackboard :: 'b

definition port_laws :: "(string \<Rightarrow> 'v option) \<Rightarrow> ('b, 'v) port_ops \<Rightarrow> bool" where
  "port_laws convert p \<longleftrightarrow>
     (\<forall>b t. getInput p b (Text t) = convert t) \<and>
     (\<forall>n. getInput p (new_blackboard p) (Entry n) = None) \<and>
     (\<forall>b n m v. getInput p (setOutput p n v b) (Entry m) =
        (if m = n then Some v else getInput p b (Entry m)))"

definition map_ports :: "(string \<Rightarrow> 'v option) \<Rightarrow> (string \<rightharpoonup> 'v, 'v) port_ops" where
  "map_ports convert = \<lparr>getInput = (\<lambda>b p. case p of Text t \<Rightarrow> convert t | Entry n \<Rightarrow> b n),
     setOutput = (\<lambda>n v b. b(n \<mapsto> v)), new_blackboard = (\<lambda>_. None)\<rparr>"

lemma map_ports_laws: "port_laws convert (map_ports convert)"
  by (simp add: port_laws_def map_ports_def)

section \<open>The dummy nodes\<close>

record 'b dummy_world =
  opened :: bool
  blackboard :: 'b
  printed :: console

definition say :: "string \<Rightarrow> 'b dummy_world \<Rightarrow> 'b dummy_world" where
  "say s w = w\<lparr>printed := printed w @ [s]\<rparr>"

definition CheckBattery :: "'b dummy_world tick" where
  "CheckBattery w = Inr (SUCCESS, say ''[ Battery: OK ]'' w)"

definition CheckTemperature :: "'b dummy_world tick" where
  "CheckTemperature w = Inr (SUCCESS, say ''[ Temperature: OK ]'' w)"

definition SayHello :: "'b dummy_world tick" where
  "SayHello w = Inr (SUCCESS, say ''Robot says: Hello World'' w)"

definition gripper_open :: "'b dummy_world tick" where
  "gripper_open w = Inr (SUCCESS, say ''GripperInterface::open'' (w\<lparr>opened := True\<rparr>))"

definition gripper_close :: "'b dummy_world tick" where
  "gripper_close w = Inr (SUCCESS, (say ''GripperInterface::close'' w)\<lparr>opened := False\<rparr>)"

definition ApproachObject :: "string \<Rightarrow> 'b dummy_world tick" where
  "ApproachObject name w = Inr (SUCCESS, say (''ApproachObject: '' @ name) w)"

definition SaySomething :: "('b, string) port_ops \<Rightarrow> port \<Rightarrow> 'b dummy_world tick" where
  "SaySomething p message w =
     (case getInput p (blackboard w) message of
        None \<Rightarrow> Inl ''missing required input [message]: ''
      | Some msg \<Rightarrow> Inr (SUCCESS, say (''Robot says: '' @ msg) w))"

definition SaySomethingSimple :: "('b, string) port_ops \<Rightarrow> port \<Rightarrow> 'b dummy_world tick" where
  "SaySomethingSimple p message w =
     (case getInput p (blackboard w) message of
        None \<Rightarrow> Inl ''missing required input [message]: ''
      | Some msg \<Rightarrow> Inr (SUCCESS, say (''Robot says: '' @ msg) w))"

definition ThinkWhatToSay :: "('b, string) port_ops \<Rightarrow> string \<Rightarrow> 'b dummy_world tick" where
  "ThinkWhatToSay p text w =
     Inr (SUCCESS, w\<lparr>blackboard := setOutput p text ''The answer is 42'' (blackboard w)\<rparr>)"

text \<open>\<open>DummyNodes::RegisterNodes\<close>: the nodes without ports by their names.\<close>

definition RegisterNodes :: "string \<Rightarrow> (string \<times> 'b dummy_world tick) list" where
  "RegisterNodes instance_name =
     [(''CheckBattery'', CheckBattery), (''CheckTemperature'', CheckTemperature),
      (''SayHello'', SayHello), (''OpenGripper'', gripper_open), (''CloseGripper'', gripper_close),
      (''ApproachObject'', ApproachObject instance_name)]"

definition dummy_node :: "string \<Rightarrow> string \<Rightarrow> 'b dummy_world tick" where
  "dummy_node type name =
     (case map_of (RegisterNodes name) type of Some t \<Rightarrow> t
        | None \<Rightarrow> (\<lambda>w. Inl (''unknown node '' @ type)))"

text \<open>The trees of \<open>002.test_port\<close> and \<open>004.basic_port\<close>.\<close>

definition test_port_tree :: "'b dummy_world engine \<Rightarrow> 'b dummy_world tick" where
  "test_port_tree e =
     eng_sequence e [dummy_node ''CheckBattery'' ''battery_ok'',
       dummy_node ''OpenGripper'' ''open_gripper'',
       dummy_node ''ApproachObject'' ''approach_object'',
       dummy_node ''CloseGripper'' ''close_gripper'']"

definition basic_port_tree ::
  "'b dummy_world engine \<Rightarrow> ('b, string) port_ops \<Rightarrow> 'b dummy_world tick" where
  "basic_port_tree e p =
     eng_sequence e [SaySomething p (Text ''hello''), SaySomethingSimple p (Text ''this works too''),
       ThinkWhatToSay p ''the_answer'', SaySomethingSimple p (Entry ''the_answer'')]"

definition dummy_world0 :: "('b, 'v) port_ops \<Rightarrow> 'b dummy_world" where
  "dummy_world0 p = \<lparr>opened = True, blackboard = new_blackboard p, printed = []\<rparr>"

lemma dummy_nodes [simp]:
  "dummy_node ''CheckBattery'' n = CheckBattery" "dummy_node ''OpenGripper'' n = gripper_open"
  "dummy_node ''ApproachObject'' n = ApproachObject n" "dummy_node ''CloseGripper'' n = gripper_close"
  by (simp_all add: dummy_node_def RegisterNodes_def)

text \<open>
  The two tutorial trees print, in order, exactly the lines the comments in their source
  announce; the gripper ends closed, and the message the third action of the second tree
  writes into the blackboard is the one the fourth reads.
\<close>

theorem tutorial_output:
  assumes "engine_laws e" "port_laws Some p"
  shows "test_port_tree e (dummy_world0 p) =
           Inr (SUCCESS, (dummy_world0 p)\<lparr>opened := False, printed :=
             [''[ Battery: OK ]'', ''GripperInterface::open'', ''ApproachObject: approach_object'',
              ''GripperInterface::close'']\<rparr>) \<and>
         (\<exists>w. basic_port_tree e p (dummy_world0 p) = Inr (SUCCESS, w) \<and>
            printed w = [''Robot says: hello'', ''Robot says: this works too'',
                         ''Robot says: The answer is 42''])"
  using assms(2)
  by (auto simp: test_port_tree_def basic_port_tree_def engine_rules [OF assms(1)] CheckBattery_def
      gripper_open_def gripper_close_def ApproachObject_def SaySomething_def ThinkWhatToSay_def
      SaySomethingSimple_def say_def dummy_world0_def port_laws_def)

theorem tutorial_output_witness:
  "\<exists>w. basic_port_tree std_engine (map_ports Some) (dummy_world0 (map_ports Some)) =
         Inr (SUCCESS, w) \<and> last (printed w) = ''Robot says: The answer is 42''"
  using tutorial_output [OF std_engine_laws map_ports_laws] by auto

end
