(* ===== verification/Bt_Actions.thy ===== *)
theory Bt_Actions
  imports Bt_Nodes
begin

text \<open>
  Actions of the behaviour tree tutorials with state of their own: the timed actions
  \<open>SleepNode\<close> and \<open>MoveBaseAction\<close> (one interface, the locale \<open>deadline_action\<close>), the parsers
  of structured ports, \<open>NodeWithDefaultPoints\<close> (\<open>014.default_ports\<close>), \<open>PushIntoVector\<close>
  (\<open>015.access_by_ref\<close>) and the halting example \<open>021.test_halt\<close>. Clock readings are
  arguments, in milliseconds; splitting a string and reading a number from it are the
  library's, arguments here.
\<close>

section \<open>Timed actions\<close>

text \<open>
  The engine calls \<open>onStart\<close> at the first tick of a \<open>StatefulActionNode\<close> and \<open>onRunning\<close> at
  every later one as long as the answer is RUNNING. \<open>stateful_ticks\<close> lists the answers for
  the clock readings at the successive ticks.
\<close>

fun running_ticks :: "(int \<Rightarrow> 'n \<Rightarrow> tick_status) \<Rightarrow> 'n \<Rightarrow> int list \<Rightarrow> tick_status list" where
  "running_ticks onRunning n [] = []"
| "running_ticks onRunning n (now # ts) =
     (let r = onRunning now n in if r = RUNNING then r # running_ticks onRunning n ts else [r])"

definition stateful_ticks ::
  "(int \<Rightarrow> tick_status \<times> 'n) \<Rightarrow> (int \<Rightarrow> 'n \<Rightarrow> tick_status) \<Rightarrow> int \<Rightarrow> int list \<Rightarrow> tick_status list"
  where
  "stateful_ticks onStart onRunning start ts =
     (let (r, n) = onStart start in if r = RUNNING then r # running_ticks onRunning n ts else [r])"

locale deadline_action =
  fixes onRunning :: "int \<Rightarrow> 'n \<Rightarrow> tick_status" and due :: "'n \<Rightarrow> int"
  assumes running: "onRunning now n = (if now \<ge> due n then SUCCESS else RUNNING)"
begin

lemma running_ticks_deadline:
  "running_ticks onRunning n ts =
     replicate (length (takeWhile (\<lambda>now. now < due n) ts)) RUNNING @
     (if \<exists>now \<in> set ts. now \<ge> due n then [SUCCESS] else [])"
  by (induction ts) (auto simp: running Let_def)

end

subsection \<open>SleepNode\<close>

definition SleepNode_onStart :: "int option \<Rightarrow> int \<Rightarrow> tick_status \<times> int" where
  "SleepNode_onStart input now =
     (let msec = (case input of Some m \<Rightarrow> m | None \<Rightarrow> 0) in
      if msec \<le> 0 then (SUCCESS, 0) else (RUNNING, now + msec))"

definition SleepNode_onRunning :: "int \<Rightarrow> int \<Rightarrow> tick_status" where
  "SleepNode_onRunning now deadline = (if now \<ge> deadline then SUCCESS else RUNNING)"

definition SleepNode_onHalted :: "console \<Rightarrow> console" where
  "SleepNode_onHalted out = out @ [''SleepNode interrupted'']"

interpretation sleep_action: deadline_action SleepNode_onRunning "\<lambda>d. d"
  by unfold_locales (simp add: SleepNode_onRunning_def)

subsection \<open>MoveBaseAction\<close>

record 'd pose2d =
  pose_x :: 'd
  pose_y :: 'd
  pose_theta :: 'd

text \<open>\<open>convertFromString<Pose2D>\<close>; \<open>conv\<close> answers \<open>Inl\<close> for a text that is no number.\<close>

definition convert_pose2d ::
  "(string \<Rightarrow> char \<Rightarrow> string list) \<Rightarrow> (string \<Rightarrow> ('d, string) expected) \<Rightarrow> string \<Rightarrow>
     ('d pose2d, string) expected" where
  "convert_pose2d splitString conv key =
     (let parts = splitString key (CHR '';'') in
      if length parts \<noteq> 3 then Inl ''invalid input)''
      else (case conv (parts ! 0) of Inl e \<Rightarrow> Inl e | Inr x \<Rightarrow>
           (case conv (parts ! 1) of Inl e \<Rightarrow> Inl e | Inr y \<Rightarrow>
           (case conv (parts ! 2) of Inl e \<Rightarrow> Inl e | Inr theta \<Rightarrow>
              Inr \<lparr>pose_x = x, pose_y = y, pose_theta = theta\<rparr>))))"

record 'd move_base =
  goal :: "'d pose2d"
  completion_time :: int

definition MoveBase_onStart ::
  "('d \<Rightarrow> string) \<Rightarrow> ('d pose2d, string) expected \<Rightarrow> int \<Rightarrow>
     (tick_status \<times> 'd move_base \<times> string, string) expected" where
  "MoveBase_onStart fmt input now =
     (case input of
        Inl e \<Rightarrow> Inl ''missing required input [goal]''
      | Inr g \<Rightarrow>
          Inr (RUNNING, \<lparr>goal = g, completion_time = now + 220\<rparr>,
               ''[ MoveBase: SEND REQUEST ]. goal: x='' @ fmt (pose_x g) @ '' y='' @ fmt (pose_y g) @
               '' theta='' @ fmt (pose_theta g)))"

text \<open>\<open>onRunning\<close> sleeps 10 ms before it reads the clock; \<open>now\<close> is the reading.\<close>

definition MoveBase_onRunning :: "int \<Rightarrow> 'd move_base \<Rightarrow> tick_status" where
  "MoveBase_onRunning now n = (if now \<ge> completion_time n then SUCCESS else RUNNING)"

definition MoveBase_output :: "int \<Rightarrow> 'd move_base \<Rightarrow> console" where
  "MoveBase_output now n =
     (if now \<ge> completion_time n then [''[ MoveBase: FINISHED ]''] else [])"

definition MoveBase_onHalted :: "console \<Rightarrow> console" where
  "MoveBase_onHalted out = out @ [''[ MoveBase: ABORTED ]'']"

interpretation move_base_action: deadline_action MoveBase_onRunning completion_time
  by unfold_locales (simp add: MoveBase_onRunning_def)

text \<open>
  A timed action answers RUNNING at its first tick and at every later tick whose clock
  reading is before its deadline, and SUCCESS at the first one that is not, after which it
  is not ticked again: \<open>SleepNode\<close> with the deadline \<open>msec\<close> after its start (and SUCCESS at
  once for a non-positive or missing \<open>msec\<close>), \<open>MoveBaseAction\<close> with 220 ms.
\<close>

theorem timed_actions_wait:
  "stateful_ticks (SleepNode_onStart (Some msec)) SleepNode_onRunning start ts =
     (if msec \<le> 0 then [SUCCESS]
      else RUNNING # replicate (length (takeWhile (\<lambda>now. now < start + msec) ts)) RUNNING @
           (if \<exists>now \<in> set ts. now \<ge> start + msec then [SUCCESS] else [])) \<and>
   stateful_ticks (SleepNode_onStart None) SleepNode_onRunning start ts = [SUCCESS] \<and>
   (\<exists>n msg. MoveBase_onStart fmt (Inr g) start = Inr (RUNNING, n, msg) \<and> goal n = g \<and>
      running_ticks MoveBase_onRunning n ts =
        replicate (length (takeWhile (\<lambda>now. now < start + 220) ts)) RUNNING @
        (if \<exists>now \<in> set ts. now \<ge> start + 220 then [SUCCESS] else []))"
  using sleep_action.running_ticks_deadline [of "start + msec" ts]
    move_base_action.running_ticks_deadline
      [of "\<lparr>goal = g, completion_time = start + 220\<rparr>" ts]
  by (simp add: stateful_ticks_def SleepNode_onStart_def MoveBase_onStart_def)

theorem timed_actions_wait_witness:
  "stateful_ticks (SleepNode_onStart (Some 100)) SleepNode_onRunning 1000 [1050, 1100, 1150] =
     [RUNNING, RUNNING, SUCCESS]"
  using timed_actions_wait [of 100 1000 "[1050, 1100, 1150]" "\<lambda>_. []"
      "\<lparr>pose_x = (), pose_y = (), pose_theta = ()\<rparr>"]
  by simp

section \<open>NodeWithDefaultPoints\<close>

record point2d =
  px :: int
  py :: int

definition point2d_eq :: "point2d \<Rightarrow> point2d \<Rightarrow> bool" where
  "point2d_eq a b \<longleftrightarrow> px a = px b \<and> py a = py b"

definition convert_point2d ::
  "(string \<Rightarrow> char \<Rightarrow> string list) \<Rightarrow> (string \<Rightarrow> (int, string) expected) \<Rightarrow>
   (string \<Rightarrow> (point2d, string) expected) \<Rightarrow> string \<Rightarrow> (point2d, string) expected" where
  "convert_point2d splitString conv convertFromJSON str =
     (if take 5 str = ''json:'' then convertFromJSON (drop 5 str)
      else (let parts = splitString str (CHR '','') in
            if length parts \<noteq> 2 then Inl ''invalid input)''
            else (case conv (parts ! 0) of Inl e \<Rightarrow> Inl e | Inr x \<Rightarrow>
                 (case conv (parts ! 1) of Inl e \<Rightarrow> Inl e | Inr y \<Rightarrow> Inr \<lparr>px = x, py = y\<rparr>))))"

text \<open>
  \<open>tick\<close> checks the six ports in order; \<open>input\<close> is what \<open>getInput\<close> answers for a name.
\<close>

definition expected_points :: "(string \<times> point2d) list" where
  "expected_points =
     [(''pointA'', \<lparr>px = 1, py = 2\<rparr>), (''pointB'', \<lparr>px = 3, py = 4\<rparr>), (''pointC'', \<lparr>px = 5, py = 6\<rparr>),
      (''pointD'', \<lparr>px = 7, py = 8\<rparr>), (''pointE'', \<lparr>px = 9, py = 10\<rparr>), (''input'', \<lparr>px = -1, py = -2\<rparr>)]"

fun check_points :: "(string \<Rightarrow> point2d option) \<Rightarrow> (string \<times> point2d) list \<Rightarrow>
    (tick_status, string) expected" where
  "check_points inp [] = Inr SUCCESS"
| "check_points inp ((name, pt) # rest) =
     (case inp name of
        None \<Rightarrow> Inl (''failed '' @ name)
      | Some q \<Rightarrow> if \<not> point2d_eq q pt then Inl (''failed '' @ name) else check_points inp rest)"

definition NodeWithDefaultPoints_tick :: "(string \<Rightarrow> point2d option) \<Rightarrow> (tick_status, string) expected" where
  "NodeWithDefaultPoints_tick inp = check_points inp expected_points"

text \<open>
  The ports: no default, a value, a blackboard entry, a text to convert, the entry of the
  port's own name, a JSON text.
\<close>

datatype port_default = No_Default | Default_Value point2d | Default_Entry string
  | Default_Text string | Same_Name

definition json_text :: string where
  "json_text = ''json:{'' @ [CHR 0x22] @ ''x'' @ [CHR 0x22] @ '':9,'' @ [CHR 0x22] @ ''y'' @
     [CHR 0x22] @ '':10}''"

definition point_ports :: "(string \<times> port_default) list" where
  "point_ports =
     [(''input'', No_Default), (''pointA'', Default_Value \<lparr>px = 1, py = 2\<rparr>),
      (''pointB'', Default_Entry ''point''), (''pointC'', Default_Text ''5,6''),
      (''pointD'', Same_Name), (''pointE'', Default_Text json_text)]"

text \<open>
  What \<open>getInput\<close> answers for a port, by the documentation of defaults: the XML attribute if
  there is one (a text, converted), else the default.
\<close>

definition port_value ::
  "(string \<Rightarrow> (point2d, string) expected) \<Rightarrow> (string \<rightharpoonup> string) \<Rightarrow> (string \<rightharpoonup> point2d) \<Rightarrow>
     string \<Rightarrow> point2d option" where
  "port_value convert xml bb name =
     (let text = (\<lambda>t. case convert t of Inr v \<Rightarrow> Some v | Inl e \<Rightarrow> None) in
      case xml name of
        Some t \<Rightarrow> text t
      | None \<Rightarrow>
          (case map_of point_ports name of
             Some (Default_Value v) \<Rightarrow> Some v
           | Some (Default_Entry n) \<Rightarrow> bb n
           | Some (Default_Text t) \<Rightarrow> text t
           | Some Same_Name \<Rightarrow> bb name
           | _ \<Rightarrow> None))"

lemma check_points_ok:
  "check_points inp ps = Inr SUCCESS \<longleftrightarrow> (\<forall>(n, pt) \<in> set ps. inp n = Some pt)"
proof (induction ps)
  case (Cons p ps)
  obtain n pt where p: "p = (n, pt)" by fastforce
  have "point2d_eq q pt \<longleftrightarrow> q = pt" for q :: point2d
    by (cases q; cases pt) (simp add: point2d_eq_def)
  with Cons p show ?case by (auto split: option.splits)
qed simp

text \<open>
  \<open>NodeWithDefaultPoints\<close> succeeds exactly when the blackboard has (3,4) under \<open>point\<close>
  and (7,8) under \<open>pointD\<close> and the XML gives \<open>input\<close> a text that converts to (-1,-2), for any
  converter that reads the two default texts as (5,6) and (9,10): every other check of its
  \<open>tick\<close> is met by the default of the port itself.
\<close>

theorem default_points_tick:
  assumes "convert ''5,6'' = Inr \<lparr>px = 5, py = 6\<rparr>"
    "convert json_text = Inr \<lparr>px = 9, py = 10\<rparr>"
  shows "NodeWithDefaultPoints_tick (port_value convert [''input'' \<mapsto> t] bb) = Inr SUCCESS \<longleftrightarrow>
         bb ''point'' = Some \<lparr>px = 3, py = 4\<rparr> \<and> bb ''pointD'' = Some \<lparr>px = 7, py = 8\<rparr> \<and>
         convert t = Inr \<lparr>px = -1, py = -2\<rparr>"
  unfolding NodeWithDefaultPoints_tick_def check_points_ok
  using assms
  by (auto simp: expected_points_def port_value_def point_ports_def Let_def split: sum.splits)

definition point_of_text :: "string \<Rightarrow> (point2d, string) expected" where
  "point_of_text t =
     convert_point2d
       (\<lambda>s c. if s = ''5,6'' then [''5'', ''6''] else if s = ''-1,-2'' then [''-1'', ''-2''] else [s])
       (\<lambda>s. if s = ''5'' then Inr 5 else if s = ''6'' then Inr 6 else if s = ''-1'' then Inr (-1)
            else if s = ''-2'' then Inr (-2) else Inl ''not a number'')
       (\<lambda>s. if s = drop 5 json_text then Inr \<lparr>px = 9, py = 10\<rparr> else Inl ''json'') t"

theorem default_points_tick_witness:
  "NodeWithDefaultPoints_tick (port_value point_of_text [''input'' \<mapsto> ''-1,-2'']
     [''point'' \<mapsto> \<lparr>px = 3, py = 4\<rparr>, ''pointD'' \<mapsto> \<lparr>px = 7, py = 8\<rparr>]) = Inr SUCCESS"
proof -
  have "point_of_text ''5,6'' = Inr \<lparr>px = 5, py = 6\<rparr>"
    "point_of_text json_text = Inr \<lparr>px = 9, py = 10\<rparr>"
    "point_of_text ''-1,-2'' = Inr \<lparr>px = -1, py = -2\<rparr>"
    by (simp_all add: point_of_text_def convert_point2d_def json_text_def)
  then show ?thesis
    using default_points_tick [of point_of_text "''-1,-2''"] by simp
qed

section \<open>PushIntoVector\<close>

text \<open>A locked blackboard entry: empty, a vector of int, or a value of another type.\<close>

datatype entry_content = Empty_Any | Int_Vector "int list" | Other_Any

definition PushIntoVector_tick ::
  "int option \<Rightarrow> entry_content option \<Rightarrow> (tick_status \<times> entry_content option \<times> console, string) expected"
  where
  "PushIntoVector_tick value_port entry =
     (case value_port of
        None \<Rightarrow> Inl ''bad_expected_access''
      | Some number \<Rightarrow>
          (case entry of
             None \<Rightarrow> Inr (FAILURE, None, [])
           | Some Empty_Any \<Rightarrow>
               Inr (SUCCESS, Some (Int_Vector [number]),
                    [''We created a new vector, containing value ['' @ to_string number @ '']''])
           | Some (Int_Vector v) \<Rightarrow>
               Inr (SUCCESS, Some (Int_Vector (v @ [number])),
                    [''Value ['' @ to_string number @ ''] pushed into the vector. New size: '' @
                     show_nat (length v + 1)])
           | Some Other_Any \<Rightarrow> Inr (SUCCESS, Some Other_Any, [])))"

text \<open>The tree of \<open>015\<close>: one push per value, in sequence.\<close>

fun push_values :: "int list \<Rightarrow> entry_content option \<Rightarrow> (tick_status \<times> entry_content option, string) expected"
  where
  "push_values [] entry = Inr (SUCCESS, entry)"
| "push_values (n # ns) entry =
     (case PushIntoVector_tick (Some n) entry of
        Inl e \<Rightarrow> Inl e
      | Inr (SUCCESS, entry', out) \<Rightarrow> push_values ns entry'
      | Inr (r, entry', out) \<Rightarrow> Inr (r, entry'))"

definition push_tree :: "entry_content option \<Rightarrow> (tick_status \<times> entry_content option, string) expected"
  where
  "push_tree entry = push_values [3, 5, 7] entry"

text \<open>
  Pushing values through the locked entry appends them in order to the vector the entry
  holds, starting a new vector when the entry is empty; an entry of another type is left
  as it is although the action still answers SUCCESS.
\<close>

theorem push_values_appends:
  "push_values ns (Some (Int_Vector v)) = Inr (SUCCESS, Some (Int_Vector (v @ ns))) \<and>
   push_values ns (Some Empty_Any) =
     Inr (SUCCESS, Some (if ns = [] then Empty_Any else Int_Vector ns)) \<and>
   push_values ns (Some Other_Any) = Inr (SUCCESS, Some Other_Any) \<and>
   push_tree (Some Empty_Any) = Inr (SUCCESS, Some (Int_Vector [3, 5, 7]))"
proof -
  have v: "push_values ns (Some (Int_Vector v)) = Inr (SUCCESS, Some (Int_Vector (v @ ns)))" for v ns
    by (induction ns arbitrary: v) (simp_all add: PushIntoVector_tick_def)
  moreover have "push_values ns (Some Empty_Any) =
     Inr (SUCCESS, Some (if ns = [] then Empty_Any else Int_Vector ns))" for ns
    by (cases ns) (simp_all add: PushIntoVector_tick_def v)
  moreover have "push_values ns (Some Other_Any) = Inr (SUCCESS, Some Other_Any)"
    by (induction ns) (simp_all add: PushIntoVector_tick_def)
  ultimately show ?thesis by (simp add: push_tree_def)
qed

section \<open>Halting (021.test_halt)\<close>

record halt_world =
  is_first_time :: bool
  generate_running :: bool
  halt_out :: console

definition GenerateWaypoints_onStart :: "halt_world \<Rightarrow> tick_status \<times> halt_world" where
  "GenerateWaypoints_onStart w =
     (RUNNING, w\<lparr>halt_out := halt_out w @ [''GenerateWaypoints started'']\<rparr>)"

definition GenerateWaypoints_onRunning :: "halt_world \<Rightarrow> tick_status \<times> halt_world" where
  "GenerateWaypoints_onRunning w =
     (RUNNING, w\<lparr>halt_out := halt_out w @ [''GenerateWaypoints running'']\<rparr>)"

definition GenerateWaypoints_onHalted :: "halt_world \<Rightarrow> halt_world" where
  "GenerateWaypoints_onHalted w = w\<lparr>halt_out := halt_out w @ [''GenerateWaypoints halted'']\<rparr>"

definition PrintNumber_tick :: "halt_world \<Rightarrow> tick_status \<times> halt_world" where
  "PrintNumber_tick w =
     (if is_first_time w then (FAILURE, w\<lparr>is_first_time := False\<rparr>) else (SUCCESS, w))"

text \<open>
  How the engine drives a \<open>StatefulActionNode\<close>: \<open>onStart\<close> or \<open>onRunning\<close> by its status, and
  \<open>onHalted\<close> only if it is running.
\<close>

definition generate_tick :: "halt_world \<Rightarrow> tick_status \<times> halt_world" where
  "generate_tick w =
     (let (r, w') = (if generate_running w then GenerateWaypoints_onRunning w
                     else GenerateWaypoints_onStart w)
      in (r, w'\<lparr>generate_running := (r = RUNNING)\<rparr>))"

definition generate_halt :: "halt_world \<Rightarrow> halt_world" where
  "generate_halt w =
     (if generate_running w then (GenerateWaypoints_onHalted w)\<lparr>generate_running := False\<rparr> else w)"

text \<open>
  A \<open>ReactiveFallback\<close> over children given by tick and halt: the library's, an argument.
  It ticks the children from the first on at every tick; a child that does not fail decides,
  and the others are halted.
\<close>

type_synonym 's child = "('s \<Rightarrow> tick_status \<times> 's) \<times> ('s \<Rightarrow> 's)"

definition reactive_fallback_law :: "('s child list \<Rightarrow> 's \<Rightarrow> tick_status \<times> 's) \<Rightarrow> bool" where
  "reactive_fallback_law rf \<longleftrightarrow>
     (\<forall>a b s. rf [a, b] s =
        (case fst a s of
           (SUCCESS, t) \<Rightarrow> (SUCCESS, snd b (snd a t))
         | (RUNNING, t) \<Rightarrow> (RUNNING, snd b t)
         | (FAILURE, t) \<Rightarrow>
             (case fst b t of
                (RUNNING, u) \<Rightarrow> (RUNNING, snd a u)
              | (r, u) \<Rightarrow> (r, snd b (snd a u)))))"

fun std_reactive_fallback :: "'s child list \<Rightarrow> 's \<Rightarrow> tick_status \<times> 's" where
  "std_reactive_fallback [a, b] s =
     (case fst a s of
        (SUCCESS, t) \<Rightarrow> (SUCCESS, snd b (snd a t))
      | (RUNNING, t) \<Rightarrow> (RUNNING, snd b t)
      | (FAILURE, t) \<Rightarrow>
          (case fst b t of
             (RUNNING, u) \<Rightarrow> (RUNNING, snd a u)
           | (r, u) \<Rightarrow> (r, snd b (snd a u))))"
| "std_reactive_fallback _ s = (FAILURE, s)"

lemma std_reactive_fallback_law: "reactive_fallback_law std_reactive_fallback"
  by (simp add: reactive_fallback_law_def)

definition halt_tree ::
  "(halt_world child list \<Rightarrow> halt_world \<Rightarrow> tick_status \<times> halt_world) \<Rightarrow>
     halt_world \<Rightarrow> tick_status \<times> halt_world" where
  "halt_tree rf = rf [(PrintNumber_tick, \<lambda>w. w), (generate_tick, generate_halt)]"

text \<open>\<open>main\<close>: tick while RUNNING, at most \<open>fuel\<close> times.\<close>

fun halt_main ::
  "(halt_world child list \<Rightarrow> halt_world \<Rightarrow> tick_status \<times> halt_world) \<Rightarrow> nat \<Rightarrow> halt_world \<Rightarrow>
     (tick_status \<times> halt_world) option" where
  "halt_main rf 0 w = None"
| "halt_main rf (Suc fuel) w =
     (let (r, w') = halt_tree rf w in
      if r = RUNNING then halt_main rf fuel w' else Some (r, w'))"

text \<open>
  The loop of \<open>021.test_halt\<close> ends, after exactly two ticks, with SUCCESS: the first tick
  starts \<open>GenerateWaypoints\<close>, the second finds \<open>PrintNumber\<close> successful and halts the running
  action, whose \<open>onRunning\<close> is never called.
\<close>

theorem halt_example_ends:
  assumes "reactive_fallback_law rf"
  shows "halt_main rf (Suc (Suc fuel)) \<lparr>is_first_time = True, generate_running = False, halt_out = []\<rparr> =
     Some (SUCCESS, \<lparr>is_first_time = False, generate_running = False,
                     halt_out = [''GenerateWaypoints started'', ''GenerateWaypoints halted'']\<rparr>) \<and>
         halt_main rf 1 \<lparr>is_first_time = True, generate_running = False, halt_out = []\<rparr> = None"
  using assms
  by (simp add: reactive_fallback_law_def halt_tree_def PrintNumber_tick_def generate_tick_def
      generate_halt_def GenerateWaypoints_onStart_def GenerateWaypoints_onHalted_def Let_def)

theorem halt_example_ends_witness:
  "halt_main std_reactive_fallback 2 \<lparr>is_first_time = True, generate_running = False, halt_out = []\<rparr> =
     Some (SUCCESS, \<lparr>is_first_time = False, generate_running = False,
                     halt_out = [''GenerateWaypoints started'', ''GenerateWaypoints halted'']\<rparr>)"
  using halt_example_ends [OF std_reactive_fallback_law, of 0] by (simp add: numeral_2_eq_2)

end
