(* ===== verification/Wait_Set.thy ===== *)
theory Wait_Set
  imports Prelude
begin

text \<open>
  The wait set inside one process of \<open>src/cpp_test/iceoryx/007.inproc_waitset\<close>: an atomic
  flag per event source and one semaphore that wakes the waiting thread. Threads that fire
  events and the thread that waits interleave at every access to the flags and the
  semaphore. The semaphore is iceoryx code: its operations are the argument \<open>so\<close>, and
  \<open>sem_laws\<close> says that it counts. Its \<open>post\<close> and \<open>wait\<close> may also answer with an error, at any call:
  these answers are steps of their own, in which the count does not change.
\<close>

section \<open>The semaphore\<close>

record 'm sem_ops =
  sem_create :: "nat \<Rightarrow> 'm option"
  sem_post :: "'m \<Rightarrow> 'm"
  sem_take :: "'m \<Rightarrow> 'm option"
  sem_count :: "'m \<Rightarrow> nat"

text \<open>
  \<open>sem_post\<close> is a \<open>post\<close> that succeeds, \<open>sem_take\<close> what \<open>wait\<close> and \<open>timedWait\<close> do when they succeed
  without blocking; \<open>sem_count\<close> is the value the documentation speaks of.
\<close>

definition sem_laws :: "'m sem_ops \<Rightarrow> bool" where
  "sem_laws so \<longleftrightarrow>
     (\<forall>n m. sem_create so n = Some m \<longrightarrow> sem_count so m = n) \<and>
     (\<forall>m. sem_count so (sem_post so m) = Suc (sem_count so m)) \<and>
     (\<forall>m. sem_take so m = None \<longleftrightarrow> sem_count so m = 0) \<and>
     (\<forall>m m'. sem_take so m = Some m' \<longrightarrow> sem_count so m = Suc (sem_count so m'))"

definition nat_sem :: "nat sem_ops" where
  "nat_sem = \<lparr>sem_create = Some, sem_post = Suc,
              sem_take = (\<lambda>m. if m = 0 then None else Some (m - 1)), sem_count = (\<lambda>m. m)\<rparr>"

lemma nat_sem_laws: "sem_laws nat_sem"
  by (auto simp: sem_laws_def nat_sem_def)

lemma sem_facts:
  assumes "sem_laws so"
  shows sem_count_create: "sem_create so n = Some m \<Longrightarrow> sem_count so m = n"
    and sem_count_post: "sem_count so (sem_post so m) = Suc (sem_count so m)"
    and sem_take_None: "sem_take so m = None \<longleftrightarrow> sem_count so m = 0"
    and sem_take_Some: "sem_take so m = Some m' \<Longrightarrow> sem_count so m = Suc (sem_count so m')"
  using assms unfolding sem_laws_def by blast+

section \<open>State and steps\<close>

text \<open>
  A firing thread has stored the flag and not yet posted (\<open>P_Stored\<close>) or is elsewhere. The
  waiting thread is in \<open>wait\<close>, or in the loop of \<open>collectTriggered\<close> with the sources still to
  look at and those found. \<open>m_err\<close> is what was printed on \<open>cerr\<close>. The code does not keep the
  last three fields: \<open>stores\<close> counts how often each flag was stored, \<open>rounds\<close> is what the waits
  returned and \<open>unposted\<close> the sources whose \<open>post\<close> failed since the last successful \<open>post\<close>.
\<close>

datatype producer = P_Idle | P_Stored nat

datatype consumer = C_Waiting | C_Scanning "nat list" "nat list"

record 'm wait_set =
  m_sem :: 'm
  m_sources :: "nat list"
  triggered :: "nat \<Rightarrow> bool"
  producers :: "producer list"
  consumer :: consumer
  m_err :: console
  stores :: "nat \<Rightarrow> nat"
  rounds :: "nat list list"
  unposted :: "nat set"

definition initSemaphore :: "'m sem_ops \<Rightarrow> nat \<Rightarrow> 'm option" where
  "initSemaphore so init = sem_create so init"

definition MiniWaitSet :: "'m sem_ops \<Rightarrow> nat \<Rightarrow> 'm wait_set option" where
  "MiniWaitSet so threads =
     (case initSemaphore so 0 of
        None \<Rightarrow> None
      | Some m \<Rightarrow> Some \<lparr>m_sem = m, m_sources = [], triggered = (\<lambda>_. False),
                       producers = replicate threads P_Idle, consumer = C_Waiting,
                       m_err = [], stores = (\<lambda>_. 0), rounds = [], unposted = {}\<rparr>)"

definition attach :: "nat \<Rightarrow> 'm wait_set \<Rightarrow> 'm wait_set" where
  "attach src ws = ws\<lparr>m_sources := m_sources ws @ [src]\<rparr>"

text \<open>The two halves of \<open>fireEvent\<close>; the \<open>post\<close> succeeds, or fails and the error is printed.\<close>

definition fire_store :: "nat \<Rightarrow> nat \<Rightarrow> 'm wait_set \<Rightarrow> 'm wait_set option" where
  "fire_store p src ws =
     (if p < length (producers ws) \<and> producers ws ! p = P_Idle
      then Some (ws\<lparr>triggered := (triggered ws)(src := True),
                    stores := (stores ws)(src := Suc (stores ws src)),
                    producers := (producers ws)[p := P_Stored src]\<rparr>)
      else None)"

definition fire_post :: "'m sem_ops \<Rightarrow> nat \<Rightarrow> 'm wait_set \<Rightarrow> 'm wait_set option" where
  "fire_post so p ws =
     (if p < length (producers ws) then
        (case producers ws ! p of
           P_Idle \<Rightarrow> None
         | P_Stored src \<Rightarrow> Some (ws\<lparr>m_sem := sem_post so (m_sem ws),
                                    producers := (producers ws)[p := P_Idle], unposted := {}\<rparr>))
      else None)"

definition fire_post_failed :: "nat \<Rightarrow> 'm wait_set \<Rightarrow> 'm wait_set option" where
  "fire_post_failed p ws =
     (if p < length (producers ws) then
        (case producers ws ! p of
           P_Idle \<Rightarrow> None
         | P_Stored src \<Rightarrow> Some (ws\<lparr>producers := (producers ws)[p := P_Idle], m_err := m_err ws @ [''post failed''],
                                    unposted := insert src (unposted ws)\<rparr>))
      else None)"

text \<open>\<open>wait\<close>: take the semaphore, then scan all sources; blocked while the count is 0.\<close>

definition wait_take :: "'m sem_ops \<Rightarrow> 'm wait_set \<Rightarrow> 'm wait_set option" where
  "wait_take so ws =
     (case consumer ws of
        C_Waiting \<Rightarrow>
          (case sem_take so (m_sem ws) of
             None \<Rightarrow> None
           | Some m \<Rightarrow> Some (ws\<lparr>m_sem := m, consumer := C_Scanning (m_sources ws) []\<rparr>))
      | _ \<Rightarrow> None)"

text \<open>A \<open>wait\<close> of the semaphore that fails is printed, and the scan is made all the same.\<close>

definition wait_failed :: "'m wait_set \<Rightarrow> 'm wait_set option" where
  "wait_failed ws =
     (case consumer ws of
        C_Waiting \<Rightarrow> Some (ws\<lparr>m_err := m_err ws @ [''wait failed''], consumer := C_Scanning (m_sources ws) []\<rparr>)
      | _ \<Rightarrow> None)"

text \<open>\<open>timedWait\<close> answers TIMEOUT, with an empty result, when the semaphore could not be taken.\<close>

definition wait_timeout :: "'m sem_ops \<Rightarrow> 'm wait_set \<Rightarrow> 'm wait_set option" where
  "wait_timeout so ws =
     (case consumer ws of
        C_Waiting \<Rightarrow>
          (if sem_take so (m_sem ws) = None then Some (ws\<lparr>rounds := rounds ws @ [[]]\<rparr>) else None)
      | _ \<Rightarrow> None)"

text \<open>
  One iteration of \<open>collectTriggered\<close>: the compare-exchange on the next source's flag, or the
  return at the end of the list.
\<close>

definition collect_step :: "'m wait_set \<Rightarrow> 'm wait_set option" where
  "collect_step ws =
     (case consumer ws of
        C_Scanning (src # rest) result \<Rightarrow>
          Some (if triggered ws src
                then ws\<lparr>triggered := (triggered ws)(src := False),
                        consumer := C_Scanning rest (result @ [src])\<rparr>
                else ws\<lparr>consumer := C_Scanning rest result\<rparr>)
      | C_Scanning [] result \<Rightarrow> Some (ws\<lparr>consumer := C_Waiting, rounds := rounds ws @ [result]\<rparr>)
      | C_Waiting \<Rightarrow> None)"

datatype ws_action =
    Fire nat nat | Post_Sem nat | Post_Failed nat | Wait_Set | Wait_Failed | Wait_Timeout | Collect

fun ws_step :: "'m sem_ops \<Rightarrow> 'm wait_set \<Rightarrow> ws_action \<Rightarrow> 'm wait_set option" where
  "ws_step so ws (Fire p src) = fire_store p src ws"
| "ws_step so ws (Post_Sem p) = fire_post so p ws"
| "ws_step so ws (Post_Failed p) = fire_post_failed p ws"
| "ws_step so ws Wait_Set = wait_take so ws"
| "ws_step so ws Wait_Failed = wait_failed ws"
| "ws_step so ws Wait_Timeout = wait_timeout so ws"
| "ws_step so ws Collect = collect_step ws"

fun ws_run :: "'m sem_ops \<Rightarrow> 'm wait_set \<Rightarrow> ws_action list \<Rightarrow> 'm wait_set option" where
  "ws_run so ws [] = Some ws"
| "ws_run so ws (a # as) = (case ws_step so ws a of None \<Rightarrow> None | Some ws' \<Rightarrow> ws_run so ws' as)"

text \<open>The sources are attached before the first event.\<close>

definition ws_init :: "'m sem_ops \<Rightarrow> 'm wait_set \<Rightarrow> bool" where
  "ws_init so ws \<longleftrightarrow>
     (\<exists>ws0 n srcs. MiniWaitSet so n = Some ws0 \<and> distinct srcs \<and> ws = fold attach srcs ws0)"

definition ws_next :: "'m sem_ops \<Rightarrow> 'm wait_set \<Rightarrow> 'm wait_set \<Rightarrow> bool" where
  "ws_next so ws ws' \<longleftrightarrow> (\<exists>a. ws_step so ws a = Some ws')"

section \<open>No event is lost\<close>

fun scanning :: "consumer \<Rightarrow> nat list" where
  "scanning (C_Scanning rest result) = rest"
| "scanning C_Waiting = []"

fun found :: "consumer \<Rightarrow> nat list" where
  "found (C_Scanning rest result) = result"
| "found C_Waiting = []"

definition collected :: "'m wait_set \<Rightarrow> nat \<Rightarrow> nat" where
  "collected ws i = count_list (concat (rounds ws)) i + count_list (found (consumer ws)) i"

definition ws_inv :: "'m sem_ops \<Rightarrow> 'm wait_set \<Rightarrow> bool" where
  "ws_inv so ws \<longleftrightarrow>
     distinct (m_sources ws) \<and>
     (\<forall>i \<in> set (m_sources ws). triggered ws i \<longrightarrow>
        P_Stored i \<in> set (producers ws) \<or> sem_count so (m_sem ws) > 0 \<or>
        i \<in> set (scanning (consumer ws)) \<or> i \<in> unposted ws) \<and>
     (unposted ws \<noteq> {} \<longrightarrow> ''post failed'' \<in> set (m_err ws)) \<and>
     (\<forall>i. collected ws i + (if triggered ws i then 1 else 0) \<le> stores ws i) \<and>
     (\<forall>rest res. consumer ws = C_Scanning rest res \<longrightarrow>
        (\<exists>seen. m_sources ws = seen @ rest \<and> subseq res seen)) \<and>
     (\<forall>r \<in> set (rounds ws). subseq r (m_sources ws))"

lemma stored_update:
  assumes "p < length ps" "P_Stored i \<in> set ps" "ps ! p \<noteq> P_Stored i"
  shows "P_Stored i \<in> set (ps[p := x])"
proof -
  from assms(2) obtain j where j: "j < length ps" "ps ! j = P_Stored i"
    by (auto simp: in_set_conv_nth)
  with assms show ?thesis
    by (cases "j = p") (auto simp: in_set_conv_nth intro!: exI [of _ j])
qed

lemma attach_fold: "fold attach srcs ws = ws\<lparr>m_sources := m_sources ws @ srcs\<rparr>"
  by (induction srcs arbitrary: ws) (simp_all add: attach_def)

lemma ws_inv_init: "ws_init so ws \<Longrightarrow> ws_inv so ws"
  by (auto simp: ws_init_def attach_fold MiniWaitSet_def ws_inv_def collected_def
      split: option.splits)

lemma ws_inv_fire: "ws_inv so ws \<Longrightarrow> fire_store p src ws = Some ws' \<Longrightarrow> ws_inv so ws'"
proof -
  assume inv: "ws_inv so ws" and step: "fire_store p src ws = Some ws'"
  from step have p: "p < length (producers ws)" "producers ws ! p = P_Idle"
    and ws': "ws' = ws\<lparr>triggered := (triggered ws)(src := True),
                    stores := (stores ws)(src := Suc (stores ws src)),
                    producers := (producers ws)[p := P_Stored src]\<rparr>"
    by (auto simp: fire_store_def split: if_splits)
  have "P_Stored src \<in> set (producers ws')" using p ws' by (simp add: set_update_memI)
  moreover have "P_Stored i \<in> set (producers ws')" if "P_Stored i \<in> set (producers ws)" for i
    using stored_update [OF p(1) that] p(2) ws' by simp
  moreover have "collected ws' i = collected ws i" for i using ws' by (simp add: collected_def)
  moreover have "collected ws src \<le> stores ws src"
  proof -
    have "collected ws src + (if triggered ws src then 1 else 0) \<le> stores ws src"
      using inv by (simp add: ws_inv_def)
    then show ?thesis by (simp split: if_splits)
  qed
  ultimately show ?thesis
    using inv ws' unfolding ws_inv_def by (auto split: if_splits)
qed

lemma ws_inv_post:
  "sem_laws so \<Longrightarrow> ws_inv so ws \<Longrightarrow> fire_post so p ws = Some ws' \<Longrightarrow> ws_inv so ws'"
  by (auto simp: fire_post_def ws_inv_def collected_def sem_count_post
      split: if_splits producer.splits)

lemma ws_inv_post_failed:
  assumes inv: "ws_inv so ws" and step: "fire_post_failed p ws = Some ws'"
  shows "ws_inv so ws'"
proof -
  from step obtain src where p: "p < length (producers ws)" "producers ws ! p = P_Stored src"
    and ws': "ws' = ws\<lparr>producers := (producers ws)[p := P_Idle], m_err := m_err ws @ [''post failed''],
                      unposted := insert src (unposted ws)\<rparr>"
    by (auto simp: fire_post_failed_def split: if_splits producer.splits)
  have "P_Stored i \<in> set (producers ws')" if "P_Stored i \<in> set (producers ws)" "i \<noteq> src" for i
    using stored_update [OF p(1) that(1)] p(2) that(2) ws' by simp
  moreover have "collected ws' i = collected ws i" for i using ws' by (simp add: collected_def)
  ultimately show ?thesis using inv ws' unfolding ws_inv_def by fastforce
qed

lemma ws_inv_wait:
  assumes "ws_inv so ws"
    "wait_take so ws = Some ws' \<or> wait_timeout so ws = Some ws' \<or> wait_failed ws = Some ws'"
  shows "ws_inv so ws'"
  using assms
  by (auto simp: wait_take_def wait_timeout_def wait_failed_def ws_inv_def collected_def
      split: consumer.splits option.splits if_splits)

lemma ws_inv_collect: "ws_inv so ws \<Longrightarrow> collect_step ws = Some ws' \<Longrightarrow> ws_inv so ws'"
proof -
  assume inv: "ws_inv so ws" and step: "collect_step ws = Some ws'"
  then obtain rest res where c: "consumer ws = C_Scanning rest res"
    by (auto simp: collect_step_def split: consumer.splits)
  with inv obtain seen where seen: "m_sources ws = seen @ rest" "subseq res seen"
    by (auto simp: ws_inv_def)
  show ?thesis
  proof (cases rest)
    case Nil
    then have ws': "ws' = ws\<lparr>consumer := C_Waiting, rounds := rounds ws @ [res]\<rparr>"
      using step c by (simp add: collect_step_def)
    have "collected ws' i = collected ws i" for i using ws' c by (simp add: collected_def)
    with inv ws' c Nil seen show ?thesis by (auto simp: ws_inv_def)
  next
    case (Cons src rest')
    have sub: "subseq (res @ []) (seen @ [src])" "subseq (res @ [src]) (seen @ [src])"
      using seen(2) by (rule list_emb_append_mono, simp)+
    have src: "src \<notin> set rest'" using inv seen Cons by (auto simp: ws_inv_def)
    have m: "m_sources ws = (seen @ [src]) @ rest'" using seen Cons by simp
    show ?thesis
    proof (cases "triggered ws src")
      case True
      then have ws': "ws' = ws\<lparr>triggered := (triggered ws)(src := False),
                        consumer := C_Scanning rest' (res @ [src])\<rparr>"
        using step c Cons by (simp add: collect_step_def)
      have "collected ws' i + (if triggered ws' i then 1 else 0) =
            collected ws i + (if triggered ws i then 1 else 0)" for i
        using ws' c True by (simp add: collected_def)
      with inv ws' c Cons m sub(2) show ?thesis unfolding ws_inv_def by auto
    next
      case False
      then have ws': "ws' = ws\<lparr>consumer := C_Scanning rest' res\<rparr>"
        using step c Cons by (simp add: collect_step_def)
      have "collected ws' i = collected ws i" for i using ws' c by (simp add: collected_def)
      with inv ws' c Cons m sub(1) False show ?thesis unfolding ws_inv_def by auto
    qed
  qed
qed

lemma ws_inv_step: "sem_laws so \<Longrightarrow> ws_inv so ws \<Longrightarrow> ws_next so ws ws' \<Longrightarrow> ws_inv so ws'"
  unfolding ws_next_def
  by (elim exE, rename_tac a, case_tac a)
     (auto intro: ws_inv_fire ws_inv_post ws_inv_post_failed ws_inv_wait ws_inv_collect)

lemma ws_reach_inv:
  assumes "sem_laws so" "reach (ws_init so) (ws_next so) ws"
  shows "ws_inv so ws"
  using assms(2) by (induction rule: reach.induct) (blast intro: ws_inv_init ws_inv_step assms(1))+

text \<open>The scan of one round, run to its end.\<close>

lemma collect_all:
  "consumer ws = C_Scanning rest res \<Longrightarrow> distinct rest \<Longrightarrow>
   ws_run so ws (replicate (Suc (length rest)) Collect) =
     Some (ws\<lparr>triggered := (\<lambda>i. triggered ws i \<and> i \<notin> set rest), consumer := C_Waiting,
              rounds := rounds ws @ [res @ filter (triggered ws) rest]\<rparr>)"
proof (induction rest arbitrary: ws res)
  case Nil
  then show ?case by (simp add: collect_step_def)
next
  case (Cons i rest)
  show ?case
  proof (cases "triggered ws i")
    case True
    let ?u = "ws\<lparr>triggered := (triggered ws)(i := False), consumer := C_Scanning rest (res @ [i])\<rparr>"
    have c: "collect_step ws = Some ?u" using Cons.prems True by (simp add: collect_step_def)
    have f: "filter (triggered ?u) rest = filter (triggered ws) rest"
      using Cons.prems(2) by (intro filter_cong) auto
    have g: "(\<lambda>j. triggered ?u j \<and> j \<notin> set rest) = (\<lambda>j. triggered ws j \<and> j \<notin> set (i # rest))"
      by auto
    have "ws_run so ?u (replicate (Suc (length rest)) Collect) =
        Some (?u\<lparr>triggered := (\<lambda>j. triggered ?u j \<and> j \<notin> set rest), consumer := C_Waiting,
                 rounds := rounds ?u @ [(res @ [i]) @ filter (triggered ?u) rest]\<rparr>)"
      by (rule Cons.IH) (use Cons.prems(2) in simp_all)
    then show ?thesis
      unfolding f g using c True by simp
  next
    case False
    let ?u = "ws\<lparr>consumer := C_Scanning rest res\<rparr>"
    have "collect_step ws = Some ?u" using Cons.prems False by (simp add: collect_step_def)
    moreover have "(\<lambda>j. triggered ?u j \<and> j \<notin> set rest) = (\<lambda>j. triggered ws j \<and> j \<notin> set (i # rest))"
      using False by auto
    ultimately show ?thesis
      using Cons.IH [of ?u res] Cons.prems(2) False by simp
  qed
qed

lemma ws_run_append:
  "ws_run so ws (as @ bs) = (case ws_run so ws as of None \<Rightarrow> None | Some u \<Rightarrow> ws_run so u bs)"
  by (induction as arbitrary: ws) (auto split: option.splits)

text \<open>One whole round of \<open>wait\<close>, when the semaphore lets it in.\<close>

lemma wait_round:
  assumes "sem_laws so" "consumer ws = C_Waiting" "sem_count so (m_sem ws) > 0"
    "distinct (m_sources ws)"
  shows "\<exists>u. ws_run so ws (Wait_Set # replicate (Suc (length (m_sources ws))) Collect) = Some u \<and>
             rounds u = rounds ws @ [filter (triggered ws) (m_sources ws)]"
proof -
  obtain m where "sem_take so (m_sem ws) = Some m"
    using sem_take_None [OF assms(1), of "m_sem ws"] assms(3) by (cases "sem_take so (m_sem ws)") auto
  then have "ws_step so ws Wait_Set = Some (ws\<lparr>m_sem := m, consumer := C_Scanning (m_sources ws) []\<rparr>)"
    using assms(2) by (simp add: wait_take_def)
  then show ?thesis
    using collect_all [of "ws\<lparr>m_sem := m, consumer := C_Scanning (m_sources ws) []\<rparr>"] assms(4) by simp
qed

definition own_action :: "ws_action \<Rightarrow> bool" where
  "own_action a \<longleftrightarrow> a = Wait_Set \<or> a = Collect"

lemma woken_event_is_collected:
  assumes laws: "sem_laws so" and inv: "ws_inv so ws"
    and i: "i \<in> set (m_sources ws)" "triggered ws i"
    and cases: "sem_count so (m_sem ws) > 0 \<or> i \<in> set (scanning (consumer ws))"
  shows "\<exists>as u new. ws_run so ws as = Some u \<and> (\<forall>a \<in> set as. own_action a) \<and>
           rounds u = rounds ws @ new \<and> i \<in> set (concat new) \<and> length new \<le> 2"
proof -
  from inv have dist: "distinct (m_sources ws)" by (simp add: ws_inv_def)
  have own: "\<forall>a \<in> set (replicate n Collect). own_action a" for n by (simp add: own_action_def)
  show ?thesis
  proof (cases "consumer ws")
    case C_Waiting
    with cases have "sem_count so (m_sem ws) > 0" by simp
    from wait_round [OF laws C_Waiting this dist] obtain u where
      u: "ws_run so ws (Wait_Set # replicate (Suc (length (m_sources ws))) Collect) = Some u"
        "rounds u = rounds ws @ [filter (triggered ws) (m_sources ws)]"
      by blast
    with i own show ?thesis
      by (intro exI [of _ "Wait_Set # replicate (Suc (length (m_sources ws))) Collect"]
          exI [of _ u] exI [of _ "[filter (triggered ws) (m_sources ws)]"])
         (auto simp: own_action_def)
  next
    case (C_Scanning rest res)
    from inv C_Scanning have rest: "distinct rest" "set rest \<subseteq> set (m_sources ws)"
      using dist by (auto simp: ws_inv_def)
    let ?u = "ws\<lparr>triggered := (\<lambda>i. triggered ws i \<and> i \<notin> set rest), consumer := C_Waiting,
                 rounds := rounds ws @ [res @ filter (triggered ws) rest]\<rparr>"
    note run = collect_all [OF C_Scanning rest(1), of so]
    show ?thesis
    proof (cases "i \<in> set rest")
      case True
      with run i own show ?thesis
        by (intro exI [of _ "replicate (Suc (length rest)) Collect"] exI [of _ ?u]
            exI [of _ "[res @ filter (triggered ws) rest]"]) auto
    next
      case False
      with cases C_Scanning have "sem_count so (m_sem ?u) > 0" by simp
      from wait_round [OF laws _ this] dist obtain v where
        v: "ws_run so ?u (Wait_Set # replicate (Suc (length (m_sources ws))) Collect) = Some v"
          "rounds v = rounds ?u @ [filter (triggered ?u) (m_sources ws)]"
        by fastforce
      have "ws_run so ws (replicate (Suc (length rest)) Collect @
          Wait_Set # replicate (Suc (length (m_sources ws))) Collect) = Some v"
        using v(1) by (simp only: ws_run_append run option.case)
      with v(2) i False own show ?thesis
        by (intro exI [of _ "replicate (Suc (length rest)) Collect @
              Wait_Set # replicate (Suc (length (m_sources ws))) Collect"] exI [of _ v]
            exI [of _ "[res @ filter (triggered ws) rest, filter (triggered ?u) (m_sources ws)]"])
           (auto simp: own_action_def)
    qed
  qed
qed

text \<open>
  C5: No event is lost unless its wake-up failed. In every state the threads can reach, with
  posts and waits of the semaphore failing at will, in which no \<open>fireEvent\<close> call is between
  its two steps, an attached source whose flag is set will be returned: the waiting thread,
  by its own steps alone and without blocking or failing, comes to a \<open>wait\<close> that lists the source,
  within its current and its next round. The one exception is a source whose \<open>post\<close>
  answered with an error, after which no \<open>post\<close> has succeeded; the error was printed then and
  the semaphore is at 0.
\<close>

theorem fired_event_is_collected:
  assumes laws: "sem_laws so" and r: "reach (ws_init so) (ws_next so) ws"
    and idle: "\<forall>p \<in> set (producers ws). p = P_Idle"
    and i: "i \<in> set (m_sources ws)" "triggered ws i"
  shows "i \<in> unposted ws \<and> ''post failed'' \<in> set (m_err ws) \<and> sem_count so (m_sem ws) = 0 \<or>
         (\<exists>as u new. ws_run so ws as = Some u \<and> (\<forall>a \<in> set as. own_action a) \<and>
           rounds u = rounds ws @ new \<and> i \<in> set (concat new) \<and> length new \<le> 2)"
proof (cases "sem_count so (m_sem ws) > 0 \<or> i \<in> set (scanning (consumer ws))")
  case True
  with woken_event_is_collected [OF laws ws_reach_inv [OF laws r] i] show ?thesis by blast
next
  case False
  with ws_reach_inv [OF laws r] i idle have "i \<in> unposted ws" "''post failed'' \<in> set (m_err ws)"
    unfolding ws_inv_def by fastforce+
  with False show ?thesis by simp
qed

text \<open>
  The exception is real: after a failed \<open>post\<close> the waiting thread stays in \<open>wait\<close>. Whatever the
  threads do short of a successful \<open>post\<close> or a \<open>wait\<close> that fails, no wait returns the source.
\<close>

lemma blocked_step:
  assumes "sem_laws so" "consumer ws = C_Waiting" "sem_count so (m_sem ws) = 0"
    "a \<noteq> Wait_Failed" "\<forall>p. a \<noteq> Post_Sem p" "ws_step so ws a = Some u"
  shows "consumer u = C_Waiting \<and> sem_count so (m_sem u) = 0 \<and> concat (rounds u) = concat (rounds ws)"
  using assms sem_take_None [OF assms(1), of "m_sem ws"]
  by (cases a) (auto simp: fire_store_def fire_post_failed_def wait_take_def wait_timeout_def
      collect_step_def split: if_splits producer.splits option.splits)

theorem failed_post_is_not_collected:
  assumes laws: "sem_laws so"
  shows "consumer ws = C_Waiting \<Longrightarrow> sem_count so (m_sem ws) = 0 \<Longrightarrow>
    ws_run so ws as = Some u \<Longrightarrow> \<forall>a \<in> set as. a \<noteq> Wait_Failed \<and> (\<forall>p. a \<noteq> Post_Sem p) \<Longrightarrow>
    concat (rounds u) = concat (rounds ws)"
proof (induction as arbitrary: ws)
  case (Cons a as)
  then obtain v where v: "ws_step so ws a = Some v" "ws_run so v as = Some u"
    by (auto split: option.splits)
  from blocked_step [OF laws Cons.prems(1,2) _ _ v(1)] Cons.prems(4)
  have "consumer v = C_Waiting" "sem_count so (m_sem v) = 0" "concat (rounds v) = concat (rounds ws)"
    by auto
  with Cons.IH [OF _ _ v(2)] Cons.prems(4) show ?case by simp
qed simp

definition ws3 :: "nat wait_set" where
  "ws3 = fold attach [0, 1, 2] (the (MiniWaitSet nat_sem 1))"

lemma ws3_init: "reach (ws_init nat_sem) (ws_next nat_sem) ws3"
proof (rule reach_init)
  have "MiniWaitSet nat_sem 1 = Some (the (MiniWaitSet nat_sem 1))"
    by (simp add: MiniWaitSet_def initSemaphore_def nat_sem_def)
  moreover have "distinct [0 :: nat, 1, 2]" by simp
  ultimately show "ws_init nat_sem ws3"
    unfolding ws_init_def ws3_def by blast
qed

lemma ws_run_reach:
  "ws_run so ws as = Some u \<Longrightarrow> reach I (ws_next so) ws \<Longrightarrow> reach I (ws_next so) u"
proof (induction as arbitrary: ws)
  case (Cons a as)
  then obtain v where v: "ws_step so ws a = Some v" "ws_run so v as = Some u"
    by (auto split: option.splits)
  have "ws_next so ws v" using v(1) by (auto simp: ws_next_def)
  from Cons.IH [OF v(2) reach_step [OF Cons.prems(2) this]] show ?case .
qed simp

lemmas ws_exec = ws3_def MiniWaitSet_def initSemaphore_def nat_sem_def attach_def fire_store_def
  fire_post_def fire_post_failed_def wait_take_def wait_timeout_def collect_step_def

theorem fired_event_is_collected_witness:
  "\<exists>ws as u new. reach (ws_init nat_sem) (ws_next nat_sem) ws \<and> triggered ws 1 \<and>
     ws_run nat_sem ws as = Some u \<and> rounds u = rounds ws @ new \<and> 1 \<in> set (concat new)"
proof -
  obtain ws where ws: "ws_run nat_sem ws3 [Fire 0 0, Post_Failed 0, Fire 0 1, Post_Sem 0] = Some ws" "triggered ws 1"
    "producers ws = [P_Idle]" "m_sources ws = [0, 1, 2]" "unposted ws = {}"
    by (simp add: ws_exec)
  note r = ws_run_reach [OF ws(1) ws3_init]
  show ?thesis
    using fired_event_is_collected [OF nat_sem_laws r, of 1] ws r by fastforce
qed

theorem failed_post_is_not_collected_witness:
  "\<exists>ws u. reach (ws_init nat_sem) (ws_next nat_sem) ws \<and> triggered ws 1 \<and> unposted ws = {1} \<and>
     ws_run nat_sem ws [Wait_Timeout, Wait_Timeout] = Some u \<and> concat (rounds u) = []"
proof -
  obtain ws u where ws: "ws_run nat_sem ws3 [Fire 0 1, Post_Failed 0] = Some ws" "triggered ws 1" "unposted ws = {1}"
    "consumer ws = C_Waiting" "sem_count nat_sem (m_sem ws) = 0" "rounds ws = []"
    and u: "ws_run nat_sem ws [Wait_Timeout, Wait_Timeout] = Some u"
    by (simp add: ws_exec)
  from failed_post_is_not_collected [OF nat_sem_laws ws(4,5) u] ws(6) have "concat (rounds u) = []" by simp
  with ws u ws_run_reach [OF ws(1) ws3_init] show ?thesis by blast
qed

text \<open>
  What a wait returns is right: the sources of a round stand in the order in which they
  were attached, none twice, and over all rounds no source is returned more often than its
  event was fired.
\<close>

theorem rounds_are_faithful:
  assumes "sem_laws so" "reach (ws_init so) (ws_next so) ws"
  shows "(\<forall>r \<in> set (rounds ws). subseq r (m_sources ws) \<and> distinct r) \<and>
         count_list (concat (rounds ws)) i \<le> stores ws i"
proof -
  note inv = ws_reach_inv [OF assms]
  have "distinct r" if "r \<in> set (rounds ws)" for r
    using inv that unfolding ws_inv_def subseq_conv_nths by (metis distinct_nthsI)
  moreover have "count_list (concat (rounds ws)) i \<le> stores ws i"
  proof -
    have "collected ws i + (if triggered ws i then 1 else 0) \<le> stores ws i"
      using inv by (simp add: ws_inv_def)
    then show ?thesis by (simp add: collected_def split: if_splits)
  qed
  ultimately show ?thesis using inv unfolding ws_inv_def by blast
qed

text \<open>The schedule of \<open>demo2\<close>: B fires, then A, then C, and the consumer waits twice.\<close>

definition demo2_schedule :: "ws_action list" where
  "demo2_schedule = [Fire 0 1, Post_Sem 0, Wait_Set, Collect, Collect, Collect, Collect,
     Fire 0 0, Post_Sem 0, Wait_Set, Collect, Collect, Collect, Collect, Fire 0 2, Post_Sem 0]"

theorem rounds_are_faithful_witness:
  "\<exists>ws. ws_run nat_sem ws3 demo2_schedule = Some ws \<and> rounds ws = [[1], [0]] \<and> triggered ws 2 \<and>
     count_list (concat (rounds ws)) 1 \<le> stores ws 1"
proof -
  obtain ws where ws: "ws_run nat_sem ws3 demo2_schedule = Some ws" "rounds ws = [[1], [0]]"
    "triggered ws 2"
    by (simp add: ws_exec demo2_schedule_def)
  with rounds_are_faithful [OF nat_sem_laws ws_run_reach [OF ws(1) ws3_init], of 1]
  show ?thesis by blast
qed

text \<open>
  A wait may return nothing although it did not time out. When two events fire before
  the waiting thread scans, its first round takes both sources but only one of the two
  counts of the semaphore, and its next \<open>wait\<close> returns an empty list.
\<close>

theorem wait_can_return_empty:
  "\<exists>ws. ws_run nat_sem ws3 [Fire 0 0, Post_Sem 0, Fire 0 1, Post_Sem 0,
      Wait_Set, Collect, Collect, Collect, Collect,
      Wait_Set, Collect, Collect, Collect, Collect] = Some ws \<and> rounds ws = [[0, 1], []]"
  by (simp add: ws_exec)

section \<open>MiniListener\<close>

text \<open>
  The listener calls, for each source a wait returned, the first callback registered for it.
  \<open>'e\<close> is what a callback does.
\<close>

type_synonym 'e entries = "(nat \<times> 'e) list"

definition attachWithCallback :: "nat \<Rightarrow> 'e \<Rightarrow> 'e entries \<times> 'm wait_set \<Rightarrow> 'e entries \<times> 'm wait_set"
  where
  "attachWithCallback src cb l = (fst l @ [(src, cb)], attach src (snd l))"

fun find_callback :: "nat \<Rightarrow> 'e entries \<Rightarrow> 'e list" where
  "find_callback src [] = []"
| "find_callback src ((s, cb) # es) = (if s = src then [cb] else find_callback src es)"

definition run_callbacks :: "'e entries \<Rightarrow> nat list \<Rightarrow> 'e list" where
  "run_callbacks entries srcs = concat (map (\<lambda>src. find_callback src entries) srcs)"

text \<open>
  \<open>loop\<close>: before each wait it reads \<open>m_running\<close>; a list of pairs gives the values read and
  what the waits return.
\<close>

fun listener_loop :: "'e entries \<Rightarrow> (bool \<times> nat list) list \<Rightarrow> 'e list" where
  "listener_loop entries [] = []"
| "listener_loop entries ((running, srcs) # rest) =
     (if running then run_callbacks entries srcs @ listener_loop entries rest else [])"

lemma find_callback_map:
  "find_callback src es = (case map_of es src of None \<Rightarrow> [] | Some cb \<Rightarrow> [cb])"
  by (induction es) (auto split: option.splits)

text \<open>
  The listener calls exactly the callbacks of the sources returned while it was running,
  in order, one call per returned source: the callback registered first for the source.
  Sources nobody registered are ignored.
\<close>

theorem listener_calls_first_callback:
  "listener_loop entries (map (\<lambda>s. (True, s)) waits @ (False, late) # rest) =
     concat (map (\<lambda>src. case map_of entries src of None \<Rightarrow> [] | Some cb \<Rightarrow> [cb]) (concat waits))"
  by (induction waits) (simp_all add: run_callbacks_def find_callback_map)

end
