(* ===== verification/Error_Reporting.thy ===== *)
theory Error_Reporting
  imports Prelude
begin

text \<open>
  The error reporting example of \<open>src/cpp_test/iceoryx/005.error_reporting\<close>: two modules
  with their error types, three error handlers and the handler that dispatches by module
  and registers itself. The reporting macros and the holder of the current handler
  (\<open>PolymorphicHandler\<close>) are iceoryx code: arguments of the definitions with their documented
  behaviour as \<open>iox_laws\<close>. The demos' progress lines on the console are left out; what the
  handlers print is kept.
\<close>

section \<open>The modules' errors\<close>

datatype net_code = Timeout | ConnectionRefused | InvalidAddress | OutOfBuffer

definition NET_MODULE_ID :: u32 where "NET_MODULE_ID = 0x200"

fun net_code_value :: "net_code \<Rightarrow> u32" where
  "net_code_value Timeout = 1"
| "net_code_value ConnectionRefused = 2"
| "net_code_value InvalidAddress = 3"
| "net_code_value OutOfBuffer = 4"

text \<open>
  The enumeration's underlying type is an integer, so a value outside the enumerators can be
  passed to the switch, which then falls through to the last return.
\<close>

definition asStringLiteral :: "u32 \<Rightarrow> string" where
  "asStringLiteral code =
     (if code = net_code_value Timeout then ''Timeout''
      else if code = net_code_value ConnectionRefused then ''ConnectionRefused''
      else if code = net_code_value InvalidAddress then ''InvalidAddress''
      else if code = net_code_value OutOfBuffer then ''OutOfBuffer''
      else ''unknown'')"

record er_error =
  err_code :: u32
  err_module :: u32
  err_name :: string
  err_module_name :: string

definition net_Error :: "net_code \<Rightarrow> er_error" where
  "net_Error c = \<lparr>err_code = net_code_value c, err_module = NET_MODULE_ID,
                  err_name = asStringLiteral (net_code_value c), err_module_name = ''network_module''\<rparr>"

datatype storage_code = DiskFull | PermissionDenied

definition STORAGE_MODULE_ID :: u32 where "STORAGE_MODULE_ID = 0x201"

fun storage_code_value :: "storage_code \<Rightarrow> u32" where
  "storage_code_value DiskFull = 1"
| "storage_code_value PermissionDenied = 2"

definition storage_Error :: "storage_code \<Rightarrow> er_error" where
  "storage_Error c = \<lparr>err_code = storage_code_value c, err_module = STORAGE_MODULE_ID,
     err_name = (if c = DiskFull then ''DiskFull'' else ''PermissionDenied''),
     err_module_name = ''storage_module''\<rparr>"

datatype module_code = Net net_code | Storage storage_code

fun toError :: "module_code \<Rightarrow> er_error" where
  "toError (Net c) = net_Error c"
| "toError (Storage c) = storage_Error c"

fun toModule :: "module_code \<Rightarrow> u32" where
  "toModule (Net c) = NET_MODULE_ID"
| "toModule (Storage c) = STORAGE_MODULE_ID"

definition toModuleName :: "er_error \<Rightarrow> string" where "toModuleName e = err_module_name e"
definition toErrorName :: "er_error \<Rightarrow> string" where "toErrorName e = err_name e"

section \<open>Handlers and the library\<close>

record descriptor =
  d_code :: u32
  d_module :: u32
  d_file :: string
  d_line :: nat

datatype handler_id = Default_Handler | Recording_Handler | Throwing_Handler | Dispatch_Handler

datatype kind = RUNTIME_ERROR | FATAL | ASSERT_VIOLATION | ENFORCE_VIOLATION

text \<open>
  \<open>ph_set\<close>, \<open>ph_reset\<close>: \<open>None\<close> when the hook for a replacement after \<open>finalize\<close> aborts the
  program (the default). \<open>violates\<close> tells which callback a kind goes to, \<open>panics\<close> whether a
  panic follows.
\<close>

record 'p iox_ops =
  ph_new :: 'p
  ph_set :: "handler_id \<Rightarrow> 'p \<Rightarrow> 'p option"
  ph_reset :: "'p \<Rightarrow> 'p option"
  ph_finalize :: "'p \<Rightarrow> 'p"
  ph_get :: "'p \<Rightarrow> handler_id"
  ph_final :: "'p \<Rightarrow> bool"
  violates :: "kind \<Rightarrow> bool"
  panics :: "kind \<Rightarrow> bool"

definition iox_laws :: "'p iox_ops \<Rightarrow> bool" where
  "iox_laws x \<longleftrightarrow>
     ph_get x (ph_new x) = Default_Handler \<and> \<not> ph_final x (ph_new x) \<and>
     (\<forall>h p. \<not> ph_final x p \<longrightarrow>
        (\<exists>q. ph_set x h p = Some q \<and> ph_get x q = h \<and> \<not> ph_final x q)) \<and>
     (\<forall>p. \<not> ph_final x p \<longrightarrow>
        (\<exists>q. ph_reset x p = Some q \<and> ph_get x q = Default_Handler \<and> \<not> ph_final x q)) \<and>
     (\<forall>h p. ph_final x p \<longrightarrow> ph_set x h p = None) \<and> (\<forall>p. ph_final x p \<longrightarrow> ph_reset x p = None) \<and>
     (\<forall>p. ph_final x (ph_finalize x p) \<and> ph_get x (ph_finalize x p) = ph_get x p) \<and>
     (\<forall>k. violates x k \<longleftrightarrow> k = ASSERT_VIOLATION \<or> k = ENFORCE_VIOLATION) \<and>
     (\<forall>k. panics x k \<longleftrightarrow> k \<noteq> RUNTIME_ERROR)"

definition std_iox :: "(handler_id \<times> bool) iox_ops" where
  "std_iox = \<lparr>ph_new = (Default_Handler, False),
     ph_set = (\<lambda>h p. if snd p then None else Some (h, False)),
     ph_reset = (\<lambda>p. if snd p then None else Some (Default_Handler, False)),
     ph_finalize = (\<lambda>p. (fst p, True)), ph_get = fst, ph_final = snd,
     violates = (\<lambda>k. k = ASSERT_VIOLATION \<or> k = ENFORCE_VIOLATION), panics = (\<lambda>k. k \<noteq> RUNTIME_ERROR)\<rparr>"

lemma std_iox_laws: "iox_laws std_iox"
  by (simp add: iox_laws_def std_iox_def)

type_synonym sub_handler = "descriptor \<Rightarrow> string"

text \<open>
  The program's state: the library's holder, the handlers' own data (each handler is one
  static object for the whole run), the one-time flag of \<open>ensureInstalled\<close> and the console.
\<close>

record 'p er_world =
  ph :: 'p
  recorded :: "descriptor list"
  errorTable :: "u32 \<rightharpoonup> sub_handler"
  violationTable :: "u32 \<rightharpoonup> sub_handler"
  installed :: bool
  er_out :: console

text \<open>How a step ends: normally, with the exception \<open>PanicSignal\<close>, or with \<open>abort\<close>.\<close>

datatype 'w ending = Done 'w | Panic_Signal 'w | Aborted 'w

fun bind_end :: "'w ending \<Rightarrow> ('w \<Rightarrow> 'w ending) \<Rightarrow> 'w ending" where
  "bind_end (Done w) f = f w"
| "bind_end (Panic_Signal w) f = Panic_Signal w"
| "bind_end (Aborted w) f = Aborted w"

definition er_print :: "string \<Rightarrow> 'p er_world \<Rightarrow> 'p er_world" where
  "er_print s w = w\<lparr>er_out := er_out w @ [s]\<rparr>"

definition show_u32 :: "u32 \<Rightarrow> string" where "show_u32 v = show_nat (unat v)"

section \<open>RecordingHandler, ThrowingHandler\<close>

definition Recording_onReportError :: "descriptor \<Rightarrow> 'p er_world \<Rightarrow> 'p er_world" where
  "Recording_onReportError desc w =
     er_print (''[RecordingHandler] Error recorded: code='' @ show_u32 (d_code desc) @ '' module='' @
               show_u32 (d_module desc) @ '' at '' @ d_file desc @ '':'' @ show_nat (d_line desc))
       (w\<lparr>recorded := recorded w @ [desc]\<rparr>)"

definition Recording_onReportViolation :: "descriptor \<Rightarrow> 'p er_world \<Rightarrow> 'p er_world" where
  "Recording_onReportViolation desc w =
     er_print (''[RecordingHandler] Violation: code='' @ show_u32 (d_code desc)) w"

definition Throwing_onReportError :: "descriptor \<Rightarrow> 'p er_world \<Rightarrow> 'p er_world" where
  "Throwing_onReportError desc w =
     er_print (''  [ThrowingHandler::onReportError    ] code='' @ show_u32 (d_code desc) @
               '' module='' @ show_u32 (d_module desc)) w"

definition Throwing_onReportViolation :: "descriptor \<Rightarrow> 'p er_world \<Rightarrow> 'p er_world" where
  "Throwing_onReportViolation desc w =
     er_print (''  [ThrowingHandler::onReportViolation] code='' @ show_u32 (d_code desc) @
               '' module='' @ show_u32 (d_module desc)) w"

section \<open>DispatchHandler\<close>

definition dispatch ::
  "(u32 \<rightharpoonup> sub_handler) \<Rightarrow> descriptor \<Rightarrow> string \<Rightarrow> 'p er_world \<Rightarrow> bool \<times> 'p er_world" where
  "dispatch table desc tag w =
     (case table (d_module desc) of
        None \<Rightarrow> (False, er_print (''[DispatchHandler::'' @ tag @ ''] no handler for module='' @
                                  show_u32 (d_module desc)) w)
      | Some h \<Rightarrow> (True, er_print (h desc) w))"

definition Dispatch_onReportError :: "descriptor \<Rightarrow> 'p er_world \<Rightarrow> 'p er_world" where
  "Dispatch_onReportError desc w = snd (dispatch (errorTable w) desc ''onReportError'' w)"

definition Dispatch_onReportViolation :: "descriptor \<Rightarrow> 'p er_world \<Rightarrow> 'p er_world" where
  "Dispatch_onReportViolation desc w =
     (let (found, w1) = dispatch (violationTable w) desc ''onReportViolation'' w in
      if found then w1 else snd (dispatch (errorTable w1) desc ''onReportViolation(fallback)'' w1))"

text \<open>\<open>ensureInstalled\<close>: the function-local static runs its initialiser once per program.\<close>

definition ensureInstalled :: "'p iox_ops \<Rightarrow> 'p er_world \<Rightarrow> 'p er_world ending" where
  "ensureInstalled x w =
     (if installed w then Done w
      else (case ph_set x Dispatch_Handler (ph w) of
              None \<Rightarrow> Aborted w
            | Some p \<Rightarrow> Done (w\<lparr>ph := p, installed := True\<rparr>)))"

definition ModuleRegistrar ::
  "'p iox_ops \<Rightarrow> u32 \<Rightarrow> sub_handler \<Rightarrow> sub_handler option \<Rightarrow> 'p er_world \<Rightarrow> 'p er_world ending" where
  "ModuleRegistrar x mid onError onViolation w =
     (let w1 = w\<lparr>errorTable := (errorTable w)(mid \<mapsto> onError)\<rparr>;
          w2 = (case onViolation of None \<Rightarrow> w1
                | Some h \<Rightarrow> w1\<lparr>violationTable := (violationTable w1)(mid \<mapsto> h)\<rparr>)
      in ensureInstalled x w2)"

text \<open>The handlers the two modules register before \<open>main\<close>.\<close>

definition network_onError :: sub_handler where
  "network_onError desc = ''  [network handler] error  code='' @ show_u32 (d_code desc) @ ''  @ '' @
     d_file desc @ '':'' @ show_nat (d_line desc)"

definition network_onViolation :: sub_handler where
  "network_onViolation desc = ''  [network handler] violation code='' @ show_u32 (d_code desc)"

definition storage_onError :: sub_handler where
  "storage_onError desc = ''  [storage handler] error  code='' @ show_u32 (d_code desc) @ ''  @ '' @
     d_file desc @ '':'' @ show_nat (d_line desc)"

text \<open>The state before the static initialisers run.\<close>

definition er_start :: "'p iox_ops \<Rightarrow> 'p er_world" where
  "er_start x = \<lparr>ph = ph_new x, recorded = [], errorTable = (\<lambda>_. None), violationTable = (\<lambda>_. None),
     installed = False, er_out = []\<rparr>"

definition static_init :: "'p iox_ops \<Rightarrow> 'p er_world ending" where
  "static_init x =
     bind_end (ModuleRegistrar x NET_MODULE_ID network_onError (Some network_onViolation) (er_start x))
     (ModuleRegistrar x STORAGE_MODULE_ID storage_onError None)"

section \<open>Reporting\<close>

text \<open>
  The callback of the current handler for a kind; the default handler is the library's, and
  what it prints is not modelled. The library ends the program when \<open>onPanic\<close> returns.
\<close>

fun on_report :: "handler_id \<Rightarrow> bool \<Rightarrow> descriptor \<Rightarrow> 'p er_world \<Rightarrow> 'p er_world" where
  "on_report Default_Handler v desc w = w"
| "on_report Recording_Handler v desc w =
     (if v then Recording_onReportViolation desc w else Recording_onReportError desc w)"
| "on_report Throwing_Handler v desc w =
     (if v then Throwing_onReportViolation desc w else Throwing_onReportError desc w)"
| "on_report Dispatch_Handler v desc w =
     (if v then Dispatch_onReportViolation desc w else Dispatch_onReportError desc w)"

fun onPanic :: "handler_id \<Rightarrow> 'p er_world \<Rightarrow> 'p er_world ending" where
  "onPanic Default_Handler w = Aborted w"
| "onPanic Recording_Handler w =
     Aborted (er_print ''[RecordingHandler] onPanic called (would abort in production)'' w)"
| "onPanic Throwing_Handler w = Panic_Signal w"
| "onPanic Dispatch_Handler w = Aborted w"

definition report ::
  "'p iox_ops \<Rightarrow> string \<Rightarrow> nat \<Rightarrow> kind \<Rightarrow> module_code \<Rightarrow> 'p er_world \<Rightarrow> 'p er_world ending" where
  "report x src_file src_line k c w =
     (let e = toError c;
          desc = \<lparr>d_code = err_code e, d_module = err_module e, d_file = src_file, d_line = src_line\<rparr>;
          h = ph_get x (ph w);
          w1 = on_report h (violates x k) desc w
      in if panics x k then onPanic h w1 else Done w1)"

definition report_if ::
  "'p iox_ops \<Rightarrow> string \<Rightarrow> nat \<Rightarrow> bool \<Rightarrow> kind \<Rightarrow> module_code \<Rightarrow> 'p er_world \<Rightarrow> 'p er_world ending" where
  "report_if x src_file src_line cond k c w =
     (if cond then report x src_file src_line k c w else Done w)"

text \<open>\<open>try { ... } catch (const PanicSignal&) { ... }\<close> as the demos use it.\<close>

fun catch_panic :: "'w ending \<Rightarrow> 'w ending" where
  "catch_panic (Panic_Signal w) = Done w"
| "catch_panic r = r"

definition set_handler :: "'p iox_ops \<Rightarrow> handler_id \<Rightarrow> 'p er_world \<Rightarrow> 'p er_world ending" where
  "set_handler x h w = (case ph_set x h (ph w) of None \<Rightarrow> Aborted w | Some p \<Rightarrow> Done (w\<lparr>ph := p\<rparr>))"

definition reset_handler :: "'p iox_ops \<Rightarrow> 'p er_world \<Rightarrow> 'p er_world ending" where
  "reset_handler x w = (case ph_reset x (ph w) of None \<Rightarrow> Aborted w | Some p \<Rightarrow> Done (w\<lparr>ph := p\<rparr>))"

fun run_steps :: "('w \<Rightarrow> 'w ending) list \<Rightarrow> 'w \<Rightarrow> 'w ending" where
  "run_steps [] w = Done w"
| "run_steps (f # fs) w = bind_end (f w) (run_steps fs)"

section \<open>The demos\<close>

definition demo_report :: "'p iox_ops \<Rightarrow> string \<Rightarrow> 'p er_world \<Rightarrow> 'p er_world ending" where
  "demo_report x f = run_steps
     [report x f 182 RUNTIME_ERROR (Net Timeout),
      report x f 185 RUNTIME_ERROR (Net ConnectionRefused),
      report x f 189 RUNTIME_ERROR (Net InvalidAddress)]"

definition demo_report_if :: "'p iox_ops \<Rightarrow> string \<Rightarrow> 'p er_world \<Rightarrow> 'p er_world ending" where
  "demo_report_if x f =
     (let bufferTotal = 100 :: int in run_steps
       [report_if x f 201 (90 > bufferTotal) RUNTIME_ERROR (Net OutOfBuffer),
        report_if x f 207 (101 > bufferTotal) RUNTIME_ERROR (Net OutOfBuffer)])"

definition demo_custom_handler :: "'p iox_ops \<Rightarrow> string \<Rightarrow> 'p er_world \<Rightarrow> 'p er_world ending" where
  "demo_custom_handler x f = run_steps
     [set_handler x Recording_Handler,
      report x f 220 RUNTIME_ERROR (Net Timeout),
      report x f 221 RUNTIME_ERROR (Net ConnectionRefused),
      report x f 222 RUNTIME_ERROR (Net InvalidAddress),
      reset_handler x]"

definition demo_fatal :: "'p iox_ops \<Rightarrow> string \<Rightarrow> 'p er_world \<Rightarrow> 'p er_world ending" where
  "demo_fatal x f = run_steps
     [set_handler x Throwing_Handler,
      \<lambda>w. catch_panic (report x f 256 FATAL (Net OutOfBuffer) w),
      \<lambda>w. catch_panic (report x f 268 ASSERT_VIOLATION (Net InvalidAddress) w),
      \<lambda>w. catch_panic (report x f 279 ENFORCE_VIOLATION (Net Timeout) w),
      \<lambda>w. catch_panic (report_if x f 287 False FATAL (Net Timeout) w),
      reset_handler x]"

definition demo_lifecycle :: "'p iox_ops \<Rightarrow> string \<Rightarrow> 'p er_world \<Rightarrow> 'p er_world ending" where
  "demo_lifecycle x f = run_steps
     [set_handler x Recording_Handler,
      \<lambda>w. Done (w\<lparr>ph := ph_finalize x (ph w)\<rparr>),
      report x f 316 RUNTIME_ERROR (Net Timeout)]"

definition demo_self_registration :: "'p iox_ops \<Rightarrow> string \<Rightarrow> 'p er_world \<Rightarrow> 'p er_world ending" where
  "demo_self_registration x f = run_steps
     [report x f 491 RUNTIME_ERROR (Net Timeout),
      report x f 492 RUNTIME_ERROR (Net ConnectionRefused),
      report x f 493 RUNTIME_ERROR (Storage DiskFull),
      report x f 494 RUNTIME_ERROR (Storage PermissionDenied)]"

definition er_main :: "'p iox_ops \<Rightarrow> string \<Rightarrow> 'p er_world ending" where
  "er_main x f = bind_end (static_init x) (run_steps
     [reset_handler x, demo_report x f, demo_report_if x f, demo_custom_handler x f, demo_fatal x f,
      demo_lifecycle x f, reset_handler x, ensureInstalled x, demo_self_registration x f])"

section \<open>Lemmas on the library and on reporting\<close>

text \<open>The current handler is \<open>h\<close> and may still be replaced.\<close>

definition at_handler :: "'p iox_ops \<Rightarrow> handler_id \<Rightarrow> 'p \<Rightarrow> bool" where
  "at_handler x h p \<longleftrightarrow> ph_get x p = h \<and> \<not> ph_final x p"

lemma iox_facts:
  assumes "iox_laws x"
  shows at_new: "at_handler x Default_Handler (ph_new x)"
    and at_set: "at_handler x h' p \<Longrightarrow> \<exists>q. ph_set x h p = Some q \<and> at_handler x h q"
    and at_reset: "at_handler x h' p \<Longrightarrow> \<exists>q. ph_reset x p = Some q \<and> at_handler x Default_Handler q"
    and final_set: "ph_final x p \<Longrightarrow> ph_set x h p = None"
    and final_reset: "ph_final x p \<Longrightarrow> ph_reset x p = None"
    and finalize: "ph_final x (ph_finalize x p)" "ph_get x (ph_finalize x p) = ph_get x p"
    and kinds: "violates x k \<longleftrightarrow> k = ASSERT_VIOLATION \<or> k = ENFORCE_VIOLATION"
      "panics x k \<longleftrightarrow> k \<noteq> RUNTIME_ERROR"
  using assms unfolding iox_laws_def at_handler_def by simp_all

lemma set_handler_ok:
  assumes "iox_laws x" "at_handler x h' (ph w)"
  obtains q where "set_handler x h w = Done (w\<lparr>ph := q\<rparr>)" "at_handler x h q"
  using at_set [OF assms, of h] by (auto simp: set_handler_def)

lemma reset_handler_ok:
  assumes "iox_laws x" "at_handler x h' (ph w)"
  obtains q where "reset_handler x w = Done (w\<lparr>ph := q\<rparr>)" "at_handler x Default_Handler q"
  using at_reset [OF assms] by (auto simp: reset_handler_def)

definition describe_report :: "string \<Rightarrow> nat \<Rightarrow> module_code \<Rightarrow> descriptor" where
  "describe_report f l c =
     \<lparr>d_code = err_code (toError c), d_module = err_module (toError c), d_file = f, d_line = l\<rparr>"

lemma report_runtime:
  "iox_laws x \<Longrightarrow> report x f l RUNTIME_ERROR c w =
     Done (on_report (ph_get x (ph w)) False (describe_report f l c) w)"
  by (simp add: report_def Let_def kinds describe_report_def)

lemma on_report_frame [simp]:
  "ph (on_report h v d w) = ph w" "installed (on_report h v d w) = installed w"
  "errorTable (on_report h v d w) = errorTable w"
  "recorded (on_report h v d w) =
     (if h = Recording_Handler \<and> \<not> v then recorded w @ [d] else recorded w)"
  by (cases h; simp add: Recording_onReportError_def Recording_onReportViolation_def er_print_def
      Throwing_onReportError_def Throwing_onReportViolation_def Dispatch_onReportError_def
      Dispatch_onReportViolation_def dispatch_def Let_def split: option.splits)+

lemma recorded_error [simp]: "recorded (Recording_onReportError d w) = recorded w @ [d]"
  by (simp add: Recording_onReportError_def er_print_def)

section \<open>Properties\<close>

definition reports :: "'p iox_ops \<Rightarrow> string \<Rightarrow> (nat \<times> module_code) list \<Rightarrow> 'p er_world \<Rightarrow> 'p er_world ending"
  where
  "reports x f rs = run_steps (map (\<lambda>(l, c). report x f l RUNTIME_ERROR c) rs)"

lemma reports_done:
  assumes "iox_laws x"
  shows "\<exists>w'. reports x f rs w = Done w' \<and> ph w' = ph w \<and> installed w' = installed w \<and>
    recorded w' = (if ph_get x (ph w) = Recording_Handler
                   then recorded w @ map (\<lambda>(l, c). describe_report f l c) rs else recorded w) \<and>
    (ph_get x (ph w) = Default_Handler \<longrightarrow> w' = w)"
proof (induction rs arbitrary: w)
  case Nil
  then show ?case by (simp add: reports_def)
next
  case (Cons r rs)
  obtain l c where r: "r = (l, c)" by fastforce
  let ?u = "on_report (ph_get x (ph w)) False (describe_report f l c) w"
  have "reports x f (r # rs) w = reports x f rs ?u"
    by (simp add: reports_def r report_runtime [OF assms])
  moreover have "ph_get x (ph w) = Default_Handler \<Longrightarrow> ?u = w" by simp
  ultimately show ?case using Cons.IH [of ?u] r by auto
qed

text \<open>
  With the \<open>RecordingHandler\<close> installed, any sequence of non-fatal reports lets the
  program continue and leaves in the handler exactly one record per report, with its code,
  module and source position, in order, behind the records it already had.
\<close>

theorem recording_handler_records:
  assumes "iox_laws x" "ph_get x (ph w) = Recording_Handler"
  shows "\<exists>w'. run_steps (map (\<lambda>(l, c). report x f l RUNTIME_ERROR c) rs) w = Done w' \<and>
           recorded w' = recorded w @ map (\<lambda>(l, c). describe_report f l c) rs"
  using reports_done [OF assms(1), of f rs w] assms(2) by (auto simp: reports_def)

definition er_world0 :: "(handler_id \<times> bool) er_world" where
  "er_world0 = \<lparr>ph = (Recording_Handler, False), recorded = [], errorTable = (\<lambda>_. None),
     violationTable = (\<lambda>_. None), installed = False, er_out = []\<rparr>"

theorem recording_handler_records_witness:
  "\<exists>w'. run_steps (map (\<lambda>(l, c). report std_iox ''f'' l RUNTIME_ERROR c)
          [(1, Net Timeout), (2, Storage DiskFull)]) er_world0 = Done w' \<and>
     recorded w' = [describe_report ''f'' 1 (Net Timeout), describe_report ''f'' 2 (Storage DiskFull)]"
  using recording_handler_records [OF std_iox_laws, of er_world0 "''f''"
      "[(1, Net Timeout), (2, Storage DiskFull)]"]
  by (simp add: er_world0_def std_iox_def)

text \<open>Registering a list of modules, as the static initialisers of the translation units do.\<close>

fun register_all ::
  "'p iox_ops \<Rightarrow> (u32 \<times> sub_handler \<times> sub_handler option) list \<Rightarrow> 'p er_world \<Rightarrow> 'p er_world ending"
  where
  "register_all x [] w = Done w"
| "register_all x ((mid, e, v) # rs) w = bind_end (ModuleRegistrar x mid e v w) (register_all x rs)"

lemma registrar_done:
  assumes "iox_laws x" "\<not> installed w \<longrightarrow> at_handler x h (ph w)"
    "installed w \<longrightarrow> ph_get x (ph w) = Dispatch_Handler"
  shows "\<exists>w'. ModuleRegistrar x mid e v w = Done w' \<and> installed w' \<and>
     ph_get x (ph w') = Dispatch_Handler \<and>
     errorTable w' = (errorTable w)(mid \<mapsto> e) \<and>
     violationTable w' = (case v of None \<Rightarrow> violationTable w | Some g \<Rightarrow> (violationTable w)(mid \<mapsto> g)) \<and>
     er_out w' = er_out w"
proof (cases "installed w")
  case True
  then show ?thesis
    using assms(3) by (auto simp: ModuleRegistrar_def Let_def ensureInstalled_def split: option.splits)
next
  case False
  with assms(2) at_set [OF assms(1), of h "ph w" Dispatch_Handler] obtain q where
    "ph_set x Dispatch_Handler (ph w) = Some q" "at_handler x Dispatch_Handler q" by auto
  with False show ?thesis
    by (auto simp: ModuleRegistrar_def Let_def ensureInstalled_def at_handler_def split: option.splits)
qed

definition violation_entry :: "sub_handler option \<Rightarrow> sub_handler option \<Rightarrow> sub_handler option" where
  "violation_entry old v = (case v of None \<Rightarrow> old | Some g \<Rightarrow> Some g)"

definition routes :: "'p er_world \<Rightarrow> (u32 \<times> sub_handler \<times> sub_handler option) list \<Rightarrow> 'p er_world \<Rightarrow> bool" where
  "routes w rs w' \<longleftrightarrow> er_out w' = er_out w \<and>
     (\<forall>mid. mid \<notin> fst ` set rs \<longrightarrow>
        errorTable w' mid = errorTable w mid \<and> violationTable w' mid = violationTable w mid) \<and>
     (\<forall>mid e v. (mid, e, v) \<in> set rs \<longrightarrow> errorTable w' mid = Some e \<and>
        violationTable w' mid = violation_entry (violationTable w mid) v)"

lemma routes_Cons:
  assumes w': "routes u rs w'" and mid: "mid \<notin> fst ` set rs"
    and u: "er_out u = er_out w" "errorTable u = (errorTable w)(mid \<mapsto> e)"
      "\<And>m. violationTable u m =
         (if m = mid then violation_entry (violationTable w mid) v else violationTable w m)"
  shows "routes w ((mid, e, v) # rs) w'"
proof -
  have other: "m \<noteq> mid" if "(m, e', v') \<in> set rs" for m e' v'
    using that mid by force
  have tab: "errorTable w' m = Some e'" "violationTable w' m = violation_entry (violationTable u m) v'"
    if "(m, e', v') \<in> set rs" for m e' v'
    using w' that unfolding routes_def by blast+
  have "errorTable w' mid = Some e" "violationTable w' mid = violation_entry (violationTable w mid) v"
    using w' mid u by (simp_all add: routes_def)
  moreover have "errorTable w' m = errorTable w m" "violationTable w' m = violationTable w m"
    if "m \<notin> fst ` set ((mid, e, v) # rs)" for m
    using w' that u by (simp_all add: routes_def)
  moreover have "er_out w' = er_out w" using w' u by (simp add: routes_def)
  ultimately show ?thesis
    using tab other u(3) unfolding routes_def by simp
qed

lemma register_all_done:
  assumes laws: "iox_laws x"
  shows "\<not> installed w \<longrightarrow> at_handler x h (ph w) \<Longrightarrow> installed w \<longrightarrow> ph_get x (ph w) = Dispatch_Handler \<Longrightarrow>
    distinct (map fst rs) \<Longrightarrow>
    \<exists>w'. register_all x rs w = Done w' \<and> (rs = [] \<or> ph_get x (ph w') = Dispatch_Handler) \<and> routes w rs w'"
proof (induction rs arbitrary: w)
  case Nil
  then show ?case by (simp add: routes_def)
next
  case (Cons r rs)
  obtain mid e v where r: "r = (mid, e, v)" by (cases r)
  from registrar_done [OF laws Cons.prems(1,2), of mid e v] obtain u where u:
    "ModuleRegistrar x mid e v w = Done u" "installed u" "ph_get x (ph u) = Dispatch_Handler"
    "errorTable u = (errorTable w)(mid \<mapsto> e)"
    "violationTable u = (case v of None \<Rightarrow> violationTable w | Some g \<Rightarrow> (violationTable w)(mid \<mapsto> g))"
    "er_out u = er_out w"
    by blast
  from Cons.prems(3) r have d: "distinct (map fst rs)" "mid \<notin> fst ` set rs" by auto
  from u(2,3) have "\<not> installed u \<longrightarrow> at_handler x h (ph u)" "installed u \<longrightarrow> ph_get x (ph u) = Dispatch_Handler"
    by simp_all
  from Cons.IH [OF this d(1)] obtain w' where w': "register_all x rs u = Done w'"
    "rs = [] \<or> ph_get x (ph w') = Dispatch_Handler" "routes u rs w'"
    by blast
  from w' u have "ph_get x (ph w') = Dispatch_Handler" by (cases rs) auto
  moreover have "routes w ((mid, e, v) # rs) w'"
    by (rule routes_Cons [OF w'(3) d(2) u(6,4)]) (simp add: u(5) violation_entry_def split: option.splits)
  ultimately show ?case using w'(1) u(1) r by simp
qed

text \<open>The dispatching handler is in place, with the tables the registrations \<open>rs\<close> made.\<close>

definition dispatching ::
  "'p iox_ops \<Rightarrow> (u32 \<times> sub_handler \<times> sub_handler option) list \<Rightarrow> 'p er_world \<Rightarrow> bool" where
  "dispatching x rs w \<longleftrightarrow> ph_get x (ph w) = Dispatch_Handler \<and>
     errorTable w = (\<lambda>mid. map_option fst (map_of rs mid)) \<and>
     violationTable w = (\<lambda>mid. Option.bind (map_of rs mid) snd)"

lemma routes_tables:
  assumes "routes (er_start x) rs w" "distinct (map fst rs)"
  shows "errorTable w mid = map_option fst (map_of rs mid)"
    "violationTable w mid = Option.bind (map_of rs mid) snd"
proof -
  have "errorTable w mid = map_option fst (map_of rs mid) \<and> violationTable w mid = Option.bind (map_of rs mid) snd"
  proof (cases "map_of rs mid")
    case None
    then have "mid \<notin> fst ` set rs" by (simp add: map_of_eq_None_iff)
    with None assms(1) show ?thesis by (simp add: routes_def er_start_def)
  next
    case (Some ev)
    obtain e v where ev: "ev = (e, v)" by (cases ev)
    from Some ev have "(mid, e, v) \<in> set rs" by (auto dest: map_of_SomeD)
    with assms(1) have "errorTable w mid = Some e" "violationTable w mid = violation_entry None v"
      unfolding routes_def er_start_def by auto
    then show ?thesis by (simp add: Some ev violation_entry_def split: option.splits)
  qed
  then show "errorTable w mid = map_option fst (map_of rs mid)"
    "violationTable w mid = Option.bind (map_of rs mid) snd" by simp_all
qed

lemma registered_dispatching:
  assumes "iox_laws x" "distinct (map fst rs)" "rs \<noteq> []"
  shows "\<exists>w. register_all x rs (er_start x) = Done w \<and> dispatching x rs w \<and> er_out w = []"
proof -
  have "\<not> installed (er_start x) \<longrightarrow> at_handler x Default_Handler (ph (er_start x))"
    "installed (er_start x) \<longrightarrow> ph_get x (ph (er_start x)) = Dispatch_Handler"
    using at_new [OF assms(1)] by (simp_all add: er_start_def)
  from register_all_done [OF assms(1) this assms(2)] assms(3) obtain w where w:
    "register_all x rs (er_start x) = Done w" "ph_get x (ph w) = Dispatch_Handler" "routes (er_start x) rs w"
    by blast
  with routes_tables [OF w(3) assms(2)] show ?thesis
    by (auto simp: dispatching_def routes_def er_start_def)
qed

text \<open>What a report prints: the line of the module's own handler, or that there is none.\<close>

definition no_handler_line :: "string \<Rightarrow> descriptor \<Rightarrow> string" where
  "no_handler_line tag d = ''[DispatchHandler::'' @ tag @ ''] no handler for module='' @ show_u32 (d_module d)"

definition error_lines :: "(u32 \<times> sub_handler \<times> sub_handler option) list \<Rightarrow> descriptor \<Rightarrow> console" where
  "error_lines rs d = (case map_of rs (d_module d) of
     Some (e, v) \<Rightarrow> [e d] | None \<Rightarrow> [no_handler_line ''onReportError'' d])"

definition violation_lines :: "(u32 \<times> sub_handler \<times> sub_handler option) list \<Rightarrow> descriptor \<Rightarrow> console" where
  "violation_lines rs d = (case map_of rs (d_module d) of
     Some (e, Some g) \<Rightarrow> [g d]
   | Some (e, None) \<Rightarrow> [no_handler_line ''onReportViolation'' d, e d]
   | None \<Rightarrow> [no_handler_line ''onReportViolation'' d, no_handler_line ''onReportViolation(fallback)'' d])"

lemma dispatching_prints:
  assumes "dispatching x rs w"
  shows "on_report Dispatch_Handler False d w = w\<lparr>er_out := er_out w @ error_lines rs d\<rparr>"
    "on_report Dispatch_Handler True d w = w\<lparr>er_out := er_out w @ violation_lines rs d\<rparr>"
  using assms
  by (auto simp: dispatching_def Dispatch_onReportError_def Dispatch_onReportViolation_def dispatch_def
      er_print_def Let_def error_lines_def violation_lines_def no_handler_line_def split: option.splits)

lemma dispatching_reports:
  assumes "iox_laws x"
  shows "dispatching x rs w \<Longrightarrow>
    \<exists>w'. run_steps (map (\<lambda>(l, c). report x f l RUNTIME_ERROR c) ls) w = Done w' \<and> dispatching x rs w' \<and>
         er_out w' = er_out w @ concat (map (\<lambda>(l, c). error_lines rs (describe_report f l c)) ls)"
proof (induction ls arbitrary: w)
  case (Cons r ls)
  obtain l c where r: "r = (l, c)" by fastforce
  let ?u = "w\<lparr>er_out := er_out w @ error_lines rs (describe_report f l c)\<rparr>"
  have "report x f l RUNTIME_ERROR c w = Done ?u"
    using Cons.prems dispatching_prints(1) [OF Cons.prems]
    by (simp add: report_runtime [OF assms] dispatching_def)
  moreover have "dispatching x rs ?u" using Cons.prems by (simp add: dispatching_def)
  ultimately show ?case using Cons.IH [of ?u] r by auto
qed simp

text \<open>
  C30: Modules that register themselves before \<open>main\<close> under different identifiers do not
  disturb each other, whichever of them comes first and installs the \<open>DispatchHandler\<close>. As
  long as the handler is not replaced or reset, any sequence of non-fatal reports prints for
  each report exactly the line of the reporting module's own error handler (of a module that
  did not register, that there is none) and the program goes on; a violation then reaches
  the module's violation handler, and when it has none its error handler after a line
  saying so, and a violation or a fatal error aborts the program.
\<close>

theorem dispatch_reaches_own_module:
  assumes "iox_laws x" "distinct (map fst rs)" "rs \<noteq> []"
  shows "\<exists>w w'. register_all x rs (er_start x) = Done w \<and>
     run_steps (map (\<lambda>(l, c). report x f l RUNTIME_ERROR c) ls) w = Done w' \<and>
     er_out w' = concat (map (\<lambda>(l, c). error_lines rs (describe_report f l c)) ls) \<and>
     (\<forall>l c k. k \<noteq> RUNTIME_ERROR \<longrightarrow> (\<exists>u. report x f l k c w' = Aborted u \<and> er_out u = er_out w' @
        (if k = FATAL then error_lines rs (describe_report f l c) else violation_lines rs (describe_report f l c))))"
proof -
  obtain w where w: "register_all x rs (er_start x) = Done w" "dispatching x rs w" "er_out w = []"
    using registered_dispatching [OF assms] by blast
  obtain w' where w': "run_steps (map (\<lambda>(l, c). report x f l RUNTIME_ERROR c) ls) w = Done w'" "dispatching x rs w'"
    "er_out w' = er_out w @ concat (map (\<lambda>(l, c). error_lines rs (describe_report f l c)) ls)"
    using dispatching_reports [OF assms(1) w(2)] by blast
  have "\<exists>u. report x f l k c w' = Aborted u \<and> er_out u = er_out w' @
      (if k = FATAL then error_lines rs (describe_report f l c) else violation_lines rs (describe_report f l c))"
    if "k \<noteq> RUNTIME_ERROR" for l c k
    using w'(2) that dispatching_prints [OF w'(2), of "describe_report f l c"]
    by (cases k) (simp_all add: report_def Let_def kinds [OF assms(1)] dispatching_def describe_report_def)
  with w w' show ?thesis by auto
qed

lemma bind_register_Nil [simp]: "bind_end m (register_all x []) = m"
  by (cases m) simp_all

lemma static_init_registers:
  "static_init x = register_all x [(NET_MODULE_ID, network_onError, Some network_onViolation),
     (STORAGE_MODULE_ID, storage_onError, None)] (er_start x)"
  by (cases "ModuleRegistrar x NET_MODULE_ID network_onError (Some network_onViolation) (er_start x)")
    (simp_all add: static_init_def)

theorem dispatch_reaches_own_module_witness:
  "\<exists>w w'. static_init std_iox = Done w \<and>
     run_steps [report std_iox ''f'' 1 RUNTIME_ERROR (Storage DiskFull), report std_iox ''f'' 2 RUNTIME_ERROR (Net Timeout)] w
       = Done w' \<and>
     er_out w' = [storage_onError (describe_report ''f'' 1 (Storage DiskFull)),
       network_onError (describe_report ''f'' 2 (Net Timeout))] \<and>
     (\<exists>u. report std_iox ''f'' 3 ASSERT_VIOLATION (Net InvalidAddress) w' = Aborted u \<and>
        er_out u = er_out w' @ [network_onViolation (describe_report ''f'' 3 (Net InvalidAddress))])"
proof -
  let ?rs = "[(NET_MODULE_ID, network_onError, Some network_onViolation), (STORAGE_MODULE_ID, storage_onError, None)]"
  have "distinct (map fst ?rs)" by (simp add: NET_MODULE_ID_def STORAGE_MODULE_ID_def)
  from dispatch_reaches_own_module [OF std_iox_laws this, of "''f''" "[(1, Storage DiskFull), (2, Net Timeout)]"]
  obtain w w' where w: "register_all std_iox ?rs (er_start std_iox) = Done w"
    and w': "run_steps (map (\<lambda>(l, c). report std_iox ''f'' l RUNTIME_ERROR c) [(1, Storage DiskFull), (2, Net Timeout)]) w
       = Done w'"
    and out: "er_out w' = concat (map (\<lambda>(l, c). error_lines ?rs (describe_report ''f'' l c))
       [(1, Storage DiskFull), (2, Net Timeout)])"
    and viol: "\<forall>l c k. k \<noteq> RUNTIME_ERROR \<longrightarrow> (\<exists>u. report std_iox ''f'' l k c w' = Aborted u \<and> er_out u = er_out w' @
        (if k = FATAL then error_lines ?rs (describe_report ''f'' l c) else violation_lines ?rs (describe_report ''f'' l c)))"
    by blast
  from viol [rule_format, of ASSERT_VIOLATION 3 "Net InvalidAddress"]
  have viol3: "\<exists>u. report std_iox ''f'' 3 ASSERT_VIOLATION (Net InvalidAddress) w' = Aborted u \<and> er_out u = er_out w' @
        violation_lines ?rs (describe_report ''f'' 3 (Net InvalidAddress))"
    by simp
  have lines: "error_lines ?rs (describe_report ''f'' 1 (Storage DiskFull)) = [storage_onError (describe_report ''f'' 1 (Storage DiskFull))]"
    "error_lines ?rs (describe_report ''f'' 2 (Net Timeout)) = [network_onError (describe_report ''f'' 2 (Net Timeout))]"
    "violation_lines ?rs (describe_report ''f'' 3 (Net InvalidAddress)) =
       [network_onViolation (describe_report ''f'' 3 (Net InvalidAddress))]"
    by (simp_all add: error_lines_def violation_lines_def describe_report_def net_Error_def storage_Error_def
        NET_MODULE_ID_def STORAGE_MODULE_ID_def)
  show ?thesis
    using w w' out viol3 lines unfolding static_init_registers by auto
qed

section \<open>The demos, run\<close>

lemma static_init_done:
  assumes "iox_laws x"
  obtains w where "static_init x = Done w" "at_handler x Dispatch_Handler (ph w)" "installed w"
    "recorded w = []"
proof -
  from at_set [OF assms at_new [OF assms], of Dispatch_Handler] obtain q where
    q: "ph_set x Dispatch_Handler (ph_new x) = Some q" "at_handler x Dispatch_Handler q" by blast
  have "\<exists>w. static_init x = Done w \<and> at_handler x Dispatch_Handler (ph w) \<and> installed w \<and>
      recorded w = []"
    using q by (simp add: static_init_def er_start_def ModuleRegistrar_def ensureInstalled_def Let_def)
  with that show thesis by blast
qed

lemma default_demos:
  assumes "iox_laws x" "at_handler x Default_Handler (ph w)"
  shows "demo_report x f w = Done w" "demo_report_if x f w = Done w"
    "demo_self_registration x f w = Done w"
  using assms(2)
  by (simp_all add: demo_report_def demo_report_if_def demo_self_registration_def report_if_def
      report_runtime [OF assms(1)] at_handler_def)

lemma demo_custom_handler_done:
  assumes "iox_laws x" "at_handler x h (ph w)"
  obtains w' where "demo_custom_handler x f w = Done w'" "at_handler x Default_Handler (ph w')"
    "recorded w' = recorded w @ [describe_report f 220 (Net Timeout),
        describe_report f 221 (Net ConnectionRefused), describe_report f 222 (Net InvalidAddress)]"
proof -
  obtain q where q: "set_handler x Recording_Handler w = Done (w\<lparr>ph := q\<rparr>)"
    "at_handler x Recording_Handler q"
    by (rule set_handler_ok [OF assms])
  then have get: "ph_get x q = Recording_Handler" by (simp add: at_handler_def)
  let ?r = "\<lambda>l c w. Recording_onReportError (describe_report f l (Net c)) w"
  let ?u = "?r 222 InvalidAddress (?r 221 ConnectionRefused (?r 220 Timeout (w\<lparr>ph := q\<rparr>)))"
  have ph: "ph (?r l c v) = ph v" for l c and v :: "'a er_world"
    by (simp add: Recording_onReportError_def er_print_def)
  have at: "at_handler x Recording_Handler (ph ?u)" using q(2) ph by simp
  obtain p where p: "reset_handler x ?u = Done (?u\<lparr>ph := p\<rparr>)" "at_handler x Default_Handler p"
    by (rule reset_handler_ok [OF assms(1) at])
  have "demo_custom_handler x f w = Done (?u\<lparr>ph := p\<rparr>)"
    using q(1) p(1) get ph by (simp add: demo_custom_handler_def report_runtime [OF assms(1)])
  with p(2) that show thesis by simp
qed

lemma show_codes:
  "show_u32 4 = ''4''" "show_u32 3 = ''3''" "show_u32 1 = ''1''" "show_u32 512 = ''512''"
  by code_simp+

lemma demo_fatal_done:
  assumes "iox_laws x" "at_handler x h (ph w)"
  obtains w' where "demo_fatal x f w = Done w'" "at_handler x Default_Handler (ph w')"
    "recorded w' = recorded w"
    "er_out w' = er_out w @
       [''  [ThrowingHandler::onReportError    ] code=4 module=512'',
        ''  [ThrowingHandler::onReportViolation] code=3 module=512'',
        ''  [ThrowingHandler::onReportViolation] code=1 module=512'']"
proof -
  obtain q where q: "set_handler x Throwing_Handler w = Done (w\<lparr>ph := q\<rparr>)"
    "at_handler x Throwing_Handler q"
    by (rule set_handler_ok [OF assms])
  then have get: "ph_get x q = Throwing_Handler" by (simp add: at_handler_def)
  let ?lines = "[''  [ThrowingHandler::onReportError    ] code=4 module=512'',
        ''  [ThrowingHandler::onReportViolation] code=3 module=512'',
        ''  [ThrowingHandler::onReportViolation] code=1 module=512'']"
  let ?u = "w\<lparr>ph := q, er_out := er_out w @ ?lines\<rparr>"
  have at: "at_handler x Throwing_Handler (ph ?u)" using q(2) by simp
  obtain p where p: "reset_handler x ?u = Done (?u\<lparr>ph := p\<rparr>)" "at_handler x Default_Handler p"
    by (rule reset_handler_ok [OF assms(1) at])
  have "demo_fatal x f w = Done (?u\<lparr>ph := p\<rparr>)"
    using q(1) p(1) get
    by (simp add: demo_fatal_def report_def report_if_def Let_def kinds [OF assms(1)]
        Throwing_onReportError_def Throwing_onReportViolation_def er_print_def net_Error_def
        NET_MODULE_ID_def show_codes)
  with p(2) that show thesis by simp
qed

lemma demo_lifecycle_done:
  assumes "iox_laws x" "at_handler x h (ph w)"
  obtains w' where "demo_lifecycle x f w = Done w'" "ph_final x (ph w')"
    "recorded w' = recorded w @ [describe_report f 316 (Net Timeout)]"
proof -
  obtain q where q: "set_handler x Recording_Handler w = Done (w\<lparr>ph := q\<rparr>)"
    "at_handler x Recording_Handler q"
    by (rule set_handler_ok [OF assms])
  let ?u = "Recording_onReportError (describe_report f 316 (Net Timeout)) (w\<lparr>ph := ph_finalize x q\<rparr>)"
  have "demo_lifecycle x f w = Done ?u"
    using q by (simp add: demo_lifecycle_def report_runtime [OF assms(1)] finalize [OF assms(1)]
        at_handler_def)
  moreover have "ph ?u = ph_finalize x q" by (simp add: Recording_onReportError_def er_print_def)
  ultimately show thesis
    using that finalize [OF assms(1)] by simp
qed

text \<open>
  C40: The program as a whole aborts before its last demo: \<open>demo_lifecycle\<close> finalises the
  handler holder, and the \<open>reset\<close> that \<open>main\<close> calls next is a replacement after \<open>finalize\<close>.
  Up to that point the recording handler, one object for the whole run, has the three
  errors of the third demo and the one of the fifth.
\<close>

theorem main_aborts_before_last_demo:
  assumes "iox_laws x"
  shows "\<exists>w. er_main x f = Aborted w \<and>
     recorded w = [describe_report f 220 (Net Timeout), describe_report f 221 (Net ConnectionRefused),
                   describe_report f 222 (Net InvalidAddress), describe_report f 316 (Net Timeout)]"
proof -
  obtain w0 where w0: "static_init x = Done w0" "at_handler x Dispatch_Handler (ph w0)"
    "recorded w0 = []"
    by (rule static_init_done [OF assms])
  obtain q where q: "reset_handler x w0 = Done (w0\<lparr>ph := q\<rparr>)" "at_handler x Default_Handler q"
    by (rule reset_handler_ok [OF assms w0(2)])
  then have at1: "at_handler x Default_Handler (ph (w0\<lparr>ph := q\<rparr>))" by simp
  obtain w1 where w1: "demo_custom_handler x f (w0\<lparr>ph := q\<rparr>) = Done w1"
    "at_handler x Default_Handler (ph w1)" "recorded w1 = recorded (w0\<lparr>ph := q\<rparr>) @
      [describe_report f 220 (Net Timeout), describe_report f 221 (Net ConnectionRefused),
       describe_report f 222 (Net InvalidAddress)]"
    by (rule demo_custom_handler_done [OF assms at1, where f = f])
  obtain w2 where w2: "demo_fatal x f w1 = Done w2" "at_handler x Default_Handler (ph w2)"
    "recorded w2 = recorded w1"
    by (rule demo_fatal_done [OF assms w1(2), where f = f])
  obtain w3 where w3: "demo_lifecycle x f w2 = Done w3" "ph_final x (ph w3)"
    "recorded w3 = recorded w2 @ [describe_report f 316 (Net Timeout)]"
    by (rule demo_lifecycle_done [OF assms w2(2), where f = f])
  have "reset_handler x w3 = Aborted w3"
    using final_reset [OF assms w3(2)] by (simp add: reset_handler_def)
  then have "er_main x f = Aborted w3"
    using w0 q w1 w2 w3 default_demos [OF assms at1] by (simp add: er_main_def)
  with w0 w1 w2 w3 show ?thesis by simp
qed

theorem main_aborts_before_last_demo_witness:
  "\<exists>w. er_main std_iox ''main.cpp'' = Aborted w \<and> length (recorded w) = 4"
  using main_aborts_before_last_demo [OF std_iox_laws, of "''main.cpp''"] by auto

text \<open>
  \<open>ensureInstalled\<close> installs once per program, so it does not bring the
  \<open>DispatchHandler\<close> back after a \<open>reset\<close>: even without the abort, the second call of \<open>main\<close>
  would change nothing, the default handler would stay in place and none of the four reports
  of the last demo would reach a module's handler.
\<close>

theorem reinstall_has_no_effect:
  assumes "iox_laws x"
  shows "\<exists>w w'. static_init x = Done w \<and> ph_get x (ph w) = Dispatch_Handler \<and>
     run_steps [reset_handler x, ensureInstalled x, demo_self_registration x f] w = Done w' \<and>
     ph_get x (ph w') = Default_Handler \<and> er_out w' = er_out w"
proof -
  obtain w0 where w0: "static_init x = Done w0" "at_handler x Dispatch_Handler (ph w0)" "installed w0"
    by (rule static_init_done [OF assms])
  obtain q where q: "reset_handler x w0 = Done (w0\<lparr>ph := q\<rparr>)" "at_handler x Default_Handler q"
    by (rule reset_handler_ok [OF assms w0(2)])
  let ?w = "w0\<lparr>ph := q\<rparr>"
  have "ensureInstalled x ?w = Done ?w" using w0(3) by (simp add: ensureInstalled_def)
  moreover have "demo_self_registration x f ?w = Done ?w"
    using default_demos(3) [OF assms, of ?w f] q(2) by simp
  ultimately have "run_steps [reset_handler x, ensureInstalled x, demo_self_registration x f] w0 = Done ?w"
    using q(1) by simp
  moreover have "ph_get x (ph ?w) = Default_Handler" "er_out ?w = er_out w0"
    using q(2) by (simp_all add: at_handler_def)
  moreover have "ph_get x (ph w0) = Dispatch_Handler" using w0(2) by (simp add: at_handler_def)
  ultimately show ?thesis using w0(1) by blast
qed

theorem reinstall_has_no_effect_witness:
  "\<exists>w w'. static_init std_iox = Done w \<and>
     run_steps [reset_handler std_iox, ensureInstalled std_iox,
       demo_self_registration std_iox ''main.cpp''] w = Done w' \<and>
     ph_get std_iox (ph w') = Default_Handler"
  using reinstall_has_no_effect [OF std_iox_laws, of "''main.cpp''"] by blast

end
