(* ===== verification/Debug_Assert.thy ===== *)
theory Debug_Assert
  imports Prelude
begin

text \<open>
  The assertion library of \<open>src/third_party/debug_assert\<close> and the demonstration of it in
  \<open>src/cpp_test/stand_cpp/015.debug_assert\<close>: handlers with a level, the overloads of
  \<open>do_assert\<close>, the two macros, the handlers the demonstration defines and its parts. The
  headings the parts print in Chinese are left out; everything else they print is kept.
\<close>

section \<open>The library\<close>

record location =
  loc_file :: string
  loc_line :: nat

text \<open>The extra arguments of an assertion, already printable.\<close>

datatype assert_arg = Message string | Number int | Formatted string

text \<open>
  What \<open>Handler::handle\<close> does: write a line to stderr and return, or throw; \<open>None\<close> when no
  overload accepts the arguments (the program does not compile).
\<close>

datatype handled = Handled "string list" | Throws "string list" string

record assert_handler =
  handler_level :: nat
  throwing_exception_is_allowed :: bool
  handle :: "location \<Rightarrow> string \<Rightarrow> assert_arg list \<Rightarrow> handled option"

text \<open>
  How an assertion ends: it passes or is compiled out (nothing happens), the program aborts
  after the handler has returned, the handler's exception leaves the assertion, or it meets
  the \<open>noexcept\<close> of \<open>do_assert\<close> and terminates the program. \<open>Ill_Formed\<close>: does not compile.
  \<open>Undefined_Behaviour\<close>: the language gives the execution no meaning.
\<close>

datatype assert_end =
    Passes
  | Aborts "string list"
  | Throws_Out "string list" string
  | Terminates "string list"
  | Ill_Formed
  | Undefined_Behaviour

definition no_handler :: "location \<Rightarrow> string \<Rightarrow> assert_arg list \<Rightarrow> handled option" where
  "no_handler loc expression args = Some (Handled [])"

definition at_loc :: "location \<Rightarrow> string" where
  "at_loc loc = loc_file loc @ '':'' @ show_nat (loc_line loc)"

fun default_handle :: "location \<Rightarrow> string \<Rightarrow> assert_arg list \<Rightarrow> handled option" where
  "default_handle loc expression [] =
     Some (Handled [if expression = []
       then ''[debug assert] '' @ at_loc loc @ '': Unreachable code reached.''
       else ''[debug assert] '' @ at_loc loc @ '': Assertion '' @ [CHR 0x27] @ expression @
            [CHR 0x27] @ '' failed.''])"
| "default_handle loc expression [Message m] =
     Some (Handled [if expression = []
       then ''[debug assert] '' @ at_loc loc @ '': Unreachable code reached - '' @ m @ ''.''
       else ''[debug assert] '' @ at_loc loc @ '': Assertion '' @ [CHR 0x27] @ expression @
            [CHR 0x27] @ '' failed - '' @ m @ ''.''])"
| "default_handle loc expression _ = None"

definition debug_assertion_failed ::
  "assert_handler \<Rightarrow> location \<Rightarrow> string \<Rightarrow> assert_arg list \<Rightarrow> assert_end" where
  "debug_assertion_failed h loc expression args =
     (case handle h loc expression args of
        None \<Rightarrow> Ill_Formed
      | Some (Handled err) \<Rightarrow> Aborts err
      | Some (Throws err msg) \<Rightarrow>
          if throwing_exception_is_allowed h then Throws_Out err msg else Terminates err)"

text \<open>The four overloads of \<open>do_assert\<close>: with a level tag or without, enabled or not.\<close>

definition do_assert ::
  "bool \<Rightarrow> location \<Rightarrow> string \<Rightarrow> assert_handler \<Rightarrow> nat option \<Rightarrow> assert_arg list \<Rightarrow> assert_end" where
  "do_assert expr loc expression h level args =
     (case level of
        Some l \<Rightarrow>
          if l \<le> handler_level h then
            (if l = 0 then Ill_Formed
             else if expr then Passes else debug_assertion_failed h loc expression args)
          else Passes
      | None \<Rightarrow>
          if handler_level h \<noteq> 0 then
            (if expr then Passes else debug_assertion_failed h loc expression args)
          else Passes)"

definition DEBUG_ASSERT ::
  "bool \<Rightarrow> string \<Rightarrow> location \<Rightarrow> assert_handler \<Rightarrow> nat option \<Rightarrow> assert_arg list \<Rightarrow> assert_end" where
  "DEBUG_ASSERT expr text loc h level args = do_assert expr loc text h level args"

definition DEBUG_UNREACHABLE ::
  "location \<Rightarrow> assert_handler \<Rightarrow> nat option \<Rightarrow> assert_arg list \<Rightarrow> assert_end" where
  "DEBUG_UNREACHABLE loc h level args = do_assert False loc [] h level args"

section \<open>The handlers of the demonstration\<close>

definition default_at :: "nat \<Rightarrow> assert_handler" where
  "default_at n = \<lparr>handler_level = n, throwing_exception_is_allowed = False, handle = default_handle\<rparr>"

definition module_a_assert :: assert_handler where "module_a_assert = default_at 1"
definition strict_assert :: assert_handler where "strict_assert = default_at 3"
definition relaxed_assert :: assert_handler where "relaxed_assert = default_at 1"
definition unreachable_assert :: assert_handler where "unreachable_assert = default_at 1"
definition net_assert :: assert_handler where "net_assert = default_at 0"
definition parser_assert :: assert_handler where "parser_assert = default_at 1"
definition debug_module_assert :: assert_handler where "debug_module_assert = default_at 3"

fun throwing_handle :: "location \<Rightarrow> string \<Rightarrow> assert_arg list \<Rightarrow> handled option" where
  "throwing_handle loc expression [] =
     Some (Throws [] (''[assert failed] '' @ at_loc loc @ '': '' @ [CHR 0x27] @ expression @ [CHR 0x27]))"
| "throwing_handle loc expression [Message m] =
     Some (Throws [] (''[assert failed] '' @ at_loc loc @ '': '' @ [CHR 0x27] @ expression @
                      [CHR 0x27] @ '' - '' @ m))"
| "throwing_handle loc expression _ = None"

definition throwing_assert :: assert_handler where
  "throwing_assert = \<lparr>handler_level = 1, throwing_exception_is_allowed = True, handle = throwing_handle\<rparr>"

text \<open>Its \<open>handle\<close> hides the one of \<open>default_handler\<close>, so it needs message and code.\<close>

fun verbose_handle :: "location \<Rightarrow> string \<Rightarrow> assert_arg list \<Rightarrow> handled option" where
  "verbose_handle loc expression [Message m, Number code] =
     Some (Handled [''[verbose] '' @ at_loc loc @ '': '' @ [CHR 0x27] @ expression @ [CHR 0x27] @
                    '' failed - '' @ m @ '' (code: '' @ to_string code @ '')''])"
| "verbose_handle loc expression _ = None"

definition verbose_assert :: assert_handler where
  "verbose_assert = \<lparr>handler_level = 2, throwing_exception_is_allowed = False, handle = verbose_handle\<rparr>"

text \<open>\<open>std::vformat\<close> is the argument \<open>vformat\<close>.\<close>

fun fmt_handle ::
  "(string \<Rightarrow> assert_arg list \<Rightarrow> string) \<Rightarrow> location \<Rightarrow> string \<Rightarrow> assert_arg list \<Rightarrow> handled option" where
  "fmt_handle vformat loc expression [] =
     (let full = ''[fmt assert] '' @ at_loc loc @ '': '' @ [CHR 0x27] @ expression @ [CHR 0x27] @ '' failed''
      in Some (Throws [full] full))"
| "fmt_handle vformat loc expression (Message fmt # args) =
     (let full = ''[fmt assert] '' @ at_loc loc @ '': '' @ [CHR 0x27] @ expression @ [CHR 0x27] @
                 '' failed - '' @ vformat fmt args
      in Some (Throws [full] full))"
| "fmt_handle vformat loc expression _ = None"

definition fmt_assert :: "(string \<Rightarrow> assert_arg list \<Rightarrow> string) \<Rightarrow> assert_handler" where
  "fmt_assert vformat =
     \<lparr>handler_level = 1, throwing_exception_is_allowed = True, handle = fmt_handle vformat\<rparr>"

section \<open>The parts of the demonstration\<close>

text \<open>
  A part is a list of statements; it stops at the first assertion that does not pass. The
  answer is what it has printed and how it ended. \<open>Try a lines label\<close> is a \<open>try\<close> block with the
  assertion and the lines it prints after it, and a handler that prints the label and the
  exception's text.
\<close>

datatype stmt = Print string | Assert assert_end | Try assert_end "string list" string

fun exec :: "stmt list \<Rightarrow> console \<Rightarrow> console \<times> assert_end" where
  "exec [] out = (out, Passes)"
| "exec (Print s # ss) out = exec ss (out @ [s])"
| "exec (Assert a # ss) out = (if a = Passes then exec ss out else (out, a))"
| "exec (Try a after label # ss) out =
     (case a of
        Passes \<Rightarrow> exec ss (out @ after)
      | Throws_Out err msg \<Rightarrow> exec ss (out @ [label @ msg])
      | _ \<Rightarrow> (out, a))"

definition here :: "string \<Rightarrow> nat \<Rightarrow> location" where
  "here f n = \<lparr>loc_file = f, loc_line = n\<rparr>"

definition demo_basic :: "string \<Rightarrow> stmt list" where
  "demo_basic f = (let x = 42 :: int in
     [Assert (DEBUG_ASSERT (x = 42) ''x == 42'' (here f 39) module_a_assert None []),
      Print ''  DEBUG_ASSERT(x == 42) passed'',
      Assert (DEBUG_ASSERT (x > 0) ''x > 0'' (here f 43) module_a_assert None
                [Message ''x must be positive'']),
      Print ''  DEBUG_ASSERT(x > 0, msg) passed'',
      Assert (DEBUG_ASSERT (x \<noteq> 0) ''x != 0'' (here f 47) module_a_assert (Some 1)
                [Message ''x must not be zero'']),
      Print ''  DEBUG_ASSERT(level<1>) passed'',
      Assert (DEBUG_ASSERT (x = 999) ''x == 999'' (here f 51) module_a_assert (Some 2)
                [Message (''this won'' @ [CHR 0x27] @ ''t fire'')]),
      Print ''  DEBUG_ASSERT(level<2>) skipped (handler level=1 < 2)''])"

definition demo_levels :: "string \<Rightarrow> stmt list" where
  "demo_levels f = (let v = 50 :: int in
     [Assert (DEBUG_ASSERT (v > 0) ''value > 0'' (here f 73) strict_assert (Some 1) [Message ''L1: positive'']),
      Assert (DEBUG_ASSERT (v < 100) ''value < 100'' (here f 74) strict_assert (Some 2) [Message ''L2: < 100'']),
      Assert (DEBUG_ASSERT (v = 50) ''value == 50'' (here f 75) strict_assert (Some 3) [Message ''L3: exactly 50'']),
      Print ''  strict_assert: level<1>, <2>, <3> all checked'',
      Assert (DEBUG_ASSERT (v > 0) ''value > 0'' (here f 79) relaxed_assert (Some 1) [Message ''L1: positive'']),
      Assert (DEBUG_ASSERT (v = 999) ''value == 999'' (here f 80) relaxed_assert (Some 2) [Message ''L2: skipped'']),
      Assert (DEBUG_ASSERT (v = 999) ''value == 999'' (here f 81) relaxed_assert (Some 3) [Message ''L3: skipped'']),
      Print ''  relaxed_assert: only level<1> checked, <2>/<3> optimized away''])"

definition demo_throwing_handler :: "string \<Rightarrow> stmt list" where
  "demo_throwing_handler f =
     [Try (DEBUG_ASSERT ((1 :: int) = 2) ''1 == 2'' (here f 110) throwing_assert None
             [Message ''one is not two''])
        [''  This line should not be reached''] ''  Caught exception: '']"

definition demo_extra_args :: "string \<Rightarrow> stmt list" where
  "demo_extra_args f = (let error_code = -42 :: int in
     [Assert (DEBUG_ASSERT (error_code \<le> 0) ''error_code <= 0'' (here f 138) verbose_assert None
                [Message ''invalid error code'', Number error_code]),
      Assert (DEBUG_ASSERT True ''true'' (here f 142) verbose_assert None
                [Message (''won'' @ [CHR 0x27] @ ''t fire''), Number 0]),
      Print ''  Passed (extra args available but not triggered)''])"

datatype color = Red | Green | Blue

text \<open>
  \<open>color_name\<close> and \<open>safe_div\<close>: a value or the end of the assertion. The enumeration may hold
  another number (\<open>None\<close>); C++ division rounds towards zero, and the one quotient of two
  values of type \<open>int\<close> that does not fit that type is undefined.
\<close>

fun color_name :: "string \<Rightarrow> color option \<Rightarrow> (string, assert_end) expected" where
  "color_name f (Some Red) = Inr ''Red''"
| "color_name f (Some Green) = Inr ''Green''"
| "color_name f (Some Blue) = Inr ''Blue''"
| "color_name f None =
     (let a = DEBUG_UNREACHABLE (here f 167) unreachable_assert None [Message ''unknown color''] in
      if a = Passes then Inr ''???'' else Inl a)"

definition cpp_div :: "int \<Rightarrow> int \<Rightarrow> int" where
  "cpp_div a b = sgn a * sgn b * (\<bar>a\<bar> div \<bar>b\<bar>)"

definition safe_div :: "string \<Rightarrow> int \<Rightarrow> int \<Rightarrow> (int, assert_end) expected" where
  "safe_div f a b =
     (if b \<noteq> 0 then (if a = - (2 ^ 31) \<and> b = -1 then Inl Undefined_Behaviour else Inr (cpp_div a b))
      else (let r = DEBUG_UNREACHABLE (here f 173) unreachable_assert None [Message ''division by zero'']
            in if r = Passes then Inr 0 else Inl r))"

fun show_result :: "string \<Rightarrow> (string, assert_end) expected \<Rightarrow> stmt" where
  "show_result label (Inr s) = Print (label @ s)"
| "show_result label (Inl a) = Assert a"

definition demo_unreachable :: "string \<Rightarrow> stmt list" where
  "demo_unreachable f =
     [show_result ''  color_name(Red)   = '' (color_name f (Some Red)),
      show_result ''  color_name(Green) = '' (color_name f (Some Green)),
      show_result ''  color_name(Blue)  = '' (color_name f (Some Blue)),
      show_result ''  safe_div(10, 2) = '' (map_sum id to_string (safe_div f 10 2))]"

definition simulate_network :: "string \<Rightarrow> int \<Rightarrow> stmt list" where
  "simulate_network f port =
     [Assert (DEBUG_ASSERT (port > 0 \<and> port < 65536) ''port > 0 && port < 65536'' (here f 206)
                net_assert None [Message ''invalid port'']),
      Print (''  [net] listening on port '' @ to_string port @ '' (assert compiled out)'')]"

definition simulate_parse :: "string \<Rightarrow> string \<Rightarrow> stmt list" where
  "simulate_parse f inp =
     [Assert (DEBUG_ASSERT (inp \<noteq> []) ''!input.empty()'' (here f 211) parser_assert None
                [Message ''input must not be empty'']),
      Print (''  [parser] parsing: '' @ inp)]"

definition simulate_debug :: "string \<Rightarrow> int \<Rightarrow> stmt list" where
  "simulate_debug f v =
     [Assert (DEBUG_ASSERT (v \<ge> 0) ''value >= 0'' (here f 216) debug_module_assert (Some 1)
                [Message ''non-negative'']),
      Assert (DEBUG_ASSERT (v < 1000) ''value < 1000'' (here f 217) debug_module_assert (Some 2)
                [Message ''< 1000'']),
      Assert (DEBUG_ASSERT (v mod 2 = 0) ''value % 2 == 0'' (here f 218) debug_module_assert (Some 3)
                [Message ''must be even'']),
      Print (''  [debug] value '' @ to_string v @ '' passed all checks'')]"

definition demo_per_module :: "string \<Rightarrow> stmt list" where
  "demo_per_module f =
     simulate_network f 8080 @ simulate_parse f ''hello world'' @ simulate_debug f 42"

definition demo_fmt :: "(string \<Rightarrow> assert_arg list \<Rightarrow> string) \<Rightarrow> string \<Rightarrow> stmt list" where
  "demo_fmt vformat f = (let a = 1 :: int; b = Formatted ''3.14'' in
     [Try (DEBUG_ASSERT (a = 2) ''a == 2'' (here f 276) (fmt_assert vformat) None []) [] ''  Caught: '',
      Try (DEBUG_ASSERT (a = 2) ''a == 2'' (here f 283) (fmt_assert vformat) None
             [Message ''expected a={} to equal 2, pi={:.2f}'', Number a, b]) [] ''  Caught: '',
      Try (DEBUG_ASSERT (a > 100) ''a > 100'' (here f 291) (fmt_assert vformat) None
             [Message ''name={}, a={}, b={:.1f}'', Formatted ''test'', Number a, b]) [] ''  Caught: ''])"

definition assert_main :: "(string \<Rightarrow> assert_arg list \<Rightarrow> string) \<Rightarrow> string \<Rightarrow> console \<times> assert_end" where
  "assert_main vformat f =
     exec (demo_basic f @ demo_levels f @ demo_throwing_handler f @ demo_extra_args f @
           demo_unreachable f @ demo_per_module f @ demo_fmt vformat f) []"

section \<open>Properties\<close>

text \<open>The level that decides whether an assertion is there at all.\<close>

definition enabled :: "assert_handler \<Rightarrow> nat option \<Rightarrow> bool" where
  "enabled h level = (case level of Some l \<Rightarrow> l \<le> handler_level h | None \<Rightarrow> handler_level h \<noteq> 0)"

definition well_formed :: "nat option \<Rightarrow> bool" where
  "well_formed level \<longleftrightarrow> level \<noteq> Some 0"

text \<open>
  An assertion does nothing exactly when its expression holds or its level is above
  that of the handler (without a level: the handler's level is 0). Otherwise the program
  does not go on normally: if the handler returns it aborts with what the handler wrote; if
  the handler throws, the exception leaves the assertion when the handler is declared to
  allow it and ends the program when it is not. Raising a handler's level only adds checks.
\<close>

theorem assertion_semantics:
  assumes "well_formed level"
  shows "(do_assert expr loc txt h level args = Passes \<longleftrightarrow> expr \<or> \<not> enabled h level) \<and>
    (\<not> expr \<and> enabled h level \<longrightarrow>
       do_assert expr loc txt h level args =
         (case handle h loc txt args of
            None \<Rightarrow> Ill_Formed
          | Some (Handled err) \<Rightarrow> Aborts err
          | Some (Throws err msg) \<Rightarrow>
              if throwing_exception_is_allowed h then Throws_Out err msg else Terminates err)) \<and>
    (handler_level h \<le> handler_level h' \<and> enabled h level \<longrightarrow> enabled h' level)"
  using assms
  by (auto simp: do_assert_def enabled_def well_formed_def debug_assertion_failed_def
      split: option.splits handled.splits)

theorem assertion_semantics_witness:
  "do_assert False (here ''f'' 1) ''x'' module_a_assert (Some 2) [] = Passes \<and>
   do_assert False (here ''f'' 1) ''x'' throwing_assert (Some 1) [] \<noteq> Passes"
  using assertion_semantics [of "Some 2" False "here ''f'' 1" "''x''" module_a_assert "[]"]
    assertion_semantics [of "Some 1" False "here ''f'' 1" "''x''" throwing_assert "[]"]
  by (simp add: well_formed_def enabled_def module_a_assert_def default_at_def throwing_assert_def)

text \<open>
  The demonstration runs to its end: no assertion of it aborts the program, the
  throwing ones are caught (four times), and the assertion on \<open>error_code\<close> that a comment
  says fires does not. The three modules accept exactly the inputs their levels check: a bad
  port passes, an empty input aborts, a value must be even, non-negative and below 1000.
\<close>

theorem debug_assert_demo:
  "snd (assert_main vformat f) = Passes \<and> length (fst (assert_main vformat f)) = 18 \<and>
   exec (simulate_network f port) out = (out @ [''  [net] listening on port '' @ to_string port @
       '' (assert compiled out)''], Passes) \<and>
   (snd (exec (simulate_parse f inp) out) = Passes \<longleftrightarrow> inp \<noteq> []) \<and>
   (snd (exec (simulate_debug f v) out) = Passes \<longleftrightarrow> 0 \<le> v \<and> v < 1000 \<and> even v)"
proof -
  note defs = DEBUG_ASSERT_def DEBUG_UNREACHABLE_def do_assert_def debug_assertion_failed_def
    default_at_def module_a_assert_def strict_assert_def relaxed_assert_def unreachable_assert_def
    net_assert_def parser_assert_def debug_module_assert_def throwing_assert_def verbose_assert_def
    fmt_assert_def
  have "snd (assert_main vformat f) = Passes \<and> length (fst (assert_main vformat f)) = 18"
    by (simp add: assert_main_def demo_basic_def demo_levels_def demo_throwing_handler_def
        demo_extra_args_def demo_unreachable_def demo_per_module_def demo_fmt_def
        simulate_network_def simulate_parse_def simulate_debug_def safe_div_def Let_def defs)
  moreover have "exec (simulate_network f port) out = (out @ [''  [net] listening on port '' @
      to_string port @ '' (assert compiled out)''], Passes)"
    by (simp add: simulate_network_def defs)
  moreover have "snd (exec (simulate_parse f inp) out) = Passes \<longleftrightarrow> inp \<noteq> []"
    by (simp add: simulate_parse_def defs)
  moreover have "snd (exec (simulate_debug f v) out) = Passes \<longleftrightarrow> 0 \<le> v \<and> v < 1000 \<and> even v"
    by (simp add: simulate_debug_def defs even_iff_mod_2_eq_zero)
  ultimately show ?thesis by blast
qed

text \<open>
  \<open>safe_div\<close> returns the quotient rounded towards zero for every non-zero divisor, so
  that quotient times divisor differs from the dividend by less than the divisor and never
  exceeds it in absolute value; a zero divisor aborts with the message of the assertion. The
  guard misses one case: the least \<open>int\<close> divided by -1 is undefined.
\<close>

theorem safe_div_correct:
  "(b \<noteq> 0 \<and> (a, b) \<noteq> (- (2 ^ 31), -1) \<longrightarrow> (\<exists>q. safe_div f a b = Inr q \<and> \<bar>a - q * b\<bar> < \<bar>b\<bar> \<and> \<bar>q * b\<bar> \<le> \<bar>a\<bar> \<and>
      (q \<noteq> 0 \<longrightarrow> sgn q = sgn a * sgn b))) \<and>
   safe_div f a 0 = Inl (Aborts [''[debug assert] '' @ at_loc (here f 173) @
      '': Unreachable code reached - division by zero.'']) \<and>
   safe_div f (- (2 ^ 31)) (-1) = Inl Undefined_Behaviour"
proof -
  have "\<exists>q. safe_div f a b = Inr q \<and> \<bar>a - q * b\<bar> < \<bar>b\<bar> \<and> \<bar>q * b\<bar> \<le> \<bar>a\<bar> \<and>
      (q \<noteq> 0 \<longrightarrow> sgn q = sgn a * sgn b)" if b: "b \<noteq> 0" "(a, b) \<noteq> (- (2 ^ 31), -1)"
  proof (intro exI conjI)
    define d where "d = \<bar>a\<bar> div \<bar>b\<bar>"
    have "d * \<bar>b\<bar> + \<bar>a\<bar> mod \<bar>b\<bar> = \<bar>a\<bar>" "0 \<le> \<bar>a\<bar> mod \<bar>b\<bar>" "\<bar>a\<bar> mod \<bar>b\<bar> < \<bar>b\<bar>" "0 \<le> d"
      using b by (simp_all add: d_def pos_imp_zdiv_nonneg_iff)
    then have d: "0 \<le> d" "d * \<bar>b\<bar> \<le> \<bar>a\<bar>" "\<bar>a\<bar> - d * \<bar>b\<bar> < \<bar>b\<bar>"
      by linarith+
    have q: "cpp_div a b = sgn a * sgn b * d" by (simp add: cpp_div_def d_def)
    have qb: "cpp_div a b * b = sgn a * (d * \<bar>b\<bar>)"
      by (simp add: q abs_sgn [of b] ac_simps)
    have a: "a = sgn a * \<bar>a\<bar>" by (simp add: mult_sgn_abs)
    show "safe_div f a b = Inr (cpp_div a b)" using b by (auto simp: safe_div_def)
    have diff: "a - cpp_div a b * b = sgn a * (\<bar>a\<bar> - d * \<bar>b\<bar>)"
      by (subst a) (simp add: qb right_diff_distrib)
    have "\<bar>a - cpp_div a b * b\<bar> = (if a = 0 then 0 else \<bar>a\<bar> - d * \<bar>b\<bar>)"
      using d(2) by (simp add: diff abs_mult)
    then show "\<bar>a - cpp_div a b * b\<bar> < \<bar>b\<bar>" using d b by (auto split: if_splits)
    show "\<bar>cpp_div a b * b\<bar> \<le> \<bar>a\<bar>"
      using d by (simp add: qb abs_mult)
    show "cpp_div a b \<noteq> 0 \<longrightarrow> sgn (cpp_div a b) = sgn a * sgn b"
      using d(1) by (auto simp: q sgn_mult)
  qed
  moreover have "safe_div f a 0 = Inl (Aborts [''[debug assert] '' @ at_loc (here f 173) @
      '': Unreachable code reached - division by zero.''])"
    by (simp add: safe_div_def DEBUG_UNREACHABLE_def do_assert_def debug_assertion_failed_def
        unreachable_assert_def default_at_def Let_def)
  moreover have "safe_div f (- (2 ^ 31)) (-1) = Inl Undefined_Behaviour" by (simp add: safe_div_def)
  ultimately show ?thesis by blast
qed

theorem safe_div_correct_witness:
  "\<exists>q. safe_div ''f'' (-7) 2 = Inr q \<and> \<bar>-7 - q * 2\<bar> < \<bar>2\<bar>"
  using safe_div_correct [of 2 "-7" "''f''"] by auto

end
