(* ===== verification/Object_Pool.thy ===== *)
theory Object_Pool
  imports Prelude
begin

text \<open>
  The object pool of \<open>src/cpp_test/iceoryx/001.cmake\<close> (\<open>demo_mpmc_loffli\<close>): worker threads
  take slots of a fixed array through a free list of indices, fill them, and give them
  back. The free list (\<open>MpmcLoFFLi\<close>) is iceoryx code: the argument \<open>fl\<close>, with \<open>free_laws\<close>
  saying that it hands out each free index to one caller at a time. The values of type
  double are left out of the sensors.
\<close>

section \<open>The free list\<close>

text \<open>\<open>fl_free\<close> is the set of indices the list holds, in terms of which it is documented.\<close>

record 'l free_ops =
  fl_init :: "nat \<Rightarrow> 'l"
  fl_pop :: "'l \<Rightarrow> (nat \<times> 'l) option"
  fl_push :: "nat \<Rightarrow> 'l \<Rightarrow> bool \<times> 'l"
  fl_free :: "'l \<Rightarrow> nat set"
  fl_capacity :: "'l \<Rightarrow> nat"

definition free_laws :: "'l free_ops \<Rightarrow> bool" where
  "free_laws fl \<longleftrightarrow>
     (\<forall>n. fl_free fl (fl_init fl n) = {..<n} \<and> fl_capacity fl (fl_init fl n) = n) \<and>
     (\<forall>l. fl_pop fl l = None \<longleftrightarrow> fl_free fl l = {}) \<and>
     (\<forall>l i l'. fl_pop fl l = Some (i, l') \<longrightarrow>
        i \<in> fl_free fl l \<and> fl_free fl l' = fl_free fl l - {i} \<and> fl_capacity fl l' = fl_capacity fl l) \<and>
     (\<forall>l i. i < fl_capacity fl l \<longrightarrow> i \<notin> fl_free fl l \<longrightarrow>
        (\<exists>l'. fl_push fl i l = (True, l') \<and> fl_free fl l' = insert i (fl_free fl l) \<and>
              fl_capacity fl l' = fl_capacity fl l)) \<and>
     (\<forall>l i. \<not> i < fl_capacity fl l \<or> i \<in> fl_free fl l \<longrightarrow> fl_push fl i l = (False, l))"

text \<open>A stack of indices has them.\<close>

definition stack_free :: "(nat list \<times> nat) free_ops" where
  "stack_free = \<lparr>fl_init = (\<lambda>n. ([0..<n], n)),
     fl_pop = (\<lambda>l. case fst l of [] \<Rightarrow> None | i # is \<Rightarrow> Some (i, (removeAll i is, snd l))),
     fl_push = (\<lambda>i l. if i < snd l \<and> i \<notin> set (fst l) then (True, (i # fst l, snd l)) else (False, l)),
     fl_free = (\<lambda>l. set (fst l)), fl_capacity = snd\<rparr>"

lemma stack_free_laws: "free_laws stack_free"
  unfolding free_laws_def stack_free_def
  by (intro conjI allI) (auto split: list.splits if_splits)

section \<open>The pool\<close>

record sensor =
  sensor_id :: int

text \<open>
  A worker has a loop counter, the slots it has acquired (the last one possibly not filled
  yet), and then the list of slots it still has to give back.
\<close>

datatype worker = Allocating nat "nat list" | Filling nat "nat list" nat | Freeing "nat list" | Worker_Done

record 'l object_pool =
  loffli :: 'l
  slots :: "sensor list"
  workers :: "worker list"
  exhausted :: nat

definition POOL_SIZE :: nat where "POOL_SIZE = 8"
definition NUM_THREADS :: nat where "NUM_THREADS = 4"
definition OPS_PER_THREAD :: nat where "OPS_PER_THREAD = 6"

definition pool_start :: "'l free_ops \<Rightarrow> nat \<Rightarrow> nat \<Rightarrow> 'l object_pool" where
  "pool_start fl n_slots threads =
     \<lparr>loffli = fl_init fl n_slots, slots = replicate n_slots \<lparr>sensor_id = 0\<rparr>,
      workers = replicate threads (Allocating 0 []), exhausted = 0\<rparr>"

definition allocate :: "'l free_ops \<Rightarrow> 'l object_pool \<Rightarrow> (nat \<times> 'l object_pool) option" where
  "allocate fl p =
     (case fl_pop fl (loffli p) of
        None \<Rightarrow> None
      | Some (idx, l) \<Rightarrow> Some (idx, p\<lparr>loffli := l, slots := (slots p)[idx := \<lparr>sensor_id = 0\<rparr>]\<rparr>))"

definition deallocate :: "'l free_ops \<Rightarrow> nat \<Rightarrow> 'l object_pool \<Rightarrow> bool \<times> 'l object_pool" where
  "deallocate fl idx p =
     (let (ok, l) = fl_push fl idx (loffli p) in (ok, p\<lparr>loffli := l\<rparr>))"

definition set_worker_pc :: "nat \<Rightarrow> worker \<Rightarrow> 'l object_pool \<Rightarrow> 'l object_pool" where
  "set_worker_pc t w p = p\<lparr>workers := (workers p)[t := w]\<rparr>"

text \<open>One step of worker \<open>t\<close>: an allocation, the filling of the slot, or a deallocation.\<close>

definition worker_pool_step :: "'l free_ops \<Rightarrow> nat \<Rightarrow> nat \<Rightarrow> 'l object_pool \<Rightarrow> 'l object_pool option" where
  "worker_pool_step fl ops t p =
     (if t < length (workers p) then
        (case workers p ! t of
           Allocating i acquired \<Rightarrow>
             Some (if i < ops
                   then (case allocate fl p of
                           Some (s, p') \<Rightarrow> set_worker_pc t (Filling i acquired s) p'
                         | None \<Rightarrow> set_worker_pc t (Allocating (Suc i) acquired)
                                    (p\<lparr>exhausted := Suc (exhausted p)\<rparr>))
                   else set_worker_pc t (Freeing acquired) p)
         | Filling i acquired s \<Rightarrow>
             Some (set_worker_pc t (Allocating (Suc i) (acquired @ [s]))
                     (p\<lparr>slots := (slots p)[s := \<lparr>sensor_id = int t * 100 + int i\<rparr>]\<rparr>))
         | Freeing [] \<Rightarrow> Some (set_worker_pc t Worker_Done p)
         | Freeing (s # ss) \<Rightarrow> Some (set_worker_pc t (Freeing ss) (snd (deallocate fl s p)))
         | Worker_Done \<Rightarrow> None)
      else None)"

text \<open>The last loop of the demo counts how many indices can be popped.\<close>

fun count_free :: "'l free_ops \<Rightarrow> nat \<Rightarrow> 'l \<Rightarrow> nat option" where
  "count_free fl 0 l = None"
| "count_free fl (Suc fuel) l =
     (case fl_pop fl l of None \<Rightarrow> Some 0 | Some (i, l') \<Rightarrow> map_option Suc (count_free fl fuel l'))"

section \<open>No slot has two owners\<close>

fun holds :: "worker \<Rightarrow> nat list" where
  "holds (Allocating i acquired) = acquired"
| "holds (Filling i acquired s) = acquired @ [s]"
| "holds (Freeing ss) = ss"
| "holds Worker_Done = []"

definition slot_inv :: "'l free_ops \<Rightarrow> nat \<Rightarrow> 'l object_pool \<Rightarrow> bool" where
  "slot_inv fl n p \<longleftrightarrow>
     fl_capacity fl (loffli p) = n \<and>
     distinct (concat (map holds (workers p))) \<and>
     fl_free fl (loffli p) \<union> set (concat (map holds (workers p))) = {..<n} \<and>
     fl_free fl (loffli p) \<inter> set (concat (map holds (workers p))) = {}"

lemma free_facts:
  assumes "free_laws fl"
  shows fl_init_free: "fl_free fl (fl_init fl n) = {..<n}" "fl_capacity fl (fl_init fl n) = n"
    and fl_pop_None: "fl_pop fl l = None \<longleftrightarrow> fl_free fl l = {}"
    and fl_pop_Some: "fl_pop fl l = Some (i, l') \<Longrightarrow>
        i \<in> fl_free fl l \<and> fl_free fl l' = fl_free fl l - {i} \<and> fl_capacity fl l' = fl_capacity fl l"
    and fl_push_ok: "i < fl_capacity fl l \<Longrightarrow> i \<notin> fl_free fl l \<Longrightarrow>
        \<exists>l'. fl_push fl i l = (True, l') \<and> fl_free fl l' = insert i (fl_free fl l) \<and>
             fl_capacity fl l' = fl_capacity fl l"
  using assms unfolding free_laws_def by simp_all

lemma held_update:
  assumes "t < length ws"
  shows "concat (map holds (ws[t := w])) =
     concat (map holds (take t ws)) @ holds w @ concat (map holds (drop (Suc t) ws))"
  using assms by (simp add: upd_conv_take_nth_drop)

lemma held_split:
  assumes "t < length ws"
  shows "concat (map holds ws) =
     concat (map holds (take t ws)) @ holds (ws ! t) @ concat (map holds (drop (Suc t) ws))"
  using held_update [OF assms, of "ws ! t"] by simp

lemma slot_inv_step:
  assumes laws: "free_laws fl" and inv: "slot_inv fl n p"
    and step: "worker_pool_step fl ops t p = Some p'"
  shows "slot_inv fl n p'"
proof -
  from step have t: "t < length (workers p)"
    by (simp add: worker_pool_step_def split: if_splits)
  let ?A = "concat (map holds (take t (workers p)))"
  let ?B = "concat (map holds (drop (Suc t) (workers p)))"
  note split = held_split [OF t] and upd = held_update [OF t]
  note inv' = inv [unfolded slot_inv_def split]
  have keep: "slot_inv fl n (set_worker_pc t w q)"
    if "holds w = holds (workers p ! t)" "loffli q = loffli p" "workers q = workers p" for w q
    using inv that by (simp add: slot_inv_def set_worker_pc_def upd split)
  show ?thesis
  proof (cases "workers p ! t")
    case (Allocating i acquired)
    show ?thesis
    proof (cases "i < ops \<and> fl_pop fl (loffli p) \<noteq> None")
      case False
      then have "p' = set_worker_pc t (Allocating (Suc i) acquired) (p\<lparr>exhausted := Suc (exhausted p)\<rparr>)
          \<or> p' = set_worker_pc t (Freeing acquired) p"
        using step t Allocating
        by (auto simp: worker_pool_step_def allocate_def split: if_splits option.splits)
      then show ?thesis using Allocating by (auto intro!: keep)
    next
      case True
      then obtain s l where pop: "fl_pop fl (loffli p) = Some (s, l)" by fastforce
      have p': "p' = set_worker_pc t (Filling i acquired s)
          (p\<lparr>loffli := l, slots := (slots p)[s := \<lparr>sensor_id = 0\<rparr>]\<rparr>)"
        using step t Allocating True pop by (simp add: worker_pool_step_def allocate_def)
      note f = fl_pop_Some [OF laws pop]
      show ?thesis
        using inv' f Allocating unfolding slot_inv_def p' by (auto simp: set_worker_pc_def upd)
    qed
  next
    case (Filling i acquired s)
    then have "p' = set_worker_pc t (Allocating (Suc i) (acquired @ [s]))
        (p\<lparr>slots := (slots p)[s := \<lparr>sensor_id = int t * 100 + int i\<rparr>]\<rparr>)"
      using step t by (simp add: worker_pool_step_def)
    then show ?thesis using Filling by (auto intro!: keep)
  next
    case (Freeing ss)
    show ?thesis
    proof (cases ss)
      case Nil
      then have "p' = set_worker_pc t Worker_Done p"
        using step t Freeing by (simp add: worker_pool_step_def)
      then show ?thesis using Freeing Nil by (auto intro!: keep)
    next
      case (Cons s rest)
      have s: "s < n" "s \<notin> fl_free fl (loffli p)"
        using inv' Freeing Cons by auto
      then obtain l where l: "fl_push fl s (loffli p) = (True, l)"
        "fl_free fl l = insert s (fl_free fl (loffli p))" "fl_capacity fl l = n"
        using fl_push_ok [OF laws, of s "loffli p"] inv by (auto simp: slot_inv_def)
      have p': "p' = set_worker_pc t (Freeing rest) (p\<lparr>loffli := l\<rparr>)"
        using step t Freeing Cons l(1) by (simp add: worker_pool_step_def deallocate_def Let_def)
      show ?thesis
        using inv' l Freeing Cons unfolding slot_inv_def p' by (auto simp: set_worker_pc_def upd)
    qed
  qed (use step t in \<open>simp add: worker_pool_step_def\<close>)
qed

fun pool_schedule :: "'l free_ops \<Rightarrow> nat \<Rightarrow> nat list \<Rightarrow> 'l object_pool \<Rightarrow> 'l object_pool option" where
  "pool_schedule fl ops [] p = Some p"
| "pool_schedule fl ops (t # ts) p =
     (case worker_pool_step fl ops t p of None \<Rightarrow> None | Some q \<Rightarrow> pool_schedule fl ops ts q)"

lemma slot_inv_start: "free_laws fl \<Longrightarrow> slot_inv fl n (pool_start fl n k)"
  by (simp add: slot_inv_def pool_start_def fl_init_free)

lemma slot_inv_schedule:
  assumes "free_laws fl"
  shows "pool_schedule fl ops ts p = Some q \<Longrightarrow> slot_inv fl n p \<Longrightarrow> slot_inv fl n q"
proof (induction ts arbitrary: p)
  case (Cons t ts)
  then show ?case using slot_inv_step [OF assms] by (auto split: option.splits)
qed simp

lemma count_free_all:
  assumes laws: "free_laws fl"
  shows "finite (fl_free fl l) \<Longrightarrow> card (fl_free fl l) < fuel \<Longrightarrow>
         count_free fl fuel l = Some (card (fl_free fl l))"
proof (induction fuel arbitrary: l)
  case (Suc fuel)
  show ?case
  proof (cases "fl_pop fl l")
    case None
    then show ?thesis using fl_pop_None [OF laws, of l] by simp
  next
    case (Some r)
    then obtain i l' where pop: "fl_pop fl l = Some (i, l')" by (cases r) auto
    note f = fl_pop_Some [OF laws pop]
    have c: "Suc (card (fl_free fl l')) = card (fl_free fl l)"
      using card_Suc_Diff1 [OF Suc.prems(1)] f by metis
    have "finite (fl_free fl l')" using f Suc.prems(1) by simp
    moreover have "card (fl_free fl l') < fuel" using c Suc.prems(2) by linarith
    ultimately have "count_free fl fuel l' = Some (card (fl_free fl l'))" by (rule Suc.IH)
    then show ?thesis using pop c by simp
  qed
qed simp

text \<open>
  However the workers' steps interleave, no slot is held by two of them or held and free
  at once, and every slot is either held or free. So when all workers are done, all slots
  are back: the final loop of the demo ends and counts exactly the size of the pool.
\<close>

theorem object_pool_recovered:
  assumes "free_laws fl" "pool_schedule fl ops ts (pool_start fl n k) = Some p"
  shows "distinct (concat (map holds (workers p))) \<and>
         fl_free fl (loffli p) \<inter> set (concat (map holds (workers p))) = {} \<and>
         ((\<forall>w \<in> set (workers p). w = Worker_Done) \<longrightarrow> count_free fl (Suc n) (loffli p) = Some n)"
proof -
  note inv = slot_inv_schedule [OF assms slot_inv_start [OF assms(1)]]
  have "count_free fl (Suc n) (loffli p) = Some n" if "\<forall>w \<in> set (workers p). w = Worker_Done"
  proof -
    have "concat (map holds (workers p)) = []" using that by (auto simp: concat_eq_Nil_conv)
    then have "fl_free fl (loffli p) = {..<n}" using inv by (simp add: slot_inv_def)
    then show ?thesis using count_free_all [OF assms(1), of "loffli p" "Suc n"] by simp
  qed
  with inv show ?thesis by (simp add: slot_inv_def)
qed

theorem object_pool_recovered_witness:
  "\<exists>p. pool_schedule stack_free 1 [0, 1, 0, 0, 0, 1, 1, 1, 0, 1] (pool_start stack_free 2 2) = Some p \<and>
     count_free stack_free 3 (loffli p) = Some 2"
proof -
  obtain p where p: "pool_schedule stack_free 1 [0, 1, 0, 0, 0, 1, 1, 1, 0, 1] (pool_start stack_free 2 2) = Some p"
    "workers p = [Worker_Done, Worker_Done]"
    by (simp add: pool_start_def worker_pool_step_def allocate_def deallocate_def stack_free_def
        set_worker_pc_def numeral_2_eq_2 Let_def upt_rec)
  show ?thesis
    using object_pool_recovered [OF stack_free_laws p(1)] p by (simp add: numeral_3_eq_3 numeral_2_eq_2)
qed

end
