(* ===== verification/Echo_Session.thy ===== *)
theory Echo_Session
  imports Prelude "HOL-Library.Sublist"
begin

text \<open>
  The session of \<open>src/boost_test/asio/013.mutual_exclusion_1\<close>: two coroutines, one that
  echoes lines and one that sends heartbeats, write to one socket and exclude each other with
  a channel of capacity one. The \<open>io_context\<close> has one thread, so a coroutine runs alone
  between two of its suspension points; a step is such a run, and the answers of the network
  and of the timer are arguments of the step. The channel is Boost code: the argument \<open>lo\<close>,
  with \<open>lock_laws\<close> saying what its documentation promises.
\<close>

section \<open>The channel used as a lock\<close>

text \<open>
  What is documented of a channel with room for one message: how many messages are buffered,
  which senders are suspended, and whose send has completed (\<open>True\<close>) or was cancelled
  (\<open>False\<close>) without the sender having been resumed yet.
\<close>

record lock_view =
  buffered :: nat
  waiting :: "nat list"
  completed :: "nat \<rightharpoonup> bool"

definition view_new :: lock_view where
  "view_new = \<lparr>buffered = 0, waiting = [], completed = Map.empty\<rparr>"

definition view_try_send :: "lock_view \<Rightarrow> bool \<times> lock_view" where
  "view_try_send v = (if buffered v < 1 then (True, v\<lparr>buffered := Suc (buffered v)\<rparr>) else (False, v))"

definition view_async_send :: "nat \<Rightarrow> lock_view \<Rightarrow> lock_view" where
  "view_async_send a v =
     (if buffered v < 1 then v\<lparr>buffered := Suc (buffered v), completed := (completed v)(a \<mapsto> True)\<rparr>
      else v\<lparr>waiting := waiting v @ [a]\<rparr>)"

definition view_try_receive :: "lock_view \<Rightarrow> lock_view" where
  "view_try_receive v =
     (if buffered v = 0 then v
      else case waiting v of
          [] \<Rightarrow> v\<lparr>buffered := buffered v - 1\<rparr>
        | a # as \<Rightarrow> v\<lparr>waiting := as, completed := (completed v)(a \<mapsto> True)\<rparr>)"

definition view_cancel :: "lock_view \<Rightarrow> lock_view" where
  "view_cancel v =
     v\<lparr>waiting := [], completed := (\<lambda>a. if a \<in> set (waiting v) then Some False else completed v a)\<rparr>"

record 'k lock_ops =
  lk_new :: 'k
  lk_try_send :: "'k \<Rightarrow> bool \<times> 'k"
  lk_async_send :: "nat \<Rightarrow> 'k \<Rightarrow> 'k"
  lk_resume :: "nat \<Rightarrow> 'k \<Rightarrow> (bool \<times> 'k) option"
  lk_try_receive :: "'k \<Rightarrow> 'k"
  lk_cancel :: "'k \<Rightarrow> 'k"
  lk_view :: "'k \<Rightarrow> lock_view"

definition lock_laws :: "'k lock_ops \<Rightarrow> bool" where
  "lock_laws lo \<longleftrightarrow>
     lk_view lo (lk_new lo) = view_new \<and>
     (\<forall>k. map_prod id (lk_view lo) (lk_try_send lo k) = view_try_send (lk_view lo k)) \<and>
     (\<forall>a k. lk_view lo (lk_async_send lo a k) = view_async_send a (lk_view lo k)) \<and>
     (\<forall>a k. map_option (map_prod id (lk_view lo)) (lk_resume lo a k) =
        map_option (\<lambda>ok. (ok, lk_view lo k\<lparr>completed := (completed (lk_view lo k))(a := None)\<rparr>))
          (completed (lk_view lo k) a)) \<and>
     (\<forall>k. lk_view lo (lk_try_receive lo k) = view_try_receive (lk_view lo k)) \<and>
     (\<forall>k. lk_view lo (lk_cancel lo k) = view_cancel (lk_view lo k))"

definition view_lock :: "lock_view lock_ops" where
  "view_lock = \<lparr>lk_new = view_new, lk_try_send = view_try_send, lk_async_send = view_async_send,
     lk_resume = (\<lambda>a v. map_option (\<lambda>ok. (ok, v\<lparr>completed := (completed v)(a := None)\<rparr>)) (completed v a)),
     lk_try_receive = view_try_receive, lk_cancel = view_cancel, lk_view = (\<lambda>v. v)\<rparr>"

lemma view_lock_laws: "lock_laws view_lock"
  by (simp add: lock_laws_def view_lock_def option.map_comp comp_def prod.map_ident
      option.map_ident id_def)

section \<open>The session\<close>

text \<open>
  Where the two coroutines are suspended: \<open>handle_messages\<close> in \<open>async_read_until\<close>, in
  \<open>async_send\<close>, or in one of the two \<open>async_write\<close> calls (with the bytes still to be sent and the
  length of the line); \<open>send_heartbeats\<close> on the timer, in \<open>async_send\<close> or in \<open>async_write\<close>.
\<close>

datatype handle_pc = H_Reading | H_Locking nat | H_Tag string nat | H_Line string nat | H_Ended
datatype beat_pc = B_Timer | B_Locking | B_Writing string | B_Ended

text \<open>
  \<open>sock_in\<close> and \<open>sock_out\<close> are the bytes the client has sent and got; \<open>line_data\<close> is the
  local \<open>data\<close> of \<open>handle_messages\<close>.
\<close>

record 'k echo_session =
  socket_open :: bool
  sock_in :: string
  sock_out :: string
  write_lock :: 'k
  line_data :: string
  handle_at :: handle_pc
  beat_at :: beat_pc

text \<open>What completes the awaited operation; \<open>Proceed\<close>: nothing outside is needed.\<close>

datatype net = Received string | Sent nat | Timer_Expired | Proceed | Failed

definition max_line_length :: nat where "max_line_length = 1024"
definition line_tag :: string where "line_tag = ''<line>''"
definition heartbeat :: string where "heartbeat = ''<heartbeat>'' @ [CHR 0x0A]"

definition echo_start :: "'k lock_ops \<Rightarrow> 'k echo_session" where
  "echo_start lo = \<lparr>socket_open = True, sock_in = [], sock_out = [], write_lock = lk_new lo,
     line_data = [], handle_at = H_Reading, beat_at = B_Timer\<rparr>"

definition echo_stop :: "'k lock_ops \<Rightarrow> 'k echo_session \<Rightarrow> 'k echo_session" where
  "echo_stop lo s = s\<lparr>socket_open := False, write_lock := lk_cancel lo (write_lock s)\<rparr>"

text \<open>The length of the first line of a buffer, its end included.\<close>

fun line_length :: "string \<Rightarrow> nat option" where
  "line_length [] = None"
| "line_length (c # cs) = (if c = CHR 0x0A then Some 1 else map_option Suc (line_length cs))"

text \<open>
  \<open>try_send\<close>, and \<open>async_send\<close> if that fails (\<open>fast\<close>); the older version of the session in
  \<open>005.multithread\<close>, which is the same otherwise, always calls \<open>async_send\<close>.
\<close>

definition claim_lock :: "bool \<Rightarrow> 'k lock_ops \<Rightarrow> nat \<Rightarrow> 'k echo_session \<Rightarrow> bool \<times> 'k echo_session" where
  "claim_lock fast lo a s =
     (if fast
      then (case lk_try_send lo (write_lock s) of
              (True, k) \<Rightarrow> (True, s\<lparr>write_lock := k\<rparr>)
            | (False, k) \<Rightarrow> (False, s\<lparr>write_lock := lk_async_send lo a k\<rparr>))
      else (False, s\<lparr>write_lock := lk_async_send lo a (write_lock s)\<rparr>))"

text \<open>One answer of the network to \<open>async_write\<close> with \<open>rem\<close> still to be sent.\<close>

definition net_write :: "net \<Rightarrow> string \<Rightarrow> 'k echo_session \<Rightarrow> (string \<times> 'k echo_session) option" where
  "net_write ans rem s =
     (case ans of
        Sent n \<Rightarrow> if socket_open s \<and> 0 < n \<and> n \<le> length rem
                  then Some (drop n rem, s\<lparr>sock_out := sock_out s @ take n rem\<rparr>) else None
      | _ \<Rightarrow> None)"

definition handle_messages :: "bool \<Rightarrow> 'k lock_ops \<Rightarrow> net \<Rightarrow> 'k echo_session \<Rightarrow> 'k echo_session option" where
  "handle_messages fast lo ans s =
     (case handle_at s of
        H_Reading \<Rightarrow>
          (case line_length (line_data s) of
             Some n \<Rightarrow>
               if ans = Proceed
               then (case claim_lock fast lo 0 s of (ok, s') \<Rightarrow>
                       Some (s'\<lparr>handle_at := (if ok then H_Tag line_tag n else H_Locking n)\<rparr>))
               else None
           | None \<Rightarrow>
               if ans = Failed \<or> length (line_data s) \<ge> max_line_length
               then Some (echo_stop lo s\<lparr>handle_at := H_Ended\<rparr>)
               else (case ans of
                       Received bs \<Rightarrow>
                         if socket_open s \<and> bs \<noteq> [] \<and> length bs \<le> max_line_length - length (line_data s)
                         then Some (s\<lparr>sock_in := sock_in s @ bs, line_data := line_data s @ bs\<rparr>)
                         else None
                     | _ \<Rightarrow> None))
      | H_Locking n \<Rightarrow>
          (case lk_resume lo 0 (write_lock s) of
             None \<Rightarrow> None
           | Some (True, k) \<Rightarrow> Some (s\<lparr>write_lock := k, handle_at := H_Tag line_tag n\<rparr>)
           | Some (False, k) \<Rightarrow> Some (echo_stop lo (s\<lparr>write_lock := k\<rparr>)\<lparr>handle_at := H_Ended\<rparr>))
      | H_Tag rem n \<Rightarrow>
          if rem = [] then Some (s\<lparr>handle_at := H_Line (take n (line_data s)) n\<rparr>)
          else if ans = Failed then Some (echo_stop lo s\<lparr>handle_at := H_Ended\<rparr>)
          else map_option (\<lambda>(rest, s'). s'\<lparr>handle_at := H_Tag rest n\<rparr>) (net_write ans rem s)
      | H_Line rem n \<Rightarrow>
          if rem = []
          then Some (s\<lparr>line_data := drop n (line_data s),
                       write_lock := lk_try_receive lo (write_lock s), handle_at := H_Reading\<rparr>)
          else if ans = Failed then Some (echo_stop lo s\<lparr>handle_at := H_Ended\<rparr>)
          else map_option (\<lambda>(rest, s'). s'\<lparr>handle_at := H_Line rest n\<rparr>) (net_write ans rem s)
      | H_Ended \<Rightarrow> None)"

definition send_heartbeats :: "bool \<Rightarrow> 'k lock_ops \<Rightarrow> net \<Rightarrow> 'k echo_session \<Rightarrow> 'k echo_session option" where
  "send_heartbeats fast lo ans s =
     (case beat_at s of
        B_Timer \<Rightarrow>
          if ans = Timer_Expired
          then (case claim_lock fast lo 1 s of (ok, s') \<Rightarrow>
                  Some (s'\<lparr>beat_at := (if ok then B_Writing heartbeat else B_Locking)\<rparr>))
          else None
      | B_Locking \<Rightarrow>
          (case lk_resume lo 1 (write_lock s) of
             None \<Rightarrow> None
           | Some (True, k) \<Rightarrow> Some (s\<lparr>write_lock := k, beat_at := B_Writing heartbeat\<rparr>)
           | Some (False, k) \<Rightarrow> Some (echo_stop lo (s\<lparr>write_lock := k\<rparr>)\<lparr>beat_at := B_Ended\<rparr>))
      | B_Writing rem \<Rightarrow>
          if rem = []
          then Some (s\<lparr>write_lock := lk_try_receive lo (write_lock s), beat_at := B_Timer\<rparr>)
          else if ans = Failed then Some (echo_stop lo s\<lparr>beat_at := B_Ended\<rparr>)
          else map_option (\<lambda>(rest, s'). s'\<lparr>beat_at := B_Writing rest\<rparr>) (net_write ans rem s)
      | B_Ended \<Rightarrow> None)"

inductive echo_step :: "bool \<Rightarrow> 'k lock_ops \<Rightarrow> 'k echo_session \<Rightarrow> 'k echo_session \<Rightarrow> bool" for fast lo where
  handle: "handle_messages fast lo ans s = Some t \<Longrightarrow> echo_step fast lo s t"
| beat: "send_heartbeats fast lo ans s = Some t \<Longrightarrow> echo_step fast lo s t"

inductive_cases echo_stepE: "echo_step fast lo s t"

text \<open>The coroutines of \<open>005.multithread\<close>.\<close>

definition handle_messages_005 :: "'k lock_ops \<Rightarrow> net \<Rightarrow> 'k echo_session \<Rightarrow> 'k echo_session option" where
  "handle_messages_005 = handle_messages False"

definition send_heartbeats_005 :: "'k lock_ops \<Rightarrow> net \<Rightarrow> 'k echo_session \<Rightarrow> 'k echo_session option" where
  "send_heartbeats_005 = send_heartbeats False"

text \<open>
  \<open>listen\<close>: a session for every connection that was accepted; \<open>None\<close> is an \<open>async_accept\<close> that
  failed.
\<close>

fun listen_echo :: "'k lock_ops \<Rightarrow> unit option list \<Rightarrow> 'k echo_session list" where
  "listen_echo lo [] = []"
| "listen_echo lo (Some _ # as) = echo_start lo # listen_echo lo as"
| "listen_echo lo (None # as) = listen_echo lo as"

abbreviation echo_reach :: "bool \<Rightarrow> 'k lock_ops \<Rightarrow> 'k echo_session \<Rightarrow> bool" where
  "echo_reach fast lo \<equiv> reach (\<lambda>s. s = echo_start lo) (echo_step fast lo)"

section \<open>The lock\<close>

lemma lock_facts:
  assumes "lock_laws lo"
  shows view_new: "lk_view lo (lk_new lo) = view_new"
    and view_try: "lk_try_send lo k = (b, k') \<Longrightarrow> view_try_send (lk_view lo k) = (b, lk_view lo k')"
    and view_send: "lk_view lo (lk_async_send lo a k) = view_async_send a (lk_view lo k)"
    and view_resume: "lk_resume lo a k = Some (b, k') \<Longrightarrow>
      completed (lk_view lo k) a = Some b \<and>
      lk_view lo k' = lk_view lo k\<lparr>completed := (completed (lk_view lo k))(a := None)\<rparr>"
    and view_no_resume: "lk_resume lo a k = None \<longleftrightarrow> completed (lk_view lo k) a = None"
    and view_receive: "lk_view lo (lk_try_receive lo k) = view_try_receive (lk_view lo k)"
    and view_cancelled: "lk_view lo (lk_cancel lo k) = view_cancel (lk_view lo k)"
proof -
  have tr: "map_prod id (lk_view lo) (lk_try_send lo k) = view_try_send (lk_view lo k)"
    and res: "map_option (map_prod id (lk_view lo)) (lk_resume lo a k) =
        map_option (\<lambda>ok. (ok, lk_view lo k\<lparr>completed := (completed (lk_view lo k))(a := None)\<rparr>))
          (completed (lk_view lo k) a)"
    using assms unfolding lock_laws_def by simp_all
  show "lk_try_send lo k = (b, k') \<Longrightarrow> view_try_send (lk_view lo k) = (b, lk_view lo k')"
    using tr by simp
  show "lk_resume lo a k = Some (b, k') \<Longrightarrow>
      completed (lk_view lo k) a = Some b \<and>
      lk_view lo k' = lk_view lo k\<lparr>completed := (completed (lk_view lo k))(a := None)\<rparr>"
    using res by (cases "completed (lk_view lo k) a") simp_all
  show "lk_resume lo a k = None \<longleftrightarrow> completed (lk_view lo k) a = None"
    using res by (metis None_eq_map_option_iff)
qed (use assms in \<open>simp_all add: lock_laws_def\<close>)

text \<open>Where a coroutine is with respect to the lock.\<close>

datatype side = Idle | Waits | Granted | Cancelled | Writes | Ended

fun lock_side :: "bool option \<Rightarrow> side" where
  "lock_side None = Waits"
| "lock_side (Some True) = Granted"
| "lock_side (Some False) = Cancelled"

fun h_side :: "handle_pc \<Rightarrow> bool option \<Rightarrow> side" where
  "h_side H_Reading c = Idle"
| "h_side (H_Locking _) c = lock_side c"
| "h_side (H_Tag _ _) c = Writes"
| "h_side (H_Line _ _) c = Writes"
| "h_side H_Ended c = Ended"

fun b_side :: "beat_pc \<Rightarrow> bool option \<Rightarrow> side" where
  "b_side B_Timer c = Idle"
| "b_side B_Locking c = lock_side c"
| "b_side (B_Writing _) c = Writes"
| "b_side B_Ended c = Ended"

text \<open>
  The combinations that occur, with the number of buffered messages: while the socket is open
  the message is there exactly when a coroutine writes or was granted the lock.
\<close>

definition open_sides :: "(side \<times> side \<times> nat) list" where
  "open_sides = [(Idle, Idle, 0), (Writes, Idle, 1), (Writes, Waits, 1), (Granted, Idle, 1),
     (Granted, Waits, 1), (Idle, Writes, 1), (Waits, Writes, 1), (Idle, Granted, 1),
     (Waits, Granted, 1)]"

definition closed_sides :: "(side \<times> side \<times> nat) list" where
  "closed_sides = [(Ended, Idle, 0), (Ended, Idle, 1), (Ended, Waits, 1), (Ended, Granted, 1),
     (Ended, Cancelled, 1), (Ended, Writes, 1), (Ended, Ended, 1), (Idle, Ended, 1),
     (Waits, Ended, 1), (Cancelled, Ended, 1)]"

definition lock_inv :: "lock_view \<Rightarrow> handle_pc \<Rightarrow> beat_pc \<Rightarrow> bool \<Rightarrow> bool" where
  "lock_inv v h b op \<longleftrightarrow>
     (h_side h (completed v 0), b_side b (completed v 1), buffered v)
       \<in> set (if op then open_sides else closed_sides) \<and>
     waiting v = (if h_side h (completed v 0) = Waits then [0] else []) @
                 (if b_side b (completed v 1) = Waits then [1] else []) \<and>
     ((\<exists>n. h = H_Locking n) \<or> completed v 0 = None) \<and> (b = B_Locking \<or> completed v 1 = None)"

lemmas view_defs = view_try_send_def view_async_send_def view_try_receive_def view_cancel_def
lemmas side_defs = lock_inv_def open_sides_def closed_sides_def

lemma view_cancel_none: "waiting v = [] \<Longrightarrow> view_cancel v = v"
  by (simp add: view_cancel_def)

lemma lock_side_iff [simp]:
  "lock_side c = Waits \<longleftrightarrow> c = None" "lock_side c = Granted \<longleftrightarrow> c = Some True"
  "lock_side c = Cancelled \<longleftrightarrow> c = Some False" "lock_side c \<noteq> Idle" "lock_side c \<noteq> Writes"
  "lock_side c \<noteq> Ended"
  by (cases c rule: lock_side.cases; simp)+

lemma lock_inv_claim:
  assumes "lock_inv v h b op"
  shows "h = H_Reading \<Longrightarrow> view_try_send v = (True, v') \<Longrightarrow> lock_inv v' (H_Tag r n) b op"
    and "h = H_Reading \<Longrightarrow> view_try_send v = (False, v') \<Longrightarrow>
         lock_inv (view_async_send 0 v') (H_Locking n) b op"
    and "b = B_Timer \<Longrightarrow> view_try_send v = (True, v') \<Longrightarrow> lock_inv v' h (B_Writing r) op"
    and "b = B_Timer \<Longrightarrow> view_try_send v = (False, v') \<Longrightarrow>
         lock_inv (view_async_send 1 v') h B_Locking op"
  using assms
  by (cases h; cases b; auto simp: side_defs view_defs split: if_splits)+

lemma lock_inv_send:
  assumes "lock_inv v h b op"
  shows "h = H_Reading \<Longrightarrow> lock_inv (view_async_send 0 v) (H_Locking n) b op"
    and "b = B_Timer \<Longrightarrow> lock_inv (view_async_send 1 v) h B_Locking op"
  using assms
  by (cases h; cases b; auto simp: side_defs view_defs split: if_splits)+

lemma lock_inv_resume:
  assumes "lock_inv v h b op"
  shows "h = H_Locking n \<Longrightarrow> completed v 0 = Some True \<Longrightarrow>
         lock_inv (v\<lparr>completed := (completed v)(0 := None)\<rparr>) (H_Tag r n) b op"
    and "h = H_Locking n \<Longrightarrow> completed v 0 = Some False \<Longrightarrow>
         lock_inv (view_cancel (v\<lparr>completed := (completed v)(0 := None)\<rparr>)) H_Ended b False"
    and "b = B_Locking \<Longrightarrow> completed v 1 = Some True \<Longrightarrow>
         lock_inv (v\<lparr>completed := (completed v)(1 := None)\<rparr>) h (B_Writing r) op"
    and "b = B_Locking \<Longrightarrow> completed v 1 = Some False \<Longrightarrow>
         lock_inv (view_cancel (v\<lparr>completed := (completed v)(1 := None)\<rparr>)) h B_Ended False"
  using assms
  by (cases h; cases b; auto simp: side_defs view_defs split: if_splits)+

lemma lock_inv_stop:
  assumes "lock_inv v h b op"
  shows "h = H_Reading \<Longrightarrow> lock_inv (view_cancel v) H_Ended b False"
    and "h_side h c = Writes \<Longrightarrow> lock_inv (view_cancel v) H_Ended b False"
    and "b_side b c = Writes \<Longrightarrow> lock_inv (view_cancel v) h B_Ended False"
  using assms
  by (cases h; cases b; auto simp: side_defs view_defs split: if_splits)+

lemma lock_inv_release:
  assumes "lock_inv v h b op"
  shows "h_side h c = Writes \<Longrightarrow> lock_inv (view_try_receive v) H_Reading b op"
    and "b_side b c = Writes \<Longrightarrow> lock_inv (view_try_receive v) h B_Timer op"
  using assms
  by (cases h; cases b; auto simp: side_defs view_defs split: if_splits)+

lemma lock_inv_writes:
  assumes "lock_inv v h b op"
  shows "h_side h c = Writes \<Longrightarrow> h_side h' c = Writes \<Longrightarrow> lock_inv v h' b op"
    and "b_side b c = Writes \<Longrightarrow> b_side b' c = Writes \<Longrightarrow> lock_inv v h b' op"
  using assms
  by (cases h; cases h'; cases b; cases b'; auto simp: side_defs split: if_splits)+

definition echo_lock_inv :: "'k lock_ops \<Rightarrow> 'k echo_session \<Rightarrow> bool" where
  "echo_lock_inv lo s \<longleftrightarrow>
     lock_inv (lk_view lo (write_lock s)) (handle_at s) (beat_at s) (socket_open s)"

lemma net_write_frame:
  assumes "net_write ans rem s = Some (rest, t)"
  shows "\<exists>x. t = s\<lparr>sock_out := sock_out s @ x\<rparr> \<and> rem = x @ rest \<and> socket_open s"
  using assms by (auto simp: net_write_def split: net.splits if_splits)

lemma claim_lock_inv:
  assumes laws: "lock_laws lo" and inv: "echo_lock_inv lo s" and c: "claim_lock fast lo a s = (ok, t)"
  shows "\<exists>k. t = s\<lparr>write_lock := k\<rparr> \<and>
    (a = 0 \<and> handle_at s = H_Reading \<longrightarrow>
       lock_inv (lk_view lo k) (if ok then H_Tag line_tag n else H_Locking n) (beat_at s) (socket_open s)) \<and>
    (a = 1 \<and> beat_at s = B_Timer \<longrightarrow>
       lock_inv (lk_view lo k) (handle_at s) (if ok then B_Writing heartbeat else B_Locking) (socket_open s))"
proof (cases fast)
  case False
  then have "t = s\<lparr>write_lock := lk_async_send lo a (write_lock s)\<rparr>" "\<not> ok"
    using c by (simp_all add: claim_lock_def)
  then show ?thesis
    using lock_inv_send [OF inv [unfolded echo_lock_inv_def]]
    by (intro exI [of _ "lk_async_send lo a (write_lock s)"]) (simp add: view_send [OF laws])
next
  case fast: True
  obtain b k where Pair: "lk_try_send lo (write_lock s) = (b, k)" by fastforce
  note v = view_try [OF laws Pair] and l = lock_inv_claim [OF inv [unfolded echo_lock_inv_def]]
  show ?thesis
  proof (cases b)
    case True
    with c Pair fast have "t = s\<lparr>write_lock := k\<rparr>" "ok" by (simp_all add: claim_lock_def)
    then show ?thesis using v True l(1) l(3) by (intro exI [of _ k]) simp
  next
    case False
    with c Pair fast have "t = s\<lparr>write_lock := lk_async_send lo a k\<rparr>" "\<not> ok" by (simp_all add: claim_lock_def)
    then show ?thesis using v False l(2) l(4)
      by (intro exI [of _ "lk_async_send lo a k"]) (simp add: view_send [OF laws])
  qed
qed

lemma handle_lock_inv:
  assumes laws: "lock_laws lo" and inv: "echo_lock_inv lo s" and st: "handle_messages fast lo ans s = Some t"
  shows "echo_lock_inv lo t"
proof -
  note inv' = inv [unfolded echo_lock_inv_def]
  show ?thesis
  proof (cases "handle_at s")
    case H_Reading
    show ?thesis
    proof (cases "line_length (line_data s)")
      case None
      then show ?thesis
        using st H_Reading inv' lock_inv_stop(1) [OF inv']
        by (auto simp: handle_messages_def echo_lock_inv_def echo_stop_def view_cancelled [OF laws]
            split: if_splits net.splits)
    next
      case (Some n)
      obtain ok u where c: "claim_lock fast lo 0 s = (ok, u)" by fastforce
      obtain k where "u = s\<lparr>write_lock := k\<rparr>"
        "lock_inv (lk_view lo k) (if ok then H_Tag line_tag n else H_Locking n) (beat_at s) (socket_open s)"
        using claim_lock_inv [OF laws inv c, of n] H_Reading by auto
      then show ?thesis
        using st H_Reading Some c by (auto simp: handle_messages_def echo_lock_inv_def split: if_splits)
    qed
  next
    case (H_Locking n)
    then obtain b k where r: "lk_resume lo 0 (write_lock s) = Some (b, k)"
      using st by (auto simp: handle_messages_def split: option.splits)
    note v = view_resume [OF laws r] and l = lock_inv_resume(1,2) [OF inv' H_Locking]
    show ?thesis
      using st H_Locking r v l
      by (cases b) (auto simp: handle_messages_def echo_lock_inv_def echo_stop_def view_cancelled [OF laws])
  next
    case (H_Tag rem n)
    then have w: "h_side (handle_at s) None = Writes" by simp
    show ?thesis
      using st H_Tag lock_inv_stop(2) [OF inv' w] lock_inv_writes(1) [OF inv' w]
      by (auto simp: handle_messages_def echo_lock_inv_def echo_stop_def view_cancelled [OF laws]
          split: if_splits dest!: net_write_frame)
  next
    case (H_Line rem n)
    then have w: "h_side (handle_at s) None = Writes" by simp
    show ?thesis
      using st H_Line lock_inv_stop(2) [OF inv' w] lock_inv_writes(1) [OF inv' w]
        lock_inv_release(1) [OF inv' w]
      by (auto simp: handle_messages_def echo_lock_inv_def echo_stop_def view_cancelled [OF laws]
          view_receive [OF laws] split: if_splits dest!: net_write_frame)
  qed (use st in \<open>simp add: handle_messages_def\<close>)
qed

lemma beat_lock_inv:
  assumes laws: "lock_laws lo" and inv: "echo_lock_inv lo s" and st: "send_heartbeats fast lo ans s = Some t"
  shows "echo_lock_inv lo t"
proof -
  note inv' = inv [unfolded echo_lock_inv_def]
  show ?thesis
  proof (cases "beat_at s")
    case B_Timer
    obtain ok u where c: "claim_lock fast lo 1 s = (ok, u)" by fastforce
    obtain k where "u = s\<lparr>write_lock := k\<rparr>"
      "lock_inv (lk_view lo k) (handle_at s) (if ok then B_Writing heartbeat else B_Locking) (socket_open s)"
      using claim_lock_inv [OF laws inv c] B_Timer by auto
    then show ?thesis
      using st B_Timer c by (auto simp: send_heartbeats_def echo_lock_inv_def split: if_splits)
  next
    case B_Locking
    then obtain b k where r: "lk_resume lo 1 (write_lock s) = Some (b, k)"
      using st by (auto simp: send_heartbeats_def split: option.splits)
    note v = view_resume [OF laws r] and l = lock_inv_resume(3,4) [OF inv' B_Locking]
    show ?thesis
      using st B_Locking r v l
      by (cases b) (auto simp: send_heartbeats_def echo_lock_inv_def echo_stop_def view_cancelled [OF laws])
  next
    case (B_Writing rem)
    then have w: "b_side (beat_at s) None = Writes" by simp
    show ?thesis
      using st B_Writing lock_inv_stop(3) [OF inv' w] lock_inv_writes(2) [OF inv' w]
        lock_inv_release(2) [OF inv' w]
      by (auto simp: send_heartbeats_def echo_lock_inv_def echo_stop_def view_cancelled [OF laws]
          view_receive [OF laws] split: if_splits dest!: net_write_frame)
  qed (use st in \<open>simp add: send_heartbeats_def\<close>)
qed

section \<open>What the client gets\<close>

datatype frame = Echo string | Heartbeat

fun frame_bytes :: "frame \<Rightarrow> string" where
  "frame_bytes (Echo l) = line_tag @ l"
| "frame_bytes Heartbeat = heartbeat"

fun echoed :: "frame list \<Rightarrow> string list" where
  "echoed [] = []"
| "echoed (Echo l # fs) = l # echoed fs"
| "echoed (Heartbeat # fs) = echoed fs"

lemma echoed_append [simp]: "echoed (fs @ gs) = echoed fs @ echoed gs"
  by (induction fs rule: echoed.induct) auto

definition is_line :: "string \<Rightarrow> bool" where
  "is_line l \<longleftrightarrow> line_length l = Some (length l) \<and> length l \<le> max_line_length"

lemma line_length_take:
  "line_length d = Some n \<Longrightarrow> line_length (take n d) = Some n \<and> n \<le> length d"
proof (induction d arbitrary: n)
  case (Cons c d)
  then show ?case by (cases "c = CHR 0x0A") (auto split: if_splits)
qed simp

text \<open>The bytes of the frame that is being sent.\<close>

definition partly_sent :: "'k echo_session \<Rightarrow> string \<Rightarrow> bool" where
  "partly_sent s p \<longleftrightarrow>
     (if socket_open s
      then (case handle_at s of
              H_Tag rem n \<Rightarrow> p @ rem = line_tag
            | H_Line rem n \<Rightarrow> p @ rem = line_tag @ take n (line_data s)
            | _ \<Rightarrow> (case beat_at s of B_Writing rem \<Rightarrow> p @ rem = heartbeat | _ \<Rightarrow> p = []))
      else (\<exists>f. prefix p (frame_bytes f)))"

fun line_at :: "handle_pc \<Rightarrow> nat option" where
  "line_at (H_Locking n) = Some n"
| "line_at (H_Tag _ n) = Some n"
| "line_at (H_Line _ n) = Some n"
| "line_at _ = None"

definition wire_inv :: "'k echo_session \<Rightarrow> frame list \<Rightarrow> string \<Rightarrow> bool" where
  "wire_inv s fs p \<longleftrightarrow>
     sock_out s = concat (map frame_bytes fs) @ p \<and> partly_sent s p \<and>
     concat (echoed fs) @ line_data s = sock_in s \<and> (\<forall>l \<in> set (echoed fs). is_line l) \<and>
     length (line_data s) \<le> max_line_length \<and>
     (\<forall>n. line_at (handle_at s) = Some n \<longrightarrow> line_length (line_data s) = Some n)"

lemma wire_inv_start: "wire_inv (echo_start lo) [] []"
  by (simp add: wire_inv_def partly_sent_def echo_start_def)

lemma prefix_frame:
  assumes "partly_sent s p"
  shows "\<exists>f. prefix p (frame_bytes f)"
proof -
  have echo: "\<exists>f. prefix p (frame_bytes f)" if "p @ r = line_tag @ l \<or> p @ r = line_tag" for r l
    using that prefixI [of "line_tag @ l" p r] prefixI [of "line_tag @ l" p "r @ l"]
    by (metis append_assoc frame_bytes.simps(1))
  have beat: "\<exists>f. prefix p (frame_bytes f)" if "p @ r = heartbeat \<or> p = []" for r
    using that prefixI [of heartbeat p r] by (metis frame_bytes.simps(2) Nil_prefix)
  show ?thesis
    using assms echo beat unfolding partly_sent_def
    by (auto split: if_splits handle_pc.splits beat_pc.splits)
qed

lemma one_writer:
  assumes "echo_lock_inv lo s" "h_side (handle_at s) None = Writes"
  shows "socket_open s" "beat_at s \<noteq> B_Writing r"
  using assms
  by (cases "handle_at s"; cases "beat_at s"; auto simp: echo_lock_inv_def side_defs split: if_splits)+

lemma partly_sent_stop:
  assumes "partly_sent s p" "\<not> socket_open t"
  shows "partly_sent t p"
  using prefix_frame [OF assms(1)] assms(2) by (simp add: partly_sent_def)

lemma wire_stop:
  assumes "wire_inv s fs p"
  shows "wire_inv (echo_stop lo s\<lparr>handle_at := H_Ended\<rparr>) fs p"
    and "wire_inv (echo_stop lo (s\<lparr>write_lock := k\<rparr>)\<lparr>handle_at := H_Ended\<rparr>) fs p"
    and "wire_inv (echo_stop lo s\<lparr>beat_at := B_Ended\<rparr>) fs p"
    and "wire_inv (echo_stop lo (s\<lparr>write_lock := k\<rparr>)\<lparr>beat_at := B_Ended\<rparr>) fs p"
  using assms partly_sent_stop [of s p "echo_stop lo s\<lparr>handle_at := H_Ended\<rparr>"]
    partly_sent_stop [of s p "echo_stop lo (s\<lparr>write_lock := k\<rparr>)\<lparr>handle_at := H_Ended\<rparr>"]
    partly_sent_stop [of s p "echo_stop lo s\<lparr>beat_at := B_Ended\<rparr>"]
    partly_sent_stop [of s p "echo_stop lo (s\<lparr>write_lock := k\<rparr>)\<lparr>beat_at := B_Ended\<rparr>"]
  by (simp_all add: wire_inv_def echo_stop_def)

lemma wire_begin:
  assumes "wire_inv s fs p" "line_length (line_data s) = Some n" "h_side (handle_at s) c \<noteq> Writes"
    and "echo_lock_inv lo (s\<lparr>write_lock := k, handle_at := H_Tag line_tag n\<rparr>)"
  shows "wire_inv (s\<lparr>write_lock := k, handle_at := H_Tag line_tag n\<rparr>) fs p"
proof -
  have "\<forall>r. beat_at s \<noteq> B_Writing r" using one_writer(2) [OF assms(4)] by auto
  then show ?thesis using assms(1,2,3)
    by (auto simp: wire_inv_def partly_sent_def split: beat_pc.splits handle_pc.splits)
qed

lemma handle_wire_reading:
  assumes laws: "lock_laws lo" and inv: "echo_lock_inv lo s" and st: "handle_messages fast lo ans s = Some t"
    and w: "wire_inv s fs p" and pc: "handle_at s = H_Reading"
  shows "\<exists>fs p. wire_inv t fs p"
proof (cases "line_length (line_data s)")
  case None
  then consider "t = echo_stop lo s\<lparr>handle_at := H_Ended\<rparr>"
    | bs where "t = s\<lparr>sock_in := sock_in s @ bs, line_data := line_data s @ bs\<rparr>"
        "length bs \<le> max_line_length - length (line_data s)"
    using st pc by (auto simp: handle_messages_def split: if_splits net.splits)
  then show ?thesis
  proof cases
    case 1
    then show ?thesis using wire_stop(1) [OF w] by blast
  next
    case 2
    then show ?thesis using w pc
      by (intro exI [of _ fs] exI [of _ p]) (auto simp: wire_inv_def partly_sent_def)
  qed
next
  case (Some n)
  obtain ok u where c: "claim_lock fast lo 0 s = (ok, u)" by fastforce
  obtain k where u: "u = s\<lparr>write_lock := k\<rparr>" using claim_lock_inv [OF laws inv c] by blast
  have t: "t = s\<lparr>write_lock := k, handle_at := (if ok then H_Tag line_tag n else H_Locking n)\<rparr>"
    using st pc Some c u by (simp add: handle_messages_def split: if_splits)
  have "wire_inv t fs p" if ok
    using wire_begin [OF w Some, of None lo k] handle_lock_inv [OF laws inv st] that t pc by simp
  moreover have "wire_inv t fs p" if "\<not> ok"
    using that w pc Some t by (auto simp: wire_inv_def partly_sent_def)
  ultimately show ?thesis by blast
qed

lemma handle_wire_locking:
  assumes laws: "lock_laws lo" and inv: "echo_lock_inv lo s" and st: "handle_messages fast lo ans s = Some t"
    and w: "wire_inv s fs p" and pc: "handle_at s = H_Locking n"
  shows "wire_inv t fs p"
proof -
  obtain b k where r: "lk_resume lo 0 (write_lock s) = Some (b, k)"
    using st pc by (auto simp: handle_messages_def split: option.splits)
  show ?thesis
  proof (cases b)
    case True
    have t: "t = s\<lparr>write_lock := k, handle_at := H_Tag line_tag n\<rparr>"
      using st pc r True by (simp add: handle_messages_def)
    have "line_length (line_data s) = Some n" using w pc by (simp add: wire_inv_def)
    then show ?thesis
      using wire_begin [OF w _ _ handle_lock_inv [OF laws inv st, unfolded t], of None] t pc
      by (cases "completed (lk_view lo (write_lock s)) 0") simp_all
  qed (use st pc r wire_stop(2) [OF w] in \<open>auto simp: handle_messages_def\<close>)
qed

lemma handle_wire_tag:
  assumes inv: "echo_lock_inv lo s" and st: "handle_messages fast lo ans s = Some t"
    and w: "wire_inv s fs p" and pc: "handle_at s = H_Tag rem n"
  shows "\<exists>fs p. wire_inv t fs p"
proof -
  have op: "socket_open s" using one_writer(1) [OF inv] pc by simp
  consider "rem = []" "t = s\<lparr>handle_at := H_Line (take n (line_data s)) n\<rparr>"
    | "t = echo_stop lo s\<lparr>handle_at := H_Ended\<rparr>"
    | x rest where "t = s\<lparr>sock_out := sock_out s @ x, handle_at := H_Tag rest n\<rparr>" "rem = x @ rest"
    using st pc by (auto simp: handle_messages_def split: if_splits dest!: net_write_frame)
  then show ?thesis
  proof cases
    case 1
    then show ?thesis using w pc op
      by (intro exI [of _ fs] exI [of _ p]) (auto simp: wire_inv_def partly_sent_def)
  next
    case 2
    then show ?thesis using wire_stop(1) [OF w] by blast
  next
    case 3
    then show ?thesis using w pc op
      by (intro exI [of _ fs] exI [of _ "p @ x"]) (auto simp: wire_inv_def partly_sent_def)
  qed
qed

lemma handle_wire_line:
  assumes inv: "echo_lock_inv lo s" and st: "handle_messages fast lo ans s = Some t"
    and w: "wire_inv s fs p" and pc: "handle_at s = H_Line rem n"
  shows "\<exists>fs p. wire_inv t fs p"
proof -
  have op: "socket_open s" and nb: "beat_at s \<noteq> B_Writing r" for r
    using one_writer [OF inv] pc by simp_all
  consider "rem = []" "t = s\<lparr>line_data := drop n (line_data s),
        write_lock := lk_try_receive lo (write_lock s), handle_at := H_Reading\<rparr>"
    | "t = echo_stop lo s\<lparr>handle_at := H_Ended\<rparr>"
    | x rest where "t = s\<lparr>sock_out := sock_out s @ x, handle_at := H_Line rest n\<rparr>" "rem = x @ rest"
    using st pc by (auto simp: handle_messages_def split: if_splits dest!: net_write_frame)
  then show ?thesis
  proof cases
    case 1
    have n: "line_length (line_data s) = Some n" using w pc by (simp add: wire_inv_def)
    have "is_line (take n (line_data s))"
      using line_length_take [OF n] w by (auto simp: is_line_def wire_inv_def min_def)
    then have "wire_inv t (fs @ [Echo (take n (line_data s))]) []"
      using w 1 pc op nb by (auto simp: wire_inv_def partly_sent_def split: beat_pc.splits)
    then show ?thesis by blast
  next
    case 2
    then show ?thesis using wire_stop(1) [OF w] by blast
  next
    case 3
    then show ?thesis using w pc op
      by (intro exI [of _ fs] exI [of _ "p @ x"]) (auto simp: wire_inv_def partly_sent_def)
  qed
qed

lemma handle_wire:
  assumes "lock_laws lo" "echo_lock_inv lo s" "handle_messages fast lo ans s = Some t" "wire_inv s fs p"
  shows "\<exists>fs p. wire_inv t fs p"
  using handle_wire_reading [OF assms] handle_wire_locking [OF assms] handle_wire_tag [OF assms(2-4)]
    handle_wire_line [OF assms(2-4)] assms(3)
  by (cases "handle_at s") (auto simp: handle_messages_def)

lemma beat_wire:
  assumes laws: "lock_laws lo" and inv: "echo_lock_inv lo s" and st: "send_heartbeats fast lo ans s = Some t"
    and w: "wire_inv s fs p"
  shows "\<exists>fs p. wire_inv t fs p"
proof -
  note inv_t = beat_lock_inv [OF laws inv st]
  have excl: "h_side (handle_at u) None \<noteq> Writes" if "echo_lock_inv lo u" "beat_at u = B_Writing r" for u r
    using one_writer(2) [OF that(1)] that(2) by blast
  have begin_w: "wire_inv t fs p" if "t = s\<lparr>write_lock := k, beat_at := B_Writing heartbeat\<rparr>"
    "beat_at s = B_Timer \<or> beat_at s = B_Locking" for k
    using w excl [OF inv_t] that
    by (auto simp: wire_inv_def partly_sent_def split: handle_pc.splits if_splits)
  show ?thesis
  proof (cases "beat_at s")
    case B_Timer
    obtain ok u where c: "claim_lock fast lo 1 s = (ok, u)" by fastforce
    obtain k where u: "u = s\<lparr>write_lock := k\<rparr>" using claim_lock_inv [OF laws inv c] by blast
    have t: "t = s\<lparr>write_lock := k, beat_at := (if ok then B_Writing heartbeat else B_Locking)\<rparr>"
      using st B_Timer c u by (simp add: send_heartbeats_def split: if_splits)
    have "wire_inv t fs p" if "\<not> ok"
      using that w B_Timer t by (auto simp: wire_inv_def partly_sent_def split: handle_pc.splits)
    then show ?thesis using t begin_w B_Timer by (cases ok) auto
  next
    case B_Locking
    then obtain b k where r: "lk_resume lo 1 (write_lock s) = Some (b, k)"
      using st by (auto simp: send_heartbeats_def split: option.splits)
    show ?thesis
    proof (cases b)
      case True
      then have "t = s\<lparr>write_lock := k, beat_at := B_Writing heartbeat\<rparr>"
        using st B_Locking r by (simp add: send_heartbeats_def)
      then show ?thesis using begin_w B_Locking by blast
    next
      case False
      then have "t = echo_stop lo (s\<lparr>write_lock := k\<rparr>)\<lparr>beat_at := B_Ended\<rparr>"
        using st B_Locking r by (simp add: send_heartbeats_def)
      then show ?thesis using wire_stop(4) [OF w] by blast
    qed
  next
    case (B_Writing rem)
    note nw = excl [OF inv B_Writing]
    consider "rem = []" "t = s\<lparr>write_lock := lk_try_receive lo (write_lock s), beat_at := B_Timer\<rparr>"
      | "t = echo_stop lo s\<lparr>beat_at := B_Ended\<rparr>"
      | x rest where "t = s\<lparr>sock_out := sock_out s @ x, beat_at := B_Writing rest\<rparr>" "rem = x @ rest"
          "socket_open s"
      using st B_Writing by (auto simp: send_heartbeats_def split: if_splits dest!: net_write_frame)
    then show ?thesis
    proof cases
      case 1
      then show ?thesis using w B_Writing nw
        by (intro exI [of _ "if socket_open s then fs @ [Heartbeat] else fs"]
            exI [of _ "if socket_open s then [] else p"])
          (auto simp: wire_inv_def partly_sent_def split: handle_pc.splits)
    next
      case 2
      then show ?thesis using wire_stop(3) [OF w] by blast
    next
      case 3
      then show ?thesis using w B_Writing nw
        by (intro exI [of _ fs] exI [of _ "p @ x"])
          (auto simp: wire_inv_def partly_sent_def split: handle_pc.splits)
    qed
  qed (use st in \<open>simp add: send_heartbeats_def\<close>)
qed

definition echo_inv :: "'k lock_ops \<Rightarrow> 'k echo_session \<Rightarrow> bool" where
  "echo_inv lo s \<longleftrightarrow> echo_lock_inv lo s \<and> (\<exists>fs p. wire_inv s fs p)"

interpretation echo_system: invariant_system "\<lambda>s. s = echo_start lo" "echo_step fast lo"
    "\<lambda>s. lock_laws lo \<longrightarrow> echo_inv lo s"
proof unfold_locales
  fix s assume "s = echo_start lo"
  then show "lock_laws lo \<longrightarrow> echo_inv lo s"
    using wire_inv_start [of lo]
    by (auto simp: echo_inv_def echo_lock_inv_def echo_start_def side_defs view_new view_new_def)
next
  fix s t assume "lock_laws lo \<longrightarrow> echo_inv lo s" "echo_step fast lo s t"
  then show "lock_laws lo \<longrightarrow> echo_inv lo t"
    by (auto elim!: echo_stepE simp: echo_inv_def
        intro: handle_lock_inv beat_lock_inv handle_wire beat_wire)
qed

lemma echo_reach_inv: "lock_laws lo \<Longrightarrow> echo_reach fast lo s \<Longrightarrow> echo_inv lo s"
  using echo_system.reach_inv by blast

section \<open>Properties\<close>

text \<open>
  C15: The lock works: whatever the network does and however the two coroutines interleave,
  they never write at the same time, and what the client has got is a sequence of complete
  frames (\<open><line>\<close> with an echoed line, or a heartbeat) followed by the beginning of at most
  one more. The echoed lines, put together with what is still in the buffer, are exactly
  the bytes received, in order; each is one line of at most 1024 bytes.
\<close>

theorem echo_output_is_framed:
  assumes "lock_laws lo" and "echo_reach fast lo s"
  shows "\<not> (h_side (handle_at s) None = Writes \<and> b_side (beat_at s) None = Writes) \<and>
    (\<exists>fs p f. sock_out s = concat (map frame_bytes fs) @ p \<and> prefix p (frame_bytes f) \<and>
       concat (echoed fs) @ line_data s = sock_in s \<and> (\<forall>l \<in> set (echoed fs). is_line l)) \<and>
    length (line_data s) \<le> max_line_length"
proof -
  note inv = echo_reach_inv [OF assms]
  then obtain fs p where w: "wire_inv s fs p" by (auto simp: echo_inv_def)
  obtain f where "prefix p (frame_bytes f)" using w prefix_frame [of s p] by (auto simp: wire_inv_def)
  moreover have "b_side (beat_at s) None \<noteq> Writes" if "h_side (handle_at s) None = Writes"
    using one_writer(2) [of lo s] inv that by (cases "beat_at s") (auto simp: echo_inv_def)
  ultimately show ?thesis using w unfolding wire_inv_def by blast
qed

text \<open>Nothing moves the session any more, yet one of its coroutines has not ended.\<close>

definition leaked :: "bool \<Rightarrow> 'k lock_ops \<Rightarrow> 'k echo_session \<Rightarrow> bool" where
  "leaked fast lo s \<longleftrightarrow> (\<forall>ans. handle_messages fast lo ans s = None \<and> send_heartbeats fast lo ans s = None) \<and>
     (handle_at s \<noteq> H_Ended \<or> beat_at s \<noteq> B_Ended)"

lemma handle_blocked:
  assumes "lock_laws lo"
  shows "(\<forall>ans. handle_messages fast lo ans s = None) \<longleftrightarrow>
    h_side (handle_at s) (completed (lk_view lo (write_lock s)) 0) \<in> {Waits, Ended}"
proof (cases "handle_at s")
  case H_Reading
  then have "handle_messages fast lo (if line_length (line_data s) = None then Failed else Proceed) s \<noteq> None"
    by (auto simp: handle_messages_def split: option.splits prod.splits)
  then show ?thesis using H_Reading by auto
next
  case (H_Locking n)
  then show ?thesis using view_no_resume [OF assms, of 0 "write_lock s"]
    by (auto simp: handle_messages_def split: option.splits bool.splits)
next
  case (H_Tag rem n)
  then have "handle_messages fast lo Failed s \<noteq> None" by (simp add: handle_messages_def)
  then show ?thesis using H_Tag by auto
next
  case (H_Line rem n)
  then have "handle_messages fast lo Failed s \<noteq> None" by (simp add: handle_messages_def)
  then show ?thesis using H_Line by auto
qed (simp add: handle_messages_def)

lemma beat_blocked:
  assumes "lock_laws lo"
  shows "(\<forall>ans. send_heartbeats fast lo ans s = None) \<longleftrightarrow>
    b_side (beat_at s) (completed (lk_view lo (write_lock s)) 1) \<in> {Waits, Ended}"
proof (cases "beat_at s")
  case B_Timer
  then have "send_heartbeats fast lo Timer_Expired s \<noteq> None"
    by (simp add: send_heartbeats_def split: prod.splits)
  then show ?thesis using B_Timer by auto
next
  case B_Locking
  then show ?thesis using view_no_resume [OF assms, of 1 "write_lock s"]
    by (auto simp: send_heartbeats_def split: option.splits bool.splits)
next
  case (B_Writing rem)
  then have "send_heartbeats fast lo Failed s \<noteq> None" by (simp add: send_heartbeats_def)
  then show ?thesis using B_Writing by auto
qed (simp add: send_heartbeats_def)

lemma side_Ended [simp]:
  "h_side h c = Ended \<longleftrightarrow> h = H_Ended" "b_side b c = Ended \<longleftrightarrow> b = B_Ended"
  by (cases h; simp) (cases b; simp)

lemma leaked_iff:
  assumes "lock_laws lo" "echo_lock_inv lo s"
  shows "leaked fast lo s \<longleftrightarrow> \<not> socket_open s \<and>
    (h_side (handle_at s) (completed (lk_view lo (write_lock s)) 0) = Waits \<or>
     b_side (beat_at s) (completed (lk_view lo (write_lock s)) 1) = Waits)"
proof -
  let ?h = "h_side (handle_at s) (completed (lk_view lo (write_lock s)) 0)"
  let ?b = "b_side (beat_at s) (completed (lk_view lo (write_lock s)) 1)"
  have "leaked fast lo s \<longleftrightarrow> ?h \<in> {Waits, Ended} \<and> ?b \<in> {Waits, Ended} \<and> \<not> (?h = Ended \<and> ?b = Ended)"
    unfolding leaked_def using handle_blocked [OF assms(1), of fast s] beat_blocked [OF assms(1), of fast s] by auto
  then show ?thesis
    using assms(2) by (cases ?h; cases ?b; cases "socket_open s"; simp add: echo_lock_inv_def side_defs)
qed

lemma claim_full:
  assumes laws: "lock_laws lo" and full: "buffered (lk_view lo (write_lock s)) = 1"
    and c: "claim_lock fast lo a s = (ok, v)"
  obtains k where "\<not> ok" "v = s\<lparr>write_lock := k\<rparr>"
    "completed (lk_view lo k) = completed (lk_view lo (write_lock s))"
proof -
  obtain b k where r: "lk_try_send lo (write_lock s) = (b, k)" by fastforce
  have b: "\<not> b" "lk_view lo k = lk_view lo (write_lock s)"
    using view_try [OF laws r, symmetric] full by (simp_all add: view_try_send_def)
  show thesis
    using that [of "lk_async_send lo a (if fast then k else write_lock s)"] c r b full
    by (cases fast) (auto simp: claim_lock_def view_send [OF laws] view_async_send_def)
qed

text \<open>
  C21: A write that fails leaks the session. If the network fails while \<open>handle_messages\<close>
  writes and the other coroutine is waiting for its timer, the catch block closes the socket
  but nobody takes the message out of the channel; when the timer expires,
  \<open>send_heartbeats\<close> waits for the lock and is never resumed. Nothing moves the session any
  more, and the suspended coroutine keeps the object alive.
\<close>

theorem write_error_leaks_session:
  assumes laws: "lock_laws lo" and reach: "echo_reach fast lo s"
    and pc: "handle_at s = H_Tag rem n \<or> handle_at s = H_Line rem n" "rem \<noteq> []" "beat_at s = B_Timer"
  shows "\<exists>t u. handle_messages fast lo Failed s = Some t \<and> send_heartbeats fast lo Timer_Expired t = Some u \<and>
    leaked fast lo u"
proof -
  note inv = echo_reach_inv [OF assms(1,2)]
  let ?t = "echo_stop lo s\<lparr>handle_at := H_Ended\<rparr>"
  have t: "handle_messages fast lo Failed s = Some ?t" using pc by (auto simp: handle_messages_def)
  have invt: "echo_lock_inv lo ?t" using handle_lock_inv [OF laws _ t] inv by (simp add: echo_inv_def)
  have "buffered (lk_view lo (write_lock s)) = 1"
    using inv pc by (auto simp: echo_inv_def echo_lock_inv_def side_defs split: if_splits)
  then have full: "buffered (lk_view lo (write_lock ?t)) = 1"
    by (simp add: echo_stop_def view_cancelled [OF laws] view_cancel_def)
  obtain ok v where c: "claim_lock fast lo 1 ?t = (ok, v)" by fastforce
  then obtain k where v: "\<not> ok" "v = ?t\<lparr>write_lock := k\<rparr>"
    "completed (lk_view lo k) = completed (lk_view lo (write_lock ?t))"
    using claim_full [OF laws full c] by metis
  have at: "beat_at ?t = B_Timer" using pc by (simp add: echo_stop_def)
  then have u: "send_heartbeats fast lo Timer_Expired ?t = Some (v\<lparr>beat_at := B_Locking\<rparr>)" (is "_ = Some ?u")
    using c v(1) by (simp add: send_heartbeats_def)
  note invu = beat_lock_inv [OF laws invt u]
  have "completed (lk_view lo (write_lock ?t)) 1 = None"
    using invt at unfolding echo_lock_inv_def lock_inv_def by simp
  then have "handle_at ?u = H_Ended \<and> \<not> socket_open ?u \<and> completed (lk_view lo (write_lock ?u)) 1 = None"
    using v by (simp add: echo_stop_def)
  then have "leaked fast lo ?u" using leaked_iff [OF laws invu] by simp
  with t u show ?thesis by blast
qed

lemma echo_reach_start: "echo_reach fast lo (echo_start lo)"
  by (rule reach_init) simp

lemma view_session_reading:
  "echo_reach True view_lock (echo_start view_lock\<lparr>sock_in := ''a'' @ [CHR 0x0A], line_data := ''a'' @ [CHR 0x0A]\<rparr>)"
proof -
  have "handle_messages True view_lock (Received (''a'' @ [CHR 0x0A])) (echo_start view_lock) =
      Some (echo_start view_lock\<lparr>sock_in := ''a'' @ [CHR 0x0A], line_data := ''a'' @ [CHR 0x0A]\<rparr>)"
    by (simp add: handle_messages_def echo_start_def max_line_length_def)
  then show ?thesis by (rule reach_step [OF echo_reach_start echo_step.handle])
qed

lemma view_session_writing:
  "\<exists>s. echo_reach True view_lock s \<and> handle_at s = H_Tag line_tag 2 \<and> beat_at s = B_Timer"
proof -
  let ?s = "echo_start view_lock\<lparr>sock_in := ''a'' @ [CHR 0x0A], line_data := ''a'' @ [CHR 0x0A]\<rparr>"
  have "\<exists>t. handle_messages True view_lock Proceed ?s = Some t \<and> handle_at t = H_Tag line_tag 2 \<and> beat_at t = B_Timer"
    by (simp add: handle_messages_def echo_start_def claim_lock_def view_lock_def view_new_def
        view_try_send_def numeral_2_eq_2)
  then show ?thesis using reach_step [OF view_session_reading echo_step.handle] by blast
qed

theorem write_error_leaks_session_witness:
  "\<exists>s t u. echo_reach True view_lock s \<and> handle_messages True view_lock Failed s = Some t \<and>
     send_heartbeats True view_lock Timer_Expired t = Some u \<and> leaked True view_lock u"
proof -
  obtain s where s: "echo_reach True view_lock s" "handle_at s = H_Tag line_tag 2" "beat_at s = B_Timer"
    using view_session_writing by blast
  from write_error_leaks_session [OF view_lock_laws s(1), of line_tag 2] s show ?thesis
    by (auto simp: line_tag_def)
qed

text \<open>The first theorem on a session that has begun to answer a line.\<close>

theorem echo_output_is_framed_witness:
  "\<exists>s. echo_reach True view_lock s \<and> handle_at s = H_Tag line_tag 2 \<and> length (line_data s) \<le> max_line_length"
proof -
  obtain s where s: "echo_reach True view_lock s" "handle_at s = H_Tag line_tag 2"
    using view_session_writing by blast
  with echo_output_is_framed [OF view_lock_laws s(1)] show ?thesis by blast
qed

text \<open>After a failed read, and how many steps \<open>send_heartbeats\<close> can still make then.\<close>

definition winding_down :: "'k lock_ops \<Rightarrow> 'k echo_session \<Rightarrow> bool" where
  "winding_down lo s \<longleftrightarrow> echo_lock_inv lo s \<and> \<not> socket_open s \<and> handle_at s = H_Ended \<and>
     (b_side (beat_at s) (completed (lk_view lo (write_lock s)) 1), buffered (lk_view lo (write_lock s)))
       \<in> {(Idle, 0), (Granted, 1), (Writes, 1), (Ended, 1)}"

fun beats_left :: "beat_pc \<Rightarrow> nat" where
  "beats_left B_Ended = 0"
| "beats_left (B_Writing rem) = (if rem = [] then 4 else 1)"
| "beats_left B_Timer = 3"
| "beats_left B_Locking = 2"

lemma winding_down_step:
  assumes laws: "lock_laws lo" and w: "winding_down lo s" and st: "echo_step fast lo s t"
  shows "winding_down lo t \<and> beats_left (beat_at t) < beats_left (beat_at s)"
proof -
  have e: "handle_at s = H_Ended" and cl: "\<not> socket_open s" and inv: "echo_lock_inv lo s"
    using w by (auto simp: winding_down_def)
  obtain ans where b: "send_heartbeats fast lo ans s = Some t"
    using st e by (auto elim!: echo_stepE simp: handle_messages_def)
  note invt = beat_lock_inv [OF laws inv b]
  have hb: "heartbeat \<noteq> []" by (simp add: heartbeat_def)
  show ?thesis
  proof (cases "beat_at s")
    case B_Timer
    then have 0: "buffered (lk_view lo (write_lock s)) = 0" using w by (auto simp: winding_down_def)
    show ?thesis
    proof (cases fast)
      case True
      obtain bb k where r: "lk_try_send lo (write_lock s) = (bb, k)" by fastforce
      have "bb" using view_try [OF laws r] 0 by (simp add: view_try_send_def)
      then have "t = s\<lparr>write_lock := k, beat_at := B_Writing heartbeat\<rparr>"
        using b B_Timer r True by (simp add: send_heartbeats_def claim_lock_def split: if_splits)
      then show ?thesis
        using invt e cl B_Timer hb by (auto simp: winding_down_def echo_lock_inv_def side_defs)
    next
      case False
      then have "t = s\<lparr>write_lock := lk_async_send lo 1 (write_lock s), beat_at := B_Locking\<rparr>"
        using b B_Timer by (simp add: send_heartbeats_def claim_lock_def split: if_splits)
      then show ?thesis
        using invt e cl B_Timer 0
        by (simp add: winding_down_def view_send [OF laws] view_async_send_def)
    qed
  next
    case B_Locking
    then have g: "completed (lk_view lo (write_lock s)) 1 = Some True" using w by (auto simp: winding_down_def)
    obtain bb k where r: "lk_resume lo 1 (write_lock s) = Some (bb, k)"
      using b B_Locking by (auto simp: send_heartbeats_def split: option.splits)
    have "bb" using view_resume [OF laws r] g by simp
    then have "t = s\<lparr>write_lock := k, beat_at := B_Writing heartbeat\<rparr>"
      using b B_Locking r by (simp add: send_heartbeats_def)
    then show ?thesis
      using invt e cl B_Locking hb by (auto simp: winding_down_def echo_lock_inv_def side_defs)
  next
    case (B_Writing rem)
    then have "waiting (lk_view lo (write_lock s)) = []" "buffered (lk_view lo (write_lock s)) = 1"
      using w e by (auto simp: winding_down_def echo_lock_inv_def lock_inv_def)
    then show ?thesis
      using b B_Writing invt e cl
      by (auto simp: winding_down_def send_heartbeats_def echo_stop_def view_cancelled [OF laws]
          view_receive [OF laws] view_cancel_def view_try_receive_def net_write_def
          split: if_splits net.splits)
  qed (use b in \<open>simp add: send_heartbeats_def\<close>)
qed

text \<open>
  A read that fails ends the session: after the client has closed the connection (or has
  sent 1024 bytes without an end of line) the session makes at most four more steps and,
  when it makes no more, both coroutines have returned.
\<close>

theorem failed_read_ends_session:
  assumes laws: "lock_laws lo" and reach: "echo_reach fast lo s"
    and pc: "handle_at s = H_Reading" and failed: "handle_messages fast lo Failed s = Some t"
    and run: "(echo_step fast lo ^^ n) t u"
  shows "n \<le> 4 \<and> ((\<forall>v. \<not> echo_step fast lo u v) \<longrightarrow> handle_at u = H_Ended \<and> beat_at u = B_Ended)"
proof -
  have inv: "echo_lock_inv lo s" using echo_reach_inv [OF laws reach] by (simp add: echo_inv_def)
  have t: "t = echo_stop lo s\<lparr>handle_at := H_Ended\<rparr>"
    using failed pc by (auto simp: handle_messages_def split: option.splits)
  have idle: "(b_side (beat_at s) (completed (lk_view lo (write_lock s)) 1), buffered (lk_view lo (write_lock s)))
      \<in> {(Idle, 0), (Granted, 1), (Writes, 1), (Ended, 1)}" and "waiting (lk_view lo (write_lock s)) = []"
    using inv pc unfolding echo_lock_inv_def lock_inv_def
    by (cases "socket_open s"; auto simp: open_sides_def closed_sides_def)+
  then have "lk_view lo (write_lock t) = lk_view lo (write_lock s)"
    by (simp add: t echo_stop_def view_cancelled [OF laws] view_cancel_none)
  then have "winding_down lo t"
    using handle_lock_inv [OF laws inv failed] idle by (simp add: winding_down_def t echo_stop_def)
  moreover have "winding_down lo v \<and> n + beats_left (beat_at v) \<le> beats_left (beat_at t)"
    if "(echo_step fast lo ^^ n) t v" "winding_down lo t" for n v
    using that
  proof (induction n arbitrary: v)
    case (Suc n)
    then obtain w where "(echo_step fast lo ^^ n) t w" "echo_step fast lo w v" by auto
    with Suc winding_down_step [OF laws] show ?case by fastforce
  qed simp
  ultimately have w: "winding_down lo u" and n: "n + beats_left (beat_at u) \<le> beats_left (beat_at t)"
    using run by blast+
  have "beats_left (beat_at t) \<le> 4" by (cases "beat_at t") auto
  moreover have "beat_at u = B_Ended" if "\<forall>v. \<not> echo_step fast lo u v"
  proof -
    have "\<forall>ans. send_heartbeats fast lo ans u = None"
      using that echo_step.beat by (metis not_Some_eq)
    then show ?thesis using beat_blocked [OF laws, of fast u] w by (auto simp: winding_down_def)
  qed
  ultimately show ?thesis using n w by (auto simp: winding_down_def)
qed

theorem failed_read_ends_session_witness:
  "\<exists>t. handle_messages True view_lock Failed (echo_start view_lock) = Some t \<and>
     \<not> (\<exists>u. (echo_step True view_lock ^^ 5) t u)"
proof -
  have "\<exists>t. handle_messages True view_lock Failed (echo_start view_lock) = Some t" "handle_at (echo_start view_lock) = H_Reading"
    by (simp_all add: handle_messages_def echo_start_def)
  then show ?thesis
    using failed_read_ends_session [OF view_lock_laws echo_reach_start, where n = 5] by fastforce
qed

section \<open>The two versions\<close>

text \<open>One step of \<open>005.multithread\<close>.\<close>

definition step_005 :: "'k lock_ops \<Rightarrow> 'k echo_session \<Rightarrow> 'k echo_session \<Rightarrow> bool" where
  "step_005 lo s t \<longleftrightarrow> (\<exists>ans. handle_messages_005 lo ans s = Some t \<or> send_heartbeats_005 lo ans s = Some t)"

lemma step_005_iff: "step_005 = echo_step False"
  by (intro ext) (auto simp: step_005_def handle_messages_005_def send_heartbeats_005_def
      intro: echo_step.intros elim: echo_stepE)

lemma view_claim:
  assumes "completed (write_lock s) a = None"
  shows "case claim_lock False view_lock a s of (ok, u) \<Rightarrow> \<not> ok \<and>
    (case claim_lock True view_lock a s of
       (True, v) \<Rightarrow> lk_resume view_lock a (write_lock u) = Some (True, write_lock v) \<and> v = u\<lparr>write_lock := write_lock v\<rparr>
     | (False, v) \<Rightarrow> v = u)"
  using assms
  by (cases s) (auto simp: claim_lock_def view_lock_def view_try_send_def view_async_send_def fun_upd_idem)

lemma fast_handle_simulated:
  assumes inv: "echo_lock_inv view_lock s" and st: "handle_messages True view_lock ans s = Some t"
  shows "(echo_step False view_lock)\<^sup>*\<^sup>* s t"
proof -
  have h: "completed (write_lock s) 0 = None" if "handle_at s = H_Reading"
    using inv that by (simp add: echo_lock_inv_def lock_inv_def view_lock_def)
  show ?thesis
  proof (cases "handle_at s = H_Reading \<and> line_length (line_data s) \<noteq> None")
    case True
    then obtain n where n: "line_length (line_data s) = Some n" by auto
    have p: "ans = Proceed" using st True n by (auto simp: handle_messages_def split: if_splits)
    obtain ok u fk v where c: "claim_lock False view_lock 0 s = (ok, u)" "claim_lock True view_lock 0 s = (fk, v)"
      by fastforce
    note vc = view_claim [OF h, simplified c] 
    have u: "echo_step False view_lock s (u\<lparr>handle_at := H_Locking n\<rparr>)"
      using True n c vc by (intro echo_step.handle [of _ _ Proceed]) (auto simp: handle_messages_def)
    have t: "t = v\<lparr>handle_at := (if fk then H_Tag line_tag n else H_Locking n)\<rparr>"
      using st True n c p by (auto simp: handle_messages_def)
    show ?thesis
    proof (cases fk)
      case False
      then show ?thesis using u t vc True by auto
    next
      case fk: True
      then have "handle_messages False view_lock Proceed (u\<lparr>handle_at := H_Locking n\<rparr>) = Some t"
        using vc True t by (cases u; cases v) (auto simp: handle_messages_def)
      then show ?thesis using u echo_step.handle [of False view_lock Proceed] by (meson converse_rtranclp_into_rtranclp r_into_rtranclp)
    qed
  next
    case False
    then have "handle_messages False view_lock ans s = Some t"
      using st by (auto simp: handle_messages_def split: handle_pc.splits)
    then show ?thesis by (meson echo_step.handle r_into_rtranclp)
  qed
qed

lemma fast_beat_simulated:
  assumes inv: "echo_lock_inv view_lock s" and st: "send_heartbeats True view_lock ans s = Some t"
  shows "(echo_step False view_lock)\<^sup>*\<^sup>* s t"
proof -
  have b: "completed (write_lock s) 1 = None" if "beat_at s = B_Timer"
    using inv that by (simp add: echo_lock_inv_def lock_inv_def view_lock_def)
  show ?thesis
  proof (cases "beat_at s = B_Timer")
    case True
    have p: "ans = Timer_Expired" using st True by (auto simp: send_heartbeats_def split: if_splits)
    obtain ok u fk v where c: "claim_lock False view_lock 1 s = (ok, u)" "claim_lock True view_lock 1 s = (fk, v)"
      by fastforce
    note vc = view_claim [OF b, simplified c]
    have u: "echo_step False view_lock s (u\<lparr>beat_at := B_Locking\<rparr>)"
      using True c vc by (intro echo_step.beat [of _ _ Timer_Expired]) (auto simp: send_heartbeats_def)
    have t: "t = v\<lparr>beat_at := (if fk then B_Writing heartbeat else B_Locking)\<rparr>"
      using st True c p by (auto simp: send_heartbeats_def)
    show ?thesis
    proof (cases fk)
      case False
      then show ?thesis using u t vc True by auto
    next
      case fk: True
      then have "send_heartbeats False view_lock Proceed (u\<lparr>beat_at := B_Locking\<rparr>) = Some t"
        using vc True t by (cases u; cases v) (auto simp: send_heartbeats_def)
      then show ?thesis using u echo_step.beat [of False view_lock Proceed] by (meson converse_rtranclp_into_rtranclp r_into_rtranclp)
    qed
  next
    case False
    then have "send_heartbeats False view_lock ans s = Some t"
      using st by (auto simp: send_heartbeats_def split: beat_pc.splits)
    then show ?thesis by (meson echo_step.beat r_into_rtranclp)
  qed
qed

lemma fast_step_simulated:
  assumes "echo_lock_inv view_lock s" "echo_step True view_lock s t"
  shows "(echo_step False view_lock)\<^sup>*\<^sup>* s t"
  using assms(2) fast_handle_simulated [OF assms(1)] fast_beat_simulated [OF assms(1)]
  by (auto elim: echo_stepE)

text \<open>
  The optimisation of \<open>013.mutual_exclusion_1\<close> over \<open>005.multithread\<close>, a non-blocking
  attempt before the suspending send, adds no behaviour: every state the optimised session
  reaches is reached by the older one, in which a granted claim takes one more resumption.
\<close>

theorem optimised_claim_adds_nothing:
  assumes "echo_reach True view_lock s"
  shows "reach (\<lambda>s. s = echo_start view_lock) (step_005 view_lock) s"
  using assms
proof (induction rule: reach.induct)
  case (reach_step s t)
  have "echo_lock_inv view_lock s"
    using echo_reach_inv [OF view_lock_laws reach_step.hyps(1)] by (simp add: echo_inv_def)
  from fast_step_simulated [OF this reach_step.hyps(2)] reach_step.IH show ?case
    unfolding step_005_iff by (rule reach_steps)
qed (auto intro: reach_init)

theorem optimised_claim_adds_nothing_witness:
  "\<exists>s. reach (\<lambda>s. s = echo_start view_lock) (step_005 view_lock) s \<and> handle_at s = H_Tag line_tag 2"
  using view_session_writing optimised_claim_adds_nothing by blast

end
