(* ===== verification/Throttling_Proxy.thy ===== *)
theory Throttling_Proxy
  imports Channel "HOL-Library.Sublist"
begin

text \<open>
  The throttling proxy of \<open>src/boost_test/asio/014.throttling_proxy\<close>: per direction one
  coroutine puts tokens into a bounded channel at every tick of a timer and one moves as many
  bytes as its token allows; the four coroutines of a connection run until one of them fails.
  A step runs one coroutine from a suspension point to the next; the answers of the network
  and of the timer are arguments of the step, the channel is the argument \<open>ch\<close> of theory
  \<open>Channel\<close> (\<open>async_send\<close> completes as soon as the buffer has room).
\<close>

section \<open>One direction\<close>

datatype producer_pc = P_Sending | P_Waiting

text \<open>
  \<open>transfer\<close> waits for a token, for bytes (with what is left of its token), or for the
  rest of a write (the bytes still to be written, how many were read, what was left then).
\<close>

datatype transfer_pc = T_Token | T_Reading nat | T_Writing string nat nat

text \<open>\<open>taken\<close> and \<open>given\<close> are the bytes read from one socket and written to the other.\<close>

record 'c direction =
  tokens :: 'c
  producer :: producer_pc
  mover :: transfer_pc
  taken :: string
  given :: string
  timer_ticks :: nat

datatype answer = Got string | Wrote nat | Tick | Resumed | Net_Error

definition number_of_tokens :: nat where "number_of_tokens = 100"
definition bytes_per_token :: nat where "bytes_per_token = 20 * 1024"
definition buffer_size :: nat where "buffer_size = 4096"

definition new_direction :: "'c \<Rightarrow> 'c direction" where
  "new_direction c = \<lparr>tokens = c, producer = P_Sending, mover = T_Token, taken = [], given = [],
     timer_ticks = 0\<rparr>"

definition produce_tokens ::
  "('c, nat) channel_ops \<Rightarrow> answer \<Rightarrow> 'c direction \<Rightarrow> 'c direction option" where
  "produce_tokens ch ans d =
     (case producer d of
        P_Sending \<Rightarrow>
          (case try_send ch bytes_per_token (tokens d) of
             (True, c) \<Rightarrow> Some (d\<lparr>tokens := c, producer := P_Waiting\<rparr>)
           | (False, c) \<Rightarrow> None)
      | P_Waiting \<Rightarrow>
          if ans = Tick then Some (d\<lparr>producer := P_Sending, timer_ticks := Suc (timer_ticks d)\<rparr>) else None)"

text \<open>The head of the inner loop: \<open>while (bytes_available > 0)\<close>.\<close>

definition next_read :: "nat \<Rightarrow> transfer_pc" where
  "next_read bytes_available = (if bytes_available > 0 then T_Reading bytes_available else T_Token)"

text \<open>\<open>Inl\<close>: the coroutine ends with an exception.\<close>

definition transfer ::
  "('c, nat) channel_ops \<Rightarrow> answer \<Rightarrow> 'c direction \<Rightarrow> (unit + 'c direction) option" where
  "transfer ch ans d =
     (case mover d of
        T_Token \<Rightarrow>
          (case receive ch (tokens d) of
             None \<Rightarrow> None
           | Some ((None, n), c) \<Rightarrow> Some (Inr (d\<lparr>tokens := c, mover := next_read n\<rparr>))
           | Some ((Some e, n), c) \<Rightarrow> Some (Inl ()))
      | T_Reading bytes_available \<Rightarrow>
          (case ans of
             Got bs \<Rightarrow>
               if bs \<noteq> [] \<and> length bs \<le> min buffer_size bytes_available
               then Some (Inr (d\<lparr>taken := taken d @ bs, mover := T_Writing bs (length bs) bytes_available\<rparr>))
               else None
           | Net_Error \<Rightarrow> Some (Inl ())
           | _ \<Rightarrow> None)
      | T_Writing rem n bytes_available \<Rightarrow>
          (case ans of
             Wrote k \<Rightarrow>
               if 0 < k \<and> k \<le> length rem
               then Some (Inr (d\<lparr>given := given d @ take k rem,
                                 mover := (if k < length rem then T_Writing (drop k rem) n bytes_available
                                           else next_read (bytes_available - n))\<rparr>))
               else None
           | Net_Error \<Rightarrow> Some (Inl ())
           | _ \<Rightarrow> None))"

section \<open>A connection\<close>

datatype phase = Connecting | Running | Closed

record 'c proxy =
  proxy_phase :: phase
  upstream :: "'c direction"
  downstream :: "'c direction"

text \<open>Which coroutine runs; \<open>Connect\<close> is the one of \<open>proxy\<close> itself.\<close>

datatype coroutine = Connect | Produce_Up | Transfer_Up | Produce_Down | Transfer_Down

definition new_proxy :: "'c \<Rightarrow> 'c proxy" where
  "new_proxy c = \<lparr>proxy_phase = Connecting, upstream = new_direction c, downstream = new_direction c\<rparr>"

text \<open>
  \<open>co_await (a && b && c && d)\<close>: the first failure cancels the others, and the exception
  leaves \<open>proxy\<close>, which destroys both sockets.
\<close>

definition proxy_step ::
  "('c, nat) channel_ops \<Rightarrow> coroutine \<times> answer \<Rightarrow> 'c proxy \<Rightarrow> 'c proxy option" where
  "proxy_step ch = (\<lambda>(co, ans) p.
     (case proxy_phase p of
        Connecting \<Rightarrow>
          if co = Connect
          then Some (p\<lparr>proxy_phase := (if ans = Net_Error then Closed else Running)\<rparr>) else None
      | Running \<Rightarrow>
          (case co of
             Connect \<Rightarrow> None
           | Produce_Up \<Rightarrow> map_option (\<lambda>d. p\<lparr>upstream := d\<rparr>) (produce_tokens ch ans (upstream p))
           | Produce_Down \<Rightarrow> map_option (\<lambda>d. p\<lparr>downstream := d\<rparr>) (produce_tokens ch ans (downstream p))
           | Transfer_Up \<Rightarrow>
               map_option (case_sum (\<lambda>_. p\<lparr>proxy_phase := Closed\<rparr>) (\<lambda>d. p\<lparr>upstream := d\<rparr>))
                 (transfer ch ans (upstream p))
           | Transfer_Down \<Rightarrow>
               map_option (case_sum (\<lambda>_. p\<lparr>proxy_phase := Closed\<rparr>) (\<lambda>d. p\<lparr>downstream := d\<rparr>))
                 (transfer ch ans (downstream p)))
      | Closed \<Rightarrow> None))"

fun proxy_run ::
  "('c, nat) channel_ops \<Rightarrow> (coroutine \<times> answer) list \<Rightarrow> 'c proxy \<Rightarrow> 'c proxy option" where
  "proxy_run ch [] p = Some p"
| "proxy_run ch (e # es) p = (case proxy_step ch e p of None \<Rightarrow> None | Some q \<Rightarrow> proxy_run ch es q)"

text \<open>
  \<open>listen\<close>: a connection for every accepted client; a failed accept is reported on stderr
  (and followed by a pause).
\<close>

fun listen_proxy :: "'c \<Rightarrow> (string + unit) list \<Rightarrow> console \<times> 'c proxy list" where
  "listen_proxy c [] = ([], [])"
| "listen_proxy c (Inr _ # as) = (let (out, ps) = listen_proxy c as in (out, new_proxy c # ps))"
| "listen_proxy c (Inl e # as) =
     (let (out, ps) = listen_proxy c as in ((''Accept failed: '' @ e) # out, ps))"

section \<open>Tokens are conserved\<close>

text \<open>What the transfer may still read on its token.\<close>

fun allowance :: "transfer_pc \<Rightarrow> nat" where
  "allowance T_Token = 0"
| "allowance (T_Reading a) = a"
| "allowance (T_Writing rem n a) = a - n"

fun unwritten :: "transfer_pc \<Rightarrow> string" where
  "unwritten (T_Writing rem n a) = rem"
| "unwritten _ = []"

fun mover_ok :: "transfer_pc \<Rightarrow> bool" where
  "mover_ok (T_Writing rem n a) \<longleftrightarrow> rem \<noteq> [] \<and> n \<le> a \<and> a \<le> bytes_per_token"
| "mover_ok m \<longleftrightarrow> allowance m \<le> bytes_per_token"

definition credit :: "('c \<Rightarrow> nat list) \<Rightarrow> 'c direction \<Rightarrow> nat" where
  "credit items d = allowance (mover d) + sum_list (items (tokens d)) +
     (if producer d = P_Sending then bytes_per_token else 0)"

definition direction_inv :: "('c \<Rightarrow> nat list) \<Rightarrow> 'c direction \<Rightarrow> bool" where
  "direction_inv items d \<longleftrightarrow>
     length (taken d) + credit items d = bytes_per_token * Suc (timer_ticks d) \<and>
     length (items (tokens d)) \<le> number_of_tokens \<and> (\<forall>n \<in> set (items (tokens d)). n = bytes_per_token) \<and>
     mover_ok (mover d) \<and> taken d = given d @ unwritten (mover d)"

lemma allowance_next_read [simp]: "allowance (next_read n) = n"
  by (simp add: next_read_def)

lemma next_read_ok [simp]: "unwritten (next_read n) = []" "mover_ok (next_read n) \<longleftrightarrow> n \<le> bytes_per_token"
  by (simp_all add: next_read_def)

lemma produce_inv:
  assumes law: "channel_law ch items number_of_tokens" and inv: "direction_inv items d"
    and st: "produce_tokens ch ans d = Some d'"
  shows "direction_inv items d' \<and> timer_ticks d \<le> timer_ticks d'"
proof (cases "producer d")
  case P_Sending
  then obtain c where c: "try_send ch bytes_per_token (tokens d) = (True, c)"
    and d': "d' = d\<lparr>tokens := c, producer := P_Waiting\<rparr>"
    using st by (auto simp: produce_tokens_def split: prod.splits bool.splits)
  show ?thesis using inv P_Sending channel_sent [OF law c] unfolding d' direction_inv_def credit_def by auto
next
  case P_Waiting
  then show ?thesis using st inv
    by (auto simp: produce_tokens_def direction_inv_def credit_def split: if_splits)
qed

lemma transfer_inv:
  assumes law: "channel_law ch items number_of_tokens" and inv: "direction_inv items d"
    and st: "transfer ch ans d = Some (Inr d')"
  shows "direction_inv items d' \<and> timer_ticks d = timer_ticks d'"
proof (cases "mover d")
  case T_Token
  then obtain n c where r: "receive ch (tokens d) = Some ((None, n), c)"
    and d': "d' = d\<lparr>tokens := c, mover := next_read n\<rparr>"
    using st by (auto simp: transfer_def split: option.splits prod.splits)
  show ?thesis using inv T_Token channel_received [OF law r]
    unfolding d' direction_inv_def credit_def by auto
next
  case (T_Reading a)
  then show ?thesis using st inv
    by (auto simp: transfer_def direction_inv_def credit_def split: answer.splits if_splits)
next
  case (T_Writing rem n a)
  then show ?thesis using st inv
    by (auto simp: transfer_def direction_inv_def credit_def
        split: answer.splits if_splits)
qed

lemma credit_bound:
  assumes "direction_inv items d"
  shows "credit items d \<le> bytes_per_token * (number_of_tokens + 2)"
proof -
  have "sum_list ns = length ns * bytes_per_token" if "\<forall>n \<in> set ns. n = bytes_per_token" for ns
    using that by (induction ns) auto
  then have "sum_list (items (tokens d)) \<le> number_of_tokens * bytes_per_token"
    using assms by (simp add: direction_inv_def)
  moreover have "allowance (mover d) \<le> bytes_per_token"
    using assms by (cases "mover d") (auto simp: direction_inv_def)
  ultimately show ?thesis by (simp add: credit_def algebra_simps)
qed

definition proxy_inv :: "('c \<Rightarrow> nat list) \<Rightarrow> 'c proxy \<Rightarrow> bool" where
  "proxy_inv items p \<longleftrightarrow> direction_inv items (upstream p) \<and> direction_inv items (downstream p)"

lemma proxy_inv_new: "items c = [] \<Longrightarrow> proxy_inv items (new_proxy c)"
  by (simp add: proxy_inv_def new_proxy_def new_direction_def direction_inv_def credit_def)

definition later :: "'c direction \<Rightarrow> 'c direction \<Rightarrow> bool" where
  "later d d' \<longleftrightarrow> timer_ticks d \<le> timer_ticks d' \<and> prefix (given d) (given d') \<and> prefix (taken d) (taken d')"

lemma later_refl [simp]: "later d d" and later_trans: "later d e \<Longrightarrow> later e f \<Longrightarrow> later d f"
  by (auto simp: later_def intro: prefix_order.trans)

lemma step_later:
  shows "produce_tokens ch ans d = Some d' \<Longrightarrow> later d d'"
    and "transfer ch ans d = Some (Inr d') \<Longrightarrow> later d d'"
  by (auto simp: produce_tokens_def transfer_def later_def
      split: producer_pc.splits transfer_pc.splits prod.splits bool.splits option.splits
        answer.splits if_splits)

lemma proxy_step_cases:
  assumes "proxy_step ch (co, ans) p = Some q"
  obtains ph where "q = p\<lparr>proxy_phase := ph\<rparr>"
  | d where "q = p\<lparr>upstream := d\<rparr>"
      "produce_tokens ch ans (upstream p) = Some d \<or> transfer ch ans (upstream p) = Some (Inr d)"
  | d where "q = p\<lparr>downstream := d\<rparr>"
      "produce_tokens ch ans (downstream p) = Some d \<or> transfer ch ans (downstream p) = Some (Inr d)"
proof -
  have sum: "(case x of Inl u \<Rightarrow> a | Inr d \<Rightarrow> g d) = q \<Longrightarrow> x = Inl () \<and> q = a \<or> (\<exists>d. x = Inr d \<and> q = g d)"
    for x :: "unit + 'a direction" and a g by (cases x) auto
  show thesis
    using assms that
    by (auto simp: proxy_step_def split: phase.splits coroutine.splits if_splits dest!: sum [OF sym])
qed

lemma proxy_step_inv:
  assumes law: "channel_law ch items number_of_tokens" and inv: "proxy_inv items p"
    and st: "proxy_step ch e p = Some q"
  shows "proxy_inv items q \<and> later (upstream p) (upstream q) \<and> later (downstream p) (downstream q)"
proof -
  obtain co ans where e: "e = (co, ans)" by fastforce
  have dir: "direction_inv items d' \<and> later d d'" if "direction_inv items d"
    "produce_tokens ch ans d = Some d' \<or> transfer ch ans d = Some (Inr d')" for d d'
    using that(2) produce_inv [OF law that(1), of ans d'] transfer_inv [OF law that(1), of ans d']
      step_later [of ch ans d d'] by blast
  have i: "direction_inv items (upstream p)" "direction_inv items (downstream p)"
    using inv by (simp_all add: proxy_inv_def)
  from st [unfolded e] show ?thesis
    by (cases rule: proxy_step_cases)
      (use i dir [OF i(1)] dir [OF i(2)] in \<open>auto simp: proxy_inv_def\<close>)
qed

lemma proxy_run_inv:
  assumes law: "channel_law ch items number_of_tokens"
  shows "proxy_run ch es p = Some q \<Longrightarrow> proxy_inv items p \<Longrightarrow>
    proxy_inv items q \<and> later (upstream p) (upstream q) \<and> later (downstream p) (downstream q)"
proof (induction es arbitrary: p)
  case (Cons e es)
  then obtain r where "proxy_step ch e p = Some r" "proxy_run ch es r = Some q"
    by (auto split: option.splits)
  with proxy_step_inv [OF law Cons.prems(2)] Cons.IH show ?case by (meson later_trans)
qed simp

section \<open>Properties\<close>

text \<open>
  C17: The proxy neither loses, reorders nor invents bytes: in both directions what has been
  written is what has been read less the bytes of the write in progress. And it throttles:
  between any two moments of a connection the bytes read in a direction are at most 102
  tokens (a full channel, the token in use and the one being sent) and one token per tick of
  the timer, so after k ticks at most \<open>(k + 1)\<close> tokens from the start.
\<close>

theorem proxy_throttles:
  assumes law: "channel_law ch items number_of_tokens" and "items c = []"
    and run: "proxy_run ch es (new_proxy c) = Some p" and more: "proxy_run ch fs p = Some q"
    and dir: "(d, d') = (upstream p, upstream q) \<or> (d, d') = (downstream p, downstream q)"
  shows "taken d = given d @ unwritten (mover d) \<and>
    length (taken d) \<le> bytes_per_token * (timer_ticks d + 1) \<and>
    prefix (given d) (given d') \<and>
    length (taken d') \<le> length (taken d) + bytes_per_token * (number_of_tokens + 2 + (timer_ticks d' - timer_ticks d))"
proof -
  have p: "proxy_inv items p" using proxy_run_inv [OF law run] proxy_inv_new [of items c] assms(2) by blast
  have q: "proxy_inv items q" "later d d'" using proxy_run_inv [OF law more p] dir by auto
  have i: "direction_inv items d" "direction_inv items d'" using p q(1) dir by (auto simp: proxy_inv_def)
  let ?b = bytes_per_token
  have 1: "length (taken d) + credit items d = ?b * Suc (timer_ticks d)"
    and 2: "length (taken d') + credit items d' = ?b * Suc (timer_ticks d')"
    using i unfolding direction_inv_def by blast+
  have "?b * Suc (timer_ticks d') = ?b * Suc (timer_ticks d) + ?b * (timer_ticks d' - timer_ticks d)"
    using q(2) by (simp add: later_def flip: distrib_left)
  then have "length (taken d') \<le> length (taken d) + ?b * (number_of_tokens + 2) + ?b * (timer_ticks d' - timer_ticks d)"
    using 1 2 credit_bound [OF i(1)] by linarith
  then have "length (taken d') \<le> length (taken d) + ?b * (number_of_tokens + 2 + (timer_ticks d' - timer_ticks d))"
    by (simp only: distrib_left add.assoc)
  moreover have "length (taken d) \<le> ?b * (timer_ticks d + 1)" using 1 by simp
  ultimately show ?thesis using i(1) q(2) unfolding direction_inv_def later_def by blast
qed

text \<open>A connection that receives one byte and passes it on.\<close>

definition one_byte :: "(coroutine \<times> answer) list" where
  "one_byte = [(Connect, Resumed), (Produce_Up, Resumed), (Transfer_Up, Resumed),
     (Transfer_Up, Got ''x''), (Transfer_Up, Wrote 1)]"

lemmas proxy_exec = proxy_step_def produce_tokens_def transfer_def next_read_def new_proxy_def
  new_direction_def list_channel_def bytes_per_token_def number_of_tokens_def buffer_size_def

theorem proxy_throttles_witness:
  "\<exists>p. proxy_run (list_channel number_of_tokens) one_byte (new_proxy []) = Some p \<and>
     given (upstream p) = ''x'' \<and> length (taken (upstream p)) \<le> bytes_per_token"
proof -
  obtain p where p: "proxy_run (list_channel number_of_tokens) one_byte (new_proxy []) = Some p"
    "given (upstream p) = ''x''" "timer_ticks (upstream p) = 0"
    by (simp add: one_byte_def proxy_exec)
  from proxy_throttles [OF list_channel_law _ p(1), of "[]" p "upstream p" "upstream p"] p
  show ?thesis by auto
qed

text \<open>
  A connection ends with its first failure, for both directions: whatever coroutine meets
  an error of the network, the connection is closed and makes no step again, so bytes that
  were read and not yet written are lost. In particular a client that has sent everything and
  closes its side loses the rest of the answer: from every running connection in which the
  downstream transfer holds bytes, the end of the upstream data leaves them unwritten for ever.
\<close>

theorem proxy_failure_is_final:
  assumes "proxy_phase p = Running"
  shows "(mover (upstream p) \<noteq> T_Token \<longrightarrow>
      (\<exists>q. proxy_step ch (Transfer_Up, Net_Error) p = Some q \<and> proxy_phase q = Closed \<and>
         downstream q = downstream p \<and> (\<forall>es. es \<noteq> [] \<longrightarrow> proxy_run ch es q = None))) \<and>
    (mover (downstream p) \<noteq> T_Token \<longrightarrow>
      (\<exists>q. proxy_step ch (Transfer_Down, Net_Error) p = Some q \<and> proxy_phase q = Closed \<and>
         upstream q = upstream p \<and> (\<forall>es. es \<noteq> [] \<longrightarrow> proxy_run ch es q = None)))"
proof -
  have closed: "proxy_run ch es q = None" if "proxy_phase q = Closed" "es \<noteq> []" for q es
    using that by (cases es) (simp_all add: proxy_step_def split: prod.splits)
  have fail: "transfer ch Net_Error d = Some (Inl ())" if "mover d \<noteq> T_Token" for d
    using that by (cases "mover d") (simp_all add: transfer_def)
  show ?thesis
    using assms fail [of "upstream p"] fail [of "downstream p"]
      closed [of "p\<lparr>proxy_phase := Closed\<rparr>"]
    by (auto simp: proxy_step_def)
qed

definition answer_in_flight :: "(coroutine \<times> answer) list" where
  "answer_in_flight = [(Connect, Resumed), (Produce_Up, Resumed), (Transfer_Up, Resumed),
     (Produce_Down, Resumed), (Transfer_Down, Resumed), (Transfer_Down, Got ''yes'')]"

theorem proxy_failure_is_final_witness:
  "\<exists>p q. proxy_run (list_channel number_of_tokens) answer_in_flight (new_proxy []) = Some p \<and>
     proxy_step (list_channel number_of_tokens) (Transfer_Up, Net_Error) p = Some q \<and>
     unwritten (mover (downstream q)) = ''yes'' \<and> proxy_phase q = Closed"
proof -
  obtain p where p: "proxy_run (list_channel number_of_tokens) answer_in_flight (new_proxy []) = Some p"
    "proxy_phase p = Running" "mover (upstream p) \<noteq> T_Token" "unwritten (mover (downstream p)) = ''yes''"
    by (simp add: answer_in_flight_def proxy_exec)
  from proxy_failure_is_final [OF p(2), of "list_channel number_of_tokens"] p show ?thesis by auto
qed

end
