(* ===== verification/Pthread_Mutex.thy ===== *)
theory Pthread_Mutex
  imports Prelude
begin

text \<open>
  The demonstrations of \<open>src/cpp_test/iceoryx/004.pthread_platform\<close>: named threads, a counter
  under a mutex, a recursive mutex, \<open>trylock\<close> against a thread that holds the mutex, the
  priority protocol, and a robust mutex whose owner dies. The \<open>iox_pthread\<close> functions are
  iceoryx code over POSIX: the argument \<open>mo\<close>, with \<open>mutex_laws\<close> saying what POSIX says.
  Threads are numbers; the demonstrations with several threads are step functions whose
  steps are the single calls and accesses to shared variables.
\<close>

section \<open>Mutexes\<close>

datatype mutex_type = NORMAL | RECURSIVE | ERRORCHECK

record mutex_attr =
  a_type :: mutex_type
  a_shared :: bool
  a_inherit :: bool
  a_robust :: bool

text \<open>The values of the Linux headers.\<close>

definition EPERM :: int where "EPERM = 1"
definition EBUSY :: int where "EBUSY = 16"
definition EINVAL :: int where "EINVAL = 22"
definition ERANGE :: int where "ERANGE = 34"
definition EDEADLK :: int where "EDEADLK = 35"
definition EOWNERDEAD :: int where "EOWNERDEAD = 130"
definition ENOTRECOVERABLE :: int where "ENOTRECOVERABLE = 131"

lemmas errno_defs = EPERM_def EBUSY_def EINVAL_def ERANGE_def EDEADLK_def EOWNERDEAD_def
  ENOTRECOVERABLE_def

text \<open>
  What POSIX says of a mutex: its attributes, the thread that owns it and how often, whether
  its last owner died holding it, and whether it was given up as not recoverable.
\<close>

record mutex_view =
  m_attr :: mutex_attr
  m_owner :: "(nat \<times> nat) option"
  m_dead :: bool
  m_lost :: bool

definition view_init :: "mutex_attr \<Rightarrow> mutex_view" where
  "view_init a = \<lparr>m_attr = a, m_owner = None, m_dead = False, m_lost = False\<rparr>"

text \<open>\<open>None\<close>: the caller blocks.\<close>

definition view_trylock :: "nat \<Rightarrow> mutex_view \<Rightarrow> int \<times> mutex_view" where
  "view_trylock t v =
     (if m_lost v then (ENOTRECOVERABLE, v)
      else case m_owner v of
          None \<Rightarrow> (if m_dead v then EOWNERDEAD else 0, v\<lparr>m_owner := Some (t, 1)\<rparr>)
        | Some (u, n) \<Rightarrow>
            if u = t \<and> a_type (m_attr v) = RECURSIVE then (0, v\<lparr>m_owner := Some (t, Suc n)\<rparr>)
            else (EBUSY, v))"

definition view_lock :: "nat \<Rightarrow> mutex_view \<Rightarrow> (int \<times> mutex_view) option" where
  "view_lock t v =
     (case m_owner v of
        Some (u, n) \<Rightarrow>
          if \<not> m_lost v \<and> u = t \<and> a_type (m_attr v) = ERRORCHECK then Some (EDEADLK, v)
          else if m_lost v \<or> u = t \<and> a_type (m_attr v) = RECURSIVE then Some (view_trylock t v)
          else None
      | None \<Rightarrow> Some (view_trylock t v))"

text \<open>A dead owner's mutex that is unlocked before it was made consistent is lost.\<close>

definition view_unlock :: "nat \<Rightarrow> mutex_view \<Rightarrow> int \<times> mutex_view" where
  "view_unlock t v =
     (case m_owner v of
        Some (u, n) \<Rightarrow>
          if u = t
          then (0, if n > 1 then v\<lparr>m_owner := Some (t, n - 1)\<rparr>
                   else v\<lparr>m_owner := None, m_dead := False, m_lost := m_lost v \<or> m_dead v\<rparr>)
          else (EPERM, v)
      | None \<Rightarrow> (EPERM, v))"

definition view_consistent :: "mutex_view \<Rightarrow> int \<times> mutex_view" where
  "view_consistent v =
     (if a_robust (m_attr v) \<and> m_dead v \<and> m_owner v \<noteq> None then (0, v\<lparr>m_dead := False\<rparr>) else (EINVAL, v))"

definition view_exit :: "nat \<Rightarrow> mutex_view \<Rightarrow> mutex_view" where
  "view_exit t v =
     (case m_owner v of
        Some (u, n) \<Rightarrow> if u = t \<and> a_robust (m_attr v) then v\<lparr>m_owner := None, m_dead := True\<rparr> else v
      | None \<Rightarrow> v)"

text \<open>
  \<open>mx_init\<close> may fail with an error (\<open>Inl\<close>), for instance when the system does not support the
  attributes; \<open>mx_exit t\<close> is what the end of thread \<open>t\<close> does to the mutex. An unlock by
  another thread than the owner of a NORMAL mutex is undefined, so the law leaves it open.
\<close>

record 'm mutex_ops =
  mx_init :: "mutex_attr \<Rightarrow> int + 'm"
  mx_lock :: "nat \<Rightarrow> 'm \<Rightarrow> (int \<times> 'm) option"
  mx_trylock :: "nat \<Rightarrow> 'm \<Rightarrow> int \<times> 'm"
  mx_unlock :: "nat \<Rightarrow> 'm \<Rightarrow> int \<times> 'm"
  mx_consistent :: "'m \<Rightarrow> int \<times> 'm"
  mx_destroy :: "'m \<Rightarrow> int"
  mx_exit :: "nat \<Rightarrow> 'm \<Rightarrow> 'm"
  mx_view :: "'m \<Rightarrow> mutex_view"

definition mutex_laws :: "'m mutex_ops \<Rightarrow> bool" where
  "mutex_laws mo \<longleftrightarrow>
     (\<forall>a m. mx_init mo a = Inr m \<longrightarrow> mx_view mo m = view_init a) \<and>
     (\<forall>a e. mx_init mo a = Inl e \<longrightarrow> e \<noteq> 0) \<and>
     (\<forall>t m. map_option (map_prod id (mx_view mo)) (mx_lock mo t m) = view_lock t (mx_view mo m)) \<and>
     (\<forall>t m. map_prod id (mx_view mo) (mx_trylock mo t m) = view_trylock t (mx_view mo m)) \<and>
     (\<forall>t m. a_type (m_attr (mx_view mo m)) \<noteq> NORMAL \<or> (\<exists>n. m_owner (mx_view mo m) = Some (t, n)) \<longrightarrow>
        map_prod id (mx_view mo) (mx_unlock mo t m) = view_unlock t (mx_view mo m)) \<and>
     (\<forall>m. map_prod id (mx_view mo) (mx_consistent mo m) = view_consistent (mx_view mo m)) \<and>
     (\<forall>m. m_owner (mx_view mo m) = None \<longrightarrow> mx_destroy mo m = 0) \<and>
     (\<forall>t m. mx_view mo (mx_exit mo t m) = view_exit t (mx_view mo m))"

text \<open>An instance on the view itself.\<close>

definition posix_mutex :: "mutex_view mutex_ops" where
  "posix_mutex = \<lparr>mx_init = (\<lambda>a. Inr (view_init a)), mx_lock = view_lock, mx_trylock = view_trylock,
     mx_unlock = view_unlock, mx_consistent = view_consistent,
     mx_destroy = (\<lambda>v. if m_owner v = None then 0 else EBUSY), mx_exit = view_exit, mx_view = (\<lambda>v. v)\<rparr>"

lemma posix_mutex_laws: "mutex_laws posix_mutex"
  by (simp add: mutex_laws_def posix_mutex_def option.map_ident prod.map_ident id_def)

lemma mutex_facts:
  assumes "mutex_laws mo"
  shows law_init: "mx_init mo a = Inr m \<Longrightarrow> mx_view mo m = view_init a"
    and law_lock: "mx_lock mo t m = Some (rc, m') \<Longrightarrow>
      view_lock t (mx_view mo m) = Some (rc, mx_view mo m')"
    and law_lock_None: "mx_lock mo t m = None \<longleftrightarrow> view_lock t (mx_view mo m) = None"
    and law_trylock: "mx_trylock mo t m = (rc, m') \<Longrightarrow>
      view_trylock t (mx_view mo m) = (rc, mx_view mo m')"
    and law_unlock: "mx_unlock mo t m = (rc, m') \<Longrightarrow> m_owner (mx_view mo m) = Some (t, n) \<Longrightarrow>
      view_unlock t (mx_view mo m) = (rc, mx_view mo m')"
    and law_consistent: "mx_consistent mo m = (rc, m') \<Longrightarrow>
      view_consistent (mx_view mo m) = (rc, mx_view mo m')"
    and law_destroy: "m_owner (mx_view mo m) = None \<Longrightarrow> mx_destroy mo m = 0"
    and law_exit: "mx_view mo (mx_exit mo t m) = view_exit t (mx_view mo m)"
proof -
  have l: "map_option (map_prod id (mx_view mo)) (mx_lock mo t m) = view_lock t (mx_view mo m)"
    and tl: "map_prod id (mx_view mo) (mx_trylock mo t m) = view_trylock t (mx_view mo m)"
    and c: "map_prod id (mx_view mo) (mx_consistent mo m) = view_consistent (mx_view mo m)"
    and u: "m_owner (mx_view mo m) = Some (t, n) \<Longrightarrow>
      map_prod id (mx_view mo) (mx_unlock mo t m) = view_unlock t (mx_view mo m)"
    using assms unfolding mutex_laws_def by blast+
  show "mx_lock mo t m = Some (rc, m') \<Longrightarrow> view_lock t (mx_view mo m) = Some (rc, mx_view mo m')"
    using l by simp
  show "mx_lock mo t m = None \<longleftrightarrow> view_lock t (mx_view mo m) = None"
    using l by (metis None_eq_map_option_iff)
  show "mx_trylock mo t m = (rc, m') \<Longrightarrow> view_trylock t (mx_view mo m) = (rc, mx_view mo m')"
    using tl by simp
  show "mx_consistent mo m = (rc, m') \<Longrightarrow> view_consistent (mx_view mo m) = (rc, mx_view mo m')"
    using c by simp
  show "mx_unlock mo t m = (rc, m') \<Longrightarrow> m_owner (mx_view mo m) = Some (t, n) \<Longrightarrow>
      view_unlock t (mx_view mo m) = (rc, mx_view mo m')"
    using u by simp
qed (use assms in \<open>auto simp: mutex_laws_def\<close>)

section \<open>The sequential demonstrations\<close>

text \<open>
  How a demonstration ends early: \<open>CHECK\<close> saw an error and called \<open>exit(1)\<close>, a lock was never
  granted, an \<open>assert\<close> failed, or the recursion used up the stack (\<open>frames\<close> below).
\<close>

datatype halt = Exit string int | Blocks_For_Ever | Assert_Failed | Stack_Overflow

definition CHECK :: "string \<Rightarrow> int \<Rightarrow> (halt + 'a) \<Rightarrow> halt + 'a" where
  "CHECK expr rc k = (if rc \<noteq> 0 then Inl (Exit expr rc) else k)"

definition lock_then :: "'m mutex_ops \<Rightarrow> nat \<Rightarrow> 'm \<Rightarrow> ('m \<Rightarrow> halt + 'a) \<Rightarrow> halt + 'a" where
  "lock_then mo t m k =
     (case mx_lock mo t m of
        None \<Rightarrow> Inl Blocks_For_Ever
      | Some (rc, m') \<Rightarrow> CHECK ''iox_pthread_mutex_lock'' rc (k m'))"

definition unlock_then :: "'m mutex_ops \<Rightarrow> nat \<Rightarrow> 'm \<Rightarrow> ('m \<Rightarrow> halt + 'a) \<Rightarrow> halt + 'a" where
  "unlock_then mo t m k =
     (case mx_unlock mo t m of (rc, m') \<Rightarrow> CHECK ''iox_pthread_mutex_unlock'' rc (k m'))"

definition init_then :: "'m mutex_ops \<Rightarrow> mutex_attr \<Rightarrow> ('m \<Rightarrow> halt + 'a) \<Rightarrow> halt + 'a" where
  "init_then mo a k =
     (case mx_init mo a of Inl rc \<Rightarrow> Inl (Exit ''iox_pthread_mutex_init'' rc) | Inr m \<Rightarrow> k m)"

definition default_attr :: mutex_attr where
  "default_attr = \<lparr>a_type = NORMAL, a_shared = False, a_inherit = False, a_robust = False\<rparr>"

definition locked_line :: "int \<Rightarrow> string" where
  "locked_line depth = ''  locked depth='' @ to_string depth"

definition unlocked_line :: "int \<Rightarrow> string" where
  "unlocked_line depth = ''  unlocked depth='' @ to_string depth"

fun recursiveLock ::
  "'m mutex_ops \<Rightarrow> nat \<Rightarrow> nat \<Rightarrow> int \<Rightarrow> console \<times> 'm \<Rightarrow> halt + (console \<times> 'm)" where
  "recursiveLock mo t 0 depth s = Inl Stack_Overflow"
| "recursiveLock mo t (Suc frames) depth (out, m) =
     (if depth = 0 then Inr (out, m)
      else lock_then mo t m (\<lambda>m1.
        case recursiveLock mo t frames (depth - 1) (out @ [locked_line depth], m1) of
          Inl h \<Rightarrow> Inl h
        | Inr (out2, m2) \<Rightarrow>
            unlock_then mo t m2 (\<lambda>m3. Inr (out2 @ [unlocked_line depth], m3))))"

definition demo_recursive_mutex :: "'m mutex_ops \<Rightarrow> nat \<Rightarrow> halt + console" where
  "demo_recursive_mutex mo frames =
     init_then mo (default_attr\<lparr>a_type := RECURSIVE\<rparr>) (\<lambda>m.
       case recursiveLock mo 0 frames 3 ([], m) of
         Inl h \<Rightarrow> Inl h
       | Inr (out, m1) \<Rightarrow> CHECK ''iox_pthread_mutex_destroy'' (mx_destroy mo m1) (Inr out))"

text \<open>\<open>Inr False\<close>: the system does not support the protocol, which the demonstration reports.\<close>

definition demo_prio_inherit :: "'m mutex_ops \<Rightarrow> halt + bool" where
  "demo_prio_inherit mo =
     (case mx_init mo (default_attr\<lparr>a_inherit := True\<rparr>) of
        Inl rc \<Rightarrow> Inr False
      | Inr m \<Rightarrow>
          lock_then mo 0 m (\<lambda>m1.
            unlock_then mo 0 m1 (\<lambda>m2.
              CHECK ''iox_pthread_mutex_destroy'' (mx_destroy mo m2) (Inr True))))"

definition crashHolder :: "'m mutex_ops \<Rightarrow> nat \<Rightarrow> 'm \<Rightarrow> (halt + 'm)" where
  "crashHolder mo t m = lock_then mo t m (\<lambda>m1. Inr (mx_exit mo t m1))"

text \<open>The result: what \<open>lock\<close> returned after the owner's death.\<close>

definition demo_robust_mutex :: "'m mutex_ops \<Rightarrow> halt + int" where
  "demo_robust_mutex mo =
     init_then mo (default_attr\<lparr>a_robust := True, a_type := ERRORCHECK\<rparr>) (\<lambda>m.
       case crashHolder mo 1 m of
         Inl h \<Rightarrow> Inl h
       | Inr m1 \<Rightarrow>
           (case mx_lock mo 0 m1 of
              None \<Rightarrow> Inl Blocks_For_Ever
            | Some (rc, m2) \<Rightarrow>
                if rc = EOWNERDEAD
                then (case mx_consistent mo m2 of (rc2, m3) \<Rightarrow>
                       CHECK ''iox_pthread_mutex_consistent'' rc2
                         (unlock_then mo 0 m3 (\<lambda>m4.
                            CHECK ''iox_pthread_mutex_destroy'' (mx_destroy mo m4) (Inr rc))))
                else CHECK ''iox_pthread_mutex_destroy'' (mx_destroy mo m2) (Inr rc)))"

text \<open>A mutex in use: neither lost nor left by a dead owner.\<close>

definition sound :: "mutex_view \<Rightarrow> bool" where
  "sound v \<longleftrightarrow> \<not> m_dead v \<and> \<not> m_lost v"

lemma view_recursive:
  assumes "sound v" "a_type (m_attr v) = RECURSIVE" "m_owner v = None \<or> (\<exists>n > 0. m_owner v = Some (t, n))"
  shows "\<exists>k. view_lock t v = Some (0, v\<lparr>m_owner := Some (t, Suc k)\<rparr>) \<and>
             view_unlock t (v\<lparr>m_owner := Some (t, Suc k)\<rparr>) = (0, v)"
proof (cases "m_owner v")
  case None
  then show ?thesis using assms
    by (intro exI [of _ 0]) (simp add: view_lock_def view_trylock_def view_unlock_def sound_def)
next
  case (Some p)
  then obtain n where "m_owner v = Some (t, n)" "n > 0" using assms(3) by auto
  then show ?thesis using assms(1,2)
    by (intro exI [of _ n]) (simp add: view_lock_def view_trylock_def view_unlock_def sound_def)
qed

lemma recursive_lock_unlock:
  assumes laws: "mutex_laws mo" and v: "sound (mx_view mo m)" "a_type (m_attr (mx_view mo m)) = RECURSIVE"
    and own: "m_owner (mx_view mo m) = None \<or> (\<exists>n > 0. m_owner (mx_view mo m) = Some (t, n))"
  obtains m1 k where "mx_lock mo t m = Some (0, m1)" "mx_view mo m1 = (mx_view mo m)\<lparr>m_owner := Some (t, Suc k)\<rparr>"
    "\<And>m2. mx_view mo m2 = mx_view mo m1 \<Longrightarrow> \<exists>m3. mx_unlock mo t m2 = (0, m3) \<and> mx_view mo m3 = mx_view mo m"
proof -
  obtain k where k: "view_lock t (mx_view mo m) = Some (0, (mx_view mo m)\<lparr>m_owner := Some (t, Suc k)\<rparr>)"
    "view_unlock t ((mx_view mo m)\<lparr>m_owner := Some (t, Suc k)\<rparr>) = (0, mx_view mo m)"
    using view_recursive [OF v own] by blast
  obtain rc m1 where l: "mx_lock mo t m = Some (rc, m1)"
    using law_lock_None [OF laws, of t m] k(1) by fastforce
  have m1: "rc = 0" "mx_view mo m1 = (mx_view mo m)\<lparr>m_owner := Some (t, Suc k)\<rparr>"
    using law_lock [OF laws l] k(1) by simp_all
  have "\<exists>m3. mx_unlock mo t m2 = (0, m3) \<and> mx_view mo m3 = mx_view mo m"
    if same: "mx_view mo m2 = mx_view mo m1" for m2
  proof -
    obtain rc3 m3 where u: "mx_unlock mo t m2 = (rc3, m3)" by fastforce
    have "m_owner (mx_view mo m2) = Some (t, Suc k)" using m1 same by simp
    from law_unlock [OF laws u this] same m1(2) k(2) u show ?thesis by simp
  qed
  with l m1 show thesis by (intro that) auto
qed

text \<open>The lines printed on the way down and on the way up.\<close>

definition depth_lines :: "nat \<Rightarrow> console" where
  "depth_lines n = map (\<lambda>i. locked_line (int i)) (rev [1..<Suc n]) @
     map (\<lambda>i. unlocked_line (int i)) [1..<Suc n]"

lemma depth_lines_Suc:
  "depth_lines (Suc n) = (locked_line (int (Suc n))) # depth_lines n @
     [unlocked_line (int (Suc n))]"
  by (simp add: depth_lines_def)

lemma recursive_lock_runs:
  assumes laws: "mutex_laws mo"
  shows "sound (mx_view mo m) \<Longrightarrow> a_type (m_attr (mx_view mo m)) = RECURSIVE \<Longrightarrow>
    m_owner (mx_view mo m) = None \<or> (\<exists>n > 0. m_owner (mx_view mo m) = Some (t, n)) \<Longrightarrow> d < frames \<Longrightarrow>
    \<exists>m'. recursiveLock mo t frames (int d) (out, m) = Inr (out @ depth_lines d, m') \<and>
         mx_view mo m' = mx_view mo m"
proof (induction d arbitrary: frames m out)
  case 0
  then show ?case by (cases frames) (simp_all add: depth_lines_def)
next
  case (Suc d)
  obtain m1 k where l: "mx_lock mo t m = Some (0, m1)"
    "mx_view mo m1 = (mx_view mo m)\<lparr>m_owner := Some (t, Suc k)\<rparr>"
    "\<And>m2. mx_view mo m2 = mx_view mo m1 \<Longrightarrow> \<exists>m3. mx_unlock mo t m2 = (0, m3) \<and> mx_view mo m3 = mx_view mo m"
    using recursive_lock_unlock [OF laws Suc.prems(1-3)] by blast
  obtain f where f: "frames = Suc f" "d < f" using Suc.prems(4) by (cases frames) auto
  obtain m2 where r: "recursiveLock mo t f (int d) (out @ [locked_line (int (Suc d))], m1) =
      Inr ((out @ [locked_line (int (Suc d))]) @ depth_lines d, m2)"
    "mx_view mo m2 = mx_view mo m1"
    using Suc.IH [of m1 f "out @ [locked_line (int (Suc d))]"] Suc.prems(1,2) l(2) f(2) by (auto simp: sound_def)
  obtain m3 where "mx_unlock mo t m2 = (0, m3)" "mx_view mo m3 = mx_view mo m" using l(3) r(2) by blast
  then show ?case
    using l(1) r(1) f(1) by (simp add: lock_then_def unlock_then_def CHECK_def depth_lines_Suc)
qed

section \<open>The counter\<close>

text \<open>
  \<open>counterFunc\<close>: at the head of the loop (and in \<open>lock\<close>), before the load and the store of
  \<open>++counter\<close>, before \<open>unlock\<close>; a failed \<open>CHECK\<close> ends the program.
\<close>

datatype counter_pc = C_Lock nat | C_Load nat | C_Store nat int | C_Unlock nat | C_Return

record 'm counter_sys =
  c_mtx :: 'm
  counter :: int
  c_threads :: "counter_pc list"
  c_exited :: bool

definition counter_start :: "nat \<Rightarrow> 'm \<Rightarrow> 'm counter_sys" where
  "counter_start n m = \<lparr>c_mtx = m, counter = 0, c_threads = replicate n (C_Lock 0), c_exited = False\<rparr>"

definition move_counter :: "nat \<Rightarrow> counter_pc \<Rightarrow> 'm counter_sys \<Rightarrow> 'm counter_sys" where
  "move_counter t pc s = s\<lparr>c_threads := (c_threads s)[t := pc]\<rparr>"

definition counterFunc :: "'m mutex_ops \<Rightarrow> nat \<Rightarrow> nat \<Rightarrow> 'm counter_sys \<Rightarrow> 'm counter_sys option" where
  "counterFunc mo iters t s =
     (if t < length (c_threads s) \<and> \<not> c_exited s then
        (case c_threads s ! t of
           C_Lock i \<Rightarrow>
             if i < iters
             then map_option (\<lambda>(rc, m). if rc \<noteq> 0 then s\<lparr>c_exited := True\<rparr>
                                        else move_counter t (C_Load i) (s\<lparr>c_mtx := m\<rparr>))
                    (mx_lock mo t (c_mtx s))
             else Some (move_counter t C_Return s)
         | C_Load i \<Rightarrow> Some (move_counter t (C_Store i (counter s)) s)
         | C_Store i x \<Rightarrow> Some (move_counter t (C_Unlock i) (s\<lparr>counter := x + 1\<rparr>))
         | C_Unlock i \<Rightarrow>
             (case mx_unlock mo t (c_mtx s) of (rc, m) \<Rightarrow>
                Some (if rc \<noteq> 0 then s\<lparr>c_exited := True\<rparr>
                      else move_counter t (C_Lock (Suc i)) (s\<lparr>c_mtx := m\<rparr>)))
         | C_Return \<Rightarrow> None)
      else None)"

fun counter_schedule ::
  "'m mutex_ops \<Rightarrow> nat \<Rightarrow> nat list \<Rightarrow> 'm counter_sys \<Rightarrow> 'm counter_sys option" where
  "counter_schedule mo iters [] s = Some s"
| "counter_schedule mo iters (t # ts) s =
     (case counterFunc mo iters t s of None \<Rightarrow> None | Some s' \<Rightarrow> counter_schedule mo iters ts s')"

definition N_THREADS :: nat where "N_THREADS = 4"
definition ITERS :: nat where "ITERS = 100000"

text \<open>The value printed once all threads have been joined (\<open>None\<close>: the join still waits).\<close>

definition demo_normal_mutex :: "'m mutex_ops \<Rightarrow> nat list \<Rightarrow> (halt + int) option" where
  "demo_normal_mutex mo ts =
     (case mx_init mo default_attr of
        Inl rc \<Rightarrow> Some (Inl (Exit ''iox_pthread_mutex_init'' rc))
      | Inr m \<Rightarrow>
          (case counter_schedule mo ITERS ts (counter_start N_THREADS m) of
             None \<Rightarrow> None
           | Some s \<Rightarrow>
               if c_exited s then Some (Inl (Exit ''iox_pthread_mutex'' 1))
               else if \<forall>pc \<in> set (c_threads s). pc = C_Return
               then Some (CHECK ''iox_pthread_mutex_destroy'' (mx_destroy mo (c_mtx s)) (Inr (counter s)))
               else None))"

fun in_section :: "counter_pc \<Rightarrow> bool" where
  "in_section (C_Load _) = True"
| "in_section (C_Store _ _) = True"
| "in_section (C_Unlock _) = True"
| "in_section _ = False"

text \<open>How many increments a thread has done.\<close>

fun increments :: "nat \<Rightarrow> counter_pc \<Rightarrow> nat" where
  "increments iters (C_Lock i) = i"
| "increments iters (C_Load i) = i"
| "increments iters (C_Store i x) = i"
| "increments iters (C_Unlock i) = Suc i"
| "increments iters C_Return = iters"

fun pc_ok :: "nat \<Rightarrow> counter_pc \<Rightarrow> bool" where
  "pc_ok iters (C_Lock i) \<longleftrightarrow> i \<le> iters"
| "pc_ok iters (C_Load i) \<longleftrightarrow> i < iters"
| "pc_ok iters (C_Store i x) \<longleftrightarrow> i < iters"
| "pc_ok iters (C_Unlock i) \<longleftrightarrow> i < iters"
| "pc_ok iters C_Return \<longleftrightarrow> True"

definition counter_inv :: "'m mutex_ops \<Rightarrow> nat \<Rightarrow> 'm counter_sys \<Rightarrow> bool" where
  "counter_inv mo iters s \<longleftrightarrow>
     \<not> c_exited s \<and> sound (mx_view mo (c_mtx s)) \<and>
     (\<forall>t < length (c_threads s). in_section (c_threads s ! t) \<longleftrightarrow> m_owner (mx_view mo (c_mtx s)) = Some (t, 1)) \<and>
     (\<forall>u n. m_owner (mx_view mo (c_mtx s)) = Some (u, n) \<longrightarrow> u < length (c_threads s) \<and> n = 1) \<and>
     (\<forall>t < length (c_threads s). \<forall>i x. c_threads s ! t = C_Store i x \<longrightarrow> x = counter s) \<and>
     (\<forall>pc \<in> set (c_threads s). pc_ok iters pc) \<and>
     counter s = int (sum_list (map (increments iters) (c_threads s)))"

lemma sum_list_update_nat:
  fixes xs :: "nat list"
  assumes "t < length xs"
  shows "sum_list (xs[t := y]) + xs ! t = sum_list xs + y"
  using elem_le_sum_list [OF assms] sum_list_update [OF assms, of y] by linarith

lemma counter_inv_move:
  assumes inv: "counter_inv mo iters s" and t: "t < length (c_threads s)"
    and m: "sound (mx_view mo m)"
      "if in_section (c_threads s ! t) \<or> in_section pc
       then m_owner (mx_view mo m) = (if in_section pc then Some (t, 1) else None) \<and>
            (in_section (c_threads s ! t) \<or> m_owner (mx_view mo (c_mtx s)) = None)
       else m_owner (mx_view mo m) = m_owner (mx_view mo (c_mtx s))"
    and c: "c + int (increments iters (c_threads s ! t)) = counter s + int (increments iters pc)"
      "\<not> in_section (c_threads s ! t) \<longrightarrow> c = counter s"
      "\<And>i x. pc = C_Store i x \<Longrightarrow> x = c" and ok: "pc_ok iters pc"
  shows "counter_inv mo iters (move_counter t pc (s\<lparr>c_mtx := m, counter := c\<rparr>))"
proof -
  let ?o = "m_owner (mx_view mo (c_mtx s))"
  have sec: "in_section (c_threads s ! u) \<longleftrightarrow> ?o = Some (u, 1)" if "u < length (c_threads s)" for u
    using inv that by (simp add: counter_inv_def)
  have others: "\<not> in_section (c_threads s ! u)"
    if "u < length (c_threads s)" "u \<noteq> t" "in_section (c_threads s ! t) \<or> in_section pc" for u
    using sec [OF t] sec [OF that(1)] that m(2) by (auto split: if_splits)
  have store: "x = c" if "u < length (c_threads s)" "u \<noteq> t" "c_threads s ! u = C_Store i x" for u i x
  proof -
    have "in_section (c_threads s ! u)" using that by simp
    then have "\<not> in_section (c_threads s ! t)" using others that by blast
    then show ?thesis using inv that c(2) by (auto simp: counter_inv_def)
  qed
  have sum: "c = int (sum_list ((map (increments iters) (c_threads s))[t := increments iters pc]))"
  proof -
    have "sum_list ((map (increments iters) (c_threads s))[t := increments iters pc]) +
        increments iters (c_threads s ! t) = sum_list (map (increments iters) (c_threads s)) + increments iters pc"
      using sum_list_update_nat [of t "map (increments iters) (c_threads s)"] t by simp
    moreover have "counter s = int (sum_list (map (increments iters) (c_threads s)))"
      using inv by (simp add: counter_inv_def)
    ultimately show ?thesis using c(1) by linarith
  qed
  have own: "in_section ((c_threads s)[t := pc] ! u) \<longleftrightarrow> m_owner (mx_view mo m) = Some (u, 1)"
    if "u < length (c_threads s)" for u
    using that t m(2) sec [OF that] others [OF that] by (cases "u = t") (auto split: if_splits)
  have own1: "u < length (c_threads s) \<and> n = 1" if "m_owner (mx_view mo m) = Some (u, n)" for u n
  proof -
    have "?o = Some (u, n) \<Longrightarrow> u < length (c_threads s) \<and> n = 1"
      using inv unfolding counter_inv_def by blast
    then show ?thesis using that m(2) t by (auto split: if_splits)
  qed
  have oks: "pc_ok iters q" if "q \<in> set ((c_threads s)[t := pc])" for q
    using that ok inv set_update_subset_insert [of "c_threads s" t pc] by (auto simp: counter_inv_def)
  show ?thesis
    unfolding counter_inv_def
  proof (intro conjI allI impI ballI)
    fix u i x assume u: "u < length (c_threads (move_counter t pc (s\<lparr>c_mtx := m, counter := c\<rparr>)))"
      "c_threads (move_counter t pc (s\<lparr>c_mtx := m, counter := c\<rparr>)) ! u = C_Store i x"
    then show "x = counter (move_counter t pc (s\<lparr>c_mtx := m, counter := c\<rparr>))"
      using store [of u i x] c(3) [of i x] t by (cases "u = t") (simp_all add: move_counter_def)
  qed (use inv m(1) own own1 sum oks in \<open>simp_all add: counter_inv_def move_counter_def map_update\<close>)
qed

lemma counter_step_inv:
  assumes laws: "mutex_laws mo" and inv: "counter_inv mo iters s" and st: "counterFunc mo iters t s = Some s'"
  shows "counter_inv mo iters s'"
proof -
  have t: "t < length (c_threads s)" using st by (simp add: counterFunc_def split: if_splits)
  have snd: "sound (mx_view mo (c_mtx s))" and ok: "pc_ok iters (c_threads s ! t)"
    and sec: "in_section (c_threads s ! t) \<longleftrightarrow> m_owner (mx_view mo (c_mtx s)) = Some (t, 1)"
    and one: "\<And>u n. m_owner (mx_view mo (c_mtx s)) = Some (u, n) \<Longrightarrow> n = 1"
    and sto: "\<And>i x. c_threads s ! t = C_Store i x \<Longrightarrow> x = counter s" and ex: "\<not> c_exited s"
    using inv t unfolding counter_inv_def by (blast, simp, blast, blast, blast, blast)
  note move = counter_inv_move [OF inv t]
  show ?thesis
  proof (cases "c_threads s ! t")
    case (C_Lock i)
    show ?thesis
    proof (cases "i < iters")
      case True
      then obtain rc m where l: "mx_lock mo t (c_mtx s) = Some (rc, m)"
        using st t C_Lock by (auto simp: counterFunc_def split: if_splits)
      have v: "m_owner (mx_view mo (c_mtx s)) = None \<and> rc = 0 \<and>
          mx_view mo m = (mx_view mo (c_mtx s))\<lparr>m_owner := Some (t, 1)\<rparr>"
        using law_lock [OF laws l] snd sec C_Lock one
        by (auto simp: view_lock_def view_trylock_def sound_def split: option.splits prod.splits if_splits)
      have "s' = move_counter t (C_Load i) (s\<lparr>c_mtx := m, counter := counter s\<rparr>)"
        using st t C_Lock True l v ex by (simp add: counterFunc_def)
      then show ?thesis using move [of m "C_Load i" "counter s"] v snd C_Lock True by (simp add: sound_def)
    next
      case False
      then have "s' = move_counter t C_Return (s\<lparr>c_mtx := c_mtx s, counter := counter s\<rparr>)"
        using st t C_Lock ex by (simp add: counterFunc_def)
      then show ?thesis using move [of "c_mtx s" C_Return "counter s"] snd C_Lock ok False by simp
    qed
  next
    case (C_Load i)
    then have "s' = move_counter t (C_Store i (counter s)) (s\<lparr>c_mtx := c_mtx s, counter := counter s\<rparr>)"
      using st t ex by (simp add: counterFunc_def)
    then show ?thesis using move [of "c_mtx s" "C_Store i (counter s)" "counter s"] snd C_Load ok sec by simp
  next
    case (C_Store i x)
    then have "s' = move_counter t (C_Unlock i) (s\<lparr>c_mtx := c_mtx s, counter := counter s + 1\<rparr>)"
      using st t sto ex by (simp add: counterFunc_def)
    then show ?thesis using move [of "c_mtx s" "C_Unlock i" "counter s + 1"] snd C_Store ok sec by simp
  next
    case (C_Unlock i)
    obtain rc m where u: "mx_unlock mo t (c_mtx s) = (rc, m)" by fastforce
    have own: "m_owner (mx_view mo (c_mtx s)) = Some (t, 1)" using sec C_Unlock by simp
    have v: "rc = 0" "m_owner (mx_view mo m) = None" "sound (mx_view mo m)"
      using law_unlock [OF laws u own, symmetric] own snd by (auto simp: view_unlock_def sound_def)
    have "s' = move_counter t (C_Lock (Suc i)) (s\<lparr>c_mtx := m, counter := counter s\<rparr>)"
      using st t C_Unlock u v ex by (simp add: counterFunc_def)
    then show ?thesis using move [of m "C_Lock (Suc i)" "counter s"] v C_Unlock ok by simp
  qed (use st t in \<open>simp add: counterFunc_def split: if_splits\<close>)
qed

lemma counter_schedule_inv:
  assumes "mutex_laws mo"
  shows "counter_schedule mo iters ts s = Some s' \<Longrightarrow> counter_inv mo iters s \<Longrightarrow>
    counter_inv mo iters s' \<and> length (c_threads s') = length (c_threads s)"
proof (induction ts arbitrary: s)
  case (Cons t ts)
  then obtain u where u: "counterFunc mo iters t s = Some u" "counter_schedule mo iters ts u = Some s'"
    by (auto split: option.splits)
  have "length (c_threads u) = length (c_threads s)"
    using u(1) by (auto simp: counterFunc_def move_counter_def split: if_splits counter_pc.splits prod.splits)
  then show ?case using Cons.IH [OF u(2)] counter_step_inv [OF assms Cons.prems(2) u(1)] by simp
qed simp

lemma counter_progress:
  assumes laws: "mutex_laws mo" and inv: "counter_inv mo iters s" and pc: "pc \<in> set (c_threads s)" "pc \<noteq> C_Return"
  shows "\<exists>t. counterFunc mo iters t s \<noteq> None"
proof (cases "m_owner (mx_view mo (c_mtx s))")
  case None
  obtain t where t: "t < length (c_threads s)" "c_threads s ! t = pc" using pc(1) by (metis in_set_conv_nth)
  have "\<not> in_section pc" using inv t None by (auto simp: counter_inv_def)
  then obtain i where "pc = C_Lock i" using pc(2) by (cases pc) auto
  moreover have "mx_lock mo t (c_mtx s) \<noteq> None"
    using law_lock_None [OF laws, of t "c_mtx s"] None by (simp add: view_lock_def)
  ultimately have "counterFunc mo iters t s \<noteq> None" using t inv by (auto simp: counterFunc_def counter_inv_def)
  then show ?thesis ..
next
  case (Some p)
  then obtain t where t: "t < length (c_threads s)" "m_owner (mx_view mo (c_mtx s)) = Some (t, 1)"
    using inv unfolding counter_inv_def by (metis surj_pair)
  then have "in_section (c_threads s ! t)" using inv by (simp add: counter_inv_def)
  then have "counterFunc mo iters t s \<noteq> None" using t(1) inv
    by (cases "c_threads s ! t") (simp_all add: counterFunc_def counter_inv_def split: prod.splits)
  then show ?thesis ..
qed

section \<open>Properties of the demonstrations\<close>

lemma counter_exact:
  assumes laws: "mutex_laws mo" and m: "sound (mx_view mo m)" "m_owner (mx_view mo m) = None"
    and run: "counter_schedule mo iters ts (counter_start n m) = Some s"
  shows "\<not> c_exited s \<and>
    ((\<exists>pc \<in> set (c_threads s). pc \<noteq> C_Return) \<longrightarrow> (\<exists>t. counterFunc mo iters t s \<noteq> None)) \<and>
    ((\<forall>pc \<in> set (c_threads s). pc = C_Return) \<longrightarrow>
       counter s = int (n * iters) \<and> m_owner (mx_view mo (c_mtx s)) = None)"
proof -
  have "counter_inv mo iters (counter_start n m)"
    using m by (auto simp: counter_inv_def counter_start_def map_replicate_const sum_list_replicate)
  then have inv: "counter_inv mo iters s" and len: "length (c_threads s) = n"
    using counter_schedule_inv [OF laws run] by (simp_all add: counter_start_def)
  have "counter s = int (n * iters) \<and> m_owner (mx_view mo (c_mtx s)) = None"
    if all: "\<forall>pc \<in> set (c_threads s). pc = C_Return"
  proof
    have "c_threads s = replicate n C_Return" using all len by (simp add: replicate_eqI)
    then show "counter s = int (n * iters)"
      using inv by (simp add: counter_inv_def sum_list_replicate map_replicate_const)
    have "\<not> in_section (c_threads s ! t)" if "t < length (c_threads s)" for t
      using all that by (metis in_section.simps(5) nth_mem)
    then show "m_owner (mx_view mo (c_mtx s)) = None"
      using inv unfolding counter_inv_def by (metis not_Some_eq surj_pair)
  qed
  then show ?thesis using inv counter_progress [OF laws inv] by (auto simp: counter_inv_def)
qed

text \<open>
  C18: The mutex protects the counter: for any number of threads and iterations and any
  interleaving of their loads, stores and calls, no \<open>CHECK\<close> fails, the threads never block
  one another for good, and when all have returned the counter is exactly threads times
  iterations, with the mutex free. So a demonstration that ends prints 400000, unless the
  mutex cannot be created.
\<close>

theorem counter_is_exact:
  assumes laws: "mutex_laws mo" and m: "sound (mx_view mo m)" "m_owner (mx_view mo m) = None"
    and run: "counter_schedule mo iters ts (counter_start n m) = Some s"
  shows "\<not> c_exited s \<and>
    ((\<exists>pc \<in> set (c_threads s). pc \<noteq> C_Return) \<longrightarrow> (\<exists>t. counterFunc mo iters t s \<noteq> None)) \<and>
    ((\<forall>pc \<in> set (c_threads s). pc = C_Return) \<longrightarrow>
       counter s = int (n * iters) \<and> m_owner (mx_view mo (c_mtx s)) = None) \<and>
    (demo_normal_mutex mo ts' = Some r \<longrightarrow> r = Inr 400000 \<or> (\<exists>e. mx_init mo default_attr = Inl e))"
proof -
  have "r = Inr 400000" if d: "demo_normal_mutex mo ts' = Some r" and i: "mx_init mo default_attr = Inr m0" for m0
  proof -
    obtain s' where s': "counter_schedule mo ITERS ts' (counter_start N_THREADS m0) = Some s'"
      using d i by (auto simp: demo_normal_mutex_def split: option.splits)
    have "sound (mx_view mo m0)" "m_owner (mx_view mo m0) = None"
      using law_init [OF laws i] by (simp_all add: view_init_def sound_def)
    from counter_exact [OF laws this s'] show ?thesis
      using d i s' law_destroy [OF laws, of "c_mtx s'"]
      by (auto simp: demo_normal_mutex_def CHECK_def N_THREADS_def ITERS_def split: if_splits)
  qed
  then show ?thesis using counter_exact [OF assms] by (cases "mx_init mo default_attr") blast+
qed

theorem counter_is_exact_witness:
  "\<exists>s. counter_schedule posix_mutex 1 [0, 0, 0, 0, 1, 0, 1, 1, 1, 1] (counter_start 2 (view_init default_attr)) = Some s \<and>
     counter s = 2"
proof -
  obtain s where s: "counter_schedule posix_mutex 1 [0, 0, 0, 0, 1, 0, 1, 1, 1, 1]
      (counter_start 2 (view_init default_attr)) = Some s" "c_threads s = [C_Return, C_Return]"
    by (simp add: counter_start_def counterFunc_def move_counter_def posix_mutex_def view_lock_def
        view_trylock_def view_unlock_def view_init_def default_attr_def numeral_2_eq_2)
  have "sound (mx_view posix_mutex (view_init default_attr)) \<and> m_owner (mx_view posix_mutex (view_init default_attr)) = None"
    by (simp add: posix_mutex_def view_init_def sound_def)
  with counter_is_exact [OF posix_mutex_laws _ _ s(1)] s show ?thesis by auto
qed

lemma negative_depth_overflows:
  assumes "mutex_laws mo" "depth < 0"
  shows "sound (mx_view mo m) \<Longrightarrow> a_type (m_attr (mx_view mo m)) = RECURSIVE \<Longrightarrow>
    m_owner (mx_view mo m) = None \<or> (\<exists>n > 0. m_owner (mx_view mo m) = Some (t, n)) \<Longrightarrow>
    recursiveLock mo t frames depth (out, m) = Inl Stack_Overflow"
  using assms(2)
proof (induction frames arbitrary: m out depth)
  case (Suc f)
  obtain m1 k where "mx_lock mo t m = Some (0, m1)"
    "mx_view mo m1 = (mx_view mo m)\<lparr>m_owner := Some (t, Suc k)\<rparr>"
    using recursive_lock_unlock [OF assms(1) Suc.prems(1-3)] by blast
  then show ?case using Suc.IH [of m1 "depth - 1"] Suc.prems
    by (simp add: lock_then_def CHECK_def sound_def)
qed simp

text \<open>
  A thread may lock a recursive mutex as deep as its stack allows: \<open>recursiveLock\<close> with
  depth \<open>d\<close> prints \<open>d\<close> lines down and \<open>d\<close> lines up and leaves the mutex as it found it, so
  the demonstration ends normally. With a mutex of type NORMAL the second lock blocks for
  ever, and a negative depth, which the test \<open>depth == 0\<close> does not catch, never returns.
\<close>

theorem recursive_mutex_nests:
  assumes laws: "mutex_laws mo" and "sound (mx_view mo m)" "m_owner (mx_view mo m) = None"
  shows "(a_type (m_attr (mx_view mo m)) = RECURSIVE \<and> d < frames \<longrightarrow>
      (\<exists>m'. recursiveLock mo t frames (int d) (out, m) = Inr (out @ depth_lines d, m') \<and>
            mx_view mo m' = mx_view mo m)) \<and>
    (a_type (m_attr (mx_view mo m)) = NORMAL \<and> 2 \<le> d \<and> d < frames \<longrightarrow>
      recursiveLock mo t frames (int d) (out, m) = Inl Blocks_For_Ever) \<and>
    (a_type (m_attr (mx_view mo m)) = RECURSIVE \<and> z < 0 \<longrightarrow>
      recursiveLock mo t frames z (out, m) = Inl Stack_Overflow)"
proof (intro conjI impI)
  assume "a_type (m_attr (mx_view mo m)) = RECURSIVE \<and> d < frames"
  then show "\<exists>m'. recursiveLock mo t frames (int d) (out, m) = Inr (out @ depth_lines d, m') \<and>
      mx_view mo m' = mx_view mo m"
    using recursive_lock_runs [OF laws] assms by blast
next
  assume n: "a_type (m_attr (mx_view mo m)) = NORMAL \<and> 2 \<le> d \<and> d < frames"
  then obtain f where f: "frames = Suc (Suc f)" by (metis less_imp_Suc_add add_Suc_right le_Suc_ex numeral_2_eq_2 add_Suc)
  obtain rc m1 where l: "mx_lock mo t m = Some (rc, m1)"
    using law_lock_None [OF laws, of t m] assms by (fastforce simp: view_lock_def)
  have v: "rc = 0" "mx_view mo m1 = (mx_view mo m)\<lparr>m_owner := Some (t, 1)\<rparr>"
    using law_lock [OF laws l, symmetric] assms by (simp_all add: view_lock_def view_trylock_def sound_def)
  then have "mx_lock mo t m1 = None"
    using law_lock_None [OF laws, of t m1] n assms by (simp add: view_lock_def sound_def)
  then show "recursiveLock mo t frames (int d) (out, m) = Inl Blocks_For_Ever"
    using l v n by (simp add: f lock_then_def CHECK_def)
next
  assume "a_type (m_attr (mx_view mo m)) = RECURSIVE \<and> z < 0"
  then show "recursiveLock mo t frames z (out, m) = Inl Stack_Overflow"
    using negative_depth_overflows [OF laws] assms by blast
qed

theorem recursive_mutex_nests_witness:
  "recursiveLock posix_mutex 0 4 3 ([], view_init (default_attr\<lparr>a_type := RECURSIVE\<rparr>)) =
     Inr (depth_lines 3, view_init (default_attr\<lparr>a_type := RECURSIVE\<rparr>))"
  using recursive_mutex_nests [OF posix_mutex_laws, of "view_init (default_attr\<lparr>a_type := RECURSIVE\<rparr>)" 3 4 0 "[]"]
  by (simp add: posix_mutex_def view_init_def sound_def)

section \<open>The thread that holds the mutex\<close>

text \<open>\<open>holderFunc\<close> and \<open>demo_trylock\<close>, at every access to the mutex and the two flags.\<close>

datatype holder_pc = Hold_Lock | Hold_Ready | Hold_Spin | Hold_Unlock | Hold_Return
datatype try_pc = Try_Spin | Try_Locked | Try_Done | Try_Join | Try_Free | Try_Unlock | Try_Destroy | Try_End

record 'm try_sys =
  t_mtx :: 'm
  holderReady :: bool
  done_flag :: bool
  holder :: holder_pc
  main_at :: try_pc
  try_halt :: "halt option"

definition try_start :: "'m \<Rightarrow> 'm try_sys" where
  "try_start m = \<lparr>t_mtx = m, holderReady = False, done_flag = False, holder = Hold_Lock,
     main_at = Try_Spin, try_halt = None\<rparr>"

definition check_rc :: "string \<Rightarrow> int \<Rightarrow> 'm try_sys \<Rightarrow> 'm try_sys \<Rightarrow> 'm try_sys" where
  "check_rc expr rc s s' = (if rc \<noteq> 0 then s\<lparr>try_halt := Some (Exit expr rc)\<rparr> else s')"

definition holderFunc :: "'m mutex_ops \<Rightarrow> 'm try_sys \<Rightarrow> 'm try_sys option" where
  "holderFunc mo s =
     (if try_halt s \<noteq> None then None
      else case holder s of
          Hold_Lock \<Rightarrow>
            map_option (\<lambda>(rc, m). check_rc ''iox_pthread_mutex_lock'' rc s (s\<lparr>t_mtx := m, holder := Hold_Ready\<rparr>))
              (mx_lock mo 1 (t_mtx s))
        | Hold_Ready \<Rightarrow> Some (s\<lparr>holderReady := True, holder := Hold_Spin\<rparr>)
        | Hold_Spin \<Rightarrow> Some (if done_flag s then s\<lparr>holder := Hold_Unlock\<rparr> else s)
        | Hold_Unlock \<Rightarrow>
            (case mx_unlock mo 1 (t_mtx s) of (rc, m) \<Rightarrow>
               Some (check_rc ''iox_pthread_mutex_unlock'' rc s (s\<lparr>t_mtx := m, holder := Hold_Return\<rparr>)))
        | Hold_Return \<Rightarrow> None)"

definition demo_trylock :: "'m mutex_ops \<Rightarrow> 'm try_sys \<Rightarrow> 'm try_sys option" where
  "demo_trylock mo s =
     (if try_halt s \<noteq> None then None
      else case main_at s of
          Try_Spin \<Rightarrow> Some (if holderReady s then s\<lparr>main_at := Try_Locked\<rparr> else s)
        | Try_Locked \<Rightarrow>
            (case mx_trylock mo 0 (t_mtx s) of (rc, m) \<Rightarrow>
               Some (if rc = EBUSY then s\<lparr>t_mtx := m, main_at := Try_Done\<rparr>
                     else s\<lparr>try_halt := Some Assert_Failed\<rparr>))
        | Try_Done \<Rightarrow> Some (s\<lparr>done_flag := True, main_at := Try_Join\<rparr>)
        | Try_Join \<Rightarrow> if holder s = Hold_Return then Some (s\<lparr>main_at := Try_Free\<rparr>) else None
        | Try_Free \<Rightarrow>
            (case mx_trylock mo 0 (t_mtx s) of (rc, m) \<Rightarrow>
               Some (if rc = 0 then s\<lparr>t_mtx := m, main_at := Try_Unlock\<rparr>
                     else s\<lparr>try_halt := Some Assert_Failed\<rparr>))
        | Try_Unlock \<Rightarrow>
            (case mx_unlock mo 0 (t_mtx s) of (rc, m) \<Rightarrow>
               Some (check_rc ''iox_pthread_mutex_unlock'' rc s (s\<lparr>t_mtx := m, main_at := Try_Destroy\<rparr>)))
        | Try_Destroy \<Rightarrow>
            Some (check_rc ''iox_pthread_mutex_destroy'' (mx_destroy mo (t_mtx s)) s (s\<lparr>main_at := Try_End\<rparr>))
        | Try_End \<Rightarrow> None)"

inductive try_step :: "'m mutex_ops \<Rightarrow> 'm try_sys \<Rightarrow> 'm try_sys \<Rightarrow> bool" for mo where
  holder: "holderFunc mo s = Some s' \<Longrightarrow> try_step mo s s'"
| main: "demo_trylock mo s = Some s' \<Longrightarrow> try_step mo s s'"

inductive_cases try_stepE: "try_step mo s s'"

text \<open>The mutex belongs to the holder until it unlocks, to the main thread in \<open>Try_Unlock\<close>.\<close>

definition try_owner :: "holder_pc \<Rightarrow> try_pc \<Rightarrow> (nat \<times> nat) option" where
  "try_owner h p =
     (if h \<in> {Hold_Ready, Hold_Spin, Hold_Unlock} then Some (1, 1)
      else if p = Try_Unlock then Some (0, 1) else None)"

definition try_inv :: "'m mutex_ops \<Rightarrow> 'm try_sys \<Rightarrow> bool" where
  "try_inv mo s \<longleftrightarrow>
     try_halt s = None \<and> sound (mx_view mo (t_mtx s)) \<and>
     m_owner (mx_view mo (t_mtx s)) = try_owner (holder s) (main_at s) \<and>
     (holderReady s \<longleftrightarrow> holder s \<notin> {Hold_Lock, Hold_Ready}) \<and>
     (main_at s \<noteq> Try_Spin \<longrightarrow> holderReady s) \<and>
     (done_flag s \<longleftrightarrow> main_at s \<notin> {Try_Spin, Try_Locked, Try_Done}) \<and>
     (holder s \<in> {Hold_Unlock, Hold_Return} \<longrightarrow> done_flag s) \<and>
     (main_at s \<in> {Try_Free, Try_Unlock, Try_Destroy, Try_End} \<longrightarrow> holder s = Hold_Return)"

lemma holder_inv:
  assumes laws: "mutex_laws mo" and inv: "try_inv mo s" and st: "holderFunc mo s = Some s'"
  shows "try_inv mo s'"
proof (cases "holder s")
  case Hold_Lock
  then obtain rc m where l: "mx_lock mo 1 (t_mtx s) = Some (rc, m)"
    using st inv by (auto simp: holderFunc_def try_inv_def)
  have o: "m_owner (mx_view mo (t_mtx s)) = None" "main_at s = Try_Spin"
    using inv Hold_Lock by (auto simp: try_inv_def try_owner_def)
  have "rc = 0" "mx_view mo m = (mx_view mo (t_mtx s))\<lparr>m_owner := Some (1, 1)\<rparr>"
    using law_lock [OF laws l, symmetric] o inv
    by (simp_all add: view_lock_def view_trylock_def try_inv_def sound_def)
  then show ?thesis using st inv Hold_Lock l o
    by (auto simp: holderFunc_def try_inv_def try_owner_def check_rc_def sound_def)
next
  case Hold_Unlock
  obtain rc m where u: "mx_unlock mo 1 (t_mtx s) = (rc, m)" by fastforce
  have o: "m_owner (mx_view mo (t_mtx s)) = Some (1, 1)"
    using inv Hold_Unlock by (simp add: try_inv_def try_owner_def)
  have "rc = 0" "m_owner (mx_view mo m) = None" "sound (mx_view mo m)"
    using law_unlock [OF laws u o, symmetric] o inv by (simp_all add: view_unlock_def try_inv_def sound_def)
  then show ?thesis using st inv Hold_Unlock u
    by (auto simp: holderFunc_def try_inv_def try_owner_def check_rc_def)
qed (use st inv in \<open>auto simp: holderFunc_def try_inv_def try_owner_def split: if_splits\<close>)

lemma main_inv:
  assumes laws: "mutex_laws mo" and inv: "try_inv mo s" and st: "demo_trylock mo s = Some s'"
  shows "try_inv mo s'"
proof (cases "main_at s")
  case Try_Locked
  obtain rc m where l: "mx_trylock mo 0 (t_mtx s) = (rc, m)" by fastforce
  have "m_owner (mx_view mo (t_mtx s)) = Some (1, 1)" "sound (mx_view mo (t_mtx s))"
    using inv Try_Locked by (cases "holder s"; simp add: try_inv_def try_owner_def)+
  then have "rc = EBUSY" "mx_view mo m = mx_view mo (t_mtx s)"
    using law_trylock [OF laws l, symmetric] by (simp_all add: view_trylock_def sound_def)
  then show ?thesis using st inv Try_Locked l by (auto simp: demo_trylock_def try_inv_def try_owner_def)
next
  case Try_Free
  obtain rc m where l: "mx_trylock mo 0 (t_mtx s) = (rc, m)" by fastforce
  have h: "holder s = Hold_Return" "m_owner (mx_view mo (t_mtx s)) = None"
    using inv Try_Free by (auto simp: try_inv_def try_owner_def)
  then have "rc = 0" "mx_view mo m = (mx_view mo (t_mtx s))\<lparr>m_owner := Some (0, 1)\<rparr>"
    using law_trylock [OF laws l, symmetric] inv by (simp_all add: view_trylock_def try_inv_def sound_def)
  then show ?thesis using st inv Try_Free l h
    by (auto simp: demo_trylock_def try_inv_def try_owner_def sound_def)
next
  case Try_Unlock
  obtain rc m where u: "mx_unlock mo 0 (t_mtx s) = (rc, m)" by fastforce
  have o: "m_owner (mx_view mo (t_mtx s)) = Some (0, 1)" "holder s = Hold_Return"
    using inv Try_Unlock by (auto simp: try_inv_def try_owner_def)
  have "rc = 0" "m_owner (mx_view mo m) = None" "sound (mx_view mo m)"
    using law_unlock [OF laws u o(1), symmetric] o inv by (simp_all add: view_unlock_def try_inv_def sound_def)
  then show ?thesis using st inv Try_Unlock u o
    by (auto simp: demo_trylock_def try_inv_def try_owner_def check_rc_def)
next
  case Try_Destroy
  then have "mx_destroy mo (t_mtx s) = 0"
    using law_destroy [OF laws] inv by (simp add: try_inv_def try_owner_def)
  then show ?thesis using st inv Try_Destroy
    by (auto simp: demo_trylock_def try_inv_def try_owner_def check_rc_def)
qed (use st inv in \<open>auto simp: demo_trylock_def try_inv_def try_owner_def split: if_splits\<close>)

interpretation try_system: invariant_system "\<lambda>s. s = try_start m" "try_step mo"
    "\<lambda>s. mutex_laws mo \<and> sound (mx_view mo m) \<and> m_owner (mx_view mo m) = None \<longrightarrow> try_inv mo s"
proof unfold_locales
  fix s assume "s = try_start m"
  then show "mutex_laws mo \<and> sound (mx_view mo m) \<and> m_owner (mx_view mo m) = None \<longrightarrow> try_inv mo s"
    by (simp add: try_start_def try_inv_def try_owner_def)
next
  fix s t
  assume "mutex_laws mo \<and> sound (mx_view mo m) \<and> m_owner (mx_view mo m) = None \<longrightarrow> try_inv mo s" "try_step mo s t"
  then show "mutex_laws mo \<and> sound (mx_view mo m) \<and> m_owner (mx_view mo m) = None \<longrightarrow> try_inv mo t"
    by (auto elim!: try_stepE intro: holder_inv main_inv)
qed

text \<open>
  In every interleaving of the two threads the first \<open>trylock\<close> finds the mutex taken and
  the second finds it free: no assertion and no \<open>CHECK\<close> fails. And until the main thread is
  through, one of the two can always move on to another state, so neither the two spin loops
  nor the join can block the demonstration for good.
\<close>

theorem trylock_demo_succeeds:
  assumes laws: "mutex_laws mo" and m: "sound (mx_view mo m)" "m_owner (mx_view mo m) = None"
    and reach: "reach (\<lambda>s. s = try_start m) (try_step mo) s"
  shows "try_halt s = None \<and> (main_at s \<noteq> Try_End \<longrightarrow> (\<exists>s'. try_step mo s s' \<and> s' \<noteq> s))"
proof -
  have inv: "try_inv mo s" using try_system.reach_inv [OF reach] laws m by blast
  have "\<exists>s'. try_step mo s s' \<and> s' \<noteq> s" if "main_at s \<noteq> Try_End"
  proof (cases "main_at s \<in> {Try_Spin, Try_Join} \<and> holder s \<in> {Hold_Lock, Hold_Ready, Hold_Unlock} \<or>
      main_at s = Try_Join \<and> holder s = Hold_Spin")
    case True
    have lk: "mx_lock mo 1 (t_mtx s) \<noteq> None" if "holder s = Hold_Lock"
    proof -
      have "m_owner (mx_view mo (t_mtx s)) = None"
        using inv that True by (auto simp: try_inv_def try_owner_def)
      then show ?thesis using law_lock_None [OF laws, of 1 "t_mtx s"] by (simp add: view_lock_def)
    qed
    have h: "try_halt s = None" "holder s = Hold_Spin \<Longrightarrow> done_flag s"
      using inv True by (auto simp: try_inv_def)
    have "case holderFunc mo s of None \<Rightarrow> False | Some s' \<Rightarrow> holder s' \<noteq> holder s \<or> try_halt s' \<noteq> try_halt s"
      using True h lk
      by (cases "holder s") (auto simp: holderFunc_def check_rc_def split: prod.splits)
    then show ?thesis using try_step.holder [of mo s] by (auto split: option.splits)
  next
    case False
    have h: "try_halt s = None" "main_at s = Try_Spin \<Longrightarrow> holder s = Hold_Return \<or> holder s = Hold_Spin \<Longrightarrow> holderReady s"
      using inv by (auto simp: try_inv_def)
    have "\<exists>s'. demo_trylock mo s = Some s' \<and> (main_at s' \<noteq> main_at s \<or> try_halt s' \<noteq> try_halt s)"
      using False that h
      by (cases "main_at s"; cases "holder s") (simp_all add: demo_trylock_def check_rc_def split: prod.splits)
    then show ?thesis using try_step.main [of mo s] by blast
  qed
  then show ?thesis using inv by (auto simp: try_inv_def)
qed

theorem trylock_demo_succeeds_witness:
  "\<exists>s'. try_step posix_mutex (try_start (view_init default_attr)) s' \<and> s' \<noteq> try_start (view_init default_attr)"
proof -
  have "reach (\<lambda>s. s = try_start (view_init default_attr)) (try_step posix_mutex) (try_start (view_init default_attr))"
    by (rule reach_init) simp
  from trylock_demo_succeeds [OF posix_mutex_laws _ _ this] show ?thesis
    by (simp add: posix_mutex_def view_init_def sound_def try_start_def)
qed

text \<open>
  Recovery of a robust mutex: after its owner has died holding it, \<open>lock\<close> returns
  \<open>EOWNERDEAD\<close>, and the demonstration makes the mutex consistent, unlocks and destroys it
  without a failed \<open>CHECK\<close>, provided the mutex could be created at all. The priority
  demonstration never fails, whether or not the system supports the protocol.
\<close>

theorem robust_mutex_recovers:
  assumes laws: "mutex_laws mo"
  shows "(mx_init mo (default_attr\<lparr>a_robust := True, a_type := ERRORCHECK\<rparr>) = Inr m \<longrightarrow>
      demo_robust_mutex mo = Inr EOWNERDEAD) \<and>
    (\<exists>b. demo_prio_inherit mo = Inr b)"
proof (intro conjI impI)
  assume i: "mx_init mo (default_attr\<lparr>a_robust := True, a_type := ERRORCHECK\<rparr>) = Inr m"
  note v0 = law_init [OF laws i]
  obtain rc1 m1 where l1: "mx_lock mo 1 m = Some (rc1, m1)"
    using law_lock_None [OF laws, of 1 m] v0 by (fastforce simp: view_lock_def view_init_def)
  have v1: "rc1 = 0" "mx_view mo (mx_exit mo 1 m1) = (view_init (default_attr\<lparr>a_robust := True, a_type := ERRORCHECK\<rparr>))\<lparr>m_dead := True\<rparr>"
    using law_lock [OF laws l1, symmetric] v0
    by (simp_all add: view_lock_def view_trylock_def view_init_def law_exit [OF laws] view_exit_def)
  obtain rc2 m2 where l2: "mx_lock mo 0 (mx_exit mo 1 m1) = Some (rc2, m2)"
    using law_lock_None [OF laws, of 0 "mx_exit mo 1 m1"] v1 by (fastforce simp: view_lock_def view_init_def)
  have v2: "rc2 = EOWNERDEAD" "mx_view mo m2 = (mx_view mo (mx_exit mo 1 m1))\<lparr>m_owner := Some (0, 1)\<rparr>"
    using law_lock [OF laws l2, symmetric] v1 by (simp_all add: view_lock_def view_trylock_def view_init_def)
  obtain rc3 m3 where c: "mx_consistent mo m2 = (rc3, m3)" by fastforce
  have v3: "rc3 = 0" "mx_view mo m3 = (mx_view mo m2)\<lparr>m_dead := False\<rparr>"
    using law_consistent [OF laws c, symmetric] v1 v2 by (simp_all add: view_consistent_def view_init_def)
  obtain rc4 m4 where u: "mx_unlock mo 0 m3 = (rc4, m4)" by fastforce
  have "m_owner (mx_view mo m3) = Some (0, 1)" using v2 v3 by simp
  from law_unlock [OF laws u this, symmetric] have v4: "rc4 = 0" "m_owner (mx_view mo m4) = None"
    using v2 v3 by (simp_all add: view_unlock_def)
  show "demo_robust_mutex mo = Inr EOWNERDEAD"
    using i l1 v1 l2 v2 c v3 u v4 law_destroy [OF laws v4(2)]
    by (simp add: demo_robust_mutex_def init_then_def crashHolder_def lock_then_def unlock_then_def CHECK_def)
next
  show "\<exists>b. demo_prio_inherit mo = Inr b"
  proof (cases "mx_init mo (default_attr\<lparr>a_inherit := True\<rparr>)")
    case (Inr m)
    note v0 = law_init [OF laws Inr]
    obtain rc1 m1 where l1: "mx_lock mo 0 m = Some (rc1, m1)"
      using law_lock_None [OF laws, of 0 m] v0 by (fastforce simp: view_lock_def view_init_def)
    have v1: "rc1 = 0" "mx_view mo m1 = (mx_view mo m)\<lparr>m_owner := Some (0, 1)\<rparr>"
      using law_lock [OF laws l1, symmetric] v0 by (simp_all add: view_lock_def view_trylock_def view_init_def)
    obtain rc2 m2 where u: "mx_unlock mo 0 m1 = (rc2, m2)" by fastforce
    have "m_owner (mx_view mo m1) = Some (0, 1)" using v1 by simp
    from law_unlock [OF laws u this, symmetric] have v2: "rc2 = 0" "m_owner (mx_view mo m2) = None"
      using v1 by (simp_all add: view_unlock_def)
    then show ?thesis using Inr l1 v1 u law_destroy [OF laws v2(2)]
      by (intro exI [of _ True]) (simp add: demo_prio_inherit_def lock_then_def unlock_then_def CHECK_def)
  qed (auto simp: demo_prio_inherit_def)
qed

theorem robust_mutex_recovers_witness:
  "demo_robust_mutex posix_mutex = Inr EOWNERDEAD"
  using robust_mutex_recovers [OF posix_mutex_laws] by (simp add: posix_mutex_def)

end
