(* ===== verification/User_Trigger.thy ===== *)
theory User_Trigger
  imports Prelude
begin

text \<open>
  The demonstrations of \<open>src/cpp_test/iceoryx/006.user_trigger\<close>: a wait set with one and with
  two triggers, \<open>hasTriggered\<close>, and a listener whose thread calls a callback with context.
  The wait set, the triggers and the listener are iceoryx code: the argument \<open>wo\<close>, with
  \<open>trigger_laws\<close> saying what their documentation promises. A demonstration with two threads
  is a pair of step functions. Triggers are numbers; the pauses are left out.
\<close>

section \<open>Wait sets and triggers\<close>

text \<open>
  A notification names its trigger and the id given when it was attached. \<open>wo_wait\<close> is what
  \<open>wait\<close> and \<open>timedWait\<close> return when something has been triggered (\<open>None\<close>: nothing has);
  \<open>wo_pending\<close> is the set of triggers whose \<open>hasTriggered\<close> is true, \<open>wo_ids\<close> the ids of the
  attached ones.
\<close>

record 'w trigger_ops =
  wo_new :: 'w
  wo_attach :: "nat \<Rightarrow> nat \<Rightarrow> 'w \<Rightarrow> 'w"
  wo_detach :: "nat \<Rightarrow> 'w \<Rightarrow> 'w"
  wo_trigger :: "nat \<Rightarrow> 'w \<Rightarrow> 'w"
  wo_wait :: "'w \<Rightarrow> ((nat \<times> nat) list \<times> 'w) option"
  wo_ids :: "'w \<Rightarrow> nat \<rightharpoonup> nat"
  wo_pending :: "'w \<Rightarrow> nat set"

text \<open>
  Triggering twice before the next wait is one notification; a wait returns every pending
  trigger once, with its id, and resets it.
\<close>

definition trigger_laws :: "'w trigger_ops \<Rightarrow> bool" where
  "trigger_laws wo \<longleftrightarrow>
     wo_ids wo (wo_new wo) = Map.empty \<and> wo_pending wo (wo_new wo) = {} \<and>
     (\<forall>t i w. wo_ids wo (wo_attach wo t i w) = (wo_ids wo w)(t \<mapsto> i) \<and>
              wo_pending wo (wo_attach wo t i w) = wo_pending wo w) \<and>
     (\<forall>t w. wo_ids wo (wo_detach wo t w) = (wo_ids wo w)(t := None) \<and>
            wo_pending wo (wo_detach wo t w) = wo_pending wo w - {t}) \<and>
     (\<forall>t w. wo_ids wo (wo_trigger wo t w) = wo_ids wo w \<and>
            wo_pending wo (wo_trigger wo t w) =
              (if wo_ids wo w t = None then wo_pending wo w else insert t (wo_pending wo w))) \<and>
     (\<forall>w. wo_wait wo w = None \<longleftrightarrow> wo_pending wo w = {}) \<and>
     (\<forall>w ns w'. wo_wait wo w = Some (ns, w') \<longrightarrow>
        distinct (map fst ns) \<and> set (map fst ns) = wo_pending wo w \<and>
        (\<forall>(t, i) \<in> set ns. wo_ids wo w t = Some i) \<and>
        wo_ids wo w' = wo_ids wo w \<and> wo_pending wo w' = {})"

text \<open>An instance: the ids of the attached triggers and the triggers fired since the last wait.\<close>

definition list_triggers :: "((nat \<rightharpoonup> nat) \<times> nat list) trigger_ops" where
  "list_triggers = \<lparr>wo_new = (Map.empty, []),
     wo_attach = (\<lambda>t i (ids, p). (ids(t \<mapsto> i), if ids t = None then removeAll t p else p)),
     wo_detach = (\<lambda>t (ids, p). (ids(t := None), p)),
     wo_trigger = (\<lambda>t (ids, p). (ids, if ids t = None then p else p @ [t])),
     wo_wait = (\<lambda>(ids, p). let ts = filter (\<lambda>t. ids t \<noteq> None) (remdups p) in
                    if ts = [] then None else Some (map (\<lambda>t. (t, the (ids t))) ts, (ids, []))),
     wo_ids = fst, wo_pending = (\<lambda>(ids, p). {t \<in> set p. ids t \<noteq> None})\<rparr>"

lemma list_triggers_laws: "trigger_laws list_triggers"
  unfolding trigger_laws_def list_triggers_def
  by (intro conjI allI) (auto simp: Let_def filter_empty_conv comp_def image_image split: if_splits)

lemma trigger_facts:
  assumes "trigger_laws wo"
  shows tr_new: "wo_ids wo (wo_new wo) = Map.empty" "wo_pending wo (wo_new wo) = {}"
    and tr_attach: "wo_ids wo (wo_attach wo t i w) = (wo_ids wo w)(t \<mapsto> i)"
      "wo_pending wo (wo_attach wo t i w) = wo_pending wo w"
    and tr_trigger: "wo_ids wo (wo_trigger wo t w) = wo_ids wo w"
      "wo_pending wo (wo_trigger wo t w) =
         (if wo_ids wo w t = None then wo_pending wo w else insert t (wo_pending wo w))"
    and tr_block: "wo_wait wo w = None \<longleftrightarrow> wo_pending wo w = {}"
    and tr_wait: "wo_wait wo w = Some (ns, w') \<Longrightarrow>
        distinct (map fst ns) \<and> set (map fst ns) = wo_pending wo w \<and>
        (\<forall>(t, i) \<in> set ns. wo_ids wo w t = Some i) \<and>
        wo_ids wo w' = wo_ids wo w \<and> wo_pending wo w' = {}"
  using assms unfolding trigger_laws_def by simp_all

text \<open>One pending trigger gives one notification.\<close>

lemma wait_one:
  assumes laws: "trigger_laws wo" and p: "wo_pending wo w = {t}" "wo_ids wo w t = Some i"
  obtains w' where "wo_wait wo w = Some ([(t, i)], w')" "wo_pending wo w' = {}" "wo_ids wo w' = wo_ids wo w"
proof -
  obtain ns w' where w: "wo_wait wo w = Some (ns, w')"
    using tr_block [OF laws, of w] p by fastforce
  note f = tr_wait [OF laws w]
  have "length (map fst ns) = 1" using f p distinct_card [of "map fst ns"] by simp
  then obtain a where "ns = [a]" by (cases ns) auto
  then show thesis using f p w that by (cases a) auto
qed

section \<open>One trigger\<close>

text \<open>
  \<open>demo_waitset_single\<close>: the worker triggers three times and then sets \<open>done\<close>; the main
  thread tests the condition of its loop, waits, and counts what it gets.
\<close>

datatype loop_pc = Loop_Test | Loop_Wait | Loop_Left

record 'w single =
  s_set :: 'w
  s_sent :: nat
  s_done :: bool
  s_main :: loop_pc
  s_received :: nat
  s_out :: console

definition single_start :: "'w trigger_ops \<Rightarrow> 'w single" where
  "single_start wo = \<lparr>s_set = wo_attach wo 0 0 (wo_new wo), s_sent = 0, s_done = False,
     s_main = Loop_Test, s_received = 0, s_out = []\<rparr>"

definition onCyclicTick :: string where "onCyclicTick = ''  [callback] cyclicTick fired''"

definition single_worker :: "'w trigger_ops \<Rightarrow> 'w single \<Rightarrow> 'w single option" where
  "single_worker wo s =
     (if s_sent s < 3
      then Some (s\<lparr>s_set := wo_trigger wo 0 (s_set s), s_sent := Suc (s_sent s),
                   s_out := s_out s @ [''  [worker] trigger #'' @ to_string (int (Suc (s_sent s)))]\<rparr>)
      else if \<not> s_done s then Some (s\<lparr>s_done := True\<rparr>) else None)"

definition single_main :: "'w trigger_ops \<Rightarrow> 'w single \<Rightarrow> 'w single option" where
  "single_main wo s =
     (case s_main s of
        Loop_Test \<Rightarrow>
          Some (s\<lparr>s_main := (if \<not> s_done s \<or> s_received s < 3 then Loop_Wait else Loop_Left)\<rparr>)
      | Loop_Wait \<Rightarrow>
          (case wo_wait wo (s_set s) of
             None \<Rightarrow> None
           | Some (ns, w) \<Rightarrow>
               Some (s\<lparr>s_set := w, s_main := Loop_Test, s_received := s_received s + length ns,
                       s_out := s_out s @ map (\<lambda>_. onCyclicTick) ns\<rparr>))
      | Loop_Left \<Rightarrow> None)"

datatype mover = Worker | Main

fun single_run :: "'w trigger_ops \<Rightarrow> mover list \<Rightarrow> 'w single \<Rightarrow> 'w single option" where
  "single_run wo [] s = Some s"
| "single_run wo (a # as) s =
     (case (case a of Worker \<Rightarrow> single_worker wo s | Main \<Rightarrow> single_main wo s) of
        None \<Rightarrow> None
      | Some s' \<Rightarrow> single_run wo as s')"

definition single_blocked :: "'w trigger_ops \<Rightarrow> 'w single \<Rightarrow> bool" where
  "single_blocked wo s \<longleftrightarrow> single_worker wo s = None \<and> single_main wo s = None \<and> s_main s \<noteq> Loop_Left"

definition single_inv :: "'w trigger_ops \<Rightarrow> 'w single \<Rightarrow> bool" where
  "single_inv wo s \<longleftrightarrow> wo_ids wo (s_set s) = [0 \<mapsto> 0] \<and> wo_pending wo (s_set s) \<subseteq> {0} \<and>
     s_received s + card (wo_pending wo (s_set s)) \<le> s_sent s \<and> s_sent s \<le> 3 \<and>
     (s_main s = Loop_Left \<longrightarrow> s_done s \<and> s_received s = 3)"

lemma single_step_inv:
  assumes laws: "trigger_laws wo" and inv: "single_inv wo s"
    and st: "single_worker wo s = Some t \<or> single_main wo s = Some t"
  shows "single_inv wo t"
proof -
  have fin: "finite (wo_pending wo (s_set s))" using inv finite_subset by (auto simp: single_inv_def)
  have "single_inv wo t" if "single_worker wo s = Some t"
    using that inv fin
    by (auto simp: single_worker_def single_inv_def tr_trigger [OF laws] card_insert_if split: if_splits)
  moreover have "single_inv wo t" if m: "single_main wo s = Some t"
  proof (cases "s_main s")
    case Loop_Wait
    then obtain ns w where w: "wo_wait wo (s_set s) = Some (ns, w)" using m
      by (auto simp: single_main_def split: option.splits)
    have "length ns = card (wo_pending wo (s_set s))"
      using tr_wait [OF laws w] distinct_card [of "map fst ns"] by simp
    then show ?thesis using m Loop_Wait w tr_wait [OF laws w] inv
      by (auto simp: single_main_def single_inv_def)
  qed (use m inv in \<open>auto simp: single_main_def single_inv_def split: if_splits\<close>)
  ultimately show ?thesis using st by blast
qed

lemma single_run_inv:
  assumes "trigger_laws wo"
  shows "single_run wo as s = Some t \<Longrightarrow> single_inv wo s \<Longrightarrow> single_inv wo t"
proof (induction as arbitrary: s)
  case (Cons a as)
  then show ?case using single_step_inv [OF assms, of s] by (cases a) (auto split: option.splits)
qed simp

lemma single_inv_start: "trigger_laws wo \<Longrightarrow> single_inv wo (single_start wo)"
  by (simp add: single_inv_def single_start_def tr_attach tr_new)

lemma single_run_append:
  "single_run wo (as @ bs) s = (case single_run wo as s of None \<Rightarrow> None | Some t \<Rightarrow> single_run wo bs t)"
  by (induction as arbitrary: s) (auto split: option.splits)

definition between_rounds :: "'w trigger_ops \<Rightarrow> nat \<Rightarrow> 'w single \<Rightarrow> bool" where
  "between_rounds wo k s \<longleftrightarrow> wo_ids wo (s_set s) = [0 \<mapsto> 0] \<and> wo_pending wo (s_set s) = {} \<and>
     s_main s = Loop_Test \<and> \<not> s_done s \<and> s_sent s = k \<and> s_received s = k"

lemma single_round:
  assumes laws: "trigger_laws wo" and b: "between_rounds wo k s" "k < 3"
  shows "\<exists>t. single_run wo [Main, Worker, Main] s = Some t \<and> between_rounds wo (Suc k) t"
proof -
  let ?w = "wo_trigger wo 0 (s_set s)"
  have "wo_pending wo ?w = {0}" "wo_ids wo ?w 0 = Some 0" "wo_ids wo ?w = [0 \<mapsto> 0]"
    using b by (simp_all add: between_rounds_def tr_trigger [OF laws])
  then obtain w' where "wo_wait wo ?w = Some ([(0, 0)], w')" "wo_pending wo w' = {}" "wo_ids wo w' = [0 \<mapsto> 0]"
    using wait_one [OF laws, of ?w 0 0] by metis
  then show ?thesis using b by (simp add: between_rounds_def single_main_def single_worker_def)
qed

text \<open>
  The loop of \<open>demo_waitset_single\<close> can miss its own end. No more notifications arrive
  than triggers were fired, and a main thread that leaves the loop has received exactly
  three. But it may never leave: in the run in which every trigger is received before the
  next one is fired, the main thread has all three notifications, finds \<open>done\<close> still false
  and waits again, the worker sets \<open>done\<close> and ends, and nothing wakes the main thread any
  more. It also blocks, with two notifications, when two triggers fall into one wait.
\<close>

theorem single_demo_can_block:
  assumes laws: "trigger_laws wo"
  shows "(\<forall>as s. single_run wo as (single_start wo) = Some s \<longrightarrow>
      s_received s \<le> s_sent s \<and> (s_main s = Loop_Left \<longrightarrow> s_received s = 3)) \<and>
    (\<exists>as s. single_run wo as (single_start wo) = Some s \<and> single_blocked wo s \<and> s_received s = 3) \<and>
    (\<exists>as s. single_run wo as (single_start wo) = Some s \<and> single_blocked wo s \<and> s_received s = 2)"
proof (intro conjI allI impI)
  fix as s assume "single_run wo as (single_start wo) = Some s"
  then have "single_inv wo s" using single_run_inv [OF laws] single_inv_start [OF laws] by blast
  then show "s_received s \<le> s_sent s" "s_main s = Loop_Left \<Longrightarrow> s_received s = 3"
    by (auto simp: single_inv_def)
next
  let ?r = "[Main, Worker, Main]"
  have 0: "between_rounds wo 0 (single_start wo)"
    using laws by (simp add: between_rounds_def single_start_def tr_attach tr_new)
  obtain s1 where 1: "single_run wo ?r (single_start wo) = Some s1" "between_rounds wo 1 s1"
    using single_round [OF laws 0] by auto
  obtain s2 where 2: "single_run wo ?r s1 = Some s2" "between_rounds wo 2 s2"
    using single_round [OF laws 1(2)] by (auto simp: numeral_2_eq_2)
  obtain s3 where 3: "single_run wo ?r s2 = Some s3" "between_rounds wo 3 s3"
    using single_round [OF laws 2(2)] by (auto simp: numeral_3_eq_3 numeral_2_eq_2)
  let ?s = "s3\<lparr>s_main := Loop_Wait, s_done := True\<rparr>"
  have "single_run wo [Main, Worker] s3 = Some ?s"
    using 3(2) by (simp add: between_rounds_def single_main_def single_worker_def)
  then have "single_run wo (?r @ ?r @ ?r @ [Main, Worker]) (single_start wo) = Some ?s"
    using 1(1) 2(1) 3(1) by (simp only: single_run_append option.case)
  moreover have "single_blocked wo ?s \<and> s_received ?s = 3"
    using 3(2) tr_block [OF laws, of "s_set s3"]
    by (simp add: single_blocked_def between_rounds_def single_worker_def single_main_def)
  ultimately show "\<exists>as s. single_run wo as (single_start wo) = Some s \<and> single_blocked wo s \<and> s_received s = 3"
    by blast
  let ?w = "wo_trigger wo 0 (wo_trigger wo 0 (s_set s1))"
  have w: "wo_pending wo ?w = {0}" "wo_ids wo ?w 0 = Some 0" "wo_ids wo ?w = [0 \<mapsto> 0]"
    using 1(2) by (simp_all add: between_rounds_def tr_trigger [OF laws])
  obtain w' where w': "wo_wait wo ?w = Some ([(0, 0)], w')" "wo_pending wo w' = {}"
    using wait_one [OF laws w(1,2)] by blast
  have "\<exists>s. single_run wo [Main, Worker, Worker, Worker, Main, Main] s1 = Some s \<and> single_blocked wo s \<and> s_received s = 2"
    using 1(2) w' tr_block [OF laws, of w']
    by (simp add: between_rounds_def single_main_def single_worker_def single_blocked_def)
  then show "\<exists>as s. single_run wo as (single_start wo) = Some s \<and> single_blocked wo s \<and> s_received s = 2"
    using 1(1) single_run_append [of wo ?r] by (metis option.case(2))
qed

theorem single_demo_can_block_witness:
  "\<exists>as s. single_run list_triggers as (single_start list_triggers) = Some s \<and>
     single_blocked list_triggers s \<and> s_received s = 3"
  using single_demo_can_block [OF list_triggers_laws] by blast

section \<open>Two triggers\<close>

definition ID_A :: nat where "ID_A = 10"
definition ID_B :: nat where "ID_B = 20"

definition onAlarmA :: string where "onAlarmA = ''  [callback] alarmA fired''"
definition onAlarmB :: string where "onAlarmB = ''  [callback] alarmB fired''"

text \<open>
  What the loop of \<open>demo_waitset_multi\<close> prints for a notification: by id, by origin
  (\<open>triggerA\<close> is 0, \<open>triggerB\<close> is 1), and by the callback. The arrow is in UTF-8.
\<close>

definition arrow :: string where "arrow = [CHR 0xE2, CHR 0x86, CHR 0x92]"

definition dispatch_notification :: "nat \<times> nat \<Rightarrow> console" where
  "dispatch_notification n = (case n of (origin, i) \<Rightarrow>
     [''  [waitset] notificationId='' @ to_string (int i) @
        (if i = ID_A then '' '' @ arrow @ '' A'' else if i = ID_B then '' '' @ arrow @ '' B'' else [])] @
     (if origin = 0 then [''  [waitset] doesOriginateFrom(&triggerA) = true'']
      else if origin = 1 then [''  [waitset] doesOriginateFrom(&triggerB) = true''] else []) @
     [if origin = 0 then onAlarmA else onAlarmB])"

text \<open>The worker's remaining triggers, and the main thread's loop.\<close>

record 'w multi =
  u_set :: 'w
  u_todo :: "nat list"
  u_main :: loop_pc
  u_total :: nat
  u_out :: console

definition multi_start :: "'w trigger_ops \<Rightarrow> 'w multi" where
  "multi_start wo = \<lparr>u_set = wo_attach wo 1 ID_B (wo_attach wo 0 ID_A (wo_new wo)), u_todo = [0, 1, 0],
     u_main = Loop_Test, u_total = 0, u_out = []\<rparr>"

definition multi_worker :: "'w trigger_ops \<Rightarrow> 'w multi \<Rightarrow> 'w multi option" where
  "multi_worker wo s =
     (case u_todo s of
        [] \<Rightarrow> None
      | t # ts \<Rightarrow> Some (s\<lparr>u_set := wo_trigger wo t (u_set s), u_todo := ts\<rparr>))"

definition multi_main :: "'w trigger_ops \<Rightarrow> 'w multi \<Rightarrow> 'w multi option" where
  "multi_main wo s =
     (case u_main s of
        Loop_Test \<Rightarrow> Some (s\<lparr>u_main := (if u_total s < 3 then Loop_Wait else Loop_Left)\<rparr>)
      | Loop_Wait \<Rightarrow>
          (case wo_wait wo (u_set s) of
             None \<Rightarrow> None
           | Some (ns, w) \<Rightarrow>
               Some (s\<lparr>u_set := w, u_main := Loop_Test, u_total := u_total s + length ns,
                       u_out := u_out s @ concat (map dispatch_notification ns)\<rparr>))
      | Loop_Left \<Rightarrow> None)"

fun multi_run :: "'w trigger_ops \<Rightarrow> mover list \<Rightarrow> 'w multi \<Rightarrow> 'w multi option" where
  "multi_run wo [] s = Some s"
| "multi_run wo (a # as) s =
     (case (case a of Worker \<Rightarrow> multi_worker wo s | Main \<Rightarrow> multi_main wo s) of
        None \<Rightarrow> None
      | Some s' \<Rightarrow> multi_run wo as s')"

lemma multi_run_append:
  "multi_run wo (as @ bs) s = (case multi_run wo as s of None \<Rightarrow> None | Some t \<Rightarrow> multi_run wo bs t)"
  by (induction as arbitrary: s) (auto split: option.splits)

definition multi_ids :: "nat \<rightharpoonup> nat" where
  "multi_ids = [0 \<mapsto> ID_A, 1 \<mapsto> ID_B]"

lemma multi_round:
  assumes laws: "trigger_laws wo" and s: "wo_ids wo (u_set s) = multi_ids" "wo_pending wo (u_set s) = {}"
    "u_main s = Loop_Test" "u_todo s = t # ts" "multi_ids t = Some i" "u_total s < 3"
  shows "\<exists>w. multi_run wo [Main, Worker, Main] s =
      Some (s\<lparr>u_set := w, u_todo := ts, u_total := Suc (u_total s),
              u_out := u_out s @ dispatch_notification (t, i)\<rparr>) \<and>
    wo_ids wo w = multi_ids \<and> wo_pending wo w = {}"
proof -
  let ?w = "wo_trigger wo t (u_set s)"
  have "wo_pending wo ?w = {t}" "wo_ids wo ?w t = Some i" "wo_ids wo ?w = multi_ids"
    using s by (simp_all add: tr_trigger [OF laws])
  then obtain w' where "wo_wait wo ?w = Some ([(t, i)], w')" "wo_pending wo w' = {}" "wo_ids wo w' = multi_ids"
    using wait_one [OF laws, of ?w t i] by metis
  then show ?thesis using s by (intro exI [of _ w']) (simp add: multi_main_def multi_worker_def)
qed

text \<open>
  Two triggers on one wait set are told apart: when each trigger is received before the
  next is fired, the loop ends after three rounds and has dispatched A, B, A by id, by origin
  and by callback. When all three are fired before the first wait, the two of A are one
  notification: the loop has two and waits for ever.
\<close>

theorem multi_demo_dispatches:
  assumes laws: "trigger_laws wo"
  shows "(\<exists>s. multi_run wo (concat (replicate 3 [Main, Worker, Main]) @ [Main]) (multi_start wo) = Some s \<and>
      u_main s = Loop_Left \<and> u_total s = 3 \<and>
      u_out s = dispatch_notification (0, ID_A) @ dispatch_notification (1, ID_B) @ dispatch_notification (0, ID_A)) \<and>
    (\<exists>s. multi_run wo [Worker, Worker, Worker, Main, Main, Main] (multi_start wo) = Some s \<and>
      u_total s = 2 \<and> multi_worker wo s = None \<and> multi_main wo s = None \<and> u_main s = Loop_Wait)"
proof
  let ?r = "[Main, Worker, Main]" and ?s = "multi_start wo"
  have ids: "multi_ids 0 = Some ID_A" "multi_ids 1 = Some ID_B" by (simp_all add: multi_ids_def)
  have s: "wo_ids wo (u_set ?s) = multi_ids" "wo_pending wo (u_set ?s) = {}"
    by (simp_all add: multi_start_def multi_ids_def tr_attach [OF laws] tr_new [OF laws])
  obtain w1 where 1: "multi_run wo ?r ?s = Some (?s\<lparr>u_set := w1, u_todo := [1, 0], u_total := 1,
      u_out := dispatch_notification (0, ID_A)\<rparr>)" (is "_ = Some ?s1")
    "wo_ids wo w1 = multi_ids" "wo_pending wo w1 = {}"
    using multi_round [OF laws s _ _ ids(1)] by (auto simp: multi_start_def)
  obtain w2 where 2: "multi_run wo ?r ?s1 = Some (?s1\<lparr>u_set := w2, u_todo := [0], u_total := 2,
      u_out := u_out ?s1 @ dispatch_notification (1, ID_B)\<rparr>)" (is "_ = Some ?s2")
    "wo_ids wo w2 = multi_ids" "wo_pending wo w2 = {}"
    using multi_round [OF laws, of ?s1 1 "[0]"] 1 ids(2) by (auto simp: multi_start_def numeral_2_eq_2)
  obtain w3 where 3: "multi_run wo ?r ?s2 = Some (?s2\<lparr>u_set := w3, u_todo := [], u_total := 3,
      u_out := u_out ?s2 @ dispatch_notification (0, ID_A)\<rparr>)"
    using multi_round [OF laws, of ?s2 0 "[]"] 2 ids(1) by (auto simp: multi_start_def numeral_3_eq_3)
  show "\<exists>s. multi_run wo (concat (replicate 3 ?r) @ [Main]) ?s = Some s \<and>
      u_main s = Loop_Left \<and> u_total s = 3 \<and>
      u_out s = dispatch_notification (0, ID_A) @ dispatch_notification (1, ID_B) @ dispatch_notification (0, ID_A)"
  proof -
    have "concat (replicate 3 ?r) @ [Main] = ?r @ ?r @ ?r @ [Main]" by (simp add: numeral_3_eq_3)
    moreover have "multi_run wo (?r @ ?r @ ?r @ [Main]) ?s = multi_run wo [Main] (?s2\<lparr>u_set := w3, u_todo := [],
        u_total := 3, u_out := u_out ?s2 @ dispatch_notification (0, ID_A)\<rparr>)"
      using 1(1) 2(1) 3 by (simp only: multi_run_append option.case)
    ultimately show ?thesis by (simp add: multi_main_def multi_start_def)
  qed
next
  let ?s = "multi_start wo"
  let ?w = "wo_trigger wo 0 (wo_trigger wo 1 (wo_trigger wo 0 (u_set ?s)))"
  have p: "wo_pending wo ?w = {0, 1}"
    by (auto simp: multi_start_def tr_trigger [OF laws] tr_attach [OF laws] tr_new [OF laws])
  then obtain ns w' where w: "wo_wait wo ?w = Some (ns, w')"
    using tr_block [OF laws, of ?w] by fastforce
  have "length ns = 2" using tr_wait [OF laws w] p distinct_card [of "map fst ns"] by simp
  moreover have "wo_wait wo w' = None" using tr_block [OF laws, of w'] tr_wait [OF laws w] by simp
  ultimately show "\<exists>s. multi_run wo [Worker, Worker, Worker, Main, Main, Main] ?s = Some s \<and>
      u_total s = 2 \<and> multi_worker wo s = None \<and> multi_main wo s = None \<and> u_main s = Loop_Wait"
    using w by (simp add: multi_start_def multi_worker_def multi_main_def)
qed

theorem multi_demo_dispatches_witness:
  "\<exists>s. multi_run list_triggers [Worker, Worker, Worker, Main, Main, Main] (multi_start list_triggers) = Some s \<and>
     u_total s = 2"
  using multi_demo_dispatches [OF list_triggers_laws] by blast

section \<open>Timed waits, the state of a trigger, and the listener\<close>

text \<open>
  \<open>timedWait\<close> returns nothing when the time is up. \<open>arrives\<close>: the detached thread triggers
  within the second timeout. The results are the two sizes and the callbacks' lines.
\<close>

definition timedWait :: "'w trigger_ops \<Rightarrow> 'w \<Rightarrow> (nat \<times> nat) list \<times> 'w" where
  "timedWait wo w = (case wo_wait wo w of None \<Rightarrow> ([], w) | Some r \<Rightarrow> r)"

definition demo_timed_wait :: "'w trigger_ops \<Rightarrow> bool \<Rightarrow> nat \<times> nat \<times> console" where
  "demo_timed_wait wo arrives =
     (let w0 = wo_attach wo 0 0 (wo_new wo);
          (ns1, w1) = timedWait wo w0;
          (ns2, w2) = timedWait wo (if arrives then wo_trigger wo 0 w1 else w1)
      in (length ns1, length ns2, map (\<lambda>_. onCyclicTick) ns2))"

definition demo_has_triggered :: "'w trigger_ops \<Rightarrow> bool \<times> bool \<times> nat \<times> bool" where
  "demo_has_triggered wo =
     (let w0 = wo_attach wo 0 0 (wo_new wo);
          w1 = wo_trigger wo 0 w0;
          (ns, w2) = timedWait wo w1
      in (0 \<in> wo_pending wo w0, 0 \<in> wo_pending wo w1, length ns, 0 \<in> wo_pending wo w2))"

record HeartbeatCtx =
  beatCount :: nat
  verbose :: bool

definition beat_line :: "nat \<Rightarrow> string" where
  "beat_line k = ''  [listener callback] heartbeat #'' @ to_string (int k)"

definition onHeartbeat :: "HeartbeatCtx \<Rightarrow> HeartbeatCtx \<times> console" where
  "onHeartbeat ctx =
     (let ctx' = ctx\<lparr>beatCount := Suc (beatCount ctx)\<rparr>
      in (ctx', if verbose ctx'
                then [beat_line (beatCount ctx')] else []))"

text \<open>
  \<open>demo_listener\<close>: the main thread triggers (\<open>Main\<close>), the listener's thread takes what is
  pending and calls the callback for it (\<open>Worker\<close>).
\<close>

fun listener_run ::
  "'w trigger_ops \<Rightarrow> mover list \<Rightarrow> 'w \<times> HeartbeatCtx \<times> console \<Rightarrow> 'w \<times> HeartbeatCtx \<times> console" where
  "listener_run wo [] s = s"
| "listener_run wo (Main # as) (w, ctx, out) = listener_run wo as (wo_trigger wo 0 w, ctx, out)"
| "listener_run wo (Worker # as) (w, ctx, out) =
     (case wo_wait wo w of
        None \<Rightarrow> listener_run wo as (w, ctx, out)
      | Some (ns, w') \<Rightarrow>
          (case onHeartbeat ctx of (ctx', lines) \<Rightarrow> listener_run wo as (w', ctx', out @ lines)))"

definition demo_listener :: "'w trigger_ops \<Rightarrow> mover list \<Rightarrow> HeartbeatCtx \<times> console" where
  "demo_listener wo as =
     snd (listener_run wo as (wo_attach wo 0 0 (wo_new wo), \<lparr>beatCount = 0, verbose = True\<rparr>, []))"

text \<open>A callback follows every run of triggers: how many runs a schedule has.\<close>

fun beats :: "bool \<Rightarrow> mover list \<Rightarrow> nat" where
  "beats p [] = 0"
| "beats p (Main # as) = beats True as"
| "beats p (Worker # as) = (if p then Suc (beats False as) else beats False as)"

lemma listener_run_beats:
  assumes laws: "trigger_laws wo"
  shows "wo_ids wo w = [0 \<mapsto> 0] \<Longrightarrow> wo_pending wo w = (if p then {0} else {}) \<Longrightarrow> verbose ctx \<Longrightarrow>
    \<exists>w'. listener_run wo as (w, ctx, out) =
      (w', ctx\<lparr>beatCount := beatCount ctx + beats p as\<rparr>,
       out @ map beat_line [Suc (beatCount ctx)..<Suc (beatCount ctx + beats p as)])"
proof (induction as arbitrary: w p ctx out)
  case (Cons a as)
  show ?case
  proof (cases a)
    case Main
    then show ?thesis
      using Cons.IH [of "wo_trigger wo 0 w" True ctx out] Cons.prems by (simp add: tr_trigger [OF laws])
  next
    case Worker
    show ?thesis
    proof (cases p)
      case True
      then have "wo_pending wo w = {0}" "wo_ids wo w 0 = Some 0" using Cons.prems by simp_all
      then obtain w' where w: "wo_wait wo w = Some ([(0, 0)], w')" "wo_pending wo w' = {}" "wo_ids wo w' = [0 \<mapsto> 0]"
        using wait_one [OF laws] Cons.prems(1) by metis
      let ?c = "ctx\<lparr>beatCount := Suc (beatCount ctx)\<rparr>"
      have "verbose ?c" using Cons.prems by simp
      from Cons.IH [OF w(3) _ this, of False "out @ [beat_line (Suc (beatCount ctx))]"] w show ?thesis
        using Worker True Cons.prems(3) by (simp add: onHeartbeat_def upt_conv_Cons del: upt_Suc)
    next
      case False
      then have "wo_wait wo w = None" using tr_block [OF laws, of w] Cons.prems by simp
      then show ?thesis using Worker False Cons.IH [of w False ctx out] Cons.prems by simp
    qed
  qed
qed (simp add: exI)

lemma beats_bound: "beats p as \<le> length (filter (\<lambda>a. a = Main) as) + (if p then 1 else 0)"
  by (induction p as rule: beats.induct) auto

text \<open>
  \<open>hasTriggered\<close> is false, true after a trigger, and false again after the wait that
  returns it; a timed wait returns nothing without a trigger and one notification with one.
  The listener counts one heartbeat per run of triggers that no callback interrupts: the
  count is that number, its lines are numbered from 1, and it never exceeds the triggers (four in the
  demonstration), but may be smaller.
\<close>

theorem listener_counts_runs:
  assumes laws: "trigger_laws wo"
  shows "demo_has_triggered wo = (False, True, 1, False) \<and>
    demo_timed_wait wo arrives = (0, if arrives then 1 else 0, if arrives then [onCyclicTick] else []) \<and>
    beatCount (fst (demo_listener wo as)) = beats False as \<and>
    snd (demo_listener wo as) = map beat_line [1..<Suc (beats False as)] \<and>
    beats False as \<le> length (filter (\<lambda>a. a = Main) as)"
proof -
  let ?w = "wo_attach wo 0 0 (wo_new wo)"
  have w: "wo_ids wo ?w = [0 \<mapsto> 0]" "wo_pending wo ?w = {}"
    by (simp_all add: tr_attach [OF laws] tr_new [OF laws])
  have t: "wo_pending wo (wo_trigger wo 0 ?w) = {0}" "wo_ids wo (wo_trigger wo 0 ?w) 0 = Some 0"
    using w by (simp_all add: tr_trigger [OF laws])
  obtain w' where w': "wo_wait wo (wo_trigger wo 0 ?w) = Some ([(0, 0)], w')" "wo_pending wo w' = {}"
    using wait_one [OF laws t] by blast
  have n: "wo_wait wo ?w = None" using tr_block [OF laws, of ?w] w by simp
  show ?thesis
    using listener_run_beats [OF laws w(1), of False "\<lparr>beatCount = 0, verbose = True\<rparr>" as "[]"] w w' n
      beats_bound [of False as] t
    by (auto simp del: upt_Suc simp: demo_has_triggered_def demo_timed_wait_def timedWait_def demo_listener_def Let_def)
qed

theorem listener_counts_runs_witness:
  "beatCount (fst (demo_listener list_triggers [Main, Worker, Main, Main, Main, Worker])) = 2"
  using listener_counts_runs [OF list_triggers_laws, where as = "[Main, Worker, Main, Main, Main, Worker]"] by simp

end
