(* ===== verification/Stop_Token_Pool.thy ===== *)
theory Stop_Token_Pool
  imports Prelude
begin

text \<open>
  The pool of \<open>src/cpp_test/stand_cpp/011.stop_token\<close>: a thread per task, each with a stop
  source of its own; \<open>stop\<close> asks and joins the threads one after the other. Callers and
  threads are numbers; the steps are the single accesses to \<open>is_running_\<close>, \<open>workers_mutex_\<close>,
  \<open>workers_\<close> and the stop sources. A task is a state machine that reads its stop token:
  \<open>body q asked\<close> is what it does next in state \<open>q\<close>, \<open>None\<close> that it returns.
\<close>

section \<open>The pool\<close>

text \<open>The stop state and the thread of one entry of \<open>workers_\<close>; \<open>None\<close>: the task returned.\<close>

record 'q pool_thread =
  asked :: bool
  running :: "'q option"

text \<open>
  Where a caller is: in \<open>add_task\<close> after the check of \<open>is_running_\<close> or with the mutex, in \<open>stop\<close>
  before the mutex, at the head of the loop over \<open>workers_\<close>, or in \<open>join\<close>; in the destructor
  of the pool, which runs when the program exits, or past it.
\<close>

datatype 'q pool_caller =
    Idle | Add_Checked 'q | Add_Locked 'q
  | Stop_Stored | Stop_Loop "nat list" | Stop_Join nat "nat list"
  | Exit_Join "nat list" | Exited

text \<open>\<open>threads\<close>: every thread ever started; \<open>workers\<close>: those in \<open>workers_\<close>.\<close>

record 'q stop_pool =
  is_running :: bool
  workers_mutex :: "nat option"
  threads :: "'q pool_thread list"
  workers :: "nat list"
  callers :: "nat \<Rightarrow> 'q pool_caller"
  answers :: "(nat \<times> bool) list"
  stops :: nat

definition pool_instance :: "'q stop_pool" where
  "pool_instance = \<lparr>is_running = True, workers_mutex = None, threads = [], workers = [],
     callers = (\<lambda>_. Idle), answers = [], stops = 0\<rparr>"

definition go :: "nat \<Rightarrow> 'q pool_caller \<Rightarrow> 'q stop_pool \<Rightarrow> 'q stop_pool" where
  "go t c s = s\<lparr>callers := (callers s)(t := c)\<rparr>"

text \<open>A caller enters \<open>add_task\<close>, \<open>stop\<close> or, at exit, the destructor.\<close>

definition add_task :: "nat \<Rightarrow> 'q \<Rightarrow> 'q stop_pool \<Rightarrow> 'q stop_pool" where
  "add_task t q s =
     (if is_running s then go t (Add_Checked q) s else s\<lparr>answers := answers s @ [(t, False)]\<rparr>)"

definition stop :: "nat \<Rightarrow> 'q stop_pool \<Rightarrow> 'q stop_pool" where
  "stop t s = go t Stop_Stored (s\<lparr>is_running := False\<rparr>)"

definition destroy :: "nat \<Rightarrow> 'q stop_pool \<Rightarrow> 'q stop_pool" where
  "destroy t s = go t (Exit_Join (workers s)) s"

text \<open>
  The next step of a caller that is inside an operation; \<open>None\<close>: it is blocked on the mutex
  or in \<open>join\<close>. The destructor of a \<open>std::jthread\<close> asks the thread's own stop source, which
  no task sees, and joins.
\<close>

definition lock_mutex :: "nat \<Rightarrow> 'q pool_caller \<Rightarrow> 'q stop_pool \<Rightarrow> 'q stop_pool option" where
  "lock_mutex t c s =
     (if workers_mutex s = None then Some (go t c (s\<lparr>workers_mutex := Some t\<rparr>)) else None)"

fun resume_at :: "nat \<Rightarrow> 'q pool_caller \<Rightarrow> 'q stop_pool \<Rightarrow> 'q stop_pool option" where
  "resume_at t Idle s = None"
| "resume_at t (Add_Checked q) s = lock_mutex t (Add_Locked q) s"
| "resume_at t (Add_Locked q) s =
     Some (go t Idle (s\<lparr>threads := threads s @ [\<lparr>asked = False, running = Some q\<rparr>],
                        workers := workers s @ [length (threads s)],
                        workers_mutex := None, answers := answers s @ [(t, True)]\<rparr>))"
| "resume_at t Stop_Stored s = lock_mutex t (Stop_Loop (workers s)) s"
| "resume_at t (Stop_Loop []) s =
     Some (go t Idle (s\<lparr>workers := [], workers_mutex := None, stops := Suc (stops s)\<rparr>))"
| "resume_at t (Stop_Loop (w # ws)) s =
     Some (go t (Stop_Join w ws) (s\<lparr>threads := (threads s)[w := (threads s ! w)\<lparr>asked := True\<rparr>]\<rparr>))"
| "resume_at t (Stop_Join w ws) s =
     (if running (threads s ! w) = None then Some (go t (Stop_Loop ws) s) else None)"
| "resume_at t (Exit_Join []) s = Some (go t Exited s)"
| "resume_at t (Exit_Join (w # ws)) s =
     (if running (threads s ! w) = None then Some (go t (Exit_Join ws) s) else None)"
| "resume_at t Exited s = None"

definition resume :: "nat \<Rightarrow> 'q stop_pool \<Rightarrow> 'q stop_pool option" where
  "resume t s = resume_at t (callers s t) s"

text \<open>\<open>execute_task\<close>: one step of the task of thread \<open>i\<close>.\<close>

definition execute_task :: "('q \<Rightarrow> bool \<Rightarrow> 'q option) \<Rightarrow> nat \<Rightarrow> 'q stop_pool \<Rightarrow> 'q stop_pool option" where
  "execute_task body i s =
     (if i < length (threads s)
      then (case running (threads s ! i) of
              None \<Rightarrow> None
            | Some q \<Rightarrow> Some (s\<lparr>threads := (threads s)[i :=
                (threads s ! i)\<lparr>running := body q (asked (threads s ! i))\<rparr>]\<rparr>))
      else None)"

text \<open>The task of the example: the state counts the lines printed.\<close>

definition test_stop_token :: "nat \<Rightarrow> bool \<Rightarrow> nat option" where
  "test_stop_token n stop_requested = (if stop_requested then None else Some (Suc n))"

text \<open>A step that calls \<open>stop\<close> anew, and every other step.\<close>

inductive other_step :: "('q \<Rightarrow> bool \<Rightarrow> 'q option) \<Rightarrow> 'q stop_pool \<Rightarrow> 'q stop_pool \<Rightarrow> bool" for body where
  add: "callers s t = Idle \<Longrightarrow> other_step body s (add_task t q s)"
| destroy: "callers s t = Idle \<Longrightarrow> other_step body s (destroy t s)"
| resume: "resume t s = Some s' \<Longrightarrow> other_step body s s'"
| work: "execute_task body i s = Some s' \<Longrightarrow> other_step body s s'"

inductive pool_step :: "('q \<Rightarrow> bool \<Rightarrow> 'q option) \<Rightarrow> 'q stop_pool \<Rightarrow> 'q stop_pool \<Rightarrow> bool" for body where
  call_stop: "callers s t = Idle \<Longrightarrow> pool_step body s (stop t s)"
| other: "other_step body s s' \<Longrightarrow> pool_step body s s'"

inductive_cases other_stepE: "other_step body s s'"
inductive_cases pool_stepE: "pool_step body s s'"

abbreviation pool_reach :: "('q \<Rightarrow> bool \<Rightarrow> 'q option) \<Rightarrow> 'q stop_pool \<Rightarrow> bool" where
  "pool_reach body \<equiv> reach (\<lambda>s. s = pool_instance) (pool_step body)"

section \<open>The invariant\<close>

fun holds :: "'q pool_caller \<Rightarrow> bool" where
  "holds (Add_Locked _) = True"
| "holds (Stop_Loop _) = True"
| "holds (Stop_Join _ _) = True"
| "holds _ = False"

fun adding :: "'q pool_caller \<Rightarrow> bool" where
  "adding (Add_Checked _) = True"
| "adding (Add_Locked _) = True"
| "adding _ = False"

fun stopping :: "'q pool_caller \<Rightarrow> bool" where
  "stopping Stop_Stored = True"
| "stopping (Stop_Loop _) = True"
| "stopping (Stop_Join _ _) = True"
| "stopping _ = False"

text \<open>
  The entries of \<open>workers_\<close> a stop that holds the mutex has yet to join, and the one it has
  asked already.
\<close>

fun unjoined :: "'q pool_caller \<Rightarrow> nat list \<Rightarrow> nat list" where
  "unjoined (Stop_Loop ws) ids = ws"
| "unjoined (Stop_Join w ws) ids = w # ws"
| "unjoined c ids = ids"

fun unasked :: "'q pool_caller \<Rightarrow> nat list \<Rightarrow> nat list" where
  "unasked (Stop_Loop ws) ids = ws"
| "unasked (Stop_Join w ws) ids = ws"
| "unasked c ids = ids"

fun joining :: "'q pool_caller \<Rightarrow> nat option" where
  "joining (Stop_Join w ws) = Some w"
| "joining c = None"

definition holder :: "'q stop_pool \<Rightarrow> 'q pool_caller" where
  "holder s = (case workers_mutex s of None \<Rightarrow> Idle | Some t \<Rightarrow> callers s t)"

definition pool_inv :: "'q stop_pool \<Rightarrow> bool" where
  "pool_inv s \<longleftrightarrow>
     (\<forall>t. holds (callers s t) \<longleftrightarrow> workers_mutex s = Some t) \<and>
     sorted_wrt (<) (unjoined (holder s) (workers s)) \<and>
     set (unjoined (holder s) (workers s)) \<subseteq> {..<length (threads s)} \<and>
     (\<forall>i < length (threads s). running (threads s ! i) \<noteq> None \<longrightarrow> i \<in> set (unjoined (holder s) (workers s))) \<and>
     (\<forall>i < length (threads s). asked (threads s ! i) \<longrightarrow>
        (\<forall>j \<in> set (unasked (holder s) (workers s)). i < j) \<and>
        (\<forall>j \<in> set (unjoined (holder s) (workers s)). i \<le> j)) \<and>
     (\<forall>w. joining (holder s) = Some w \<longrightarrow> asked (threads s ! w))"

lemma stop_pool_inv_init: "pool_inv pool_instance"
  by (simp add: pool_inv_def pool_instance_def holder_def)

lemma holder_Some: "pool_inv s \<Longrightarrow> holds (callers s t) \<Longrightarrow> workers_mutex s = Some t \<and> holder s = callers s t"
  by (simp add: pool_inv_def holder_def)

text \<open>A caller that neither takes nor gives back the mutex.\<close>

lemma pool_inv_go:
  assumes "pool_inv s" and "\<not> holds (callers s t)" and "\<not> holds c"
  shows "pool_inv (go t c s)"
proof -
  have "workers_mutex s \<noteq> Some t" using assms by (auto simp: pool_inv_def)
  then have "holder (go t c s) = holder s" by (auto simp: holder_def go_def split: option.split)
  with assms show ?thesis by (auto simp: pool_inv_def go_def)
qed

lemma holder_update [simp]:
  "holder (s\<lparr>is_running := b\<rparr>) = holder s" "holder (s\<lparr>answers := as\<rparr>) = holder s"
  "holder (s\<lparr>threads := ts\<rparr>) = holder s"
  by (simp_all add: holder_def split: option.split)

lemma pool_inv_update:
  "pool_inv (s\<lparr>is_running := b\<rparr>) = pool_inv s" "pool_inv (s\<lparr>answers := as\<rparr>) = pool_inv s"
  by (simp_all add: pool_inv_def)

lemma pool_inv_lock:
  assumes "pool_inv s" and "lock_mutex t c s = Some s'" and "holds c"
    and "unjoined c (workers s) = workers s" "unasked c (workers s) = workers s" "joining c = None"
  shows "pool_inv s'"
  using assms by (auto simp: pool_inv_def lock_mutex_def go_def holder_def split: if_splits)

lemma pool_inv_hold:
  assumes inv: "pool_inv s" and h: "holds (callers s t)"
    and r: "resume t s = Some s'"
  shows "pool_inv s'"
proof -
  have m: "workers_mutex s = Some t" and c: "holder s = callers s t"
    using holder_Some [OF inv h] by auto
  have only_t: "\<not> holds (callers s u)" if "u \<noteq> t" for u using inv m that by (auto simp: pool_inv_def)
  show ?thesis
  proof (cases "callers s t")
    case (Add_Locked q)
    then show ?thesis
      using inv m c r only_t
      by (auto simp: pool_inv_def resume_def go_def holder_def sorted_wrt_append nth_append less_Suc_eq
          split: if_splits)
  next
    case (Stop_Loop ws)
    show ?thesis
    proof (cases ws)
      case Nil
      then show ?thesis
        using inv m c r only_t Stop_Loop
        by (auto simp: pool_inv_def resume_def go_def holder_def split: if_splits)
    next
      case (Cons w ws')
      then show ?thesis
        using inv m c r only_t Stop_Loop
        by (auto simp: pool_inv_def resume_def go_def holder_def nth_list_update less_imp_le split: if_splits)
    qed
  next
    case (Stop_Join w ws)
    then show ?thesis
      using inv m c r only_t by (auto simp: pool_inv_def resume_def go_def holder_def split: if_splits)
  qed (use h in auto)
qed

lemma pool_inv_resume:
  assumes inv: "pool_inv s" and r: "resume t s = Some s'"
  shows "pool_inv s'"
proof (cases "holds (callers s t)")
  case True
  then show ?thesis by (rule pool_inv_hold [OF inv _ r])
next
  case False
  show ?thesis
  proof (cases "callers s t")
    case (Exit_Join ws)
    with r obtain c where "s' = go t c s" "\<not> holds c"
      by (cases ws) (auto simp: resume_def split: if_splits)
    then show ?thesis using pool_inv_go [OF inv False] by simp
  qed (use False r in \<open>auto simp: resume_def intro: pool_inv_lock [OF inv]\<close>)
qed

lemma pool_inv_work:
  assumes "pool_inv s" and "execute_task body i s = Some s'"
  shows "pool_inv s'"
  using assms by (auto simp: pool_inv_def execute_task_def nth_list_update split: if_splits option.splits)

lemma pool_inv_other:
  assumes inv: "pool_inv s" and "other_step body s s'"
  shows "pool_inv s'"
  using assms(2)
proof cases
  case (add t q)
  then show ?thesis using inv by (auto simp: add_task_def pool_inv_update intro: pool_inv_go)
next
  case (destroy t)
  then show ?thesis using inv by (auto simp: destroy_def intro: pool_inv_go)
qed (use inv pool_inv_resume pool_inv_work in blast)+

interpretation stop_pool: invariant_system "\<lambda>s. s = pool_instance" "pool_step body" pool_inv
proof
  fix s t :: "'a stop_pool"
  assume inv: "pool_inv s" and "pool_step body s t"
  from this(2) show "pool_inv t"
  proof cases
    case (call_stop u)
    then show ?thesis
      using pool_inv_go [of "s\<lparr>is_running := False\<rparr>" u Stop_Stored] inv by (simp add: stop_def pool_inv_update)
  qed (rule pool_inv_other [OF inv])
qed (simp add: stop_pool_inv_init)

section \<open>What stop leaves behind\<close>

definition all_returned :: "'q stop_pool \<Rightarrow> bool" where
  "all_returned s \<longleftrightarrow> (\<forall>i < length (threads s). running (threads s ! i) = None)"

definition drained :: "nat \<Rightarrow> 'q stop_pool \<Rightarrow> bool" where
  "drained t s \<longleftrightarrow> \<not> is_running s \<and> (\<forall>u. \<not> adding (callers s u)) \<and>
     (stopping (callers s t) \<or> workers s = [] \<and> all_returned s)"

lemma drained_resume:
  assumes inv: "pool_inv s" and d: "drained t s" and r: "resume u s = Some s'"
  shows "drained t s'"
proof (cases "callers s u = Stop_Loop []")
  case True
  then have "unjoined (holder s) (workers s) = []" using holder_Some [OF inv, of u] by simp
  then have "all_returned s" using inv by (simp add: pool_inv_def all_returned_def)
  then show ?thesis using True d r
    by (auto simp: drained_def resume_def go_def all_returned_def split: if_splits)
next
  case False
  have na: "\<not> adding (callers s u)" using d by (simp add: drained_def)
  show ?thesis
  proof (cases "callers s u")
    case (Stop_Loop ws)
    then obtain w ws' where ws: "ws = w # ws'" using False by (cases ws) auto
    have w: "w < length (threads s)"
      using inv holder_Some [OF inv, of u] Stop_Loop ws by (auto simp: pool_inv_def)
    have s': "s' = go u (Stop_Join w ws') (s\<lparr>threads := (threads s)[w := (threads s ! w)\<lparr>asked := True\<rparr>]\<rparr>)"
      using r Stop_Loop ws by (simp add: resume_def)
    have "all_returned s'" if "all_returned s"
      using that w by (auto simp: all_returned_def s' go_def nth_list_update)
    then show ?thesis using d s' Stop_Loop by (auto simp: drained_def go_def)
  next
    case (Exit_Join ws)
    then show ?thesis using d r
      by (cases ws) (auto simp: drained_def resume_def go_def all_returned_def split: if_splits)
  qed (use na d r in \<open>auto simp: drained_def resume_def lock_mutex_def go_def all_returned_def split: if_splits\<close>)
qed

lemma drained_step:
  assumes inv: "pool_inv s" and d: "drained t s" and "pool_step body s s'"
  shows "drained t s'"
  using assms(3)
proof cases
  case (call_stop u)
  then show ?thesis using d by (auto simp: drained_def stop_def go_def all_returned_def)
next
  case other
  then show ?thesis
  proof cases
    case (work i)
    then show ?thesis using d
      by (auto simp: drained_def execute_task_def all_returned_def nth_list_update
          split: if_splits option.splits)
  qed (use d drained_resume [OF inv d] in
      \<open>auto simp: drained_def add_task_def destroy_def go_def all_returned_def\<close>)
qed

interpretation drained: invariant_system "\<lambda>s. False" "pool_step body" "\<lambda>s. pool_inv s \<and> drained t s"
  by unfold_locales (auto intro: drained_step stop_pool.inv_step)

text \<open>
  C16: A call of \<open>stop\<close> that no \<open>add_task\<close> overlaps does what it promises: when it has
  returned, every thread the pool ever started has returned, \<open>workers_\<close> is empty and no later
  \<open>add_task\<close> is accepted, whatever the other threads do.
\<close>

theorem stop_leaves_no_thread:
  assumes "pool_reach body s" and "callers s t = Stop_Stored" and "\<forall>u. \<not> adding (callers s u)"
    and "\<not> is_running s" and "(pool_step body)\<^sup>*\<^sup>* s s'" and "\<not> stopping (callers s' t)"
  shows "all_returned s' \<and> workers s' = [] \<and>
    (\<forall>u q. add_task u q s' = s'\<lparr>answers := answers s' @ [(u, False)]\<rparr>)"
proof -
  have "pool_inv s \<and> drained t s"
    using assms stop_pool.reach_inv [of body s] by (simp add: drained_def)
  with assms(5) have "drained t s'" using drained.steps_inv by blast
  with assms(6) show ?thesis by (simp add: drained_def add_task_def)
qed

text \<open>The two threads of the example's \<open>main\<close>, after the second call of \<open>add_task\<close>.\<close>

definition main_running :: "nat stop_pool" where
  "main_running = pool_instance\<lparr>threads := [\<lparr>asked = False, running = Some 0\<rparr>, \<lparr>asked = False, running = Some 0\<rparr>],
     workers := [0, 1], answers := [(0, True), (0, True)]\<rparr>"

fun resumes :: "nat list \<Rightarrow> 'q stop_pool \<Rightarrow> 'q stop_pool option" where
  "resumes [] s = Some s"
| "resumes (t # ts) s = Option.bind (resume t s) (resumes ts)"

lemma resumes_steps: "resumes ts s = Some s' \<Longrightarrow> (other_step body)\<^sup>*\<^sup>* s s'"
  by (induction ts arbitrary: s)
    (auto split: bind_splits intro: converse_rtranclp_into_rtranclp other_step.resume)

lemma other_steps: "(other_step body)\<^sup>*\<^sup>* s s' \<Longrightarrow> (pool_step body)\<^sup>*\<^sup>* s s'"
  by (induction rule: rtranclp_induct) (auto intro: rtranclp.rtrancl_into_rtrancl pool_step.other)

lemma reach_resumes: "pool_reach body s \<Longrightarrow> resumes ts s = Some s' \<Longrightarrow> pool_reach body s'"
  using reach_steps [OF other_steps [OF resumes_steps]] .

lemma reach_add: "pool_reach body s \<Longrightarrow> callers s t = Idle \<Longrightarrow> pool_reach body (add_task t q s)"
  by (meson other_step.add pool_step.other reach_step)

lemma reach_stop: "pool_reach body s \<Longrightarrow> callers s t = Idle \<Longrightarrow> pool_reach body (stop t s)"
  by (meson pool_step.call_stop reach_step)

lemma reach_instance: "pool_reach body pool_instance"
  by (rule reach_init) simp

lemma instance_idle [simp]: "callers pool_instance t = Idle"
  by (simp add: pool_instance_def)

lemmas pool_ops = add_task_def stop_def destroy_def resume_def lock_mutex_def go_def pool_instance_def

lemma main_running_reach: "pool_reach test_stop_token main_running"
proof -
  let ?one = "pool_instance\<lparr>threads := [\<lparr>asked = False, running = Some (0 :: nat)\<rparr>], workers := [0], answers := [(0, True)]\<rparr>"
  have "resumes [0, 0] (add_task 0 0 pool_instance) = Some ?one"
    by (simp add: pool_ops fun_upd_idem)
  then have "pool_reach test_stop_token ?one"
    by (rule reach_resumes [OF reach_add [OF reach_instance instance_idle]])
  moreover have "resumes [0, 0] (add_task 0 0 ?one) = Some main_running"
    by (simp add: pool_ops main_running_def fun_upd_idem)
  ultimately show ?thesis
    using reach_resumes [OF reach_add] by (fastforce simp: pool_instance_def)
qed

theorem stop_leaves_no_thread_witness:
  "\<exists>s'. (pool_step test_stop_token)\<^sup>*\<^sup>* (stop 0 main_running) s' \<and> stops s' = 1 \<and> all_returned s' \<and> workers s' = []"
proof -
  let ?done = "[\<lparr>asked = True, running = None\<rparr>, \<lparr>asked = True, running = None\<rparr>] :: nat pool_thread list"
  obtain s1 where s1: "resumes [0, 0] (stop 0 main_running) = Some s1"
    and t1: "s1 = (stop 0 main_running)\<lparr>callers := (\<lambda>_. Idle)(0 := Stop_Join 0 [1]), workers_mutex := Some 0,
      threads := [\<lparr>asked = True, running = Some 0\<rparr>, \<lparr>asked = False, running = Some 0\<rparr>]\<rparr>"
    by (simp add: pool_ops main_running_def)
  obtain s2 where s2: "execute_task test_stop_token 0 s1 = Some s2"
    and t2: "s2 = s1\<lparr>threads := [\<lparr>asked = True, running = None\<rparr>, \<lparr>asked = False, running = Some 0\<rparr>]\<rparr>"
    by (simp add: t1 execute_task_def test_stop_token_def)
  obtain s3 where s3: "resumes [0, 0] s2 = Some s3"
    and t3: "s3 = s2\<lparr>callers := (\<lambda>_. Idle)(0 := Stop_Join 1 []), threads := [\<lparr>asked = True, running = None\<rparr>, \<lparr>asked = True, running = Some 0\<rparr>]\<rparr>"
    by (simp add: t2 t1 pool_ops main_running_def)
  obtain s4 where s4: "execute_task test_stop_token 1 s3 = Some s4" and t4: "s4 = s3\<lparr>threads := ?done\<rparr>"
    by (simp add: t3 execute_task_def test_stop_token_def)
  obtain s5 where s5: "resumes [0, 0] s4 = Some s5" and c5: "callers s5 0 = Idle" "stops s5 = 1"
    by (simp add: t4 t3 t2 t1 pool_ops main_running_def)
  have "(other_step test_stop_token)\<^sup>*\<^sup>* (stop 0 main_running) s5"
    using resumes_steps [OF s1] other_step.work [OF s2] resumes_steps [OF s3] other_step.work [OF s4]
      resumes_steps [OF s5] by (meson rtranclp.rtrancl_into_rtrancl rtranclp_trans)
  then have run: "(pool_step test_stop_token)\<^sup>*\<^sup>* (stop 0 main_running) s5" by (rule other_steps)
  have "pool_reach test_stop_token (stop 0 main_running)"
    by (rule reach_stop [OF main_running_reach]) (simp add: main_running_def pool_instance_def)
  from stop_leaves_no_thread [OF this _ _ _ run, of 0] c5 run show ?thesis
    by (auto simp: stop_def go_def main_running_def pool_instance_def)
qed

section \<open>A task that is added too late\<close>

text \<open>Thread 0 runs, has not been asked to stop, and no call of \<open>stop\<close> is going on.\<close>

definition overlooked :: "'q stop_pool \<Rightarrow> bool" where
  "overlooked s \<longleftrightarrow> threads s \<noteq> [] \<and> running (threads s ! 0) \<noteq> None \<and> \<not> asked (threads s ! 0) \<and>
     0 \<in> set (workers s) \<and>
     (\<forall>u. \<not> stopping (callers s u) \<and> callers s u \<noteq> Exited \<and>
        (\<forall>ws. callers s u = Exit_Join ws \<longrightarrow> 0 \<in> set ws))"

lemma overlooked_resume:
  assumes o: "overlooked s" and r: "resume u s = Some s'"
  shows "overlooked s'"
proof -
  have c: "\<not> stopping (callers s u)" "callers s u \<noteq> Exited"
    "callers s u = Exit_Join ws \<Longrightarrow> 0 \<in> set ws" for ws
    using o by (auto simp: overlooked_def)
  show ?thesis
  proof (cases "callers s u")
    case (Exit_Join ws)
    then show ?thesis using r o c
      by (cases ws) (auto simp: resume_def go_def overlooked_def split: if_splits)
  qed (use r o c in \<open>auto simp: resume_def lock_mutex_def go_def overlooked_def nth_append split: if_splits\<close>)
qed

lemma overlooked_step:
  assumes never: "\<forall>q. body q False \<noteq> None" and o: "overlooked s" and "other_step body s s'"
  shows "overlooked s'"
  using assms(3)
proof cases
  case (work i)
  then show ?thesis using o never
    by (auto simp: execute_task_def overlooked_def nth_list_update split: if_splits option.splits)
qed (use o overlooked_resume [OF o] in \<open>auto simp: add_task_def destroy_def go_def overlooked_def\<close>)

lemma overlooked_steps:
  assumes "\<forall>q. body q False \<noteq> None" and "overlooked s" and "(other_step body)\<^sup>*\<^sup>* s s'"
  shows "overlooked s'"
  using assms(3,2) by (induction rule: rtranclp_induct) (auto intro: overlooked_step [where body = body, OF assms(1)])

text \<open>
  The check of \<open>is_running_\<close> in \<open>add_task\<close> is made before the mutex is taken, so a call of
  \<open>stop\<close> can come and go in between: there is a run in which \<open>stop\<close> has returned, \<open>add_task\<close>
  then accepts the task, and, unless \<open>stop\<close> is called a second time, the task is never asked to
  stop. If it runs until it is asked, as \<open>test_stop_token\<close> does, its thread never ends and
  the destructor of the pool, at the end of the program, never returns.
\<close>

theorem late_task_never_asked:
  assumes "\<forall>q. body q False \<noteq> None"
  shows "\<exists>s. pool_reach body s \<and> stops s = 1 \<and> answers s = [(0, True)] \<and> threads s = [\<lparr>asked = False, running = Some q\<rparr>] \<and>
    (\<forall>s'. (other_step body)\<^sup>*\<^sup>* s s' \<longrightarrow>
       running (threads s' ! 0) \<noteq> None \<and> \<not> asked (threads s' ! 0) \<and> (\<forall>t. callers s' t \<noteq> Exited))"
proof -
  let ?a = "add_task 0 q pool_instance"
  let ?s = "pool_instance\<lparr>is_running := False, threads := [\<lparr>asked = False, running = Some q\<rparr>], workers := [0],
    answers := [(0, True)], stops := 1\<rparr>"
  have "pool_reach body (stop 1 ?a)"
    by (intro reach_stop reach_add reach_instance) (simp_all add: pool_ops)
  moreover have "resumes [1, 1, 0, 0] (stop 1 ?a) = Some ?s"
    by (simp add: pool_ops fun_eq_iff)
  ultimately have "pool_reach body ?s" by (rule reach_resumes)
  moreover have o: "overlooked ?s" by (simp add: overlooked_def)
  have "running (threads s' ! 0) \<noteq> None \<and> \<not> asked (threads s' ! 0) \<and> (\<forall>t. callers s' t \<noteq> Exited)"
    if "(other_step body)\<^sup>*\<^sup>* ?s s'" for s'
    using overlooked_steps [OF assms o that] by (simp add: overlooked_def)
  ultimately show ?thesis by (intro exI [of _ ?s]) simp
qed

theorem late_task_never_asked_witness:
  "\<exists>s. pool_reach test_stop_token s \<and> stops s = 1 \<and> answers s = [(0, True)] \<and>
    running (threads s ! 0) \<noteq> None \<and> \<not> asked (threads s ! 0)"
proof -
  have "\<forall>q. test_stop_token q False \<noteq> None" by (simp add: test_stop_token_def)
  from late_task_never_asked [of test_stop_token 0, OF this] show ?thesis by blast
qed

section \<open>How stop proceeds\<close>

text \<open>A task that returns once it has been asked: \<open>rank\<close> bounds the steps it still makes.\<close>

definition obeys :: "('q \<Rightarrow> bool \<Rightarrow> 'q option) \<Rightarrow> ('q \<Rightarrow> nat) \<Rightarrow> bool" where
  "obeys body rank \<longleftrightarrow> (\<forall>q. case body q True of None \<Rightarrow> True | Some q' \<Rightarrow> rank q' < rank q)"

lemma asked_returns:
  assumes "obeys body rank" and "i < length (threads s)" and "asked (threads s ! i)"
  shows "\<exists>w. (other_step body)\<^sup>*\<^sup>* s (s\<lparr>threads := (threads s)[i := w]\<rparr>) \<and> running w = None"
proof (cases "running (threads s ! i)")
  case None
  then show ?thesis by (intro exI [of _ "threads s ! i"]) simp
next
  case (Some q)
  then show ?thesis using assms(2,3)
  proof (induction "rank q" arbitrary: q s rule: less_induct)
    case less
    let ?w = "(threads s ! i)\<lparr>running := body q True\<rparr>"
    let ?s = "s\<lparr>threads := (threads s)[i := ?w]\<rparr>"
    have st: "other_step body s ?s"
      using less.prems by (intro other_step.work [of _ i]) (simp add: execute_task_def)
    show ?case
    proof (cases "body q True")
      case None
      then show ?thesis using st by (intro exI [of _ ?w]) auto
    next
      case (Some q')
      then have "rank q' < rank q" using assms(1) by (metis (mono_tags, lifting) obeys_def option.simps(5))
      from less.hyps [OF this, of ?s] Some less.prems obtain w where
        "(other_step body)\<^sup>*\<^sup>* ?s (?s\<lparr>threads := (threads ?s)[i := w]\<rparr>)" "running w = None" by auto
      then show ?thesis using st by (intro exI [of _ w]) (auto intro: converse_rtranclp_into_rtranclp)
    qed
  qed
qed

lemma loop_returns:
  assumes ob: "obeys body rank"
  shows "callers s t = Stop_Loop ws \<Longrightarrow> set ws \<subseteq> {..<length (threads s)} \<Longrightarrow>
    \<exists>s'. (other_step body)\<^sup>*\<^sup>* s s' \<and> callers s' = (callers s)(t := Idle) \<and> workers_mutex s' = None \<and>
      stops s' = Suc (stops s)"
proof (induction ws arbitrary: s)
  case Nil
  then have "resume t s = Some (go t Idle (s\<lparr>workers := [], workers_mutex := None, stops := Suc (stops s)\<rparr>))"
    by (simp add: resume_def)
  from r_into_rtranclp [of "other_step body", OF other_step.resume [OF this]] show ?case
    by (rule_tac exI) (auto simp: go_def)
next
  case (Cons w ws)
  let ?a = "go t (Stop_Join w ws) (s\<lparr>threads := (threads s)[w := (threads s ! w)\<lparr>asked := True\<rparr>]\<rparr>)"
  have a: "other_step body s ?a" using Cons.prems by (intro other_step.resume [of t]) (simp add: resume_def)
  obtain x where x: "(other_step body)\<^sup>*\<^sup>* ?a (?a\<lparr>threads := (threads ?a)[w := x]\<rparr>)" "running x = None"
    using asked_returns [OF ob, of w ?a] Cons.prems by (auto simp: go_def)
  let ?b = "?a\<lparr>threads := (threads ?a)[w := x]\<rparr>"
  have b: "other_step body ?b (go t (Stop_Loop ws) ?b)"
    using Cons.prems x(2) by (intro other_step.resume [of t]) (simp add: resume_def go_def)
  have "\<exists>s'. (other_step body)\<^sup>*\<^sup>* (go t (Stop_Loop ws) ?b) s' \<and>
      callers s' = (callers (go t (Stop_Loop ws) ?b))(t := Idle) \<and> workers_mutex s' = None \<and>
      stops s' = Suc (stops (go t (Stop_Loop ws) ?b))"
    using Cons.prems by (intro Cons.IH) (auto simp: go_def)
  then obtain s' where "(other_step body)\<^sup>*\<^sup>* (go t (Stop_Loop ws) ?b) s'" "callers s' = (callers s)(t := Idle)"
    "workers_mutex s' = None" "stops s' = Suc (stops s)" by (auto simp: go_def)
  then show ?case using a b x(1)
    by (meson converse_rtranclp_into_rtranclp rtranclp_trans)
qed

lemma holding_stop_returns:
  assumes ob: "obeys body rank" and inv: "pool_inv s" and st: "stopping (callers s t)" and h: "holds (callers s t)"
  shows "\<exists>s'. (other_step body)\<^sup>*\<^sup>* s s' \<and> callers s' = (callers s)(t := Idle) \<and> workers_mutex s' = None \<and>
    stops s' = Suc (stops s)"
proof (cases "callers s t")
  case (Stop_Loop ws)
  then show ?thesis
    using loop_returns [OF ob Stop_Loop] inv holder_Some [OF inv h] by (simp add: pool_inv_def)
next
  case (Stop_Join w ws)
  have w: "w < length (threads s)" "asked (threads s ! w)" "set ws \<subseteq> {..<length (threads s)}"
    using inv holder_Some [OF inv h] Stop_Join by (auto simp: pool_inv_def)
  obtain x where x: "(other_step body)\<^sup>*\<^sup>* s (s\<lparr>threads := (threads s)[w := x]\<rparr>)" "running x = None"
    using asked_returns [OF ob w(1,2)] by blast
  let ?b = "s\<lparr>threads := (threads s)[w := x]\<rparr>"
  have b: "other_step body ?b (go t (Stop_Loop ws) ?b)"
    using Stop_Join x(2) w by (intro other_step.resume [of t]) (simp add: resume_def go_def)
  have "\<exists>s'. (other_step body)\<^sup>*\<^sup>* (go t (Stop_Loop ws) ?b) s' \<and>
      callers s' = (callers (go t (Stop_Loop ws) ?b))(t := Idle) \<and> workers_mutex s' = None \<and>
      stops s' = Suc (stops (go t (Stop_Loop ws) ?b))"
    using w by (intro loop_returns [OF ob]) (auto simp: go_def)
  then obtain s' where "(other_step body)\<^sup>*\<^sup>* (go t (Stop_Loop ws) ?b) s'" "callers s' = (callers s)(t := Idle)"
    "workers_mutex s' = None" "stops s' = Suc (stops s)" by (auto simp: go_def)
  then show ?thesis using x(1) b by (meson converse_rtranclp_into_rtranclp rtranclp_trans)
qed (use st h in auto)

lemma mutex_is_freed:
  assumes ob: "obeys body rank" and inv: "pool_inv s" and idle: "\<not> holds (callers s t)"
  shows "\<exists>s'. (other_step body)\<^sup>*\<^sup>* s s' \<and> callers s' t = callers s t \<and> workers_mutex s' = None \<and> stops s \<le> stops s'"
proof (cases "workers_mutex s")
  case (Some u)
  then have h: "holds (callers s u)" and ut: "u \<noteq> t" using inv idle by (auto simp: pool_inv_def)
  show ?thesis
  proof (cases "stopping (callers s u)")
    case True
    from holding_stop_returns [OF ob inv True h] ut show ?thesis by fastforce
  next
    case False
    then obtain q where "callers s u = Add_Locked q" using h by (cases "callers s u") auto
    then have "other_step body s (go u Idle (s\<lparr>threads := threads s @ [\<lparr>asked = False, running = Some q\<rparr>],
        workers := workers s @ [length (threads s)], workers_mutex := None, answers := answers s @ [(u, True)]\<rparr>))"
      by (intro other_step.resume [of u]) (simp add: resume_def)
    from r_into_rtranclp [of "other_step body", OF this] ut show ?thesis
      by (rule_tac exI) (auto simp: go_def)
  qed
qed auto

text \<open>
  How \<open>stop\<close> proceeds. It asks a thread only when every thread started before it has
  returned, so the time it takes is the sum of what the tasks need one after the other; and
  if every task returns within boundedly many of its steps once it is asked, a call of \<open>stop\<close> in
  any reachable state can run to its end: it is never deadlocked.
\<close>

theorem stop_asks_one_by_one:
  assumes reach: "pool_reach body s" and ob: "obeys body rank"
  shows "(\<forall>i j. i < j \<and> j < length (threads s) \<and> asked (threads s ! j) \<longrightarrow> running (threads s ! i) = None) \<and>
    (stopping (callers s t) \<longrightarrow>
      (\<exists>s'. (other_step body)\<^sup>*\<^sup>* s s' \<and> callers s' t = Idle \<and> stops s < stops s'))"
proof (intro conjI impI allI)
  have inv: "pool_inv s" using stop_pool.reach_inv [OF reach] .
  fix i j assume ij: "i < j \<and> j < length (threads s) \<and> asked (threads s ! j)"
  then have "\<forall>k \<in> set (unjoined (holder s) (workers s)). j \<le> k"
    and "running (threads s ! i) \<noteq> None \<longrightarrow> i \<in> set (unjoined (holder s) (workers s))"
    using inv unfolding pool_inv_def by simp_all
  with ij show "running (threads s ! i) = None" by (meson not_le)
next
  assume st: "stopping (callers s t)"
  have inv: "pool_inv s" using stop_pool.reach_inv [OF reach] .
  show "\<exists>s'. (other_step body)\<^sup>*\<^sup>* s s' \<and> callers s' t = Idle \<and> stops s < stops s'"
  proof (cases "holds (callers s t)")
    case True
    from holding_stop_returns [OF ob inv st True] show ?thesis by fastforce
  next
    case False
    then have c: "callers s t = Stop_Stored" using st by (cases "callers s t") auto
    obtain u where u: "(other_step body)\<^sup>*\<^sup>* s u" "callers u t = Stop_Stored" "workers_mutex u = None" "stops s \<le> stops u"
      using mutex_is_freed [OF ob inv False] c by auto
    let ?v = "go t (Stop_Loop (workers u)) (u\<lparr>workers_mutex := Some t\<rparr>)"
    have uv: "other_step body u ?v" using u by (intro other_step.resume [of t]) (simp add: resume_def lock_mutex_def)
    have "pool_inv ?v"
      using stop_pool.steps_inv [OF other_steps [OF rtranclp.rtrancl_into_rtrancl [OF u(1) uv]] inv] .
    from holding_stop_returns [OF ob this, of t] obtain s' where
      "(other_step body)\<^sup>*\<^sup>* ?v s'" "callers s' t = Idle" "stops s' = Suc (stops u)" by (auto simp: go_def)
    moreover have "(other_step body)\<^sup>*\<^sup>* s ?v" using u(1) uv by (rule rtranclp.rtrancl_into_rtrancl)
    ultimately show ?thesis using u(4) by (intro exI [of _ s']) (simp add: rtranclp_trans)
  qed
qed

theorem stop_asks_one_by_one_witness:
  "\<exists>s'. (other_step test_stop_token)\<^sup>*\<^sup>* (stop 0 main_running) s' \<and> callers s' 0 = Idle \<and> 0 < stops s'"
proof -
  have "obeys test_stop_token (\<lambda>n. n)" by (simp add: obeys_def test_stop_token_def)
  moreover have "pool_reach test_stop_token (stop 0 main_running)"
    by (rule reach_stop [OF main_running_reach]) (simp add: main_running_def)
  moreover have "stopping (callers (stop 0 main_running) 0)" "stops (stop 0 main_running) = 0"
    by (simp_all add: stop_def go_def main_running_def pool_instance_def)
  ultimately show ?thesis
    using stop_asks_one_by_one [of test_stop_token "stop 0 main_running" "\<lambda>n. n" 0] by simp
qed

end
