(* ===== verification/Concurrent_Queues.thy ===== *)
theory Concurrent_Queues
  imports Object_Pool
begin

text \<open>
  The demonstrations of \<open>src/cpp_test/iceoryx/009.concurrent\<close>: lock-free queues with a fixed
  and a changeable capacity, a free list of indices, a queue for one producer and one consumer
  that refuses when full, and one that overwrites its oldest element. The containers are
  iceoryx code: arguments of the definitions, with a law that says what their documentation
  says in terms of the list of elements and the capacity. One call of an operation of a
  container is one step of a thread.
\<close>

section \<open>Queues\<close>

text \<open>The elements, oldest first, and the capacity.\<close>

type_synonym queue_view = "int list \<times> nat"

record 'q queue_ops =
  q_new :: "nat \<Rightarrow> 'q"
  q_tryPush :: "int \<Rightarrow> 'q \<Rightarrow> bool \<times> 'q"
  q_push :: "int \<Rightarrow> 'q \<Rightarrow> int option \<times> 'q"
  q_pop :: "'q \<Rightarrow> int option \<times> 'q"
  q_capacity :: "'q \<Rightarrow> nat"
  q_size :: "'q \<Rightarrow> nat"
  q_empty :: "'q \<Rightarrow> bool"
  q_setCapacity :: "nat \<Rightarrow> 'q \<Rightarrow> (bool \<times> int list) \<times> 'q"
  q_view :: "'q \<Rightarrow> queue_view"

text \<open>
  \<open>tryPush\<close> refuses when the queue is full, \<open>push\<close> makes room by taking out the oldest element
  and returns it, \<open>pop\<close> takes the oldest element. \<open>setCapacity\<close>, of the resizeable queue only,
  hands what has to go to its second argument, oldest first; \<open>max_cap\<close> is the largest
  capacity of the queue.
\<close>

fun v_tryPush :: "int \<Rightarrow> queue_view \<Rightarrow> bool \<times> queue_view" where
  "v_tryPush x (xs, c) = (if length xs < c then (True, (xs @ [x], c)) else (False, (xs, c)))"

fun v_push :: "int \<Rightarrow> queue_view \<Rightarrow> int option \<times> queue_view" where
  "v_push x (xs, c) =
     (if length xs < c then (None, (xs @ [x], c)) else (Some (hd (xs @ [x])), (tl (xs @ [x]), c)))"

fun v_pop :: "queue_view \<Rightarrow> int option \<times> queue_view" where
  "v_pop ([], c) = (None, ([], c))"
| "v_pop (x # xs, c) = (Some x, (xs, c))"

fun v_setCapacity :: "nat \<Rightarrow> nat \<Rightarrow> queue_view \<Rightarrow> (bool \<times> int list) \<times> queue_view" where
  "v_setCapacity max_cap n (xs, c) =
     (if n \<le> max_cap then ((True, take (length xs - n) xs), (drop (length xs - n) xs, n))
      else ((False, []), (xs, c)))"

definition view_queue :: "nat \<Rightarrow> queue_view queue_ops" where
  "view_queue max_cap = \<lparr>q_new = (\<lambda>n. ([], n)), q_tryPush = v_tryPush, q_push = v_push, q_pop = v_pop, q_capacity = snd,
     q_size = (\<lambda>v. length (fst v)), q_empty = (\<lambda>v. fst v = []), q_setCapacity = v_setCapacity max_cap,
     q_view = (\<lambda>v. v)\<rparr>"

definition queue_laws :: "nat \<Rightarrow> 'q queue_ops \<Rightarrow> bool" where
  "queue_laws max_cap qo \<longleftrightarrow>
     (\<forall>n. q_view qo (q_new qo n) = ([], n)) \<and>
     (\<forall>x q. map_prod id (q_view qo) (q_tryPush qo x q) = v_tryPush x (q_view qo q)) \<and>
     (\<forall>x q. map_prod id (q_view qo) (q_push qo x q) = v_push x (q_view qo q)) \<and>
     (\<forall>q. map_prod id (q_view qo) (q_pop qo q) = v_pop (q_view qo q)) \<and>
     (\<forall>q. q_capacity qo q = snd (q_view qo q)) \<and>
     (\<forall>q. q_size qo q = length (fst (q_view qo q))) \<and>
     (\<forall>q. q_empty qo q \<longleftrightarrow> fst (q_view qo q) = []) \<and>
     (\<forall>n q. map_prod id (q_view qo) (q_setCapacity qo n q) = v_setCapacity max_cap n (q_view qo q))"

lemma view_queue_laws: "queue_laws max_cap (view_queue max_cap)"
  by (simp add: queue_laws_def view_queue_def prod.map_ident id_def)

section \<open>The queue with a fixed capacity\<close>

definition try_line :: "int \<Rightarrow> bool \<Rightarrow> string" where
  "try_line i ok = ''tryPush('' @ to_string i @ '') -> '' @ (if ok then ''ok'' else ''full/failed'')"

definition pop_line :: "int \<Rightarrow> string" where
  "pop_line v = ''pop -> '' @ to_string v"

text \<open>The loops \<open>for (i = ...) tryPush(i)\<close>, with and without a message.\<close>

fun try_pushes :: "'q queue_ops \<Rightarrow> int list \<Rightarrow> console \<times> 'q \<Rightarrow> console \<times> 'q" where
  "try_pushes qo [] s = s"
| "try_pushes qo (i # is) (out, q) =
     (let (ok, q') = q_tryPush qo i q in try_pushes qo is (out @ [try_line i ok], q'))"

fun fill :: "'q queue_ops \<Rightarrow> int list \<Rightarrow> 'q \<Rightarrow> 'q" where
  "fill qo [] q = q"
| "fill qo (i # is) q = fill qo is (snd (q_tryPush qo i q))"

text \<open>The loop that pops until \<open>nullopt\<close>; \<open>None\<close>: not at an end after \<open>fuel\<close> rounds.\<close>

fun pop_all :: "'q queue_ops \<Rightarrow> nat \<Rightarrow> console \<times> 'q \<Rightarrow> (console \<times> 'q) option" where
  "pop_all qo 0 s = None"
| "pop_all qo (Suc fuel) (out, q) =
     (case q_pop qo q of
        (None, q') \<Rightarrow> Some (out, q')
      | (Some v, q') \<Rightarrow> pop_all qo fuel (out @ [pop_line v], q'))"

text \<open>The part of \<open>demo_mpmc_lockfree_queue\<close> with one thread.\<close>

definition evicted_lines :: "int \<Rightarrow> int option \<Rightarrow> console" where
  "evicted_lines i r =
     (case r of None \<Rightarrow> [] | Some v \<Rightarrow> [''push('' @ to_string i @ '') evicted -> '' @ to_string v])"

definition demo_mpmc_lockfree_queue :: "'q queue_ops \<Rightarrow> nat \<Rightarrow> console option" where
  "demo_mpmc_lockfree_queue qo fuel =
     (let q0 = q_new qo 4;
          out0 = [''capacity='' @ show_nat (q_capacity qo q0) @ '', empty='' @ (if q_empty qo q0 then ''1'' else ''0'')];
          (out1, q1) = try_pushes qo [0, 1, 2, 3, 4, 5] (out0, q0);
          out2 = out1 @ [''size='' @ show_nat (q_size qo q1)]
      in case pop_all qo fuel (out2, q1) of
           None \<Rightarrow> None
         | Some (out3, q2) \<Rightarrow>
             (let q3 = fill qo [10, 11, 12, 13] q2;
                  (evicted, q4) = q_push qo 99 q3
              in map_option fst (pop_all qo fuel (out3 @ evicted_lines 99 evicted, q4))))"

text \<open>\<open>demo_mpmc_resizeable_queue\<close>; the queue has a largest capacity of 8.\<close>

definition set_line :: "nat \<Rightarrow> bool \<Rightarrow> string" where
  "set_line n ok = ''setCapacity('' @ show_nat n @ '') -> '' @ (if ok then ''ok'' else ''fail'')"

definition demo_mpmc_resizeable_queue :: "'q queue_ops \<Rightarrow> nat \<Rightarrow> console option" where
  "demo_mpmc_resizeable_queue qo fuel =
     (let q0 = q_new qo 4;
          out0 = [''maxCapacity=8, capacity='' @ show_nat (q_capacity qo q0)];
          q1 = fill qo [0, 1, 2, 3] q0;
          out1 = out0 @ [''size after 4 pushes = '' @ show_nat (q_size qo q1)];
          ((ok2, gone2), q2) = q_setCapacity qo 8 q1;
          out2 = out1 @ [set_line 8 ok2 @ '', capacity='' @ show_nat (q_capacity qo q2)];
          q3 = fill qo [4, 5, 6, 7] q2;
          out3 = out2 @ [''size after 8 pushes = '' @ show_nat (q_size qo q3)];
          ((ok4, gone4), q4) = q_setCapacity qo 3 q3;
          out4 = out3 @ map (\<lambda>v. ''  evicted on resize: '' @ to_string v) gone4 @
            [set_line 3 ok4 @ '', capacity='' @ show_nat (q_capacity qo q4) @ '', size='' @ show_nat (q_size qo q4)]
      in map_option fst (pop_all qo fuel (out4, q4)))"

text \<open>Any queue that keeps the laws behaves in the demonstrations like its view.\<close>

locale lawful_queue =
  fixes max_cap :: nat
    and qo :: "'q queue_ops"
  assumes queue_laws: "queue_laws max_cap qo"
begin

abbreviation view :: "'q \<Rightarrow> queue_view" where "view \<equiv> q_view qo"
abbreviation vo :: "queue_view queue_ops" where "vo \<equiv> view_queue max_cap"

lemma qv_new: "view (q_new qo n) = ([], n)"
  and qv_tryPush: "map_prod id view (q_tryPush qo x q) = v_tryPush x (view q)"
  and qv_push: "map_prod id view (q_push qo x q) = v_push x (view q)"
  and qv_pop: "map_prod id view (q_pop qo q) = v_pop (view q)"
  and qv_setCapacity: "map_prod id view (q_setCapacity qo n q) = v_setCapacity max_cap n (view q)"
  and qv_reads [simp]: "q_capacity qo q = snd (view q)" "q_size qo q = length (fst (view q))"
    "q_empty qo q \<longleftrightarrow> fst (view q) = []"
  using queue_laws by (simp_all add: queue_laws_def)

lemma qv_results:
  "q_tryPush qo x q = (b, q') \<Longrightarrow> v_tryPush x (view q) = (b, view q')"
  "q_push qo x q = (r, q') \<Longrightarrow> v_push x (view q) = (r, view q')"
  "q_pop qo q = (r, q') \<Longrightarrow> v_pop (view q) = (r, view q')"
  "q_setCapacity qo n q = (p, q') \<Longrightarrow> v_setCapacity max_cap n (view q) = (p, view q')"
  using qv_tryPush [of x q] qv_push [of x q] qv_pop [of q] qv_setCapacity [of n q] by simp_all

lemma qv_fill: "view (fill qo is q) = fill vo is (view q)"
proof (induction "is" arbitrary: q)
  case (Cons i "is")
  have "snd (v_tryPush i (view q)) = view (snd (q_tryPush qo i q))"
    by (metis prod.collapse snd_conv qv_results(1))
  with Cons show ?case by (simp add: view_queue_def)
qed simp

lemma qv_try_pushes:
  "map_prod id view (try_pushes qo is (out, q)) = try_pushes vo is (out, view q)"
proof (induction "is" arbitrary: out q)
  case (Cons i "is")
  obtain b q' where r: "q_tryPush qo i q = (b, q')" by fastforce
  with Cons qv_results(1) [OF r] show ?case by (simp add: view_queue_def)
qed simp

lemma qv_pop_all:
  "map_option (map_prod id view) (pop_all qo fuel (out, q)) = pop_all vo fuel (out, view q)"
proof (induction fuel arbitrary: out q)
  case (Suc fuel)
  obtain r q' where r: "q_pop qo q = (r, q')" by fastforce
  have "q_pop vo (view q) = (r, view q')" using qv_results(3) [OF r] by (simp add: view_queue_def)
  then show ?case using Suc r by (simp split: option.split)
qed simp

lemma qv_pop_all_fst: "map_option fst (pop_all qo fuel (out, q)) = map_option fst (pop_all vo fuel (out, view q))"
  using qv_pop_all [of fuel out q, symmetric] by (simp add: option.map_comp comp_def)

lemma demo_mpmc_view: "demo_mpmc_lockfree_queue qo fuel = demo_mpmc_lockfree_queue vo fuel"
proof -
  let ?out0 = "[''capacity='' @ show_nat 4 @ '', empty='' @ ''1'']"
  obtain out1 q1 where q1: "try_pushes qo [0, 1, 2, 3, 4, 5] (?out0, q_new qo 4) = (out1, q1)" by fastforce
  have v1: "try_pushes vo [0, 1, 2, 3, 4, 5] (?out0, ([], 4)) = (out1, view q1)"
    using qv_try_pushes [of "[0, 1, 2, 3, 4, 5]" ?out0 "q_new qo 4"] unfolding q1 qv_new by simp
  let ?out2 = "out1 @ [''size='' @ show_nat (length (fst (view q1)))]"
  have c: "q_capacity qo (q_new qo 4) = 4" "q_empty qo (q_new qo 4) = True" by (simp_all add: qv_new)
  have reads: "q_capacity vo v = snd v" "q_size vo v = length (fst v)" "q_new vo n = ([], n)" "q_empty vo v = (fst v = [])" for v n
    by (simp_all add: view_queue_def)
  note start = demo_mpmc_lockfree_queue_def Let_def reads c prod.sel simp_thms if_True q1 v1 prod.case qv_reads(2)
  show ?thesis
  proof (cases "pop_all qo fuel (?out2, q1)")
    case None
    then have v: "pop_all vo fuel (?out2, view q1) = None" using qv_pop_all [of fuel ?out2 q1] by simp
    show ?thesis unfolding start None v option.case by simp
  next
    case (Some r)
    obtain out3 q2 where r: "r = (out3, q2)" by (cases r)
    obtain e q4 where e: "q_push qo 99 (fill qo [10, 11, 12, 13] q2) = (e, q4)" by fastforce
    have "v_push 99 (fill vo [10, 11, 12, 13] (view q2)) = (e, view q4)"
      using qv_results(2) [OF e] unfolding qv_fill .
    then have e': "q_push vo 99 (fill vo [10, 11, 12, 13] (view q2)) = (e, view q4)" by (simp add: view_queue_def)
    have v: "pop_all vo fuel (?out2, view q1) = Some (out3, view q2)"
      using qv_pop_all [of fuel ?out2 q1] Some r by simp
    show ?thesis unfolding start Some r v option.case prod.case e e' qv_pop_all_fst by simp
  qed
qed

lemma demo_resizeable_view: "demo_mpmc_resizeable_queue qo fuel = demo_mpmc_resizeable_queue vo fuel"
proof -
  let ?q1 = "fill qo [0, 1, 2, 3] (q_new qo 4)"
  obtain ok2 g2 q2 where q2: "q_setCapacity qo 8 ?q1 = ((ok2, g2), q2)" by (metis prod.exhaust)
  let ?q3 = "fill qo [4, 5, 6, 7] q2"
  obtain ok4 g4 q4 where q4: "q_setCapacity qo 3 ?q3 = ((ok4, g4), q4)" by (metis prod.exhaust)
  have v1: "view ?q1 = fill vo [0, 1, 2, 3] ([], 4)" and v3: "view ?q3 = fill vo [4, 5, 6, 7] (view q2)"
    unfolding qv_fill qv_new by (rule refl)+
  have v2: "q_setCapacity vo 8 (fill vo [0, 1, 2, 3] ([], 4)) = ((ok2, g2), view q2)"
    using qv_results(4) [OF q2] v1 by (simp add: view_queue_def)
  have v4: "q_setCapacity vo 3 (fill vo [4, 5, 6, 7] (view q2)) = ((ok4, g4), view q4)"
    using qv_results(4) [OF q4] v3 by (simp add: view_queue_def)
  have reads: "q_capacity vo v = snd v" "q_size vo v = length (fst v)" "q_new vo n = ([], n)" for v n
    by (simp_all add: view_queue_def)
  show ?thesis
    unfolding demo_mpmc_resizeable_queue_def Let_def reads q2 v2 prod.case q4 v4 qv_reads v1 v3 qv_pop_all_fst qv_new
    by (rule refl)
qed

end

interpretation view_queue: lawful_queue max_cap "view_queue max_cap"
  by unfold_locales (rule view_queue_laws)

lemma pop_all_more: "pop_all qo fuel (out, q) = Some r \<Longrightarrow> pop_all qo (fuel + k) (out, q) = Some r"
proof (induction fuel arbitrary: out q)
  case (Suc fuel)
  obtain v q' where "q_pop qo q = (v, q')" by fastforce
  with Suc show ?case by (cases v) simp_all
qed simp

lemma pop_all_more_fst:
  "map_option fst (pop_all qo fuel (out, q)) = Some r \<Longrightarrow> map_option fst (pop_all qo (fuel + k) (out, q)) = Some r"
  by (auto dest: pop_all_more)

lemma demo_mpmc_more:
  assumes "demo_mpmc_lockfree_queue qo fuel = Some out"
  shows "demo_mpmc_lockfree_queue qo (fuel + k) = Some out"
proof -
  let ?out0 = "[''capacity='' @ show_nat (q_capacity qo (q_new qo 4)) @ '', empty='' @ (if q_empty qo (q_new qo 4) then ''1'' else ''0'')]"
  obtain out1 q1 where q1: "try_pushes qo [0, 1, 2, 3, 4, 5] (?out0, q_new qo 4) = (out1, q1)" by fastforce
  note d = demo_mpmc_lockfree_queue_def Let_def q1 prod.case
  obtain out3 q2 where p: "pop_all qo fuel (out1 @ [''size='' @ show_nat (q_size qo q1)], q1) = Some (out3, q2)"
    using assms unfolding d by (cases "pop_all qo fuel (out1 @ [''size='' @ show_nat (q_size qo q1)], q1)") auto
  obtain e q4 where e: "q_push qo 99 (fill qo [10, 11, 12, 13] q2) = (e, q4)" by fastforce
  show ?thesis
    using assms unfolding d p pop_all_more [OF p] option.case prod.case e by (rule pop_all_more_fst)
qed

lemma demo_resizeable_more:
  assumes "demo_mpmc_resizeable_queue qo fuel = Some out"
  shows "demo_mpmc_resizeable_queue qo (fuel + k) = Some out"
  using assms unfolding demo_mpmc_resizeable_queue_def Let_def case_prod_beta by (rule pop_all_more_fst)

text \<open>
  What the demonstrations of the two lock-free queues print, for every queue that keeps
  its documented laws: the fixed one refuses the fifth and sixth element, gives the elements
  back in order, and \<open>push\<close> on a full queue returns the oldest; the resizeable one keeps its
  elements when it grows and drops the five oldest when it shrinks. The popping loops end.
\<close>

theorem queue_demos_output:
  assumes laws: "queue_laws 8 qo" and fuel: "4 < fuel"
  shows "demo_mpmc_lockfree_queue qo fuel = Some
      ([''capacity=4, empty=1'', ''tryPush(0) -> ok'', ''tryPush(1) -> ok'', ''tryPush(2) -> ok'',
        ''tryPush(3) -> ok'', ''tryPush(4) -> full/failed'', ''tryPush(5) -> full/failed'', ''size=4''] @
       map pop_line [0, 1, 2, 3] @ [''push(99) evicted -> 10''] @ map pop_line [11, 12, 13, 99]) \<and>
    demo_mpmc_resizeable_queue qo fuel = Some
      ([''maxCapacity=8, capacity=4'', ''size after 4 pushes = 4'', ''setCapacity(8) -> ok, capacity=8'',
        ''size after 8 pushes = 8''] @ map (\<lambda>v. ''  evicted on resize: '' @ to_string v) [0, 1, 2, 3, 4] @
       [''setCapacity(3) -> ok, capacity=3, size=3''] @ map pop_line [5, 6, 7])"
proof -
  have lq: "lawful_queue 8 qo" using laws by (rule lawful_queue.intro)
  obtain k where k: "fuel = 5 + k" using fuel by (metis Suc_leI add.commute eval_nat_numeral(3) le_Suc_ex)
  have "demo_mpmc_lockfree_queue (view_queue 8) 5 = Some
      ([''capacity=4, empty=1'', ''tryPush(0) -> ok'', ''tryPush(1) -> ok'', ''tryPush(2) -> ok'',
        ''tryPush(3) -> ok'', ''tryPush(4) -> full/failed'', ''tryPush(5) -> full/failed'', ''size=4''] @
       map pop_line [0, 1, 2, 3] @ [''push(99) evicted -> 10''] @ map pop_line [11, 12, 13, 99])"
    by code_simp
  moreover have "demo_mpmc_resizeable_queue (view_queue 8) 5 = Some
      ([''maxCapacity=8, capacity=4'', ''size after 4 pushes = 4'', ''setCapacity(8) -> ok, capacity=8'',
        ''size after 8 pushes = 8''] @ map (\<lambda>v. ''  evicted on resize: '' @ to_string v) [0, 1, 2, 3, 4] @
       [''setCapacity(3) -> ok, capacity=3, size=3''] @ map pop_line [5, 6, 7])"
    by code_simp
  ultimately show ?thesis
    unfolding lawful_queue.demo_mpmc_view [OF lq] lawful_queue.demo_resizeable_view [OF lq] k
    by (intro conjI demo_mpmc_more demo_resizeable_more)
qed

theorem queue_demos_output_witness:
  "demo_mpmc_resizeable_queue (view_queue 8) 5 = Some
      ([''maxCapacity=8, capacity=4'', ''size after 4 pushes = 4'', ''setCapacity(8) -> ok, capacity=8'',
        ''size after 8 pushes = 8''] @ map (\<lambda>v. ''  evicted on resize: '' @ to_string v) [0, 1, 2, 3, 4] @
       [''setCapacity(3) -> ok, capacity=3, size=3''] @ map pop_line [5, 6, 7])"
  using queue_demos_output [OF view_queue_laws, of 5] by simp

section \<open>Two producers and two consumers\<close>

text \<open>
  The threads of \<open>demo_mpmc_lockfree_queue\<close>: how far each producer is, how many elements each
  consumer has taken, its \<open>local\<close>, whether it has added that to \<open>sum\<close>, and \<open>sum\<close>.
\<close>

record 'q mpmc_threads =
  mt_queue :: 'q
  made :: "nat \<Rightarrow> nat"
  taken :: "nat \<Rightarrow> nat"
  local_sum :: "nat \<Rightarrow> int"
  added :: "nat \<Rightarrow> bool"
  mt_sum :: int

definition MT_N :: nat where "MT_N = 50"

definition mt_start :: "'q queue_ops \<Rightarrow> 'q mpmc_threads" where
  "mt_start qo = \<lparr>mt_queue = q_new qo 128, made = (\<lambda>_. 0), taken = (\<lambda>_. 0), local_sum = (\<lambda>_. 0),
     added = (\<lambda>_. False), mt_sum = 0\<rparr>"

text \<open>One call of \<open>push\<close> by producer \<open>k\<close>, which starts at \<open>base\<close> 0 or \<open>N\<close>; the result is ignored.\<close>

definition mt_producer :: "'q queue_ops \<Rightarrow> nat \<Rightarrow> 'q mpmc_threads \<Rightarrow> 'q mpmc_threads option" where
  "mt_producer qo k s =
     (if made s k < MT_N
      then Some (s\<lparr>mt_queue := snd (q_push qo (int (k * MT_N + made s k)) (mt_queue s)),
                   made := (made s)(k := Suc (made s k))\<rparr>)
      else None)"

text \<open>One call of \<open>pop\<close> by consumer \<open>k\<close>, or its \<open>fetch_add\<close> at the end.\<close>

definition mt_consumer :: "'q queue_ops \<Rightarrow> nat \<Rightarrow> 'q mpmc_threads \<Rightarrow> 'q mpmc_threads option" where
  "mt_consumer qo k s =
     (if taken s k < MT_N
      then (case q_pop qo (mt_queue s) of
              (None, q) \<Rightarrow> Some (s\<lparr>mt_queue := q\<rparr>)
            | (Some v, q) \<Rightarrow> Some (s\<lparr>mt_queue := q, local_sum := (local_sum s)(k := local_sum s k + v),
                                     taken := (taken s)(k := Suc (taken s k))\<rparr>))
      else if \<not> added s k
      then Some (s\<lparr>mt_sum := mt_sum s + local_sum s k, added := (added s)(k := True)\<rparr>)
      else None)"

inductive mt_step :: "'q queue_ops \<Rightarrow> 'q mpmc_threads \<Rightarrow> 'q mpmc_threads \<Rightarrow> bool" for qo where
  producer: "k < 2 \<Longrightarrow> mt_producer qo k s = Some t \<Longrightarrow> mt_step qo s t"
| consumer: "k < 2 \<Longrightarrow> mt_consumer qo k s = Some t \<Longrightarrow> mt_step qo s t"

definition mt_joined :: "'q mpmc_threads \<Rightarrow> bool" where
  "mt_joined s \<longleftrightarrow> made s 0 = MT_N \<and> made s 1 = MT_N \<and> added s 0 \<and> added s 1"

definition mt_line :: "int \<Rightarrow> int \<Rightarrow> string" where
  "mt_line got expected = ''MT sum='' @ to_string got @ '' expected='' @ to_string expected @
     (if got = expected then '' [PASS]'' else '' [FAIL]'')"

text \<open>What a producer has pushed after \<open>n\<close> rounds, added up.\<close>

definition pushed_sum :: "nat \<Rightarrow> nat \<Rightarrow> int" where
  "pushed_sum k n = (\<Sum>i < n. int (k * MT_N + i))"

definition unadded :: "'q mpmc_threads \<Rightarrow> nat \<Rightarrow> int" where
  "unadded s k = (if added s k then 0 else local_sum s k)"

definition mt_inv :: "'q queue_ops \<Rightarrow> 'q mpmc_threads \<Rightarrow> bool" where
  "mt_inv qo s \<longleftrightarrow>
     (\<forall>k. made s k \<le> MT_N \<and> taken s k \<le> MT_N \<and> (added s k \<longrightarrow> taken s k = MT_N) \<and> 0 \<le> local_sum s k) \<and>
     snd (q_view qo (mt_queue s)) = 128 \<and>
     (\<forall>x \<in> set (fst (q_view qo (mt_queue s))). 0 \<le> x) \<and> 0 \<le> mt_sum s \<and>
     length (fst (q_view qo (mt_queue s))) + taken s 0 + taken s 1 = made s 0 + made s 1 \<and>
     sum_list (fst (q_view qo (mt_queue s))) + unadded s 0 + unadded s 1 + mt_sum s =
       pushed_sum 0 (made s 0) + pushed_sum 1 (made s 1)"

text \<open>How many steps the threads have yet to make, those that find the queue empty apart.\<close>

definition mt_left :: "'q mpmc_threads \<Rightarrow> nat" where
  "mt_left s = (MT_N - made s 0) + (MT_N - made s 1) + (MT_N - taken s 0) + (MT_N - taken s 1) +
     (if added s 0 then 0 else 1) + (if added s 1 then 0 else 1)"

lemma show_4950: "show_nat 4950 = ''4950''"
proof -
  have "digit_char 0 = CHR ''0''" "digit_char 4 = CHR ''4''" "digit_char 5 = CHR ''5''" "digit_char 9 = CHR ''9''"
    by code_simp+
  then show ?thesis
    by (simp add: show_nat.simps [of 4950] show_nat.simps [of 495] show_nat.simps [of 49] show_nat.simps [of 4])
qed

lemma less_2_cases: "k < 2 \<Longrightarrow> (k = 0 \<Longrightarrow> P) \<Longrightarrow> (k = Suc 0 \<Longrightarrow> P) \<Longrightarrow> P"
  by (cases k) auto

context lawful_queue
begin

lemma mt_inv_start: "mt_inv qo (mt_start qo)"
  by (simp add: mt_inv_def mt_start_def qv_new unadded_def pushed_sum_def)

lemma mt_no_eviction:
  assumes "mt_inv qo s"
  shows "q_push qo x (mt_queue s) = (r, q) \<Longrightarrow> r = None \<and> view q = (fst (view (mt_queue s)) @ [x], 128)"
proof -
  obtain xs where v: "view (mt_queue s) = (xs, 128)" using assms by (cases "view (mt_queue s)") (simp add: mt_inv_def)
  have "length xs + (taken s 0 + taken s 1) = made s 0 + made s 1" "made s 0 \<le> 50" "made s 1 \<le> 50"
    using assms v by (auto simp: mt_inv_def MT_N_def)
  then have "length xs < 128" by linarith
  then show "q_push qo x (mt_queue s) = (r, q) \<Longrightarrow> r = None \<and> view q = (fst (view (mt_queue s)) @ [x], 128)"
    using qv_results(2) [of x "mt_queue s" r q] v by simp
qed

lemma mt_inv_producer:
  assumes inv: "mt_inv qo s" and k: "k < 2" and st: "mt_producer qo k s = Some t"
  shows "mt_inv qo t"
proof -
  obtain r q where p: "q_push qo (int (k * MT_N + made s k)) (mt_queue s) = (r, q)" by fastforce
  note q = mt_no_eviction [OF inv p]
  have m: "made s k < MT_N" and t: "t = s\<lparr>mt_queue := q, made := (made s)(k := Suc (made s k))\<rparr>"
    using st p by (auto simp: mt_producer_def split: if_splits)
  from k show ?thesis
    by (rule less_2_cases) (use inv m q in \<open>auto simp: mt_inv_def t unadded_def pushed_sum_def\<close>)
qed

lemma mt_inv_consumer:
  assumes inv: "mt_inv qo s" and k: "k < 2" and st: "mt_consumer qo k s = Some t"
  shows "mt_inv qo t"
proof (cases "taken s k < MT_N")
  case False
  then have na: "\<not> added s k" and t: "t = s\<lparr>mt_sum := mt_sum s + local_sum s k, added := (added s)(k := True)\<rparr>"
    using st by (simp_all add: mt_consumer_def split: if_splits)
  then have "taken s k = MT_N" "0 \<le> local_sum s k" using inv False by (auto simp: mt_inv_def not_less intro: antisym)
  moreover have "unadded t = (unadded s)(k := 0)" by (auto simp: unadded_def t fun_eq_iff)
  moreover have "unadded s k = local_sum s k" using na by (simp add: unadded_def)
  ultimately show ?thesis
    using inv k unfolding mt_inv_def by (elim less_2_cases) (simp_all add: t)
next
  case True
  obtain r q where p: "q_pop qo (mt_queue s) = (r, q)" by fastforce
  obtain xs where v: "view (mt_queue s) = (xs, 128)" using inv by (cases "view (mt_queue s)") (simp add: mt_inv_def)
  have na: "\<not> added s k" using inv True by (auto simp: mt_inv_def)
  show ?thesis
  proof (cases xs)
    case Nil
    then have "r = None" "view q = view (mt_queue s)" using qv_results(3) [OF p] v by auto
    then show ?thesis using st True p inv by (auto simp: mt_consumer_def mt_inv_def unadded_def)
  next
    case (Cons x xs')
    then have r: "r = Some x" "view q = (xs', 128)" using qv_results(3) [OF p] v by auto
    from k show ?thesis
      by (rule less_2_cases)
        (use st True p inv r v Cons na in \<open>auto simp: mt_consumer_def mt_inv_def unadded_def\<close>)
  qed
qed

lemma mt_reach_inv: "reach (\<lambda>s. s = mt_start qo) (mt_step qo) s \<Longrightarrow> mt_inv qo s"
proof (induction rule: reach.induct)
  case (reach_step s t)
  from reach_step.hyps(2) show ?case
    by cases (use reach_step.IH mt_inv_producer mt_inv_consumer in blast)+
qed (simp add: mt_inv_start)

lemma mt_progress:
  assumes inv: "mt_inv qo s" and nj: "\<not> mt_joined s"
  shows "\<exists>t. mt_step qo s t \<and> mt_left t < mt_left s"
proof (cases "\<exists>k < 2. made s k < MT_N")
  case True
  then obtain k where k: "k < 2" "made s k < MT_N" by blast
  then obtain t where t: "mt_producer qo k s = Some t" "made t = (made s)(k := Suc (made s k))"
    "taken t = taken s" "added t = added s" by (simp add: mt_producer_def)
  have "mt_left t < mt_left s" using k t by (elim less_2_cases) (simp_all add: mt_left_def)
  then show ?thesis using mt_step.producer [OF k(1) t(1)] by blast
next
  case all_made: False
  have m: "made s k = MT_N" if "k < 2" for k using all_made inv that unfolding mt_inv_def by (meson antisym not_less)
  show ?thesis
  proof (cases "\<exists>k < 2. taken s k < MT_N")
    case True
    then obtain k where k: "k < 2" "taken s k < MT_N" by blast
    have "taken s 0 + taken s 1 < 2 * MT_N"
      using k inv by (elim less_2_cases) (auto simp: mt_inv_def intro: add_less_le_mono add_le_less_mono simp: mult_2)
    then obtain x xs where v: "fst (view (mt_queue s)) = x # xs"
      using inv m [of 0] m [of 1] by (cases "fst (view (mt_queue s))") (auto simp: mt_inv_def)
    obtain r q where p: "q_pop qo (mt_queue s) = (r, q)" by fastforce
    have "r = Some x" using qv_results(3) [OF p] v by (cases "view (mt_queue s)") auto
    then obtain t where t: "mt_consumer qo k s = Some t" "made t = made s" "taken t = (taken s)(k := Suc (taken s k))"
      "added t = added s" using k p by (simp add: mt_consumer_def)
    have "mt_left t < mt_left s" using k t by (elim less_2_cases) (simp_all add: mt_left_def)
    then show ?thesis using mt_step.consumer [OF k(1) t(1)] by blast
  next
    case False
    have "\<exists>k < 2. \<not> added s k"
      using nj m [of 0] m [of 1] unfolding mt_joined_def by (metis One_nat_def lessI numeral_2_eq_2 zero_less_Suc)
    then obtain k where k: "k < 2" "\<not> added s k" by blast
    then obtain t where t: "mt_consumer qo k s = Some t" "made t = made s" "taken t = taken s"
      "added t = (added s)(k := True)" using False by (simp add: mt_consumer_def)
    have "mt_left t < mt_left s" using k t by (elim less_2_cases) (simp_all add: mt_left_def)
    then show ?thesis using mt_step.consumer [OF k(1) t(1)] by blast
  qed
qed

lemma mt_joined_sum:
  assumes inv: "mt_inv qo s" and "mt_joined s"
  shows "mt_sum s = 4950 \<and> fst (view (mt_queue s)) = []"
proof -
  have "pushed_sum 0 50 + pushed_sum 1 50 = 4950" by code_simp
  then show ?thesis using assms by (auto simp: mt_inv_def mt_joined_def unadded_def MT_N_def)
qed

end

text \<open>
  C19: The demonstration with two producers and two consumers, in every interleaving: the
  overwriting \<open>push\<close> never throws an element out, as at most 100 of the 128 places are used;
  the threads can always go on until all of them are done, so no consumer spins for ever;
  and then the line \<open>[PASS]\<close> is printed.
\<close>

theorem mpmc_sum_passes:
  assumes laws: "queue_laws max_cap qo" and reach: "reach (\<lambda>s. s = mt_start qo) (mt_step qo) s"
  shows "(\<forall>x. fst (q_push qo x (mt_queue s)) = None) \<and>
    (mt_joined s \<longrightarrow> mt_line (mt_sum s) ((0 + 99) * 100 div 2) = ''MT sum=4950 expected=4950 [PASS]'') \<and>
    (\<not> mt_joined s \<longrightarrow> (\<exists>t. mt_step qo s t \<and> mt_left t < mt_left s))"
proof (intro conjI allI impI)
  have lq: "lawful_queue max_cap qo" using laws by (rule lawful_queue.intro)
  note inv = lawful_queue.mt_reach_inv [OF lq reach]
  show "fst (q_push qo x (mt_queue s)) = None" for x
    using lawful_queue.mt_no_eviction [OF lq inv, of x] by (metis prod.collapse)
  show "mt_line (mt_sum s) ((0 + 99) * 100 div 2) = ''MT sum=4950 expected=4950 [PASS]''" if "mt_joined s"
  proof -
    have "mt_line 4950 ((0 + 99) * 100 div 2) = ''MT sum=4950 expected=4950 [PASS]''"
      by (simp add: mt_line_def to_string_def show_4950)
    then show ?thesis using lawful_queue.mt_joined_sum [OF lq inv that] by simp
  qed
  show "\<exists>t. mt_step qo s t \<and> mt_left t < mt_left s" if "\<not> mt_joined s"
    using lawful_queue.mt_progress [OF lq inv that] .
qed

theorem mpmc_sum_passes_witness:
  "\<exists>t. mt_step (view_queue 128) (mt_start (view_queue 128)) t \<and> mt_left t < 202"
proof -
  have r: "reach (\<lambda>s. s = mt_start (view_queue 128)) (mt_step (view_queue 128)) (mt_start (view_queue 128))"
    by (rule reach_init) simp
  have "\<not> mt_joined (mt_start (view_queue 128))" "mt_left (mt_start (view_queue 128)) = 202"
    by (simp_all add: mt_joined_def mt_start_def mt_left_def MT_N_def)
  with mpmc_sum_passes [OF view_queue_laws r] show ?thesis by metis
qed

section \<open>One producer and one consumer\<close>

text \<open>
  \<open>SpscFifo\<close>: its \<open>push\<close> refuses when the queue is full and is the field \<open>q_tryPush\<close> here.
  First the part with one thread.
\<close>

fun fifo_pushes :: "'q queue_ops \<Rightarrow> int list \<Rightarrow> console \<times> 'q \<Rightarrow> console \<times> 'q" where
  "fifo_pushes qo [] s = s"
| "fifo_pushes qo (i # is) (out, q) =
     (let (ok, q') = q_tryPush qo i q
      in fifo_pushes qo is (out @ [''push('' @ to_string i @ '') -> '' @ (if ok then ''ok'' else ''full'')], q'))"

text \<open>\<open>while (!empty()) pop()\<close>; \<open>None\<close>: not at an end, or \<open>nullopt\<close> was dereferenced.\<close>

fun fifo_pops :: "'q queue_ops \<Rightarrow> nat \<Rightarrow> console \<times> 'q \<Rightarrow> (console \<times> 'q) option" where
  "fifo_pops qo 0 s = None"
| "fifo_pops qo (Suc fuel) (out, q) =
     (if q_empty qo q then Some (out, q)
      else case q_pop qo q of
          (None, q') \<Rightarrow> None
        | (Some v, q') \<Rightarrow> fifo_pops qo fuel (out @ [pop_line v], q'))"

definition demo_spsc_fifo :: "'q queue_ops \<Rightarrow> nat \<Rightarrow> console option" where
  "demo_spsc_fifo qo fuel =
     (let q0 = q_new qo 4;
          s1 = fifo_pushes qo [0, 1, 2, 3, 4, 5] ([''capacity='' @ show_nat (q_capacity qo q0)], q0)
      in map_option fst (fifo_pops qo fuel s1))"

text \<open>The two threads.\<close>

record 'q spsc_threads =
  sp_queue :: 'q
  sp_i :: nat
  sp_done :: bool
  sp_count :: nat
  consumer_sum :: int

definition sp_start :: "'q queue_ops \<Rightarrow> 'q spsc_threads" where
  "sp_start qo = \<lparr>sp_queue = q_new qo 64, sp_i = 0, sp_done = False, sp_count = 0, consumer_sum = 0\<rparr>"

definition sp_producer :: "'q queue_ops \<Rightarrow> 'q spsc_threads \<Rightarrow> 'q spsc_threads option" where
  "sp_producer qo s =
     (if sp_i s < MT_N
      then (case q_tryPush qo (int (sp_i s)) (sp_queue s) of
              (ok, q) \<Rightarrow> Some (s\<lparr>sp_queue := q, sp_i := (if ok then Suc (sp_i s) else sp_i s)\<rparr>))
      else if \<not> sp_done s then Some (s\<lparr>sp_done := True\<rparr>) else None)"

definition sp_consumer :: "'q queue_ops \<Rightarrow> 'q spsc_threads \<Rightarrow> 'q spsc_threads option" where
  "sp_consumer qo s =
     (if sp_count s < MT_N
      then (case q_pop qo (sp_queue s) of
              (None, q) \<Rightarrow> Some (s\<lparr>sp_queue := q\<rparr>)
            | (Some v, q) \<Rightarrow> Some (s\<lparr>sp_queue := q, consumer_sum := consumer_sum s + v, sp_count := Suc (sp_count s)\<rparr>))
      else None)"

inductive sp_step :: "'q queue_ops \<Rightarrow> 'q spsc_threads \<Rightarrow> 'q spsc_threads \<Rightarrow> bool" for qo where
  sp_producer: "sp_producer qo s = Some t \<Longrightarrow> sp_step qo s t"
| sp_consumer: "sp_consumer qo s = Some t \<Longrightarrow> sp_step qo s t"

definition sp_joined :: "'q spsc_threads \<Rightarrow> bool" where
  "sp_joined s \<longleftrightarrow> sp_done s \<and> sp_count s = MT_N"

definition sp_left :: "'q spsc_threads \<Rightarrow> nat" where
  "sp_left s = (MT_N - sp_i s) + (if sp_done s then 0 else 1) + (MT_N - sp_count s)"

text \<open>The queue holds what was pushed and not yet popped, in order.\<close>

definition sp_inv :: "'q queue_ops \<Rightarrow> 'q spsc_threads \<Rightarrow> bool" where
  "sp_inv qo s \<longleftrightarrow> sp_count s \<le> sp_i s \<and> sp_i s \<le> MT_N \<and> (sp_done s \<longrightarrow> sp_i s = MT_N) \<and>
     q_view qo (sp_queue s) = (map int [sp_count s..<sp_i s], 64) \<and>
     consumer_sum s = (\<Sum>i < sp_count s. int i)"

context lawful_queue
begin

lemma sp_inv_start: "sp_inv qo (sp_start qo)"
  by (simp add: sp_inv_def sp_start_def qv_new)

lemma sp_push:
  assumes inv: "sp_inv qo s" and i: "sp_i s < MT_N" and p: "q_tryPush qo (int (sp_i s)) (sp_queue s) = (ok, q)"
  shows "ok \<and> view q = (map int [sp_count s..<Suc (sp_i s)], 64)"
  using qv_results(1) [OF p] inv i by (auto simp: sp_inv_def MT_N_def split: if_splits)

lemma sp_pop:
  assumes inv: "sp_inv qo s" and p: "q_pop qo (sp_queue s) = (r, q)"
  shows "if sp_count s < sp_i s then r = Some (int (sp_count s)) \<and> view q = (map int [Suc (sp_count s)..<sp_i s], 64)
    else r = None \<and> view q = view (sp_queue s)"
  using qv_results(3) [OF p] inv by (auto simp: sp_inv_def upt_conv_Cons)

lemma sp_inv_step:
  assumes inv: "sp_inv qo s" and st: "sp_step qo s t"
  shows "sp_inv qo t"
  using st
proof cases
  case sp_producer
  obtain ok q where p: "q_tryPush qo (int (sp_i s)) (sp_queue s) = (ok, q)" by fastforce
  show ?thesis using sp_producer p sp_push [OF inv _ p] inv
    by (auto simp: sp_producer_def sp_inv_def split: if_splits)
next
  case sp_consumer
  obtain r q where p: "q_pop qo (sp_queue s) = (r, q)" by fastforce
  show ?thesis using sp_consumer p sp_pop [OF inv p] inv
    by (auto simp: sp_consumer_def sp_inv_def split: if_splits)
qed

lemma sp_reach_inv: "reach (\<lambda>s. s = sp_start qo) (sp_step qo) s \<Longrightarrow> sp_inv qo s"
  by (induction rule: reach.induct) (auto simp: sp_inv_start intro: sp_inv_step)

lemma sp_progress:
  assumes inv: "sp_inv qo s" and nj: "\<not> sp_joined s"
  shows "\<exists>t. sp_step qo s t \<and> sp_left t < sp_left s"
proof (cases "sp_i s < MT_N \<or> \<not> sp_done s")
  case True
  obtain ok q where p: "q_tryPush qo (int (sp_i s)) (sp_queue s) = (ok, q)" by fastforce
  have "\<exists>t. sp_producer qo s = Some t \<and> sp_left t < sp_left s"
    using True p sp_push [OF inv _ p] by (auto simp: sp_producer_def sp_left_def)
  then show ?thesis using sp_step.sp_producer by blast
next
  case False
  then have c: "sp_count s < MT_N" "sp_count s < sp_i s"
    using nj inv by (auto simp: sp_joined_def sp_inv_def)
  obtain r q where p: "q_pop qo (sp_queue s) = (r, q)" by fastforce
  have "\<exists>t. sp_consumer qo s = Some t \<and> sp_left t < sp_left s"
    using c p sp_pop [OF inv p] by (auto simp: sp_consumer_def sp_left_def)
  then show ?thesis using sp_step.sp_consumer by blast
qed

lemma sp_joined_sum: "sp_inv qo s \<Longrightarrow> sp_joined s \<Longrightarrow> consumer_sum s = 1225"
proof -
  have "(\<Sum>i < 50. int i) = 1225" by code_simp
  then show "sp_inv qo s \<Longrightarrow> sp_joined s \<Longrightarrow> consumer_sum s = 1225"
    by (simp add: sp_inv_def sp_joined_def MT_N_def)
qed

lemma qv_fifo_pushes:
  "map_prod id view (fifo_pushes qo is (out, q)) = fifo_pushes vo is (out, view q)"
proof (induction "is" arbitrary: out q)
  case (Cons i "is")
  obtain b q' where r: "q_tryPush qo i q = (b, q')" by fastforce
  with Cons qv_results(1) [OF r] show ?case by (simp add: view_queue_def)
qed simp

lemma qv_fifo_pops:
  "map_option (map_prod id view) (fifo_pops qo fuel (out, q)) = fifo_pops vo fuel (out, view q)"
proof (induction fuel arbitrary: out q)
  case (Suc fuel)
  obtain r q' where r: "q_pop qo q = (r, q')" by fastforce
  have "q_pop vo (view q) = (r, view q')" "q_empty vo (view q) = q_empty qo q"
    using qv_results(3) [OF r] by (simp_all add: view_queue_def)
  then show ?case using Suc r by (simp split: option.split)
qed simp

lemma demo_spsc_view: "demo_spsc_fifo qo fuel = demo_spsc_fifo vo fuel"
proof -
  let ?out0 = "[''capacity='' @ show_nat 4]"
  obtain out1 q1 where q1: "fifo_pushes qo [0, 1, 2, 3, 4, 5] (?out0, q_new qo 4) = (out1, q1)" by fastforce
  have v1: "fifo_pushes vo [0, 1, 2, 3, 4, 5] (?out0, ([], 4)) = (out1, view q1)"
    using qv_fifo_pushes [of "[0, 1, 2, 3, 4, 5]" ?out0 "q_new qo 4"] unfolding q1 qv_new by simp
  have c: "q_capacity qo (q_new qo 4) = 4" "q_capacity vo ([], 4) = 4" "q_new vo 4 = ([], 4)"
    by (simp_all add: qv_new) (simp_all add: view_queue_def)
  show ?thesis
    unfolding demo_spsc_fifo_def Let_def c q1 v1 qv_fifo_pops [symmetric] option.map_comp
    by (simp add: comp_def)
qed

end

lemma fifo_pops_more: "fifo_pops qo fuel (out, q) = Some r \<Longrightarrow> fifo_pops qo (fuel + k) (out, q) = Some r"
proof (induction fuel arbitrary: out q)
  case (Suc fuel)
  obtain v q' where "q_pop qo q = (v, q')" by fastforce
  with Suc show ?case by (cases v) (simp_all split: if_splits)
qed simp

lemma demo_spsc_more:
  assumes "demo_spsc_fifo qo fuel = Some out"
  shows "demo_spsc_fifo qo (fuel + k) = Some out"
proof -
  obtain out1 q1 where s1: "fifo_pushes qo [0, 1, 2, 3, 4, 5] ([''capacity='' @ show_nat (q_capacity qo (q_new qo 4))], q_new qo 4) = (out1, q1)"
    by fastforce
  show ?thesis using assms unfolding demo_spsc_fifo_def Let_def s1 by (auto dest: fifo_pops_more)
qed

text \<open>
  The queue for one producer and one consumer, for every queue that keeps the laws: with
  one thread it refuses the fifth and sixth element and gives the others back in order; with
  two threads, in every interleaving, the consumer gets 0, 1, 2, ... in order, the two spinning
  loops always come to an end, and the line \<open>[PASS]\<close> is printed.
\<close>

theorem spsc_fifo_correct:
  assumes laws: "queue_laws max_cap qo" and fuel: "4 < fuel"
    and reach: "reach (\<lambda>s. s = sp_start qo) (sp_step qo) s"
  shows "demo_spsc_fifo qo fuel = Some
      ([''capacity=4'', ''push(0) -> ok'', ''push(1) -> ok'', ''push(2) -> ok'', ''push(3) -> ok'',
        ''push(4) -> full'', ''push(5) -> full''] @ map pop_line [0, 1, 2, 3]) \<and>
    q_view qo (sp_queue s) = (map int [sp_count s..<sp_i s], 64) \<and>
    (sp_joined s \<longrightarrow> mt_line (consumer_sum s) (50 * (50 - 1) div 2) = ''MT sum=1225 expected=1225 [PASS]'') \<and>
    (\<not> sp_joined s \<longrightarrow> (\<exists>t. sp_step qo s t \<and> sp_left t < sp_left s))"
proof (intro conjI impI)
  have lq: "lawful_queue max_cap qo" using laws by (rule lawful_queue.intro)
  note inv = lawful_queue.sp_reach_inv [OF lq reach]
  obtain k where k: "fuel = 5 + k" using fuel by (metis Suc_leI add.commute eval_nat_numeral(3) le_Suc_ex)
  have "demo_spsc_fifo (view_queue max_cap) 5 = Some
      ([''capacity=4'', ''push(0) -> ok'', ''push(1) -> ok'', ''push(2) -> ok'', ''push(3) -> ok'',
        ''push(4) -> full'', ''push(5) -> full''] @ map pop_line [0, 1, 2, 3])"
    by code_simp
  then show "demo_spsc_fifo qo fuel = Some
      ([''capacity=4'', ''push(0) -> ok'', ''push(1) -> ok'', ''push(2) -> ok'', ''push(3) -> ok'',
        ''push(4) -> full'', ''push(5) -> full''] @ map pop_line [0, 1, 2, 3])"
    unfolding lawful_queue.demo_spsc_view [OF lq] k by (rule demo_spsc_more)
  show "q_view qo (sp_queue s) = (map int [sp_count s..<sp_i s], 64)" using inv by (simp add: sp_inv_def)
  show "mt_line (consumer_sum s) (50 * (50 - 1) div 2) = ''MT sum=1225 expected=1225 [PASS]''" if "sp_joined s"
  proof -
    have "mt_line 1225 (50 * (50 - 1) div 2) = ''MT sum=1225 expected=1225 [PASS]''" by code_simp
    then show ?thesis using lawful_queue.sp_joined_sum [OF lq inv that] by simp
  qed
  show "\<exists>t. sp_step qo s t \<and> sp_left t < sp_left s" if "\<not> sp_joined s"
    using lawful_queue.sp_progress [OF lq inv that] .
qed

theorem spsc_fifo_correct_witness:
  "demo_spsc_fifo (view_queue 64) 5 \<noteq> None \<and>
   (\<exists>t. sp_step (view_queue 64) (sp_start (view_queue 64)) t \<and> sp_left t < 101)"
proof -
  have r: "reach (\<lambda>s. s = sp_start (view_queue 64)) (sp_step (view_queue 64)) (sp_start (view_queue 64))"
    by (rule reach_init) simp
  have "\<not> sp_joined (sp_start (view_queue 64))" "sp_left (sp_start (view_queue 64)) = 101"
    by (simp_all add: sp_joined_def sp_start_def sp_left_def MT_N_def)
  with spsc_fifo_correct [OF view_queue_laws _ r, of 5] show ?thesis by force
qed

section \<open>The free list of indices\<close>

text \<open>\<open>while (freeList.pop(idx))\<close>: the indices in the order in which they come.\<close>

fun alloc_all :: "'l free_ops \<Rightarrow> nat \<Rightarrow> nat list \<Rightarrow> 'l \<Rightarrow> (nat list \<times> 'l) option" where
  "alloc_all fl 0 acc l = None"
| "alloc_all fl (Suc fuel) acc l =
     (case fl_pop fl l of
        None \<Rightarrow> Some (acc, l)
      | Some (i, l') \<Rightarrow> alloc_all fl fuel (acc @ [i]) l')"

fun free_slots :: "'l free_ops \<Rightarrow> nat list \<Rightarrow> 'l \<Rightarrow> 'l" where
  "free_slots fl [] l = l"
| "free_slots fl (i # is) l = free_slots fl is (snd (fl_push fl i l))"

definition slot_line :: "string \<Rightarrow> nat \<Rightarrow> string" where
  "slot_line what i = what @ '' slot['' @ show_nat i @ ''] = '' @ show_nat (i * 100)"

definition loffli_lines :: "nat list \<Rightarrow> nat list \<Rightarrow> console" where
  "loffli_lines allocated again =
     map (slot_line ''alloc'') allocated @ [''-- free some slots --''] @
     map (\<lambda>i. ''free slot['' @ show_nat i @ '']'') (take 3 allocated) @ [''-- re-alloc --''] @
     map (slot_line ''re-alloc'') again"

definition demo_mpmc_loffli :: "'l free_ops \<Rightarrow> nat \<Rightarrow> console option" where
  "demo_mpmc_loffli fl fuel =
     (case alloc_all fl fuel [] (fl_init fl 5) of
        None \<Rightarrow> None
      | Some (allocated, l) \<Rightarrow>
          (case alloc_all fl fuel [] (free_slots fl (take 3 allocated) l) of
             None \<Rightarrow> None
           | Some (again, _) \<Rightarrow> Some (loffli_lines allocated again)))"

lemma alloc_all_spec:
  assumes laws: "free_laws fl"
  shows "finite (fl_free fl l) \<Longrightarrow> card (fl_free fl l) < fuel \<Longrightarrow>
    \<exists>is l'. alloc_all fl fuel acc l = Some (acc @ is, l') \<and> distinct is \<and> set is = fl_free fl l \<and>
      fl_free fl l' = {} \<and> fl_capacity fl l' = fl_capacity fl l"
proof (induction fuel arbitrary: acc l)
  case (Suc fuel)
  show ?case
  proof (cases "fl_pop fl l")
    case None
    then have "fl_free fl l = {}" using laws by (simp add: free_laws_def)
    then show ?thesis using None by simp
  next
    case (Some p)
    obtain i l1 where p: "p = (i, l1)" by (cases p)
    have l1: "i \<in> fl_free fl l" "fl_free fl l1 = fl_free fl l - {i}" "fl_capacity fl l1 = fl_capacity fl l"
      using laws Some p by (simp_all add: free_laws_def)
    have "finite (fl_free fl l1)" "Suc (card (fl_free fl l1)) = card (fl_free fl l)"
      using Suc.prems(1) card_Suc_Diff1 [OF Suc.prems(1) l1(1)] unfolding l1(2) by auto
    then have "finite (fl_free fl l1)" "card (fl_free fl l1) < fuel" using Suc.prems(2) by simp_all
    from Suc.IH [OF this, of "acc @ [i]"] l1 obtain "is" l' where
      "alloc_all fl fuel (acc @ [i]) l1 = Some (acc @ [i] @ is, l')" "distinct (i # is)"
      "set (i # is) = fl_free fl l" "fl_free fl l' = {}" "fl_capacity fl l' = fl_capacity fl l" by auto
    then show ?thesis using Some p by (intro exI [of _ "i # is"] exI [of _ l']) simp
  qed
qed simp

lemma free_slots_spec:
  assumes laws: "free_laws fl"
  shows "distinct is \<Longrightarrow> set is \<inter> fl_free fl l = {} \<Longrightarrow> set is \<subseteq> {..<fl_capacity fl l} \<Longrightarrow>
    fl_free fl (free_slots fl is l) = set is \<union> fl_free fl l"
proof (induction "is" arbitrary: l)
  case (Cons i "is")
  obtain l' where "fl_push fl i l = (True, l')" "fl_free fl l' = insert i (fl_free fl l)"
    "fl_capacity fl l' = fl_capacity fl l"
  proof -
    have "i < fl_capacity fl l" "i \<notin> fl_free fl l" using Cons.prems by auto
    with laws that show thesis unfolding free_laws_def by blast
  qed
  with Cons show ?case by auto
qed simp

text \<open>
  The free list, for every implementation that keeps its laws: the first loop hands out
  each of the five slots once, the second exactly the three that were given back in between;
  both loops end.
\<close>

theorem loffli_demo_recycles:
  assumes laws: "free_laws fl" and fuel: "5 < fuel"
  shows "\<exists>allocated again. demo_mpmc_loffli fl fuel = Some (loffli_lines allocated again) \<and>
    mset allocated = mset [0..<5] \<and> mset again = mset (take 3 allocated)"
proof -
  have i: "fl_free fl (fl_init fl 5) = {..<5}" "fl_capacity fl (fl_init fl 5) = 5"
    using laws by (simp_all add: free_laws_def)
  obtain a l where a: "alloc_all fl fuel [] (fl_init fl 5) = Some (a, l)" "distinct a" "set a = {..<5}"
    "fl_free fl l = {}" "fl_capacity fl l = 5"
    using alloc_all_spec [OF laws, of "fl_init fl 5" fuel "[]"] i fuel by auto
  have t: "distinct (take 3 a)" "set (take 3 a) \<subseteq> {..<5}" using a set_take_subset [of 3 a] by auto
  have f: "fl_free fl (free_slots fl (take 3 a) l) = set (take 3 a)"
    using free_slots_spec [OF laws t(1), of l] a t(2) by auto
  have "card (set (take 3 a)) < fuel" using fuel card_length [of "take 3 a"] by simp
  then obtain b l' where b: "alloc_all fl fuel [] (free_slots fl (take 3 a) l) = Some (b, l')" "distinct b"
    "set b = set (take 3 a)"
    using alloc_all_spec [OF laws, of "free_slots fl (take 3 a) l" fuel "[]"] f by auto
  have "mset a = mset [0..<5]" using a by (intro set_eq_iff_mset_eq_distinct [THEN iffD1]) auto
  moreover have "mset b = mset (take 3 a)" using b t set_eq_iff_mset_eq_distinct by metis
  ultimately show ?thesis using a b by (auto simp: demo_mpmc_loffli_def)
qed

theorem loffli_demo_recycles_witness:
  "\<exists>allocated again. demo_mpmc_loffli stack_free 6 = Some (loffli_lines allocated again) \<and>
    mset allocated = mset [0..<5] \<and> mset again = mset (take 3 allocated)"
  using loffli_demo_recycles [OF stack_free_laws, of 6] by simp

section \<open>The overwriting queue\<close>

text \<open>
  \<open>SpscSofi\<close>: \<open>push\<close> stores the overwritten element, if any, in its second argument, \<open>pop\<close> the
  popped one. The parameter \<open>kept\<close> of the law is what \<open>push\<close> returns when nothing was
  overwritten. \<open>setCapacity\<close> is only allowed on an empty queue.
\<close>

record 'q sofi_ops =
  s_new :: "nat \<Rightarrow> 'q"
  s_push :: "int \<Rightarrow> int \<Rightarrow> 'q \<Rightarrow> (bool \<times> int) \<times> 'q"
  s_pop :: "int \<Rightarrow> 'q \<Rightarrow> (bool \<times> int) \<times> 'q"
  s_capacity :: "'q \<Rightarrow> nat"
  s_size :: "'q \<Rightarrow> nat"
  s_setCapacity :: "nat \<Rightarrow> 'q \<Rightarrow> 'q"
  s_view :: "'q \<Rightarrow> queue_view"

fun v_sofi_push :: "bool \<Rightarrow> int \<Rightarrow> int \<Rightarrow> queue_view \<Rightarrow> (bool \<times> int) \<times> queue_view" where
  "v_sofi_push kept x valueOut (xs, c) =
     (if length xs < c then ((kept, valueOut), (xs @ [x], c))
      else ((\<not> kept, hd (xs @ [x])), (tl (xs @ [x]), c)))"

fun v_sofi_pop :: "int \<Rightarrow> queue_view \<Rightarrow> (bool \<times> int) \<times> queue_view" where
  "v_sofi_pop valueOut ([], c) = ((False, valueOut), ([], c))"
| "v_sofi_pop valueOut (x # xs, c) = ((True, x), (xs, c))"

definition sofi_laws :: "bool \<Rightarrow> 'q sofi_ops \<Rightarrow> bool" where
  "sofi_laws kept so \<longleftrightarrow>
     (\<forall>n. s_view so (s_new so n) = ([], n)) \<and>
     (\<forall>x e q. map_prod id (s_view so) (s_push so x e q) = v_sofi_push kept x e (s_view so q)) \<and>
     (\<forall>e q. map_prod id (s_view so) (s_pop so e q) = v_sofi_pop e (s_view so q)) \<and>
     (\<forall>q. s_capacity so q = snd (s_view so q)) \<and>
     (\<forall>q. s_size so q = length (fst (s_view so q))) \<and>
     (\<forall>n q. fst (s_view so q) = [] \<longrightarrow> n \<le> snd (s_view so q) \<longrightarrow> s_view so (s_setCapacity so n q) = ([], n))"

definition view_sofi :: "bool \<Rightarrow> queue_view sofi_ops" where
  "view_sofi kept = \<lparr>s_new = (\<lambda>n. ([], n)), s_push = v_sofi_push kept, s_pop = v_sofi_pop, s_capacity = snd,
     s_size = (\<lambda>v. length (fst v)), s_setCapacity = (\<lambda>n v. (fst v, n)), s_view = (\<lambda>v. v)\<rparr>"

lemma view_sofi_laws: "sofi_laws kept (view_sofi kept)"
  by (auto simp: sofi_laws_def view_sofi_def prod.map_ident id_def)

definition sofi_line :: "int \<Rightarrow> bool \<times> int \<Rightarrow> string" where
  "sofi_line i r =
     (if fst r then ''push('' @ to_string i @ '') overflowed, evicted='' @ to_string (snd r)
      else ''push('' @ to_string i @ '') ok'')"

fun sofi_pushes :: "'q sofi_ops \<Rightarrow> int list \<Rightarrow> console \<times> 'q \<Rightarrow> console \<times> 'q" where
  "sofi_pushes so [] s = s"
| "sofi_pushes so (i # is) (out, q) =
     (let (r, q') = s_push so i (-1) q in sofi_pushes so is (out @ [sofi_line i r], q'))"

fun sofi_pops :: "'q sofi_ops \<Rightarrow> nat \<Rightarrow> int \<Rightarrow> console \<times> 'q \<Rightarrow> ((console \<times> 'q) \<times> int) option" where
  "sofi_pops so 0 val s = None"
| "sofi_pops so (Suc fuel) val (out, q) =
     (case s_pop so val q of
        ((True, v), q') \<Rightarrow> sofi_pops so fuel v (out @ [pop_line v], q')
      | ((False, v), q') \<Rightarrow> Some ((out, q'), v))"

definition demo_spsc_sofi :: "'q sofi_ops \<Rightarrow> nat \<Rightarrow> console option" where
  "demo_spsc_sofi so fuel =
     (let q0 = s_new so 3;
          (out1, q1) = sofi_pushes so [0, 1, 2, 3, 4, 5] ([''capacity='' @ show_nat (s_capacity so q0)], q0)
      in case sofi_pops so fuel (-1) (out1 @ [''size='' @ show_nat (s_size so q1)], q1) of
           None \<Rightarrow> None
         | Some ((out2, _), val) \<Rightarrow>
             (let r0 = s_setCapacity so 4 (s_new so 8);
                  out3 = out2 @ [''after setCapacity(4): capacity='' @ show_nat (s_capacity so r0)];
                  (_, r1) = sofi_pushes so [0, 1, 2, 3, 4, 5] ([], r0)
              in map_option (fst \<circ> fst) (sofi_pops so fuel val (out3, r1))))"

locale lawful_sofi =
  fixes kept :: bool
    and so :: "'q sofi_ops"
  assumes sofi_laws: "sofi_laws kept so"
begin

lemma sv_results:
  "s_push so x e q = (r, q') \<Longrightarrow> v_sofi_push kept x e (s_view so q) = (r, s_view so q')"
  "s_pop so e q = (r, q') \<Longrightarrow> v_sofi_pop e (s_view so q) = (r, s_view so q')"
proof -
  have p: "map_prod id (s_view so) (s_push so x e q) = v_sofi_push kept x e (s_view so q)"
    and o: "map_prod id (s_view so) (s_pop so e q) = v_sofi_pop e (s_view so q)"
    using sofi_laws by (simp_all add: sofi_laws_def)
  show "s_push so x e q = (r, q') \<Longrightarrow> v_sofi_push kept x e (s_view so q) = (r, s_view so q')" using p by simp
  show "s_pop so e q = (r, q') \<Longrightarrow> v_sofi_pop e (s_view so q) = (r, s_view so q')" using o by simp
qed

lemma sv_pushes:
  "sofi_pushes so is (out, q) = (out', q') \<Longrightarrow>
   sofi_pushes (view_sofi kept) is (out, s_view so q) = (out', s_view so q')"
proof (induction "is" arbitrary: out q)
  case (Cons i "is")
  obtain r q1 where r: "s_push so i (- 1) q = (r, q1)" by fastforce
  from Cons.IH [of "out @ [sofi_line i r]" q1] Cons.prems r sv_results(1) [OF r] show ?case
    by (simp add: view_sofi_def)
qed simp

lemma sv_pops:
  "sofi_pops (view_sofi kept) fuel val (out, s_view so q) =
   map_option (map_prod (map_prod id (s_view so)) id) (sofi_pops so fuel val (out, q))"
proof (induction fuel arbitrary: val out q)
  case (Suc fuel)
  obtain b v q' where r: "s_pop so val q = ((b, v), q')" by (metis prod.exhaust)
  have "s_pop (view_sofi kept) val (s_view so q) = ((b, v), s_view so q')"
    using sv_results(2) [OF r] by (simp add: view_sofi_def)
  then show ?case using Suc r by (cases b) simp_all
qed simp

lemma demo_sofi_view: "demo_spsc_sofi so fuel = demo_spsc_sofi (view_sofi kept) fuel"
proof -
  let ?is = "[0, 1, 2, 3, 4, 5]" and ?out0 = "[''capacity='' @ show_nat 3]"
  obtain out1 q1 where q1: "sofi_pushes so ?is (?out0, s_new so 3) = (out1, q1)" by fastforce
  obtain out4 r1 where r1: "sofi_pushes so ?is ([], s_setCapacity so 4 (s_new so 8)) = (out4, r1)" by fastforce
  have n: "s_view so (s_new so 3) = ([], 3)" "s_view so (s_setCapacity so 4 (s_new so 8)) = ([], 4)"
    "s_capacity so q = snd (s_view so q)" "s_size so q = length (fst (s_view so q))" for q
    using sofi_laws by (simp_all add: sofi_laws_def)
  have c: "s_capacity so (s_new so 3) = 3" "s_capacity so (s_setCapacity so 4 (s_new so 8)) = 4"
    "s_new (view_sofi kept) 3 = ([], 3)" "s_setCapacity (view_sofi kept) 4 (s_new (view_sofi kept) 8) = ([], 4)"
    "s_capacity (view_sofi kept) v = snd v" "s_size (view_sofi kept) v = length (fst v)" for v
    by (simp_all add: n) (simp_all add: view_sofi_def)
  have v: "sofi_pushes (view_sofi kept) ?is (?out0, ([], 3)) = (out1, s_view so q1)"
    "sofi_pushes (view_sofi kept) ?is ([], ([], 4)) = (out4, s_view so r1)"
    using sv_pushes [OF q1] sv_pushes [OF r1] unfolding n by simp_all
  let ?p = "sofi_pops so fuel (- 1) (out1 @ [''size='' @ show_nat (length (fst (s_view so q1)))], q1)"
  show ?thesis
    unfolding demo_spsc_sofi_def Let_def c(1-4) c(5,6) prod.sel q1 r1 v prod.case n(4) sv_pops
    by (cases ?p) (auto simp: option.map_comp comp_def case_prod_beta map_prod_def)
qed

end

interpretation view_sofi: lawful_sofi kept "view_sofi kept"
  by unfold_locales (rule view_sofi_laws)

lemma sofi_pops_more:
  "sofi_pops so fuel val (out, q) = Some r \<Longrightarrow> sofi_pops so (fuel + k) val (out, q) = Some r"
proof (induction fuel arbitrary: val out q)
  case (Suc fuel)
  obtain b v q' where "s_pop so val q = ((b, v), q')" by (metis prod.exhaust)
  with Suc show ?case by (cases b) simp_all
qed simp

lemma demo_sofi_more:
  assumes "demo_spsc_sofi so fuel = Some out"
  shows "demo_spsc_sofi so (fuel + k) = Some out"
proof -
  obtain out1 q1 where q1: "sofi_pushes so [0, 1, 2, 3, 4, 5] ([''capacity='' @ show_nat (s_capacity so (s_new so 3))], s_new so 3) = (out1, q1)"
    by fastforce
  note d = demo_spsc_sofi_def Let_def q1 prod.case
  let ?s = "(out1 @ [''size='' @ show_nat (s_size so q1)], q1)"
  obtain out2 q2 val where p: "sofi_pops so fuel (- 1) ?s = Some ((out2, q2), val)"
    using assms unfolding d by (cases "sofi_pops so fuel (- 1) ?s") auto
  show ?thesis
    using assms unfolding d unfolding p sofi_pops_more [OF p] option.case prod.case
    by (auto simp del: sofi_pushes.simps simp: case_prod_beta dest: sofi_pops_more)
qed

text \<open>
  The overwriting queue of capacity 3 keeps the three newest of six elements, the one cut
  down to capacity 4 the four newest. What the demonstration says of the six calls of \<open>push\<close>
  depends on what \<open>push\<close> returns: if it is false when nothing was overwritten, as the comment
  in the code says, the last three calls are reported as overflows with the right elements; if
  it is true then, the first three calls are reported as overflows that evicted \<open>-1\<close> and those
  that overwrote an element as \<open>ok\<close>.
\<close>

theorem sofi_demo_output:
  assumes laws: "sofi_laws kept so" and fuel: "4 < fuel"
  shows "demo_spsc_sofi so fuel = Some ([''capacity=3''] @
    (if kept
     then [''push(0) overflowed, evicted=-1'', ''push(1) overflowed, evicted=-1'',
           ''push(2) overflowed, evicted=-1'', ''push(3) ok'', ''push(4) ok'', ''push(5) ok'']
     else [''push(0) ok'', ''push(1) ok'', ''push(2) ok'', ''push(3) overflowed, evicted=0'',
           ''push(4) overflowed, evicted=1'', ''push(5) overflowed, evicted=2'']) @
    [''size=3''] @ map pop_line [3, 4, 5] @ [''after setCapacity(4): capacity=4''] @ map pop_line [2, 3, 4, 5])"
proof -
  have ls: "lawful_sofi kept so" using laws by (rule lawful_sofi.intro)
  obtain k where k: "fuel = 5 + k" using fuel by (metis Suc_leI add.commute eval_nat_numeral(3) le_Suc_ex)
  have "demo_spsc_sofi (view_sofi True) 5 = Some ([''capacity=3''] @
      [''push(0) overflowed, evicted=-1'', ''push(1) overflowed, evicted=-1'',
       ''push(2) overflowed, evicted=-1'', ''push(3) ok'', ''push(4) ok'', ''push(5) ok''] @
      [''size=3''] @ map pop_line [3, 4, 5] @ [''after setCapacity(4): capacity=4''] @ map pop_line [2, 3, 4, 5])"
    by code_simp
  moreover have "demo_spsc_sofi (view_sofi False) 5 = Some ([''capacity=3''] @
      [''push(0) ok'', ''push(1) ok'', ''push(2) ok'', ''push(3) overflowed, evicted=0'',
       ''push(4) overflowed, evicted=1'', ''push(5) overflowed, evicted=2''] @
      [''size=3''] @ map pop_line [3, 4, 5] @ [''after setCapacity(4): capacity=4''] @ map pop_line [2, 3, 4, 5])"
    by code_simp
  ultimately show ?thesis
    unfolding lawful_sofi.demo_sofi_view [OF ls] k
    by (cases kept) (simp_all only: if_True if_False demo_sofi_more)
qed

theorem sofi_demo_output_witness:
  "\<exists>out. demo_spsc_sofi (view_sofi False) 5 = Some out"
  using sofi_demo_output [OF view_sofi_laws, of 5 False] by simp

end
