(* ===== verification/Udp_Exchange.thy ===== *)
theory Udp_Exchange
  imports Prelude
begin

text \<open>
  The UDP client and server of \<open>src/boost_test/asio/010.udp_client\<close> and \<open>011.udp_server\<close>. The
  client spawns 100000 requests, each a coroutine that sends a datagram and waits for the answer
  for at most three seconds, and then polls a counter of the requests that are through; the
  server answers one datagram at a time. A step is what runs between two suspension points
  of a coroutine or two accesses to a counter; what the network, the timer and the operating
  system answer is an argument of the step.
\<close>

section \<open>The client\<close>

datatype request_kind = Time_Flush | Hello_Request

fun request_text :: "request_kind \<Rightarrow> string" where
  "request_text Time_Flush = ''time flush''"
| "request_text Hello_Request = ''Hello, UDP!''"

fun request_name :: "request_kind \<Rightarrow> string" where
  "request_name Time_Flush = ''time flush request''"
| "request_name Hello_Request = ''hello request''"

text \<open>
  Where a request is: suspended in \<open>async_send_to\<close>, in \<open>receive_with_timeout\<close>, before \<open>close\<close>
  with the request counted, or returned.
\<close>

datatype request_at = Sending | Awaiting | Closing | Returned

text \<open>
  What a request is resumed with. A receive that failed has its error redirected and counts
  as received; a call that throws carries its message.
\<close>

datatype udp_event = Sent | Received "string option" | Timed_Out | Closed | Throws string

text \<open>Where \<open>client_session\<close> is; the last two carry \<open>last_counter\<close>.\<close>

datatype session_at = Spawning nat | Testing int | Sleeping int | Recording | Completed

record udp_client =
  counter :: nat
  timeout_count :: nat
  requests :: "(request_kind \<times> request_at) list"
  session :: session_at
  sent_texts :: "string list"
  cl_console :: console

definition client_start :: udp_client where
  "client_start = \<lparr>counter = 0, timeout_count = 0, requests = [], session = Spawning 0, sent_texts = [], cl_console = []\<rparr>"

text \<open>The two \<open>catch\<close> blocks.\<close>

definition request_failed :: "request_kind \<Rightarrow> string \<Rightarrow> udp_client \<Rightarrow> udp_client" where
  "request_failed k msg c =
     c\<lparr>cl_console := cl_console c @ [''Exception in '' @ request_name k @ '': '' @ msg], counter := Suc (counter c)\<rparr>"

text \<open>
  What \<open>receive_with_timeout\<close> does once one of the two operations is complete: \<open>socket.cancel\<close>
  in the second branch may throw, before the timeout is counted.
\<close>

definition receive_with_timeout :: "udp_event \<Rightarrow> udp_client \<Rightarrow> (string + udp_client) option" where
  "receive_with_timeout ev c =
     (case ev of
        Received ec \<Rightarrow> Some (Inr c)
      | Timed_Out \<Rightarrow> Some (Inr (c\<lparr>cl_console := cl_console c @ [''Receive timeout''], timeout_count := Suc (timeout_count c)\<rparr>))
      | Throws msg \<Rightarrow> Some (Inl msg)
      | _ \<Rightarrow> None)"

definition udp_request :: "request_kind \<Rightarrow> udp_event \<Rightarrow> request_at \<Rightarrow> udp_client \<Rightarrow> (request_at \<times> udp_client) option" where
  "udp_request k ev pc c =
     (case pc of
        Sending \<Rightarrow>
          (case ev of
             Sent \<Rightarrow> Some (Awaiting, c\<lparr>sent_texts := sent_texts c @ [request_text k]\<rparr>)
           | Throws msg \<Rightarrow> Some (Returned, request_failed k msg c)
           | _ \<Rightarrow> None)
      | Awaiting \<Rightarrow>
          (case receive_with_timeout ev c of
             None \<Rightarrow> None
           | Some (Inl msg) \<Rightarrow> Some (Returned, request_failed k msg c)
           | Some (Inr c') \<Rightarrow> Some (Closing, c'\<lparr>counter := Suc (counter c')\<rparr>))
      | Closing \<Rightarrow>
          (case ev of
             Closed \<Rightarrow> Some (Returned, c)
           | Throws msg \<Rightarrow> Some (Returned, request_failed k msg c)
           | _ \<Rightarrow> None)
      | Returned \<Rightarrow> None)"

text \<open>The two coroutines differ in the text they send and in the message of their handler.\<close>

definition time_flush_request :: "udp_event \<Rightarrow> request_at \<Rightarrow> udp_client \<Rightarrow> (request_at \<times> udp_client) option" where
  "time_flush_request = udp_request Time_Flush"

definition hello_request :: "udp_event \<Rightarrow> request_at \<Rightarrow> udp_client \<Rightarrow> (request_at \<times> udp_client) option" where
  "hello_request = udp_request Hello_Request"

definition request_step :: "udp_event \<Rightarrow> nat \<Rightarrow> udp_client \<Rightarrow> udp_client option" where
  "request_step ev i c =
     (if i < length (requests c)
      then (case requests c ! i of (k, pc) \<Rightarrow>
              map_option (\<lambda>(pc', c'). c'\<lparr>requests := (requests c')[i := (k, pc')]\<rparr>)
                ((case k of Time_Flush \<Rightarrow> time_flush_request | Hello_Request \<Rightarrow> hello_request) ev pc c))
      else None)"

definition N_REQUESTS :: nat where "N_REQUESTS = 100000"
definition AWAITED :: nat where "AWAITED = 10000"

text \<open>One step of \<open>client_session\<close>; \<open>random_number\<close> is \<open>rand() % 2\<close>.\<close>

definition client_session :: "nat \<Rightarrow> udp_client \<Rightarrow> udp_client option" where
  "client_session random_number c =
     (case session c of
        Spawning i \<Rightarrow>
          if i < N_REQUESTS
          then Some (c\<lparr>requests := requests c @ [(if random_number = 0 then Time_Flush else Hello_Request, Sending)],
                       session := Spawning (Suc i)\<rparr>)
          else Some (c\<lparr>session := Testing 0\<rparr>)
      | Testing last_counter \<Rightarrow>
          if counter c \<noteq> AWAITED then Some (c\<lparr>session := Sleeping last_counter\<rparr>)
          else Some (c\<lparr>session := Completed, cl_console := cl_console c @
            [''All requests completed! Counter: '' @ show_nat (counter c), ''Timeout count: '' @ show_nat (timeout_count c)]\<rparr>)
      | Sleeping last_counter \<Rightarrow>
          Some (c\<lparr>session := Recording,
                  cl_console := cl_console c @ [''Counter: '' @ show_nat (counter c) @ '' - '' @ to_string last_counter]\<rparr>)
      | Recording \<Rightarrow> Some (c\<lparr>session := Testing (int (counter c))\<rparr>)
      | Completed \<Rightarrow> None)"

inductive udp_client_step :: "udp_client \<Rightarrow> udp_client \<Rightarrow> bool" where
  request: "request_step ev i c = Some d \<Longrightarrow> udp_client_step c d"
| session: "client_session r c = Some d \<Longrightarrow> udp_client_step c d"

inductive_cases udp_client_stepE: "udp_client_step c d"

abbreviation client_reach :: "udp_client \<Rightarrow> bool" where
  "client_reach \<equiv> reach (\<lambda>c. c = client_start) udp_client_step"

section \<open>The server\<close>

datatype 'e server_at = Receiving | Replying string 'e | Stopped

text \<open>\<open>sv_in\<close> and \<open>sv_out\<close> are the datagrams received and sent, with the other end.\<close>

record 'e udp_server =
  sv_at :: "'e server_at"
  sv_in :: "('e \<times> string) list"
  sv_out :: "('e \<times> string) list"
  sv_console :: console

definition server_start :: "'e udp_server" where
  "server_start = \<lparr>sv_at = Receiving, sv_in = [], sv_out = [], sv_console = [''Socket bound!'']\<rparr>"

definition BUFFER :: nat where "BUFFER = 1024"

text \<open>A datagram longer than the buffer is cut off.\<close>

definition response_to :: "string \<Rightarrow> string" where
  "response_to message =
     (if take BUFFER message = ''time flush'' then ''Time flush response!'' else ''Hello, UDP!'')"

text \<open>\<open>Inl\<close>: the call the server is suspended in threw; \<open>Inr\<close>: what it received, if it receives.\<close>

definition udp_async_server :: "(string + 'e \<times> string) \<Rightarrow> 'e udp_server \<Rightarrow> 'e udp_server option" where
  "udp_async_server ev s =
     (case (sv_at s, ev) of
        (Stopped, _) \<Rightarrow> None
      | (_, Inl msg) \<Rightarrow> Some (s\<lparr>sv_at := Stopped, sv_console := sv_console s @ [''Exception in server: '' @ msg]\<rparr>)
      | (Receiving, Inr (e, message)) \<Rightarrow>
          Some (s\<lparr>sv_at := Replying (response_to message) e, sv_in := sv_in s @ [(e, message)],
                  sv_console := (if take BUFFER message = ''time flush'' then sv_console s
                                 else sv_console s @ [''Message received!''])\<rparr>)
      | (Replying r e, Inr _) \<Rightarrow> Some (s\<lparr>sv_at := Receiving, sv_out := sv_out s @ [(e, r)]\<rparr>))"

fun serve :: "(string + 'e \<times> string) list \<Rightarrow> 'e udp_server \<Rightarrow> 'e udp_server option" where
  "serve [] s = Some s"
| "serve (ev # evs) s = Option.bind (udp_async_server ev s) (serve evs)"

section \<open>Accounting\<close>

text \<open>Whether the coroutine of a request has counted it, and whether it has returned.\<close>

fun is_counted :: "request_kind \<times> request_at \<Rightarrow> nat" where
  "is_counted (k, pc) = (if pc = Closing \<or> pc = Returned then 1 else 0)"

fun is_returned :: "request_kind \<times> request_at \<Rightarrow> nat" where
  "is_returned (k, pc) = (if pc = Returned then 1 else 0)"

definition counted :: "udp_client \<Rightarrow> nat" where
  "counted c = sum_list (map is_counted (requests c))"

definition returned :: "udp_client \<Rightarrow> nat" where
  "returned c = sum_list (map is_returned (requests c))"

lemma sum_map_update:
  fixes f :: "'a \<Rightarrow> nat"
  shows "i < length xs \<Longrightarrow> sum_list (map f (xs[i := y])) + f (xs ! i) = sum_list (map f xs) + f y"
  by (induction xs arbitrary: i) (auto split: nat.split)

text \<open>One resumption of a request: what it adds to the counters.\<close>

lemma udp_request_counts:
  assumes "udp_request k ev pc c = Some (pc', d)"
  shows "requests d = requests c \<and> session d = session c \<and>
    counter c + is_counted (k, pc') \<le> counter d + is_counted (k, pc) \<and>
    counter d + is_counted (k, pc) + is_returned (k, pc) \<le> counter c + is_counted (k, pc') + is_returned (k, pc') \<and>
    timeout_count d + is_counted (k, pc) \<le> timeout_count c + is_counted (k, pc') \<and>
    counter c \<le> counter d \<and> is_counted (k, pc) \<le> is_counted (k, pc')"
  using assms
  by (auto simp: udp_request_def receive_with_timeout_def request_failed_def
      split: request_at.splits udp_event.splits)

definition client_inv :: "udp_client \<Rightarrow> bool" where
  "client_inv c \<longleftrightarrow> counted c \<le> counter c \<and> counter c \<le> counted c + returned c \<and>
     timeout_count c \<le> counted c \<and>
     (case session c of Spawning i \<Rightarrow> length (requests c) = i \<and> i \<le> N_REQUESTS | _ \<Rightarrow> length (requests c) = N_REQUESTS)"

lemma request_step_cases:
  assumes "request_step ev i c = Some d"
  obtains k pc pc' e where "i < length (requests c)" "requests c ! i = (k, pc)"
    "udp_request k ev pc c = Some (pc', e)" "d = e\<lparr>requests := (requests e)[i := (k, pc')]\<rparr>"
  using assms
  by (cases "requests c ! i")
    (auto simp: request_step_def time_flush_request_def hello_request_def split: if_splits request_kind.splits)

lemma client_inv_request:
  assumes inv: "client_inv c" and st: "request_step ev i c = Some d"
  shows "client_inv d"
proof -
  from st obtain k pc pc' e where i: "i < length (requests c)" and pc: "requests c ! i = (k, pc)"
    and st: "udp_request k ev pc c = Some (pc', e)" and d: "d = e\<lparr>requests := (requests e)[i := (k, pc')]\<rparr>"
    by (rule request_step_cases)
  note e = udp_request_counts [OF st]
  have "counted d + is_counted (k, pc) = counted c + is_counted (k, pc')"
    "returned d + is_returned (k, pc) = returned c + is_returned (k, pc')"
    using sum_map_update [OF i, of is_counted "(k, pc')"] sum_map_update [OF i, of is_returned "(k, pc')"] e pc d
    by (simp_all add: counted_def returned_def)
  then show ?thesis
    using inv e d by (auto simp: client_inv_def split: session_at.splits)
qed

lemma client_inv_session:
  assumes "client_inv c" and "client_session r c = Some d"
  shows "client_inv d"
  using assms
  by (auto simp: client_inv_def client_session_def counted_def returned_def split: session_at.splits if_splits)

interpretation udp_client: invariant_system "\<lambda>c. c = client_start" udp_client_step client_inv
proof
  show "client_inv c" if "c = client_start" for c
    using that by (simp add: client_inv_def client_start_def counted_def returned_def)
  show "client_inv d" if "client_inv c" "udp_client_step c d" for c d
    using that by (auto elim!: udp_client_stepE intro: client_inv_request client_inv_session)
qed

text \<open>
  The counter of the client. It is never below the number of requests that are through
  and exceeds it by at most one for each that has returned (a \<open>close\<close> that throws is counted
  a second time by the handler); timeouts are counted at most once per request.
\<close>

theorem udp_accounting:
  assumes "client_reach c"
  shows "counted c \<le> counter c \<and> counter c \<le> counted c + returned c \<and> timeout_count c \<le> counted c \<and>
    length (requests c) \<le> N_REQUESTS"
  using udp_client.reach_inv [OF assms] by (auto simp: client_inv_def split: session_at.splits)

section \<open>The waiting loop\<close>

lemma counter_mono: "udp_client_step c d \<Longrightarrow> counter c \<le> counter d"
  by (auto elim!: udp_client_stepE request_step_cases dest: udp_request_counts
      simp: client_session_def split: session_at.splits if_splits)

fun in_loop :: "session_at \<Rightarrow> bool" where
  "in_loop (Testing _) = True"
| "in_loop (Sleeping _) = True"
| "in_loop Recording = True"
| "in_loop _ = False"

lemma loop_stays:
  assumes "in_loop (session c)" and "AWAITED < counter c" and st: "udp_client_step c d"
  shows "in_loop (session d) \<and> AWAITED < counter d"
proof -
  have "AWAITED < counter d" using counter_mono [OF st] assms(2) by simp
  moreover have "in_loop (session d)" using st
  proof cases
    case (request ev i)
    then show ?thesis using assms(1) by (auto elim!: request_step_cases dest!: udp_request_counts)
  next
    case (session r)
    then show ?thesis using assms(1,2) by (auto simp: client_session_def split: session_at.splits if_splits)
  qed
  ultimately show ?thesis by simp
qed

lemma uncounted: "counted c + sum_list (map (\<lambda>q. 1 - is_counted q) (requests c)) = length (requests c)"
proof -
  have "sum_list (map is_counted qs) + sum_list (map (\<lambda>q. 1 - is_counted q) qs) = length qs" for qs
    by (induction qs) auto
  then show ?thesis by (simp add: counted_def)
qed

text \<open>
  The waiting loop of the client compares the counter of 100000 requests with 10000, and
  only for equality. If it announces "All requests completed!", at least 90000 of them are
  not through; and once the counter has passed 10000 while the session was asleep, the
  session never leaves the loop, although all requests may be done.
\<close>

theorem waiting_loop_misses:
  assumes reach: "client_reach c"
  shows "(client_session r c = Some d \<and> session d = Completed \<longrightarrow>
      counter c = 10000 \<and> 90000 \<le> sum_list (map (\<lambda>q. 1 - is_counted q) (requests c))) \<and>
    (in_loop (session c) \<and> 10000 < counter c \<and> udp_client_step\<^sup>*\<^sup>* c e \<longrightarrow> session e \<noteq> Completed)"
proof (intro conjI impI)
  note inv = udp_client.reach_inv [OF reach]
  assume d: "client_session r c = Some d \<and> session d = Completed"
  then have c: "counter c = 10000" "length (requests c) = 100000"
    using inv by (auto simp: client_session_def AWAITED_def N_REQUESTS_def client_inv_def split: session_at.splits if_splits)
  then have "counted c \<le> 10000" using inv by (simp add: client_inv_def)
  with c uncounted [of c] show "90000 \<le> sum_list (map (\<lambda>q. 1 - is_counted q) (requests c))" by linarith
  show "counter c = 10000" by (fact c(1))
next
  assume a: "in_loop (session c) \<and> 10000 < counter c \<and> udp_client_step\<^sup>*\<^sup>* c e"
  have "in_loop (session e) \<and> AWAITED < counter e"
    using conjunct2 [OF conjunct2 [OF a]]
    by (induction rule: rtranclp_induct) (use a loop_stays in \<open>auto simp: AWAITED_def\<close>)
  then show "session e \<noteq> Completed" by auto
qed

text \<open>The run in which every request is answered before the next one is spawned.\<close>

definition all_done :: "nat \<Rightarrow> udp_client" where
  "all_done n = client_start\<lparr>counter := n, requests := replicate n (Hello_Request, Returned),
     session := Spawning n, sent_texts := replicate n ''Hello, UDP!''\<rparr>"

lemma all_done_next:
  assumes "n < N_REQUESTS"
  shows "udp_client_step\<^sup>*\<^sup>* (all_done n) (all_done (Suc n))"
proof -
  let ?a = "(all_done n)\<lparr>requests := replicate n (Hello_Request, Returned) @ [(Hello_Request, Sending)], session := Spawning (Suc n)\<rparr>"
  let ?b = "?a\<lparr>requests := replicate n (Hello_Request, Returned) @ [(Hello_Request, Awaiting)],
    sent_texts := replicate n ''Hello, UDP!'' @ [''Hello, UDP!'']\<rparr>"
  let ?c = "?b\<lparr>requests := replicate n (Hello_Request, Returned) @ [(Hello_Request, Closing)], counter := Suc n\<rparr>"
  have "client_session 1 (all_done n) = Some ?a"
    using assms by (simp add: client_session_def all_done_def client_start_def)
  moreover have "request_step Sent n ?a = Some ?b" "request_step (Received None) n ?b = Some ?c"
    by (simp_all add: request_step_def hello_request_def udp_request_def receive_with_timeout_def all_done_def
        client_start_def nth_append list_update_append)
  moreover have "request_step Closed n ?c = Some (all_done (Suc n))"
    by (simp add: request_step_def hello_request_def udp_request_def all_done_def client_start_def nth_append
        list_update_append replicate_append_same [symmetric])
  ultimately show ?thesis
    by (meson udp_client_step.request udp_client_step.session converse_rtranclp_into_rtranclp rtranclp.rtrancl_refl)
qed

lemma all_done_reach: "n \<le> N_REQUESTS \<Longrightarrow> client_reach (all_done n)"
proof (induction n)
  case 0
  have "all_done 0 = client_start" by (simp add: all_done_def client_start_def)
  then show ?case by (simp add: reach_init)
next
  case (Suc n)
  then show ?case using reach_steps [OF all_done_next] by simp
qed

lemma all_done_waiting: "client_reach (all_done N_REQUESTS\<lparr>session := Testing 0\<rparr>)"
proof (rule reach_step [OF all_done_reach [OF order_refl] udp_client_step.session])
  show "client_session 0 (all_done N_REQUESTS) = Some (all_done N_REQUESTS\<lparr>session := Testing 0\<rparr>)"
    by (simp add: client_session_def all_done_def)
qed

theorem waiting_loop_misses_witness:
  "\<exists>e. udp_client_step\<^sup>*\<^sup>* (all_done N_REQUESTS\<lparr>session := Testing 0\<rparr>) e \<and> session e = Sleeping 0 \<and>
     session e \<noteq> Completed"
proof -
  let ?c = "all_done N_REQUESTS\<lparr>session := Testing 0\<rparr>"
  have "client_session 0 ?c = Some (?c\<lparr>session := Sleeping 0\<rparr>)"
    by (simp add: client_session_def all_done_def N_REQUESTS_def AWAITED_def)
  then have run: "udp_client_step\<^sup>*\<^sup>* ?c (?c\<lparr>session := Sleeping 0\<rparr>)"
    by (meson r_into_rtranclp udp_client_step.session)
  have "in_loop (session ?c) \<and> 10000 < counter ?c" by (simp add: all_done_def N_REQUESTS_def)
  with waiting_loop_misses [OF all_done_waiting, where e = "?c\<lparr>session := Sleeping 0\<rparr>"] run
  have "session (?c\<lparr>session := Sleeping 0\<rparr>) \<noteq> Completed" by blast
  with run show ?thesis by (intro exI [of _ "?c\<lparr>session := Sleeping 0\<rparr>"]) simp
qed

theorem udp_accounting_witness:
  "counted (all_done 7) \<le> 7 \<and> 7 \<le> counted (all_done 7) + returned (all_done 7)"
  using udp_accounting [OF all_done_reach, of 7] by (simp add: all_done_def N_REQUESTS_def)

section \<open>The replies\<close>

definition answer :: "'e \<times> string \<Rightarrow> 'e \<times> string" where
  "answer d = (fst d, response_to (snd d))"

definition answered :: "('e \<times> string) list \<Rightarrow> ('e \<times> string) list \<Rightarrow> bool" where
  "answered received out \<longleftrightarrow> (\<exists>ds rest. received = ds @ rest \<and> length rest \<le> 1 \<and> out = map answer ds)"

lemma answered_all: "answered ds (map answer ds)"
  unfolding answered_def by (intro exI [of _ ds] exI [of _ "[]"]) simp

lemma answered_but_one: "answered (ds @ [d]) (map answer ds)"
  unfolding answered_def by (intro exI [of _ ds] exI [of _ "[d]"]) simp

text \<open>What the server has received is answered, the last datagram possibly not yet or never.\<close>

definition server_inv :: "'e udp_server \<Rightarrow> bool" where
  "server_inv s \<longleftrightarrow>
     (case sv_at s of
        Receiving \<Rightarrow> sv_out s = map answer (sv_in s)
      | Replying r e \<Rightarrow> (\<exists>ds d. sv_in s = ds @ [d] \<and> (e, r) = answer d \<and> sv_out s = map answer ds)
      | Stopped \<Rightarrow> answered (sv_in s) (sv_out s))"

lemma server_inv_step:
  assumes inv: "server_inv s" and st: "udp_async_server ev s = Some t"
  shows "server_inv t"
proof (cases "sv_at s")
  case Receiving
  show ?thesis
  proof (cases ev)
    case (Inl msg)
    then have "t = s\<lparr>sv_at := Stopped, sv_console := sv_console s @ [''Exception in server: '' @ msg]\<rparr>"
      using st Receiving by (simp add: udp_async_server_def)
    then show ?thesis using inv Receiving by (auto simp: server_inv_def answered_all)
  next
    case (Inr d)
    then show ?thesis using inv st Receiving
      by (cases d) (auto simp: server_inv_def udp_async_server_def answer_def)
  qed
next
  case (Replying r e)
  show ?thesis
  proof (cases ev)
    case (Inl msg)
    then have "t = s\<lparr>sv_at := Stopped, sv_console := sv_console s @ [''Exception in server: '' @ msg]\<rparr>"
      using st Replying by (simp add: udp_async_server_def)
    then show ?thesis using inv Replying by (auto simp: server_inv_def answered_but_one)
  next
    case (Inr d)
    then show ?thesis using inv st Replying by (auto simp: server_inv_def udp_async_server_def)
  qed
qed (use st in \<open>simp add: udp_async_server_def\<close>)

lemma serve_inv: "serve evs s = Some t \<Longrightarrow> server_inv s \<Longrightarrow> server_inv t"
  by (induction evs arbitrary: s) (auto split: bind_splits intro: server_inv_step)

text \<open>
  The server answers what it receives one datagram at a time, in order and to the sender,
  a request of the client with the response that belongs to it; only the last datagram may be
  without an answer. It goes on until a call throws, and then for good does nothing.
\<close>

theorem server_answers_in_order:
  assumes "serve evs server_start = Some s"
  shows "(\<exists>ds rest. sv_in s = ds @ rest \<and> length rest \<le> 1 \<and> sv_out s = map answer ds) \<and>
    answer (e, request_text Time_Flush) = (e, ''Time flush response!'') \<and>
    answer (e, request_text Hello_Request) = (e, ''Hello, UDP!'') \<and>
    (sv_at s = Stopped \<longrightarrow> (\<forall>ev. udp_async_server ev s = None)) \<and>
    (sv_at s \<noteq> Stopped \<longrightarrow> (\<forall>ev. udp_async_server ev s \<noteq> None))"
proof (intro conjI impI)
  have inv: "server_inv s"
    using serve_inv [OF assms] by (simp add: server_inv_def server_start_def)
  show "\<exists>ds rest. sv_in s = ds @ rest \<and> length rest \<le> 1 \<and> sv_out s = map answer ds"
    unfolding answered_def [symmetric]
    using inv by (cases "sv_at s") (auto simp: server_inv_def answered_all answered_but_one)
qed (auto simp: answer_def response_to_def BUFFER_def udp_async_server_def split: server_at.splits sum.splits prod.splits)

theorem server_answers_in_order_witness:
  "\<exists>s. serve [Inr (7 :: nat, ''time flush''), Inr (0, []), Inr (8, ''hi'')] server_start = Some s \<and>
     sv_out s = [(7, ''Time flush response!'')] \<and>
     (\<exists>ds rest. sv_in s = ds @ rest \<and> length rest \<le> 1 \<and> sv_out s = map answer ds)"
proof -
  obtain s where s: "serve [Inr (7 :: nat, ''time flush''), Inr (0, []), Inr (8, ''hi'')] server_start = Some s"
    "sv_out s = [(7, ''Time flush response!'')]"
    by (simp add: server_start_def udp_async_server_def response_to_def BUFFER_def)
  have "\<exists>ds rest. sv_in s = ds @ rest \<and> length rest \<le> 1 \<and> sv_out s = map answer ds"
    by (rule conjunct1 [OF server_answers_in_order [OF s(1), of 0]])
  with s show ?thesis by (intro exI [of _ s] conjI)
qed

end
