(* ===== verification/Callable_Holder.thy ===== *)
theory Callable_Holder
  imports Prelude
begin

text \<open>
  The two designs of \<open>src/cpp_test/stand_cpp/017.gmock\<close> for a callable that can be replaced:
  one with virtual functions, held through a pointer, and one with a base class that gets the
  derived class as a template parameter. Mock objects are gmock code: the argument \<open>mk\<close>, with
  \<open>mock_laws\<close> saying what an expectation of one call is documented to do. The last section is
  the pointer proxy of \<open>012.ptr_proxy\<close>, which puts a hook before and after every call.
\<close>

section \<open>Mock objects\<close>

text \<open>
  A mock on which one call with the argument \<open>x\<close> is expected and answered with \<open>b\<close>; a call; and
  whether all expectations were met when the mock is destroyed.
\<close>

record 'm mock_ops =
  mk_expect_once :: "int \<Rightarrow> bool \<Rightarrow> 'm"
  mk_call :: "int \<Rightarrow> 'm \<Rightarrow> bool \<times> 'm"
  mk_verified :: "'m \<Rightarrow> bool"

definition mock_laws :: "'m mock_ops \<Rightarrow> bool" where
  "mock_laws mk \<longleftrightarrow>
     (\<forall>x b. \<exists>m. mk_call mk x (mk_expect_once mk x b) = (b, m) \<and> mk_verified mk m) \<and>
     (\<forall>x b. \<not> mk_verified mk (mk_expect_once mk x b))"

text \<open>A concrete mock: the expectation and the number of calls.\<close>

definition once_mock :: "(int \<times> bool \<times> nat) mock_ops" where
  "once_mock = \<lparr>mk_expect_once = (\<lambda>x b. (x, b, 0)),
     mk_call = (\<lambda>y (x, b, n). if y = x \<and> n = 0 then (b, (x, b, 1)) else (False, (x, b, Suc n))),
     mk_verified = (\<lambda>(x, b, n). n = 1)\<rparr>"

lemma once_mock_laws: "mock_laws once_mock"
  by (simp add: mock_laws_def once_mock_def)

section \<open>Virtual functions\<close>

datatype 'm callable = DefaultCallable | MockCallable 'm

definition default_line :: "int \<Rightarrow> string" where
  "default_line t = ''[virtual] DefaultCallable: '' @ to_string t @ '' ''"

text \<open>\<open>operator()\<close>: the answer, what is printed and the object after the call.\<close>

fun call_virtual :: "'m mock_ops \<Rightarrow> int \<Rightarrow> 'm callable \<Rightarrow> bool \<times> console \<times> 'm callable" where
  "call_virtual mk t DefaultCallable = (True, [default_line t], DefaultCallable)"
| "call_virtual mk t (MockCallable m) = (let (b, m') = mk_call mk t m in (b, [], MockCallable m'))"

section \<open>The derived class as a template parameter\<close>

text \<open>
  What a derived class has: \<open>do_call\<close>, with the object's state \<open>'d\<close>, and hooks of its own.
\<close>

record 'd derived =
  do_call :: "int \<Rightarrow> 'd \<Rightarrow> bool \<times> console \<times> 'd"
  own_before_call :: console
  own_after_call :: "bool \<Rightarrow> console"

text \<open>
  The hooks of \<open>CallableBase\<close>. Its \<open>operator()\<close> calls them by their plain names; they are not
  virtual and \<open>self()\<close> is not used, so these are the functions that are called.
\<close>

definition before_call :: console where "before_call = []"
definition after_call :: "bool \<Rightarrow> console" where "after_call result = []"

definition call_crtp :: "'d derived \<Rightarrow> int \<Rightarrow> 'd \<Rightarrow> bool \<times> console \<times> 'd" where
  "call_crtp D t d =
     (let (result, out, d') = do_call D t d in (result, before_call @ out @ after_call result, d'))"

definition DefaultCallable_crtp :: "unit derived" where
  "DefaultCallable_crtp = \<lparr>do_call = (\<lambda>t d. (True, [''[crtp] DefaultCallable: '' @ to_string t], d)),
     own_before_call = [], own_after_call = (\<lambda>_. [])\<rparr>"

definition LoggedCallable :: "unit derived" where
  "LoggedCallable = \<lparr>do_call = (\<lambda>t d. (t > 0, [''[crtp] LoggedCallable: '' @ to_string t], d)),
     own_before_call = [''[crtp]   >> before_call''],
     own_after_call = (\<lambda>r. [''[crtp]   >> after_call, result='' @ (if r then ''true'' else ''false'')])\<rparr>"

definition MockCallable_crtp :: "'m mock_ops \<Rightarrow> 'm derived" where
  "MockCallable_crtp mk = \<lparr>do_call = (\<lambda>t m. let (b, m') = mk_call mk t m in (b, [], m')),
     own_before_call = [], own_after_call = (\<lambda>_. [])\<rparr>"

section \<open>The holders and the tests\<close>

text \<open>
  \<open>SimpleMock\<close>, a \<open>std::function\<close>: empty, the lambda that refers to the mock of the test that
  stored it, or the lambda of the last test.
\<close>

datatype simple_mock = Empty_Function | Refers_To_Mock | Equals_42

text \<open>
  The static members: \<open>ptr_\<close> of the virtual holder and \<open>func_\<close> of the holder of \<open>SimpleMock\<close>.
  The static members of the other holders have no state.
\<close>

record 'm statics =
  v_ptr :: "'m callable option"
  s_func :: simple_mock
  g_console :: console

definition statics_start :: "'m statics" where
  "statics_start = \<lparr>v_ptr = Some DefaultCallable, s_func = Empty_Function, g_console = []\<rparr>"

definition setFunc_virtual :: "'m callable option \<Rightarrow> 'm statics \<Rightarrow> 'm statics" where
  "setFunc_virtual p g = g\<lparr>v_ptr := p\<rparr>"

definition getFunc_virtual :: "'m statics \<Rightarrow> 'm callable option" where
  "getFunc_virtual g = v_ptr g"

text \<open>How a test ends; \<open>Crash\<close>: a null pointer or an object that is gone was used.\<close>

datatype verdict = Pass | Fail | Crash

definition test_virtual_default :: "'m mock_ops \<Rightarrow> 'm statics \<Rightarrow> verdict \<times> 'm statics" where
  "test_virtual_default mk g =
     (case getFunc_virtual g of
        None \<Rightarrow> (Crash, g)
      | Some c \<Rightarrow>
          (let (b, out, c') = call_virtual mk 42 c; g' = (setFunc_virtual (Some c') g)\<lparr>g_console := g_console g @ out\<rparr>
           in if b then (Pass, setFunc_virtual None g') else (Fail, g')))"

text \<open>Replacing the pointer at the end destroys the mock, which checks its expectations.\<close>

definition test_virtual_mock :: "'m mock_ops \<Rightarrow> 'm statics \<Rightarrow> verdict \<times> 'm statics" where
  "test_virtual_mock mk g =
     (let g1 = setFunc_virtual (Some (MockCallable (mk_expect_once mk 42 True))) g
      in case getFunc_virtual g1 of
           Some (MockCallable m) \<Rightarrow>
             (let (b, m') = mk_call mk 42 m; g2 = setFunc_virtual (Some (MockCallable m')) g1
              in if b then (if mk_verified mk m' then Pass else Fail, setFunc_virtual None g2) else (Fail, g2))
         | _ \<Rightarrow> (Crash, g1))"

definition test_crtp_default :: "'m statics \<Rightarrow> verdict \<times> 'm statics" where
  "test_crtp_default g =
     (let (b, out, _) = call_crtp DefaultCallable_crtp 42 ()
      in (if b then Pass else Fail, g\<lparr>g_console := g_console g @ out\<rparr>))"

definition test_crtp_logged :: "'m statics \<Rightarrow> verdict \<times> 'm statics" where
  "test_crtp_logged g =
     (let (b, out, _) = call_crtp LoggedCallable 42 ()
      in if \<not> b then (Fail, g\<lparr>g_console := g_console g @ out\<rparr>)
         else (let (b', out', _) = call_crtp LoggedCallable (-1) ()
               in (if b' then Fail else Pass, g\<lparr>g_console := g_console g @ out @ out'\<rparr>)))"

text \<open>\<open>invoke\<close> of the holder of \<open>SimpleMock\<close>, with the mock of the running test, if it has one.\<close>

definition invoke_simple :: "'m mock_ops \<Rightarrow> int \<Rightarrow> 'm option \<Rightarrow> simple_mock \<Rightarrow> (bool \<times> 'm option) option" where
  "invoke_simple mk t local f =
     (case f of
        Empty_Function \<Rightarrow> None
      | Equals_42 \<Rightarrow> Some (t = 42, local)
      | Refers_To_Mock \<Rightarrow>
          (case local of
             None \<Rightarrow> None
           | Some m \<Rightarrow> (let (b, _, m') = call_crtp (MockCallable_crtp mk) t m in Some (b, Some m'))))"

definition test_crtp_mock :: "'m mock_ops \<Rightarrow> 'm statics \<Rightarrow> verdict \<times> 'm statics" where
  "test_crtp_mock mk g =
     (let g' = g\<lparr>s_func := Refers_To_Mock\<rparr>
      in case invoke_simple mk 42 (Some (mk_expect_once mk 42 True)) (s_func g') of
           Some (b, Some m) \<Rightarrow> (if b \<and> mk_verified mk m then Pass else Fail, g')
         | _ \<Rightarrow> (Crash, g'))"

definition test_crtp_function :: "'m mock_ops \<Rightarrow> 'm statics \<Rightarrow> verdict \<times> 'm statics" where
  "test_crtp_function mk g =
     (let g' = g\<lparr>s_func := Equals_42\<rparr>
      in case (invoke_simple mk 42 None (s_func g'), invoke_simple mk 99 None (s_func g')) of
           (Some (b, _), Some (b', _)) \<Rightarrow> (if b \<and> \<not> b' then Pass else Fail, g')
         | _ \<Rightarrow> (Crash, g'))"

datatype test_name = Virtual_Default | Virtual_Mock | Crtp_Default | Crtp_Logged | Crtp_Mock | Crtp_Function

fun run_test :: "'m mock_ops \<Rightarrow> test_name \<Rightarrow> 'm statics \<Rightarrow> verdict \<times> 'm statics" where
  "run_test mk Virtual_Default = test_virtual_default mk"
| "run_test mk Virtual_Mock = test_virtual_mock mk"
| "run_test mk Crtp_Default = test_crtp_default"
| "run_test mk Crtp_Logged = test_crtp_logged"
| "run_test mk Crtp_Mock = test_crtp_mock mk"
| "run_test mk Crtp_Function = test_crtp_function mk"

text \<open>\<open>RUN_ALL_TESTS\<close>: the tests of a list in one process, up to a crash.\<close>

fun run_tests :: "'m mock_ops \<Rightarrow> test_name list \<Rightarrow> 'm statics \<Rightarrow> verdict list \<times> 'm statics" where
  "run_tests mk [] g = ([], g)"
| "run_tests mk (t # ts) g =
     (case run_test mk t g of
        (Crash, g') \<Rightarrow> ([Crash], g')
      | (v, g') \<Rightarrow> (let (vs, g'') = run_tests mk ts g' in (v # vs, g'')))"

definition all_tests :: "test_name list" where
  "all_tests = [Virtual_Default, Virtual_Mock, Crtp_Default, Crtp_Logged, Crtp_Mock, Crtp_Function]"

section \<open>Properties\<close>

lemma mock_once:
  assumes "mock_laws mk"
  obtains m where "mk_call mk x (mk_expect_once mk x b) = (b, m)" "mk_verified mk m"
  using assms unfolding mock_laws_def by blast

text \<open>The single tests; every one but the first passes in every state.\<close>

lemma run_test_outcome:
  assumes laws: "mock_laws mk"
  shows "run_test mk Virtual_Mock g = (Pass, g\<lparr>v_ptr := None\<rparr>)"
    "fst (run_test mk Crtp_Default g) = Pass \<and> v_ptr (snd (run_test mk Crtp_Default g)) = v_ptr g"
    "fst (run_test mk Crtp_Logged g) = Pass \<and> v_ptr (snd (run_test mk Crtp_Logged g)) = v_ptr g"
    "run_test mk Crtp_Mock g = (Pass, g\<lparr>s_func := Refers_To_Mock\<rparr>)"
    "run_test mk Crtp_Function g = (Pass, g\<lparr>s_func := Equals_42\<rparr>)"
proof -
  obtain m where m: "mk_call mk 42 (mk_expect_once mk 42 True) = (True, m)" "mk_verified mk m"
    using mock_once [OF laws] by blast
  show "run_test mk Virtual_Mock g = (Pass, g\<lparr>v_ptr := None\<rparr>)"
    using m by (simp add: test_virtual_mock_def setFunc_virtual_def getFunc_virtual_def)
  show "run_test mk Crtp_Mock g = (Pass, g\<lparr>s_func := Refers_To_Mock\<rparr>)"
    using m by (simp add: test_crtp_mock_def invoke_simple_def call_crtp_def MockCallable_crtp_def)
  show "run_test mk Crtp_Function g = (Pass, g\<lparr>s_func := Equals_42\<rparr>)"
    by (simp add: test_crtp_function_def invoke_simple_def)
qed (simp_all add: test_crtp_default_def test_crtp_logged_def call_crtp_def DefaultCallable_crtp_def LoggedCallable_def)

lemma run_virtual_default:
  "run_test mk Virtual_Default g =
     (case v_ptr g of
        None \<Rightarrow> (Crash, g)
      | Some DefaultCallable \<Rightarrow> (Pass, g\<lparr>v_ptr := None, g_console := g_console g @ [default_line 42]\<rparr>)
      | Some (MockCallable m) \<Rightarrow> run_test mk Virtual_Default g)"
  by (auto simp: test_virtual_default_def getFunc_virtual_def setFunc_virtual_def split: option.split callable.split)

text \<open>Whether the holder's pointer is null after a list of tests.\<close>

definition clears :: "test_name \<Rightarrow> bool" where
  "clears t \<longleftrightarrow> t = Virtual_Default \<or> t = Virtual_Mock"

fun order_ok :: "bool \<Rightarrow> test_name list \<Rightarrow> bool" where
  "order_ok present [] = True"
| "order_ok present (t # ts) = ((t = Virtual_Default \<longrightarrow> present) \<and> order_ok (present \<and> \<not> clears t) ts)"

lemma run_tests_order:
  assumes laws: "mock_laws mk"
  shows "v_ptr g = (if present then Some DefaultCallable else None) \<Longrightarrow>
    (fst (run_tests mk ts g) = replicate (length ts) Pass) = order_ok present ts \<and>
    (\<not> order_ok present ts \<longrightarrow> last (fst (run_tests mk ts g)) = Crash)"
proof (induction ts arbitrary: g present)
  case (Cons t ts)
  show ?case
  proof (cases "t = Virtual_Default \<and> \<not> present")
    case True
    then show ?thesis using Cons.prems run_virtual_default [of mk g] by simp
  next
    case False
    obtain g' where g': "run_test mk t g = (Pass, g')"
      "v_ptr g' = (if present \<and> \<not> clears t then Some DefaultCallable else None)"
      using False Cons.prems run_test_outcome [OF laws, of g] run_virtual_default [of mk g]
      by (cases t; cases "run_test mk t g"; cases present) (auto simp: clears_def simp del: run_test.simps)
    obtain vs g'' where r: "run_tests mk ts g' = (vs, g'')" by fastforce
    have "vs \<noteq> []" if "\<not> order_ok (present \<and> \<not> clears t) ts"
      using that r by (cases ts) (auto split: prod.splits verdict.splits)
    then show ?thesis using Cons.IH [OF g'(2)] g' r False by auto
  qed
qed simp

lemma all_splits_Cons:
  "(\<forall>xs ys. t # ts = xs @ v # ys \<longrightarrow> P xs) \<longleftrightarrow>
   (t = v \<longrightarrow> P []) \<and> (\<forall>xs ys. ts = xs @ v # ys \<longrightarrow> P (t # xs))" (is "?l = ?r")
proof
  assume ?l
  then show ?r by (metis append_Cons append_Nil)
next
  assume r: ?r
  show ?l
  proof (intro allI impI)
    fix xs ys assume "t # ts = xs @ v # ys"
    then show "P xs" using r by (cases xs) auto
  qed
qed

lemma order_ok_iff:
  "order_ok present ts \<longleftrightarrow>
     (\<forall>xs ys. ts = xs @ Virtual_Default # ys \<longrightarrow> present \<and> (\<forall>t \<in> set xs. \<not> clears t))"
proof (induction ts arbitrary: present)
  case (Cons t ts)
  show ?case unfolding order_ok.simps Cons.IH all_splits_Cons by auto
qed simp

text \<open>
  The order of the tests matters. A list of tests run in one process passes exactly when
  no \<open>VirtualImpl\<close> test stands before a \<open>VirtualImpl.DefaultCallable\<close>: each of the two leaves a
  null pointer in the holder, and the first one dereferences what it finds. Otherwise the
  process crashes. The tests pass in the order of the file and crash when they are repeated.
\<close>

theorem virtual_tests_depend_on_order:
  assumes laws: "mock_laws mk"
  shows "(fst (run_tests mk ts statics_start) = replicate (length ts) Pass \<longleftrightarrow>
      \<not> (\<exists>xs ys. ts = xs @ Virtual_Default # ys \<and> (\<exists>t \<in> set xs. clears t))) \<and>
    (fst (run_tests mk ts statics_start) \<noteq> replicate (length ts) Pass \<longrightarrow>
      last (fst (run_tests mk ts statics_start)) = Crash) \<and>
    fst (run_tests mk all_tests statics_start) = replicate 6 Pass \<and>
    last (fst (run_tests mk (all_tests @ all_tests) statics_start)) = Crash"
proof -
  have order: "(fst (run_tests mk us statics_start) = replicate (length us) Pass) = order_ok True us \<and>
      (\<not> order_ok True us \<longrightarrow> last (fst (run_tests mk us statics_start)) = Crash)" for us
    using run_tests_order [OF laws, of statics_start True us] by (simp add: statics_start_def)
  have "order_ok True all_tests" "\<not> order_ok True (all_tests @ all_tests)" "length all_tests = 6"
    by (simp_all add: all_tests_def clears_def)
  then show ?thesis using order [of ts] order [of all_tests] order [of "all_tests @ all_tests"]
    by (auto simp: order_ok_iff [of True ts])
qed

theorem virtual_tests_depend_on_order_witness:
  "fst (run_tests once_mock all_tests statics_start) = replicate 6 Pass \<and>
   last (fst (run_tests once_mock (all_tests @ all_tests) statics_start)) = Crash"
  using virtual_tests_depend_on_order [OF once_mock_laws, of "[]"] by blast

text \<open>
  The hooks of a derived class are never called: \<open>operator()\<close> of the base class behaves the
  same whatever hooks the derived class defines, and the calls of \<open>LoggedCallable\<close> print one
  line only, where a call through \<open>self()\<close> would print three.
\<close>

theorem derived_hooks_never_called:
  "call_crtp (D\<lparr>own_before_call := b, own_after_call := a\<rparr>) t d = call_crtp D t d \<and>
   call_crtp LoggedCallable x () = (x > 0, [''[crtp] LoggedCallable: '' @ to_string x], ()) \<and>
   fst (snd (call_crtp LoggedCallable x ())) \<noteq>
     own_before_call LoggedCallable @ fst (snd (do_call LoggedCallable x ())) @ own_after_call LoggedCallable (x > 0)"
  by (simp add: call_crtp_def before_call_def after_call_def LoggedCallable_def split: prod.split)

section \<open>The pointer proxy\<close>

text \<open>
  A member function of the object: what it returns or throws, what it prints, and the object
  after it.
\<close>

type_synonym ('o, 'r) member = "'o \<Rightarrow> (string + 'r) \<times> console \<times> 'o"

definition beforeInvoke :: "bool \<times> console" where "beforeInvoke = (True, [''Before invoke''])"
definition afterInvoke :: console where "afterInvoke = [''After invoke'']"

text \<open>\<open>operator()\<close>; for a function that returns nothing the result is \<open>true\<close>.\<close>

definition proxy_call :: "('r \<Rightarrow> 's) \<Rightarrow> ('o, 'r) member \<Rightarrow> ('o, 's option) member" where
  "proxy_call wrap f obj =
     (case beforeInvoke of
        (False, out) \<Rightarrow> (Inr None, out, obj)
      | (True, out) \<Rightarrow>
          (case f obj of
             (Inl e, out', obj') \<Rightarrow> (Inl e, out @ out', obj')
           | (Inr r, out', obj') \<Rightarrow> (Inr (Some (wrap r)), out @ out' @ afterInvoke, obj')))"

definition A_test :: "(unit, unit) member" where "A_test obj = (Inr (), [''A test''], obj)"
definition A_test2 :: "int \<Rightarrow> (unit, int) member" where "A_test2 a obj = (Inr a, [''A test2''], obj)"

definition proxy_main :: console where
  "proxy_main = [''A constructor''] @ fst (snd (proxy_call (\<lambda>_. True) A_test ())) @
     fst (snd (proxy_call (\<lambda>r. r) (A_test2 1) ())) @
     (case fst (proxy_call (\<lambda>r. r) (A_test2 1) ()) of Inr (Some r) \<Rightarrow> [''Result: '' @ to_string r] | _ \<Rightarrow> []) @
     [''PtrProxy destructor'', ''A destructor'']"

text \<open>
  The proxy does to the object exactly what the call does and passes its result or its
  exception on; the line before is always printed, the line after only when the call returned.
\<close>

theorem proxy_is_transparent:
  "(case f obj of (r, out, obj') \<Rightarrow>
      proxy_call wrap f obj =
        (case r of
           Inl e \<Rightarrow> (Inl e, ''Before invoke'' # out, obj')
         | Inr v \<Rightarrow> (Inr (Some (wrap v)), ''Before invoke'' # out @ [''After invoke''], obj'))) \<and>
   proxy_main = [''A constructor'', ''Before invoke'', ''A test'', ''After invoke'', ''Before invoke'', ''A test2'',
     ''After invoke'', ''Result: 1'', ''PtrProxy destructor'', ''A destructor'']"
proof
  show "case f obj of (r, out, obj') \<Rightarrow>
      proxy_call wrap f obj =
        (case r of
           Inl e \<Rightarrow> (Inl e, ''Before invoke'' # out, obj')
         | Inr v \<Rightarrow> (Inr (Some (wrap v)), ''Before invoke'' # out @ [''After invoke''], obj'))"
    by (simp add: proxy_call_def beforeInvoke_def afterInvoke_def split: sum.split prod.split)
  show "proxy_main = [''A constructor'', ''Before invoke'', ''A test'', ''After invoke'', ''Before invoke'', ''A test2'',
     ''After invoke'', ''Result: 1'', ''PtrProxy destructor'', ''A destructor'']"
    by code_simp
qed

end
