(* ===== verification/Unix_Socket.thy ===== *)
theory Unix_Socket
  imports Prelude
begin

text \<open>
  The request and the reply of \<open>src/cpp_test/iceoryx/016.unix_domain_socket\<close>: a server thread
  and a client, which is the main thread, each receive on a socket of their own and send on
  the other's. The sockets are iceoryx code over the operating system: the argument \<open>uds\<close>,
  a relation between a call, its answer and the channels before and after, of which
  \<open>uds_law\<close> says what is documented. A step of a thread is one such call with what the thread
  does up to the next one.
\<close>

section \<open>Sockets\<close>

datatype uds_call =
    Unlink string | Create_Server string | Create_Client string
  | Send string string | Receive string | Close_Server string

datatype uds_answer = Done | Message string | Error int

text \<open>The messages that wait at each socket that exists.\<close>

type_synonym channels = "string \<rightharpoonup> string list"

fun documented :: "uds_call \<Rightarrow> uds_answer \<Rightarrow> channels \<Rightarrow> channels \<Rightarrow> bool" where
  "documented (Close_Server n) a c d = (d = c(n := None))"
| "documented call (Error e) c d = (d = c)"
| "documented (Unlink n) Done c d = (d = c(n := None))"
| "documented (Create_Server n) Done c d = (d = c(n \<mapsto> []))"
| "documented (Create_Client n) Done c d = (c n \<noteq> None \<and> d = c)"
| "documented (Send n m) Done c d = (\<exists>ms. c n = Some ms \<and> d = c(n \<mapsto> ms @ [m]))"
| "documented (Receive n) (Message m) c d = (\<exists>ms. c n = Some (m # ms) \<and> d = c(n \<mapsto> ms))"
| "documented call a c d = False"

definition uds_law :: "(uds_call \<Rightarrow> uds_answer \<Rightarrow> channels \<Rightarrow> channels \<Rightarrow> bool) \<Rightarrow> bool" where
  "uds_law uds \<longleftrightarrow> (\<forall>call a c d. uds call a c d \<longrightarrow> documented call a c d)"

lemma documented_law: "uds_law documented"
  by (simp add: uds_law_def)

section \<open>The two threads\<close>

definition REQUEST_SOCKET_NAME :: string where "REQUEST_SOCKET_NAME = ''test_socket_request''"
definition REPLY_SOCKET_NAME :: string where "REPLY_SOCKET_NAME = ''test_socket_reply''"

lemmas socket_names = REQUEST_SOCKET_NAME_def REPLY_SOCKET_NAME_def

definition MAX_RETRIES :: nat where "MAX_RETRIES = 50"

text \<open>
  \<open>createClientSocketWithRetry\<close>: the answer to attempt number \<open>attempt\<close> either ends it or
  leads to the next attempt; after the last one it returns \<open>NO_SUCH_CHANNEL\<close>, whose number is
  the argument \<open>nsc\<close>, whatever the errors were.
\<close>

datatype retry = Connected | Next_Attempt nat | Gave_Up int

definition createClientSocketWithRetry :: "int \<Rightarrow> nat \<Rightarrow> uds_answer \<Rightarrow> retry" where
  "createClientSocketWithRetry nsc attempt a =
     (case a of
        Error _ \<Rightarrow> if Suc attempt < MAX_RETRIES then Next_Attempt (Suc attempt) else Gave_Up nsc
      | _ \<Rightarrow> Connected)"

text \<open>
  Where \<open>server\<close> is: at the calls it makes, in order; \<open>S_Close\<close> is the destructor of its socket.
\<close>

datatype uds_server_pc = S_Create | S_Receive | S_Connect nat string | S_Reply string | S_Close | S_Ended

fun uds_server_call :: "uds_server_pc \<Rightarrow> uds_call option" where
  "uds_server_call S_Create = Some (Create_Server REQUEST_SOCKET_NAME)"
| "uds_server_call S_Receive = Some (Receive REQUEST_SOCKET_NAME)"
| "uds_server_call (S_Connect k m) = Some (Create_Client REPLY_SOCKET_NAME)"
| "uds_server_call (S_Reply m) = Some (Send REPLY_SOCKET_NAME (''ack: '' @ m))"
| "uds_server_call S_Close = Some (Close_Server REQUEST_SOCKET_NAME)"
| "uds_server_call S_Ended = None"

definition failed :: "string \<Rightarrow> int \<Rightarrow> console" where
  "failed what e = [what @ '' failed, error='' @ to_string e]"

fun server :: "int \<Rightarrow> uds_server_pc \<Rightarrow> uds_answer \<Rightarrow> uds_server_pc \<times> console" where
  "server nsc S_Create a =
     (case a of Error e \<Rightarrow> (S_Ended, failed ''request server create'' e) | _ \<Rightarrow> (S_Receive, []))"
| "server nsc S_Receive a =
     (case a of
        Message m \<Rightarrow> (S_Connect 0 m, [''server received: '' @ m])
      | Error e \<Rightarrow> (S_Close, failed ''request receive'' e)
      | Done \<Rightarrow> (S_Close, []))"
| "server nsc (S_Connect k m) a =
     (case createClientSocketWithRetry nsc k a of
        Connected \<Rightarrow> (S_Reply m, [])
      | Next_Attempt k' \<Rightarrow> (S_Connect k' m, [])
      | Gave_Up e \<Rightarrow> (S_Close, failed ''reply client create'' e))"
| "server nsc (S_Reply m) a =
     (case a of Error e \<Rightarrow> (S_Close, failed ''reply send'' e) | _ \<Rightarrow> (S_Close, []))"
| "server nsc S_Close a = (S_Ended, [])"
| "server nsc S_Ended a = (S_Ended, [])"

datatype uds_client_pc = C_Create | C_Connect nat | C_Send | C_Receive | C_Close | C_Ended

definition greeting :: string where "greeting = ''hello from client''"

fun uds_client_call :: "uds_client_pc \<Rightarrow> uds_call option" where
  "uds_client_call C_Create = Some (Create_Server REPLY_SOCKET_NAME)"
| "uds_client_call (C_Connect k) = Some (Create_Client REQUEST_SOCKET_NAME)"
| "uds_client_call C_Send = Some (Send REQUEST_SOCKET_NAME greeting)"
| "uds_client_call C_Receive = Some (Receive REPLY_SOCKET_NAME)"
| "uds_client_call C_Close = Some (Close_Server REPLY_SOCKET_NAME)"
| "uds_client_call C_Ended = None"

fun client :: "int \<Rightarrow> uds_client_pc \<Rightarrow> uds_answer \<Rightarrow> uds_client_pc \<times> console" where
  "client nsc C_Create a =
     (case a of Error e \<Rightarrow> (C_Ended, failed ''reply server create'' e) | _ \<Rightarrow> (C_Connect 0, []))"
| "client nsc (C_Connect k) a =
     (case createClientSocketWithRetry nsc k a of
        Connected \<Rightarrow> (C_Send, [])
      | Next_Attempt k' \<Rightarrow> (C_Connect k', [])
      | Gave_Up e \<Rightarrow> (C_Close, failed ''request client create'' e))"
| "client nsc C_Send a =
     (case a of Error e \<Rightarrow> (C_Close, failed ''client send'' e) | _ \<Rightarrow> (C_Receive, []))"
| "client nsc C_Receive a =
     (case a of
        Message m \<Rightarrow> (C_Close, [''client received: '' @ m])
      | Error e \<Rightarrow> (C_Close, failed ''client receive'' e)
      | Done \<Rightarrow> (C_Close, []))"
| "client nsc C_Close a = (C_Ended, [])"
| "client nsc C_Ended a = (C_Ended, [])"

section \<open>The program\<close>

text \<open>\<open>main\<close>: the two calls of \<open>cleanupSocket\<close>, the threads, the return value.\<close>

datatype main_pc = M_Clean_Request | M_Clean_Reply | M_Running | M_Returned int

record uds_program =
  chans :: channels
  main_at :: main_pc
  server_at :: uds_server_pc
  client_at :: uds_client_pc
  u_console :: console

definition program_start :: "channels \<Rightarrow> uds_program" where
  "program_start c = \<lparr>chans = c, main_at = M_Clean_Request, server_at = S_Create, client_at = C_Create, u_console = []\<rparr>"

definition cleanupSocket :: "string \<Rightarrow> uds_answer \<Rightarrow> bool \<times> console" where
  "cleanupSocket name a =
     (case a of
        Error e \<Rightarrow> (False, [''cleanup failed for '' @ name @ '', error='' @ to_string e])
      | _ \<Rightarrow> (True, []))"

definition cleaned :: "main_pc \<Rightarrow> bool \<times> console \<Rightarrow> uds_program \<Rightarrow> uds_program" where
  "cleaned next r s =
     s\<lparr>main_at := (if fst r then next else M_Returned 1), u_console := u_console s @ snd r\<rparr>"

inductive uds_step ::
  "(uds_call \<Rightarrow> uds_answer \<Rightarrow> channels \<Rightarrow> channels \<Rightarrow> bool) \<Rightarrow> int \<Rightarrow> uds_program \<Rightarrow> uds_program \<Rightarrow> bool"
  for uds nsc where
  clean_request: "main_at s = M_Clean_Request \<Longrightarrow> uds (Unlink REQUEST_SOCKET_NAME) a (chans s) d \<Longrightarrow>
    uds_step uds nsc s (cleaned M_Clean_Reply (cleanupSocket REQUEST_SOCKET_NAME a) (s\<lparr>chans := d\<rparr>))"
| clean_reply: "main_at s = M_Clean_Reply \<Longrightarrow> uds (Unlink REPLY_SOCKET_NAME) a (chans s) d \<Longrightarrow>
    uds_step uds nsc s (cleaned M_Running (cleanupSocket REPLY_SOCKET_NAME a) (s\<lparr>chans := d\<rparr>))"
| server: "main_at s = M_Running \<Longrightarrow> uds_server_call (server_at s) = Some call \<Longrightarrow> uds call a (chans s) d \<Longrightarrow>
    server nsc (server_at s) a = (pc, out) \<Longrightarrow>
    uds_step uds nsc s (s\<lparr>chans := d, server_at := pc, u_console := u_console s @ out\<rparr>)"
| client: "main_at s = M_Running \<Longrightarrow> uds_client_call (client_at s) = Some call \<Longrightarrow> uds call a (chans s) d \<Longrightarrow>
    client nsc (client_at s) a = (pc, out) \<Longrightarrow>
    uds_step uds nsc s (s\<lparr>chans := d, client_at := pc, u_console := u_console s @ out\<rparr>)"
| join: "main_at s = M_Running \<Longrightarrow> client_at s = C_Ended \<Longrightarrow> server_at s = S_Ended \<Longrightarrow>
    uds_step uds nsc s (s\<lparr>main_at := M_Returned 0\<rparr>)"

abbreviation uds_reach ::
  "(uds_call \<Rightarrow> uds_answer \<Rightarrow> channels \<Rightarrow> channels \<Rightarrow> bool) \<Rightarrow> int \<Rightarrow> channels \<Rightarrow> uds_program \<Rightarrow> bool" where
  "uds_reach uds nsc c \<equiv> reach (\<lambda>s. s = program_start c) (uds_step uds nsc)"

section \<open>The invariant\<close>

definition at_socket :: "string \<Rightarrow> channels \<Rightarrow> string list" where
  "at_socket n c = (case c n of None \<Rightarrow> [] | Some ms \<Rightarrow> ms)"

lemma at_socket_simps [simp]:
  "c n = None \<Longrightarrow> at_socket n c = []" "c n = Some ms \<Longrightarrow> at_socket n c = ms"
  by (simp_all add: at_socket_def)

lemma at_socket_upd [simp]:
  "at_socket n (c(k := v)) = (if n = k then (case v of None \<Rightarrow> [] | Some ms \<Rightarrow> ms) else at_socket n c)"
  by (simp add: at_socket_def)

definition ack :: string where "ack = ''ack: '' @ greeting"

definition past_send :: "uds_client_pc \<Rightarrow> bool" where
  "past_send pc \<longleftrightarrow> pc = C_Receive \<or> pc = C_Close \<or> pc = C_Ended"

fun has_request :: "uds_server_pc \<Rightarrow> string option" where
  "has_request (S_Connect k m) = Some m"
| "has_request (S_Reply m) = Some m"
| "has_request _ = None"

text \<open>The lines that report a message report the right one.\<close>

definition line_ok :: "string \<Rightarrow> bool" where
  "line_ok l \<longleftrightarrow> (\<forall>m. l = ''server received: '' @ m \<longrightarrow> m = greeting) \<and>
     (\<forall>m. l = ''client received: '' @ m \<longrightarrow> m = ack)"

definition exchange_inv :: "uds_program \<Rightarrow> bool" where
  "exchange_inv s \<longleftrightarrow>
     (\<forall>m \<in> set (at_socket REQUEST_SOCKET_NAME (chans s)). m = greeting) \<and>
     (at_socket REQUEST_SOCKET_NAME (chans s) \<noteq> [] \<longrightarrow> past_send (client_at s)) \<and>
     (\<forall>m \<in> set (at_socket REPLY_SOCKET_NAME (chans s)). m = ack) \<and>
     (\<forall>m. has_request (server_at s) = Some m \<longrightarrow> m = greeting \<and> past_send (client_at s)) \<and>
     (client_at s \<notin> {C_Create, C_Ended} \<longrightarrow> chans s REPLY_SOCKET_NAME \<noteq> None) \<and>
     (\<forall>l \<in> set (u_console s). line_ok l)"

definition uds_inv :: "uds_program \<Rightarrow> bool" where
  "uds_inv s \<longleftrightarrow>
     (case main_at s of
        M_Clean_Request \<Rightarrow> server_at s = S_Create \<and> client_at s = C_Create \<and> u_console s = []
      | M_Clean_Reply \<Rightarrow> server_at s = S_Create \<and> client_at s = C_Create \<and> u_console s = [] \<and>
          chans s REQUEST_SOCKET_NAME = None
      | M_Running \<Rightarrow> exchange_inv s
      | M_Returned r \<Rightarrow> (\<forall>l \<in> set (u_console s). line_ok l))"

lemma names_differ [simp]: "REQUEST_SOCKET_NAME \<noteq> REPLY_SOCKET_NAME" "REPLY_SOCKET_NAME \<noteq> REQUEST_SOCKET_NAME"
  by (simp_all add: socket_names)

lemma lines_ok:
  "line_ok (''server received: '' @ m) \<longleftrightarrow> m = greeting"
  "line_ok (''client received: '' @ m) \<longleftrightarrow> m = ack"
  "line_ok (''cleanup failed for '' @ m)"
  by (auto simp: line_ok_def)

lemmas lines_ok_Cons [simp] = lines_ok [unfolded append.simps]

lemma failed_ok:
  "\<forall>l \<in> set (failed ''request server create'' e). line_ok l" "\<forall>l \<in> set (failed ''request receive'' e). line_ok l"
  "\<forall>l \<in> set (failed ''reply client create'' e). line_ok l" "\<forall>l \<in> set (failed ''reply send'' e). line_ok l"
  "\<forall>l \<in> set (failed ''reply server create'' e). line_ok l" "\<forall>l \<in> set (failed ''request client create'' e). line_ok l"
  "\<forall>l \<in> set (failed ''client send'' e). line_ok l" "\<forall>l \<in> set (failed ''client receive'' e). line_ok l"
  by (simp_all add: failed_def line_ok_def)

lemma exchange_inv_server:
  assumes inv: "exchange_inv s" and call: "uds_server_call (server_at s) = Some call"
    and doc: "documented call a (chans s) d" and st: "server nsc (server_at s) a = (pc, out)"
  shows "exchange_inv (s\<lparr>chans := d, server_at := pc, u_console := u_console s @ out\<rparr>)"
proof (cases "server_at s")
  case S_Create
  then show ?thesis using inv call doc st
    by (cases a) (auto simp: exchange_inv_def failed_ok)
next
  case S_Receive
  then show ?thesis using inv call doc st
    by (cases a) (auto simp: exchange_inv_def failed_ok)
next
  case (S_Connect k m)
  then show ?thesis using inv call doc st
    by (cases a) (auto simp: exchange_inv_def failed_ok createClientSocketWithRetry_def split: if_splits)
next
  case (S_Reply m)
  then have "m = greeting" using inv by (simp add: exchange_inv_def)
  then have "call = Send REPLY_SOCKET_NAME ack" using call S_Reply by (simp add: ack_def)
  with S_Reply show ?thesis using inv doc st
    by (cases a) (auto simp: exchange_inv_def failed_ok)
next
  case S_Close
  then show ?thesis using inv call doc st by (auto simp: exchange_inv_def)
qed (use call in simp)

lemma exchange_inv_client:
  assumes inv: "exchange_inv s" and call: "uds_client_call (client_at s) = Some call"
    and doc: "documented call a (chans s) d" and st: "client nsc (client_at s) a = (pc, out)"
  shows "exchange_inv (s\<lparr>chans := d, client_at := pc, u_console := u_console s @ out\<rparr>)"
proof (cases "client_at s")
  case C_Create
  then show ?thesis using inv call doc st
    by (cases a) (auto simp: exchange_inv_def failed_ok past_send_def)
next
  case (C_Connect k)
  then show ?thesis using inv call doc st
    by (cases a) (auto simp: exchange_inv_def failed_ok past_send_def createClientSocketWithRetry_def split: if_splits)
next
  case C_Send
  then show ?thesis using inv call doc st
    by (cases a) (auto simp: exchange_inv_def failed_ok past_send_def)
next
  case C_Receive
  then show ?thesis using inv call doc st
    by (cases a) (auto simp: exchange_inv_def failed_ok past_send_def)
next
  case C_Close
  then show ?thesis using inv call doc st by (auto simp: exchange_inv_def past_send_def)
qed (use call in simp)

lemma uds_inv_step:
  assumes law: "uds_law uds" and inv: "uds_inv s" and st: "uds_step uds nsc s t"
  shows "uds_inv t"
  using st
proof cases
  case (clean_request a d)
  have "documented (Unlink REQUEST_SOCKET_NAME) a (chans s) d" using law clean_request by (simp add: uds_law_def)
  then show ?thesis using clean_request inv
    by (cases a) (auto simp: uds_inv_def cleaned_def cleanupSocket_def)
next
  case (clean_reply a d)
  have "documented (Unlink REPLY_SOCKET_NAME) a (chans s) d" using law clean_reply by (simp add: uds_law_def)
  then show ?thesis using clean_reply inv
    by (cases a) (auto simp: uds_inv_def cleaned_def cleanupSocket_def exchange_inv_def)
next
  case (server call a d pc out)
  have "documented call a (chans s) d" using law server by (simp add: uds_law_def)
  then show ?thesis using server inv exchange_inv_server by (simp add: uds_inv_def)
next
  case (client call a d pc out)
  have "documented call a (chans s) d" using law client by (simp add: uds_law_def)
  then show ?thesis using client inv exchange_inv_client by (simp add: uds_inv_def)
next
  case join
  then show ?thesis using inv by (simp add: uds_inv_def exchange_inv_def)
qed

lemma uds_reach_inv:
  assumes law: "uds_law uds"
  shows "uds_reach uds nsc c s \<Longrightarrow> uds_inv s"
proof (induction rule: reach.induct)
  case (reach_init s)
  then show ?case by (simp add: program_start_def uds_inv_def)
qed (rule uds_inv_step [OF law])

text \<open>
  C33: What the two sides report. In every interleaving and with every failure of the sockets,
  the server reports only the client's message and the client only the acknowledgement of it;
  and whenever the server is about to connect to the client's socket while the client runs,
  that socket exists, because the client creates it before it sends.
\<close>

theorem exchange_is_faithful:
  assumes law: "uds_law uds" and reach: "uds_reach uds nsc c s"
  shows "(\<forall>m. ''server received: '' @ m \<in> set (u_console s) \<longrightarrow> m = ''hello from client'') \<and>
    (\<forall>m. ''client received: '' @ m \<in> set (u_console s) \<longrightarrow> m = ''ack: hello from client'') \<and>
    (main_at s = M_Running \<and> server_at s = S_Connect k r \<and> client_at s \<noteq> C_Ended \<longrightarrow>
       client_at s \<in> {C_Receive, C_Close} \<and> chans s REPLY_SOCKET_NAME \<noteq> None)"
proof -
  note inv = uds_reach_inv [OF law reach]
  have ok: "line_ok l" if "l \<in> set (u_console s)" for l
    using inv that by (auto simp: uds_inv_def exchange_inv_def split: main_pc.splits)
  have "''ack: '' @ greeting = ''ack: hello from client''" by (simp add: greeting_def)
  then have "\<forall>m. ''server received: '' @ m \<in> set (u_console s) \<longrightarrow> m = ''hello from client''"
    "\<forall>m. ''client received: '' @ m \<in> set (u_console s) \<longrightarrow> m = ''ack: hello from client''"
    using ok unfolding line_ok_def greeting_def ack_def by blast+
  moreover have "client_at s \<in> {C_Receive, C_Close} \<and> chans s REPLY_SOCKET_NAME \<noteq> None"
    if "main_at s = M_Running \<and> server_at s = S_Connect k r \<and> client_at s \<noteq> C_Ended"
    using inv that by (auto simp: uds_inv_def exchange_inv_def past_send_def)
  ultimately show ?thesis by blast
qed

section \<open>Runs\<close>

text \<open>The channels after a call with a given answer, where that answer is possible.\<close>

fun effect :: "uds_call \<Rightarrow> uds_answer \<Rightarrow> channels \<Rightarrow> channels option" where
  "effect (Close_Server n) a c = Some (c(n := None))"
| "effect call (Error e) c = Some c"
| "effect (Unlink n) Done c = Some (c(n := None))"
| "effect (Create_Server n) Done c = Some (c(n \<mapsto> []))"
| "effect (Create_Client n) Done c = (if c n = None then None else Some c)"
| "effect (Send n m) Done c = map_option (\<lambda>ms. c(n \<mapsto> ms @ [m])) (c n)"
| "effect (Receive n) (Message m) c =
     (case c n of Some (m' # ms) \<Rightarrow> if m' = m then Some (c(n \<mapsto> ms)) else None | _ \<Rightarrow> None)"
| "effect call a c = None"

lemma effect_documented: "effect call a c = Some d \<Longrightarrow> documented call a c d"
  by (cases call; cases a) (auto split: if_splits option.splits list.splits)

datatype actor = Main_Thread | Server_Thread | Client_Thread

fun play_step :: "int \<Rightarrow> actor \<times> uds_answer \<Rightarrow> uds_program \<Rightarrow> uds_program option" where
  "play_step nsc (Main_Thread, a) s =
     (case main_at s of
        M_Clean_Request \<Rightarrow> map_option (\<lambda>d. cleaned M_Clean_Reply (cleanupSocket REQUEST_SOCKET_NAME a) (s\<lparr>chans := d\<rparr>))
          (effect (Unlink REQUEST_SOCKET_NAME) a (chans s))
      | M_Clean_Reply \<Rightarrow> map_option (\<lambda>d. cleaned M_Running (cleanupSocket REPLY_SOCKET_NAME a) (s\<lparr>chans := d\<rparr>))
          (effect (Unlink REPLY_SOCKET_NAME) a (chans s))
      | M_Running \<Rightarrow> if client_at s = C_Ended \<and> server_at s = S_Ended then Some (s\<lparr>main_at := M_Returned 0\<rparr>) else None
      | M_Returned r \<Rightarrow> None)"
| "play_step nsc (Server_Thread, a) s =
     (case (main_at s, uds_server_call (server_at s)) of
        (M_Running, Some call) \<Rightarrow>
          map_option (\<lambda>d. case server nsc (server_at s) a of (pc, out) \<Rightarrow>
            s\<lparr>chans := d, server_at := pc, u_console := u_console s @ out\<rparr>) (effect call a (chans s))
      | _ \<Rightarrow> None)"
| "play_step nsc (Client_Thread, a) s =
     (case (main_at s, uds_client_call (client_at s)) of
        (M_Running, Some call) \<Rightarrow>
          map_option (\<lambda>d. case client nsc (client_at s) a of (pc, out) \<Rightarrow>
            s\<lparr>chans := d, client_at := pc, u_console := u_console s @ out\<rparr>) (effect call a (chans s))
      | _ \<Rightarrow> None)"

fun play :: "int \<Rightarrow> (actor \<times> uds_answer) list \<Rightarrow> uds_program \<Rightarrow> uds_program option" where
  "play nsc [] s = Some s"
| "play nsc (e # es) s = Option.bind (play_step nsc e s) (play nsc es)"

lemma play_step_sound:
  assumes "play_step nsc e s = Some t"
  shows "uds_step documented nsc s t"
proof -
  obtain who a where e: "e = (who, a)" by (cases e)
  show ?thesis
  proof (cases who)
    case Main_Thread
    then show ?thesis using assms e
      by (auto split: main_pc.splits if_splits dest!: effect_documented intro: uds_step.intros)
  next
    case Server_Thread
    obtain pc out where "server nsc (server_at s) a = (pc, out)" by fastforce
    then show ?thesis using assms e Server_Thread
      by (auto split: main_pc.splits option.splits dest!: effect_documented intro: uds_step.server)
  next
    case Client_Thread
    obtain pc out where "client nsc (client_at s) a = (pc, out)" by fastforce
    then show ?thesis using assms e Client_Thread
      by (auto split: main_pc.splits option.splits dest!: effect_documented intro: uds_step.client)
  qed
qed

lemma play_reach: "play nsc es s = Some t \<Longrightarrow> uds_reach documented nsc c s \<Longrightarrow> uds_reach documented nsc c t"
proof (induction es arbitrary: s)
  case (Cons e es)
  then obtain u where "play_step nsc e s = Some u" "play nsc es u = Some t" by (auto split: bind_splits)
  with Cons show ?case by (meson play_step_sound reach_step)
qed simp

definition happy_run :: "(actor \<times> uds_answer) list" where
  "happy_run = [(Main_Thread, Done), (Main_Thread, Done), (Server_Thread, Done), (Client_Thread, Done),
     (Client_Thread, Done), (Client_Thread, Done), (Server_Thread, Message greeting), (Server_Thread, Done),
     (Server_Thread, Done), (Client_Thread, Message (''ack: '' @ greeting)), (Client_Thread, Done),
     (Server_Thread, Done), (Main_Thread, Done)]"

theorem exchange_is_faithful_witness:
  "\<exists>s. uds_reach documented 7 Map.empty s \<and> main_at s = M_Returned 0 \<and>
     u_console s = [''server received: hello from client'', ''client received: ack: hello from client''] \<and>
     \<not> ''client received: hello'' \<in> set (u_console s)"
proof -
  have "map_option main_at (play 7 happy_run (program_start Map.empty)) = Some (M_Returned 0)"
    "map_option u_console (play 7 happy_run (program_start Map.empty)) =
       Some [''server received: hello from client'', ''client received: ack: hello from client'']"
    by code_simp+
  then obtain s where s: "play 7 happy_run (program_start Map.empty) = Some s" "main_at s = M_Returned 0"
    "u_console s = [''server received: hello from client'', ''client received: ack: hello from client'']" by auto
  have r: "uds_reach documented 7 Map.empty s" by (rule play_reach [OF s(1)]) (simp add: reach_init)
  have "''client received: '' @ m \<in> set (u_console s) \<Longrightarrow> m = ''ack: hello from client''" for m
    using exchange_is_faithful [OF documented_law r] by blast
  from this [of "''hello''"] show ?thesis using s r by (intro exI [of _ s]) auto
qed

section \<open>Failures\<close>

text \<open>The whole loop on the answers its attempts get, with the number of attempts made.\<close>

fun retry_loop :: "int \<Rightarrow> nat \<Rightarrow> uds_answer list \<Rightarrow> (retry \<times> nat) option" where
  "retry_loop nsc k [] = None"
| "retry_loop nsc k (a # as) =
     (case createClientSocketWithRetry nsc k a of
        Next_Attempt k' \<Rightarrow> retry_loop nsc k' as
      | r \<Rightarrow> Some (r, Suc k))"

fun is_error :: "uds_answer \<Rightarrow> bool" where
  "is_error (Error _) = True"
| "is_error _ = False"

lemma retry_loop_result:
  assumes "k < MAX_RETRIES" and "MAX_RETRIES - k \<le> length as"
  shows "retry_loop nsc k as =
    (if \<exists>a \<in> set (take (MAX_RETRIES - k) as). \<not> is_error a
     then Some (Connected, k + Suc (length (takeWhile is_error as)))
     else Some (Gave_Up nsc, MAX_RETRIES))"
  using assms
proof (induction as arbitrary: k)
  case (Cons a as)
  obtain n where n: "MAX_RETRIES - k = Suc n" using Cons.prems(1) by (metis Suc_diff_Suc)
  show ?case
  proof (cases "is_error a")
    case False
    then show ?thesis using n by (cases a) (auto simp: createClientSocketWithRetry_def)
  next
    case True
    show ?thesis
    proof (cases "Suc k < MAX_RETRIES")
      case more: True
      then have "MAX_RETRIES - Suc k = n" using n by linarith
      then show ?thesis using Cons.IH [OF more] True more n Cons.prems(2)
        by (cases a) (auto simp: createClientSocketWithRetry_def)
    next
      case last: False
      then have "n = 0" "MAX_RETRIES = Suc k" using n Cons.prems(1) by linarith+
      then show ?thesis using True n by (cases a) (auto simp: createClientSocketWithRetry_def)
    qed
  qed
qed (use assms in simp)

definition unlucky_run :: "(actor \<times> uds_answer) list" where
  "unlucky_run = [(Main_Thread, Done), (Main_Thread, Done), (Server_Thread, Error 3), (Client_Thread, Done)] @
     replicate 50 (Client_Thread, Error 2) @ [(Client_Thread, Done), (Main_Thread, Done)]"

text \<open>
  How failures are reported. The connecting loop returns after the first attempt that does
  not fail and otherwise after exactly 50, and then with \<open>NO_SUCH_CHANNEL\<close>, whatever the errors
  were; and the program returns 0 although nothing was exchanged, for instance when the
  server could not create its socket.
\<close>

theorem failures_are_masked:
  "(\<forall>as. 50 \<le> length as \<longrightarrow> retry_loop nsc 0 as =
      (if \<exists>a \<in> set (take 50 as). \<not> is_error a then Some (Connected, Suc (length (takeWhile is_error as)))
       else Some (Gave_Up nsc, 50))) \<and>
   (\<exists>s. uds_reach documented 7 Map.empty s \<and> main_at s = M_Returned 0 \<and>
      u_console s = [''request server create failed, error=3'', ''request client create failed, error=7''])"
proof (intro conjI allI impI)
  fix as :: "uds_answer list" assume "50 \<le> length as"
  then show "retry_loop nsc 0 as =
      (if \<exists>a \<in> set (take 50 as). \<not> is_error a then Some (Connected, Suc (length (takeWhile is_error as)))
       else Some (Gave_Up nsc, 50))"
    using retry_loop_result [of 0 as nsc] by (simp add: MAX_RETRIES_def)
next
  have "map_option main_at (play 7 unlucky_run (program_start Map.empty)) = Some (M_Returned 0)"
    "map_option u_console (play 7 unlucky_run (program_start Map.empty)) =
       Some [''request server create failed, error=3'', ''request client create failed, error=7'']"
    by code_simp+
  then obtain s where s: "play 7 unlucky_run (program_start Map.empty) = Some s" "main_at s = M_Returned 0"
    "u_console s = [''request server create failed, error=3'', ''request client create failed, error=7'']" by auto
  have "uds_reach documented 7 Map.empty s" by (rule play_reach [OF s(1)]) (simp add: reach_init)
  with s show "\<exists>s. uds_reach documented 7 Map.empty s \<and> main_at s = M_Returned 0 \<and>
      u_console s = [''request server create failed, error=3'', ''request client create failed, error=7'']" by blast
qed

theorem failures_are_masked_witness:
  "retry_loop 7 0 (replicate 50 (Error 2)) = Some (Gave_Up 7, 50)"
  using failures_are_masked [of 7] by simp

end
