(* ===== verification/Tcp_Exchange.thy ===== *)
theory Tcp_Exchange
  imports Prelude
begin

text \<open>
  The TCP client of \<open>src/boost_test/asio/009.tcp_async_client\<close> and the server of
  \<open>008.tcp_async_server\<close>: the client sends a request that ends with an empty line, the server answers with the time and an empty line. One connection
  is modelled with the bytes under way in each direction; a step is what a coroutine does
  when the operation it is suspended in has made progress, and how far that got is an
  argument of the step. \<open>std::ctime\<close> is an argument.
\<close>

section \<open>Delimited messages\<close>

definition delim :: string where "delim = [CHR 0x0D, CHR 0x0A, CHR 0x0D, CHR 0x0A]"

fun contains :: "string \<Rightarrow> string \<Rightarrow> bool" where
  "contains d [] = (d = [])"
| "contains d (c # cs) = (take (length d) (c # cs) = d \<or> contains d cs)"

definition request :: string where
  "request = ''GET / HTTP/1.1'' @ [CHR 0x0D, CHR 0x0A] @ ''Host: www.example.com'' @ delim"

text \<open>
  The text the server sends: what \<open>std::ctime\<close> gives without its last character, or the
  message of an exception (\<open>Inl\<close>), and the delimiter.
\<close>

definition response :: "string + string \<Rightarrow> string" where
  "response ctime = (case ctime of Inl what \<Rightarrow> ''Error: '' @ what @ delim | Inr text \<Rightarrow> butlast text @ delim)"

section \<open>The two coroutines\<close>

text \<open>
  What a suspended operation is resumed with: \<open>n\<close> bytes were written or arrived, it is done
  (\<open>async_connect\<close>, with what \<open>is_open\<close> says), or it threw.
\<close>

datatype progress = Bytes nat | Connected bool | Throws string

datatype tcp_session_at = Connecting | Requesting string | Awaiting_Response string | Session_Over
datatype handler_at = Awaiting_Request string | Responding string | Handler_Over

text \<open>\<open>upstream\<close> and \<open>downstream\<close>: the bytes under way to the server and to the client.\<close>

record connection =
  session :: tcp_session_at
  handler :: handler_at
  upstream :: string
  downstream :: string
  g_count_session :: nat
  g_count_time_great_100ms :: nat
  tcp_console :: console

definition connection_start :: connection where
  "connection_start = \<lparr>session = Connecting, handler = Awaiting_Request [], upstream = [], downstream = [],
     g_count_session = 0, g_count_time_great_100ms = 0, tcp_console = []\<rparr>"

definition session_ends :: "console \<Rightarrow> nat \<Rightarrow> connection \<Rightarrow> connection" where
  "session_ends lines late c =
     c\<lparr>session := Session_Over, g_count_session := Suc (g_count_session c),
       g_count_time_great_100ms := g_count_time_great_100ms c + late, tcp_console := tcp_console c @ lines\<rparr>"

text \<open>\<open>client_session\<close>; \<open>ms\<close> is how long the session has taken when the response is there.\<close>

definition client_session :: "nat \<Rightarrow> progress \<Rightarrow> connection \<Rightarrow> connection option" where
  "client_session ms p c =
     (case (session c, p) of
        (Session_Over, _) \<Rightarrow> None
      | (_, Throws what) \<Rightarrow> Some (session_ends [''Exception in client: '' @ what] 0 c)
      | (Connecting, Connected is_open) \<Rightarrow>
          Some (if is_open then c\<lparr>session := Requesting request\<rparr> else session_ends [''Connection failed!''] 0 c)
      | (Requesting rest, Bytes n) \<Rightarrow>
          if 0 < n \<and> n \<le> length rest
          then Some (c\<lparr>upstream := upstream c @ take n rest,
                       session := (if n = length rest then Awaiting_Response [] else Requesting (drop n rest))\<rparr>)
          else None
      | (Awaiting_Response buf, Bytes n) \<Rightarrow>
          if 0 < n \<and> n \<le> length (downstream c)
          then (let buf' = buf @ take n (downstream c); c' = c\<lparr>downstream := drop n (downstream c)\<rparr>
                in Some (if contains delim buf' then session_ends [] (if ms > 100 then 1 else 0) c'
                         else c'\<lparr>session := Awaiting_Response buf'\<rparr>))
          else None
      | _ \<Rightarrow> None)"

definition tcp_connect_socket_handler :: "string + string \<Rightarrow> progress \<Rightarrow> connection \<Rightarrow> connection option" where
  "tcp_connect_socket_handler ctime p c =
     (case (handler c, p) of
        (Handler_Over, _) \<Rightarrow> None
      | (Awaiting_Request buf, Throws what) \<Rightarrow>
          Some (c\<lparr>handler := Handler_Over, tcp_console := tcp_console c @ [''Exception 1 in tcp_async_server: '' @ what]\<rparr>)
      | (Responding rest, Throws what) \<Rightarrow>
          Some (c\<lparr>handler := Handler_Over, tcp_console := tcp_console c @ [''Exception 2 in tcp_async_server: '' @ what]\<rparr>)
      | (Awaiting_Request buf, Bytes n) \<Rightarrow>
          if 0 < n \<and> n \<le> length (upstream c)
          then (let buf' = buf @ take n (upstream c)
                in Some (c\<lparr>upstream := drop n (upstream c),
                           handler := (if contains delim buf' then Responding (response ctime) else Awaiting_Request buf')\<rparr>))
          else None
      | (Responding rest, Bytes n) \<Rightarrow>
          if 0 < n \<and> n \<le> length rest
          then Some (c\<lparr>downstream := downstream c @ take n rest,
                       handler := (if n = length rest then Handler_Over else Responding (drop n rest))\<rparr>)
          else None
      | _ \<Rightarrow> None)"

text \<open>
  A step of the connection, with no call that throws (\<open>smooth\<close>) or any; \<open>ctime\<close> is what the
  server's clock gives at its one call.
\<close>

inductive tcp_step :: "bool \<Rightarrow> string + string \<Rightarrow> connection \<Rightarrow> connection \<Rightarrow> bool" for smooth ctime where
  client: "client_session ms p c = Some d \<Longrightarrow> smooth \<longrightarrow> (\<forall>what. p \<noteq> Throws what) \<and> p \<noteq> Connected False \<Longrightarrow>
    tcp_step smooth ctime c d"
| server: "tcp_connect_socket_handler ctime p c = Some d \<Longrightarrow> smooth \<longrightarrow> (\<forall>what. p \<noteq> Throws what) \<Longrightarrow>
    tcp_step smooth ctime c d"

inductive_cases tcp_stepE: "tcp_step smooth ctime c d"

text \<open>The accept loop of the server: a handler per connection; \<open>None\<close> is an accept that threw.\<close>

fun tcp_async_server :: "unit option list \<Rightarrow> connection list" where
  "tcp_async_server [] = []"
| "tcp_async_server (Some _ # as) = connection_start # tcp_async_server as"
| "tcp_async_server (None # as) = []"

text \<open>The waiting loop of the client's \<open>main\<close>, over the connections of its 10000 sessions.\<close>

definition N_SESSIONS :: nat where "N_SESSIONS = 10000"

definition main_waits :: "connection list \<Rightarrow> bool" where
  "main_waits cs \<longleftrightarrow> sum_list (map g_count_session cs) < N_SESSIONS"

section \<open>Delimiters\<close>

text \<open>A text in which the delimiter first shows up at the end.\<close>

definition delimited :: "string \<Rightarrow> bool" where
  "delimited t \<longleftrightarrow> contains delim t \<and> (\<forall>k < length t. \<not> contains delim (take k t))"

lemma request_delimited: "delimited request"
proof -
  have "contains delim request \<and> (\<forall>k \<in> set [0..<length request]. \<not> contains delim (take k request))" by code_simp
  then show ?thesis by (simp add: delimited_def)
qed

lemma contains_prefix_body:
  assumes "CHR 0x0D \<notin> set body"
  shows "k < length body + 4 \<Longrightarrow> \<not> contains delim (take k (body @ delim))"
  using assms
proof (induction body arbitrary: k)
  case Nil
  then have "k \<in> {0, 1, 2, 3}" by auto
  then show ?case by (auto simp: delim_def numeral_3_eq_3 numeral_2_eq_2)
next
  case (Cons c cs)
  show ?case
  proof (cases k)
    case (Suc j)
    then have "\<not> contains delim (take j (cs @ delim))" using Cons by simp
    moreover have "c \<noteq> CHR 0x0D" using Cons.prems by auto
    ultimately show ?thesis using Suc by (auto simp: delim_def)
  qed (simp add: delim_def)
qed

lemma contains_append_end: "contains d (body @ d)"
proof (induction body)
  case Nil
  then show ?case by (cases d) simp_all
qed simp

lemma response_delimited:
  assumes "\<forall>what. ctime = Inl what \<longrightarrow> CHR 0x0D \<notin> set what" and "\<forall>text. ctime = Inr text \<longrightarrow> CHR 0x0D \<notin> set text"
  shows "delimited (response ctime)"
proof (cases ctime)
  case (Inl what)
  then have "CHR 0x0D \<notin> set (''Error: '' @ what)" using assms by auto
  with contains_prefix_body [of "''Error: '' @ what"] contains_append_end [of delim "''Error: '' @ what"] Inl show ?thesis
    by (simp add: delimited_def response_def) (simp add: delim_def)
next
  case (Inr tm)
  then have "CHR 0x0D \<notin> set (butlast tm)" using assms by (auto dest: in_set_butlastD)
  with contains_prefix_body [of "butlast tm"] contains_append_end [of delim "butlast tm"] Inr show ?thesis
    by (simp add: delimited_def response_def) (simp add: delim_def)
qed

section \<open>Counting\<close>

abbreviation tcp_reach :: "bool \<Rightarrow> string + string \<Rightarrow> connection \<Rightarrow> bool" where
  "tcp_reach smooth ctime \<equiv> reach (\<lambda>c. c = connection_start) (tcp_step smooth ctime)"

definition count_inv :: "connection \<Rightarrow> bool" where
  "count_inv c \<longleftrightarrow> g_count_session c = (if session c = Session_Over then 1 else 0) \<and>
     g_count_time_great_100ms c \<le> g_count_session c"

lemma count_inv_client: "count_inv c \<Longrightarrow> client_session ms p c = Some d \<Longrightarrow> count_inv d"
  by (auto simp: count_inv_def client_session_def session_ends_def Let_def
      split: tcp_session_at.splits progress.splits if_splits)

lemma count_inv_server: "count_inv c \<Longrightarrow> tcp_connect_socket_handler ctime p c = Some d \<Longrightarrow> count_inv d"
  by (auto simp: count_inv_def tcp_connect_socket_handler_def Let_def
      split: handler_at.splits progress.splits if_splits)

interpretation tcp_count: invariant_system "\<lambda>c. c = connection_start" "tcp_step smooth ctime" count_inv
proof
  show "count_inv c" if "c = connection_start" for c
    using that by (simp add: count_inv_def connection_start_def)
  show "count_inv d" if "count_inv c" "tcp_step smooth ctime c d" for c d
    using that by (auto elim!: tcp_stepE intro: count_inv_client count_inv_server)
qed

lemma sum_of_counts:
  assumes "\<forall>c \<in> set cs. tcp_reach smooth ctime c"
  shows "sum_list (map g_count_session cs) = length (filter (\<lambda>c. session c = Session_Over) cs)"
  using assms
proof (induction cs)
  case (Cons c cs)
  then have "count_inv c" using tcp_count.reach_inv [of smooth ctime c] by simp
  with Cons show ?case by (simp add: count_inv_def)
qed simp

text \<open>
  C26: Every session counts itself exactly once, on whatever path it ends: the waiting loop of
  the client's \<open>main\<close>, over its 10000 sessions, goes on exactly as long as one of them has not
  ended, whatever fails.
\<close>

theorem sessions_counted_once:
  assumes "\<forall>c \<in> set cs. tcp_reach smooth ctime c" and "length cs = N_SESSIONS"
  shows "(main_waits cs \<longleftrightarrow> (\<exists>c \<in> set cs. session c \<noteq> Session_Over)) \<and>
    sum_list (map g_count_session cs) \<le> N_SESSIONS"
proof -
  have s: "sum_list (map g_count_session cs) = length (filter (\<lambda>c. session c = Session_Over) cs)"
    using sum_of_counts [OF assms(1)] .
  have "length (filter (\<lambda>c. session c = Session_Over) cs) < length cs \<longleftrightarrow> (\<exists>c \<in> set cs. session c \<noteq> Session_Over)"
    using length_filter_less [of _ cs "\<lambda>c. session c = Session_Over"] by (auto simp: filter_id_conv)
      (metis (mono_tags, lifting) filter_True less_irrefl)
  with s assms(2) length_filter_le [of "\<lambda>c. session c = Session_Over" cs] show ?thesis
    by (simp add: main_waits_def)
qed

section \<open>The exchange\<close>

definition flow_inv :: "string + string \<Rightarrow> connection \<Rightarrow> bool" where
  "flow_inv ctime c \<longleftrightarrow>
     (case (session c, handler c) of
        (Connecting, Awaiting_Request buf) \<Rightarrow> buf = [] \<and> upstream c = [] \<and> downstream c = []
      | (Requesting rest, Awaiting_Request buf) \<Rightarrow>
          rest \<noteq> [] \<and> buf @ upstream c @ rest = request \<and> downstream c = []
      | (Awaiting_Response rb, Awaiting_Request buf) \<Rightarrow>
          rb = [] \<and> upstream c \<noteq> [] \<and> buf @ upstream c = request \<and> downstream c = []
      | (Awaiting_Response rb, Responding rest) \<Rightarrow>
          rest \<noteq> [] \<and> upstream c = [] \<and> rb @ downstream c @ rest = response ctime
      | (Awaiting_Response rb, Handler_Over) \<Rightarrow>
          downstream c \<noteq> [] \<and> upstream c = [] \<and> rb @ downstream c = response ctime
      | (Session_Over, Handler_Over) \<Rightarrow> upstream c = [] \<and> downstream c = []
      | _ \<Rightarrow> False)"

lemma take_drop_rest [simp]: "take n xs @ drop n xs @ ys = xs @ ys"
  by (metis append_assoc append_take_drop_id)

lemma delimited_prefix:
  assumes "delimited t" and "p @ q = t"
  shows "contains delim p \<longleftrightarrow> q = []"
proof (cases q)
  case Nil
  then show ?thesis using assms by (simp add: delimited_def)
next
  case (Cons x xs)
  then have "p = take (length p) t" "length p < length t" using assms(2) by auto
  then have "\<not> contains delim p" using assms(1) unfolding delimited_def by metis
  then show ?thesis using Cons by simp
qed

text \<open>Bytes a side still has to send count twice, bytes under way once.\<close>

definition bytes_left :: "string + string \<Rightarrow> connection \<Rightarrow> nat" where
  "bytes_left ctime c =
     (case session c of Connecting \<Rightarrow> 2 * length request + 1 | Requesting rest \<Rightarrow> 2 * length rest | _ \<Rightarrow> 0) +
     (case handler c of Awaiting_Request _ \<Rightarrow> 2 * length (response ctime) | Responding rest \<Rightarrow> 2 * length rest | _ \<Rightarrow> 0) +
     length (upstream c) + length (downstream c)"

lemma smooth_client:
  assumes resp: "delimited (response ctime)" and inv: "flow_inv ctime c"
    and st: "client_session ms p c = Some d" and ok: "(\<forall>what. p \<noteq> Throws what) \<and> p \<noteq> Connected False"
  shows "flow_inv ctime d \<and> bytes_left ctime d < bytes_left ctime c"
proof (cases "session c")
  case Connecting
  have "request \<noteq> []" by (simp add: request_def)
  then show ?thesis using Connecting inv st ok
    by (auto simp: flow_inv_def bytes_left_def client_session_def split: handler_at.splits progress.splits)
next
  case (Requesting rest)
  then show ?thesis using inv st ok
    by (auto simp: flow_inv_def bytes_left_def client_session_def split: handler_at.splits progress.splits if_splits)
next
  case (Awaiting_Response rb)
  then obtain n where n: "p = Bytes n" "0 < n" "n \<le> length (downstream c)"
    using st ok by (auto simp: client_session_def split: progress.splits if_splits)
  have "(rb @ take n (downstream c)) @ drop n (downstream c) @ (case handler c of Responding rest \<Rightarrow> rest | _ \<Rightarrow> []) = response ctime"
    using inv Awaiting_Response n by (auto simp: flow_inv_def split: handler_at.splits)
  then have "contains delim (rb @ take n (downstream c)) \<longleftrightarrow>
      drop n (downstream c) @ (case handler c of Responding rest \<Rightarrow> rest | _ \<Rightarrow> []) = []"
    by (rule delimited_prefix [OF resp])
  then show ?thesis using inv st n Awaiting_Response
    by (auto simp: flow_inv_def bytes_left_def client_session_def session_ends_def Let_def
        split: handler_at.splits if_splits)
qed (use st in \<open>simp add: client_session_def\<close>)

lemma smooth_server:
  assumes inv: "flow_inv ctime c" and resp: "response ctime \<noteq> []"
    and st: "tcp_connect_socket_handler ctime p c = Some d" and ok: "\<forall>what. p \<noteq> Throws what"
  shows "flow_inv ctime d \<and> bytes_left ctime d < bytes_left ctime c"
proof (cases "handler c")
  case (Awaiting_Request buf)
  then obtain n where n: "p = Bytes n" "0 < n" "n \<le> length (upstream c)"
    using st ok by (auto simp: tcp_connect_socket_handler_def split: progress.splits if_splits)
  have "(buf @ take n (upstream c)) @ drop n (upstream c) @ (case session c of Requesting rest \<Rightarrow> rest | _ \<Rightarrow> []) = request"
    using inv Awaiting_Request n by (auto simp: flow_inv_def split: tcp_session_at.splits)
  then have "contains delim (buf @ take n (upstream c)) \<longleftrightarrow>
      drop n (upstream c) @ (case session c of Requesting rest \<Rightarrow> rest | _ \<Rightarrow> []) = []"
    by (rule delimited_prefix [OF request_delimited])
  then show ?thesis using inv st n Awaiting_Request resp
    by (auto simp: flow_inv_def bytes_left_def tcp_connect_socket_handler_def Let_def
        split: tcp_session_at.splits if_splits)
next
  case (Responding rest)
  then show ?thesis using inv st ok
    by (auto simp: flow_inv_def bytes_left_def tcp_connect_socket_handler_def
        split: tcp_session_at.splits progress.splits if_splits)
qed (use st in \<open>simp add: tcp_connect_socket_handler_def\<close>)

lemma smooth_step:
  assumes "delimited (response ctime)" and "flow_inv ctime c" and "tcp_step True ctime c d"
  shows "flow_inv ctime d \<and> bytes_left ctime d < bytes_left ctime c"
proof -
  have "response ctime \<noteq> []" by (auto simp: response_def delim_def split: sum.split)
  with assms show ?thesis by (auto elim!: tcp_stepE dest: smooth_client smooth_server)
qed

lemma smooth_not_stuck:
  assumes inv: "flow_inv ctime c" and "session c \<noteq> Session_Over"
  shows "\<exists>d. tcp_step True ctime c d"
proof (cases "session c")
  case Connecting
  then have "client_session 0 (Connected True) c = Some (c\<lparr>session := Requesting request\<rparr>)"
    by (simp add: client_session_def)
  then show ?thesis by (intro exI) (erule tcp_step.client, simp)
next
  case (Requesting rest)
  then have "client_session 0 (Bytes (length rest)) c \<noteq> None"
    using inv by (auto simp: client_session_def flow_inv_def split: handler_at.splits)
  then show ?thesis by (auto intro!: tcp_step.client)
next
  case (Awaiting_Response rb)
  show ?thesis
  proof (cases "handler c")
    case (Awaiting_Request buf)
    then have "tcp_connect_socket_handler ctime (Bytes (length (upstream c))) c \<noteq> None"
      using inv Awaiting_Response by (auto simp: tcp_connect_socket_handler_def flow_inv_def Let_def)
    then show ?thesis by (auto intro!: tcp_step.server)
  next
    case (Responding rest)
    then have "tcp_connect_socket_handler ctime (Bytes (length rest)) c \<noteq> None"
      using inv Awaiting_Response by (auto simp: tcp_connect_socket_handler_def flow_inv_def)
    then show ?thesis by (auto intro!: tcp_step.server)
  next
    case Handler_Over
    then have "client_session 0 (Bytes (length (downstream c))) c \<noteq> None"
      using inv Awaiting_Response by (auto simp: client_session_def flow_inv_def Let_def)
    then show ?thesis by (auto intro!: tcp_step.client)
  qed
qed (use assms in simp)

text \<open>
  An exchange in which no call fails always ends, however the network cuts the bytes: it
  makes no more steps than there are bytes to send and to receive, plus one, and when it makes
  no more, both coroutines have returned, the session is counted and no byte is left over. All
  that is needed is that the text of the clock holds no carriage return.
\<close>

theorem smooth_exchange_ends:
  assumes "\<forall>what. ctime = Inl what \<longrightarrow> CHR 0x0D \<notin> set what" and "\<forall>tm. ctime = Inr tm \<longrightarrow> CHR 0x0D \<notin> set tm"
    and run: "(tcp_step True ctime ^^ n) connection_start c"
  shows "n \<le> 2 * length request + 2 * length (response ctime) + 1 \<and>
    ((\<nexists>d. tcp_step True ctime c d) \<longrightarrow>
      session c = Session_Over \<and> handler c = Handler_Over \<and> upstream c = [] \<and> downstream c = [] \<and> g_count_session c = 1)"
proof -
  have resp: "delimited (response ctime)" using assms(1,2) by (rule response_delimited)
  have "flow_inv ctime c \<and> count_inv c \<and> n + bytes_left ctime c \<le> bytes_left ctime connection_start"
    using run
  proof (induction n arbitrary: c)
    case 0
    then have "c = connection_start" by simp
    then show ?case by (simp add: flow_inv_def count_inv_def connection_start_def)
  next
    case (Suc n)
    then obtain b where "(tcp_step True ctime ^^ n) connection_start b" and st: "tcp_step True ctime b c" by auto
    with Suc.IH have b: "flow_inv ctime b" "count_inv b" "n + bytes_left ctime b \<le> bytes_left ctime connection_start" by auto
    with smooth_step [OF resp b(1) st] tcp_count.inv_step [OF b(2) st] show ?case by simp
  qed
  then have c: "flow_inv ctime c" "count_inv c" "n + bytes_left ctime c \<le> bytes_left ctime connection_start" by auto
  have "session c = Session_Over \<and> handler c = Handler_Over \<and> upstream c = [] \<and> downstream c = [] \<and> g_count_session c = 1"
    if "\<nexists>d. tcp_step True ctime c d"
  proof -
    have "session c = Session_Over" using smooth_not_stuck [OF c(1)] that by blast
    then show ?thesis using c(1,2) by (cases "handler c") (simp_all add: flow_inv_def count_inv_def)
  qed
  moreover have "bytes_left ctime connection_start = 2 * length request + 2 * length (response ctime) + 1"
    by (simp add: bytes_left_def connection_start_def)
  ultimately show ?thesis using c(3) by simp
qed

text \<open>A connection on which everything is sent and received in one piece.\<close>

definition new_year :: "string + string" where "new_year = Inr (''Mon Jan  1 00:00:00 2024'' @ [CHR 0x0A])"

lemma five_steps:
  assumes "R a b" "R b c" "R c d" "R d e" "R e f"
  shows "(R ^^ 5) a f"
proof -
  have "(R ^^ Suc (Suc (Suc (Suc (Suc 0))))) a f"
    using assms by (meson relpowp_0_I relpowp_Suc_I)
  then show ?thesis by (simp add: eval_nat_numeral)
qed

lemma one_piece_run:
  "\<exists>c. (tcp_step True new_year ^^ 5) connection_start c \<and> session c = Session_Over \<and> handler c = Handler_Over"
proof -
  let ?r = "response new_year"
  let ?c1 = "connection_start\<lparr>session := Requesting request\<rparr>"
  let ?c2 = "connection_start\<lparr>session := Awaiting_Response [], upstream := request\<rparr>"
  let ?c3 = "connection_start\<lparr>session := Awaiting_Response [], handler := Responding ?r\<rparr>"
  let ?c4 = "connection_start\<lparr>session := Awaiting_Response [], handler := Handler_Over, downstream := ?r\<rparr>"
  let ?c5 = "connection_start\<lparr>session := Session_Over, handler := Handler_Over, g_count_session := 1\<rparr>"
  have req: "request \<noteq> []" "contains delim request" using request_delimited by (auto simp: request_def delimited_def)
  have res: "?r \<noteq> []" "contains delim ?r"
    by (simp_all add: new_year_def response_def contains_append_end delim_def)
  have k: "client_session 0 (Connected True) connection_start = Some ?c1"
    "client_session 0 (Bytes (length request)) ?c1 = Some ?c2"
    "tcp_connect_socket_handler new_year (Bytes (length request)) ?c2 = Some ?c3"
    "tcp_connect_socket_handler new_year (Bytes (length ?r)) ?c3 = Some ?c4"
    "client_session 0 (Bytes (length ?r)) ?c4 = Some ?c5"
    using req res by (simp_all add: client_session_def tcp_connect_socket_handler_def connection_start_def session_ends_def Let_def)
  have "tcp_step True new_year connection_start ?c1" by (rule tcp_step.client [OF k(1)]) simp
  moreover have "tcp_step True new_year ?c1 ?c2" by (rule tcp_step.client [OF k(2)]) simp
  moreover have "tcp_step True new_year ?c2 ?c3" by (rule tcp_step.server [OF k(3)]) simp
  moreover have "tcp_step True new_year ?c3 ?c4" by (rule tcp_step.server [OF k(4)]) simp
  moreover have "tcp_step True new_year ?c4 ?c5" by (rule tcp_step.client [OF k(5)]) simp
  ultimately have "(tcp_step True new_year ^^ 5) connection_start ?c5"
    by (rule five_steps)
  then show ?thesis by (intro exI [of _ ?c5]) simp
qed

theorem smooth_exchange_ends_witness:
  "\<exists>c. (tcp_step True new_year ^^ 5) connection_start c \<and> upstream c = [] \<and> downstream c = [] \<and> g_count_session c = 1"
proof -
  obtain c where c: "(tcp_step True new_year ^^ 5) connection_start c" "session c = Session_Over" "handler c = Handler_Over"
    using one_piece_run by blast
  have "\<nexists>d. tcp_step True new_year c d"
    using c by (auto elim!: tcp_stepE simp: client_session_def tcp_connect_socket_handler_def)
  moreover have "\<forall>what. new_year = Inl what \<longrightarrow> CHR 0x0D \<notin> set what" "\<forall>tm. new_year = Inr tm \<longrightarrow> CHR 0x0D \<notin> set tm"
    by (auto simp: new_year_def)
  ultimately show ?thesis using smooth_exchange_ends [of new_year 5 c] c by blast
qed

theorem sessions_counted_once_witness:
  "main_waits (replicate N_SESSIONS connection_start)"
proof -
  have "\<forall>c \<in> set (replicate N_SESSIONS connection_start). tcp_reach False new_year c"
    by (auto intro: reach_init)
  from sessions_counted_once [OF this] show ?thesis
    by (simp add: connection_start_def N_SESSIONS_def)
qed

end
