(* ===== verification/Mini_Listener.thy ===== *)
theory Mini_Listener
  imports Wait_Set
begin

text \<open>
  Class \<open>MiniListener\<close> of \<open>src/cpp_test/iceoryx/007.inproc_waitset\<close> with its background thread,
  the thread that calls \<open>start\<close> and \<open>stop\<close>, and the threads that fire events, interleaved at
  every access to \<open>m_running\<close>, the flags and the semaphore; and the programs \<open>demo1\<close>, \<open>demo3\<close>
  and \<open>demo4\<close> of the same file. The wait set is that of theory \<open>Wait_Set\<close>.
\<close>

section \<open>State\<close>

text \<open>
  The background thread is about to read \<open>m_running\<close>, inside \<open>timedWait\<close> (where in it is the
  \<open>consumer\<close> field of the wait set), in the loop over the triggered sources, or has left
  \<open>loop\<close>. \<open>L_None\<close> is a thread object that is not joinable. The controlling thread is outside
  \<open>stop\<close>, behind its store, behind its post, or behind a post that failed.
\<close>

datatype listener_thread = L_None | L_Test | L_Wait | L_Call "nat list" | L_Ended

datatype stop_pc = S_Idle | S_Cleared | S_Posted | S_Unposted

record ('m, 'e) listener =
  l_ws :: "'m wait_set"
  m_entries :: "'e entries"
  m_running :: bool
  l_thread :: listener_thread
  l_stop :: stop_pc
  l_calls :: "'e list"

definition MiniListener :: "'m sem_ops \<Rightarrow> nat \<Rightarrow> ('m, 'e) listener option" where
  "MiniListener so threads =
     (case MiniWaitSet so threads of
        None \<Rightarrow> None
      | Some ws \<Rightarrow> Some \<lparr>l_ws = ws, m_entries = [], m_running = False, l_thread = L_None,
                        l_stop = S_Idle, l_calls = []\<rparr>)"

definition listener_attach :: "nat \<times> 'e \<Rightarrow> ('m, 'e) listener \<Rightarrow> ('m, 'e) listener" where
  "listener_attach e l =
     (case attachWithCallback (fst e) (snd e) (m_entries l, l_ws l) of
        (es, ws) \<Rightarrow> l\<lparr>m_entries := es, l_ws := ws\<rparr>)"

section \<open>Steps\<close>

text \<open>
  \<open>start\<close> moves a new thread into \<open>m_thread\<close>; when that is still joinable the assignment ends
  the program, which is \<^term>\<open>None\<close> here.
\<close>

definition listener_start :: "('m, 'e) listener \<Rightarrow> ('m, 'e) listener option" where
  "listener_start l =
     (if l_stop l = S_Idle \<and> l_thread l = L_None then Some (l\<lparr>m_running := True, l_thread := L_Test\<rparr>)
      else None)"

text \<open>
  \<open>stop\<close>: the store, the post that wakes the thread, the \<open>join\<close>, which blocks until the
  thread has ended.
\<close>

definition stop_step :: "'m sem_ops \<Rightarrow> ('m, 'e) listener \<Rightarrow> ('m, 'e) listener option" where
  "stop_step so l =
     (case l_stop l of
        S_Idle \<Rightarrow> Some (l\<lparr>m_running := False, l_stop := S_Cleared\<rparr>)
      | S_Cleared \<Rightarrow>
          Some (l\<lparr>l_ws := (l_ws l)\<lparr>m_sem := sem_post so (m_sem (l_ws l))\<rparr>, l_stop := S_Posted\<rparr>)
      | _ \<Rightarrow>
          (if l_thread l = L_None \<or> l_thread l = L_Ended
           then Some (l\<lparr>l_thread := L_None, l_stop := S_Idle\<rparr>) else None))"

text \<open>The post of \<open>stop\<close> answers with an error, which is ignored.\<close>

definition stop_post_failed :: "('m, 'e) listener \<Rightarrow> ('m, 'e) listener option" where
  "stop_post_failed l = (if l_stop l = S_Cleared then Some (l\<lparr>l_stop := S_Unposted\<rparr>) else None)"

text \<open>
  The thread's own steps through \<open>loop\<close>. \<open>timedWait\<close> takes the semaphore and scans the
  sources; \<^term>\<open>None\<close> while it is blocked.
\<close>

fun loop_step :: "'m sem_ops \<Rightarrow> ('m, 'e) listener \<Rightarrow> ('m, 'e) listener option" where
  "loop_step so l =
     (case l_thread l of
        L_Test \<Rightarrow> Some (l\<lparr>l_thread := (if m_running l then L_Wait else L_Ended)\<rparr>)
      | L_Wait \<Rightarrow>
          (case consumer (l_ws l) of
             C_Waiting \<Rightarrow> map_option (\<lambda>ws. l\<lparr>l_ws := ws\<rparr>) (wait_take so (l_ws l))
           | C_Scanning rest result \<Rightarrow>
               map_option (\<lambda>ws. l\<lparr>l_ws := ws, l_thread := (if rest = [] then L_Call result else L_Wait)\<rparr>)
                 (collect_step (l_ws l)))
      | L_Call (src # rest) \<Rightarrow>
          Some (l\<lparr>l_calls := l_calls l @ find_callback src (m_entries l), l_thread := L_Call rest\<rparr>)
      | L_Call [] \<Rightarrow> Some (l\<lparr>l_thread := L_Test\<rparr>)
      | _ \<Rightarrow> None)"

declare loop_step.simps [simp del]

text \<open>The other two ends of the semaphore's \<open>timedWait\<close>: the timeout, and an error.\<close>

definition loop_timeout :: "'m sem_ops \<Rightarrow> ('m, 'e) listener \<Rightarrow> ('m, 'e) listener option" where
  "loop_timeout so l =
     (if l_thread l = L_Wait
      then map_option (\<lambda>ws. l\<lparr>l_ws := ws, l_thread := L_Call []\<rparr>) (wait_timeout so (l_ws l))
      else None)"

definition loop_error :: "('m, 'e) listener \<Rightarrow> ('m, 'e) listener option" where
  "loop_error l =
     (if l_thread l = L_Wait \<and> consumer (l_ws l) = C_Waiting
      then Some (l\<lparr>l_ws := (l_ws l)\<lparr>consumer := C_Scanning (m_sources (l_ws l)) []\<rparr>\<rparr>)
      else None)"

definition on_ws ::
  "('m wait_set \<Rightarrow> 'm wait_set option) \<Rightarrow> ('m, 'e) listener \<Rightarrow> ('m, 'e) listener option" where
  "on_ws f l = map_option (\<lambda>ws. l\<lparr>l_ws := ws\<rparr>) (f (l_ws l))"

datatype l_action =
    Start | Stop | Stop_Post_Failed | Loop | Timeout | Wait_Error | L_Fire nat nat | L_Post nat
  | L_Post_Failed nat

fun listener_step :: "'m sem_ops \<Rightarrow> ('m, 'e) listener \<Rightarrow> l_action \<Rightarrow> ('m, 'e) listener option" where
  "listener_step so l Start = listener_start l"
| "listener_step so l Stop = stop_step so l"
| "listener_step so l Loop = loop_step so l"
| "listener_step so l Timeout = loop_timeout so l"
| "listener_step so l Wait_Error = loop_error l"
| "listener_step so l (L_Fire p src) = on_ws (fire_store p src) l"
| "listener_step so l (L_Post p) = on_ws (fire_post so p) l"
| "listener_step so l Stop_Post_Failed = stop_post_failed l"
| "listener_step so l (L_Post_Failed p) = on_ws (fire_post_failed p) l"

fun mini_listener_run :: "'m sem_ops \<Rightarrow> ('m, 'e) listener \<Rightarrow> l_action list \<Rightarrow> ('m, 'e) listener option" where
  "mini_listener_run so l [] = Some l"
| "mini_listener_run so l (a # as) =
     (case listener_step so l a of None \<Rightarrow> None | Some l' \<Rightarrow> mini_listener_run so l' as)"

text \<open>The callbacks are attached before the listener is started, one per source.\<close>

definition listener_init :: "'m sem_ops \<Rightarrow> ('m, 'e) listener \<Rightarrow> bool" where
  "listener_init so l \<longleftrightarrow>
     (\<exists>l0 n es. MiniListener so n = Some l0 \<and> distinct (map fst es) \<and> l = fold listener_attach es l0)"

definition listener_next :: "'m sem_ops \<Rightarrow> ('m, 'e) listener \<Rightarrow> ('m, 'e) listener \<Rightarrow> bool" where
  "listener_next so l l' \<longleftrightarrow> (\<exists>a. listener_step so l a = Some l')"

section \<open>Invariant\<close>

fun to_call :: "listener_thread \<Rightarrow> nat list" where
  "to_call (L_Call srcs) = srcs"
| "to_call _ = []"

definition l_inv :: "'m sem_ops \<Rightarrow> ('m, 'e) listener \<Rightarrow> bool" where
  "l_inv so l \<longleftrightarrow>
     ws_inv so (l_ws l) \<and>
     (l_stop l \<noteq> S_Idle \<longrightarrow> \<not> m_running l) \<and>
     (l_stop l = S_Posted \<and> l_thread l = L_Wait \<and> consumer (l_ws l) = C_Waiting \<longrightarrow>
        sem_count so (m_sem (l_ws l)) > 0) \<and>
     (l_thread l \<noteq> L_Wait \<longrightarrow> consumer (l_ws l) = C_Waiting) \<and>
     length (to_call (l_thread l)) \<le> length (m_sources (l_ws l)) \<and>
     l_calls l @ run_callbacks (m_entries l) (to_call (l_thread l)) =
       run_callbacks (m_entries l) (concat (rounds (l_ws l)))"

lemma run_callbacks_simps [simp]:
  "run_callbacks es [] = []"
  "run_callbacks es (s # ss) = find_callback s es @ run_callbacks es ss"
  "run_callbacks es (ss @ ts) = run_callbacks es ss @ run_callbacks es ts"
  by (simp_all add: run_callbacks_def)

lemma listener_attach_fold:
  "fold listener_attach es l =
     l\<lparr>m_entries := m_entries l @ es, l_ws := fold attach (map fst es) (l_ws l)\<rparr>"
  by (induction es arbitrary: l) (simp_all add: listener_attach_def attachWithCallback_def)

lemma l_inv_init: "listener_init so l \<Longrightarrow> l_inv so l"
proof -
  assume "listener_init so l"
  then obtain l0 n es where l0: "MiniListener so n = Some l0" "distinct (map fst es)"
    "l = fold listener_attach es l0"
    by (auto simp: listener_init_def)
  then obtain ws where ws: "MiniWaitSet so n = Some ws"
    "l0 = \<lparr>l_ws = ws, m_entries = [], m_running = False, l_thread = L_None,
           l_stop = S_Idle, l_calls = []\<rparr>"
    by (auto simp: MiniListener_def split: option.splits)
  then have "ws_init so (fold attach (map fst es) ws)"
    using l0(2) by (auto simp: ws_init_def)
  then have "ws_inv so (l_ws l)"
    using l0 ws(2) by (simp add: listener_attach_fold ws_inv_init)
  moreover have "consumer ws = C_Waiting" "rounds ws = []"
    using ws(1) by (auto simp: MiniWaitSet_def split: option.splits)
  ultimately show ?thesis
    using l0(3) ws(2) by (simp add: l_inv_def listener_attach_fold attach_fold)
qed

lemma ws_inv_posted:
  "sem_laws so \<Longrightarrow> ws_inv so ws \<Longrightarrow> ws_inv so (ws\<lparr>m_sem := sem_post so (m_sem ws)\<rparr>)"
  by (simp add: ws_inv_def collected_def sem_count_post)

lemma l_inv_control:
  assumes "sem_laws so" "l_inv so l"
    "listener_start l = Some l' \<or> stop_step so l = Some l' \<or> stop_post_failed l = Some l'"
  shows "l_inv so l'"
  using assms(2,3) sem_count_post [OF assms(1)] ws_inv_posted [OF assms(1), of "l_ws l"]
  by (auto simp: l_inv_def listener_start_def stop_step_def stop_post_failed_def
      split: stop_pc.splits if_splits)

lemma ws_frame:
  "fire_store p src ws = Some ws' \<Longrightarrow>
     m_sources ws' = m_sources ws \<and> consumer ws' = consumer ws \<and> rounds ws' = rounds ws \<and>
     m_sem ws' = m_sem ws"
  "fire_post so p ws = Some ws' \<Longrightarrow>
     m_sources ws' = m_sources ws \<and> consumer ws' = consumer ws \<and> rounds ws' = rounds ws \<and>
     m_sem ws' = sem_post so (m_sem ws)"
  "fire_post_failed p ws = Some ws' \<Longrightarrow>
     m_sources ws' = m_sources ws \<and> consumer ws' = consumer ws \<and> rounds ws' = rounds ws \<and>
     m_sem ws' = m_sem ws"
  by (auto simp: fire_store_def fire_post_def fire_post_failed_def split: if_splits producer.splits)

lemma l_inv_fire:
  assumes "sem_laws so" "l_inv so l"
    "on_ws (fire_store p src) l = Some l' \<or> on_ws (fire_post so p) l = Some l' \<or>
     on_ws (fire_post_failed p) l = Some l'"
  shows "l_inv so l'"
proof -
  from assms(3) obtain ws' where ws': "l' = l\<lparr>l_ws := ws'\<rparr>"
    "fire_store p src (l_ws l) = Some ws' \<or> fire_post so p (l_ws l) = Some ws' \<or>
     fire_post_failed p (l_ws l) = Some ws'"
    by (auto simp: on_ws_def)
  have "ws_inv so ws'"
    using ws'(2) assms(2) ws_inv_fire ws_inv_post [OF assms(1)] ws_inv_post_failed unfolding l_inv_def by blast
  then show ?thesis
    using assms(2) ws' sem_count_post [OF assms(1)] unfolding l_inv_def
    by (auto dest!: ws_frame)
qed

lemma l_inv_wait:
  assumes "l_inv so l" "loop_timeout so l = Some l' \<or> loop_error l = Some l'"
  shows "l_inv so l'"
  using assms
proof (elim disjE)
  assume inv: "l_inv so l" and "loop_timeout so l = Some l'"
  then obtain ws' where "wait_timeout so (l_ws l) = Some ws'" "l_thread l = L_Wait"
    "l' = l\<lparr>l_ws := ws', l_thread := L_Call []\<rparr>"
    by (auto simp: loop_timeout_def split: if_splits)
  moreover from this inv have "ws_inv so ws'" using ws_inv_wait unfolding l_inv_def by blast
  ultimately show ?thesis
    using inv by (auto simp: l_inv_def wait_timeout_def split: consumer.splits if_splits)
next
  assume "l_inv so l" "loop_error l = Some l'"
  then show ?thesis
    by (auto simp: l_inv_def loop_error_def ws_inv_def collected_def split: if_splits)
qed

lemma collect_frame:
  "collect_step ws = Some ws' \<Longrightarrow> consumer ws = C_Scanning rest res \<Longrightarrow>
     m_sources ws' = m_sources ws \<and> m_sem ws' = m_sem ws \<and>
     (if rest = [] then consumer ws' = C_Waiting \<and> rounds ws' = rounds ws @ [res]
      else rounds ws' = rounds ws \<and>
        (\<exists>res'. consumer ws' = C_Scanning (tl rest) res' \<and> length res' \<le> Suc (length res)))"
  by (cases rest) (auto simp: collect_step_def)

lemma scan_length:
  assumes "ws_inv so ws" "consumer ws = C_Scanning rest res"
  shows "length rest + length res \<le> length (m_sources ws)"
  using assms by (auto simp: ws_inv_def dest: list_emb_length)

lemma l_inv_loop:
  assumes "sem_laws so" and inv: "l_inv so l" and step: "loop_step so l = Some l'"
  shows "l_inv so l'"
proof (cases "l_thread l")
  case L_Wait
  show ?thesis
  proof (cases "consumer (l_ws l)")
    case C_Waiting
    with L_Wait step obtain ws' where ws': "wait_take so (l_ws l) = Some ws'" "l' = l\<lparr>l_ws := ws'\<rparr>"
      by (auto simp: loop_step.simps)
    moreover have "ws_inv so ws'" using ws' inv ws_inv_wait unfolding l_inv_def by blast
    ultimately show ?thesis
      using inv L_Wait C_Waiting by (auto simp: l_inv_def wait_take_def split: option.splits)
  next
    case (C_Scanning rest res)
    with L_Wait step obtain ws' where ws': "collect_step (l_ws l) = Some ws'"
      "l' = l\<lparr>l_ws := ws', l_thread := (if rest = [] then L_Call res else L_Wait)\<rparr>"
      by (auto simp: loop_step.simps)
    moreover have "ws_inv so ws'" using ws' inv ws_inv_collect unfolding l_inv_def by blast
    ultimately show ?thesis
      using inv L_Wait collect_frame [OF ws'(1) C_Scanning] scan_length [OF _ C_Scanning]
      by (auto simp: l_inv_def split: if_splits)
  qed
next
  case (L_Call srcs)
  with inv step show ?thesis
    by (cases srcs) (auto simp: l_inv_def loop_step.simps)
qed (use inv step in \<open>auto simp: l_inv_def loop_step.simps\<close>)

lemma l_inv_step:
  assumes "sem_laws so" "l_inv so l" "listener_next so l l'"
  shows "l_inv so l'"
proof -
  from assms(3) obtain a where "listener_step so l a = Some l'" by (auto simp: listener_next_def)
  with assms(1,2) show ?thesis
    by (cases a) (auto intro: l_inv_control l_inv_loop l_inv_wait l_inv_fire)
qed

lemma l_reach_inv:
  assumes "sem_laws so" "reach (listener_init so) (listener_next so) l"
  shows "l_inv so l"
  using assms(2)
  by (induction rule: reach.induct) (blast intro: l_inv_init l_inv_step assms(1))+

section \<open>Stopping\<close>

text \<open>The number of steps the background thread still makes once \<open>m_running\<close> is false.\<close>

definition work :: "('m, 'e) listener \<Rightarrow> nat" where
  "work l =
     (case l_thread l of
        L_Test \<Rightarrow> 1
      | L_Call srcs \<Rightarrow> length srcs + 2
      | L_Wait \<Rightarrow>
          (case consumer (l_ws l) of
             C_Waiting \<Rightarrow> 2 * length (m_sources (l_ws l)) + 4
           | C_Scanning rest res \<Rightarrow> 2 * length rest + length res + 3)
      | _ \<Rightarrow> 0)"

lemma work_bound: "l_inv so l \<Longrightarrow> work l \<le> 2 * length (m_sources (l_ws l)) + 4"
  using scan_length [of so "l_ws l"]
  by (fastforce simp: l_inv_def work_def split: listener_thread.splits consumer.splits)

lemma loop_progress:
  assumes "sem_laws so" and inv: "l_inv so l" and "l_stop l = S_Posted" "work l > 0"
  shows "\<exists>l'. loop_step so l = Some l' \<and> l_stop l' = S_Posted \<and> work l' < work l"
proof (cases "l_thread l")
  case L_Wait
  show ?thesis
  proof (cases "consumer (l_ws l)")
    case C_Waiting
    with inv L_Wait assms(3) have "sem_take so (m_sem (l_ws l)) \<noteq> None"
      using sem_take_None [OF assms(1)] by (simp add: l_inv_def)
    with L_Wait C_Waiting assms(3) show ?thesis
      by (auto simp: loop_step.simps wait_take_def work_def)
  next
    case (C_Scanning rest res)
    then obtain ws' where ws': "collect_step (l_ws l) = Some ws'"
      by (cases rest) (auto simp: collect_step_def)
    with L_Wait C_Scanning assms(3) collect_frame [OF ws' C_Scanning] show ?thesis
      by (cases rest) (auto simp: loop_step.simps work_def)
  qed
next
  case (L_Call srcs)
  with assms(3) show ?thesis
    by (cases srcs) (auto simp: loop_step.simps work_def)
qed (use assms in \<open>auto simp: loop_step.simps work_def l_inv_def\<close>)

lemma loop_drains:
  assumes "sem_laws so"
  shows "l_inv so l \<Longrightarrow> l_stop l = S_Posted \<Longrightarrow>
    \<exists>n l'. n \<le> work l \<and> mini_listener_run so l (replicate n Loop) = Some l' \<and>
           l_stop l' = S_Posted \<and> (l_thread l' = L_None \<or> l_thread l' = L_Ended)"
proof (induction "work l" arbitrary: l rule: less_induct)
  case less
  show ?case
  proof (cases "work l > 0")
    case True
    from loop_progress [OF assms less.prems True] obtain u where
      u: "loop_step so l = Some u" "l_stop u = S_Posted" "work u < work l"
      by blast
    from less.hyps [OF u(3) l_inv_loop [OF assms less.prems(1) u(1)] u(2)] obtain n l' where
      "n \<le> work u" "mini_listener_run so u (replicate n Loop) = Some l'" "l_stop l' = S_Posted"
      "l_thread l' = L_None \<or> l_thread l' = L_Ended"
      by blast
    with u show ?thesis by (intro exI [of _ "Suc n"] exI [of _ l']) auto
  next
    case False
    with less.prems show ?thesis
      by (intro exI [of _ 0] exI [of _ l])
        (auto simp: work_def split: listener_thread.splits consumer.splits)
  qed
qed

text \<open>
  C29: \<open>stop\<close> returns. In every reachable state in which \<open>stop\<close> has stored the flag and posted the
  semaphore, the background thread ends by its own steps, at most two per attached source
  and four more, and no timeout is needed for that; then the \<open>join\<close> goes through.
\<close>

theorem stop_always_returns:
  assumes "sem_laws so" "reach (listener_init so) (listener_next so) l" "l_stop l = S_Posted"
  shows "\<exists>n l'. n \<le> 2 * length (m_sources (l_ws l)) + 4 \<and>
           mini_listener_run so l (replicate n Loop @ [Stop]) = Some l' \<and>
           l_stop l' = S_Idle \<and> l_thread l' = L_None"
proof -
  note inv = l_reach_inv [OF assms(1,2)]
  from loop_drains [OF assms(1) inv assms(3)] obtain n u where
    u: "n \<le> work l" "mini_listener_run so l (replicate n Loop) = Some u" "l_stop u = S_Posted"
      "l_thread u = L_None \<or> l_thread u = L_Ended"
    by blast
  have run: "mini_listener_run so l (as @ bs) =
      (case mini_listener_run so l as of None \<Rightarrow> None | Some v \<Rightarrow> mini_listener_run so v bs)" for as bs l
    by (induction as arbitrary: l) (auto split: option.splits)
  from u work_bound [OF inv] show ?thesis
    by (intro exI [of _ n] exI [of _ "u\<lparr>l_thread := L_None, l_stop := S_Idle\<rparr>"])
       (auto simp: run stop_step_def)
qed

text \<open>
  When the post of \<open>stop\<close> fails, the timeout of \<open>timedWait\<close> takes its place: a background thread
  that is blocked in it ends three steps of its own after the timeout.
\<close>

theorem unposted_stop_needs_timeout:
  assumes "sem_laws so" "reach (listener_init so) (listener_next so) l" "l_stop l = S_Unposted"
    and "l_thread l = L_Wait" "consumer (l_ws l) = C_Waiting" "sem_count so (m_sem (l_ws l)) = 0"
  shows "loop_step so l = None \<and> stop_step so l = None \<and>
    (\<exists>l'. mini_listener_run so l [Timeout, Loop, Loop, Stop] = Some l' \<and> l_stop l' = S_Idle \<and> l_thread l' = L_None)"
proof -
  have "\<not> m_running l" using l_reach_inv [OF assms(1,2)] assms(3) by (simp add: l_inv_def)
  with assms(3-6) sem_take_None [OF assms(1), of "m_sem (l_ws l)"] show ?thesis
    by (simp add: loop_step.simps stop_step_def wait_take_def loop_timeout_def wait_timeout_def)
qed

section \<open>The callbacks\<close>

lemma count_find_callback:
  assumes "\<forall>(s, c) \<in> set es. c = e \<longrightarrow> s = i"
  shows "count_list (find_callback src es) e \<le> (if src = i then 1 else 0)"
  using assms by (induction es) auto

lemma count_run_callbacks:
  assumes "\<forall>(s, c) \<in> set es. c = e \<longrightarrow> s = i"
  shows "count_list (run_callbacks es srcs) e \<le> count_list srcs i"
proof (induction srcs)
  case (Cons s srcs)
  with count_find_callback [OF assms, of s] show ?case
    by (simp split: if_splits)
qed simp

text \<open>
  A callback that is registered for one source only is never called more often than that
  source's event was fired, whatever the interleaving and however often the semaphore's
  wait times out or fails.
\<close>

theorem callbacks_only_for_events:
  assumes "sem_laws so" "reach (listener_init so) (listener_next so) l"
    and "\<forall>(s, c) \<in> set (m_entries l). c = e \<longrightarrow> s = i"
  shows "count_list (l_calls l) e \<le> stores (l_ws l) i"
proof -
  note inv = l_reach_inv [OF assms(1,2)]
  then have "l_calls l @ run_callbacks (m_entries l) (to_call (l_thread l)) =
      run_callbacks (m_entries l) (concat (rounds (l_ws l)))"
    by (simp add: l_inv_def)
  then have "count_list (l_calls l) e \<le>
      count_list (run_callbacks (m_entries l) (concat (rounds (l_ws l)))) e"
    by (metis count_list_append le_add1)
  also have "\<dots> \<le> count_list (concat (rounds (l_ws l))) i"
    by (rule count_run_callbacks [OF assms(3)])
  also have "\<dots> \<le> stores (l_ws l) i"
  proof -
    have "collected (l_ws l) i + (if triggered (l_ws l) i then 1 else 0) \<le> stores (l_ws l) i"
      using inv by (simp add: l_inv_def ws_inv_def)
    then show ?thesis by (simp add: collected_def split: if_splits)
  qed
  finally show ?thesis .
qed

section \<open>The demonstrations\<close>

text \<open>
  \<open>demo4\<close>: two sources, the button 0 and the timer 1, with a callback each; the main thread
  fires button, timer, button with pauses in between and stops.
\<close>

definition demo4_listener :: "(nat, string) listener" where
  "demo4_listener =
     fold listener_attach [(0, ''  [callback] Button pressed!''), (1, ''  [callback] Timer expired!'')]
       (the (MiniListener nat_sem 1))"

definition demo4_main :: "l_action list list" where
  "demo4_main =
     [[Start], [L_Fire 0 0, L_Post 0], [L_Fire 0 1, L_Post 0], [L_Fire 0 0, L_Post 0],
      [Stop, Stop]]"

text \<open>The pauses are long enough for the thread: it runs \<open>k\<close> steps in each.\<close>

definition demo4_schedule :: "nat list \<Rightarrow> l_action list" where
  "demo4_schedule ks = concat (map (\<lambda>(as, k). as @ replicate k Loop) (zip demo4_main ks)) @ [Stop]"

lemmas listener_exec = demo4_listener_def MiniListener_def MiniWaitSet_def initSemaphore_def
  nat_sem_def listener_attach_def attachWithCallback_def attach_def listener_start_def
  stop_step_def loop_step.simps loop_timeout_def on_ws_def fire_store_def fire_post_def
  wait_take_def wait_timeout_def collect_step_def demo4_main_def demo4_schedule_def

lemma listener_run_reach:
  "mini_listener_run so l as = Some u \<Longrightarrow> reach I (listener_next so) l \<Longrightarrow> reach I (listener_next so) u"
proof (induction as arbitrary: l)
  case (Cons a as)
  then obtain v where v: "listener_step so l a = Some v" "mini_listener_run so v as = Some u"
    by (auto split: option.splits)
  have "listener_next so l v" using v(1) by (auto simp: listener_next_def)
  from Cons.IH [OF v(2) reach_step [OF Cons.prems(2) this]] show ?case .
qed simp

lemma demo4_init: "reach (listener_init nat_sem) (listener_next nat_sem) demo4_listener"
proof (rule reach_init)
  have "MiniListener nat_sem 1 = Some (the (MiniListener nat_sem 1) :: (nat, string) listener)"
    by (simp add: listener_exec)
  moreover have "distinct (map fst [(0 :: nat, ''  [callback] Button pressed!''),
      (1, ''  [callback] Timer expired!'')])"
    by simp
  ultimately show "listener_init nat_sem demo4_listener"
    unfolding listener_init_def demo4_listener_def by blast
qed

text \<open>With these pauses each event is delivered before the next one and before the stop.\<close>

theorem demo4_output:
  "map_option l_calls (mini_listener_run nat_sem demo4_listener (demo4_schedule [1, 7, 7, 7, 6])) =
     Some [''  [callback] Button pressed!'', ''  [callback] Timer expired!'',
           ''  [callback] Button pressed!'']"
  by (simp add: listener_exec numeral_eq_Suc)

text \<open>
  An event that is pending when \<open>stop\<close> is called can be dropped: the thread tests
  \<open>m_running\<close> before it waits again, so it ends with the flag of the source still set and
  the callback not called.
\<close>

theorem stop_can_drop_event:
  "\<exists>l. mini_listener_run nat_sem demo4_listener
         [Start, L_Fire 0 0, L_Post 0, Stop, Loop, Stop, Stop] = Some l \<and>
       l_thread l = L_None \<and> stores (l_ws l) 0 = 1 \<and> triggered (l_ws l) 0 \<and> l_calls l = []"
  by (simp add: listener_exec)

theorem stop_always_returns_witness:
  "\<exists>(l :: (nat, string) listener) n l'. reach (listener_init nat_sem) (listener_next nat_sem) l \<and> l_stop l = S_Posted \<and>
     l_thread l = L_Wait \<and> n \<le> 8 \<and>
     mini_listener_run nat_sem l (replicate n Loop @ [Stop]) = Some l' \<and> l_thread l' = L_None"
proof -
  obtain l where l: "mini_listener_run nat_sem demo4_listener [Start, Loop, Stop, Stop] = Some l"
    "l_stop l = S_Posted" "l_thread l = L_Wait" "length (m_sources (l_ws l)) = 2"
    by (simp add: listener_exec)
  note r = listener_run_reach [OF l(1) demo4_init]
  from stop_always_returns [OF nat_sem_laws r l(2)] obtain n l' where
    "n \<le> 2 * length (m_sources (l_ws l)) + 4"
    "mini_listener_run nat_sem l (replicate n Loop @ [Stop]) = Some l'" "l_thread l' = L_None"
    by blast
  with l r show ?thesis by (intro exI [of _ l] exI [of _ n] exI [of _ l']) simp
qed

theorem unposted_stop_needs_timeout_witness:
  "\<exists>(l :: (nat, string) listener) l'. reach (listener_init nat_sem) (listener_next nat_sem) l \<and> l_stop l = S_Unposted \<and>
     mini_listener_run nat_sem l [Timeout, Loop, Loop, Stop] = Some l' \<and> l_thread l' = L_None"
proof -
  obtain l where l: "mini_listener_run nat_sem demo4_listener [Start, Loop, Stop, Stop_Post_Failed] = Some l"
    "l_stop l = S_Unposted" "l_thread l = L_Wait" "consumer (l_ws l) = C_Waiting" "sem_count nat_sem (m_sem (l_ws l)) = 0"
    by (simp add: listener_exec stop_post_failed_def)
  note r = listener_run_reach [OF l(1) demo4_init]
  from unposted_stop_needs_timeout [OF nat_sem_laws r l(2-5)] r l(2) show ?thesis by blast
qed

theorem callbacks_only_for_events_witness:
  "\<exists>l. reach (listener_init nat_sem) (listener_next nat_sem) l \<and>
     count_list (l_calls l) ''  [callback] Button pressed!'' = 1 \<and>
     count_list (l_calls l) ''  [callback] Button pressed!'' \<le> stores (l_ws l) 0"
proof -
  obtain l where l: "mini_listener_run nat_sem demo4_listener
        [Start, L_Fire 0 0, L_Post 0, Loop, Loop, Loop, Loop, Loop, Loop] = Some l"
    "m_entries l = [(0, ''  [callback] Button pressed!''), (1, ''  [callback] Timer expired!'')]"
    "l_calls l = [''  [callback] Button pressed!'']"
    by (simp add: listener_exec)
  note r = listener_run_reach [OF l(1) demo4_init]
  from callbacks_only_for_events [OF nat_sem_laws r, of "''  [callback] Button pressed!''" 0] l r
  show ?thesis by (intro exI [of _ l]) simp
qed

section \<open>The first and the third demonstration\<close>

text \<open>
  \<open>demo1\<close>: one semaphore, the producer thread prints and posts, the main thread prints, waits
  and prints. The programs of the two threads are lists of what they still have to do. The post
  and the wait succeed here; the lines printed when one of them fails are left out.
\<close>

datatype demo1_op = D1_Print string | D1_Post | D1_Wait

definition demo1_producer :: "demo1_op list" where
  "demo1_producer = [D1_Print ''  [producer] posting'', D1_Post]"

definition demo1_consumer :: "demo1_op list" where
  "demo1_consumer = [D1_Print ''  [consumer] waiting...'', D1_Wait, D1_Print ''  [consumer] woke up'']"

fun demo1_exec :: "'m sem_ops \<Rightarrow> demo1_op \<Rightarrow> 'm \<times> console \<Rightarrow> ('m \<times> console) option" where
  "demo1_exec so (D1_Print line) (m, out) = Some (m, out @ [line])"
| "demo1_exec so D1_Post (m, out) = Some (sem_post so m, out)"
| "demo1_exec so D1_Wait (m, out) = map_option (\<lambda>m'. (m', out)) (sem_take so m)"

text \<open>A schedule says for each step whether the producer moves.\<close>

fun demo1_run ::
  "'m sem_ops \<Rightarrow> demo1_op list \<Rightarrow> demo1_op list \<Rightarrow> 'm \<times> console \<Rightarrow> bool list \<Rightarrow>
   (demo1_op list \<times> demo1_op list \<times> 'm \<times> console) option" where
  "demo1_run so ps cs s [] = Some (ps, cs, s)"
| "demo1_run so ps cs s (True # sched) =
     (case ps of [] \<Rightarrow> None
      | p # ps' \<Rightarrow> (case demo1_exec so p s of None \<Rightarrow> None | Some s' \<Rightarrow> demo1_run so ps' cs s' sched))"
| "demo1_run so ps cs s (False # sched) =
     (case cs of [] \<Rightarrow> None
      | c # cs' \<Rightarrow> (case demo1_exec so c s of None \<Rightarrow> None | Some s' \<Rightarrow> demo1_run so ps cs' s' sched))"

definition demo1_single_source ::
  "'m sem_ops \<Rightarrow> bool list \<Rightarrow> (demo1_op list \<times> demo1_op list \<times> 'm \<times> console) option" where
  "demo1_single_source so sched =
     (case initSemaphore so 0 of None \<Rightarrow> None
      | Some m \<Rightarrow> demo1_run so demo1_producer demo1_consumer (m, []) sched)"

lemma demo1_run_length:
  "demo1_run so ps cs s sched = Some (ps', cs', s') \<Longrightarrow>
   length sched + length ps' + length cs' = length ps + length cs"
  by (induction so ps cs s sched rule: demo1_run.induct) (auto split: list.splits option.splits)

text \<open>
  On every schedule on which both threads of \<open>demo1\<close> end, the consumer prints that it woke up
  last, after the producer printed that it posts.
\<close>

theorem demo1_output:
  assumes laws: "sem_laws so" and run: "demo1_single_source so sched = Some ([], [], m, out)"
  shows "out = [''  [consumer] waiting...'', ''  [producer] posting'', ''  [consumer] woke up''] \<or>
         out = [''  [producer] posting'', ''  [consumer] waiting...'', ''  [consumer] woke up'']"
proof -
  from run obtain m0 where m0: "initSemaphore so 0 = Some m0"
    and r: "demo1_run so demo1_producer demo1_consumer (m0, []) sched = Some ([], [], m, out)"
    by (auto simp: demo1_single_source_def split: option.splits)
  then have no: "sem_take so m0 = None"
    using sem_take_None [OF laws] sem_count_create [OF laws] by (simp add: initSemaphore_def)
  from demo1_run_length [OF r] have "length sched = 5"
    by (simp add: demo1_producer_def demo1_consumer_def)
  then obtain a b c d e where "sched = [a, b, c, d, e]"
    by (auto simp: length_Suc_conv numeral_eq_Suc)
  with r no show ?thesis
    by (cases a; cases b; cases c; cases d; cases e)
       (auto simp: demo1_producer_def demo1_consumer_def split: option.splits)
qed

theorem demo1_output_witness:
  "\<exists>m out. demo1_single_source nat_sem [False, True, True, False, False] = Some ([], [], m, out) \<and>
     last out = ''  [consumer] woke up''"
proof -
  obtain m out where
    run: "demo1_single_source nat_sem [False, True, True, False, False] = Some ([], [], m, out)"
    by (simp add: demo1_single_source_def demo1_producer_def demo1_consumer_def nat_sem_def
        initSemaphore_def)
  from demo1_output [OF nat_sem_laws this] run show ?thesis by auto
qed

text \<open>
  \<open>demo3\<close>: a wait with a timeout when nothing fires, then one while another thread fires after
  20 ms. The first has no one to post, so it ends by its timeout; the second part is any
  interleaving of the firing thread and the waiting thread.
\<close>

definition demo3_waitset :: "'m sem_ops \<Rightarrow> 'm wait_set option" where
  "demo3_waitset so = map_option (attach 0) (MiniWaitSet so 1)"

definition demo3_report :: "nat list list \<Rightarrow> console" where
  "demo3_report rs =
     (case rs of
        [first, second] \<Rightarrow>
          [''  result: '' @ (if first = [] then ''TIMEOUT'' else ''triggered (unexpected)''),
           ''  result: '' @ (if second = [] then ''TIMEOUT (unexpected)'' else ''got X'')]
      | _ \<Rightarrow> [])"

definition demo3_timed_wait :: "'m sem_ops \<Rightarrow> ws_action list \<Rightarrow> console option" where
  "demo3_timed_wait so sched =
     (case demo3_waitset so of None \<Rightarrow> None
      | Some ws \<Rightarrow>
          (case ws_run so ws (Wait_Timeout # sched) of None \<Rightarrow> None
           | Some ws' \<Rightarrow> Some (demo3_report (rounds ws'))))"

text \<open>
  When the firing thread has posted before the second wait gives up, the wait reports the
  event; when the timeout comes between the store and the post it reports a timeout although
  the flag of the source is set.
\<close>

theorem demo3_outputs:
  "demo3_timed_wait nat_sem [Fire 0 0, Post_Sem 0, Wait_Set, Collect, Collect] =
     Some [''  result: TIMEOUT'', ''  result: got X'']"
  "demo3_timed_wait nat_sem [Fire 0 0, Wait_Timeout, Post_Sem 0] =
     Some [''  result: TIMEOUT'', ''  result: TIMEOUT (unexpected)'']"
  by (simp_all add: demo3_timed_wait_def demo3_waitset_def demo3_report_def MiniWaitSet_def
      initSemaphore_def nat_sem_def attach_def fire_store_def fire_post_def wait_take_def
      wait_timeout_def collect_step_def)

end
