(* ===== verification/Channel_Test.thy ===== *)
theory Channel_Test
  imports Channel
begin

text \<open>
  \<open>src/boost_test/asio/012.channel_test\<close>: a hundred coroutines on an \<open>io_context\<close> with two
  hundred threads share one channel with room for one message. Each sleeps, sends, counts
  itself, receives and ends; the main thread polls the counter. The coroutines interleave at
  every access to the channel, the counter and the table of results. The channel is the
  argument \<open>ops\<close> with the law of theory \<open>Channel\<close>, applied as if its operations were atomic.
\<close>

section \<open>State\<close>

text \<open>
  Where a coroutine is: in its timer, in \<open>async_send\<close>, behind it, behind the store of its
  second flag, in \<open>async_receive\<close>, behind it, at its end.
\<close>

datatype co_pc = Co_Timer | Co_Sending | Co_Sent | Co_Counting | Co_Receiving | Co_Received | Co_Done

datatype ct_main = M_Polling | M_Terminated | M_Printing | M_Closed | M_Joining | M_Returned int

record 'c channel_test =
  channel_ptr :: 'c
  channel_receive_result :: "(bool \<times> bool \<times> bool) list"
  ct_counter :: nat
  co_at :: "co_pc list"
  ct_main :: ct_main
  ct_out :: console

section \<open>The coroutine\<close>

definition co_go :: "nat \<Rightarrow> co_pc \<Rightarrow> 'c channel_test \<Rightarrow> 'c channel_test" where
  "co_go i pc s = s\<lparr>co_at := (co_at s)[i := pc]\<rparr>"

definition set_flag :: "nat \<Rightarrow> nat \<Rightarrow> 'c channel_test \<Rightarrow> 'c channel_test" where
  "set_flag i k s =
     s\<lparr>channel_receive_result :=
        (channel_receive_result s)[i :=
           (case channel_receive_result s ! i of
              (a, b, c) \<Rightarrow> if k = 0 then (True, b, c) else if k = 1 then (a, True, c) else (a, b, True))]\<rparr>"

text \<open>
  \<open>channel_send(index)\<close>. A suspended \<open>async_send\<close> completes in a step in which the channel
  accepts the message, a suspended \<open>async_receive\<close> in one in which it has one;
  \<^term>\<open>None\<close> is a coroutine that stays suspended or has ended.
\<close>

definition channel_send :: "('c, int) channel_ops \<Rightarrow> nat \<Rightarrow> 'c channel_test \<Rightarrow> 'c channel_test option"
  where
  "channel_send ops i s =
     (if i < length (co_at s) then
        (case co_at s ! i of
           Co_Timer \<Rightarrow> Some (co_go i Co_Sending (set_flag i 0 s))
         | Co_Sending \<Rightarrow>
             (case try_send ops 1 (channel_ptr s) of
                (True, c) \<Rightarrow> Some (co_go i Co_Sent (s\<lparr>channel_ptr := c\<rparr>))
              | (False, _) \<Rightarrow> None)
         | Co_Sent \<Rightarrow> Some (co_go i Co_Counting (set_flag i 1 s))
         | Co_Counting \<Rightarrow> Some (co_go i Co_Receiving (s\<lparr>ct_counter := Suc (ct_counter s)\<rparr>))
         | Co_Receiving \<Rightarrow>
             (case receive ops (channel_ptr s) of
                None \<Rightarrow> None
              | Some ((e, v), c) \<Rightarrow>
                  Some (co_go i Co_Received
                    (s\<lparr>channel_ptr := c,
                       ct_out := ct_out s @
                         (case e of None \<Rightarrow> [] | Some msg \<Rightarrow> [''channel_receive error: '' @ msg])\<rparr>)))
         | Co_Received \<Rightarrow> Some (co_go i Co_Done (set_flag i 2 s))
         | Co_Done \<Rightarrow> None)
      else None)"

section \<open>The main thread\<close>

text \<open>
  \<open>late\<close> says whether more than 100 s have passed. Returning \<open>-1\<close> destroys the vector of
  joinable threads, which ends the process (\<open>M_Terminated\<close>). The join goes through when all
  coroutines are done, since the guard has been reset.
\<close>

definition result_line :: "(bool \<times> bool \<times> bool) list \<Rightarrow> nat \<Rightarrow> string" where
  "result_line rows i =
     (case rows ! i of
        (a, b, c) \<Rightarrow>
          concat (map (\<lambda>(k, f). ''Channel receive result['' @ show_nat i @ '']['' @ show_nat k @ '']: '' @
                        (if f then ''1'' else ''0'') @ (if k < 2 then '' '' else ''''))
                   [(0, a), (1, b), (2, c)]))"

definition ct_main_step ::
  "('c, int) channel_ops \<Rightarrow> bool \<Rightarrow> 'c channel_test \<Rightarrow> 'c channel_test option" where
  "ct_main_step ops late s =
     (let n = length (co_at s) in
      case ct_main s of
        M_Polling \<Rightarrow>
          Some (if ct_counter s < n \<and> \<not> late then s
                else if ct_counter s < n then s\<lparr>ct_main := M_Terminated\<rparr>
                else s\<lparr>ct_main := M_Printing\<rparr>)
      | M_Printing \<Rightarrow>
          Some (s\<lparr>ct_main := M_Closed,
                  ct_out := ct_out s @ (''Counter: '' @ show_nat (ct_counter s)) #
                    map (result_line (channel_receive_result s)) [0..<n]\<rparr>)
      | M_Closed \<Rightarrow> Some (s\<lparr>ct_main := M_Joining, channel_ptr := close ops (channel_ptr s)\<rparr>)
      | M_Joining \<Rightarrow> (if set (co_at s) \<subseteq> {Co_Done} then Some (s\<lparr>ct_main := M_Returned 0\<rparr>) else None)
      | _ \<Rightarrow> None)"

definition channel_test_main :: "nat \<Rightarrow> 'c \<Rightarrow> 'c channel_test" where
  "channel_test_main n c =
     \<lparr>channel_ptr = c, channel_receive_result = replicate n (False, False, False), ct_counter = 0,
      co_at = replicate n Co_Timer, ct_main = M_Polling, ct_out = []\<rparr>"

datatype ct_action = Coroutine_Step nat | Main_Step bool

fun ct_step :: "('c, int) channel_ops \<Rightarrow> 'c channel_test \<Rightarrow> ct_action \<Rightarrow> 'c channel_test option" where
  "ct_step ops s (Coroutine_Step i) = channel_send ops i s"
| "ct_step ops s (Main_Step late) = ct_main_step ops late s"

fun ct_run :: "('c, int) channel_ops \<Rightarrow> 'c channel_test \<Rightarrow> ct_action list \<Rightarrow> 'c channel_test option" where
  "ct_run ops s [] = Some s"
| "ct_run ops s (a # as) = (case ct_step ops s a of None \<Rightarrow> None | Some s' \<Rightarrow> ct_run ops s' as)"

fun is_coroutine :: "ct_action \<Rightarrow> bool" where
  "is_coroutine (Coroutine_Step i) = True"
| "is_coroutine (Main_Step late) = False"

section \<open>Invariant\<close>

text \<open>
  The messages in the channel are owed to the coroutines that have sent and not received;
  the counter counts those past \<open>fetch_add\<close>; a coroutine's position says which of its flags
  are set.
\<close>

fun co_owed :: "co_pc \<Rightarrow> nat" where
  "co_owed Co_Sent = 1" | "co_owed Co_Counting = 1" | "co_owed Co_Receiving = 1" | "co_owed _ = 0"

fun co_counted :: "co_pc \<Rightarrow> nat" where
  "co_counted Co_Receiving = 1" | "co_counted Co_Received = 1" | "co_counted Co_Done = 1" | "co_counted _ = 0"

fun co_steps_left :: "co_pc \<Rightarrow> nat" where
  "co_steps_left Co_Timer = 6" | "co_steps_left Co_Sending = 5" | "co_steps_left Co_Sent = 4"
| "co_steps_left Co_Counting = 3" | "co_steps_left Co_Receiving = 2" | "co_steps_left Co_Received = 1"
| "co_steps_left Co_Done = 0"

definition flags_of :: "co_pc \<Rightarrow> bool \<times> bool \<times> bool" where
  "flags_of pc = (co_steps_left pc < 6, co_steps_left pc < 4, co_steps_left pc = 0)"

definition ct_inv :: "('c \<Rightarrow> int list) \<Rightarrow> nat \<Rightarrow> 'c channel_test \<Rightarrow> bool" where
  "ct_inv items cap s \<longleftrightarrow>
     length (items (channel_ptr s)) = sum_list (map co_owed (co_at s)) \<and>
     length (items (channel_ptr s)) \<le> cap \<and>
     ct_counter s = sum_list (map co_counted (co_at s)) \<and>
     channel_receive_result s = map flags_of (co_at s)"

lemma update_same: "i < length xs \<Longrightarrow> xs ! i = x \<Longrightarrow> xs[i := x] = xs"
  by (metis list_update_id)

lemmas row_update = map_update sum_list_update update_same

lemma sum_map_ge: "i < length xs \<Longrightarrow> (f (xs ! i) :: nat) \<le> sum_list (map f xs)"
  by (metis elem_le_sum_list length_map nth_map)

lemma ct_inv_init: "items c = [] \<Longrightarrow> ct_inv items cap (channel_test_main n c)"
  by (simp add: ct_inv_def channel_test_main_def flags_of_def sum_list_replicate)

lemma ct_inv_coroutine:
  assumes law: "channel_law ops items cap" and inv: "ct_inv items cap s"
    and step: "channel_send ops i s = Some s'"
  shows "ct_inv items cap s'"
proof -
  from step have i: "i < length (co_at s)" by (auto simp: channel_send_def split: if_splits)
  with inv have row: "channel_receive_result s ! i = flags_of (co_at s ! i)"
    by (simp add: ct_inv_def)
  show ?thesis
  proof (cases "co_at s ! i")
    case Co_Sending
    with step i obtain c where c: "try_send ops 1 (channel_ptr s) = (True, c)"
      "s' = co_go i Co_Sent (s\<lparr>channel_ptr := c\<rparr>)"
      by (auto simp: channel_send_def split: prod.splits bool.splits)
    from channel_sent [OF law c(1)] inv c(2) i Co_Sending show ?thesis
      by (simp add: ct_inv_def co_go_def row_update flags_of_def)
  next
    case Co_Receiving
    with step i obtain e v c where c: "receive ops (channel_ptr s) = Some ((e, v), c)"
      "co_at s' = (co_at s)[i := Co_Received]" "channel_ptr s' = c" "ct_counter s' = ct_counter s"
      "channel_receive_result s' = channel_receive_result s"
      by (auto simp: channel_send_def co_go_def split: option.splits)
    from channel_received [OF law c(1)] inv c i Co_Receiving sum_map_ge [OF i, of co_owed] show ?thesis
      by (auto simp: ct_inv_def row_update flags_of_def)
  qed (use step i inv row sum_map_ge [OF i, of co_owed] sum_map_ge [OF i, of co_counted] in
        \<open>auto simp: channel_send_def ct_inv_def co_go_def set_flag_def row_update
          flags_of_def\<close>)
qed

lemma ct_inv_main:
  assumes "ct_inv items cap s" "ct_main_step ops late s = Some s'" "ct_main s \<noteq> M_Closed"
  shows "ct_inv items cap s' \<and> co_at s' = co_at s"
  using assms by (auto simp: ct_inv_def ct_main_step_def Let_def split: ct_main.splits if_splits)

lemma coroutine_frame:
  "channel_send ops i s = Some s' \<Longrightarrow> ct_main s' = ct_main s \<and> length (co_at s') = length (co_at s)"
  by (auto simp: channel_send_def co_go_def set_flag_def split: if_splits co_pc.splits
      prod.splits bool.splits option.splits)

section \<open>No deadlock\<close>

lemma steps_left_decrease:
  assumes "channel_send ops i s = Some s'"
  shows "sum_list (map co_steps_left (co_at s)) = Suc (sum_list (map co_steps_left (co_at s')))"
proof -
  from assms have i: "i < length (co_at s)" by (auto simp: channel_send_def split: if_splits)
  from assms i sum_map_ge [OF i, of co_steps_left] show ?thesis
    by (auto simp: channel_send_def co_go_def set_flag_def row_update split: co_pc.splits
        prod.splits bool.splits option.splits)
qed

lemma stuck_means_done:
  assumes law: "channel_law ops items cap" and "0 < cap" and inv: "ct_inv items cap s"
    and stuck: "\<And>i. channel_send ops i s = None" and i: "i < length (co_at s)"
  shows "co_at s ! i = Co_Done"
proof -
  have pcs: "co_at s ! j \<in> {Co_Sending, Co_Receiving, Co_Done}" if "j < length (co_at s)" for j
    using stuck [of j] that by (auto simp: channel_send_def split: co_pc.splits)
  have no_recv: "co_at s ! j \<noteq> Co_Receiving" if j: "j < length (co_at s)" for j
  proof
    assume at: "co_at s ! j = Co_Receiving"
    with sum_map_ge [OF j, of co_owed] inv have "0 < length (items (channel_ptr s))"
      unfolding ct_inv_def by (metis co_owed.simps(3) less_le_trans zero_less_one)
    then obtain m ms where "items (channel_ptr s) = m # ms" by (cases "items (channel_ptr s)") auto
    from channel_receive(1) [OF law this] stuck [of j] j at show False
      by (auto simp: channel_send_def)
  qed
  have "sum_list (map co_owed (co_at s)) = 0"
    using pcs no_recv by (fastforce simp: in_set_conv_nth)
  with inv have room: "length (items (channel_ptr s)) < cap" using assms(2) by (simp add: ct_inv_def)
  have "co_at s ! i \<noteq> Co_Sending"
  proof
    assume at: "co_at s ! i = Co_Sending"
    from channel_room [OF law room] obtain c where "try_send ops 1 (channel_ptr s) = (True, c)" .
    with stuck [of i] i at show False by (simp add: channel_send_def)
  qed
  with pcs [OF i] no_recv [OF i] show ?thesis by blast
qed

lemma coroutine_run_inv:
  assumes law: "channel_law ops items cap"
  shows "ct_inv items cap s \<Longrightarrow> list_all is_coroutine as \<Longrightarrow> ct_run ops s as = Some s' \<Longrightarrow>
    ct_inv items cap s' \<and> length (co_at s') = length (co_at s) \<and>
    sum_list (map co_steps_left (co_at s)) = length as + sum_list (map co_steps_left (co_at s'))"
proof (induction as arbitrary: s)
  case (Cons a as)
  then obtain i u where u: "a = Coroutine_Step i" "channel_send ops i s = Some u"
    "ct_run ops u as = Some s'"
    by (cases a) (auto split: option.splits)
  from ct_inv_coroutine [OF law Cons.prems(1) u(2)] Cons.IH [of u] Cons.prems(2) u
    steps_left_decrease [OF u(2)] coroutine_frame [OF u(2)]
  show ?case by simp
qed simp

text \<open>
  The exchange never deadlocks and always ends. Whatever the order in which the coroutines
  move, they make at most six steps each, and when none of them can move any more all have
  ended: the counter is the number of coroutines, every entry of the table is true and the
  channel is empty. No message is left over and no coroutine waits for ever, although a
  coroutine may receive the message of another.
\<close>

theorem channel_exchange_completes:
  assumes law: "channel_law ops items cap" "0 < cap" "items c = []"
    and run: "ct_run ops (channel_test_main n c) as = Some s" "list_all is_coroutine as"
  shows "length as \<le> 6 * n \<and>
         ((\<forall>i. channel_send ops i s = None) \<longrightarrow>
           co_at s = replicate n Co_Done \<and> ct_counter s = n \<and> items (channel_ptr s) = [] \<and>
           channel_receive_result s = replicate n (True, True, True))"
proof -
  from coroutine_run_inv [OF law(1) ct_inv_init [of items c cap n, OF law(3)] run(2,1)]
  have inv: "ct_inv items cap s" and len: "length (co_at s) = n"
    and steps: "6 * n = length as + sum_list (map co_steps_left (co_at s))"
    by (simp_all add: channel_test_main_def sum_list_replicate)
  have "co_at s = replicate n Co_Done" if "\<forall>i. channel_send ops i s = None"
    using stuck_means_done [OF law(1,2) inv] that len by (simp add: list_eq_iff_nth_eq)
  with inv steps show ?thesis
    by (auto simp: ct_inv_def sum_list_replicate flags_of_def)
qed

section \<open>What main prints\<close>

definition ct_next :: "('c, int) channel_ops \<Rightarrow> 'c channel_test \<Rightarrow> 'c channel_test \<Rightarrow> bool" where
  "ct_next ops s s' \<longleftrightarrow> (\<exists>a. ct_step ops s a = Some s')"

definition ct_start :: "('c \<Rightarrow> int list) \<Rightarrow> nat \<Rightarrow> 'c channel_test \<Rightarrow> bool" where
  "ct_start items n s \<longleftrightarrow> (\<exists>c. items c = [] \<and> s = channel_test_main n c)"

definition ct_main_inv :: "('c \<Rightarrow> int list) \<Rightarrow> nat \<Rightarrow> nat \<Rightarrow> 'c channel_test \<Rightarrow> bool" where
  "ct_main_inv items cap n s \<longleftrightarrow>
     length (co_at s) = n \<and>
     (ct_main s \<in> {M_Polling, M_Printing, M_Closed} \<longrightarrow> ct_inv items cap s) \<and>
     (ct_main s = M_Printing \<longrightarrow> n \<le> ct_counter s)"

lemma counter_grows: "channel_send ops i s = Some s' \<Longrightarrow> ct_counter s \<le> ct_counter s'"
  by (auto simp: channel_send_def co_go_def set_flag_def split: if_splits co_pc.splits
      prod.splits bool.splits option.splits)

lemma ct_main_inv_step:
  assumes law: "channel_law ops items cap" and inv: "ct_main_inv items cap n s"
    and step: "ct_next ops s s'"
  shows "ct_main_inv items cap n s'"
proof -
  from step obtain a where a: "ct_step ops s a = Some s'" by (auto simp: ct_next_def)
  show ?thesis
  proof (cases a)
    case (Coroutine_Step i)
    with a have a: "channel_send ops i s = Some s'" by simp
    from coroutine_frame [OF a] counter_grows [OF a] ct_inv_coroutine [OF law _ a] inv show ?thesis
      by (auto simp: ct_main_inv_def)
  next
    case (Main_Step late)
    with a inv show ?thesis
      by (auto simp: ct_main_inv_def ct_main_step_def ct_inv_def Let_def
          split: ct_main.splits if_splits)
  qed
qed

lemma ct_main_reach_inv:
  assumes "channel_law ops items cap" "reach (ct_start items n) (ct_next ops) s"
  shows "ct_main_inv items cap n s"
  using assms(2)
proof (induction rule: reach.induct)
  case (reach_init s)
  then obtain c where "items c = []" "s = channel_test_main n c" by (auto simp: ct_start_def)
  with ct_inv_init [of items c cap n] show ?case
    by (simp add: ct_main_inv_def channel_test_main_def)
next
  case (reach_step s t)
  then show ?case using ct_main_inv_step [OF assms(1)] by blast
qed

lemma sum_counted_max: "sum_list (map co_counted xs) \<le> length xs"
proof (induction xs)
  case (Cons x xs)
  then show ?case by (cases x) auto
qed simp

lemma all_counted: "length xs \<le> sum_list (map co_counted xs) \<Longrightarrow> x \<in> set xs \<Longrightarrow> co_counted x = 1"
proof (induction xs)
  case (Cons y xs)
  with sum_counted_max [of xs] show ?case by (cases y) auto
qed simp

lemma owed_is_receiving:
  "(\<And>x. x \<in> set xs \<Longrightarrow> co_counted x = 1) \<Longrightarrow>
   sum_list (map co_owed xs) = length (filter (\<lambda>pc. pc = Co_Receiving) xs)"
proof (induction xs)
  case (Cons x xs)
  from Cons.prems [of x] Cons show ?case by (cases x) auto
qed simp

text \<open>
  When main has left its polling loop with the counter full, the first two flags of every row
  are set, and at most as many coroutines as the channel has room for are still waiting to
  receive: with the channel of the program, at most one. Its third flag may be printed as 0.
\<close>

theorem printed_rows_are_sent:
  assumes law: "channel_law ops items cap"
    and r: "reach (ct_start items n) (ct_next ops) s" and at: "ct_main s = M_Printing"
  shows "(\<forall>i < n. fst (channel_receive_result s ! i) \<and> fst (snd (channel_receive_result s ! i))) \<and>
         length (filter (\<lambda>pc. pc = Co_Receiving) (co_at s)) \<le> cap"
proof -
  from ct_main_reach_inv [OF law r] at have inv: "ct_inv items cap s" and len: "length (co_at s) = n"
    and full: "n \<le> ct_counter s"
    by (auto simp: ct_main_inv_def)
  have past: "co_counted pc = 1" if "pc \<in> set (co_at s)" for pc
    using all_counted [OF _ that] inv full len by (simp add: ct_inv_def)
  have "fst (channel_receive_result s ! i) \<and> fst (snd (channel_receive_result s ! i))" if "i < n" for i
    using past [OF nth_mem, of i] inv len that
    by (cases "co_at s ! i") (auto simp: ct_inv_def flags_of_def)
  moreover have "length (filter (\<lambda>pc. pc = Co_Receiving) (co_at s)) \<le> cap"
    using inv by (simp add: ct_inv_def owed_is_receiving [OF past])
  ultimately show ?thesis by blast
qed

text \<open>
  When the poll gives up after 100 s the function does not return \<open>-1\<close>: the threads are still
  joinable and the process is terminated.
\<close>

theorem late_poll_terminates:
  assumes "ct_main s = M_Polling" "ct_counter s < length (co_at s)"
  shows "map_option ct_main (ct_main_step ops True s) = Some M_Terminated \<and>
         (\<forall>s' late. ct_main_step ops True s = Some s' \<longrightarrow> ct_main_step ops late s' = None)"
  using assms by (auto simp: ct_main_step_def Let_def)

section \<open>Witnesses\<close>

definition demo_order :: "ct_action list" where
  "demo_order = concat (map (\<lambda>i. replicate 6 (Coroutine_Step i)) [0, 1])"

lemmas ct_exec = channel_test_main_def channel_send_def co_go_def set_flag_def list_channel_def
  demo_order_def ct_main_step_def Let_def numeral_2_eq_2

theorem channel_exchange_completes_witness:
  "\<exists>s. ct_run (list_channel 1) (channel_test_main 2 []) demo_order = Some s \<and>
     length demo_order \<le> 6 * 2 \<and> ct_counter s = 2 \<and>
     channel_receive_result s = replicate 2 (True, True, True)"
proof -
  obtain s where s: "ct_run (list_channel 1) (channel_test_main 2 []) demo_order = Some s"
    "co_at s = [Co_Done, Co_Done]"
    by (simp add: ct_exec numeral_eq_Suc)
  have co: "list_all is_coroutine demo_order" by (simp add: demo_order_def numeral_eq_Suc)
  have "channel_send (list_channel 1) i s = None" for i
    using s(2) by (cases i) (auto simp: channel_send_def less_Suc_eq)
  with channel_exchange_completes [OF list_channel_law, of 1 "[]" 2 demo_order s] s co
  show ?thesis by simp
qed

theorem printed_rows_are_sent_witness:
  "\<exists>s. ct_main s = M_Printing \<and> reach (ct_start id 1) (ct_next (list_channel 1)) s \<and>
     channel_receive_result s = [(True, True, False)] \<and>
     length (filter (\<lambda>pc. pc = Co_Receiving) (co_at s)) \<le> 1"
proof -
  have run: "ct_run ops s as = Some u \<Longrightarrow> reach I (ct_next ops) s \<Longrightarrow> reach I (ct_next ops) u"
    for ops :: "(int list, int) channel_ops" and s as u I
    by (induction as arbitrary: s)
       (auto split: option.splits intro: reach_step simp: ct_next_def, metis ct_next_def reach_step)
  obtain s where s: "ct_run (list_channel 1) (channel_test_main 1 [])
      (replicate 4 (Coroutine_Step 0) @ [Main_Step False]) = Some s" "ct_main s = M_Printing"
    "channel_receive_result s = [(True, True, False)]"
    by (simp add: ct_exec numeral_eq_Suc)
  have "reach (ct_start id 1) (ct_next (list_channel 1)) (channel_test_main 1 [])"
    by (rule reach_init) (auto simp: ct_start_def)
  note r = run [OF s(1) this]
  from printed_rows_are_sent [OF list_channel_law r s(2)] s r show ?thesis by blast
qed

theorem late_poll_terminates_witness:
  "map_option ct_main (ct_main_step (list_channel 1) True (channel_test_main 1 [])) = Some M_Terminated"
  using late_poll_terminates [of "channel_test_main 1 []" "list_channel 1"]
  by (simp add: channel_test_main_def)

end
