(* ===== verification/Double_Rounding.thy ===== *)
theory Double_Rounding
  imports Complex_Main
begin

text \<open>
  Arithmetic on values of type \<open>double\<close>. A value is a real number; an operation computes the
  exact result and rounds it. The rounding is a parameter: the locale has the laws of it
  that the development uses, and a fixed-point rounding is an instance.
\<close>

text \<open>
  Rounding is monotone, leaves a rounded number as it is and is exact on integers up to
  \<open>2 ^ 53\<close>. Overflow to infinity is outside the model.
\<close>

locale rounding =
  fixes rnd :: "real \<Rightarrow> real"
  assumes rnd_mono: "x \<le> y \<Longrightarrow> rnd x \<le> rnd y"
    and rnd_idem: "rnd (rnd x) = rnd x"
    and rnd_int: "abs k \<le> 2 ^ 53 \<Longrightarrow> rnd (of_int k) = of_int k"
begin

lemma rnd_0: "rnd 0 = 0"
  using rnd_int [of 0] by simp

lemma rnd_1: "rnd 1 = 1"
  using rnd_int [of 1] by simp

lemma rnd_numeral: "numeral n \<le> (2 ^ 53 :: int) \<Longrightarrow> rnd (numeral n) = numeral n"
  using rnd_int [of "numeral n"] by simp

lemma rnd_nonneg: "0 \<le> x \<Longrightarrow> 0 \<le> rnd x"
  using rnd_mono [of 0 x] by (simp add: rnd_0)

lemma rnd_below: "x \<le> y \<Longrightarrow> rnd y = y \<Longrightarrow> rnd x \<le> y"
  using rnd_mono [of x y] by simp

lemma rnd_factor:
  assumes "0 \<le> p" "rnd p = p" "0 \<le> q" "q \<le> 1"
  shows "0 \<le> rnd (p * q) \<and> rnd (p * q) \<le> p"
proof -
  have "p * q \<le> p" using assms by (simp add: mult_left_le)
  with assms rnd_below rnd_nonneg show ?thesis by simp
qed

end

text \<open>A fixed-point rounding with 52 binary places, to the nearest multiple of \<open>2 ^ - 52\<close>.\<close>

definition fixed_round :: "real \<Rightarrow> real" where
  "fixed_round x = of_int (floor (x * 2 ^ 52 + 1 / 2)) / 2 ^ 52"

lemma fixed_round_grid: "fixed_round (of_int k / 2 ^ 52) = of_int k / 2 ^ 52"
proof -
  have "floor (of_int k + 1 / 2 :: real) = k" by linarith
  then show ?thesis by (simp add: fixed_round_def)
qed

interpretation fixed: rounding fixed_round
proof
  fix x y :: real
  assume "x \<le> y"
  then show "fixed_round x \<le> fixed_round y"
    by (simp add: fixed_round_def floor_mono divide_right_mono)
next
  fix x :: real
  show "fixed_round (fixed_round x) = fixed_round x"
    using fixed_round_grid [of "floor (x * 2 ^ 52 + 1 / 2)"] by (simp add: fixed_round_def [of x])
next
  fix k :: int
  show "fixed_round (of_int k) = of_int k"
    using fixed_round_grid [of "k * 2 ^ 52"] by simp
qed

end
