(* ===== verification/Policy_Values.thy ===== *)
theory Policy_Values
  imports Template_Policy Double_Rounding "HOL-Library.Monad_Syntax"
begin

text \<open>
  The third, fourth and seventh part of \<open>src/cpp_test/stand_cpp/014.template_policy\<close>: policies
  that hold state (discounts), static dispatch to a derived class (shapes), and the mixins
  that decide whether a class can be copied and compared. Values of type \<open>double\<close> are real
  numbers; every operation computes exactly and then applies the rounding \<open>rnd\<close> of the
  floating-point unit, of which the theorems use the laws of locale \<open>rounding\<close> (theory \<open>Double_Rounding\<close>). What is written
  to \<open>std::cout\<close> is a list of items, so a number is kept and not its decimal form.
\<close>

datatype out_item = Str string | Dbl real | Endl

section \<open>Discount policies\<close>

datatype discount =
    NoDiscount
  | PercentDiscount real
  | ThresholdDiscount real real

text \<open>\<open>apply\<close> of the three classes; the arguments are the members \<open>rate_\<close>, \<open>threshold_\<close>, \<open>reduction_\<close>.\<close>

fun discount_apply :: "(real \<Rightarrow> real) \<Rightarrow> discount \<Rightarrow> real \<Rightarrow> real" where
  "discount_apply rnd NoDiscount price = price"
| "discount_apply rnd (PercentDiscount rate) price = rnd (price * rnd (1 - rate))"
| "discount_apply rnd (ThresholdDiscount threshold reduction) price =
     (if price \<ge> threshold then rnd (price - reduction) else price)"

fun discount_name :: "discount \<Rightarrow> string" where
  "discount_name NoDiscount =
     [CHR 0xE6, CHR 0x97, CHR 0xA0, CHR 0xE6, CHR 0x8A, CHR 0x98, CHR 0xE6, CHR 0x89, CHR 0xA3]"
| "discount_name (PercentDiscount _) =
     [CHR 0xE7, CHR 0x99, CHR 0xBE, CHR 0xE5, CHR 0x88, CHR 0x86, CHR 0xE6, CHR 0xAF, CHR 0x94,
      CHR 0xE6, CHR 0x8A, CHR 0x98, CHR 0xE6, CHR 0x89, CHR 0xA3]"
| "discount_name (ThresholdDiscount _ _) =
     [CHR 0xE6, CHR 0xBB, CHR 0xA1, CHR 0xE5, CHR 0x87, CHR 0x8F, CHR 0xE6, CHR 0x8A, CHR 0x98,
      CHR 0xE6, CHR 0x89, CHR 0xA3]"

text \<open>\<open>PriceCalculator::calculate\<close>.\<close>

definition calculate :: "(real \<Rightarrow> real) \<Rightarrow> discount \<Rightarrow> real \<Rightarrow> out_item list" where
  "calculate rnd policy original_price =
     (let final_price = discount_apply rnd policy original_price
      in [Str (discount_name policy), Str '': '', Dbl original_price, Str '' -> '', Dbl final_price, Endl])"

definition demo_stateful_policy :: "(real \<Rightarrow> real) \<Rightarrow> string \<Rightarrow> out_item list" where
  "demo_stateful_policy rnd heading =
     [Str heading, Endl]
     @ calculate rnd NoDiscount 100
     @ calculate rnd (PercentDiscount (rnd (1 / 5))) 100
     @ calculate rnd (ThresholdDiscount 80 15) 100
     @ calculate rnd (ThresholdDiscount 80 15) 50
     @ [Endl]"

text \<open>The parameters for which a policy is a discount: a rate in \<open>[0, 1]\<close>, a reduction below the threshold.\<close>

fun sensible :: "discount \<Rightarrow> bool" where
  "sensible NoDiscount \<longleftrightarrow> True"
| "sensible (PercentDiscount rate) \<longleftrightarrow> 0 \<le> rate \<and> rate \<le> 1"
| "sensible (ThresholdDiscount threshold reduction) \<longleftrightarrow> 0 \<le> reduction \<and> reduction \<le> threshold"

text \<open>
  A discount never raises a price and never makes it negative, and rounding does not change
  that: for a price that is a \<open>double\<close> and not negative, the result of every sensible policy
  lies between 0 and the price and is again a \<open>double\<close>.
\<close>

theorem discount_bounds:
  assumes "rounding rnd" "sensible policy" "0 \<le> price" "rnd price = price"
  shows "0 \<le> discount_apply rnd policy price \<and> discount_apply rnd policy price \<le> price \<and>
         rnd (discount_apply rnd policy price) = discount_apply rnd policy price"
proof (cases policy)
  case (PercentDiscount rate)
  then have "0 \<le> rnd (1 - rate)" "rnd (1 - rate) \<le> 1"
    using assms(2) rounding.rnd_nonneg [OF assms(1), of "1 - rate"]
      rounding.rnd_below [OF assms(1) _ rounding.rnd_1 [OF assms(1)], of "1 - rate"]
    by simp_all
  from rounding.rnd_factor [OF assms(1,3,4) this] PercentDiscount show ?thesis
    by (simp add: rounding.rnd_idem [OF assms(1)])
next
  case (ThresholdDiscount threshold reduction)
  then show ?thesis
    using assms(2,3,4) rounding.rnd_nonneg [OF assms(1), of "price - reduction"]
      rounding.rnd_below [OF assms(1), of "price - reduction" price] rounding.rnd_idem [OF assms(1)]
    by auto
qed (use assms in simp)

theorem discount_bounds_witness:
  "0 \<le> discount_apply fixed_round (PercentDiscount (fixed_round (1 / 5))) 100 \<and>
   discount_apply fixed_round (PercentDiscount (fixed_round (1 / 5))) 100 \<le> 100"
proof -
  have "0 \<le> fixed_round (1 / 5)" "fixed_round (1 / 5) \<le> 1"
    using fixed.rnd_nonneg [of "1 / 5"] fixed.rnd_below [OF _ fixed.rnd_1, of "1 / 5"] by simp_all
  then have "sensible (PercentDiscount (fixed_round (1 / 5)))" by simp
  from discount_bounds [OF fixed.rounding_axioms this, of 100] fixed.rnd_int [of 100]
  show ?thesis by simp
qed

text \<open>
  The percentage keeps the order of prices, the threshold policy does not: with the numbers
  of the demonstration a price of 80 becomes 65, below what 79 costs.
\<close>

theorem threshold_is_not_monotone:
  assumes "rounding rnd"
  shows "(\<forall>p q rate. 0 \<le> p \<and> p \<le> q \<and> rate \<le> 1 \<longrightarrow>
            discount_apply rnd (PercentDiscount rate) p \<le> discount_apply rnd (PercentDiscount rate) q) \<and>
         discount_apply rnd (ThresholdDiscount 80 15) 80 < discount_apply rnd (ThresholdDiscount 80 15) 79"
proof -
  have "discount_apply rnd (PercentDiscount rate) p \<le> discount_apply rnd (PercentDiscount rate) q"
    if "0 \<le> p" "p \<le> q" "rate \<le> 1" for p q rate
    using that rounding.rnd_nonneg [OF assms, of "1 - rate"]
    by (auto intro!: rounding.rnd_mono [OF assms] mult_right_mono)
  moreover have "rnd 65 = 65" using rounding.rnd_int [OF assms, of 65] by simp
  ultimately show ?thesis by auto
qed

theorem threshold_is_not_monotone_witness:
  "discount_apply fixed_round (ThresholdDiscount 80 15) 80 <
   discount_apply fixed_round (ThresholdDiscount 80 15) 79"
  using threshold_is_not_monotone [OF fixed.rounding_axioms] by blast

section \<open>Shapes\<close>

text \<open>
  A class derived from \<open>Shape\<close>: \<open>draw_impl\<close> and \<open>area_impl\<close>, which the base reaches through
  its template argument. \<open>M_PI\<close> is \<open>rnd pi\<close>.
\<close>

record shape =
  draw_impl :: "out_item list"
  area_impl :: real

definition Circle :: "(real \<Rightarrow> real) \<Rightarrow> real \<Rightarrow> shape" where
  "Circle rnd r =
     \<lparr>draw_impl = [Str ''  Drawing circle (r='', Dbl r, Str '')'', Endl],
      area_impl = rnd (rnd (rnd pi * r) * r)\<rparr>"

definition Rectangle :: "(real \<Rightarrow> real) \<Rightarrow> real \<Rightarrow> real \<Rightarrow> shape" where
  "Rectangle rnd w h =
     \<lparr>draw_impl = [Str ''  Drawing rectangle ('', Dbl w, Str ''x'', Dbl h, Str '')'', Endl],
      area_impl = rnd (w * h)\<rparr>"

definition draw :: "shape \<Rightarrow> out_item list" where "draw s = draw_impl s"

definition area :: "shape \<Rightarrow> real" where "area s = area_impl s"

definition info :: "shape \<Rightarrow> out_item list" where
  "info s = [Str ''Shape: area = '', Dbl (area s), Endl] @ draw s"

definition print_shape_info :: "shape \<Rightarrow> out_item list" where "print_shape_info s = info s"

definition demo_crtp :: "(real \<Rightarrow> real) \<Rightarrow> string \<Rightarrow> out_item list" where
  "demo_crtp rnd heading =
     [Str heading, Endl]
     @ print_shape_info (Circle rnd 5)
     @ print_shape_info (Rectangle rnd 3 4)
     @ [Endl]"

text \<open>
  The computed area of a circle is not negative and grows with its radius, for all radii
  that are not negative, in spite of the three roundings.
\<close>

theorem circle_area_monotone:
  assumes "rounding rnd" "0 \<le> r" "r \<le> s"
  shows "0 \<le> area (Circle rnd r) \<and> area (Circle rnd r) \<le> area (Circle rnd s)"
proof -
  note mono = rounding.rnd_mono [OF assms(1)] and nonneg = rounding.rnd_nonneg [OF assms(1)]
  have pi: "0 \<le> rnd pi" by (rule nonneg) simp
  have "rnd (rnd pi * r) \<le> rnd (rnd pi * s)"
    by (rule mono) (simp add: pi assms(3) mult_left_mono)
  moreover have "0 \<le> rnd (rnd pi * r)" by (rule nonneg) (simp add: pi assms(2))
  ultimately have "0 \<le> rnd (rnd pi * r) * r" "rnd (rnd pi * r) * r \<le> rnd (rnd pi * s) * s"
    using assms(2,3) by (auto intro: mult_mono)
  then show ?thesis
    by (simp add: area_def Circle_def mono nonneg)
qed

theorem circle_area_monotone_witness:
  "area (Circle fixed_round 3) \<le> area (Circle fixed_round 5)"
  using circle_area_monotone [OF fixed.rounding_axioms, of 3 5] by simp

section \<open>Copying and comparing by policy\<close>

text \<open>
  The special members of a class: whether an object can be built and assigned from an lvalue
  and from an rvalue. A mixin declares all of them, defaulted or deleted.
\<close>

record members =
  copy_ctor :: bool
  copy_assign :: bool
  move_ctor :: bool
  move_assign :: bool

datatype copy_policy = Copyable | NonCopyable | NonMovable

fun declared_members :: "copy_policy \<Rightarrow> members" where
  "declared_members Copyable =
     \<lparr>copy_ctor = True, copy_assign = True, move_ctor = True, move_assign = True\<rparr>"
| "declared_members NonCopyable =
     \<lparr>copy_ctor = False, copy_assign = False, move_ctor = True, move_assign = True\<rparr>"
| "declared_members NonMovable =
     \<lparr>copy_ctor = False, copy_assign = False, move_ctor = False, move_assign = False\<rparr>"

text \<open>
  The members the compiler declares for a class that declares none: one is deleted when a base
  or a data member lacks it; a move that is deleted in this way is not considered, and an
  rvalue is then copied.
\<close>

definition implicit_members :: "members list \<Rightarrow> members" where
  "implicit_members parts =
     (let cc = list_all copy_ctor parts; ca = list_all copy_assign parts
      in \<lparr>copy_ctor = cc, copy_assign = ca,
          move_ctor = list_all move_ctor parts \<or> cc, move_assign = list_all move_assign parts \<or> ca\<rparr>)"

datatype compare_op = Eq | Ne | Spaceship | Lt | Le | Gt | Ge

datatype compare_mixin = NotComparablePolicy | EqualityComparable | FullyOrdered

fun friend_operators :: "compare_mixin \<Rightarrow> compare_op list" where
  "friend_operators NotComparablePolicy = []"
| "friend_operators EqualityComparable = [Eq, Ne]"
| "friend_operators FullyOrdered = [Spaceship, Eq]"

text \<open>The operators an expression may use: \<open>!=\<close> is rewritten to \<open>==\<close>, the relations to \<open><=>\<close>.\<close>

fun usable :: "compare_mixin \<Rightarrow> compare_op \<Rightarrow> bool" where
  "usable m Eq = (Eq \<in> set (friend_operators m))"
| "usable m Ne = (Ne \<in> set (friend_operators m) \<or> Eq \<in> set (friend_operators m))"
| "usable m Spaceship = (Spaceship \<in> set (friend_operators m))"
| "usable m op = (op \<in> set (friend_operators m) \<or> Spaceship \<in> set (friend_operators m))"

text \<open>\<open>Token<CopyPolicy, ComparePolicy>\<close> has two bases, an \<open>int\<close> and a string.\<close>

definition token_members :: "copy_policy \<Rightarrow> members" where
  "token_members cp =
     (let plain = declared_members Copyable in implicit_members [declared_members cp, plain, plain, plain])"

definition is_copy_constructible :: "copy_policy \<Rightarrow> bool" where
  "is_copy_constructible cp = copy_ctor (token_members cp)"

definition is_move_constructible :: "copy_policy \<Rightarrow> bool" where
  "is_move_constructible cp = move_ctor (token_members cp)"

definition equality_comparable :: "compare_mixin \<Rightarrow> bool" where
  "equality_comparable m \<longleftrightarrow> usable m Eq \<and> usable m Ne"

definition totally_ordered :: "compare_mixin \<Rightarrow> bool" where
  "totally_ordered m \<longleftrightarrow> equality_comparable m \<and> list_all (usable m) [Lt, Le, Gt, Ge]"

text \<open>An expression that does not compile has no value.\<close>

definition copy_token :: "copy_policy \<Rightarrow> token \<Rightarrow> token option" where
  "copy_token cp t = (if is_copy_constructible cp then Some t else None)"

definition move_token :: "copy_policy \<Rightarrow> token \<Rightarrow> token option" where
  "move_token cp t = (if is_move_constructible cp then Some t else None)"

fun compare_tokens :: "compare_mixin \<Rightarrow> compare_op \<Rightarrow> token \<Rightarrow> token \<Rightarrow> bool option" where
  "compare_tokens m op a b =
     (if usable m op then
        (case op of
           Eq \<Rightarrow> Some (token_eq a b)
         | Ne \<Rightarrow> Some (token_ne a b)
         | Lt \<Rightarrow> Some (token_less a b)
         | Le \<Rightarrow> Some (token_le a b)
         | Gt \<Rightarrow> Some (spaceship a b > 0)
         | Ge \<Rightarrow> Some (spaceship a b \<ge> 0)
         | Spaceship \<Rightarrow> None)
      else None)"

definition Token :: "int \<Rightarrow> string \<Rightarrow> token" where
  "Token i n = \<lparr>token_id = i, token_name = n\<rparr>"

definition boolalpha :: "bool \<Rightarrow> string" where
  "boolalpha b = (if b then ''true'' else ''false'')"

definition demo_copy_compare_policy :: "string \<Rightarrow> console option" where
  "demo_copy_compare_policy heading =
     do {
       let a = Token 1 ''alpha''; let b = Token 1 ''beta''; let c = Token 2 ''gamma'';
       a_copy \<leftarrow> copy_token Copyable a;
       ab \<leftarrow> compare_tokens EqualityComparable Eq a b;
       ac \<leftarrow> compare_tokens EqualityComparable Eq a c;
       aa \<leftarrow> compare_tokens EqualityComparable Eq a_copy a;
       let x = Token 10 ''x''; let y = Token 20 ''y''; let z = Token 10 ''z'';
       xy \<leftarrow> compare_tokens FullyOrdered Lt x y;
       xz \<leftarrow> compare_tokens FullyOrdered Le x z;
       yx \<leftarrow> compare_tokens FullyOrdered Gt y x;
       eq \<leftarrow> compare_tokens FullyOrdered Eq x z;
       let u1 = Token 100 ''unique1''; let u2 = Token 100 ''unique2'';
       u12 \<leftarrow> compare_tokens EqualityComparable Eq u1 u2;
       u3 \<leftarrow> move_token NonCopyable u1;
       u32 \<leftarrow> compare_tokens EqualityComparable Eq u3 u2;
       let o1 = Token 42 ''opaque'';
       Some [heading, [], ''-- CopyableEqToken --'',
             ''  a == b (same id): '' @ boolalpha ab, ''  a == c (diff id): '' @ boolalpha ac,
             ''  a_copy == a:      '' @ boolalpha aa,
             [], ''-- CopyableOrderToken --'',
             ''  x < y:  '' @ boolalpha xy, ''  x <= z: '' @ boolalpha xz,
             ''  y > x:  '' @ boolalpha yx, ''  x == z: '' @ boolalpha eq,
             [], ''-- UniqueToken (non-copyable) --'',
             ''  u1 == u2: '' @ boolalpha u12, ''  u3 == u2: '' @ boolalpha u32,
             [], ''-- OpaqueToken (non-copyable, non-comparable) --'',
             ''  OpaqueToken created, id='' @ to_string (token_id o1),
             [], ''  All static_assert passed!'', []]
     }"

definition static_asserts :: "bool list" where
  "static_asserts =
     [is_copy_constructible Copyable, \<not> is_copy_constructible NonCopyable,
      \<not> is_copy_constructible NonCopyable, equality_comparable EqualityComparable,
      totally_ordered FullyOrdered, \<not> equality_comparable NotComparablePolicy]"

text \<open>
  The policies control the type and nothing else does: a token can be copied exactly when its
  copy policy is \<open>Copyable\<close>, moved exactly when it is not \<open>NonMovable\<close>, compared for equality
  exactly when its compare policy is not \<open>NotComparablePolicy\<close>, and ordered exactly when it is
  \<open>FullyOrdered\<close>. So the static assertions hold.
\<close>

theorem token_capabilities:
  "(is_copy_constructible cp \<longleftrightarrow> cp = Copyable) \<and>
   (is_move_constructible cp \<longleftrightarrow> cp \<noteq> NonMovable) \<and>
   (equality_comparable m \<longleftrightarrow> m \<noteq> NotComparablePolicy) \<and>
   (totally_ordered m \<longleftrightarrow> m = FullyOrdered) \<and>
   list_all id static_asserts"
  by (cases cp; cases m)
     (simp_all add: is_copy_constructible_def is_move_constructible_def equality_comparable_def
       totally_ordered_def token_members_def implicit_members_def static_asserts_def)

text \<open>
  The comparisons of the demonstration look at the identifier and never at the name: whenever
  two operators compile for a policy they agree with the order of the identifiers.
\<close>

theorem compare_by_id:
  assumes "compare_tokens m op a b = Some r"
  shows "r = (case op of
                Eq \<Rightarrow> token_id a = token_id b | Ne \<Rightarrow> token_id a \<noteq> token_id b
              | Lt \<Rightarrow> token_id a < token_id b | Le \<Rightarrow> token_id a \<le> token_id b
              | Gt \<Rightarrow> token_id a > token_id b | _ \<Rightarrow> token_id a \<ge> token_id b)"
  using assms
  by (auto simp: token_eq_def token_ne_def token_less_def token_le_def spaceship_def
      compare_key_def split: if_splits compare_op.splits)

theorem compare_by_id_witness:
  "compare_tokens EqualityComparable Eq (Token 1 ''alpha'') (Token 1 ''beta'') = Some True"
proof -
  obtain r where r: "compare_tokens EqualityComparable Eq (Token 1 ''alpha'') (Token 1 ''beta'') = Some r"
    by simp
  from compare_by_id [OF this] have "r" by (simp add: Token_def)
  with r show ?thesis by simp
qed

text \<open>What the demonstration prints.\<close>

theorem copy_compare_output:
  "demo_copy_compare_policy heading =
     Some [heading, [], ''-- CopyableEqToken --'',
           ''  a == b (same id): true'', ''  a == c (diff id): false'', ''  a_copy == a:      true'',
           [], ''-- CopyableOrderToken --'',
           ''  x < y:  true'', ''  x <= z: true'', ''  y > x:  true'', ''  x == z: true'',
           [], ''-- UniqueToken (non-copyable) --'',
           ''  u1 == u2: true'', ''  u3 == u2: true'',
           [], ''-- OpaqueToken (non-copyable, non-comparable) --'',
           ''  OpaqueToken created, id='' @ to_string 42,
           [], ''  All static_assert passed!'', []]"
  by (simp add: demo_copy_compare_policy_def copy_token_def move_token_def Token_def boolalpha_def
      is_copy_constructible_def is_move_constructible_def token_members_def implicit_members_def
      token_eq_def token_less_def token_le_def spaceship_def compare_key_def)

end
