(* ===== verification/Bt_Tutorials.thy ===== *)
theory Bt_Tutorials
  imports Bt_Actions Double_Rounding
begin

text \<open>
  Tutorial programs of \<open>src/behaviortree_test\<close> on the nodes of the theories \<open>Bt_Nodes\<close> and
  \<open>Bt_Actions\<close>: \<open>006.reactive_sequence\<close> tick by tick, and \<open>005\<close>, \<open>010\<close>, \<open>013\<close>, \<open>018\<close>, \<open>020\<close> as runs
  of a tree. The control nodes, ports and scripts of BehaviorTree.CPP are arguments with what
  its documentation says of them as named predicates.
\<close>

section \<open>006.reactive_sequence\<close>

text \<open>
  The two control nodes, one tick at a time. \<open>Sequence\<close> keeps the index of the child it is
  at; \<open>ReactiveSequence\<close> starts from the first child at every tick and halts the other
  children when it stops at one.
\<close>

record 's tick_engine =
  te_sequence :: "('s \<Rightarrow> tick_status \<times> 's) list \<Rightarrow> nat \<Rightarrow> 's \<Rightarrow> tick_status \<times> nat \<times> 's"
  te_reactive :: "'s child list \<Rightarrow> 's \<Rightarrow> tick_status \<times> 's"

definition tick_engine_laws :: "'s tick_engine \<Rightarrow> bool" where
  "tick_engine_laws te \<longleftrightarrow>
     (\<forall>cs i s. i \<ge> length cs \<longrightarrow> te_sequence te cs i s = (SUCCESS, 0, s)) \<and>
     (\<forall>cs i s. i < length cs \<longrightarrow> te_sequence te cs i s =
        (case (cs ! i) s of
           (SUCCESS, t) \<Rightarrow> te_sequence te cs (Suc i) t
         | (RUNNING, t) \<Rightarrow> (RUNNING, i, t)
         | (FAILURE, t) \<Rightarrow> (FAILURE, 0, t))) \<and>
     (\<forall>a b s. te_reactive te [a, b] s =
        (case fst a s of
           (SUCCESS, t) \<Rightarrow>
             (case fst b t of
                (RUNNING, u) \<Rightarrow> (RUNNING, snd a u)
              | (r, u) \<Rightarrow> (r, snd b (snd a u)))
         | (RUNNING, t) \<Rightarrow> (RUNNING, snd b t)
         | (FAILURE, t) \<Rightarrow> (FAILURE, snd b (snd a t))))"

text \<open>
  What the program changes: the console, the running \<open>MoveBaseAction\<close> if there is one, the
  index of the \<open>Sequence\<close>, and the clock reading of the current tick.
\<close>

record 'd mission =
  ms_printed :: console
  ms_move :: "'d move_base option"
  ms_index :: nat
  ms_now :: int

definition ms_say :: "string \<Rightarrow> 'd mission \<Rightarrow> 'd mission" where
  "ms_say line w = w\<lparr>ms_printed := ms_printed w @ [line]\<rparr>"

definition BatteryOK :: "'d mission \<Rightarrow> tick_status \<times> 'd mission" where
  "BatteryOK w = (SUCCESS, ms_say ''[ Battery: OK ]'' w)"

definition ms_SaySomething :: "string \<Rightarrow> 'd mission \<Rightarrow> tick_status \<times> 'd mission" where
  "ms_SaySomething msg w = (SUCCESS, ms_say (''Robot says: '' @ msg) w)"

text \<open>\<open>MoveBase\<close> with its goal already converted.\<close>

definition MoveBase_tick :: "('d \<Rightarrow> string) \<Rightarrow> 'd pose2d \<Rightarrow> 'd mission \<Rightarrow> tick_status \<times> 'd mission" where
  "MoveBase_tick fmt g w =
     (case ms_move w of
        None \<Rightarrow>
          (case MoveBase_onStart fmt (Inr g) (ms_now w) of
             Inl e \<Rightarrow> (FAILURE, w)
           | Inr (r, n, line) \<Rightarrow> (r, (ms_say line w)\<lparr>ms_move := Some n\<rparr>))
      | Some n \<Rightarrow>
          (let r = MoveBase_onRunning (ms_now w) n
           in (r, w\<lparr>ms_printed := ms_printed w @ MoveBase_output (ms_now w) n,
                    ms_move := (if r = RUNNING then Some n else None)\<rparr>)))"

definition MoveBase_halt :: "'d mission \<Rightarrow> 'd mission" where
  "MoveBase_halt w =
     (case ms_move w of
        None \<Rightarrow> w
      | Some n \<Rightarrow> w\<lparr>ms_printed := MoveBase_onHalted (ms_printed w), ms_move := None\<rparr>)"

text \<open>The two XML texts; the \<open>Sequence\<close> remembers its child in \<open>ms_index\<close>.\<close>

definition run_sequence ::
  "'d mission tick_engine \<Rightarrow> ('d mission \<Rightarrow> tick_status \<times> 'd mission) list \<Rightarrow>
     'd mission \<Rightarrow> tick_status \<times> 'd mission" where
  "run_sequence te cs w =
     (case te_sequence te cs (ms_index w) w of (r, i, t) \<Rightarrow> (r, t\<lparr>ms_index := i\<rparr>))"

definition mission_steps ::
  "('d \<Rightarrow> string) \<Rightarrow> 'd pose2d \<Rightarrow> ('d mission \<Rightarrow> tick_status \<times> 'd mission) list" where
  "mission_steps fmt g =
     [ms_SaySomething ''mission started...'', MoveBase_tick fmt g, ms_SaySomething ''mission completed!'']"

definition xml_text_sequence ::
  "'d mission tick_engine \<Rightarrow> ('d \<Rightarrow> string) \<Rightarrow> 'd pose2d \<Rightarrow> 'd mission \<Rightarrow> tick_status \<times> 'd mission" where
  "xml_text_sequence te fmt g = run_sequence te (BatteryOK # mission_steps fmt g)"

definition xml_text_reactive ::
  "'d mission tick_engine \<Rightarrow> ('d \<Rightarrow> string) \<Rightarrow> 'd pose2d \<Rightarrow> 'd mission \<Rightarrow> tick_status \<times> 'd mission" where
  "xml_text_reactive te fmt g =
     te_reactive te
       [(BatteryOK, \<lambda>w. w),
        (run_sequence te (mission_steps fmt g), \<lambda>w. (MoveBase_halt w)\<lparr>ms_index := 0\<rparr>)]"

fun toStr :: "tick_status \<Rightarrow> string" where
  "toStr SUCCESS = ''SUCCESS''" | "toStr FAILURE = ''FAILURE''" | "toStr RUNNING = ''RUNNING''"

text \<open>
  The loop of \<open>main\<close>, which ends only with SUCCESS; a list gives the clock readings of the
  ticks, and \<^term>\<open>None\<close> means that the loop is still running when they are used up.
\<close>

fun tick_loop ::
  "('d mission \<Rightarrow> tick_status \<times> 'd mission) \<Rightarrow> int list \<Rightarrow> 'd mission \<Rightarrow> 'd mission option" where
  "tick_loop tree [] w = None"
| "tick_loop tree (now # ts) w =
     (case tree ((ms_say ''--- ticking'' w)\<lparr>ms_now := now\<rparr>) of
        (r, t) \<Rightarrow>
          (let u = ms_say (''--- status: '' @ toStr r) t
           in if r = SUCCESS then Some u else tick_loop tree ts u))"

definition mission0 :: "'d mission" where
  "mission0 = \<lparr>ms_printed = [], ms_move = None, ms_index = 0, ms_now = 0\<rparr>"

definition reactive_main ::
  "'d mission tick_engine \<Rightarrow> ('d \<Rightarrow> string) \<Rightarrow> 'd pose2d \<Rightarrow> int list \<Rightarrow> int list \<Rightarrow>
     ('d mission option) list" where
  "reactive_main te fmt g ts us =
     [tick_loop (xml_text_sequence te fmt g) ts mission0,
      tick_loop (xml_text_reactive te fmt g) us mission0]"

lemma seq_rules:
  assumes "tick_engine_laws te"
  shows "i \<ge> length cs \<Longrightarrow> te_sequence te cs i s = (SUCCESS, 0, s)"
    and "i < length cs \<Longrightarrow> te_sequence te cs i s =
        (case (cs ! i) s of
           (SUCCESS, t) \<Rightarrow> te_sequence te cs (Suc i) t
         | (RUNNING, t) \<Rightarrow> (RUNNING, i, t)
         | (FAILURE, t) \<Rightarrow> (FAILURE, 0, t))"
    and "te_reactive te [a, b] s =
        (case fst a s of
           (SUCCESS, t) \<Rightarrow>
             (case fst b t of
                (RUNNING, u) \<Rightarrow> (RUNNING, snd a u)
              | (r, u) \<Rightarrow> (r, snd b (snd a u)))
         | (RUNNING, t) \<Rightarrow> (RUNNING, snd b t)
         | (FAILURE, t) \<Rightarrow> (FAILURE, snd b (snd a t)))"
  using assms unfolding tick_engine_laws_def by blast+

text \<open>An engine with these laws.\<close>

function std_sequence ::
  "('s \<Rightarrow> tick_status \<times> 's) list \<Rightarrow> nat \<Rightarrow> 's \<Rightarrow> tick_status \<times> nat \<times> 's" where
  "std_sequence cs i s =
     (if i \<ge> length cs then (SUCCESS, 0, s)
      else (case (cs ! i) s of
              (SUCCESS, t) \<Rightarrow> std_sequence cs (Suc i) t
            | (RUNNING, t) \<Rightarrow> (RUNNING, i, t)
            | (FAILURE, t) \<Rightarrow> (FAILURE, 0, t)))"
  by pat_completeness auto
termination by (relation "measure (\<lambda>(cs, i, s). length cs - i)") auto

declare std_sequence.simps [simp del]

fun std_reactive :: "'s child list \<Rightarrow> 's \<Rightarrow> tick_status \<times> 's" where
  "std_reactive [a, b] s =
     (case fst a s of
        (SUCCESS, t) \<Rightarrow>
          (case fst b t of
             (RUNNING, u) \<Rightarrow> (RUNNING, snd a u)
           | (r, u) \<Rightarrow> (r, snd b (snd a u)))
      | (RUNNING, t) \<Rightarrow> (RUNNING, snd b t)
      | (FAILURE, t) \<Rightarrow> (FAILURE, snd b (snd a t)))"
| "std_reactive _ s = (FAILURE, s)"

definition std_tick_engine :: "'s tick_engine" where
  "std_tick_engine = \<lparr>te_sequence = std_sequence, te_reactive = std_reactive\<rparr>"

lemma std_tick_engine_fields:
  "te_sequence std_tick_engine = std_sequence" "te_reactive std_tick_engine = std_reactive"
  by (simp_all add: std_tick_engine_def)

lemma std_tick_engine_laws: "tick_engine_laws std_tick_engine"
  unfolding tick_engine_laws_def std_tick_engine_fields
  by (intro conjI allI impI; subst std_sequence.simps | simp)+

lemmas mission_defs = xml_text_sequence_def xml_text_reactive_def run_sequence_def mission_steps_def
  BatteryOK_def ms_SaySomething_def MoveBase_tick_def MoveBase_onStart_def MoveBase_onRunning_def
  MoveBase_output_def MoveBase_halt_def ms_say_def Let_def

text \<open>What a tick prints of the battery, by the kind of tree and whether it is the first tick.\<close>

definition request_line :: "('d \<Rightarrow> string) \<Rightarrow> 'd pose2d \<Rightarrow> string" where
  "request_line fmt g =
     ''[ MoveBase: SEND REQUEST ]. goal: x='' @ fmt (pose_x g) @ '' y='' @ fmt (pose_y g) @
     '' theta='' @ fmt (pose_theta g)"

definition running_lines :: "console \<Rightarrow> console" where
  "running_lines battery = ''--- ticking'' # battery @ [''--- status: RUNNING'']"

definition last_lines :: "console \<Rightarrow> console" where
  "last_lines battery =
     ''--- ticking'' # battery @
     [''[ MoveBase: FINISHED ]'', ''Robot says: mission completed!'', ''--- status: SUCCESS'']"

text \<open>
  A tree whose \<open>MoveBase\<close> runs: \<open>i\<close> is the index of its \<open>Sequence\<close>, \<open>battery\<close> what each tick
  prints before it reaches the action.
\<close>

definition moving :: "nat \<Rightarrow> 'd move_base \<Rightarrow> 'd mission \<Rightarrow> bool" where
  "moving i n w \<longleftrightarrow> ms_index w = i \<and> ms_move w = Some n"

definition waits :: "('d mission \<Rightarrow> tick_status \<times> 'd mission) \<Rightarrow> nat \<Rightarrow> console \<Rightarrow> 'd move_base \<Rightarrow> bool" where
  "waits tree i battery n \<longleftrightarrow>
     (\<forall>w. moving i n w \<longrightarrow>
        (if ms_now w < completion_time n
         then tree w = (RUNNING, w\<lparr>ms_printed := ms_printed w @ battery\<rparr>)
         else \<exists>u. tree w = (SUCCESS, u) \<and> ms_printed u = ms_printed w @ battery @
                [''[ MoveBase: FINISHED ]'', ''Robot says: mission completed!'']))"

lemma sequence_waits:
  assumes "tick_engine_laws te"
  shows "waits (xml_text_sequence te fmt g) 2 [] n"
  by (auto simp: waits_def moving_def mission_defs seq_rules [OF assms])

lemma reactive_waits:
  assumes "tick_engine_laws te"
  shows "waits (xml_text_reactive te fmt g) 1 [''[ Battery: OK ]''] n"
  by (auto simp: waits_def moving_def mission_defs seq_rules [OF assms])

lemma loop_waits:
  assumes tree: "waits tree i battery n" and late: "completion_time n \<le> t"
    and "moving i n w" "\<forall>t \<in> set ts. t < completion_time n"
  shows "\<exists>u. tick_loop tree (ts @ t # rest) w = Some u \<and>
     ms_printed u = ms_printed w @ concat (replicate (length ts) (running_lines battery)) @
       last_lines battery"
  using assms(3,4)
proof (induction ts arbitrary: w)
  case Nil
  let ?v = "(ms_say ''--- ticking'' w)\<lparr>ms_now := t\<rparr>"
  have "moving i n ?v" using Nil by (simp add: moving_def ms_say_def)
  with tree late obtain u where "tree ?v = (SUCCESS, u)"
    "ms_printed u = ms_printed ?v @ battery @ [''[ MoveBase: FINISHED ]'', ''Robot says: mission completed!'']"
    unfolding waits_def by fastforce
  then show ?case by (simp add: ms_say_def last_lines_def Let_def)
next
  case (Cons now ts)
  let ?v = "(ms_say ''--- ticking'' w)\<lparr>ms_now := now\<rparr>"
  let ?u = "ms_say ''--- status: RUNNING'' (?v\<lparr>ms_printed := ms_printed ?v @ battery\<rparr>)"
  have "moving i n ?v" using Cons.prems by (simp add: moving_def ms_say_def)
  with tree Cons.prems have "tree ?v = (RUNNING, ?v\<lparr>ms_printed := ms_printed ?v @ battery\<rparr>)"
    unfolding waits_def by fastforce
  then have "tick_loop tree ((now # ts) @ t # rest) w = tick_loop tree (ts @ t # rest) ?u"
    by (simp add: Let_def)
  moreover have "moving i n ?u" "ms_printed ?u = ms_printed w @ running_lines battery"
    using Cons.prems by (simp_all add: moving_def ms_say_def running_lines_def)
  ultimately show ?case using Cons.IH [of ?u] Cons.prems by simp
qed

lemma first_tick:
  assumes "tick_engine_laws te"
  shows "\<exists>w n. tick_loop (xml_text_sequence te fmt g) (start # ts) mission0 =
           tick_loop (xml_text_sequence te fmt g) ts w \<and> moving 2 n w \<and>
           completion_time n = start + 220 \<and>
           ms_printed w = [''--- ticking'', ''[ Battery: OK ]'', ''Robot says: mission started...'',
             request_line fmt g, ''--- status: RUNNING'']"
    and "\<exists>w n. tick_loop (xml_text_reactive te fmt g) (start # ts) mission0 =
           tick_loop (xml_text_reactive te fmt g) ts w \<and> moving 1 n w \<and>
           completion_time n = start + 220 \<and>
           ms_printed w = [''--- ticking'', ''[ Battery: OK ]'', ''Robot says: mission started...'',
             request_line fmt g, ''--- status: RUNNING'']"
  by (auto simp: mission_defs seq_rules [OF assms] mission0_def moving_def request_line_def
      intro!: exI [of _ "\<lparr>goal = g, completion_time = start + 220\<rparr>"])

text \<open>
  Both loops of \<open>006.reactive_sequence\<close> end, at the first tick whose clock reading is at least
  220 ms after the first, and they print the same lines except for the battery: the
  \<open>Sequence\<close> executes the condition once, in the first tick, the \<open>ReactiveSequence\<close> in every
  tick.
\<close>

theorem reactive_checks_every_tick:
  assumes "tick_engine_laws te" "\<forall>t \<in> set ts. t < start + 220" "start + 220 \<le> t"
  shows "map (map_option ms_printed)
           (reactive_main te fmt g (start # ts @ t # rest) (start # ts @ t # rest)) =
         map (\<lambda>battery. Some ([''--- ticking'', ''[ Battery: OK ]'', ''Robot says: mission started...'',
             request_line fmt g, ''--- status: RUNNING''] @
             concat (replicate (length ts) (running_lines battery)) @ last_lines battery))
           [[], [''[ Battery: OK ]'']]"
proof -
  from first_tick(1) [OF assms(1), of fmt g start "ts @ t # rest"] obtain w n where
    w: "tick_loop (xml_text_sequence te fmt g) (start # ts @ t # rest) mission0 =
        tick_loop (xml_text_sequence te fmt g) (ts @ t # rest) w" "moving 2 n w"
      "completion_time n = start + 220"
      "ms_printed w = [''--- ticking'', ''[ Battery: OK ]'', ''Robot says: mission started...'',
             request_line fmt g, ''--- status: RUNNING'']"
    by blast
  from first_tick(2) [OF assms(1), of fmt g start "ts @ t # rest"] obtain v k where
    v: "tick_loop (xml_text_reactive te fmt g) (start # ts @ t # rest) mission0 =
        tick_loop (xml_text_reactive te fmt g) (ts @ t # rest) v" "moving 1 k v"
      "completion_time k = start + 220"
      "ms_printed v = [''--- ticking'', ''[ Battery: OK ]'', ''Robot says: mission started...'',
             request_line fmt g, ''--- status: RUNNING'']"
    by blast
  from loop_waits [OF sequence_waits [OF assms(1)] _ w(2), of t ts fmt g rest]
    loop_waits [OF reactive_waits [OF assms(1)] _ v(2), of t ts fmt g rest] w v assms(2,3)
  show ?thesis by (auto simp: reactive_main_def)
qed

theorem reactive_checks_every_tick_witness:
  "map (map_option (\<lambda>w. count_list (ms_printed w) ''[ Battery: OK ]''))
     (reactive_main std_tick_engine (\<lambda>_ :: unit. ''0'') \<lparr>pose_x = (), pose_y = (), pose_theta = ()\<rparr>
        [0, 110, 220] [0, 110, 220]) = [Some 1, Some 3]"
proof -
  have "map (map_option (\<lambda>w. count_list (ms_printed w) ''[ Battery: OK ]'')) xs =
      map (map_option (\<lambda>out. count_list out ''[ Battery: OK ]'')) (map (map_option ms_printed) xs)"
    for xs :: "unit mission option list"
    by (simp add: option.map_comp comp_def)
  note count = this [of "reactive_main std_tick_engine (\<lambda>_. ''0'')
      \<lparr>pose_x = (), pose_y = (), pose_theta = ()\<rparr> [0, 110, 220] [0, 110, 220]"]
  have "map (map_option ms_printed) (reactive_main std_tick_engine (\<lambda>_ :: unit. ''0'')
      \<lparr>pose_x = (), pose_y = (), pose_theta = ()\<rparr> [0, 110, 220] [0, 110, 220]) =
    map (\<lambda>battery. Some ([''--- ticking'', ''[ Battery: OK ]'', ''Robot says: mission started...'',
        request_line (\<lambda>_. ''0'') \<lparr>pose_x = (), pose_y = (), pose_theta = ()\<rparr>,
        ''--- status: RUNNING''] @ running_lines battery @ last_lines battery))
      [[], [''[ Battery: OK ]'']]"
    using reactive_checks_every_tick [OF std_tick_engine_laws, of "[110]" 0 220 "\<lambda>_ :: unit. ''0''"
        "\<lparr>pose_x = (), pose_y = (), pose_theta = ()\<rparr>" "[]"]
    by simp
  then show ?thesis
    unfolding count by (simp add: running_lines_def last_lines_def request_line_def)
qed

section \<open>005.generic_ports\<close>

record 'd position2d =
  pos_x :: 'd
  pos_y :: 'd

text \<open>
  \<open>convertFromString<Position2D>\<close> with what it prints. Splitting and reading a number are the
  library's.
\<close>

definition convert_position2d ::
  "(string \<Rightarrow> char \<Rightarrow> string list) \<Rightarrow> (string \<Rightarrow> ('d, string) expected) \<Rightarrow> string \<Rightarrow>
     console \<times> ('d position2d, string) expected" where
  "convert_position2d splitString conv str =
     ([''Converting string: '' @ [CHR 0x22] @ str @ [CHR 0x22]],
      (let parts = splitString str (CHR '';'') in
       if length parts \<noteq> 2 then Inl ''invalid input)''
       else (case conv (parts ! 0) of Inl e \<Rightarrow> Inl e | Inr x \<Rightarrow>
            (case conv (parts ! 1) of Inl e \<Rightarrow> Inl e | Inr y \<Rightarrow> Inr \<lparr>pos_x = x, pos_y = y\<rparr>))))"

text \<open>A blackboard entry holds a position or a string; reading a string as a position converts it.\<close>

datatype 'd goal_entry = Pos "'d position2d" | Txt string

record 'd goal_world =
  goal_board :: "string \<rightharpoonup> 'd goal_entry"
  goal_out :: console

definition CalculateGoal :: "'d position2d \<Rightarrow> string \<Rightarrow> 'd goal_world tick" where
  "CalculateGoal mygoal entry w = Inr (SUCCESS, w\<lparr>goal_board := (goal_board w)(entry \<mapsto> Pos mygoal)\<rparr>)"

definition goal_script :: "string \<Rightarrow> string \<Rightarrow> 'd goal_world tick" where
  "goal_script entry txt w = Inr (SUCCESS, w\<lparr>goal_board := (goal_board w)(entry \<mapsto> Txt txt)\<rparr>)"

definition PrintTarget ::
  "(string \<Rightarrow> console \<times> ('d position2d, string) expected) \<Rightarrow> ('d \<Rightarrow> string) \<Rightarrow> string \<Rightarrow> 'd goal_world tick"
  where
  "PrintTarget convert fmt entry w =
     (let (out, res) =
        (case goal_board w entry of
           None \<Rightarrow> ([], Inl ''no entry'')
         | Some (Pos p) \<Rightarrow> ([], Inr p)
         | Some (Txt t) \<Rightarrow> convert t)
      in case res of
           Inl e \<Rightarrow> Inl (''error reading port [target]:'' @ e)
         | Inr g \<Rightarrow> Inr (SUCCESS, w\<lparr>goal_out := goal_out w @ out @
              [''Target positions: [ '' @ fmt (pos_x g) @ '', '' @ fmt (pos_y g) @ '' ]'']\<rparr>))"

definition generic_ports_tree ::
  "'d goal_world engine \<Rightarrow> (string \<Rightarrow> console \<times> ('d position2d, string) expected) \<Rightarrow> ('d \<Rightarrow> string) \<Rightarrow>
     'd position2d \<Rightarrow> string \<Rightarrow> 'd goal_world tick" where
  "generic_ports_tree e convert fmt mygoal other =
     eng_sequence e
       [CalculateGoal mygoal ''GoalPosition'', PrintTarget convert fmt ''GoalPosition'',
        goal_script ''OtherGoal'' other, PrintTarget convert fmt ''OtherGoal'']"

definition goal_world0 :: "'d goal_world" where
  "goal_world0 = \<lparr>goal_board = (\<lambda>_. None), goal_out = []\<rparr>"

text \<open>
  The tree of \<open>005.generic_ports\<close>, for any text in its script: when the text splits into two
  numbers it succeeds and prints the stored goal without a conversion and the other one after
  a conversion; when it does not split into two parts, the last action throws, after the
  first has been printed.
\<close>

theorem generic_ports_output:
  assumes "engine_laws e"
    and split: "splitString other (CHR '';'') = parts"
  shows "(length parts = 2 \<and> conv (parts ! 0) = Inr x \<and> conv (parts ! 1) = Inr y \<longrightarrow>
           (\<exists>w. generic_ports_tree e (convert_position2d splitString conv) fmt mygoal other goal_world0 =
                  Inr (SUCCESS, w) \<and>
                goal_out w =
                  [''Target positions: [ '' @ fmt (pos_x mygoal) @ '', '' @ fmt (pos_y mygoal) @ '' ]'',
                   ''Converting string: '' @ [CHR 0x22] @ other @ [CHR 0x22],
                   ''Target positions: [ '' @ fmt x @ '', '' @ fmt y @ '' ]''])) \<and>
         (length parts \<noteq> 2 \<longrightarrow>
           generic_ports_tree e (convert_position2d splitString conv) fmt mygoal other goal_world0 =
             Inl ''error reading port [target]:invalid input)'')"
  using split
  by (auto simp: generic_ports_tree_def engine_rules [OF assms(1)] CalculateGoal_def PrintTarget_def
      goal_script_def convert_position2d_def goal_world0_def Let_def)

theorem generic_ports_output_witness:
  "\<exists>w. generic_ports_tree std_engine
      (convert_position2d (\<lambda>s c. [''-1'', ''3'']) (\<lambda>s. Inr (if s = ''3'' then 3 else - 1 :: int)))
      to_string \<lparr>pos_x = 1, pos_y = 2\<rparr> ''-1;3'' goal_world0 = Inr (SUCCESS, w) \<and>
    last (goal_out w) = ''Target positions: [ '' @ to_string (- 1) @ '', '' @ to_string 3 @ '' ]''"
  using generic_ports_output [OF std_engine_laws, of "\<lambda>s c. [''-1'', ''3'']" "''-1;3''" "[''-1'', ''3'']"
      "\<lambda>s. Inr (if s = ''3'' then 3 else - 1 :: int)" "- 1" 3 to_string "\<lparr>pos_x = 1, pos_y = 2\<rparr>"]
  by auto

section \<open>010.additional_node_args\<close>

text \<open>
  \<open>Action_A\<close> gets its arguments in the constructor, \<open>Action_B\<close> by \<open>initialize\<close>, which has to come
  before the first tick: until then its members are indeterminate.
\<close>

record action_b =
  b_args :: "(int \<times> string) option"
  b_out :: console

definition Action_A :: "string \<Rightarrow> int \<Rightarrow> string \<Rightarrow> int \<Rightarrow> action_b tick" where
  "Action_A name arg1 arg2 nc w =
     Inr (SUCCESS, w\<lparr>b_out := b_out w @
       [name @ '': '' @ to_string arg1 @ '' / '' @ arg2 @ '' / '' @ to_string nc]\<rparr>)"

definition Action_B_initialize :: "int \<Rightarrow> string \<Rightarrow> action_b \<Rightarrow> action_b" where
  "Action_B_initialize arg_int arg_str w = w\<lparr>b_args := Some (arg_int, arg_str)\<rparr>"

definition Action_B :: "string \<Rightarrow> action_b tick" where
  "Action_B name w =
     (case b_args w of
        None \<Rightarrow> Inl ''indeterminate value''
      | Some (arg1, arg2) \<Rightarrow>
          Inr (SUCCESS, w\<lparr>b_out := b_out w @ [name @ '': '' @ to_string arg1 @ '' / '' @ arg2]\<rparr>))"

text \<open>The visitor initialises every node it recognises as \<open>Action_B\<close>.\<close>

definition node_args_main :: "action_b engine \<Rightarrow> bool \<Rightarrow> (tick_status \<times> action_b, string) expected" where
  "node_args_main e visited =
     (let w = \<lparr>b_args = None, b_out = []\<rparr>
      in eng_sequence e [Action_A ''Action_A'' 42 ''hello world'' 88, Action_B ''Action_B'']
           (if visited then Action_B_initialize 69 ''interesting_value'' w else w))"

text \<open>
  With the visitor the two actions print what the comment announces; without it the second
  action would read members that were never set.
\<close>

theorem node_args_output:
  assumes "engine_laws e"
  shows "map_sum id (b_out \<circ> snd) (node_args_main e True) =
           Inr [''Action_A: '' @ to_string 42 @ '' / hello world / '' @ to_string 88,
                ''Action_B: '' @ to_string 69 @ '' / interesting_value''] \<and>
         node_args_main e False = Inl ''indeterminate value''"
  by (simp add: node_args_main_def engine_rules [OF assms] Action_A_def Action_B_def
      Action_B_initialize_def)

theorem node_args_output_witness: "node_args_main std_engine False = Inl ''indeterminate value''"
  using node_args_output [OF std_engine_laws] by simp

section \<open>013.groot_howto\<close>

text \<open>
  The door tree again, with \<open>UpdatePosition\<close> in front and the entry \<open>door_open\<close> written by a
  script at the start and by the success of the subtree.
\<close>

record groot_world =
  g_door :: cross_door
  g_pos :: "real position2d"
  g_pos_2D :: "real position2d option"
  g_door_open :: "bool option"

definition on_door :: "cross_door tick \<Rightarrow> groot_world tick" where
  "on_door t w = (case t (g_door w) of Inl e \<Rightarrow> Inl e | Inr (r, d) \<Rightarrow> Inr (r, w\<lparr>g_door := d\<rparr>))"

definition UpdatePosition :: "(real \<Rightarrow> real) \<Rightarrow> groot_world tick" where
  "UpdatePosition rnd w =
     (let p = \<lparr>pos_x = rnd (pos_x (g_pos w) + rnd (1 / 5)), pos_y = rnd (pos_y (g_pos w) + rnd (1 / 10))\<rparr>
      in Inr (SUCCESS, w\<lparr>g_pos := p, g_pos_2D := Some p\<rparr>))"

definition script_door_open :: "bool \<Rightarrow> groot_world tick" where
  "script_door_open b w = Inr (SUCCESS, w\<lparr>g_door_open := Some b\<rparr>)"

text \<open>The postcondition \<open>_onSuccess\<close> runs its script when the node has succeeded.\<close>

definition on_success :: "groot_world tick \<Rightarrow> groot_world tick \<Rightarrow> groot_world tick" where
  "on_success t post w =
     (case t w of
        Inr (SUCCESS, u) \<Rightarrow> (case post u of Inl e \<Rightarrow> Inl e | Inr (r, v) \<Rightarrow> Inr (SUCCESS, v))
      | r \<Rightarrow> r)"

definition groot_tree :: "cross_door engine \<Rightarrow> groot_world engine \<Rightarrow> (real \<Rightarrow> real) \<Rightarrow> groot_world tick" where
  "groot_tree de e rnd =
     eng_sequence e
       [script_door_open False,
        UpdatePosition rnd,
        eng_fallback e
          [eng_inverter e (on_door (door_node ''IsDoorClosed'')),
           on_success (on_door (DoorClosed_tree de)) (script_door_open True)],
        on_door (door_node ''PassThroughDoor'')]"

text \<open>The endless loop of \<open>main\<close>, \<open>n\<close> rounds of it.\<close>

fun groot_main ::
  "cross_door engine \<Rightarrow> groot_world engine \<Rightarrow> (real \<Rightarrow> real) \<Rightarrow> nat \<Rightarrow> groot_world \<Rightarrow>
     (tick_status list \<times> groot_world, string) expected" where
  "groot_main de e rnd 0 w = Inr ([], w)"
| "groot_main de e rnd (Suc n) w =
     (case groot_tree de e rnd (w\<lparr>g_door := reset_door (g_door w)\<rparr>) of
        Inl err \<Rightarrow> Inl err
      | Inr (r, u) \<Rightarrow>
          (case groot_main de e rnd n u of
             Inl err \<Rightarrow> Inl err
           | Inr (rs, v) \<Rightarrow> Inr (r # rs, v)))"

lemma groot_round:
  assumes de: "engine_laws de" and e: "engine_laws e" and r: "rounding rnd"
    and p: "rnd (pos_x (g_pos w)) = pos_x (g_pos w)" "rnd (pos_y (g_pos w)) = pos_y (g_pos w)"
  shows "\<exists>u. groot_tree de e rnd (w\<lparr>g_door := reset_door (g_door w)\<rparr>) = Inr (SUCCESS, u) \<and>
     door_open (g_door u) \<and> g_door_open u = Some True \<and> g_pos_2D u = Some (g_pos u) \<and>
     pos_x (g_pos w) \<le> pos_x (g_pos u) \<and> pos_y (g_pos w) \<le> pos_y (g_pos u) \<and>
     rnd (pos_x (g_pos u)) = pos_x (g_pos u) \<and> rnd (pos_y (g_pos u)) = pos_y (g_pos u)"
proof -
  have grow: "a \<le> rnd (a + rnd b)" if "rnd a = a" "0 \<le> b" for a b
    using rounding.rnd_mono [OF r, of a "a + rnd b"] rounding.rnd_nonneg [OF r that(2)] that(1) by simp
  have closed: "DoorClosed_tree de (reset_door d) =
      Inr (SUCCESS, \<lparr>door_open = True, door_locked = False, pick_attempts = 5\<rparr>)" for d
    by (cases d) (simp add: DoorClosed_tree_def engine_rules [OF de] openDoor_def pickLock_def
        reset_door_def Let_def numeral_eq_Suc)
  show ?thesis
    using grow [OF p(1), of "1 / 5"] grow [OF p(2), of "1 / 10"]
    by (simp add: groot_tree_def engine_rules [OF e] script_door_open_def UpdatePosition_def Let_def
        on_door_def isDoorClosed_def passThroughDoor_def on_success_def closed
        rounding.rnd_idem [OF r]) (simp add: reset_door_def)
qed

text \<open>
  Every round of the endless loop passes the door, however many there are, and the position
  never moves backwards: rounding may swallow an increment but not more.
\<close>

theorem groot_rounds_pass:
  assumes "engine_laws de" "engine_laws e" "rounding rnd"
    and "rnd (pos_x (g_pos w)) = pos_x (g_pos w)" "rnd (pos_y (g_pos w)) = pos_y (g_pos w)"
  shows "\<exists>u. groot_main de e rnd n w = Inr (replicate n SUCCESS, u) \<and>
     pos_x (g_pos w) \<le> pos_x (g_pos u) \<and> pos_y (g_pos w) \<le> pos_y (g_pos u) \<and>
     (0 < n \<longrightarrow> door_open (g_door u) \<and> g_door_open u = Some True \<and> g_pos_2D u = Some (g_pos u))"
  using assms(4,5)
proof (induction n arbitrary: w)
  case (Suc n)
  from groot_round [OF assms(1-3) Suc.prems] obtain v where
    v: "groot_tree de e rnd (w\<lparr>g_door := reset_door (g_door w)\<rparr>) = Inr (SUCCESS, v)"
      "door_open (g_door v)" "g_door_open v = Some True" "g_pos_2D v = Some (g_pos v)"
      "pos_x (g_pos w) \<le> pos_x (g_pos v)" "pos_y (g_pos w) \<le> pos_y (g_pos v)"
      "rnd (pos_x (g_pos v)) = pos_x (g_pos v)" "rnd (pos_y (g_pos v)) = pos_y (g_pos v)"
    by blast
  from Suc.IH [OF v(7,8)] v show ?case by (cases n) fastforce+
qed simp

theorem groot_rounds_pass_witness:
  "\<exists>u. groot_main std_engine std_engine fixed_round 3
      \<lparr>g_door = cross_door0, g_pos = \<lparr>pos_x = 0, pos_y = 0\<rparr>, g_pos_2D = None, g_door_open = None\<rparr> =
      Inr ([SUCCESS, SUCCESS, SUCCESS], u) \<and> 0 \<le> pos_x (g_pos u) \<and> door_open (g_door u)"
  using groot_rounds_pass [OF std_engine_laws std_engine_laws fixed.rounding_axioms,
      of "\<lparr>g_door = cross_door0, g_pos = \<lparr>pos_x = 0, pos_y = 0\<rparr>, g_pos_2D = None, g_door_open = None\<rparr>" 3]
    fixed.rnd_0
  by (auto simp: numeral_eq_Suc)

section \<open>018.global_blackboard\<close>

text \<open>
  Blackboards form a hierarchy; scope 0 is the top. A name that starts with \<open>@\<close> is looked up
  there from every scope.
\<close>

record 'b scoped_board =
  sb_get :: "nat \<Rightarrow> string \<Rightarrow> 'b \<Rightarrow> int option"
  sb_set :: "nat \<Rightarrow> string \<Rightarrow> int \<Rightarrow> 'b \<Rightarrow> 'b"
  sb_new :: 'b

definition plain_name :: "string \<Rightarrow> bool" where
  "plain_name k \<longleftrightarrow> take 1 k \<noteq> ''@''"

definition scoped_laws :: "'b scoped_board \<Rightarrow> bool" where
  "scoped_laws sb \<longleftrightarrow>
     (\<forall>s k b. sb_get sb s (''@'' @ k) b = sb_get sb 0 k b) \<and>
     (\<forall>s k v b. sb_set sb s (''@'' @ k) v b = sb_set sb 0 k v b) \<and>
     (\<forall>k k' v b. plain_name k \<and> plain_name k' \<longrightarrow>
        sb_get sb 0 k' (sb_set sb 0 k v b) = (if k' = k then Some v else sb_get sb 0 k' b))"

record 'b board_world =
  bw_board :: 'b
  bw_out :: console

definition board_PrintNumber :: "'b scoped_board \<Rightarrow> nat \<Rightarrow> string \<Rightarrow> string \<Rightarrow> 'b board_world tick" where
  "board_PrintNumber sb scope name val w =
     (case sb_get sb scope val (bw_board w) of
        None \<Rightarrow> Inl ''bad_expected_access''
      | Some v \<Rightarrow> Inr (SUCCESS, w\<lparr>bw_out := bw_out w @ [''['' @ name @ ''] val: '' @ to_string v]\<rparr>))"

text \<open>The script of the subtree, \<open>@value_sqr := @value * @value\<close>.\<close>

definition script_square :: "'b scoped_board \<Rightarrow> nat \<Rightarrow> 'b board_world tick" where
  "script_square sb scope w =
     (case sb_get sb scope ''@value'' (bw_board w) of
        None \<Rightarrow> Inl ''variable not found''
      | Some v \<Rightarrow>
          Inr (SUCCESS, w\<lparr>bw_board := sb_set sb scope ''@value_sqr'' (v * v) (bw_board w)\<rparr>))"

definition global_tree :: "'b board_world engine \<Rightarrow> 'b scoped_board \<Rightarrow> 'b board_world tick" where
  "global_tree e sb =
     eng_sequence e
       [board_PrintNumber sb 1 ''main_print'' ''@value'',
        eng_sequence e [board_PrintNumber sb 2 ''sub_print'' ''@value'', script_square sb 2]]"

fun global_loop ::
  "'b board_world engine \<Rightarrow> 'b scoped_board \<Rightarrow> int list \<Rightarrow> 'b board_world \<Rightarrow> ('b board_world, string) expected"
  where
  "global_loop e sb [] w = Inr w"
| "global_loop e sb (i # is) w =
     (case global_tree e sb (w\<lparr>bw_board := sb_set sb 0 ''value'' i (bw_board w)\<rparr>) of
        Inl err \<Rightarrow> Inl err
      | Inr (r, u) \<Rightarrow>
          (case sb_get sb 0 ''value_sqr'' (bw_board u) of
             None \<Rightarrow> Inl ''get() error''
           | Some q \<Rightarrow>
               global_loop e sb is
                 (u\<lparr>bw_out := bw_out u @
                    [''[While loop] value: '' @ to_string i @ '' value_sqr: '' @ to_string q]\<rparr>)))"

definition global_main :: "'b board_world engine \<Rightarrow> 'b scoped_board \<Rightarrow> ('b board_world, string) expected" where
  "global_main e sb = global_loop e sb [1, 2, 3] \<lparr>bw_board = sb_new sb, bw_out = []\<rparr>"

definition global_lines :: "int \<Rightarrow> console" where
  "global_lines i =
     [''[main_print] val: '' @ to_string i, ''[sub_print] val: '' @ to_string i,
      ''[While loop] value: '' @ to_string i @ '' value_sqr: '' @ to_string (i * i)]"

lemma global_tick:
  assumes e: "engine_laws e" and sb: "scoped_laws sb"
  shows "\<exists>u. global_tree e sb (w\<lparr>bw_board := sb_set sb 0 ''value'' i (bw_board w)\<rparr>) = Inr (SUCCESS, u) \<and>
     sb_get sb 0 ''value_sqr'' (bw_board u) = Some (i * i) \<and>
     bw_out u = bw_out w @ [''[main_print] val: '' @ to_string i, ''[sub_print] val: '' @ to_string i]"
proof -
  from sb have at: "sb_get sb s ''@value'' b = sb_get sb 0 ''value'' b"
    "sb_set sb s ''@value_sqr'' v b = sb_set sb 0 ''value_sqr'' v b" for s v b
    unfolding scoped_laws_def by (metis append_Cons append_Nil)+
  from sb have "sb_get sb 0 ''value'' (sb_set sb 0 ''value'' v b) = Some v"
    "sb_get sb 0 ''value_sqr'' (sb_set sb 0 ''value_sqr'' v b) = Some v" for v b
    by (simp_all add: scoped_laws_def plain_name_def)
  with at show ?thesis
    by (simp add: global_tree_def engine_rules [OF e] board_PrintNumber_def script_square_def)
qed

lemma global_loop_output:
  assumes "engine_laws e" "scoped_laws sb"
  shows "\<exists>u. global_loop e sb vs w = Inr u \<and> bw_out u = bw_out w @ concat (map global_lines vs)"
proof (induction vs arbitrary: w)
  case (Cons i vs)
  from global_tick [OF assms, of i w] obtain u where
    u: "global_tree e sb (w\<lparr>bw_board := sb_set sb 0 ''value'' i (bw_board w)\<rparr>) = Inr (SUCCESS, u)"
      "sb_get sb 0 ''value_sqr'' (bw_board u) = Some (i * i)"
      "bw_out u = bw_out w @ [''[main_print] val: '' @ to_string i, ''[sub_print] val: '' @ to_string i]"
    by blast
  let ?v = "u\<lparr>bw_out := bw_out u @
    [''[While loop] value: '' @ to_string i @ '' value_sqr: '' @ to_string (i * i)]\<rparr>"
  from Cons.IH [of ?v] u show ?case by (simp add: global_lines_def)
qed simp

text \<open>
  The program prints for each of its values the three lines its comment announces, with the
  square of the value: the entry written inside the subtree is the one \<open>main\<close> reads.
\<close>

theorem global_blackboard_output:
  assumes "engine_laws e" "scoped_laws sb"
  shows "\<exists>w. global_main e sb = Inr w \<and> bw_out w = concat (map global_lines [1, 2, 3])"
  using global_loop_output [OF assms, of "[1, 2, 3]" "\<lparr>bw_board = sb_new sb, bw_out = []\<rparr>"]
  by (simp add: global_main_def)

definition one_board :: "(string \<rightharpoonup> int) scoped_board" where
  "one_board =
     \<lparr>sb_get = (\<lambda>s k b. b (dropWhile (\<lambda>c. c = CHR ''@'') k)),
      sb_set = (\<lambda>s k v b. b(dropWhile (\<lambda>c. c = CHR ''@'') k \<mapsto> v)), sb_new = (\<lambda>_. None)\<rparr>"

lemma one_board_laws: "scoped_laws one_board"
proof -
  have "plain_name k \<Longrightarrow> dropWhile (\<lambda>c. c = CHR ''@'') k = k" for k
    by (cases k) (auto simp: plain_name_def)
  then show ?thesis by (auto simp: scoped_laws_def one_board_def)
qed

theorem global_blackboard_output_witness:
  "\<exists>w. global_main std_engine one_board = Inr w \<and>
     last (bw_out w) = ''[While loop] value: '' @ to_string 3 @ '' value_sqr: '' @ to_string 9"
  using global_blackboard_output [OF std_engine_laws one_board_laws]
  by (auto simp: global_lines_def)

section \<open>020.waypoints\<close>

text \<open>
  A \<open>LoopNode\<close> takes the elements of a queue from the front, stores each in its entry and
  ticks its child; it stops when the queue is empty or the child fails. \<open>put\<close> writes the
  queue back, \<open>store\<close> writes the entry. The coordinates of this program are whole numbers.
\<close>

type_synonym ('v, 's) loop_node = "('v list \<Rightarrow> 's \<Rightarrow> 's) \<Rightarrow> ('v \<Rightarrow> 's \<Rightarrow> 's) \<Rightarrow> 's tick \<Rightarrow> 'v list \<Rightarrow> 's tick"

definition loop_law :: "('v, 's) loop_node \<Rightarrow> bool" where
  "loop_law lo \<longleftrightarrow>
     (\<forall>put store child s. lo put store child [] s = Inr (SUCCESS, s)) \<and>
     (\<forall>put store child v vs s. lo put store child (v # vs) s =
        (case child (store v (put vs s)) of Inr (SUCCESS, t) \<Rightarrow> lo put store child vs t | r \<Rightarrow> r))"

fun std_loop :: "('v, 's) loop_node" where
  "std_loop put store child [] s = Inr (SUCCESS, s)"
| "std_loop put store child (v # vs) s =
     (case child (store v (put vs s)) of Inr (SUCCESS, t) \<Rightarrow> std_loop put store child vs t | r \<Rightarrow> r)"

lemma std_loop_law: "loop_law std_loop"
  by (simp add: loop_law_def)

record way_world =
  way_number :: "int option"
  way_waypoints :: "int pose2d list"
  way_wp :: "int pose2d option"
  way_out :: console

definition GenerateWaypoints :: "way_world tick" where
  "GenerateWaypoints w =
     Inr (SUCCESS, w\<lparr>way_waypoints := map (\<lambda>i. \<lparr>pose_x = i, pose_y = i, pose_theta = 0\<rparr>) [0..4]\<rparr>)"

definition way_PrintNumber :: "way_world tick" where
  "way_PrintNumber w =
     (case way_number w of
        Some v \<Rightarrow> Inr (SUCCESS, w\<lparr>way_out := way_out w @ [''PrintNumber: '' @ to_string v]\<rparr>)
      | None \<Rightarrow> Inr (FAILURE, w))"

definition UseWaypoint :: "way_world tick" where
  "UseWaypoint w =
     (case way_wp w of
        Some wp \<Rightarrow> Inr (SUCCESS, w\<lparr>way_out := way_out w @
          [''Using waypoint: '' @ to_string (pose_x wp) @ ''/'' @ to_string (pose_y wp)]\<rparr>)
      | None \<Rightarrow> Inr (FAILURE, w))"

definition waypoints_tree ::
  "way_world engine \<Rightarrow> (int, way_world) loop_node \<Rightarrow> (int pose2d, way_world) loop_node \<Rightarrow> way_world tick" where
  "waypoints_tree e lo_d lo_p =
     eng_sequence e
       [lo_d (\<lambda>q w. w) (\<lambda>v w. w\<lparr>way_number := Some v\<rparr>) way_PrintNumber [1, 2, 3],
        GenerateWaypoints,
        \<lambda>w. lo_p (\<lambda>q w. w\<lparr>way_waypoints := q\<rparr>) (\<lambda>p w. w\<lparr>way_wp := Some p\<rparr>) UseWaypoint (way_waypoints w) w]"

lemma way_loops:
  assumes "loop_law lo_d" "loop_law lo_p"
  shows "\<exists>u. lo_d (\<lambda>q w. w) (\<lambda>v w. w\<lparr>way_number := Some v\<rparr>) way_PrintNumber vs w = Inr (SUCCESS, u) \<and>
       way_out u = way_out w @ map (\<lambda>v. ''PrintNumber: '' @ to_string v) vs"
    and "\<exists>u. lo_p (\<lambda>q w. w\<lparr>way_waypoints := q\<rparr>) (\<lambda>p w. w\<lparr>way_wp := Some p\<rparr>) UseWaypoint ps w =
         Inr (SUCCESS, u) \<and> way_waypoints u = (if ps = [] then way_waypoints w else []) \<and>
       way_out u = way_out w @
         map (\<lambda>p. ''Using waypoint: '' @ to_string (pose_x p) @ ''/'' @ to_string (pose_y p)) ps"
proof (induction vs arbitrary: w)
  case Nil
  case 1
  then show ?case using assms(1) by (simp add: loop_law_def)
  case 2
  show ?case
  proof (induction ps arbitrary: w)
    case (Cons p ps)
    let ?u = "w\<lparr>way_waypoints := ps, way_wp := Some p, way_out := way_out w @
        [''Using waypoint: '' @ to_string (pose_x p) @ ''/'' @ to_string (pose_y p)]\<rparr>"
    from Cons [of ?u] assms(2) show ?case
      by (auto simp: loop_law_def UseWaypoint_def)
  qed (use assms(2) in \<open>simp add: loop_law_def\<close>)
next
  case (Cons v vs)
  case 1
  let ?u = "w\<lparr>way_number := Some v, way_out := way_out w @ [''PrintNumber: '' @ to_string v]\<rparr>"
  from Cons(1) [of ?u] assms(1) show ?case
    by (simp add: loop_law_def way_PrintNumber_def)
  case 2
  from Cons(2) show ?case .
qed

text \<open>
  The tree of \<open>020.waypoints\<close> succeeds: it prints the numbers of the fixed queue in order, then
  visits the five generated waypoints in order and leaves the shared queue empty.
\<close>

theorem waypoints_visited:
  assumes "engine_laws e" "loop_law lo_d" "loop_law lo_p"
  shows "\<exists>u. waypoints_tree e lo_d lo_p
      \<lparr>way_number = None, way_waypoints = [], way_wp = None, way_out = []\<rparr> = Inr (SUCCESS, u) \<and>
     way_waypoints u = [] \<and>
     way_out u = map (\<lambda>v. ''PrintNumber: '' @ to_string v) [1, 2, 3] @
       map (\<lambda>i. ''Using waypoint: '' @ to_string i @ ''/'' @ to_string i) [0..4]"
proof -
  let ?w = "\<lparr>way_number = None, way_waypoints = [], way_wp = None, way_out = []\<rparr>"
  let ?ps = "map (\<lambda>i. \<lparr>pose_x = i, pose_y = i, pose_theta = 0\<rparr>) [0..4] :: int pose2d list"
  from way_loops(1) [OF assms(2,3), of "[1, 2, 3]" ?w] obtain u where
    u: "lo_d (\<lambda>q w. w) (\<lambda>v w. w\<lparr>way_number := Some v\<rparr>) way_PrintNumber [1, 2, 3] ?w = Inr (SUCCESS, u)"
      "way_out u = map (\<lambda>v. ''PrintNumber: '' @ to_string v) [1, 2, 3]"
    by auto
  have ps: "?ps \<noteq> []" by (simp add: upto_rec1)
  from way_loops(2) [OF assms(2,3), of ?ps "u\<lparr>way_waypoints := ?ps\<rparr>"] ps obtain v where
    "lo_p (\<lambda>q w. w\<lparr>way_waypoints := q\<rparr>) (\<lambda>p w. w\<lparr>way_wp := Some p\<rparr>) UseWaypoint ?ps
       (u\<lparr>way_waypoints := ?ps\<rparr>) = Inr (SUCCESS, v)" "way_waypoints v = []"
    "way_out v = way_out u @ map (\<lambda>i. ''Using waypoint: '' @ to_string i @ ''/'' @ to_string i) [0..4]"
    by (auto simp: comp_def)
  with u show ?thesis
    by (simp add: waypoints_tree_def engine_rules [OF assms(1)] GenerateWaypoints_def)
qed

theorem waypoints_visited_witness:
  "\<exists>u. waypoints_tree std_engine std_loop std_loop
      \<lparr>way_number = None, way_waypoints = [], way_wp = None, way_out = []\<rparr> = Inr (SUCCESS, u) \<and>
     length (way_out u) = 8"
  using waypoints_visited [OF std_engine_laws std_loop_law std_loop_law] by auto

end
