(* ===== verification/Chunk_Demos.thy ===== *)
theory Chunk_Demos
  imports Chunk_Header
begin

text \<open>
  The demonstrations of \<open>src/cpp_test/iceoryx/002.chunk_head\<close>: a payload and a user header are
  written through the pointers of a chunk and read back from a pointer to the payload alone.
  The structures are laid out as the compiler does: \<open>MyPayload\<close> has an \<open>int\<close> at 0 and a
  \<open>double\<close> at 8 (size 16, alignment 8), \<open>MyHeader\<close> one 64-bit number. A \<open>double\<close> is its bit
  pattern.
\<close>

section \<open>64-bit stores and loads\<close>

definition store64 :: "u64 \<Rightarrow> u64 \<Rightarrow> memory \<Rightarrow> memory" where
  "store64 a v m = store32 (a + 4) (ucast (drop_bit 32 v)) (store32 a (ucast v) m)"

definition load64 :: "memory \<Rightarrow> u64 \<Rightarrow> u64" where
  "load64 m a = ucast (load32 m a) OR push_bit 32 (ucast (load32 m (a + 4)))"

section \<open>The programs\<close>

definition sizeof_MyPayload :: u64 where "sizeof_MyPayload = 16"
definition alignof_MyPayload :: u64 where "alignof_MyPayload = 8"
definition sizeof_MyHeader :: u64 where "sizeof_MyHeader = 8"

definition show_field :: "u32 \<Rightarrow> string" where "show_field w = show_nat (unat w)"

definition dumpLayout :: "string \<Rightarrow> memory \<Rightarrow> u64 \<Rightarrow> console" where
  "dumpLayout label m chunk =
     (let uhs = load32 m (chunk + userHeaderSize_at);
          off = load32 m (chunk + userPayloadOffset_at);
          size = load32 m (chunk + userPayloadSize_at)
      in [''['' @ label @ ''] layout:'', ''  ChunkHeader     @ offset 0, size '' @ show_nat (unat header_size)]
         @ (if uhs > 0
            then [''  UserHeader      @ offset '' @ show_nat (unat header_size) @ '', size '' @ show_field uhs]
            else [])
         @ [''  userPayloadOffset = '' @ show_field off,
            ''  Payload         @ offset '' @ show_field off @ '', size '' @ show_field size,
            ''  back-offset     = '' @ show_field (load32 m (chunk + ucast off - 4)), []])"

text \<open>
  \<open>x\<close>, \<open>y\<close>, \<open>ts\<close> are the values the program writes (42, 3.14, 123456); the answer is the layout
  and the values read back through \<open>fromUserPayload\<close>. \<^term>\<open>None\<close>: a null pointer is used.
\<close>

definition demo_with_user_header ::
  "u64 \<Rightarrow> memory \<Rightarrow> u32 \<Rightarrow> u64 \<Rightarrow> u64 \<Rightarrow> (console \<times> u32 \<times> u64 \<times> u64) option" where
  "demo_with_user_header raw m x y ts =
     (case allocateChunk raw sizeof_MyPayload alignof_MyPayload sizeof_MyHeader m of
        None \<Rightarrow> None
      | Some (chunk, m1) \<Rightarrow>
          (let payload = userPayload m1 chunk;
               m2 = store64 (payload + 8) y (store32 payload x m1)
           in case userHeader m2 chunk of
                None \<Rightarrow> None
              | Some uh \<Rightarrow>
                  (let m3 = store64 uh ts m2;
                       out = dumpLayout ''with UserHeader'' m3 chunk;
                       recovered = fromUserPayload m3 payload;
                       p2 = userPayload m3 recovered
                   in case userHeader m3 recovered of
                        None \<Rightarrow> None
                      | Some uh2 \<Rightarrow> Some (out, load32 m3 p2, load64 m3 (p2 + 8), load64 m3 uh2))))"

definition demo_without_user_header ::
  "u64 \<Rightarrow> memory \<Rightarrow> u32 \<Rightarrow> u64 \<Rightarrow> (console \<times> u64 option \<times> u32 \<times> u64) option" where
  "demo_without_user_header raw m x y =
     (case allocateChunk raw sizeof_MyPayload alignof_MyPayload 0 m of
        None \<Rightarrow> None
      | Some (chunk, m1) \<Rightarrow>
          (let payload = userPayload m1 chunk;
               m2 = store64 (payload + 8) y (store32 payload x m1);
               uh = userHeader m2 chunk;
               out = dumpLayout ''no UserHeader'' m2 chunk;
               recovered = fromUserPayload m2 payload;
               p2 = userPayload m2 recovered
           in Some (out, uh, load32 m2 p2, load64 m2 (p2 + 8))))"

section \<open>What they read back\<close>

lemma word64_split: "(ucast (ucast v :: u32) :: u64) OR push_bit 32 (ucast (ucast (drop_bit 32 v) :: u32)) = v"
  by (rule bit_word_eqI) (auto simp: bit_simps)

lemma offsets:
  "payload_offset 8 8 = 32" "payload_offset 8 0 = 24"
  by (simp_all add: payload_offset_def align_def header_size_def Let_def)

lemma load_same: "load32 (store32 a v m) a = v"
  using load_store_same [of 0 a v m] by (simp add: at_def)

text \<open>Two 32-bit fields do not overlap when each begins at least four bytes after the other, cyclically.\<close>

lemma load_other:
  assumes "4 \<le> a - b" "4 \<le> b - a"
  shows "load32 (store32 a v m) b = load32 m b"
proof -
  let ?i = "unat (a - b)"
  have "4 \<le> ?i" using assms(1) by (simp add: word_le_nat_alt)
  moreover have "b - a = 0 - (a - b)" by simp
  ultimately have "unat (b - a) = 2 ^ 64 - ?i" using unat_sub_if' [of 0 "a - b"] by simp
  moreover have "4 \<le> unat (b - a)" using assms(2) by (simp add: word_le_nat_alt)
  ultimately have "?i + 4 \<le> 2 ^ 64" using unat_less_64 [of "a - b"] by linarith
  moreover have "4 \<le> ?i" using assms(1) by (simp add: word_le_nat_alt)
  ultimately show ?thesis
    using load_store_other [of ?i 0 b v m] by (simp add: at_def)
qed

lemmas demo_loads = load_same load_other store64_def load64_def word64_split add.assoc

lemmas demo_defs = allocateChunk_def sizeof_MyPayload_def alignof_MyPayload_def sizeof_MyHeader_def
  offsets Let_def userPayload_def userHeader_def fromUserPayload_def userHeaderSize_at_def
  userPayloadSize_at_def userPayloadAlignment_at_def userPayloadOffset_at_def header_size_def

text \<open>
  Wherever the chunk lies and whatever the memory held, the values written through the chunk
  are the values read back from the payload pointer: neither the payload nor the user header
  overlaps the header or the back-offset. Without a user header its pointer is null.
\<close>

theorem chunk_demos_read_back:
  assumes "raw \<noteq> 0"
  shows "map_option snd (demo_with_user_header raw m x y ts) = Some (x, y, ts) \<and>
         map_option snd (demo_without_user_header raw m x y) = Some (None, x, y)"
  using assms
  by (simp add: demo_with_user_header_def demo_without_user_header_def demo_defs demo_loads)

theorem chunk_demos_read_back_witness:
  "map_option snd (demo_with_user_header 4096 (\<lambda>_. 0) 42 4614253070214989087 123456) =
     Some (42, 4614253070214989087, 123456)"
  using chunk_demos_read_back [of 4096 "\<lambda>_. 0" 42 4614253070214989087 123456] by simp

text \<open>The layout the program prints, for every address.\<close>

theorem chunk_demos_layout:
  assumes "raw \<noteq> 0"
  shows "map_option fst (demo_with_user_header raw m x y ts) =
      Some [''[with UserHeader] layout:'', ''  ChunkHeader     @ offset 0, size '' @ show_nat 16,
            ''  UserHeader      @ offset '' @ show_nat 16 @ '', size '' @ show_nat 8,
            ''  userPayloadOffset = '' @ show_nat 32,
            ''  Payload         @ offset '' @ show_nat 32 @ '', size '' @ show_nat 16,
            ''  back-offset     = '' @ show_nat 32, []] \<and>
    map_option fst (demo_without_user_header raw m x y) =
      Some [''[no UserHeader] layout:'', ''  ChunkHeader     @ offset 0, size '' @ show_nat 16,
            ''  userPayloadOffset = '' @ show_nat 24,
            ''  Payload         @ offset '' @ show_nat 24 @ '', size '' @ show_nat 16,
            ''  back-offset     = '' @ show_nat 24, []]"
  using assms
  by (simp add: demo_with_user_header_def demo_without_user_header_def demo_defs demo_loads
      dumpLayout_def show_field_def)

theorem chunk_demos_layout_witness:
  "\<exists>out. map_option fst (demo_without_user_header 4096 (\<lambda>_. 0) 100 7) = Some out \<and> length out = 6"
  using chunk_demos_layout [of 4096 "\<lambda>_. 0" 100 7 0] by (simp del: map_option_eq_Some)

end
