(* ===== verification/Queue_Flow.thy ===== *)
theory Queue_Flow
  imports Concurrent_Queues
begin

text \<open>
  The first two demonstrations of \<open>src/cpp_test/iceoryx/001.cmake\<close>: a producer that is faster
  than its consumer on a queue that refuses when full (\<open>SpscFifo\<close>) and on one that overwrites
  its oldest element (\<open>SpscSofi\<close>), with threads that end when the main thread leaves the scope.
  Both programs have the same shape; the locale \<open>flow\<close> states what a queue promises its two
  threads. The queues are those of theory \<open>Concurrent_Queues\<close>.
\<close>

section \<open>Queues as the threads see them\<close>

text \<open>What becomes of a pushed value: taken, refused, or taken in place of the oldest one.\<close>

datatype fate = Accepted | Refused | Overwrote int

definition fifo_push :: "'q queue_ops \<Rightarrow> int \<Rightarrow> 'q \<Rightarrow> fate \<times> 'q" where
  "fifo_push qo i q = (case q_tryPush qo i q of (ok, q') \<Rightarrow> (if ok then Accepted else Refused, q'))"

text \<open>\<open>sofi.push(i, overwritten)\<close> with \<open>overwritten\<close> set to \<open>-1\<close> before; \<open>had_overflow\<close> is its negation.\<close>

definition sofi_push :: "'q sofi_ops \<Rightarrow> int \<Rightarrow> 'q \<Rightarrow> fate \<times> 'q" where
  "sofi_push so i q =
     (case s_push so i (- 1) q of
        ((ok, overwritten), q') \<Rightarrow>
          (let had_overflow = \<not> ok in (if had_overflow then Overwrote overwritten else Accepted, q')))"

definition sofi_pop :: "'q sofi_ops \<Rightarrow> 'q \<Rightarrow> int option \<times> 'q" where
  "sofi_pop so q = (case s_pop so 0 q of ((ok, val), q') \<Rightarrow> (if ok then Some val else None, q'))"

section \<open>The two threads\<close>

text \<open>
  A thread is in its loop or has ended. \<open>producer_asked\<close> and \<open>consumer_asked\<close> are the stop
  tokens; \<open>scope_at\<close> is where the main thread is in leaving the scope: the consumer is
  destroyed first. \<open>fl_accepted\<close>, \<open>fl_refused\<close>, \<open>fl_left\<close> and \<open>fl_popped\<close> record the values and
  are not part of the program.
\<close>

datatype scope_at = In_Scope | Join_Consumer | Join_Producer | Left_Scope

record 'q flow_state =
  fl_queue :: 'q
  fl_next :: nat
  producer_asked :: bool
  consumer_asked :: bool
  producer_over :: bool
  consumer_over :: bool
  scope_at :: scope_at
  fl_out :: console
  fl_accepted :: "int list"
  fl_refused :: "int list"
  fl_left :: "int list"
  fl_popped :: "int list"

fun produce_line :: "int \<Rightarrow> fate \<Rightarrow> string" where
  "produce_line i Accepted = ''  [producer] pushed: '' @ to_string i"
| "produce_line i Refused = ''  [producer] queue full, dropped: '' @ to_string i"
| "produce_line i (Overwrote v) =
     ''  [producer] pushed: '' @ to_string i @ '' (overwritten oldest: '' @ to_string v @ '')''"

fun overwritten_by :: "fate \<Rightarrow> int list" where
  "overwritten_by (Overwrote v) = [v]" | "overwritten_by _ = []"

definition producer_step ::
  "(int \<Rightarrow> 'q \<Rightarrow> fate \<times> 'q) \<Rightarrow> 'q flow_state \<Rightarrow> 'q flow_state option" where
  "producer_step push s =
     (if producer_over s then None
      else if producer_asked s then Some (s\<lparr>producer_over := True\<rparr>)
      else (let i = int (fl_next s); (r, q) = push i (fl_queue s)
            in Some (s\<lparr>fl_queue := q, fl_next := Suc (fl_next s), fl_out := fl_out s @ [produce_line i r],
                       fl_accepted := fl_accepted s @ (if r = Refused then [] else [i]),
                       fl_refused := fl_refused s @ (if r = Refused then [i] else []),
                       fl_left := fl_left s @ overwritten_by r\<rparr>)))"

definition consumer_step ::
  "('q \<Rightarrow> int option \<times> 'q) \<Rightarrow> 'q flow_state \<Rightarrow> 'q flow_state option" where
  "consumer_step pop s =
     (if consumer_over s then None
      else if consumer_asked s then Some (s\<lparr>consumer_over := True\<rparr>)
      else (case pop (fl_queue s) of
              (None, q) \<Rightarrow> Some (s\<lparr>fl_queue := q\<rparr>)
            | (Some v, q) \<Rightarrow>
                Some (s\<lparr>fl_queue := q, fl_out := fl_out s @ [''  [consumer] popped: '' @ to_string v],
                        fl_left := fl_left s @ [v], fl_popped := fl_popped s @ [v]\<rparr>)))"

text \<open>The destructors of the two \<open>std::jthread\<close> objects: ask, then join.\<close>

definition scope_step :: "'q flow_state \<Rightarrow> 'q flow_state option" where
  "scope_step s =
     (case scope_at s of
        In_Scope \<Rightarrow> Some (s\<lparr>consumer_asked := True, scope_at := Join_Consumer\<rparr>)
      | Join_Consumer \<Rightarrow>
          (if consumer_over s then Some (s\<lparr>producer_asked := True, scope_at := Join_Producer\<rparr>) else None)
      | Join_Producer \<Rightarrow> (if producer_over s then Some (s\<lparr>scope_at := Left_Scope\<rparr>) else None)
      | Left_Scope \<Rightarrow> None)"

definition flow_start :: "'q \<Rightarrow> 'q flow_state" where
  "flow_start q =
     \<lparr>fl_queue = q, fl_next = 0, producer_asked = False, consumer_asked = False,
      producer_over = False, consumer_over = False, scope_at = In_Scope, fl_out = [],
      fl_accepted = [], fl_refused = [], fl_left = [], fl_popped = []\<rparr>"

inductive flow_step ::
  "(int \<Rightarrow> 'q \<Rightarrow> fate \<times> 'q) \<Rightarrow> ('q \<Rightarrow> int option \<times> 'q) \<Rightarrow> 'q flow_state \<Rightarrow> 'q flow_state \<Rightarrow> bool"
  for push pop where
  flow_producer: "producer_step push s = Some t \<Longrightarrow> flow_step push pop s t"
| flow_consumer: "consumer_step pop s = Some t \<Longrightarrow> flow_step push pop s t"
| flow_scope: "scope_step s = Some t \<Longrightarrow> flow_step push pop s t"

text \<open>The demonstrations: both queues have a capacity of five.\<close>

definition demo_fifo_flow :: "'q queue_ops \<Rightarrow> 'q flow_state \<Rightarrow> bool" where
  "demo_fifo_flow qo =
     reach (\<lambda>s. s = flow_start (q_new qo 5)) (flow_step (fifo_push qo) (q_pop qo))"

definition demo_sofi_flow :: "'q sofi_ops \<Rightarrow> 'q flow_state \<Rightarrow> bool" where
  "demo_sofi_flow so =
     reach (\<lambda>s. s = flow_start (s_new so 5)) (flow_step (sofi_push so) (sofi_pop so))"

section \<open>What the threads rely on\<close>

lemma subseq_more: "subseq xs ys \<Longrightarrow> subseq xs (ys @ zs)"
  using list_emb_append_mono [of "(=)" xs ys "[]" zs] by simp

lemma subseq_append_if: "subseq xs ys \<Longrightarrow> subseq (xs @ (if b then [] else [z])) (ys @ [z])"
  using list_emb_append_mono [of "(=)" xs ys "if b then [] else [z]" "[z]"] by simp

lemma mset_one_more:
  "mset xs + mset ys = M \<Longrightarrow> M' = M + {#i#} \<Longrightarrow>
   mset (xs @ (if b then [] else [i])) + mset (ys @ (if b then [i] else [])) = M'"
  by (cases b) auto

locale flow =
  fixes push :: "int \<Rightarrow> 'q \<Rightarrow> fate \<times> 'q"
    and pop :: "'q \<Rightarrow> int option \<times> 'q"
    and items :: "'q \<Rightarrow> int list"
    and bound :: "'q \<Rightarrow> nat"
  assumes accepted: "push i q = (Accepted, q') \<Longrightarrow> items q' = items q @ [i]"
    and refused: "push i q = (Refused, q') \<Longrightarrow> items q' = items q"
    and overwrote: "push i q = (Overwrote v, q') \<Longrightarrow> v # items q' = items q @ [i]"
    and popped: "pop q = (Some v, q') \<Longrightarrow> items q = v # items q'"
    and empty: "pop q = (None, q') \<Longrightarrow> items q' = items q"
    and bounded: "length (items q) \<le> bound q \<Longrightarrow> snd (push i q) = q' \<or> snd (pop q) = q' \<Longrightarrow>
      length (items q') \<le> bound q' \<and> bound q' = bound q"
begin

definition queue_inv :: "nat \<Rightarrow> 'q flow_state \<Rightarrow> bool" where
  "queue_inv cap s \<longleftrightarrow>
     fl_accepted s = fl_left s @ items (fl_queue s) \<and>
     subseq (fl_popped s) (fl_left s) \<and>
     subseq (fl_accepted s) (map int [0..<fl_next s]) \<and>
     mset (fl_accepted s) + mset (fl_refused s) = mset (map int [0..<fl_next s]) \<and>
     length (items (fl_queue s)) \<le> bound (fl_queue s) \<and> bound (fl_queue s) = cap \<and>
     (consumer_asked s \<longleftrightarrow> scope_at s \<noteq> In_Scope) \<and>
     (producer_asked s \<longleftrightarrow> scope_at s \<in> {Join_Producer, Left_Scope}) \<and>
     (scope_at s \<in> {Join_Producer, Left_Scope} \<longrightarrow> consumer_over s) \<and>
     (scope_at s = Left_Scope \<longrightarrow> producer_over s) \<and>
     (consumer_over s \<longrightarrow> consumer_asked s) \<and> (producer_over s \<longrightarrow> producer_asked s)"

lemma queue_inv_start: "items q = [] \<Longrightarrow> bound q = cap \<Longrightarrow> queue_inv cap (flow_start q)"
  by (simp add: queue_inv_def flow_start_def)

lemma queue_inv_producer:
  assumes inv: "queue_inv cap s" and step: "producer_step push s = Some t"
  shows "queue_inv cap t"
proof (cases "producer_asked s")
  case True
  with inv step show ?thesis by (auto simp: queue_inv_def producer_step_def split: if_splits)
next
  case False
  let ?i = "int (fl_next s)"
  obtain r q where r: "push ?i (fl_queue s) = (r, q)" by fastforce
  from step have over: "\<not> producer_over s" by (auto simp: producer_step_def split: if_splits)
  have t: "t = s\<lparr>fl_queue := q, fl_next := Suc (fl_next s), fl_out := fl_out s @ [produce_line ?i r],
      fl_accepted := fl_accepted s @ (if r = Refused then [] else [?i]),
      fl_refused := fl_refused s @ (if r = Refused then [?i] else []),
      fl_left := fl_left s @ overwritten_by r\<rparr>"
    using step False over r by (simp add: producer_step_def Let_def)
  have b: "length (items q) \<le> bound q" "bound q = cap"
    using bounded [of "fl_queue s" ?i q] inv r by (simp_all add: queue_inv_def)
  have "fl_accepted s @ (if r = Refused then [] else [?i]) = (fl_left s @ overwritten_by r) @ items q"
    using inv r accepted [of ?i "fl_queue s" q] refused [of ?i "fl_queue s" q]
      overwrote [of ?i "fl_queue s" _ q]
    by (cases r) (auto simp: queue_inv_def)
  moreover have "subseq (fl_popped s) (fl_left s @ overwritten_by r)"
    using inv by (intro subseq_more) (simp add: queue_inv_def)
  moreover have "subseq (fl_accepted s @ (if r = Refused then [] else [?i])) (map int [0..<Suc (fl_next s)])"
  proof -
    have "subseq (fl_accepted s) (map int [0..<fl_next s])" using inv unfolding queue_inv_def by blast
    from subseq_append_if [OF this] show ?thesis by simp
  qed
  moreover have "mset (fl_accepted s @ (if r = Refused then [] else [?i])) +
      mset (fl_refused s @ (if r = Refused then [?i] else [])) = mset (map int [0..<Suc (fl_next s)])"
  proof -
    have "mset (fl_accepted s) + mset (fl_refused s) = mset (map int [0..<fl_next s])"
      using inv unfolding queue_inv_def by blast
    moreover have "mset (map int [0..<Suc (fl_next s)]) = mset (map int [0..<fl_next s]) + {#?i#}"
      by simp
    ultimately show ?thesis by (rule mset_one_more)
  qed
  ultimately show ?thesis
    using inv b False unfolding queue_inv_def t by (simp, blast)
qed

lemma queue_inv_consumer:
  assumes inv: "queue_inv cap s" and step: "consumer_step pop s = Some t"
  shows "queue_inv cap t"
proof -
  obtain r q where r: "pop (fl_queue s) = (r, q)" by fastforce
  with bounded [of "fl_queue s" _ q] inv
  have b: "length (items q) \<le> bound q" "bound q = cap" by (simp_all add: queue_inv_def)
  have e: "r = None \<Longrightarrow> items q = items (fl_queue s)" using empty r by blast
  have p: "r = Some v \<Longrightarrow> items (fl_queue s) = v # items q" for v using popped r by blast
  show ?thesis
    using inv step r b e p
    by (cases r) (auto simp: queue_inv_def consumer_step_def split: if_splits)
qed

lemma queue_inv_scope: "queue_inv cap s \<Longrightarrow> scope_step s = Some t \<Longrightarrow> queue_inv cap t"
  by (auto simp: queue_inv_def scope_step_def split: scope_at.splits if_splits)

lemma flow_reach_inv:
  assumes "reach (\<lambda>s. s = flow_start q) (flow_step push pop) s" "items q = []" "bound q = cap"
  shows "queue_inv cap s"
  using assms(1)
  by (induction rule: reach.induct)
     (use assms(2,3) in \<open>auto simp: queue_inv_start elim!: flow_step.cases
        intro: queue_inv_producer queue_inv_consumer queue_inv_scope\<close>)

end

section \<open>The queues of the demonstrations\<close>

lemma v_tryPush_fate:
  "v_tryPush i v = (ok, v') \<Longrightarrow>
   snd v' = snd v \<and> (if ok then fst v' = fst v @ [i] \<and> length (fst v) < snd v else v' = v)"
  by (cases v) (auto split: if_splits)

lemma v_pop_fate:
  "v_pop v = (r, v') \<Longrightarrow>
   snd v' = snd v \<and> (case r of None \<Rightarrow> v' = v | Some x \<Rightarrow> fst v = x # fst v')"
  by (cases v rule: v_pop.cases) auto

lemma v_sofi_push_fate:
  "v_sofi_push True i e v = ((ok, x), v') \<Longrightarrow>
   snd v' = snd v \<and>
   (if ok then fst v' = fst v @ [i] \<and> length (fst v) < snd v else x # fst v' = fst v @ [i])"
  by (cases v; cases "fst v") (auto split: if_splits)

lemma v_sofi_pop_fate:
  "v_sofi_pop e v = ((ok, x), v') \<Longrightarrow>
   snd v' = snd v \<and> (if ok then fst v = x # fst v' else v' = v)"
  by (cases v; cases "fst v") auto

lemma fifo_is_flow:
  assumes "queue_laws max_cap qo"
  shows "flow (fifo_push qo) (q_pop qo) (\<lambda>q. fst (q_view qo q)) (\<lambda>q. snd (q_view qo q))"
proof -
  note results = lawful_queue.qv_results [OF lawful_queue.intro [OF assms]]
  have push: "snd (q_view qo q') = snd (q_view qo q) \<and>
      (r = Accepted \<and> fst (q_view qo q') = fst (q_view qo q) @ [i] \<and>
         length (fst (q_view qo q)) < snd (q_view qo q) \<or>
       r = Refused \<and> q_view qo q' = q_view qo q)"
    if "fifo_push qo i q = (r, q')" for i q r q'
    using that results(1) [THEN v_tryPush_fate, of i q]
    by (auto simp: fifo_push_def split: prod.splits if_splits)
  have pop: "snd (q_view qo q') = snd (q_view qo q) \<and>
      (case r of None \<Rightarrow> q_view qo q' = q_view qo q | Some x \<Rightarrow> fst (q_view qo q) = x # fst (q_view qo q'))"
    if "q_pop qo q = (r, q')" for q r q'
    using results(3) [THEN v_pop_fate, OF that] .
  show ?thesis
  proof
    fix q i q'
    assume "length (fst (q_view qo q)) \<le> snd (q_view qo q)"
      and "snd (fifo_push qo i q) = q' \<or> snd (q_pop qo q) = q'"
    then show "length (fst (q_view qo q')) \<le> snd (q_view qo q') \<and> snd (q_view qo q') = snd (q_view qo q)"
      using push [of i q "fst (fifo_push qo i q)" q'] pop [of q "fst (q_pop qo q)" q']
      by (auto simp: prod_eq_iff split: option.splits)
  qed (use push pop in \<open>fastforce+\<close>)
qed

lemma sofi_is_flow:
  assumes "sofi_laws True so"
  shows "flow (sofi_push so) (sofi_pop so) (\<lambda>q. fst (s_view so q)) (\<lambda>q. snd (s_view so q))"
proof -
  note results = lawful_sofi.sv_results [OF lawful_sofi.intro [OF assms]]
  have push: "snd (s_view so q') = snd (s_view so q) \<and>
      (r = Accepted \<and> fst (s_view so q') = fst (s_view so q) @ [i] \<and>
         length (fst (s_view so q)) < snd (s_view so q) \<or>
       (\<exists>x. r = Overwrote x \<and> x # fst (s_view so q') = fst (s_view so q) @ [i]))"
    if "sofi_push so i q = (r, q')" for i q r q'
    using that results(1) [THEN v_sofi_push_fate, of i "- 1" q]
    by (auto simp: sofi_push_def Let_def split: prod.splits if_splits)
  have pop: "snd (s_view so q') = snd (s_view so q) \<and>
      (case r of None \<Rightarrow> s_view so q' = s_view so q | Some x \<Rightarrow> fst (s_view so q) = x # fst (s_view so q'))"
    if "sofi_pop so q = (r, q')" for q r q'
    using that results(2) [THEN v_sofi_pop_fate, of 0 q]
    by (auto simp: sofi_pop_def split: prod.splits if_splits)
  show ?thesis
  proof
    fix q i q'
    assume len: "length (fst (s_view so q)) \<le> snd (s_view so q)"
      and q': "snd (sofi_push so i q) = q' \<or> snd (sofi_pop so q) = q'"
    have "x # fst (s_view so q') = fst (s_view so q) @ [i] \<Longrightarrow>
        length (fst (s_view so q')) = length (fst (s_view so q))" for x
      by (metis length_Cons length_append_singleton nat.inject)
    then show "length (fst (s_view so q')) \<le> snd (s_view so q') \<and> snd (s_view so q') = snd (s_view so q)"
      using len q' push [of i q "fst (sofi_push so i q)" q'] pop [of q "fst (sofi_pop so q)" q']
      by (auto simp: prod_eq_iff split: option.splits)
  qed (use push pop in \<open>fastforce+\<close>)
qed

interpretation view_fifo: flow "fifo_push (view_queue max_cap)" "q_pop (view_queue max_cap)"
  "\<lambda>q. fst (q_view (view_queue max_cap) q)" "\<lambda>q. snd (q_view (view_queue max_cap) q)"
  by (rule fifo_is_flow [OF view_queue_laws])

text \<open>
  Nothing is lost silently in the queue that refuses. In every state the demonstration can
  reach, the values the producer has tried are the accepted and the refused ones, each once;
  the accepted ones are, in order, those the consumer has taken followed by the at most five
  in the queue; and what the consumer took was taken in order.
\<close>

theorem fifo_demo_accounts:
  assumes "queue_laws max_cap qo" "demo_fifo_flow qo s"
  shows "mset (fl_accepted s) + mset (fl_refused s) = mset (map int [0..<fl_next s]) \<and>
         fl_accepted s = fl_left s @ fst (q_view qo (fl_queue s)) \<and>
         subseq (fl_accepted s) (map int [0..<fl_next s]) \<and>
         length (fst (q_view qo (fl_queue s))) \<le> 5"
proof -
  have "q_view qo (q_new qo 5) = ([], 5)" using assms(1) by (simp add: queue_laws_def)
  then have "flow.queue_inv (\<lambda>q. fst (q_view qo q)) (\<lambda>q. snd (q_view qo q)) 5 s"
    using flow.flow_reach_inv [OF fifo_is_flow [OF assms(1)], of "q_new qo 5" s 5] assms(2)
    by (simp add: demo_fifo_flow_def)
  then show ?thesis
    unfolding flow.queue_inv_def [OF fifo_is_flow [OF assms(1)]] by (elim conjE, intro conjI; simp only:)
qed

text \<open>
  In the queue that overwrites, no value is refused: all values pushed are, in order, the
  ones that have left, popped by the consumer or reported as overwritten by the producer,
  followed by the at most five newest ones. The consumer sees them in order, with gaps.
\<close>

theorem sofi_demo_accounts:
  assumes "sofi_laws True so" "demo_sofi_flow so s"
  shows "map int [0..<fl_next s] = fl_left s @ fst (s_view so (fl_queue s)) \<and>
         subseq (fl_popped s) (fl_left s) \<and> length (fst (s_view so (fl_queue s))) \<le> 5"
proof -
  have "s_view so (s_new so 5) = ([], 5)" using assms(1) by (simp add: sofi_laws_def)
  then have inv: "flow.queue_inv (\<lambda>q. fst (s_view so q)) (\<lambda>q. snd (s_view so q)) 5 s"
    using flow.flow_reach_inv [OF sofi_is_flow [OF assms(1)], of "s_new so 5" s 5] assms(2)
    by (simp add: demo_sofi_flow_def)
  have "fl_refused s = []"
    using assms(2) unfolding demo_sofi_flow_def
  proof (induction rule: reach.induct)
    case (reach_step s t)
    from reach_step(2) reach_step.IH show ?case
      by (cases rule: flow_step.cases)
         (auto simp: producer_step_def consumer_step_def scope_step_def sofi_push_def Let_def
           split: if_splits prod.splits option.splits scope_at.splits)
  qed (simp add: flow_start_def)
  moreover from inv have acc: "subseq (fl_accepted s) (map int [0..<fl_next s])"
    "mset (fl_accepted s) + mset (fl_refused s) = mset (map int [0..<fl_next s])"
    "fl_accepted s = fl_left s @ fst (s_view so (fl_queue s))" "subseq (fl_popped s) (fl_left s)"
    "length (fst (s_view so (fl_queue s))) \<le> snd (s_view so (fl_queue s))"
    "snd (s_view so (fl_queue s)) = 5"
    unfolding flow.queue_inv_def [OF sofi_is_flow [OF assms(1)]] by blast+
  ultimately have "mset (fl_accepted s) = mset (map int [0..<fl_next s])" by simp
  then have "length (fl_accepted s) = length (map int [0..<fl_next s])" by (rule mset_eq_length)
  with acc(1) have "fl_accepted s = map int [0..<fl_next s]" by (rule subseq_same_length)
  with acc(3-6) show ?thesis by simp
qed

text \<open>
  Leaving the scope always succeeds: from every reachable state, four steps of the main
  thread and one step of each thread that still runs end both threads.
\<close>

fun flow_run ::
  "(int \<Rightarrow> 'q \<Rightarrow> fate \<times> 'q) \<Rightarrow> ('q \<Rightarrow> int option \<times> 'q) \<Rightarrow> 'q flow_state \<Rightarrow> nat list \<Rightarrow> 'q flow_state option" where
  "flow_run push pop s [] = Some s"
| "flow_run push pop s (k # ks) =
     (case (if k = 0 then scope_step s else if k = 1 then consumer_step pop s else producer_step push s) of
        None \<Rightarrow> None
      | Some t \<Rightarrow> flow_run push pop t ks)"

theorem demos_end:
  assumes "queue_laws max_cap qo" "demo_fifo_flow qo s" "scope_at s = In_Scope"
  shows "\<exists>t. flow_run (fifo_push qo) (q_pop qo) s [0, 1, 0, 2, 0] = Some t \<and>
     scope_at t = Left_Scope \<and> consumer_over t \<and> producer_over t"
proof -
  have "q_view qo (q_new qo 5) = ([], 5)" using assms(1) by (simp add: queue_laws_def)
  then have "flow.queue_inv (\<lambda>q. fst (q_view qo q)) (\<lambda>q. snd (q_view qo q)) 5 s"
    using flow.flow_reach_inv [OF fifo_is_flow [OF assms(1)], of "q_new qo 5" s 5] assms(2)
    by (simp add: demo_fifo_flow_def)
  then have "\<not> consumer_over s" "\<not> producer_over s"
    unfolding flow.queue_inv_def [OF fifo_is_flow [OF assms(1)]] using assms(3) by auto
  then show ?thesis
    using assms(3) by (simp add: scope_step_def consumer_step_def producer_step_def)
qed

lemma flow_run_reach:
  "flow_run push pop s ks = Some t \<Longrightarrow> reach I (flow_step push pop) s \<Longrightarrow> reach I (flow_step push pop) t"
proof (induction ks arbitrary: s)
  case (Cons k ks)
  then obtain u where u: "flow_run push pop u ks = Some t"
    "(if k = 0 then scope_step s else if k = 1 then consumer_step pop s else producer_step push s) = Some u"
    by (auto split: option.splits)
  then have "flow_step push pop s u" by (auto intro: flow_step.intros split: if_splits)
  from Cons.IH [OF u(1) reach_step [OF Cons.prems(2) this]] show ?case .
qed simp

lemmas flow_exec = flow_start_def producer_step_def consumer_step_def scope_step_def fifo_push_def
  sofi_push_def sofi_pop_def view_queue_def view_sofi_def Let_def

theorem fifo_demo_accounts_witness:
  "\<exists>s. demo_fifo_flow (view_queue 5) s \<and> fl_refused s = [5] \<and>
     fl_accepted s = fl_left s @ fst (q_view (view_queue 5) (fl_queue s))"
proof -
  obtain s where s: "flow_run (fifo_push (view_queue 5)) (q_pop (view_queue 5))
      (flow_start (q_new (view_queue 5) 5)) [2, 2, 2, 2, 2, 2, 1] = Some s" "fl_refused s = [5]"
    by (simp add: flow_exec)
  have r: "demo_fifo_flow (view_queue 5) s"
    unfolding demo_fifo_flow_def by (rule flow_run_reach [OF s(1) reach_init]) simp
  from fifo_demo_accounts [OF view_queue_laws r] r s(2) show ?thesis by blast
qed

theorem sofi_demo_accounts_witness:
  "\<exists>s. demo_sofi_flow (view_sofi True) s \<and> fl_left s = [0, 1] \<and> fl_popped s = [1] \<and>
     map int [0..<fl_next s] = fl_left s @ fst (s_view (view_sofi True) (fl_queue s))"
proof -
  obtain s where s: "flow_run (sofi_push (view_sofi True)) (sofi_pop (view_sofi True))
      (flow_start (s_new (view_sofi True) 5)) [2, 2, 2, 2, 2, 2, 1] = Some s" "fl_left s = [0, 1]"
      "fl_popped s = [1]"
    by (simp add: flow_exec)
  have r: "demo_sofi_flow (view_sofi True) s"
    unfolding demo_sofi_flow_def by (rule flow_run_reach [OF s(1) reach_init]) simp
  from sofi_demo_accounts [OF view_sofi_laws r] r s(2,3) show ?thesis by blast
qed

theorem demos_end_witness:
  "\<exists>t. flow_run (fifo_push (view_queue 5)) (q_pop (view_queue 5))
      (flow_start (q_new (view_queue 5) 5)) [0, 1, 0, 2, 0] = Some t \<and> scope_at t = Left_Scope"
proof -
  have "demo_fifo_flow (view_queue 5) (flow_start (q_new (view_queue 5) 5))"
    unfolding demo_fifo_flow_def by (rule reach_init) simp
  from demos_end [OF view_queue_laws this] show ?thesis by (auto simp: flow_start_def)
qed

end
