(* ===== verification/Ota_Main.thy ===== *)
theory Ota_Main
  imports Ota_Node
begin

text \<open>
  The program of \<open>behaviortree_test/026.ota_state.cpp\<close>: \<open>main\<close> ticks a tree whose node drives an
  \<open>OtaTask\<close>, whose coroutine runs on another thread. The node is that of theory \<open>Ota_Node\<close>,
  the coroutine that of theory \<open>Task_Coroutine\<close>; they share the task. What the coroutine does
  while \<open>main\<close> sleeps is a list of its channel preferences, one per step it may make.
\<close>

section \<open>The program\<close>

text \<open>
  \<open>ota_board\<close> is the blackboard entry, \<open>node_running\<close> whether the tree has left the node
  RUNNING, \<open>prog_coro\<close> the coroutine with the task the node points to.
\<close>

record ('c, 'i) ota_prog =
  ota_board :: OtaState
  node_running :: bool
  node_task :: bool
  prog_coro :: "('c, 'i, unit) coro"

definition node_of :: "('c, 'i) ota_prog \<Rightarrow> ('c, 'i) ota_node" where
  "node_of p = \<lparr>ota_task = (if node_task p then Some (self (prog_coro p)) else None)\<rparr>"

text \<open>
  The node after a callback: the task it holds is the one the coroutine works on; a \<open>run\<close> that
  was accepted has posted the coroutine.
\<close>

definition put_node :: "NodeStatus \<Rightarrow> bool \<Rightarrow> ('c, 'i) ota_node \<Rightarrow> ('c, 'i) ota_prog \<Rightarrow> ('c, 'i) ota_prog" where
  "put_node st started n p =
     (case ota_task n of
        None \<Rightarrow> p\<lparr>node_running := (st = BT_RUNNING)\<rparr>
      | Some t \<Rightarrow>
          p\<lparr>node_running := (st = BT_RUNNING), node_task := True,
            prog_coro := (prog_coro p)\<lparr>self := t,
               pc := (if started \<and> st = BT_RUNNING then At_Top else pc (prog_coro p))\<rparr>\<rparr>)"

text \<open>
  One tick of the tree. The first tick runs the script, which writes DOWNLOADING; the sequence
  then stays at its second child. The status of a \<open>Fallback\<close> over the node and \<open>AlwaysSuccess\<close> is
  the library's, \<open>fallback\<close>.
\<close>

definition fallback_status_law :: "(NodeStatus \<Rightarrow> NodeStatus \<Rightarrow> NodeStatus) \<Rightarrow> bool" where
  "fallback_status_law fallback \<longleftrightarrow>
     (\<forall>a b. fallback a b = (if a = BT_FAILURE then b else a))"

definition tick_tree ::
  "(NodeStatus \<Rightarrow> NodeStatus \<Rightarrow> NodeStatus) \<Rightarrow> ('i, OtaState) channel_ops \<Rightarrow> ('c, 'i) task \<Rightarrow>
     ('c, 'i) ota_prog \<Rightarrow> (NodeStatus \<times> ('c, 'i) ota_prog) option" where
  "tick_tree fallback iops new_task p =
     (if node_running p
      then (case onRunning iops (Inr (ota_board p)) (node_of p) of
              None \<Rightarrow> None
            | Some (st, n) \<Rightarrow> Some (fallback st BT_SUCCESS, put_node st False n p))
      else (let q = p\<lparr>ota_board := DOWNLOADING\<rparr>;
                (st, n) = onStart (Inr (ota_board q)) new_task (node_of q)
            in Some (fallback st BT_SUCCESS, put_node st True n q)))"

text \<open>
  The loop of \<open>main\<close>: count, from 100 on write COMPLETED, sleep, tick. \<^term>\<open>None\<close> when the list of
  pauses is used up and the tree is still RUNNING.
\<close>

fun ota_loop ::
  "(NodeStatus \<Rightarrow> NodeStatus \<Rightarrow> NodeStatus) \<Rightarrow> ('c, TaskCommand) channel_ops \<Rightarrow>
     ('i, OtaState) channel_ops \<Rightarrow> ('c, 'i) task \<Rightarrow> nat \<Rightarrow> bool list list \<Rightarrow> ('c, 'i) ota_prog \<Rightarrow>
     (NodeStatus \<times> nat \<times> ('c, 'i) ota_prog) option" where
  "ota_loop fb cops iops new_task i [] p = None"
| "ota_loop fb cops iops new_task i (chs # pauses) p =
     (let j = Suc i;
          q = p\<lparr>ota_board := (if j \<ge> 100 then OTA_COMPLETED else ota_board p)\<rparr>;
          r = q\<lparr>prog_coro := coro_run ota_body cops iops chs (prog_coro q)\<rparr>
      in case tick_tree fb iops new_task r of
           None \<Rightarrow> None
         | Some (st, s) \<Rightarrow>
             (if st = BT_RUNNING then ota_loop fb cops iops new_task j pauses s else Some (st, j, s)))"

definition ota_prog0 :: "('c, 'i) task \<Rightarrow> ('c, 'i) ota_prog" where
  "ota_prog0 t =
     \<lparr>ota_board = IDLE, node_running = False, node_task = False,
      prog_coro = \<lparr>self = t, members = (), pc = Not_Started\<rparr>\<rparr>"

definition ota_main ::
  "(NodeStatus \<Rightarrow> NodeStatus \<Rightarrow> NodeStatus) \<Rightarrow> ('c, TaskCommand) channel_ops \<Rightarrow>
     ('i, OtaState) channel_ops \<Rightarrow> ('c, 'i) task \<Rightarrow> bool list list \<Rightarrow>
     (NodeStatus \<times> nat \<times> ('c, 'i) ota_prog) option" where
  "ota_main fb cops iops new_task pauses =
     (case tick_tree fb iops new_task (ota_prog0 new_task) of
        None \<Rightarrow> None
      | Some (st, p) \<Rightarrow>
          (if st = BT_RUNNING then ota_loop fb cops iops new_task 0 pauses p else Some (st, 0, p)))"

section \<open>The coroutine during a pause\<close>

text \<open>A task that runs and has had no command.\<close>

definition quiet :: "('c \<Rightarrow> TaskCommand list) \<Rightarrow> ('i \<Rightarrow> OtaState list) \<Rightarrow> OtaState list \<Rightarrow>
    ('c, 'i) task \<Rightarrow> bool" where
  "quiet citems iitems inputs t \<longleftrightarrow>
     current_status t = RUNNING \<and> result t = Pending \<and> cached_result t = None \<and>
     citems (task_control_channel t) = [] \<and> iitems (input_parameters_channel t) = inputs"

lemmas coro_simps = coro_step_def ota_body_def is_cancelled_def is_paused_def
  async_wait_for_resume_def wait_resume_test_def select_received_def wait_for_input_parameters_def

lemma coro_blocked:
  assumes "channel_law cops citems 1" "channel_law iops iitems 1"
    and "quiet citems iitems [] (self s)" "pc s = In_Input"
  shows "coro_run ota_body cops iops chs s = s"
  using assms(3,4) channel_receive(2) [OF assms(1)] channel_receive(2) [OF assms(2)]
  by (cases chs) (simp_all add: coro_simps quiet_def)

text \<open>From the head of the loop it comes to its wait for an input, in three steps.\<close>

lemma coro_to_input:
  assumes "channel_law cops citems 1" "channel_law iops iitems 1"
    and "quiet citems iitems [] (self s)" "pc s = At_Top" "3 \<le> length chs"
  shows "coro_run ota_body cops iops chs s = s\<lparr>pc := In_Input\<rparr>"
proof -
  obtain a b c rest where "chs = a # b # c # rest"
    using assms(5) by (auto simp: numeral_eq_Suc Suc_le_length_iff)
  with assms(3,4) coro_blocked [OF assms(1,2), of "s\<lparr>pc := In_Input\<rparr>" rest] show ?thesis
    by (simp add: coro_simps quiet_def)
qed

lemma coro_takes_input:
  assumes "channel_law cops citems 1" "channel_law iops iitems 1"
    and "quiet citems iitems [v] (self s)" "pc s = In_Input"
  obtains t where "quiet citems iitems [] t"
    "coro_step ota_body cops iops ch s = Some (s\<lparr>self := t, pc := on_input ota_body v\<rparr>)"
proof -
  have q: "iitems (input_parameters_channel (self s)) = [v]" using assms(3) by (simp add: quiet_def)
  from channel_receive(1) [OF assms(2) q] obtain c where
    c: "receive iops (input_parameters_channel (self s)) = Some ((None, v), c)" "iitems c = []"
    by auto
  have n: "receive cops (task_control_channel (self s)) = None"
    using channel_receive(2) [OF assms(1)] assms(3) by (simp add: quiet_def)
  show thesis
  proof (rule that)
    show "quiet citems iitems [] ((self s)\<lparr>input_parameters_channel := c\<rparr>)"
      using assms(3) c(2) by (simp add: quiet_def)
    show "coro_step ota_body cops iops ch s =
        Some (s\<lparr>self := (self s)\<lparr>input_parameters_channel := c\<rparr>, pc := on_input ota_body v\<rparr>)"
      using assms(4) c(1) n
      by (simp add: coro_step_def select_received_def wait_for_input_parameters_def Let_def)
  qed
qed

text \<open>A pause of five steps is enough to take an input and wait for the next, or to end.\<close>

lemma coro_pause:
  assumes law: "channel_law cops citems 1" "channel_law iops iitems 1" and "5 \<le> length chs"
    and s: "pc s = At_Top \<and> quiet citems iitems [] (self s) \<or>
            pc s = In_Input \<and> quiet citems iitems [DOWNLOADING] (self s)"
  shows "\<exists>t. coro_run ota_body cops iops chs s = s\<lparr>self := t, pc := In_Input\<rparr> \<and> quiet citems iitems [] t"
  using s
proof (elim disjE conjE)
  assume "pc s = At_Top" "quiet citems iitems [] (self s)"
  with coro_to_input [OF law this(2,1), of chs] assms(3) show ?thesis
    by (intro exI [of _ "self s"]) simp
next
  assume at: "pc s = In_Input" "quiet citems iitems [DOWNLOADING] (self s)"
  obtain ch rest where chs: "chs = ch # rest" "3 \<le> length rest" using assms(3) by (cases chs) auto
  from coro_takes_input [OF law at(2,1), of ch] obtain t where
    t: "quiet citems iitems [] t" "coro_step ota_body cops iops ch s = Some (s\<lparr>self := t, pc := At_Top\<rparr>)"
    by (auto simp: ota_body_def)
  with coro_to_input [OF law, of "s\<lparr>self := t, pc := At_Top\<rparr>" rest] chs show ?thesis by auto
qed

lemma coro_completes:
  assumes law: "channel_law cops citems 1" "channel_law iops iitems 1" and "2 \<le> length chs"
    and s: "pc s = In_Input" "quiet citems iitems [OTA_COMPLETED] (self s)"
  shows "\<exists>t. coro_run ota_body cops iops chs s = s\<lparr>self := t\<lparr>result := Ready SUCCESS\<rparr>, pc := Returned\<rparr> \<and>
    quiet citems iitems [] t"
proof -
  obtain a b rest where chs: "chs = a # b # rest"
    using assms(3) by (auto simp: numeral_eq_Suc Suc_le_length_iff)
  from coro_takes_input [OF law s(2,1), of a] obtain t where
    t: "quiet citems iitems [] t"
      "coro_step ota_body cops iops a s = Some (s\<lparr>self := t, pc := Returning SUCCESS\<rparr>)"
    by (auto simp: ota_body_def)
  moreover have "coro_run ota_body cops iops rest (s\<lparr>self := u, pc := Returned\<rparr>) = s\<lparr>self := u, pc := Returned\<rparr>"
    for u by (cases rest) (simp_all add: coro_step_def)
  ultimately show ?thesis
    using chs by (auto simp: coro_step_def finish_def quiet_def)
qed

section \<open>The loop\<close>

text \<open>Before a pause the node runs and the coroutine has at most one DOWNLOADING to take.\<close>

definition busy :: "('c \<Rightarrow> TaskCommand list) \<Rightarrow> ('i \<Rightarrow> OtaState list) \<Rightarrow> ('c, 'i) ota_prog \<Rightarrow> bool" where
  "busy citems iitems p \<longleftrightarrow>
     node_running p \<and> node_task p \<and>
     (pc (prog_coro p) = At_Top \<and> quiet citems iitems [] (self (prog_coro p)) \<or>
      pc (prog_coro p) = In_Input \<and> quiet citems iitems [DOWNLOADING] (self (prog_coro p)))"

lemma tick_sends:
  assumes "fallback_status_law fb" "channel_law iops iitems 1"
    and p: "node_running p" "node_task p" "quiet citems iitems [] (self (prog_coro p))"
  shows "\<exists>t. tick_tree fb iops new_task p =
      Some (BT_RUNNING, p\<lparr>prog_coro := (prog_coro p)\<lparr>self := t\<rparr>\<rparr>) \<and>
    quiet citems iitems [ota_board p] t"
proof -
  have "length (iitems (input_parameters_channel (self (prog_coro p)))) < 1"
    using p(3) by (simp add: quiet_def)
  from channel_room [OF assms(2) this] obtain c where
    c: "try_send iops (ota_board p) (input_parameters_channel (self (prog_coro p))) = (True, c)"
      "iitems c = [ota_board p]"
    using p(3) by (auto simp: quiet_def)
  show ?thesis
    using p c assms(1)
    by (intro exI [of _ "(self (prog_coro p))\<lparr>input_parameters_channel := c\<rparr>"])
       (auto simp: tick_tree_def node_of_def onRunning_def get_current_status_def quiet_def
         send_input_parameters_def put_node_def fallback_status_law_def)
qed

lemma loop_round:
  assumes "fallback_status_law fb" "channel_law cops citems 1" "channel_law iops iitems 1"
    and p: "busy citems iitems p" and "5 \<le> length chs"
  shows "\<exists>q. ota_loop fb cops iops new_task i (chs # pauses) p = ota_loop fb cops iops new_task (Suc i) pauses q \<and>
    node_running q \<and> node_task q \<and> pc (prog_coro q) = In_Input \<and>
    ota_board q = (if Suc i \<ge> 100 then OTA_COMPLETED else ota_board p) \<and>
    quiet citems iitems [ota_board q] (self (prog_coro q))"
proof -
  let ?b = "p\<lparr>ota_board := (if Suc i \<ge> 100 then OTA_COMPLETED else ota_board p)\<rparr>"
  from coro_pause [OF assms(2,3,5), of "prog_coro p"] p obtain t where
    t: "coro_run ota_body cops iops chs (prog_coro p) = (prog_coro p)\<lparr>self := t, pc := In_Input\<rparr>"
      "quiet citems iitems [] t"
    unfolding busy_def by blast
  let ?r = "?b\<lparr>prog_coro := (prog_coro p)\<lparr>self := t, pc := In_Input\<rparr>\<rparr>"
  from tick_sends [OF assms(1,3), of ?r citems new_task] p t(2) obtain u where
    u: "tick_tree fb iops new_task ?r = Some (BT_RUNNING, ?r\<lparr>prog_coro := (prog_coro ?r)\<lparr>self := u\<rparr>\<rparr>)"
      "quiet citems iitems [ota_board ?r] u"
    by (auto simp: busy_def)
  then show ?thesis
    using p t(1)
    by (intro exI [of _ "?r\<lparr>prog_coro := (prog_coro ?r)\<lparr>self := u\<rparr>\<rparr>"]) (auto simp: Let_def busy_def)
qed

lemma loop_to_100:
  assumes "fallback_status_law fb" "channel_law cops citems 1" "channel_law iops iitems 1"
  shows "busy citems iitems p \<Longrightarrow> ota_board p = DOWNLOADING \<Longrightarrow> i < 100 \<Longrightarrow>
    list_all (\<lambda>chs. 5 \<le> length chs) pauses \<Longrightarrow> 100 - i \<le> length pauses \<Longrightarrow>
    \<exists>q. ota_loop fb cops iops new_task i pauses p =
          ota_loop fb cops iops new_task 100 (drop (100 - i) pauses) q \<and>
        node_running q \<and> node_task q \<and> pc (prog_coro q) = In_Input \<and>
        quiet citems iitems [OTA_COMPLETED] (self (prog_coro q))"
proof (induction "100 - i" arbitrary: i p pauses)
  case (Suc k)
  then obtain chs rest where ps: "pauses = chs # rest" "5 \<le> length chs" by (cases pauses) auto
  from loop_round [OF assms Suc.prems(1) ps(2), of new_task i rest] obtain q where
    q: "ota_loop fb cops iops new_task i (chs # rest) p = ota_loop fb cops iops new_task (Suc i) rest q"
      "node_running q" "node_task q" "pc (prog_coro q) = In_Input"
      "ota_board q = (if Suc i \<ge> 100 then OTA_COMPLETED else ota_board p)"
      "quiet citems iitems [ota_board q] (self (prog_coro q))"
    by blast
  show ?case
  proof (cases "Suc i = 100")
    case True
    with q ps show ?thesis by (intro exI [of _ q]) (simp add: Suc.hyps(2) [symmetric])
  next
    case False
    with Suc.prems q have "busy citems iitems q" "ota_board q = DOWNLOADING" "Suc i < 100"
      by (auto simp: busy_def)
    with Suc.hyps(1) [of "Suc i" q rest] Suc.hyps(2) Suc.prems ps q(1) show ?thesis
      by (simp add: drop_Cons' )
  qed
qed simp

text \<open>
  C23: The program ends. If the coroutine can make at least five steps in every pause, whichever
  channel it prefers, the loop of \<open>main\<close> ends in its 101st round with SUCCESS: the round after
  the one that writes COMPLETED sees the task completed.
\<close>

theorem ota_main_ends:
  assumes fb: "fallback_status_law fb" and c: "channel_law cops citems 1" and i: "channel_law iops iitems 1"
    and new: "citems (task_control_channel t) = []" "iitems (input_parameters_channel t) = []"
      "t = Task n (input_parameters_channel t) (task_control_channel t)"
    and pauses: "list_all (\<lambda>chs. 5 \<le> length chs) pauses" "101 \<le> length pauses"
  shows "\<exists>p. ota_main fb cops iops t pauses = Some (BT_SUCCESS, 101, p) \<and>
             current_status (self (prog_coro p)) = COMPLETED"
proof -
  have t: "current_status t = INITIAL" "cached_result t = None"
    using new(3) by (metis Task_def task.select_convs(2) task.select_convs(4))+
  obtain p where p: "ota_main fb cops iops t pauses = ota_loop fb cops iops t 0 pauses p"
    "busy citems iitems p" "ota_board p = DOWNLOADING"
    using t new(1,2) fb
    by (auto simp: ota_main_def tick_tree_def ota_prog0_def node_of_def onStart_def run_def put_node_def
        fallback_status_law_def busy_def quiet_def)
  from loop_to_100 [OF fb c i p(2,3) _ pauses(1), of 0 t] pauses(2) obtain q where
    q: "ota_loop fb cops iops t 0 pauses p = ota_loop fb cops iops t 100 (drop 100 pauses) q"
      "node_running q" "node_task q" "pc (prog_coro q) = In_Input"
      "quiet citems iitems [OTA_COMPLETED] (self (prog_coro q))"
    by auto
  obtain chs rest where d: "drop 100 pauses = chs # rest" "5 \<le> length chs"
    using Cons_nth_drop_Suc [of 100 pauses, symmetric] pauses by (simp add: list_all_length)
  from coro_completes [OF c i _ q(4,5), of chs] d(2) obtain u where
    u: "coro_run ota_body cops iops chs (prog_coro q) =
        (prog_coro q)\<lparr>self := u\<lparr>result := Ready SUCCESS\<rparr>, pc := Returned\<rparr>" "quiet citems iitems [] u"
    by auto
  show ?thesis
    using p(1) q d u fb
    by (simp add: Let_def tick_tree_def node_of_def onRunning_def get_current_status_def quiet_def
        put_node_def fallback_status_law_def)
qed

theorem ota_main_ends_witness:
  "\<exists>p. ota_main (\<lambda>a b. if a = BT_FAILURE then b else a) (list_channel 1) (list_channel 1)
        (Task ''OtaTask'' [] []) (replicate 101 [True, False, True, False, True]) =
      Some (BT_SUCCESS, 101, p)"
proof -
  have "fallback_status_law (\<lambda>a b. if a = BT_FAILURE then b else a)"
    by (simp add: fallback_status_law_def)
  from ota_main_ends [OF this list_channel_law list_channel_law, of "Task ''OtaTask'' [] []" "''OtaTask''"
      "replicate 101 [True, False, True, False, True]"]
  show ?thesis by (auto simp: Task_def list_all_length)
qed

text \<open>
  The steps matter: as long as the coroutine gets no step at all, \<open>main\<close> keeps ticking,
  however often it writes COMPLETED.
\<close>

lemma starved_loop:
  assumes "fallback_status_law fb" "channel_law iops iitems 1"
  shows "node_running p \<Longrightarrow> node_task p \<Longrightarrow> current_status (self (prog_coro p)) = RUNNING \<Longrightarrow>
    result (self (prog_coro p)) = Pending \<Longrightarrow>
    ota_loop fb cops iops t i (replicate n []) p = None"
proof (induction n arbitrary: i p)
  case (Suc n)
  let ?b = "p\<lparr>ota_board := (if Suc i \<ge> 100 then OTA_COMPLETED else ota_board p)\<rparr>"
  obtain ok c where c: "try_send iops (ota_board ?b) (input_parameters_channel (self (prog_coro p))) = (ok, c)"
    by fastforce
  let ?q = "?b\<lparr>prog_coro := (prog_coro p)\<lparr>self := (self (prog_coro p))\<lparr>input_parameters_channel := c\<rparr>\<rparr>\<rparr>"
  have "tick_tree fb iops t ?b = Some (BT_RUNNING, ?q)"
    using Suc.prems c assms(1)
    by (simp add: tick_tree_def node_of_def onRunning_def get_current_status_def Let_def
        send_input_parameters_def put_node_def fallback_status_law_def)
  then show ?case using Suc.IH [of ?q "Suc i"] Suc.prems by (simp add: Let_def)
qed simp

theorem starved_main_never_ends:
  assumes "fallback_status_law fb" "channel_law iops iitems 1" "current_status t = INITIAL"
  shows "ota_main fb cops iops t (replicate n []) = None"
proof -
  obtain p where "ota_main fb cops iops t (replicate n []) = ota_loop fb cops iops t 0 (replicate n []) p"
    "node_running p" "node_task p" "current_status (self (prog_coro p)) = RUNNING"
    "result (self (prog_coro p)) = Pending"
    using assms(1,3)
    by (auto simp: ota_main_def tick_tree_def ota_prog0_def node_of_def onStart_def run_def put_node_def
        fallback_status_law_def)
  with starved_loop [OF assms(1,2)] show ?thesis by metis
qed

theorem starved_main_never_ends_witness:
  "ota_main (\<lambda>a b. if a = BT_FAILURE then b else a) (list_channel 1) (list_channel 1)
     (Task ''OtaTask'' [] []) (replicate 500 []) = None"
proof -
  have "fallback_status_law (\<lambda>a b. if a = BT_FAILURE then b else a)"
    by (simp add: fallback_status_law_def)
  then show ?thesis
    by (rule starved_main_never_ends [OF _ list_channel_law]) (simp add: Task_def)
qed

end
