(* ===== verification/Any_Type.thy ===== *)
theory Any_Type
  imports Prelude
begin

text \<open>
  Two programs on types: \<open>AnyType\<close> of \<open>src/cpp_test/stand_cpp/003.any_test\<close>, which holds a value
  or a text to convert on demand, with the integer conversions of the standard library; and
  \<open>src/cpp_test/stand_cpp/016.if_constexpr\<close>, which selects members by concepts. Conversions to
  \<open>double\<close> and \<open>float\<close> are an argument.
\<close>

section \<open>The conversions\<close>

datatype conv_error = Invalid_Argument string | Out_Of_Range string | Runtime_Error string

definition is_blank :: "char \<Rightarrow> bool" where
  "is_blank c \<longleftrightarrow> of_char c = (32 :: nat) \<or> 9 \<le> (of_char c :: nat) \<and> of_char c \<le> (13 :: nat)"

definition is_digit :: "char \<Rightarrow> bool" where
  "is_digit c \<longleftrightarrow> 48 \<le> (of_char c :: nat) \<and> of_char c \<le> (57 :: nat)"

text \<open>White space, an optional sign, and the longest run of digits; what follows is ignored.\<close>

definition scan_number :: "string \<Rightarrow> bool \<times> string" where
  "scan_number str =
     (let s = dropWhile is_blank str;
          (neg, t) = (case s of
             [] \<Rightarrow> (False, s)
           | c # r \<Rightarrow> if c = CHR ''-'' then (True, r) else if c = CHR ''+'' then (False, r) else (False, s))
      in (neg, takeWhile is_digit t))"

text \<open>\<open>std::stoi\<close>, \<open>std::stol\<close>, \<open>std::stoll\<close>: \<open>w\<close> bits, two's complement.\<close>

definition sto_signed :: "string \<Rightarrow> nat \<Rightarrow> string \<Rightarrow> (int, conv_error) expected" where
  "sto_signed name w str =
     (let (neg, ds) = scan_number str;
          n = int (read_digits ds);
          v = (if neg then - n else n)
      in if ds = [] then Inl (Invalid_Argument name)
         else if v < - (2 ^ (w - 1)) \<or> v \<ge> 2 ^ (w - 1) then Inl (Out_Of_Range name)
         else Inr v)"

text \<open>\<open>std::stoul\<close>, \<open>std::stoull\<close>: a minus sign negates the number modulo \<open>2 ^ w\<close>.\<close>

definition sto_unsigned :: "string \<Rightarrow> nat \<Rightarrow> string \<Rightarrow> (int, conv_error) expected" where
  "sto_unsigned name w str =
     (let (neg, ds) = scan_number str;
          n = int (read_digits ds)
      in if ds = [] then Inl (Invalid_Argument name)
         else if n \<ge> 2 ^ w then Inl (Out_Of_Range name)
         else Inr (if neg then (- n) mod 2 ^ w else n))"

text \<open>The branches of \<open>convertFromString<T>\<close> for integers and strings.\<close>

datatype integer_type = T_int | T_long | T_long_long | T_unsigned_long | T_unsigned_long_long

fun convert_integer :: "integer_type \<Rightarrow> string \<Rightarrow> (int, conv_error) expected" where
  "convert_integer T_int str = sto_signed ''stoi'' 32 str"
| "convert_integer T_long str = sto_signed ''stol'' 64 str"
| "convert_integer T_long_long str = sto_signed ''stoll'' 64 str"
| "convert_integer T_unsigned_long str = sto_unsigned ''stoul'' 64 str"
| "convert_integer T_unsigned_long_long str = sto_unsigned ''stoull'' 64 str"

definition convert_string :: "string \<Rightarrow> (string, conv_error) expected" where
  "convert_string str = Inr str"

section \<open>AnyType\<close>

text \<open>The member \<open>std::variant<std::string, T> value_\<close>.\<close>

datatype 'a any_type = Holds_String string | Holds_Value 'a

definition assign_string :: "string \<Rightarrow> 'a any_type \<Rightarrow> 'a any_type" where
  "assign_string str a = Holds_String str"

definition assign_value :: "'a \<Rightarrow> 'a any_type \<Rightarrow> 'a any_type" where
  "assign_value v a = Holds_Value v"

definition any_get :: "(string \<Rightarrow> ('a, conv_error) expected) \<Rightarrow> 'a any_type \<Rightarrow> ('a, conv_error) expected" where
  "any_get convertFromString a = (case a of Holds_String s \<Rightarrow> convertFromString s | Holds_Value v \<Rightarrow> Inr v)"

definition isString :: "'a any_type \<Rightarrow> bool" where
  "isString a = (case a of Holds_String s \<Rightarrow> True | Holds_Value v \<Rightarrow> False)"

definition getString :: "'a any_type \<Rightarrow> (string, conv_error) expected" where
  "getString a = (case a of Holds_String s \<Rightarrow> Inr s
     | Holds_Value v \<Rightarrow> Inl (Runtime_Error ''AnyType does not contain a string''))"

definition getValue :: "'a any_type \<Rightarrow> ('a, conv_error) expected" where
  "getValue a = (case a of Holds_Value v \<Rightarrow> Inr v
     | Holds_String s \<Rightarrow> Inl (Runtime_Error ''AnyType contains a string, not a value''))"

text \<open>\<open>convertFromString<Position2D>\<close>: the text before and after the first semicolon.\<close>

definition find_char :: "char \<Rightarrow> string \<Rightarrow> nat option" where
  "find_char c str = (let k = length (takeWhile (\<lambda>x. x \<noteq> c) str) in if k < length str then Some k else None)"

definition convert_Position2D ::
  "(string \<Rightarrow> ('d, conv_error) expected) \<Rightarrow> string \<Rightarrow> ('d \<times> 'd, conv_error) expected" where
  "convert_Position2D stod str =
     (case find_char (CHR '';'') str of
        None \<Rightarrow> Inl (Runtime_Error (''Invalid Position2D format: '' @ str))
      | Some pos \<Rightarrow>
          (case stod (take pos str) of
             Inl e \<Rightarrow> Inl e
           | Inr x \<Rightarrow> (case stod (drop (pos + 1) str) of Inl e \<Rightarrow> Inl e | Inr y \<Rightarrow> Inr (x, y))))"

text \<open>
  \<open>main\<close>: what it prints, or the exception that ends it. The conversion \<open>std::stod\<close>, the
  stream's printing of a double and the two literals of \<open>pos2\<close> are arguments.
\<close>

definition quoted :: "string \<Rightarrow> string" where
  "quoted s = [CHR 0x27] @ s @ [CHR 0x27]"

definition show_pair :: "('d \<Rightarrow> string) \<Rightarrow> 'd \<times> 'd \<Rightarrow> string" where
  "show_pair show_double p = ''('' @ show_double (fst p) @ '', '' @ show_double (snd p) @ '')''"

definition bool_digit :: "bool \<Rightarrow> string" where
  "bool_digit b = (if b then ''1'' else ''0'')"

definition any_main ::
  "(string \<Rightarrow> ('d, conv_error) expected) \<Rightarrow> ('d \<Rightarrow> string) \<Rightarrow> 'd \<times> 'd \<Rightarrow> (console, conv_error) expected" where
  "any_main stod show_double pos2 =
     (let get = any_get (convert_integer T_int); get_pos = any_get (convert_Position2D stod);
          any1 = Holds_String ''42''; any2 = Holds_Value 100;
          any3 = Holds_String ''1.5;2.3''; any4 = Holds_Value pos2
      in case get any1 of Inl e \<Rightarrow> Inl e | Inr val1 \<Rightarrow>
        (case get any2 of Inl e \<Rightarrow> Inl e | Inr val2 \<Rightarrow>
        (case get_pos any3 of Inl e \<Rightarrow> Inl e | Inr pos1 \<Rightarrow>
        (case get_pos any4 of Inl e \<Rightarrow> Inl e | Inr pos3 \<Rightarrow>
          (let any1' = assign_string ''999'' any1; any1'' = assign_value 777 any1'
           in case get any1' of Inl e \<Rightarrow> Inl e | Inr v999 \<Rightarrow>
             (case get any1'' of Inl e \<Rightarrow> Inl e | Inr v777 \<Rightarrow>
                Inr [''String '' @ quoted ''42'' @ '' converted to int: '' @ to_string val1,
                     ''Int 100 stored and retrieved: '' @ to_string val2,
                     ''String '' @ quoted ''1.5;2.3'' @ '' converted to Position2D: '' @ show_pair show_double pos1,
                     ''Position2D stored and retrieved: '' @ show_pair show_double pos3,
                     ''any1 is string: '' @ bool_digit (isString any1),
                     ''any2 is string: '' @ bool_digit (isString any2),
                     ''any1 reassigned to '' @ quoted ''999'' @ '': '' @ to_string v999,
                     ''any1 reassigned to 777: '' @ to_string v777,
                     ''any1 is string: '' @ bool_digit (isString any1'')]))))))"

section \<open>Selection by concepts (016.if_constexpr)\<close>

text \<open>
  The types a member can have, and a class as the list of its members. \<open>decltype((t.m))\<close> of a
  member of a variable is an lvalue reference to the member's type, and \<open>std::same_as\<close>
  distinguishes a reference from the type it refers to.
\<close>

datatype member_type = Ty_bool | Ty_int | Ty_string | Ty_ref member_type

datatype member_value = Val_bool bool | Val_int int | Val_string string

type_synonym cpp_object = "(string \<times> member_value) list"

fun type_of :: "member_value \<Rightarrow> member_type" where
  "type_of (Val_bool b) = Ty_bool"
| "type_of (Val_int i) = Ty_int"
| "type_of (Val_string s) = Ty_string"

definition member_expr_type :: "cpp_object \<Rightarrow> string \<Rightarrow> member_type option" where
  "member_expr_type t name = map_option (\<lambda>v. Ty_ref (type_of v)) (map_of t name)"

definition HasResult :: "cpp_object \<Rightarrow> bool" where
  "HasResult t \<longleftrightarrow> member_expr_type t ''result'' \<noteq> None"

definition HasCode :: "cpp_object \<Rightarrow> bool" where
  "HasCode t \<longleftrightarrow> member_expr_type t ''code'' \<noteq> None"

definition HasMessage :: "cpp_object \<Rightarrow> bool" where
  "HasMessage t \<longleftrightarrow> member_expr_type t ''message'' = Some Ty_string"

text \<open>A failed \<open>static_assert\<close> is a program that does not compile: no value.\<close>

fun isOk :: "member_value \<Rightarrow> bool option" where
  "isOk (Val_bool t) = Some t"
| "isOk (Val_int t) = Some (t = 0)"
| "isOk (Val_string t) = None"

definition test :: "cpp_object \<Rightarrow> (bool \<times> console) option" where
  "test t =
     (case (if HasResult t then isOk (the (map_of t ''result''))
            else if HasCode t then isOk (the (map_of t ''code'')) else None) of
        None \<Rightarrow> None
      | Some result \<Rightarrow> Some (result,
          if HasMessage t then (case map_of t ''message'' of Some (Val_string s) \<Rightarrow> [s] | _ \<Rightarrow> []) else []))"

definition Result :: "int \<Rightarrow> string \<Rightarrow> cpp_object" where
  "Result r s = [(''result'', Val_int r), (''message'', Val_string s)]"

definition Code :: "int \<Rightarrow> string \<Rightarrow> cpp_object" where
  "Code r s = [(''code'', Val_int r), (''message'', Val_string s)]"

definition OnlyCode :: "int \<Rightarrow> cpp_object" where
  "OnlyCode r = [(''code'', Val_int r)]"

definition OnlyResult :: "int \<Rightarrow> cpp_object" where
  "OnlyResult r = [(''result'', Val_int r)]"

text \<open>\<open>main\<close> prints with \<open>std::boolalpha\<close>; what \<open>test\<close> prints comes before its result.\<close>

fun if_constexpr_lines :: "cpp_object list \<Rightarrow> console option" where
  "if_constexpr_lines [] = Some []"
| "if_constexpr_lines (t # ts) =
     (case test t of
        None \<Rightarrow> None
      | Some (r, out) \<Rightarrow>
          map_option (\<lambda>rest. out @ (if r then ''true'' else ''false'') # rest) (if_constexpr_lines ts))"

definition if_constexpr_main :: "console option" where
  "if_constexpr_main = if_constexpr_lines [Result 1 ''success'', Code 0 ''success'', OnlyCode 0, OnlyResult 1]"

section \<open>Reading back what was printed\<close>

lemma is_digit_digit_char: "d < 10 \<Longrightarrow> is_digit (digit_char d)"
  by (simp add: is_digit_def of_digit_char)

lemma show_nat_digits: "\<forall>c \<in> set (show_nat n). is_digit c"
proof (induction n rule: show_nat.induct)
  case (1 n)
  then show ?case by (subst show_nat.simps) (auto simp: is_digit_digit_char)
qed

lemma show_nat_nonempty: "show_nat n \<noteq> []"
  by (subst show_nat.simps) simp

lemma digit_not_blank: "is_digit c \<Longrightarrow> \<not> is_blank c \<and> c \<noteq> CHR ''-'' \<and> c \<noteq> CHR ''+''"
  by (auto simp: is_digit_def is_blank_def)

lemma scan_show_nat:
  assumes "rest = [] \<or> \<not> is_digit (hd rest)"
  shows "takeWhile is_digit (show_nat n @ rest) = show_nat n"
  using show_nat_digits [of n] assms by (cases rest) (simp_all add: takeWhile_append)

lemma scan_to_string:
  assumes "rest = [] \<or> \<not> is_digit (hd rest)"
  shows "scan_number (to_string i @ rest) = (i < 0, show_nat (nat \<bar>i\<bar>))"
proof (cases "i < 0")
  case True
  then show ?thesis
    using scan_show_nat [OF assms] by (simp add: scan_number_def to_string_def is_blank_def)
next
  case False
  obtain c cs where c: "show_nat (nat i) = c # cs" using show_nat_nonempty by (cases "show_nat (nat i)") auto
  then have "is_digit c" using show_nat_digits [of "nat i"] by simp
  with False c scan_show_nat [OF assms, of "nat i"] digit_not_blank [OF \<open>is_digit c\<close>] show ?thesis
    by (simp add: scan_number_def to_string_def Let_def)
qed

text \<open>The numbers a type holds, and the conversion its branch of \<open>convertFromString\<close> calls.\<close>

fun type_holds :: "integer_type \<Rightarrow> int \<Rightarrow> bool" where
  "type_holds T_int i \<longleftrightarrow> - (2 ^ 31) \<le> i \<and> i < 2 ^ 31"
| "type_holds T_long i \<longleftrightarrow> - (2 ^ 63) \<le> i \<and> i < 2 ^ 63"
| "type_holds T_long_long i \<longleftrightarrow> - (2 ^ 63) \<le> i \<and> i < 2 ^ 63"
| "type_holds T_unsigned_long i \<longleftrightarrow> 0 \<le> i \<and> i < 2 ^ 64"
| "type_holds T_unsigned_long_long i \<longleftrightarrow> 0 \<le> i \<and> i < 2 ^ 64"

fun sto_name :: "integer_type \<Rightarrow> string" where
  "sto_name T_int = ''stoi''"
| "sto_name T_long = ''stol''"
| "sto_name T_long_long = ''stoll''"
| "sto_name T_unsigned_long = ''stoul''"
| "sto_name T_unsigned_long_long = ''stoull''"

definition unsigned_type :: "integer_type \<Rightarrow> bool" where
  "unsigned_type t \<longleftrightarrow> t = T_unsigned_long \<or> t = T_unsigned_long_long"

text \<open>
  For each of the five integer types: converting the decimal form of a number gives the
  number back when the type holds it and fails with \<open>std::out_of_range\<close> otherwise, a
  negative number read as an unsigned type excepted (see below); text after the digits is
  ignored.
\<close>

theorem integer_roundtrip:
  assumes "rest = [] \<or> \<not> is_digit (hd rest)" and "unsigned_type t \<Longrightarrow> 0 \<le> i"
  shows "any_get (convert_integer t) (Holds_String (to_string i @ rest)) =
           (if type_holds t i then Inr i else Inl (Out_Of_Range (sto_name t)))"
  using scan_to_string [OF assms(1), of i] assms(2)
  by (cases t) (simp_all add: any_get_def sto_signed_def sto_unsigned_def unsigned_type_def read_show_nat
      show_nat_nonempty Let_def)

theorem integer_roundtrip_witness:
  "any_get (convert_integer T_int) (Holds_String (to_string 42 @ ''abc'')) = Inr 42"
  using integer_roundtrip [of "''abc''" T_int 42] by (simp add: is_digit_def unsigned_type_def)

text \<open>
  The unsigned conversions accept a minus sign and wrap: the text of a negative number is
  read as the number modulo \<open>2 ^ 64\<close>, no error is raised.
\<close>

theorem negative_text_wraps:
  assumes "i < 0" "- (2 ^ 64) < i"
  shows "any_get (convert_integer T_unsigned_long) (Holds_String (to_string i)) = Inr (i mod 2 ^ 64)"
  using scan_to_string [of "[]" i] assms
  by (simp add: any_get_def sto_unsigned_def read_show_nat show_nat_nonempty Let_def)

theorem negative_text_wraps_witness:
  "any_get (convert_integer T_unsigned_long) (Holds_String (to_string (- 1))) = Inr 18446744073709551615"
  using negative_text_wraps [of "- 1"] by simp

text \<open>
  Whatever was assigned last is what is read: a value unchanged, a text converted; and the
  accessors throw exactly when the other alternative is held.
\<close>

theorem last_assignment_wins:
  "any_get conv (assign_value v a) = Inr v \<and> any_get conv (assign_string s a) = conv s \<and>
   getValue (assign_value v a) = Inr v \<and> getString (assign_string s a) = Inr s \<and>
   (isString a \<longleftrightarrow> (\<exists>e. getValue a = Inl e)) \<and> (isString a \<longleftrightarrow> (\<exists>s. getString a = Inr s))"
  by (cases a) (simp_all add: any_get_def assign_value_def assign_string_def getValue_def getString_def
      isString_def)

text \<open>A position is read back from its two parts; only the first semicolon separates.\<close>

theorem position_roundtrip:
  assumes "CHR '';'' \<notin> set a" "stod a = Inr x" "stod b = Inr y"
  shows "convert_Position2D stod (a @ '';'' @ b) = Inr (x, y)"
proof -
  have "takeWhile (\<lambda>c. c \<noteq> CHR '';'') (a @ '';'' @ b) = a"
    using assms(1) by (simp add: takeWhile_append)
  then show ?thesis using assms(2,3) by (simp add: convert_Position2D_def find_char_def)
qed

theorem position_roundtrip_witness:
  "convert_Position2D (sto_signed ''stod'' 32) (''1'' @ '';'' @ ''2'') = Inr (1, 2)"
proof -
  have "sto_signed ''stod'' 32 ''1'' = Inr 1" "sto_signed ''stod'' 32 ''2'' = Inr 2"
    by (simp_all add: sto_signed_def scan_number_def is_blank_def is_digit_def read_digits_def)
  then show ?thesis by (rule position_roundtrip [rotated 1]) simp
qed

text \<open>
  What the program prints, with a conversion that reads the two literals: every value comes
  back, and the held alternative changes with the assignment.
\<close>

theorem any_main_output:
  assumes "stod ''1.5'' = Inr a" "stod ''2.3'' = Inr b"
  shows "any_main stod show_double pos2 =
    Inr [''String '' @ quoted ''42'' @ '' converted to int: 42'',
         ''Int 100 stored and retrieved: 100'',
         ''String '' @ quoted ''1.5;2.3'' @ '' converted to Position2D: '' @ show_pair show_double (a, b),
         ''Position2D stored and retrieved: '' @ show_pair show_double pos2,
         ''any1 is string: 1'', ''any2 is string: 0'',
         ''any1 reassigned to '' @ quoted ''999'' @ '': 999'',
         ''any1 reassigned to 777: 777'', ''any1 is string: 0'']"
proof -
  have p: "convert_Position2D stod ''1.5;2.3'' = Inr (a, b)"
    using assms by (simp add: convert_Position2D_def find_char_def)
  have n: "to_string 42 = ''42''" "to_string 999 = ''999''" "to_string 777 = ''777''" "to_string 100 = ''100''"
    by code_simp+
  have i: "convert_integer T_int ''42'' = Inr 42" "convert_integer T_int ''999'' = Inr 999"
    by code_simp+
  show ?thesis
    by (simp add: any_main_def any_get_def p i n assign_string_def assign_value_def isString_def bool_digit_def
        Let_def del: convert_integer.simps)
qed

theorem any_main_output_witness:
  "\<exists>out. any_main (\<lambda>s. Inr s) (\<lambda>s. s) (''3.7'', ''4.9'') = Inr out \<and> out ! 3 = ''Position2D stored and retrieved: (3.7, 4.9)''"
  using any_main_output [of "\<lambda>s. Inr s" "''1.5''" "''2.3''" "\<lambda>s. s" "(''3.7'', ''4.9'')"]
  by (simp add: show_pair_def)

section \<open>Which members are seen\<close>

text \<open>
  The concept \<open>HasMessage\<close> holds of no class: it compares a reference with \<open>std::string\<close>. So
  \<open>test\<close> never prints, whatever members the class has.
\<close>

theorem message_never_printed:
  "\<not> HasMessage t \<and> (case test t of None \<Rightarrow> True | Some (r, out) \<Rightarrow> out = [])"
  by (auto simp: HasMessage_def member_expr_type_def test_def split: option.splits)

text \<open>
  \<open>test\<close> compiles exactly for classes whose \<open>result\<close>, or \<open>code\<close> when there is none, is a number or
  a truth value; a number counts as success exactly when it is zero.
\<close>

theorem test_reads_result_first:
  "(test t \<noteq> None) =
     (case map_of t ''result'' of
        Some v \<Rightarrow> isOk v \<noteq> None
      | None \<Rightarrow> (case map_of t ''code'' of Some v \<Rightarrow> isOk v \<noteq> None | None \<Rightarrow> False)) \<and>
   test (Result r s) = Some (r = 0, []) \<and> test (Code r s) = Some (r = 0, []) \<and>
   test (OnlyCode r) = Some (r = 0, []) \<and> test (OnlyResult r) = Some (r = 0, [])"
  by (auto simp: test_def HasResult_def HasCode_def HasMessage_def member_expr_type_def Result_def Code_def
      OnlyCode_def OnlyResult_def split: option.splits)

text \<open>What the program prints: four truth values and no message.\<close>

theorem if_constexpr_output:
  "if_constexpr_main = Some [''false'', ''true'', ''true'', ''false'']"
  by code_simp

end
