(* ===== verification/Roudi_Daemon.thy ===== *)
theory Roudi_Daemon
  imports Relative_Pointer
begin

text \<open>
  The daemon of \<open>src/cpp_test/iceoryx/003.relative_pointer/003.roudi.cpp\<close> from start to exit:
  \<open>main\<close>, \<open>createSegment\<close>, \<open>handleClient\<close>, \<open>cleanup\<close> and the signal handler, with the names of
  shared memory and the socket path as state of the kernel that outlives the process. \<open>main\<close>,
  \<open>createSegment\<close> and \<open>handleClient\<close> make one step per system call; \<open>cleanup\<close> is one step of
  \<open>roudi_step\<close>, and a list of calls (\<open>cleanup_calls\<close>) where other processes may act between two
  of them. \<open>Relative_Pointer\<close> holds the table it sends and the clients.
\<close>

section \<open>Kernel and process\<close>

text \<open>
  Names of shared memory objects, the contents of the objects, and the process whose server
  socket is bound to \<open>ROUDI_SOCK_PATH\<close>.
\<close>

record kernel =
  k_shm :: "byte list \<rightharpoonup> nat"
  k_next :: nat
  k_data :: "nat \<Rightarrow> byte list"
  k_sock :: "nat option"

definition shm_unlink :: "byte list \<Rightarrow> kernel \<Rightarrow> kernel" where
  "shm_unlink name k = k\<lparr>k_shm := (k_shm k)(name := None)\<rparr>"

text \<open>\<open>shm_open\<close> with \<open>O_CREAT\<close>: the object of the name, a new empty one when there is none.\<close>

definition shm_create :: "byte list \<Rightarrow> kernel \<Rightarrow> nat \<times> kernel" where
  "shm_create name k = (case k_shm k name of
     Some obj \<Rightarrow> (obj, k)
   | None \<Rightarrow> (k_next k, k\<lparr>k_shm := (k_shm k)(name \<mapsto> k_next k), k_data := (k_data k)(k_next k := []),
               k_next := Suc (k_next k)\<rparr>))"

text \<open>Contents of an open object: \<open>ftruncate\<close> extends with zeros or cuts, \<open>memset\<close> overwrites.\<close>

definition set_object :: "nat \<Rightarrow> (byte list \<Rightarrow> byte list) \<Rightarrow> kernel \<Rightarrow> kernel" where
  "set_object obj f k = k\<lparr>k_data := (k_data k)(obj := f (k_data k obj))\<rparr>"

definition truncate_to :: "nat \<Rightarrow> byte list \<Rightarrow> byte list" where
  "truncate_to n bs = take n bs @ replicate (n - length bs) 0"

definition unlink_path :: "kernel \<Rightarrow> kernel" where
  "unlink_path k = k\<lparr>k_sock := None\<rparr>"

text \<open>Addresses are numbers; \<open>nullptr\<close> is 0 and \<open>MAP_FAILED\<close> is -1.\<close>

record ShmSegment =
  info :: SegmentInfo
  addr :: int
  fd :: int

datatype roudi_pc = At_Unlink nat | At_Open nat | At_Truncate nat | At_Map nat | At_Memset nat | At_Push nat
  | At_Sock_Unlink | At_Socket | At_Bind | At_Listen | At_Accept
  | At_Read int | At_Write int nat | At_Close int | Exited int | Killed

text \<open>
  \<open>reply\<close> is what has been written to the present client so far, \<open>sent\<close> what was written to the
  earlier ones, each with whether every \<open>write\<close> took all of its bytes; the code keeps neither.
\<close>

record roudi =
  pid :: nat
  at :: roudi_pc
  seg :: ShmSegment
  seg_object :: nat
  g_segments :: "ShmSegment list"
  g_serverFd :: int
  open_fds :: "int list"
  mapped :: "int list"
  reply :: "(bool \<times> byte list) option"
  sent :: "(bool \<times> byte list) list"
  roudi_out :: console
  roudi_err :: console

definition segment_of :: "nat \<Rightarrow> SegmentInfo" where
  "segment_of i = (case i of 0 \<Rightarrow> control_segment | Suc j \<Rightarrow> data_segment j)"

definition fresh_segment :: "nat \<Rightarrow> ShmSegment" where
  "fresh_segment i = \<lparr>info = segment_of i, addr = 0, fd = - 1\<rparr>"

definition roudi_init :: "nat \<Rightarrow> roudi" where
  "roudi_init p = \<lparr>pid = p, at = At_Unlink 0, seg = fresh_segment 0, seg_object = 0, g_segments = [], g_serverFd = - 1,
     open_fds = [], mapped = [], reply = None, sent = [], roudi_out = [], roudi_err = []\<rparr>"

section \<open>cleanup\<close>

definition close_fd :: "int \<Rightarrow> roudi \<Rightarrow> roudi" where
  "close_fd f r = r\<lparr>open_fds := remove1 f (open_fds r)\<rparr>"

definition munmap :: "int \<Rightarrow> roudi \<Rightarrow> roudi" where
  "munmap a r = r\<lparr>mapped := remove1 a (mapped r)\<rparr>"

definition cleanup_segment :: "ShmSegment \<Rightarrow> roudi \<times> kernel \<Rightarrow> roudi \<times> kernel" where
  "cleanup_segment s = (\<lambda>(r, k).
     (let r1 = (if addr s \<noteq> 0 \<and> addr s \<noteq> - 1 then munmap (addr s) r else r);
          r2 = (if fd s \<ge> 0 then close_fd (fd s) r1 else r1)
      in (r2, shm_unlink (shm_name (info s)) k)))"

definition cleanup :: "roudi \<times> kernel \<Rightarrow> roudi \<times> kernel" where
  "cleanup = (\<lambda>(r, k).
     fold cleanup_segment (g_segments r)
       (if g_serverFd r \<ge> 0 then (close_fd (g_serverFd r) r)\<lparr>g_serverFd := - 1\<rparr> else r, unlink_path k))"

text \<open>
  The same as the system calls it makes, one by one. The results of these calls are ignored
  by the code; each is taken to do its work.
\<close>

datatype cleanup_call = C_Close_Server | C_Unlink_Sock | C_Munmap int | C_Close int | C_Shm_Unlink "byte list"

definition segment_calls :: "ShmSegment \<Rightarrow> cleanup_call list" where
  "segment_calls s =
     (if addr s \<noteq> 0 \<and> addr s \<noteq> - 1 then [C_Munmap (addr s)] else []) @
     (if fd s \<ge> 0 then [C_Close (fd s)] else []) @ [C_Shm_Unlink (shm_name (info s))]"

definition cleanup_calls :: "roudi \<Rightarrow> cleanup_call list" where
  "cleanup_calls r =
     (if g_serverFd r \<ge> 0 then [C_Close_Server] else []) @ [C_Unlink_Sock] @ concat (map segment_calls (g_segments r))"

fun cleanup_exec :: "cleanup_call \<Rightarrow> roudi \<times> kernel \<Rightarrow> roudi \<times> kernel" where
  "cleanup_exec C_Close_Server (r, k) = ((close_fd (g_serverFd r) r)\<lparr>g_serverFd := - 1\<rparr>, k)"
| "cleanup_exec C_Unlink_Sock (r, k) = (r, unlink_path k)"
| "cleanup_exec (C_Munmap a) (r, k) = (munmap a r, k)"
| "cleanup_exec (C_Close f) (r, k) = (close_fd f r, k)"
| "cleanup_exec (C_Shm_Unlink name) (r, k) = (r, shm_unlink name k)"

definition exit_with :: "int \<Rightarrow> roudi \<times> kernel \<Rightarrow> roudi \<times> kernel" where
  "exit_with code rk = (case cleanup rk of (r, k) \<Rightarrow> (r\<lparr>at := Exited code\<rparr>, k))"

text \<open>\<open>perror(what); cleanup(); return 1;\<close>\<close>

definition give_up :: "string \<Rightarrow> roudi \<times> kernel \<Rightarrow> roudi \<times> kernel" where
  "give_up what rk = (case rk of (r, k) \<Rightarrow> exit_with 1 (r\<lparr>roudi_err := roudi_err r @ [what]\<rparr>, k))"

section \<open>main\<close>

text \<open>
  The result of the system call the process makes next: its return value (of \<open>accept\<close> the new
  descriptor, of \<open>write\<close> the number of bytes it took), the bytes a \<open>read\<close> got, an interruption, a
  \<open>write\<close> to a client that has closed its end (\<open>SIGPIPE\<close>, for which no handler is installed), or a
  signal for which \<open>sighandler\<close> is installed.
\<close>

datatype roudi_input = Ret int | Data "byte list" | Interrupted | Broken_Pipe | Signal

fun ret_of :: "roudi_input \<Rightarrow> int" where
  "ret_of (Ret n) = n"
| "ret_of (Data bs) = int (length bs)"
| "ret_of Interrupted = - 1"
| "ret_of Broken_Pipe = - 1"
| "ret_of Signal = - 1"

definition name_text :: "byte list \<Rightarrow> string" where
  "name_text bs = map (\<lambda>b. char_of (unat b)) (takeWhile (\<lambda>b. b \<noteq> 0) bs)"

definition created_line :: "nat \<Rightarrow> SegmentInfo \<Rightarrow> string" where
  "created_line i s = (if i = 0 then ''[Roudi] Created control segment: id=0''
      else ''[Roudi] Created data segment:    id='' @ to_string (uint (seg_id s))) @
     ''  name='' @ name_text (shm_name s) @ ''  size='' @ to_string (uint (seg_size s))"

definition sent_line :: "SegmentInfo \<Rightarrow> string" where
  "sent_line s = ''[Roudi]   -> id='' @ to_string (uint (seg_id s)) @ ''  name='' @ name_text (shm_name s) @
     ''  size='' @ to_string (uint (seg_size s)) @ (if is_control s \<noteq> 0 then ''  [CONTROL]'' else '''')"

text \<open>
  \<open>handleClient(clientFd)\<close>, one system call: the \<open>read\<close> of the request, one \<open>write\<close> for the number of
  segments and one per segment, and the \<open>close\<close> on both paths. The results of the writes are
  not looked at.
\<close>

definition reply_chunks :: "SegmentInfo list \<Rightarrow> byte list list" where
  "reply_chunks infos = bytes32 (of_nat (length infos)) # map encode_segment infos"

definition refuse_client :: "int \<Rightarrow> roudi \<Rightarrow> roudi" where
  "refuse_client f r = r\<lparr>roudi_err := roudi_err r @ [''[Roudi] Unknown request, closing''], at := At_Close f\<rparr>"

definition handle_client :: "roudi_input \<Rightarrow> roudi \<Rightarrow> roudi" where
  "handle_client inp r =
     (let infos = map info (g_segments r)
      in case at r of
          At_Read f \<Rightarrow>
            (case inp of
               Data (req # rest) \<Rightarrow>
                 if req = REQ_GET_SEGMENTS
                 then r\<lparr>roudi_out := roudi_out r @ [''[Roudi] Client connected, sending '' @
                          show_nat (length infos) @ '' segments''],
                        reply := Some (True, []), at := At_Write f 0\<rparr>
                 else refuse_client f r
             | _ \<Rightarrow> refuse_client f r)
        | At_Write f j \<Rightarrow>
            if inp = Broken_Pipe then r\<lparr>at := Killed\<rparr>
            else (let chunk = reply_chunks infos ! j; n = nat (ret_of inp) in
              r\<lparr>reply := map_option (\<lambda>(whole, bs). (whole \<and> n = length chunk, bs @ take n chunk)) (reply r),
                roudi_out := roudi_out r @ (if j = 0 then [] else [sent_line (infos ! (j - 1))]),
                at := (if j < length infos then At_Write f (Suc j) else At_Close f)\<rparr>)
        | At_Close f \<Rightarrow>
            (close_fd f r)\<lparr>sent := sent r @ (case reply r of None \<Rightarrow> [] | Some x \<Rightarrow> [x]), reply := None, at := At_Accept\<rparr>
        | _ \<Rightarrow> r)"

fun exited :: "roudi_pc \<Rightarrow> bool" where
  "exited (Exited c) = True"
| "exited p = False"

definition halted :: "roudi_pc \<Rightarrow> bool" where
  "halted p \<longleftrightarrow> exited p \<or> p = Killed"

declare halted_def [simp]

fun roudi_call :: "roudi_input \<Rightarrow> roudi \<times> kernel \<Rightarrow> roudi \<times> kernel" where
  "roudi_call inp (r, k) =
     (let s = seg r; name = shm_name (info s); size = unat (seg_size (info s)); ret = ret_of inp
      in case at r of
          At_Unlink i \<Rightarrow>
            (r\<lparr>seg := fresh_segment i, at := At_Open i\<rparr>, shm_unlink (shm_name (segment_of i)) k)
        | At_Open i \<Rightarrow>
            if ret < 0 then give_up ''shm_open'' (r\<lparr>seg := s\<lparr>fd := ret\<rparr>\<rparr>, k)
            else (case shm_create name k of (obj, k') \<Rightarrow>
              (r\<lparr>seg := s\<lparr>fd := ret\<rparr>, seg_object := obj, open_fds := ret # open_fds r, at := At_Truncate i\<rparr>, k'))
        | At_Truncate i \<Rightarrow>
            if ret < 0 then give_up ''ftruncate'' (r, k)
            else (r\<lparr>at := At_Map i\<rparr>, set_object (seg_object r) (truncate_to size) k)
        | At_Map i \<Rightarrow>
            if ret \<le> 0 then give_up ''mmap'' (r\<lparr>seg := s\<lparr>addr := - 1\<rparr>\<rparr>, k)
            else (r\<lparr>seg := s\<lparr>addr := ret\<rparr>, mapped := ret # mapped r, at := At_Memset i\<rparr>, k)
        | At_Memset i \<Rightarrow>
            (r\<lparr>at := At_Push i\<rparr>, set_object (seg_object r) (\<lambda>_. replicate size 0) k)
        | At_Push i \<Rightarrow>
            (r\<lparr>g_segments := g_segments r @ [s], roudi_out := roudi_out r @ [created_line i (info s)],
               at := (if i < NUM_DATA_SEGMENTS then At_Unlink (Suc i) else At_Sock_Unlink)\<rparr>, k)
        | At_Sock_Unlink \<Rightarrow> (r\<lparr>at := At_Socket\<rparr>, unlink_path k)
        | At_Socket \<Rightarrow>
            if ret < 0 then give_up ''socket'' (r\<lparr>g_serverFd := ret\<rparr>, k)
            else (r\<lparr>g_serverFd := ret, open_fds := ret # open_fds r, at := At_Bind\<rparr>, k)
        | At_Bind \<Rightarrow>
            if ret < 0 then give_up ''bind'' (r, k)
            else (r\<lparr>at := At_Listen\<rparr>, k\<lparr>k_sock := Some (pid r)\<rparr>)
        | At_Listen \<Rightarrow>
            if ret < 0 then give_up ''listen'' (r, k)
            else (r\<lparr>at := At_Accept, roudi_out := roudi_out r @ ['''', ''[Roudi] Listening on /tmp/cpp_003_roudi.sock'',
                    ''[Roudi] Press Ctrl+C to exit'', '''']\<rparr>, k)
        | At_Accept \<Rightarrow>
            if inp = Interrupted then exit_with 0 (r, k)
            else if ret < 0 then (r\<lparr>roudi_err := roudi_err r @ [''accept'']\<rparr>, k)
            else (r\<lparr>open_fds := ret # open_fds r, at := At_Read ret\<rparr>, k)
        | At_Read f \<Rightarrow> (handle_client inp r, k)
        | At_Write f j \<Rightarrow> (handle_client inp r, k)
        | At_Close f \<Rightarrow> (handle_client inp r, k)
        | Exited code \<Rightarrow> (r, k)
        | Killed \<Rightarrow> (r, k))"

text \<open>A signal runs \<open>sighandler\<close> before the next call: \<open>cleanup(); _exit(0);\<close>\<close>

definition roudi_step :: "roudi_input \<Rightarrow> roudi \<times> kernel \<Rightarrow> roudi \<times> kernel" where
  "roudi_step inp rk =
     (if halted (at (fst rk)) then rk else if inp = Signal then exit_with 0 rk else roudi_call inp rk)"

text \<open>
  A run: own steps; in a shared environment any other process may change the kernel between
  them.
\<close>

inductive roudi_moves :: "roudi \<times> kernel \<Rightarrow> roudi \<times> kernel \<Rightarrow> bool" where
  own: "roudi_moves rk (roudi_step inp rk)"

inductive shared_moves :: "roudi \<times> kernel \<Rightarrow> roudi \<times> kernel \<Rightarrow> bool" where
  shared_own: "shared_moves rk (roudi_step inp rk)"
| shared_other: "shared_moves (r, k) (r, k')"

section \<open>What the process holds\<close>

definition table :: "nat \<Rightarrow> SegmentInfo list" where
  "table n = map segment_of [0..<n]"

fun created :: "roudi_pc \<Rightarrow> nat" where
  "created (At_Unlink i) = i"
| "created (At_Open i) = i"
| "created (At_Truncate i) = i"
| "created (At_Map i) = i"
| "created (At_Memset i) = i"
| "created (At_Push i) = i"
| "created p = Suc NUM_DATA_SEGMENTS"

fun has_name :: "roudi_pc \<Rightarrow> bool" where
  "has_name (At_Open i) = True"
| "has_name p = False"

fun opened :: "roudi_pc \<Rightarrow> bool" where
  "opened (At_Truncate i) = True"
| "opened (At_Map i) = True"
| "opened (At_Memset i) = True"
| "opened (At_Push i) = True"
| "opened p = False"

fun is_mapped :: "roudi_pc \<Rightarrow> bool" where
  "is_mapped (At_Memset i) = True"
| "is_mapped (At_Push i) = True"
| "is_mapped p = False"

fun in_creation :: "roudi_pc \<Rightarrow> bool" where
  "in_creation (At_Unlink i) = True"
| "in_creation p = (has_name p \<or> opened p)"

fun serving :: "roudi_pc \<Rightarrow> bool" where
  "serving At_Bind = True"
| "serving At_Listen = True"
| "serving At_Accept = True"
| "serving (At_Read f) = True"
| "serving (At_Write f j) = True"
| "serving (At_Close f) = True"
| "serving p = False"

text \<open>In the loop; the descriptor of the client that is being served.\<close>

fun client_fds :: "roudi_pc \<Rightarrow> int list" where
  "client_fds (At_Read f) = [f]"
| "client_fds (At_Write f j) = [f]"
| "client_fds (At_Close f) = [f]"
| "client_fds p = []"

definition in_accept_loop :: "roudi_pc \<Rightarrow> bool" where
  "in_accept_loop p \<longleftrightarrow> p = At_Accept \<or> client_fds p \<noteq> []"

definition holds_inv :: "roudi \<Rightarrow> bool" where
  "holds_inv r \<longleftrightarrow> (let p = at r; g = g_segments r in
     map info g = table (created p) \<and> (in_creation p \<longrightarrow> created p \<le> NUM_DATA_SEGMENTS) \<and>
     (has_name p \<or> opened p \<longrightarrow> info (seg r) = segment_of (created p)) \<and>
     (\<forall>s \<in> set g. 0 \<le> fd s \<and> 0 < addr s) \<and>
     (opened p \<longrightarrow> 0 \<le> fd (seg r)) \<and> (is_mapped p \<longrightarrow> 0 < addr (seg r)) \<and>
     (if serving p then 0 \<le> g_serverFd r else g_serverFd r = - 1) \<and>
     mset (open_fds r) = mset (map fd g) + (if opened p then {#fd (seg r)#} else {#})
       + (if serving p then {#g_serverFd r#} else {#}) + mset (client_fds p) \<and>
     mset (mapped r) = mset (map addr g) + (if is_mapped p then {#addr (seg r)#} else {#}))"

text \<open>What was written to a client whose writes were all complete is the table.\<close>

definition reply_inv :: "roudi \<Rightarrow> bool" where
  "reply_inv r \<longleftrightarrow> (let chunks = reply_chunks (map info (g_segments r)) in
     case at r of
       At_Write f j \<Rightarrow> j < length chunks \<and>
         (\<exists>whole bs. reply r = Some (whole, bs) \<and> (whole \<longrightarrow> bs = concat (take j chunks)))
     | At_Close f \<Rightarrow> (\<forall>bs. reply r = Some (True, bs) \<longrightarrow> bs = concat chunks)
     | _ \<Rightarrow> reply r = None)"

definition sent_inv :: "roudi \<Rightarrow> bool" where
  "sent_inv r \<longleftrightarrow> (\<forall>bs. (True, bs) \<in> set (sent r) \<longrightarrow> bs = handleClient [REQ_GET_SEGMENTS] (table (Suc NUM_DATA_SEGMENTS)))"

definition roudi_inv :: "roudi \<Rightarrow> bool" where
  "roudi_inv r \<longleftrightarrow> (halted (at r) \<or> holds_inv r \<and> reply_inv r) \<and> sent_inv r"

lemma table_Suc: "table (Suc n) = table n @ [segment_of n]"
  by (simp add: table_def)

lemma cleanup_segments:
  "fst (fold cleanup_segment segs (r, k)) =
     r\<lparr>open_fds := fold remove1 (map fd (filter (\<lambda>s. 0 \<le> fd s) segs)) (open_fds r),
       mapped := fold remove1 (map addr (filter (\<lambda>s. addr s \<noteq> 0 \<and> addr s \<noteq> - 1) segs)) (mapped r)\<rparr> \<and>
   snd (fold cleanup_segment segs (r, k)) = k\<lparr>k_shm := k_shm k |` (- (shm_name ` info ` set segs))\<rparr>"
  by (induction segs arbitrary: r k)
    (auto simp: cleanup_segment_def close_fd_def munmap_def shm_unlink_def Let_def restrict_map_def fun_eq_iff)

lemma cleanup_kernel:
  "snd (cleanup (r, k)) = k\<lparr>k_shm := k_shm k |` (- (shm_name ` info ` set (g_segments r))), k_sock := None\<rparr>"
  by (auto simp: cleanup_def unlink_path_def cleanup_segments)

lemma cleanup_process:
  "at (fst (cleanup (r, k))) = at r \<and> sent (fst (cleanup (r, k))) = sent r \<and>
   g_segments (fst (cleanup (r, k))) = g_segments r"
  by (simp add: cleanup_def cleanup_segments close_fd_def)

lemma mset_fold_remove1: "mset (fold remove1 xs ys) = mset ys - mset xs"
  by (induction xs arbitrary: ys) (simp_all add: diff_diff_add)

lemma cleanup_held:
  assumes "\<forall>s \<in> set (g_segments r). 0 \<le> fd s \<and> 0 < addr s"
  shows "mset (open_fds (fst (cleanup (r, k)))) =
      mset (open_fds r) - (if g_serverFd r \<ge> 0 then {#g_serverFd r#} else {#}) - mset (map fd (g_segments r))"
    "mset (mapped (fst (cleanup (r, k)))) = mset (mapped r) - mset (map addr (g_segments r))"
proof -
  have "filter (\<lambda>s. 0 \<le> fd s) (g_segments r) = g_segments r"
    "filter (\<lambda>s. addr s \<noteq> 0 \<and> addr s \<noteq> - 1) (g_segments r) = g_segments r"
    using assms by (auto intro!: filter_True)
  then show "mset (open_fds (fst (cleanup (r, k)))) =
      mset (open_fds r) - (if g_serverFd r \<ge> 0 then {#g_serverFd r#} else {#}) - mset (map fd (g_segments r))"
    "mset (mapped (fst (cleanup (r, k)))) = mset (mapped r) - mset (map addr (g_segments r))"
    by (simp_all add: cleanup_def cleanup_segments mset_fold_remove1 close_fd_def)
qed

lemma exit_with_held [simp]:
  "open_fds (fst (exit_with c rk)) = open_fds (fst (cleanup rk))"
  "mapped (fst (exit_with c rk)) = mapped (fst (cleanup rk))"
  by (simp_all add: exit_with_def case_prod_beta)

lemma exit_with_simps [simp]:
  "at (fst (exit_with c (r, k))) = Exited c" "sent (fst (exit_with c (r, k))) = sent r"
  "snd (exit_with c (r, k)) = snd (cleanup (r, k))"
  by (simp_all add: exit_with_def cleanup_process split: prod.splits) (metis cleanup_process fst_conv)

lemma give_up_simps [simp]:
  "at (fst (give_up w (r, k))) = Exited 1" "sent (fst (give_up w (r, k))) = sent r"
  "snd (give_up w (r, k)) = snd (cleanup (r, k))"
  by (simp_all add: give_up_def cleanup_kernel)

lemma exits_inv:
  "sent_inv r \<Longrightarrow> roudi_inv (fst (exit_with c (r, k)))" "sent_inv r \<Longrightarrow> roudi_inv (fst (give_up w (r, k)))"
  by (simp_all add: roudi_inv_def halted_def sent_inv_def)

lemma reply_is_handleClient: "concat (reply_chunks infos) = handleClient [REQ_GET_SEGMENTS] infos"
  by (simp add: reply_chunks_def handleClient_def)

lemma handle_client_keeps [simp]:
  "seg (handle_client inp r) = seg r" "g_segments (handle_client inp r) = g_segments r"
  "g_serverFd (handle_client inp r) = g_serverFd r" "mapped (handle_client inp r) = mapped r"
  "seg_object (handle_client inp r) = seg_object r" "pid (handle_client inp r) = pid r"
  by (auto simp: handle_client_def refuse_client_def close_fd_def Let_def split: roudi_pc.splits roudi_input.splits list.splits)

lemma read_inv:
  assumes "holds_inv r" "reply_inv r" "sent_inv r" "at r = At_Read f"
  shows "roudi_inv (handle_client inp r)"
proof -
  have "at (handle_client inp r) = At_Write f 0 \<and> reply (handle_client inp r) = Some (True, []) \<or>
      at (handle_client inp r) = At_Close f \<and> reply (handle_client inp r) = reply r"
    "open_fds (handle_client inp r) = open_fds r" "sent (handle_client inp r) = sent r"
    using assms(4)
    by (auto simp: handle_client_def refuse_client_def Let_def split: roudi_input.splits list.splits)
  with assms show ?thesis
    by (auto simp: roudi_inv_def holds_inv_def reply_inv_def sent_inv_def Let_def reply_chunks_def)
qed

lemma write_inv:
  assumes "holds_inv r" "reply_inv r" "sent_inv r" "at r = At_Write f j"
  shows "roudi_inv (handle_client inp r)"
proof (cases "inp = Broken_Pipe")
  case True
  with assms show ?thesis by (simp add: handle_client_def roudi_inv_def halted_def sent_inv_def)
next
  case False
  let ?infos = "map info (g_segments r)" and ?r = "handle_client inp r"
  let ?chunks = "reply_chunks ?infos" and ?n = "nat (ret_of inp)"
  obtain whole bs where j: "j < length ?chunks" and b: "reply r = Some (whole, bs)" "whole \<longrightarrow> bs = concat (take j ?chunks)"
    using assms(2,4) by (auto simp: reply_inv_def Let_def)
  have r: "at ?r = (if j < length ?infos then At_Write f (Suc j) else At_Close f)" "open_fds ?r = open_fds r"
    "reply ?r = Some (whole \<and> ?n = length (?chunks ! j), bs @ take ?n (?chunks ! j))" "sent ?r = sent r"
    using assms(4) False b by (simp_all add: handle_client_def Let_def)
  have grow: "whole \<and> ?n = length (?chunks ! j) \<longrightarrow> bs @ take ?n (?chunks ! j) = concat (take (Suc j) ?chunks)"
    using b(2) by (auto simp: take_Suc_conv_app_nth [OF j])
  have "length ?chunks = Suc (length ?infos)" by (simp add: reply_chunks_def)
  then have "reply_inv ?r"
    using j r grow by (auto simp: reply_inv_def Let_def not_less)
  moreover have "holds_inv ?r" using assms(1,4) r(1,2) by (auto simp: holds_inv_def Let_def)
  ultimately show ?thesis using assms(3) r(4) by (simp add: roudi_inv_def sent_inv_def)
qed

lemma close_inv:
  assumes "holds_inv r" "reply_inv r" "sent_inv r" "at r = At_Close f"
  shows "roudi_inv (handle_client inp r)"
proof -
  let ?r = "handle_client inp r"
  have r: "at ?r = At_Accept" "open_fds ?r = remove1 f (open_fds r)" "reply ?r = None"
    "sent ?r = sent r @ (case reply r of None \<Rightarrow> [] | Some x \<Rightarrow> [x])"
    using assms(4) by (simp_all add: handle_client_def close_fd_def Let_def)
  have "map info (g_segments r) = table (Suc NUM_DATA_SEGMENTS)"
    using assms(1,4) by (simp add: holds_inv_def Let_def)
  then have "bs = handleClient [REQ_GET_SEGMENTS] (table (Suc NUM_DATA_SEGMENTS))" if "reply r = Some (True, bs)" for bs
    using assms(2,4) that by (simp add: reply_inv_def Let_def reply_is_handleClient)
  then have "sent_inv ?r" using assms(3) r(4) by (auto simp: sent_inv_def split: option.splits)
  moreover have "holds_inv ?r" using assms(1,4) r(1,2) by (auto simp: holds_inv_def Let_def)
  moreover have "reply_inv ?r" using r by (simp add: reply_inv_def)
  ultimately show ?thesis by (simp add: roudi_inv_def)
qed

lemma roudi_call_inv:
  assumes "holds_inv r" "reply_inv r" "sent_inv r"
  shows "roudi_inv (fst (roudi_call inp (r, k)))"
proof (cases "at r")
  case (At_Open i)
  with assms show ?thesis
    by (auto simp: roudi_inv_def holds_inv_def reply_inv_def sent_inv_def Let_def exits_inv split: prod.splits)
next
  case (At_Read f)
  with read_inv [OF assms] show ?thesis by (simp add: Let_def)
next
  case (At_Write f j)
  with write_inv [OF assms] show ?thesis by (simp add: Let_def)
next
  case (At_Close f)
  with close_inv [OF assms] show ?thesis by (simp add: Let_def)
next
  case At_Accept
  with assms show ?thesis
    by (auto simp: roudi_inv_def holds_inv_def reply_inv_def sent_inv_def Let_def exits_inv)
qed (use assms in \<open>auto simp: roudi_inv_def holds_inv_def reply_inv_def sent_inv_def halted_def fresh_segment_def table_Suc
    Let_def exits_inv\<close>)

lemma roudi_step_inv: "roudi_inv r \<Longrightarrow> roudi_inv (fst (roudi_step inp (r, k)))"
  using roudi_call_inv [of r inp k] exits_inv(1) [of r 0 k]
  by (auto simp: roudi_step_def roudi_inv_def simp del: roudi_call.simps)

interpretation shared_sys: invariant_system "\<lambda>(r, k). \<exists>p. r = roudi_init p" shared_moves "\<lambda>(r, k). roudi_inv r"
proof (unfold_locales, goal_cases)
  case (1 s)
  then show ?case by (auto simp: roudi_inv_def holds_inv_def reply_inv_def sent_inv_def roudi_init_def table_def)
next
  case (2 s t)
  from 2(2,1) show ?case
    by (cases rule: shared_moves.cases) (auto simp: case_prod_beta, metis prod.collapse roudi_step_inv)
qed

section \<open>What is left behind\<close>

definition segment_name :: "nat \<Rightarrow> byte list" where
  "segment_name i = shm_name (segment_of i)"

lemma segment_names_distinct: "distinct (map segment_name [0..<Suc NUM_DATA_SEGMENTS])"
  by code_simp

lemma segment_name_inj:
  "i \<le> NUM_DATA_SEGMENTS \<Longrightarrow> j \<le> NUM_DATA_SEGMENTS \<Longrightarrow> segment_name i = segment_name j \<longleftrightarrow> i = j"
  using nth_eq_iff_index_eq [OF segment_names_distinct, of i j] by (simp del: upt_Suc add: less_Suc_eq_le)

lemma names_of_table:
  assumes "map info g = table n"
  shows "shm_name ` info ` set g = segment_name ` {..<n}"
proof -
  have "info ` set g = set (table n)" using assms by (metis set_map)
  then show ?thesis by (auto simp: table_def segment_name_def image_image)
qed

text \<open>The kernel as one process on its own leaves it.\<close>

definition zero_segment :: "kernel \<Rightarrow> nat \<Rightarrow> bool" where
  "zero_segment k i \<longleftrightarrow> (\<exists>obj. k_shm k (segment_name i) = Some obj \<and>
     k_data k obj = replicate (unat (seg_size (segment_of i))) 0)"

fun listening :: "roudi_pc \<Rightarrow> bool" where
  "listening At_Listen = True"
| "listening At_Accept = True"
| "listening (At_Read f) = True"
| "listening (At_Write f j) = True"
| "listening (At_Close f) = True"
| "listening Killed = True"
| "listening p = False"

definition names_ok :: "roudi_pc \<Rightarrow> nat \<Rightarrow> nat \<Rightarrow> kernel \<Rightarrow> bool" where
  "names_ok p obj me k \<longleftrightarrow>
     (\<forall>i \<le> NUM_DATA_SEGMENTS. (k_shm k (segment_name i) \<noteq> None) =
        (i < created p \<or> opened p \<and> i = created p)) \<and>
     (\<forall>n obj. k_shm k n = Some obj \<longrightarrow> obj < k_next k) \<and>
     (\<forall>i < created p. zero_segment k i) \<and>
     (opened p \<longrightarrow> k_shm k (segment_name (created p)) = Some obj \<and>
        (\<forall>n. k_shm k n = Some obj \<longrightarrow> n = segment_name (created p))) \<and>
     (p = At_Push (created p) \<longrightarrow> zero_segment k (created p)) \<and>
     k_sock k = (if listening p then Some me else None)"

definition names_inv :: "roudi \<times> kernel \<Rightarrow> bool" where
  "names_inv rk \<longleftrightarrow> exited (at (fst rk)) \<or>
     names_ok (at (fst rk)) (seg_object (fst rk)) (pid (fst rk)) (snd rk)"

definition fresh_kernel :: "kernel \<Rightarrow> bool" where
  "fresh_kernel k \<longleftrightarrow> (\<forall>i \<le> NUM_DATA_SEGMENTS. k_shm k (segment_name i) = None) \<and>
     (\<forall>n obj. k_shm k n = Some obj \<longrightarrow> obj < k_next k) \<and> k_sock k = None"

definition empty_kernel :: kernel where
  "empty_kernel = \<lparr>k_shm = (\<lambda>_. None), k_next = 0, k_data = (\<lambda>_. []), k_sock = None\<rparr>"

lemma empty_kernel_fresh: "fresh_kernel empty_kernel"
  by (simp add: fresh_kernel_def empty_kernel_def)

lemma names_inv_exits [simp]: "names_inv (exit_with c (r, k))" "names_inv (give_up w (r, k))"
  by (simp_all add: names_inv_def)

lemma zero_segment_cong:
  assumes "k_shm k' (segment_name i) = k_shm k (segment_name i)"
    "\<And>obj. k_shm k (segment_name i) = Some obj \<Longrightarrow> k_data k' obj = k_data k obj"
  shows "zero_segment k' i = zero_segment k i"
  using assms by (auto simp: zero_segment_def)

lemma names_unlink:
  assumes "names_ok (At_Unlink i) obj me k" "i \<le> NUM_DATA_SEGMENTS"
  shows "names_ok (At_Open i) obj' me (shm_unlink (segment_name i) k)"
proof -
  have "k_shm k (segment_name i) = None" using assms by (auto simp: names_ok_def)
  then have "(k_shm k)(segment_name i := None) = k_shm k" by auto
  then have "shm_unlink (segment_name i) k = k" by (simp add: shm_unlink_def)
  with assms show ?thesis by (simp add: names_ok_def)
qed

lemma names_open:
  assumes "names_ok (At_Open i) obj0 me k" "i \<le> NUM_DATA_SEGMENTS" "shm_create (segment_name i) k = (obj, k')"
  shows "names_ok (At_Truncate i) obj me k'"
proof -
  have none: "k_shm k (segment_name i) = None" using assms(1,2) by (auto simp: names_ok_def)
  then have k': "obj = k_next k" "k_shm k' = (k_shm k)(segment_name i \<mapsto> obj)" "k_next k' = Suc obj"
    "k_data k' = (k_data k)(obj := [])" "k_sock k' = k_sock k"
    using assms(3) by (auto simp: shm_create_def)
  have bound: "\<And>n o'. k_shm k n = Some o' \<Longrightarrow> o' < obj" using assms(1) k'(1) by (auto simp: names_ok_def)
  have zero: "zero_segment k' j" if "j < i" for j
  proof -
    have "segment_name j \<noteq> segment_name i" using that assms(2) by (simp add: segment_name_inj)
    then have "zero_segment k' j = zero_segment k j"
      using bound k' by (intro zero_segment_cong) auto
    then show ?thesis using assms(1) that by (simp add: names_ok_def)
  qed
  show ?thesis
    using assms(1,2) k' bound zero segment_name_inj [OF _ assms(2)]
    by (auto simp: names_ok_def less_Suc_eq dest: less_imp_neq)
qed

lemma names_set_object:
  assumes "names_ok p obj me k" "opened p" "created p \<le> NUM_DATA_SEGMENTS" "opened p'" "created p' = created p"
    "p' = At_Push (created p) \<Longrightarrow> f (k_data k obj) = replicate (unat (seg_size (segment_of (created p)))) 0"
  shows "names_ok p' obj me (set_object obj f k)"
proof -
  let ?k = "set_object obj f k"
  have eq: "k_shm ?k = k_shm k" "k_next ?k = k_next k" "k_sock ?k = k_sock k"
    by (simp_all add: set_object_def)
  have own: "k_shm k (segment_name (created p)) = Some obj"
    "\<And>n. k_shm k n = Some obj \<Longrightarrow> n = segment_name (created p)"
    using assms(1,2) by (auto simp: names_ok_def)
  have zero: "zero_segment ?k j" if "j < created p" for j
  proof -
    have "segment_name j \<noteq> segment_name (created p)" using that assms(3) by (simp add: segment_name_inj)
    then have "k_shm k (segment_name j) \<noteq> Some obj" using own(2) by blast
    then have "zero_segment ?k j = zero_segment k j"
      by (intro zero_segment_cong) (auto simp: set_object_def)
    then show ?thesis using assms(1) that by (simp add: names_ok_def)
  qed
  have last: "p' = At_Push (created p) \<Longrightarrow> zero_segment ?k (created p)"
    using own(1) assms(6) by (simp add: zero_segment_def set_object_def)
  have "\<not> listening p \<and> \<not> listening p'" using assms(2,4) by (cases p; cases p') auto
  then have sock: "k_sock k = None \<and> \<not> listening p'"
    and names: "\<forall>i \<le> NUM_DATA_SEGMENTS. (k_shm k (segment_name i) \<noteq> None) = (i < created p \<or> i = created p)"
    and bound: "\<forall>n obj. k_shm k n = Some obj \<longrightarrow> obj < k_next k"
    using assms(1,2) by (simp_all add: names_ok_def)
  show ?thesis
    unfolding names_ok_def eq assms(5)
  proof (intro conjI)
    show "opened p' \<longrightarrow> k_shm k (segment_name (created p)) = Some obj \<and>
        (\<forall>n. k_shm k n = Some obj \<longrightarrow> n = segment_name (created p))" using own by blast
  qed (use names bound zero last sock assms(4) in simp_all)
qed

lemma names_push:
  assumes "names_ok (At_Push i) obj me k" "i \<le> NUM_DATA_SEGMENTS"
  shows "names_ok (if i < NUM_DATA_SEGMENTS then At_Unlink (Suc i) else At_Sock_Unlink) obj' me k"
  using assms by (auto simp: names_ok_def less_Suc_eq)

lemma names_call:
  assumes inv: "holds_inv r" and ok: "names_ok (at r) (seg_object r) (pid r) k"
  shows "names_inv (roudi_call inp (r, k))"
proof (cases "at r")
  case (At_Unlink i)
  then have "i \<le> NUM_DATA_SEGMENTS" using inv by (simp add: holds_inv_def Let_def)
  with ok At_Unlink names_unlink show ?thesis
    by (simp add: names_inv_def flip: segment_name_def)
next
  case (At_Open i)
  then have "i \<le> NUM_DATA_SEGMENTS" "shm_name (info (seg r)) = segment_name i"
    using inv by (simp_all add: holds_inv_def Let_def segment_name_def)
  with ok At_Open names_open show ?thesis
    by (auto simp: names_inv_def Let_def split: prod.splits)
next
  case (At_Truncate i)
  then have "i \<le> NUM_DATA_SEGMENTS" using inv by (simp add: holds_inv_def Let_def)
  with ok At_Truncate show ?thesis
    by (auto simp: names_inv_def Let_def intro: names_set_object)
next
  case (At_Memset i)
  then have "i \<le> NUM_DATA_SEGMENTS" "info (seg r) = segment_of i"
    using inv by (simp_all add: holds_inv_def Let_def)
  with ok At_Memset show ?thesis
    by (auto simp: names_inv_def Let_def intro: names_set_object)
next
  case (At_Push i)
  then have "i \<le> NUM_DATA_SEGMENTS" using inv by (simp add: holds_inv_def Let_def)
  with ok At_Push names_push show ?thesis by (simp add: names_inv_def Let_def)
next
  case At_Accept
  with ok show ?thesis by (simp add: names_inv_def Let_def names_ok_def)
next
  case (At_Read f)
  then have "at (handle_client inp r) = At_Write f 0 \<or> at (handle_client inp r) = At_Close f"
    by (auto simp: handle_client_def refuse_client_def Let_def split: roudi_input.splits list.splits)
  with ok At_Read show ?thesis by (auto simp: names_inv_def Let_def names_ok_def)
next
  case (At_Write f j)
  then have "at (handle_client inp r) = At_Write f (Suc j) \<or> at (handle_client inp r) = At_Close f \<or>
      at (handle_client inp r) = Killed"
    by (auto simp: handle_client_def Let_def)
  with ok At_Write show ?thesis by (auto simp: names_inv_def Let_def names_ok_def)
next
  case (At_Close f)
  then have "at (handle_client inp r) = At_Accept" by (simp add: handle_client_def Let_def)
  with ok At_Close show ?thesis by (simp add: names_inv_def Let_def names_ok_def)
qed (use ok in \<open>simp_all add: names_inv_def Let_def names_ok_def zero_segment_def unlink_path_def\<close>)

lemma names_step: "roudi_inv r \<Longrightarrow> names_inv (r, k) \<Longrightarrow> names_inv (roudi_step inp (r, k))"
  using names_call [of r k inp]
  by (auto simp: roudi_step_def roudi_inv_def halted_def names_inv_def [of "(r, k)"] simp del: roudi_call.simps)

lemma init_inv: "roudi_inv (roudi_init p)"
  by (simp add: roudi_inv_def holds_inv_def reply_inv_def sent_inv_def roudi_init_def table_def)

lemma init_names: "fresh_kernel k \<Longrightarrow> names_inv (roudi_init p, k)"
  by (simp add: names_inv_def names_ok_def roudi_init_def fresh_kernel_def)

interpretation solo_sys: invariant_system "\<lambda>(r, k). (\<exists>p. r = roudi_init p) \<and> fresh_kernel k" roudi_moves
  "\<lambda>rk. roudi_inv (fst rk) \<and> names_inv rk"
proof (unfold_locales, goal_cases)
  case (1 s)
  then show ?case using init_inv init_names by auto
next
  case (2 s t)
  from 2(2,1) show ?case
    by (cases rule: roudi_moves.cases) (metis names_step prod.collapse roudi_step_inv)
qed

lemma loop_cleanup:
  assumes "roudi_inv r" "in_accept_loop (at r)"
  shows "open_fds (fst (cleanup (r, k))) = client_fds (at r)" "mapped (fst (cleanup (r, k))) = []"
    "shm_name ` info ` set (g_segments r) = segment_name ` {..<Suc NUM_DATA_SEGMENTS}"
proof -
  have loop: "\<not> halted (at r)" "created (at r) = Suc NUM_DATA_SEGMENTS" "serving (at r)" "\<not> opened (at r)" "\<not> is_mapped (at r)"
    using assms(2) by (cases "at r"; simp add: in_accept_loop_def halted_def)+
  then have inv: "holds_inv r" using assms(1) by (simp add: roudi_inv_def)
  have held: "\<forall>s \<in> set (g_segments r). 0 \<le> fd s \<and> 0 < addr s" "0 \<le> g_serverFd r"
    "mset (open_fds r) = mset (map fd (g_segments r)) + {#g_serverFd r#} + mset (client_fds (at r))"
    "mset (mapped r) = mset (map addr (g_segments r))" "map info (g_segments r) = table (Suc NUM_DATA_SEGMENTS)"
    using inv loop by (simp_all add: holds_inv_def Let_def)
  note c = cleanup_held [OF held(1), of k]
  have "mset (open_fds (fst (cleanup (r, k)))) = mset (client_fds (at r))"
    unfolding c(1) using held(2,3) by simp
  then show "open_fds (fst (cleanup (r, k))) = client_fds (at r)" by (cases "at r") simp_all
  show "mapped (fst (cleanup (r, k))) = []" using c(2) held(4) by simp
  show "shm_name ` info ` set (g_segments r) = segment_name ` {..<Suc NUM_DATA_SEGMENTS}"
    by (rule names_of_table [OF held(5)])
qed

lemma loop_exit:
  assumes "roudi_inv r" "at r = At_Accept" "inp = Signal \<or> inp = Interrupted" "roudi_step inp (r, k) = (r', k')"
  shows "at r' = Exited 0 \<and> open_fds r' = [] \<and> mapped r' = [] \<and> k_sock k' = None \<and>
    (\<forall>i \<le> NUM_DATA_SEGMENTS. k_shm k' (segment_name i) = None)"
proof -
  have step: "(r', k') = exit_with 0 (r, k)" using assms(2,3,4) by (auto simp: roudi_step_def halted_def)
  have "in_accept_loop (at r)" using assms(2) by (simp add: in_accept_loop_def)
  note loop = loop_cleanup(1,2) [OF assms(1) this, of k] loop_cleanup(3) [OF assms(1) this]
  have "k' = snd (cleanup (r, k))" "at r' = Exited 0"
    using step by (metis exit_with_simps(3) snd_conv, metis exit_with_simps(1) fst_conv)
  then show ?thesis
    using loop assms(2) arg_cong [OF step, of fst] by (auto simp: cleanup_kernel restrict_map_def)
qed

section \<open>cleanup, call by call\<close>

lemma fold_concat_map: "fold f (concat (map g xs)) s = fold (\<lambda>x. fold f (g x)) xs s"
  by (induction xs arbitrary: s) simp_all

lemma segment_calls_exec: "fold cleanup_exec (segment_calls s) = cleanup_segment s"
  by (rule ext) (simp add: segment_calls_def cleanup_segment_def Let_def split: prod.splits)

lemma cleanup_is_calls: "fold cleanup_exec (cleanup_calls r) (r, k) = cleanup (r, k)"
  by (simp add: cleanup_calls_def cleanup_def fold_concat_map segment_calls_exec)

text \<open>
  Other processes may act between two of the calls in any way, except that they do not create
  the names in \<open>N\<close> anew nor, when \<open>S\<close> holds, bind the socket path.
\<close>

inductive cleaning :: "byte list set \<Rightarrow> bool \<Rightarrow> cleanup_call list \<times> roudi \<times> kernel \<Rightarrow>
    cleanup_call list \<times> roudi \<times> kernel \<Rightarrow> bool" for N S where
  clean_call: "cleaning N S (c # cs, rk) (cs, cleanup_exec c rk)"
| clean_other: "\<forall>n \<in> N. k_shm k n = None \<longrightarrow> k_shm k' n = None \<Longrightarrow> (S \<Longrightarrow> k_sock k = None \<Longrightarrow> k_sock k' = None) \<Longrightarrow>
    cleaning N S (cs, r, k) (cs, r, k')"

lemma exec_process: "fst (cleanup_exec c (r, k)) = fst (cleanup_exec c (r, k'))"
  by (cases c) simp_all

lemma cleaning_inv:
  assumes "(cleaning N S)\<^sup>*\<^sup>* (cs0, r0, k0) st"
  shows "\<exists>made. cs0 = made @ fst st \<and> fst (snd st) = fst (fold cleanup_exec made (r0, k0)) \<and>
    (\<forall>n \<in> N. C_Shm_Unlink n \<in> set made \<longrightarrow> k_shm (snd (snd st)) n = None) \<and>
    (S \<longrightarrow> C_Unlink_Sock \<in> set made \<longrightarrow> k_sock (snd (snd st)) = None)"
  using assms
proof (induction rule: rtranclp_induct)
  case base
  then show ?case by simp
next
  case (step st st')
  then obtain made where made: "cs0 = made @ fst st" "fst (snd st) = fst (fold cleanup_exec made (r0, k0))"
    "\<forall>n \<in> N. C_Shm_Unlink n \<in> set made \<longrightarrow> k_shm (snd (snd st)) n = None"
    "S \<longrightarrow> C_Unlink_Sock \<in> set made \<longrightarrow> k_sock (snd (snd st)) = None"
    by blast
  from step(2) show ?case
  proof (cases rule: cleaning.cases)
    case (clean_call c cs rk)
    obtain r k where rk: "rk = (r, k)" by (cases rk)
    have "fst (cleanup_exec c (r, k)) = fst (fold cleanup_exec (made @ [c]) (r0, k0))"
      using made(2) clean_call rk exec_process [of c r k] by (cases "fold cleanup_exec made (r0, k0)") simp
    with made clean_call rk show ?thesis
      by (intro exI [of _ "made @ [c]"], cases c) (auto simp: shm_unlink_def unlink_path_def)
  next
    case (clean_other k k' cs r)
    with made show ?thesis by (intro exI [of _ made]) auto
  qed
qed

text \<open>
  C22: Leaving the loop, by a signal at any point of it, \<open>handleClient\<close> included, or by an
  interrupted \<open>accept\<close>: when \<open>cleanup\<close> is through, every mapping is removed and every descriptor
  closed but that of a client the signal interrupted, which ends with the process; every
  segment's name and the socket path have been removed, and are still absent unless another
  process has created them anew in the meantime. Other processes may act between any two calls
  of the daemon, those of \<open>cleanup\<close> included.
\<close>

theorem roudi_exit_releases:
  assumes "reach (\<lambda>(r, k). \<exists>p. r = roudi_init p) shared_moves (r, k)" "in_accept_loop (at r)"
    "inp = Signal \<or> at r = At_Accept \<and> inp = Interrupted"
    "(cleaning N S)\<^sup>*\<^sup>* (cleanup_calls r, r, k) ([], r', k')"
  shows "fst (roudi_step inp (r, k)) = r'\<lparr>at := Exited 0\<rparr> \<and>
    open_fds r' = client_fds (at r) \<and> mapped r' = [] \<and> (S \<longrightarrow> k_sock k' = None) \<and>
    (\<forall>i \<le> NUM_DATA_SEGMENTS. segment_name i \<in> N \<longrightarrow> k_shm k' (segment_name i) = None)"
proof -
  have inv: "roudi_inv r" using shared_sys.reach_inv [OF assms(1)] by simp
  note loop = loop_cleanup(1,2) [OF inv assms(2), of k] loop_cleanup(3) [OF inv assms(2)]
  from cleaning_inv [OF assms(4)] have r': "r' = fst (cleanup (r, k))"
    and gone: "\<forall>n \<in> N. C_Shm_Unlink n \<in> set (cleanup_calls r) \<longrightarrow> k_shm k' n = None"
    "S \<longrightarrow> C_Unlink_Sock \<in> set (cleanup_calls r) \<longrightarrow> k_sock k' = None"
    by (auto simp: cleanup_is_calls)
  have "roudi_step inp (r, k) = exit_with 0 (r, k)"
    using assms(2,3) by (cases "at r") (auto simp: roudi_step_def halted_def in_accept_loop_def)
  then have "fst (roudi_step inp (r, k)) = r'\<lparr>at := Exited 0\<rparr>"
    using r' by (simp add: exit_with_def case_prod_beta)
  moreover have "C_Shm_Unlink (segment_name i) \<in> set (cleanup_calls r)" if "i \<le> NUM_DATA_SEGMENTS" for i
  proof -
    have "segment_name i \<in> shm_name ` info ` set (g_segments r)" unfolding loop(3) using that by auto
    then show ?thesis by (auto simp: cleanup_calls_def segment_calls_def)
  qed
  moreover have "C_Unlink_Sock \<in> set (cleanup_calls r)" by (simp add: cleanup_calls_def)
  ultimately show ?thesis using r' loop gone by auto
qed

lemma exits_by_call:
  assumes "\<not> halted (at r)" "exited (at (fst (roudi_call inp (r, k))))"
  shows "snd (roudi_call inp (r, k)) = snd (cleanup (r, k))"
proof -
  have client: "\<not> exited (at (handle_client inp r))" if "client_fds (at r) \<noteq> []"
    using that by (cases "at r") (auto simp: handle_client_def refuse_client_def Let_def
        split: roudi_input.splits list.splits)
  show ?thesis
    using assms client
    by (cases "at r") (auto simp: Let_def cleanup_kernel split: prod.splits if_splits)
qed

lemma call_exits:
  assumes "roudi_step inp (r, k) = (r', k')" "\<not> halted (at r)" "exited (at r')"
  shows "k' = snd (cleanup (r, k))"
proof (cases "inp = Signal")
  case True
  then have "exit_with 0 (r, k) = (r', k')" using assms(1,2) by (simp add: roudi_step_def)
  then show ?thesis by (metis exit_with_simps(3) snd_conv)
next
  case False
  then have "roudi_call inp (r, k) = (r', k')" using assms(1,2) by (simp add: roudi_step_def del: roudi_call.simps)
  with exits_by_call [OF assms(2), of inp k] assms(3) show ?thesis by (simp del: roudi_call.simps)
qed

text \<open>
  C20: A run that exits at any other point leaves exactly one name behind when it was between
  opening a segment and entering it into \<open>g_segments\<close>, none otherwise.
\<close>

theorem failed_start_leaks_name:
  assumes "reach (\<lambda>(r, k). (\<exists>p. r = roudi_init p) \<and> fresh_kernel k) roudi_moves (r, k)" "\<not> exited (at r)"
    "roudi_step inp (r, k) = (r', k')" "exited (at r')" "i \<le> NUM_DATA_SEGMENTS"
  shows "(k_shm k' (segment_name i) \<noteq> None) = (opened (at r) \<and> i = created (at r)) \<and> k_sock k' = None"
proof -
  have run: "\<not> halted (at r)"
  proof
    assume "halted (at r)"
    then have "r' = r" using assms(3) by (simp add: roudi_step_def)
    with assms(2,4) show False by simp
  qed
  then have inv: "holds_inv r" and ok: "names_ok (at r) (seg_object r) (pid r) k"
    using solo_sys.reach_inv [OF assms(1)] by (auto simp: roudi_inv_def names_inv_def)
  have "map info (g_segments r) = table (created (at r))" using inv by (simp add: holds_inv_def Let_def)
  note g = names_of_table [OF this]
  have k': "k' = snd (cleanup (r, k))" using call_exits [OF assms(3) run assms(4)] .
  have "created (at r) \<le> Suc NUM_DATA_SEGMENTS"
    using inv by (cases "at r") (simp_all add: holds_inv_def Let_def)
  then have "segment_name i \<in> segment_name ` {..<created (at r)} \<longleftrightarrow> i < created (at r)"
    using segment_name_inj [OF assms(5)] by (force simp: image_iff)
  then show ?thesis using ok assms(5) by (auto simp: k' cleanup_kernel g restrict_map_def names_ok_def)
qed

lemma transfer_of_table: "getSegmentsFromRoudi (\<lambda>req. handleClient req (table (Suc NUM_DATA_SEGMENTS))) = Inr (table (Suc NUM_DATA_SEGMENTS))"
  by code_simp

text \<open>
  Every client that asked and for which no \<open>write\<close> was cut short was sent bytes from which it
  reads the whole table of five segments, the control segment first.
\<close>

theorem clients_receive_table:
  assumes "reach (\<lambda>(r, k). \<exists>p. r = roudi_init p) shared_moves (r, k)" "(True, bs) \<in> set (sent r)"
  shows "getSegmentsFromRoudi (\<lambda>req. bs) = Inr (table (Suc NUM_DATA_SEGMENTS)) \<and>
    findControlSegment (table (Suc NUM_DATA_SEGMENTS)) = Some control_segment"
proof -
  have "bs = handleClient [REQ_GET_SEGMENTS] (table (Suc NUM_DATA_SEGMENTS))"
    using shared_sys.reach_inv [OF assms(1)] assms(2) by (simp add: roudi_inv_def sent_inv_def)
  with transfer_of_table have "getSegmentsFromRoudi (\<lambda>req. bs) = Inr (table (Suc NUM_DATA_SEGMENTS))"
    by (simp add: getSegmentsFromRoudi_def)
  moreover have "findControlSegment (table (Suc NUM_DATA_SEGMENTS)) = Some control_segment" by code_simp
  ultimately show ?thesis by blast
qed

text \<open>
  C39: A client that closes its end before it has been sent everything ends the daemon: \<open>SIGPIPE\<close> is
  neither handled nor ignored, \<open>cleanup\<close> does not run, and the five names and the socket path
  stay.
\<close>

theorem client_can_kill_daemon:
  assumes "reach (\<lambda>(r, k). (\<exists>p. r = roudi_init p) \<and> fresh_kernel k) roudi_moves (r, k)" "at r = At_Write f j"
    "roudi_step Broken_Pipe (r, k) = (r', k')"
  shows "at r' = Killed \<and> k' = k \<and> k_sock k' = Some (pid r) \<and> (\<forall>i \<le> NUM_DATA_SEGMENTS. k_shm k' (segment_name i) \<noteq> None)"
proof -
  have "names_ok (at r) (seg_object r) (pid r) k"
    using solo_sys.reach_inv [OF assms(1)] assms(2) by (auto simp: names_inv_def)
  moreover have "(r', k') = (r\<lparr>at := Killed\<rparr>, k)"
    using assms(2,3) by (simp add: roudi_step_def halted_def handle_client_def Let_def)
  ultimately show ?thesis using assms(2) by (auto simp: names_ok_def less_Suc_eq_le)
qed

section \<open>Starting\<close>

definition roudi_run :: "roudi_input list \<Rightarrow> roudi \<times> kernel \<Rightarrow> roudi \<times> kernel" where
  "roudi_run inps rk = fold roudi_step inps rk"

fun calls_left :: "roudi_pc \<Rightarrow> nat" where
  "calls_left (At_Unlink i) = 6 * (NUM_DATA_SEGMENTS - i) + 10"
| "calls_left (At_Open i) = 6 * (NUM_DATA_SEGMENTS - i) + 9"
| "calls_left (At_Truncate i) = 6 * (NUM_DATA_SEGMENTS - i) + 8"
| "calls_left (At_Map i) = 6 * (NUM_DATA_SEGMENTS - i) + 7"
| "calls_left (At_Memset i) = 6 * (NUM_DATA_SEGMENTS - i) + 6"
| "calls_left (At_Push i) = 6 * (NUM_DATA_SEGMENTS - i) + 5"
| "calls_left At_Sock_Unlink = 4"
| "calls_left At_Socket = 3"
| "calls_left At_Bind = 2"
| "calls_left At_Listen = 1"
| "calls_left p = 0"

fun good :: "roudi_input \<Rightarrow> bool" where
  "good (Ret n) = (0 < n)"
| "good inp = False"

definition starting :: "roudi_pc \<Rightarrow> bool" where
  "starting p \<longleftrightarrow> \<not> halted p \<and> client_fds p = []"

lemma good_step:
  assumes "good inp" "calls_left (at (fst rk)) = Suc n" "roudi_inv (fst rk)"
  shows "calls_left (at (fst (roudi_step inp rk))) = n \<and> pid (fst (roudi_step inp rk)) = pid (fst rk) \<and>
    starting (at (fst (roudi_step inp rk)))"
proof -
  obtain r k m where [simp]: "rk = (r, k)" "inp = Ret m" and m: "0 < m"
    using assms(1) by (cases rk; cases inp) auto
  have "\<not> halted (at r)" using assms(2) by (cases "at r") (auto simp: halted_def)
  then have "holds_inv r" using assms(3) by (simp add: roudi_inv_def)
  then show ?thesis using assms(2) m \<open>\<not> halted (at r)\<close>
    by (cases "at r") (auto simp: roudi_step_def starting_def holds_inv_def Let_def split: prod.splits)
qed

lemma run_names: "roudi_inv (fst rk) \<Longrightarrow> names_inv rk \<Longrightarrow> names_inv (roudi_run inps rk)"
  unfolding roudi_run_def
  by (induction inps arbitrary: rk) (simp, metis fold_simps(2) names_step prod.collapse roudi_step_inv)

lemma good_run:
  "\<lbrakk>list_all good inps; length inps = calls_left (at (fst rk)); roudi_inv (fst rk); starting (at (fst rk))\<rbrakk>
   \<Longrightarrow> at (fst (roudi_run inps rk)) = At_Accept \<and> pid (fst (roudi_run inps rk)) = pid (fst rk)"
proof (induction inps arbitrary: rk)
  case Nil
  then show ?case by (cases "at (fst rk)") (auto simp: roudi_run_def starting_def)
next
  case (Cons inp inps)
  let ?rk = "roudi_step inp rk"
  have "calls_left (at (fst ?rk)) = length inps \<and> pid (fst ?rk) = pid (fst rk) \<and> starting (at (fst ?rk))"
    using good_step [of inp rk "length inps"] Cons.prems by simp
  moreover have "roudi_inv (fst ?rk)"
    using Cons.prems(3) roudi_step_inv by (metis prod.collapse)
  ultimately show ?case using Cons.IH [of ?rk] Cons.prems(1) by (simp add: roudi_run_def)
qed

lemma good_start:
  "list_all good inps \<Longrightarrow> length inps = 34 \<Longrightarrow> roudi_run inps (roudi_init p, k) = (r, k') \<Longrightarrow>
   at r = At_Accept \<and> pid r = p"
  using good_run [of inps "(roudi_init p, k)"] init_inv [of p]
  by (simp add: roudi_init_def starting_def NUM_DATA_SEGMENTS_def)

text \<open>
  When no call fails the daemon is in its loop after 34 calls, its five segments exist under
  their names and hold zeros only, and the socket path is its own.
\<close>

theorem roudi_starts:
  assumes "fresh_kernel k" "list_all good inps" "length inps = 34" "roudi_run inps (roudi_init p, k) = (r, k')"
  shows "at r = At_Accept \<and> k_sock k' = Some p \<and> (\<forall>i \<le> NUM_DATA_SEGMENTS. zero_segment k' i)"
proof -
  have "at r = At_Accept \<and> pid r = p" "names_inv (r, k')"
    using good_start [OF assms(2,3,4)] run_names [of "(roudi_init p, k)" inps] init_inv init_names [OF assms(1)] assms(4)
    by simp_all
  then show ?thesis by (auto simp: names_inv_def names_ok_def less_Suc_eq_le)
qed

theorem roudi_starts_witness:
  "at (fst (roudi_run (replicate 34 (Ret 3)) (roudi_init 1, empty_kernel))) = At_Accept"
  using roudi_starts [of empty_kernel "replicate 34 (Ret 3)" 1] empty_kernel_fresh
  by (metis good.simps(1) length_replicate list_all_length nth_replicate prod.collapse zero_less_numeral)

lemma reach_fold:
  assumes "\<And>s x. R s (f x s)"
  shows "reach I R s \<Longrightarrow> reach I R (fold f xs s)"
  by (induction xs arbitrary: s) (auto intro: reach_step assms)

lemma run_reaches_shared:
  "reach (\<lambda>(r, k). \<exists>p. r = roudi_init p) shared_moves rk \<Longrightarrow>
   reach (\<lambda>(r, k). \<exists>p. r = roudi_init p) shared_moves (roudi_run inps rk)"
  unfolding roudi_run_def by (rule reach_fold) (rule shared_own)

lemma run_reaches_solo:
  "reach (\<lambda>(r, k). (\<exists>p. r = roudi_init p) \<and> fresh_kernel k) roudi_moves rk \<Longrightarrow>
   reach (\<lambda>(r, k). (\<exists>p. r = roudi_init p) \<and> fresh_kernel k) roudi_moves (roudi_run inps rk)"
  unfolding roudi_run_def by (rule reach_fold) (rule own)

lemma started: "at (fst (roudi_run (replicate 34 (Ret 3)) (roudi_init p, empty_kernel))) = At_Accept"
  using good_start [of "replicate 34 (Ret 3)" p empty_kernel] by (cases "roudi_run (replicate 34 (Ret 3)) (roudi_init p, empty_kernel)") (simp add: list_all_length)

lemma cleaning_alone: "(cleaning N S)\<^sup>*\<^sup>* (cs, rk) ([], fold cleanup_exec cs rk)"
proof (induction cs arbitrary: rk)
  case (Cons c cs)
  show ?case using converse_rtranclp_into_rtranclp [OF clean_call Cons.IH] by (simp only: fold_simps)
qed simp

text \<open>A client has connected and asked.\<close>

lemma asked:
  assumes "roudi_run (replicate 34 (Ret 3)) (roudi_init p, empty_kernel) = (r, k)"
  shows "roudi_run (replicate 34 (Ret 3) @ [Ret 9, Data [1]]) (roudi_init p, empty_kernel) =
    (handle_client (Data [1]) (r\<lparr>open_fds := 9 # open_fds r, at := At_Read 9\<rparr>), k)"
    "at (handle_client (Data [1]) (r\<lparr>open_fds := 9 # open_fds r, at := At_Read 9\<rparr>)) = At_Write 9 0"
    "reply (handle_client (Data [1]) (r\<lparr>open_fds := 9 # open_fds r, at := At_Read 9\<rparr>)) = Some (True, [])"
proof -
  have "at r = At_Accept" using started [of p] assms by simp
  then show "roudi_run (replicate 34 (Ret 3) @ [Ret 9, Data [1]]) (roudi_init p, empty_kernel) =
    (handle_client (Data [1]) (r\<lparr>open_fds := 9 # open_fds r, at := At_Read 9\<rparr>), k)"
    using assms by (simp add: roudi_run_def roudi_step_def halted_def Let_def)
  show "at (handle_client (Data [1]) (r\<lparr>open_fds := 9 # open_fds r, at := At_Read 9\<rparr>)) = At_Write 9 0"
    "reply (handle_client (Data [1]) (r\<lparr>open_fds := 9 # open_fds r, at := At_Read 9\<rparr>)) = Some (True, [])"
    by (simp_all add: handle_client_def REQ_GET_SEGMENTS_def Let_def)
qed

definition asked_run :: "roudi \<times> kernel" where
  "asked_run = roudi_run (replicate 34 (Ret 3) @ [Ret 9, Data [1]]) (roudi_init 1, empty_kernel)"

lemma asked_run_at: "at (fst asked_run) = At_Write 9 0" "reply (fst asked_run) = Some (True, [])"
  using asked [of 1] unfolding asked_run_def
  by (cases "roudi_run (replicate 34 (Ret 3)) (roudi_init 1, empty_kernel)", simp)+

lemma asked_run_shared: "reach (\<lambda>(r, k). \<exists>p. r = roudi_init p) shared_moves (fst asked_run, snd asked_run)"
  unfolding asked_run_def prod.collapse by (rule run_reaches_shared, rule reach_init) auto

theorem roudi_exit_releases_witness:
  "\<exists>r k r' k'. at r = At_Write 9 0 \<and> (cleaning UNIV True)\<^sup>*\<^sup>* (cleanup_calls r, r, k) ([], r', k') \<and>
     open_fds r' = [9] \<and> mapped r' = [] \<and> k_sock k' = None \<and> k_shm k' (segment_name 4) = None"
proof -
  let ?r = "fst asked_run" and ?k = "snd asked_run"
  obtain r' k' where run: "(cleaning UNIV True)\<^sup>*\<^sup>* (cleanup_calls ?r, ?r, ?k) ([], r', k')"
    using cleaning_alone by (metis prod.collapse)
  have "in_accept_loop (at ?r)" by (simp add: asked_run_at in_accept_loop_def)
  from roudi_exit_releases [OF asked_run_shared this _ run, of Signal]
  have "open_fds r' = [9]" "mapped r' = []" "k_sock k' = None" "k_shm k' (segment_name 4) = None"
    by (simp_all add: asked_run_at NUM_DATA_SEGMENTS_def)
  then show ?thesis using run asked_run_at(1) by blast
qed

theorem client_can_kill_daemon_witness:
  "\<exists>r k r' k'. at r = At_Write 9 0 \<and> roudi_step Broken_Pipe (r, k) = (r', k') \<and> at r' = Killed \<and>
     k_shm k' (segment_name 0) \<noteq> None"
proof -
  have r: "reach (\<lambda>(r, k). (\<exists>p. r = roudi_init p) \<and> fresh_kernel k) roudi_moves (fst asked_run, snd asked_run)"
    unfolding asked_run_def prod.collapse
    by (rule run_reaches_solo, rule reach_init) (auto simp: empty_kernel_fresh)
  obtain r' k' where "roudi_step Broken_Pipe (fst asked_run, snd asked_run) = (r', k')" by fastforce
  with client_can_kill_daemon [OF r asked_run_at(1) this] asked_run_at(1) show ?thesis by blast
qed

theorem failed_start_leaks_name_witness:
  "\<exists>k. snd (roudi_run [Ret 3, Ret 3, Ret (- 1)] (roudi_init 1, empty_kernel)) = k \<and> k_shm k (segment_name 0) \<noteq> None"
proof -
  let ?rk = "roudi_run [Ret 3, Ret 3] (roudi_init 1, empty_kernel)"
  have "reach (\<lambda>(r, k). (\<exists>p. r = roudi_init p) \<and> fresh_kernel k) roudi_moves ?rk"
    by (rule run_reaches_solo, rule reach_init) (auto simp: empty_kernel_fresh)
  moreover have "at (fst ?rk) = At_Truncate 0" "at (fst (roudi_step (Ret (- 1)) ?rk)) = Exited 1"
    by code_simp+
  ultimately have "k_shm (snd (roudi_step (Ret (- 1)) ?rk)) (segment_name 0) \<noteq> None"
    using failed_start_leaks_name [of "fst ?rk" "snd ?rk" "Ret (- 1)" _ _ 0]
    by (metis created.simps(3) exited.simps(1,4) le0 opened.simps(1) prod.collapse)
  then show ?thesis by (simp add: roudi_run_def)
qed

text \<open>Every write takes all of its bytes, then the descriptor is closed.\<close>

lemma closed_reply:
  "at u = At_Close f \<Longrightarrow> reply u = Some x \<Longrightarrow> x \<in> set (sent (handle_client inp u))"
  by (simp add: handle_client_def close_fd_def Let_def)

lemma whole_reply:
  "at r = At_Write f j \<Longrightarrow> reply r = Some (True, bs) \<Longrightarrow> d = length (g_segments r) - j \<Longrightarrow>
   \<exists>inps r' bs'. roudi_run inps (r, k) = (r', k) \<and> (True, bs') \<in> set (sent r')"
proof (induction d arbitrary: r j bs)
  case 0
  let ?inp = "Ret (int (length (reply_chunks (map info (g_segments r)) ! j)))"
  let ?u = "handle_client ?inp r"
  have "at ?u = At_Close f" "\<exists>bs'. reply ?u = Some (True, bs')"
    using 0 by (simp_all add: handle_client_def Let_def)
  then have "\<exists>bs'. (True, bs') \<in> set (sent (handle_client (Ret 0) ?u))"
    using closed_reply by blast
  moreover have "roudi_run [?inp, Ret 0] (r, k) = (handle_client (Ret 0) ?u, k)"
    using 0(1) \<open>at ?u = At_Close f\<close> by (simp add: roudi_run_def roudi_step_def halted_def Let_def)
  ultimately show ?case by blast
next
  case (Suc d)
  let ?inp = "Ret (int (length (reply_chunks (map info (g_segments r)) ! j)))"
  let ?u = "handle_client ?inp r"
  have "at ?u = At_Write f (Suc j)" "\<exists>bs'. reply ?u = Some (True, bs')" "d = length (g_segments ?u) - Suc j"
    using Suc.prems by (simp_all add: handle_client_def Let_def)
  with Suc.IH obtain inps r' bs' where "roudi_run inps (?u, k) = (r', k)" "(True, bs') \<in> set (sent r')" by blast
  moreover have "roudi_run (?inp # inps) (r, k) = roudi_run inps (?u, k)"
    using Suc.prems(1) by (simp add: roudi_run_def roudi_step_def halted_def Let_def)
  ultimately show ?case by metis
qed

theorem clients_receive_table_witness:
  "\<exists>inps bs. (True, bs) \<in> set (sent (fst (roudi_run inps asked_run))) \<and>
     getSegmentsFromRoudi (\<lambda>req. bs) = Inr (table (Suc NUM_DATA_SEGMENTS))"
proof -
  obtain inps r' bs where run: "roudi_run inps (fst asked_run, snd asked_run) = (r', snd asked_run)" "(True, bs) \<in> set (sent r')"
    using whole_reply [OF asked_run_at refl] by blast
  from run_reaches_shared [OF asked_run_shared, of inps] run(1)
  have "reach (\<lambda>(r, k). \<exists>p. r = roudi_init p) shared_moves (r', snd asked_run)" by simp
  from clients_receive_table [OF this run(2)] run show ?thesis by (metis fst_conv prod.collapse)
qed

section \<open>Two daemons\<close>

text \<open>A second daemon is started while the first is serving; the first is then stopped.\<close>

definition two_daemons :: "roudi_input list \<Rightarrow> roudi_input list \<Rightarrow> kernel \<Rightarrow> roudi \<times> roudi \<times> kernel" where
  "two_daemons inps1 inps2 k0 =
     (let (r1, k1) = roudi_run inps1 (roudi_init 1, k0);
          (r2, k2) = roudi_run inps2 (roudi_init 2, k1);
          (r1', k3) = roudi_step Signal (r1, k2)
      in (r1', r2, k3))"

text \<open>
  Stopping the first takes the names and the socket path away from the second, which goes on
  serving at a path that no client can reach.
\<close>

theorem stopped_daemon_unlinks_other:
  assumes "list_all good inps1" "length inps1 = 34" "list_all good inps2" "length inps2 = 34"
    "two_daemons inps1 inps2 k0 = (r1, r2, k)"
  shows "at r1 = Exited 0 \<and> at r2 = At_Accept \<and> k_sock k = None \<and> (\<forall>i \<le> NUM_DATA_SEGMENTS. k_shm k (segment_name i) = None)"
proof -
  obtain r1a k1 where one: "roudi_run inps1 (roudi_init 1, k0) = (r1a, k1)" by fastforce
  obtain k2 where two: "roudi_run inps2 (roudi_init 2, k1) = (r2, k2)" "roudi_step Signal (r1a, k2) = (r1, k)"
    using assms(5) one by (auto simp: two_daemons_def split: prod.splits)
  have "at r1a = At_Accept" "at r2 = At_Accept"
    using good_start [OF assms(1,2) one] good_start [OF assms(3,4) two(1)] by simp_all
  moreover have "reach (\<lambda>(r, k). \<exists>p. r = roudi_init p) shared_moves (r1a, k1)"
    using run_reaches_shared [OF reach_init, of "(roudi_init 1, k0)" inps1] one by auto
  then have "roudi_inv r1a" using shared_sys.reach_inv by fastforce
  ultimately show ?thesis using loop_exit [OF _ _ _ two(2)] by blast
qed

theorem stopped_daemon_unlinks_other_witness:
  "k_sock (snd (snd (two_daemons (replicate 34 (Ret 3)) (replicate 34 (Ret 3)) empty_kernel))) = None"
  using stopped_daemon_unlinks_other [of "replicate 34 (Ret 3)" "replicate 34 (Ret 3)" empty_kernel]
  by (metis good.simps(1) length_replicate list_all_length nth_replicate prod.collapse zero_less_numeral)

end
