(* ===== verification/Timers.thy ===== *)
theory Timers
  imports Prelude
begin

text \<open>
  The timer programs of \<open>src/boost_test/asio\<close>: \<open>002.time.async\<close> (one wait),
  \<open>003.time.bind_param\<close> (a function that starts the next wait) and
  \<open>004.time.bind_member_function\<close> (the same as a class). \<open>io_context::run\<close> calls the handler of
  the pending wait with the result of the wait, and returns when nothing is pending; the
  results, an error message or none, are the argument.
\<close>

section \<open>The loop\<close>

type_synonym wait_result = "string option"

record timer_state =
  expiry :: nat
  pending :: bool
  t_count :: nat
  t_out :: console

fun io_run :: "(wait_result \<Rightarrow> timer_state \<Rightarrow> timer_state) \<Rightarrow> wait_result list \<Rightarrow> timer_state \<Rightarrow> timer_state option" where
  "io_run handler [] s = (if pending s then None else Some s)"
| "io_run handler (r # rs) s =
     (if pending s then io_run handler rs (handler r (s\<lparr>pending := False\<rparr>)) else Some s)"

text \<open>\<open>steady_timer t(io, seconds(n))\<close> followed by \<open>async_wait\<close>, at time \<open>now\<close>.\<close>

definition start_timer :: "nat \<Rightarrow> nat \<Rightarrow> timer_state" where
  "start_timer now n = \<lparr>expiry = now + n, pending = True, t_count = 0, t_out = []\<rparr>"

text \<open>\<open>expires_at(expiry() + seconds(1)); async_wait(...)\<close>\<close>

definition wait_again :: "timer_state \<Rightarrow> timer_state" where
  "wait_again s = s\<lparr>expiry := expiry s + 1, pending := True\<rparr>"

section \<open>The programs\<close>

text \<open>\<open>002\<close>: the handler; the time it reads is an argument, in milliseconds since \<open>start\<close>.\<close>

definition once_handler :: "nat \<Rightarrow> wait_result \<Rightarrow> timer_state \<Rightarrow> timer_state" where
  "once_handler duration error s =
     s\<lparr>t_out := t_out s @ [case error of Some msg \<Rightarrow> ''error: '' @ msg | None \<Rightarrow> ''timer fired'',
                          ''elapsed: '' @ show_nat duration @ '' ms'']\<rparr>"

definition once_main :: "nat \<Rightarrow> nat \<Rightarrow> wait_result list \<Rightarrow> console option" where
  "once_main now duration rs =
     map_option (\<lambda>s. t_out s @ [''io.run() ended''])
       (io_run (once_handler duration) rs ((start_timer now 5)\<lparr>t_out := [''waiting'']\<rparr>))"

text \<open>\<open>003\<close>: \<open>print\<close> ignores the error code.\<close>

definition print_count :: "timer_state \<Rightarrow> timer_state" where
  "print_count s = s\<lparr>t_out := t_out s @ [show_nat (t_count s)], t_count := Suc (t_count s)\<rparr>"

definition bind_print :: "wait_result \<Rightarrow> timer_state \<Rightarrow> timer_state" where
  "bind_print e s = (if t_count s < 5 then wait_again (print_count s) else s)"

definition test_bind_param :: "('d \<Rightarrow> string) \<Rightarrow> string \<Rightarrow> int \<Rightarrow> 'd \<Rightarrow> string" where
  "test_bind_param show_double str i d = ''str: '' @ str @ '', i: '' @ to_string i @ '', d: '' @ show_double d"

definition final_line :: "nat \<Rightarrow> string" where
  "final_line n = ''Final count is '' @ show_nat n"

definition bind_main :: "('d \<Rightarrow> string) \<Rightarrow> 'd \<Rightarrow> nat \<Rightarrow> wait_result list \<Rightarrow> console option" where
  "bind_main show_double two now rs =
     map_option (\<lambda>s. t_out s @ [final_line (t_count s), test_bind_param show_double ''hello'' 1 two])
       (io_run bind_print rs (start_timer now 1))"

text \<open>\<open>004\<close>: the member function returns on an error.\<close>

definition printer_print :: "wait_result \<Rightarrow> timer_state \<Rightarrow> timer_state" where
  "printer_print ec s = (case ec of
     Some msg \<Rightarrow> s\<lparr>t_out := t_out s @ [''Error: '' @ msg]\<rparr>
   | None \<Rightarrow> if t_count s < 5 then wait_again (print_count s) else s)"

text \<open>The destructor of \<open>p\<close> prints the last line.\<close>

definition printer_main :: "nat \<Rightarrow> wait_result list \<Rightarrow> console option" where
  "printer_main now rs =
     map_option (\<lambda>s. t_out s @ [final_line (t_count s)]) (io_run printer_print rs (start_timer now 1))"

section \<open>Properties\<close>

lemmas timer_defs = start_timer_def wait_again_def print_count_def

lemma idle_run [simp]: "\<not> pending s \<Longrightarrow> io_run h rs s = Some s"
  by (cases rs) simp_all

lemma bind_print_eq: "bind_print e s = (if t_count s < 5 then wait_again (print_count s) else s)"
  by (simp add: bind_print_def)

lemma bind_run:
  "\<lbrakk>pending s; t_count s \<le> 5\<rbrakk> \<Longrightarrow> io_run bind_print rs s =
     (if length rs < 6 - t_count s then None
      else Some (s\<lparr>pending := False, t_count := 5, expiry := expiry s + (5 - t_count s),
                  t_out := t_out s @ map show_nat [t_count s..<5]\<rparr>))"
proof (induction rs arbitrary: s)
  case Nil
  then show ?case by simp
next
  case (Cons r rs)
  let ?t = "bind_print r (s\<lparr>pending := False\<rparr>)"
  show ?case
  proof (cases "t_count s < 5")
    case True
    then have "pending ?t" "t_count ?t = Suc (t_count s)" "expiry ?t = expiry s + 1"
      "t_out ?t = t_out s @ [show_nat (t_count s)]" "?t = s\<lparr>pending := True, t_count := Suc (t_count s), expiry := expiry s + 1, t_out := t_out s @ [show_nat (t_count s)]\<rparr>"
      by (simp_all add: bind_print_def timer_defs)
    with Cons.IH [of ?t] Cons.prems True show ?thesis
      by (auto simp: upt_conv_Cons)
  next
    case False
    with Cons.prems show ?thesis by (simp add: bind_print_def)
  qed
qed

text \<open>
  The program of \<open>003\<close> ends after exactly six waits, whatever their results are: it prints 0 to
  4 and the final count 5; with fewer waits completed it is still in \<open>run\<close>.
\<close>

theorem bind_param_counts_to_five:
  "bind_main show_double two now rs =
     (if length rs < 6 then None
      else Some ([''0'', ''1'', ''2'', ''3'', ''4'', ''Final count is 5'',
                  ''str: hello, i: 1, d: '' @ show_double two]))"
proof -
  have digits: "map show_nat [0..<5] = [''0'', ''1'', ''2'', ''3'', ''4'']" "final_line 5 = ''Final count is 5''"
    "to_string 1 = ''1''"
    by code_simp+
  show ?thesis
    using bind_run [of "start_timer now 1" rs] digits
    by (simp add: bind_main_def timer_defs test_bind_param_def del: upt.simps)
qed

lemma printer_run:
  "\<lbrakk>pending s; t_count s \<le> 5; list_all ((=) None) rs\<rbrakk> \<Longrightarrow> io_run printer_print rs s = io_run bind_print rs s"
proof (induction rs arbitrary: s)
  case (Cons r rs)
  let ?t = "bind_print None (s\<lparr>pending := False\<rparr>)"
  have r: "r = None" and rs: "list_all ((=) None) rs" using Cons.prems(3) by auto
  have eq: "printer_print None (s\<lparr>pending := False\<rparr>) = ?t"
    by (simp add: printer_print_def bind_print_def)
  have "io_run printer_print rs ?t = io_run bind_print rs ?t"
  proof (cases "t_count s < 5")
    case True
    then show ?thesis using Cons.IH [of ?t] Cons.prems(1) rs
      by (simp add: bind_print_eq [of None "s\<lparr>pending := False\<rparr>"] timer_defs)
  qed (simp add: bind_print_eq [of None "s\<lparr>pending := False\<rparr>"])
  then show ?case using Cons.prems(1) by (simp add: r eq)
qed simp

text \<open>
  The programs of \<open>003\<close> and \<open>004\<close> behave alike as long as no wait fails.
\<close>

theorem printer_equals_bind:
  assumes "list_all ((=) None) rs"
  shows "map_option (\<lambda>out. out @ [test_bind_param show_double ''hello'' 1 two]) (printer_main now rs) =
    bind_main show_double two now rs"
  using printer_run [of "start_timer now 1" rs] assms
  by (simp add: printer_main_def bind_main_def option.map_comp comp_def start_timer_def)

theorem printer_equals_bind_witness:
  "printer_main 0 [None, None, None, None, None, None] =
     Some [''0'', ''1'', ''2'', ''3'', ''4'', ''Final count is 5'']"
proof -
  have "map_option (\<lambda>out. out @ [''str: hello, i: 1, d: 2'']) (printer_main 0 (replicate 6 None)) =
      Some [''0'', ''1'', ''2'', ''3'', ''4'', ''Final count is 5'', ''str: hello, i: 1, d: 2'']"
    using printer_equals_bind [of "replicate 6 None" "\<lambda>s. s" "''2''" 0] by code_simp
  then show ?thesis by (auto simp: eval_nat_numeral)
qed

lemma printer_error_run:
  "\<lbrakk>pending s; t_count s + length oks \<le> 5; list_all ((=) None) oks\<rbrakk> \<Longrightarrow>
   map_option (\<lambda>t. (t_out t, t_count t)) (io_run printer_print (oks @ Some msg # rest) s) =
     Some (t_out s @ map show_nat [t_count s..<t_count s + length oks] @ [''Error: '' @ msg], t_count s + length oks)"
proof (induction oks arbitrary: s)
  case Nil
  then show ?case by (simp add: printer_print_def)
next
  case (Cons r oks)
  let ?t = "wait_again (print_count (s\<lparr>pending := False\<rparr>))"
  have r: "r = None" and "t_count s < 5" using Cons.prems by auto
  then have t: "printer_print None (s\<lparr>pending := False\<rparr>) = ?t" by (simp add: printer_print_def)
  have "pending ?t" "t_count ?t = Suc (t_count s)" "t_out ?t = t_out s @ [show_nat (t_count s)]"
    by (simp_all add: timer_defs)
  with Cons.IH [of ?t] Cons.prems show ?case
    by (simp add: r t upt_conv_Cons del: upt_Suc map_option_eq_Some)
qed

text \<open>
  In \<open>004\<close> the first failed wait, if it comes before the sixth, ends the program: it prints as
  many numbers as waits succeeded before it, then the error.
\<close>

theorem printer_stops_on_error:
  assumes "length oks \<le> 5" "list_all ((=) None) oks"
  shows "printer_main now (oks @ Some msg # rest) =
    Some (map show_nat [0..<length oks] @ [''Error: '' @ msg, final_line (length oks)])"
  using printer_error_run [of "start_timer now 1" oks msg rest] assms
  by (auto simp: printer_main_def start_timer_def)

theorem printer_stops_on_error_witness:
  "printer_main 0 ([None, None] @ Some ''cancelled'' # []) = Some [''0'', ''1'', ''Error: cancelled'', ''Final count is 2'']"
  using printer_stops_on_error [of "[None, None]" 0 "''cancelled''" "[]"] by (simp, code_simp)

end
