(* ===== verification/Iox_Demos.thy ===== *)
theory Iox_Demos
  imports Wait_Set
begin

text \<open>
  Three programs of \<open>src/cpp_test/iceoryx\<close>: \<open>010.spin_semaphore\<close>, two threads ordered by a
  semaphore; \<open>015.bump_allocator\<close>, a loop that allocates until the memory is used up; and
  \<open>012.expected_nullopt\<close>, chained calls on \<open>std::expected\<close>. The semaphore and the allocator are
  iceoryx code: arguments, with \<open>sem_laws\<close> and \<open>bump_laws\<close>.
\<close>

section \<open>Spin semaphore (010)\<close>

datatype post_pc = Post_Expects | Post_Store | Post_Post | Post_Over

datatype wait_pc = Wait_Wait | Wait_Ensures | Wait_Sub | Wait_Over

text \<open>
  \<open>spin_end\<close>: \<open>None\<close> while \<open>main\<close> joins, else whether it returned; a failed \<open>Expects\<close> or \<open>Ensures\<close>
  and an access to an empty \<open>optional\<close> terminate the process.
\<close>

record 'm spin =
  g_spin_semaphore :: "'m option"
  g_count :: int
  poster :: post_pc
  waiter :: wait_pc
  spin_out :: console
  spin_end :: "bool option"

datatype spin_thread = T_Post | T_Wait | T_Main

definition contract :: "bool \<Rightarrow> 'm spin \<Rightarrow> 'm spin" where
  "contract c s = (if c then s else s\<lparr>spin_end := Some False\<rparr>)"

definition print_line :: "string \<Rightarrow> 'm spin \<Rightarrow> 'm spin" where
  "print_line line s = s\<lparr>spin_out := spin_out s @ [line]\<rparr>"

text \<open>\<open>err\<close>: the error the call on the semaphore returns, if any.\<close>

definition post_spin_semaphore :: "'m sem_ops \<Rightarrow> int option \<Rightarrow> 'm spin \<Rightarrow> 'm spin option" where
  "post_spin_semaphore so err s = (case poster s of
     Post_Expects \<Rightarrow> Some (contract (g_count s = 0) (s\<lparr>poster := Post_Store\<rparr>))
   | Post_Store \<Rightarrow> Some (s\<lparr>g_count := 10, poster := Post_Post\<rparr>)
   | Post_Post \<Rightarrow>
       (case g_spin_semaphore s of
          None \<Rightarrow> Some (contract False s)
        | Some m \<Rightarrow> Some (case err of
            None \<Rightarrow> print_line ''post spin semaphore success''
                      (s\<lparr>g_spin_semaphore := Some (sem_post so m), poster := Post_Over\<rparr>)
          | Some e \<Rightarrow> print_line (''post spin semaphore failed: '' @ to_string e) (s\<lparr>poster := Post_Over\<rparr>)))
   | Post_Over \<Rightarrow> None)"

definition wait_spin_semaphore :: "'m sem_ops \<Rightarrow> int option \<Rightarrow> 'm spin \<Rightarrow> 'm spin option" where
  "wait_spin_semaphore so err s = (case waiter s of
     Wait_Wait \<Rightarrow>
       (case g_spin_semaphore s of
          None \<Rightarrow> Some (contract False s)
        | Some m \<Rightarrow> (case err of
            None \<Rightarrow> map_option (\<lambda>m'. print_line ''wait spin semaphore success''
                (s\<lparr>g_spin_semaphore := Some m', waiter := Wait_Ensures\<rparr>)) (sem_take so m)
          | Some e \<Rightarrow> Some (print_line (''wait spin semaphore failed: '' @ to_string e) (s\<lparr>waiter := Wait_Ensures\<rparr>))))
   | Wait_Ensures \<Rightarrow> Some (contract (g_count s = 10) (s\<lparr>waiter := Wait_Sub\<rparr>))
   | Wait_Sub \<Rightarrow> Some (s\<lparr>g_count := g_count s - 1, waiter := Wait_Over\<rparr>)
   | Wait_Over \<Rightarrow> None)"

text \<open>The two joins of \<open>main\<close>, then the last lines.\<close>

definition spin_join :: "'m spin \<Rightarrow> 'm spin option" where
  "spin_join s = (if poster s = Post_Over \<and> waiter s = Wait_Over
     then Some (contract (g_count s = 9) (print_line (''g_count: '' @ to_string (g_count s)) (s\<lparr>spin_end := Some True\<rparr>)))
     else None)"

fun spin_step :: "'m sem_ops \<Rightarrow> spin_thread \<times> int option \<Rightarrow> 'm spin \<Rightarrow> 'm spin option" where
  "spin_step so (t, err) s = (if spin_end s \<noteq> None then None else (case t of
     T_Post \<Rightarrow> post_spin_semaphore so err s
   | T_Wait \<Rightarrow> wait_spin_semaphore so err s
   | T_Main \<Rightarrow> spin_join s))"

definition spin_main :: "'m option \<Rightarrow> int \<Rightarrow> 'm spin" where
  "spin_main sem e =
     \<lparr>g_spin_semaphore = sem, g_count = 0, poster = Post_Expects, waiter = Wait_Wait,
      spin_out = [case sem of Some m \<Rightarrow> ''create spin semaphore success''
                  | None \<Rightarrow> ''create spin semaphore failed: '' @ to_string e],
      spin_end = None\<rparr>"

inductive spin_moves :: "'m sem_ops \<Rightarrow> 'm spin \<Rightarrow> 'm spin \<Rightarrow> bool" for so where
  spin_moves: "spin_step so (t, None) s = Some s' \<Longrightarrow> spin_moves so s s'"

definition spin_inv :: "'m sem_ops \<Rightarrow> 'm spin \<Rightarrow> bool" where
  "spin_inv so s \<longleftrightarrow> spin_end s \<noteq> Some False \<and>
     g_count s = (if waiter s = Wait_Over then 9 else if poster s = Post_Expects \<or> poster s = Post_Store then 0 else 10) \<and>
     (waiter s = Wait_Wait \<or> poster s = Post_Over) \<and>
     (spin_end s = Some True \<longrightarrow> poster s = Post_Over \<and> waiter s = Wait_Over) \<and>
     (\<exists>m. g_spin_semaphore s = Some m \<and>
        sem_count so m = (if poster s = Post_Over \<and> waiter s = Wait_Wait then 1 else 0))"

definition spin_left :: "'m spin \<Rightarrow> nat" where
  "spin_left s =
     (case poster s of Post_Expects \<Rightarrow> 3 | Post_Store \<Rightarrow> 2 | Post_Post \<Rightarrow> 1 | Post_Over \<Rightarrow> 0) +
     (case waiter s of Wait_Wait \<Rightarrow> 3 | Wait_Ensures \<Rightarrow> 2 | Wait_Sub \<Rightarrow> 1 | Wait_Over \<Rightarrow> 0) +
     (if spin_end s = None then 1 else 0)"

lemma post_inv:
  assumes "sem_laws so" "spin_inv so s" "spin_end s = None" "post_spin_semaphore so None s = Some s'"
  shows "spin_inv so s' \<and> spin_left s = Suc (spin_left s')"
  using assms(2-4) sem_count_post [OF assms(1)]
  by (cases "poster s")
    (auto simp: spin_inv_def spin_left_def post_spin_semaphore_def contract_def print_line_def split: option.splits)

lemma wait_inv:
  assumes "sem_laws so" "spin_inv so s" "spin_end s = None" "wait_spin_semaphore so None s = Some s'"
  shows "spin_inv so s' \<and> spin_left s = Suc (spin_left s')"
proof (cases "waiter s")
  case Wait_Wait
  obtain m where m: "g_spin_semaphore s = Some m"
    "sem_count so m = (if poster s = Post_Over then 1 else 0)"
    using assms(2) Wait_Wait by (auto simp: spin_inv_def)
  then obtain m' where m': "sem_take so m = Some m'" "s' = print_line ''wait spin semaphore success''
      (s\<lparr>g_spin_semaphore := Some m', waiter := Wait_Ensures\<rparr>)"
    using assms(4) Wait_Wait by (auto simp: wait_spin_semaphore_def)
  have "poster s = Post_Over" "sem_count so m' = 0"
    using sem_take_Some [OF assms(1) m'(1)] m(2) by (auto split: if_splits)
  with Wait_Wait assms(2,3) m' show ?thesis by (simp add: spin_inv_def spin_left_def print_line_def)
qed (use assms(2-4) in \<open>auto simp: spin_inv_def spin_left_def wait_spin_semaphore_def contract_def\<close>)

lemma join_inv:
  assumes "spin_inv so s" "spin_end s = None" "spin_join s = Some s'"
  shows "spin_inv so s' \<and> spin_left s = Suc (spin_left s')"
  using assms by (auto simp: spin_inv_def spin_left_def spin_join_def contract_def print_line_def split: if_splits)

lemma spin_step_inv:
  assumes "sem_laws so" "spin_inv so s" "spin_step so (t, None) s = Some s'"
  shows "spin_inv so s' \<and> spin_left s = Suc (spin_left s')"
  using assms post_inv [OF assms(1,2)] wait_inv [OF assms(1,2)] join_inv [OF assms(2)] by (cases t) (auto split: if_splits)

lemma spin_not_stuck:
  assumes "sem_laws so" "spin_inv so s" "spin_end s = None"
  shows "\<exists>t s'. spin_step so (t, None) s = Some s'"
proof (cases "poster s = Post_Over \<and> waiter s \<noteq> Wait_Over")
  case True
  obtain m where m: "g_spin_semaphore s = Some m" "waiter s = Wait_Wait \<Longrightarrow> sem_count so m = 1"
    using assms(2) True by (auto simp: spin_inv_def)
  then have "waiter s = Wait_Wait \<Longrightarrow> \<exists>m'. sem_take so m = Some m'"
    using sem_take_None [OF assms(1), of m] by auto
  with True m assms(3) show ?thesis
    by (intro exI [of _ T_Wait]) (cases "waiter s", auto simp: wait_spin_semaphore_def)
next
  case False
  with assms(2,3) show ?thesis
    by (cases "poster s")
      (auto simp: spin_inv_def post_spin_semaphore_def spin_join_def intro: exI [of _ T_Post] exI [of _ T_Main])
qed

definition spin_start :: "'m sem_ops \<Rightarrow> 'm spin \<Rightarrow> bool" where
  "spin_start so s \<longleftrightarrow> (\<exists>m e. sem_count so m = 0 \<and> s = spin_main (Some m) e)"

lemma spin_system:
  assumes "sem_laws so"
  shows "invariant_system (spin_start so) (spin_moves so) (\<lambda>s. spin_inv so s \<and> spin_left s \<le> 7)"
proof (unfold_locales, goal_cases)
  case (1 s)
  then show ?case by (auto simp: spin_start_def spin_main_def spin_inv_def spin_left_def)
next
  case (2 s t)
  from 2(2,1) spin_step_inv [OF assms, of s _ t] show ?case by (cases rule: spin_moves.cases) auto
qed

text \<open>
  With a semaphore that was created and does not fail, every interleaving keeps the three
  contracts, can always go on until \<open>main\<close> has joined both threads, needs at most seven steps
  for that, and ends with the count 9.
\<close>

theorem spin_demo_keeps_contracts:
  assumes "sem_laws so" "reach (spin_start so) (spin_moves so) s"
  shows "spin_end s \<noteq> Some False \<and> spin_left s \<le> 7 \<and>
    (if spin_end s = None then \<exists>t s'. spin_step so (t, None) s = Some s' \<and> spin_left s' < spin_left s
     else g_count s = 9)"
proof -
  have "spin_inv so s \<and> spin_left s \<le> 7" using spin_system [OF assms(1)] assms(2) by (rule invariant_system.reach_inv)
  then have inv: "spin_inv so s" "spin_left s \<le> 7" by simp_all
  show ?thesis
  proof (cases "spin_end s")
    case None
    with spin_not_stuck [OF assms(1) inv(1)] spin_step_inv [OF assms(1) inv(1)] inv show ?thesis
      by (metis less_Suc_eq option.distinct(1))
  next
    case (Some ended)
    with inv show ?thesis by (cases ended) (auto simp: spin_inv_def)
  qed
qed

theorem spin_demo_keeps_contracts_witness:
  "spin_left (spin_main (Some (0 :: nat)) 0) \<le> 7 \<and> (\<exists>t s'. spin_step nat_sem (t, None) (spin_main (Some 0) 0) = Some s')"
proof -
  have "reach (spin_start nat_sem) (spin_moves nat_sem) (spin_main (Some 0) 0)"
    by (rule reach_init) (auto simp: spin_start_def nat_sem_def)
  from spin_demo_keeps_contracts [OF nat_sem_laws this] show ?thesis by (auto simp: spin_main_def)
qed

text \<open>
  A failure to create the semaphore is printed and not acted on: the first call on it ends the
  process. A failed \<open>wait\<close> is printed too, and the thread goes on to a contract that then
  fails.
\<close>

theorem spin_errors_terminate:
  "map_option spin_end (spin_step so (T_Wait, err) (spin_main None e)) = Some (Some False) \<and>
   map_option spin_end (Option.bind (spin_step so (T_Wait, Some err') (spin_main (Some m) e))
     (spin_step so (T_Wait, None))) = Some (Some False)"
  by (simp add: wait_spin_semaphore_def spin_main_def contract_def print_line_def)

section \<open>Bump allocator (015)\<close>

text \<open>\<open>view\<close>: the first free address and the end of the memory.\<close>

record 'b bump_ops =
  bump_create :: "nat \<Rightarrow> nat \<Rightarrow> 'b"
  bump_allocate :: "nat \<Rightarrow> nat \<Rightarrow> 'b \<Rightarrow> nat option \<times> 'b"
  bump_view :: "'b \<Rightarrow> nat \<times> nat"

definition align_up :: "nat \<Rightarrow> nat \<Rightarrow> nat" where
  "align_up a x = (x + (a - 1)) div a * a"

definition bump_laws :: "'b bump_ops \<Rightarrow> bool" where
  "bump_laws bo \<longleftrightarrow>
     (\<forall>base n. bump_view bo (bump_create bo base n) = (base, base + n)) \<and>
     (\<forall>size align b. 0 < size \<longrightarrow> 0 < align \<longrightarrow> (case bump_view bo b of (pos, lim) \<Rightarrow>
        (let p = align_up align pos; (r, b') = bump_allocate bo size align b
         in if p + size \<le> lim then r = Some p \<and> bump_view bo b' = (p + size, lim)
            else r = None \<and> bump_view bo b' = (pos, lim))))"

definition pair_bump :: "(nat \<times> nat) bump_ops" where
  "pair_bump = \<lparr>bump_create = (\<lambda>base n. (base, base + n)),
     bump_allocate = (\<lambda>size align b. let p = align_up align (fst b)
        in if p + size \<le> snd b then (Some p, (p + size, snd b)) else (None, b)),
     bump_view = (\<lambda>b. b)\<rparr>"

lemma pair_bump_laws: "bump_laws pair_bump"
  by (auto simp: bump_laws_def pair_bump_def Let_def split: prod.splits if_splits)

text \<open>The \<open>while\<close> loop on the memory, which holds one number per address; \<open>None\<close> without fuel.\<close>

fun bump_loop :: "nat \<Rightarrow> 'b bump_ops \<Rightarrow> nat option \<Rightarrow> 'b \<Rightarrow> nat \<Rightarrow> (nat \<Rightarrow> nat) \<Rightarrow> (nat \<times> (nat \<Rightarrow> nat)) option" where
  "bump_loop 0 bo allocationResult b num mem = None"
| "bump_loop (Suc fuel) bo allocationResult b num mem = (case allocationResult of
     None \<Rightarrow> Some (num, mem)
   | Some p \<Rightarrow> (case bump_allocate bo 8 8 b of (r, b') \<Rightarrow> bump_loop fuel bo r b' (Suc num) (mem(p := num))))"

definition bump_main :: "nat \<Rightarrow> 'b bump_ops \<Rightarrow> nat \<Rightarrow> nat \<Rightarrow> console option" where
  "bump_main fuel bo memory mem_size =
     (case bump_allocate bo 8 8 (bump_create bo memory mem_size) of (r, b) \<Rightarrow>
        map_option (\<lambda>(num, mem). map (\<lambda>i. show_nat (mem (memory + 8 * i))) [0..<num - 1])
          (bump_loop fuel bo r b 1 (\<lambda>_. 0)))"

lemma align_up_aligned: "8 dvd x \<Longrightarrow> align_up 8 x = x"
  by (auto simp: align_up_def elim!: dvdE)

lemma bump_allocate_aligned:
  assumes "bump_laws bo" "bump_view bo b = (base + 8 * c, base + n)" "8 dvd base" "bump_allocate bo 8 8 b = (r, b')"
  shows "if Suc c \<le> n div 8 then r = Some (base + 8 * c) \<and> bump_view bo b' = (base + 8 * Suc c, base + n)
         else r = None"
proof -
  have "8 dvd base + 8 * c" using assms(3) by simp
  then have "align_up 8 (base + 8 * c) = base + 8 * c" by (rule align_up_aligned)
  moreover have "base + 8 * c + 8 \<le> base + n \<longleftrightarrow> Suc c \<le> n div 8"
    using less_eq_div_iff_mult_less_eq [of 8 "Suc c" n] by (simp add: algebra_simps)
  moreover have "case bump_view bo b of (pos, lim) \<Rightarrow>
      (let p = align_up 8 pos; (r, b') = bump_allocate bo 8 8 b
       in if p + 8 \<le> lim then r = Some p \<and> bump_view bo b' = (p + 8, lim)
          else r = None \<and> bump_view bo b' = (pos, lim))"
    using spec [OF spec [OF spec [OF conjunct2 [OF assms(1) [unfolded bump_laws_def]], of 8], of 8], of b] by simp
  ultimately show ?thesis using assms(2,4) by (auto simp: Let_def split: if_splits)
qed

lemma bump_loop_fills:
  assumes laws: "bump_laws bo" and base: "8 dvd base"
  shows "\<lbrakk>c \<le> n div 8; n div 8 - c < fuel; bump_view bo b = (base + 8 * c, base + n);
     bump_allocate bo 8 8 b = (r, b')\<rbrakk> \<Longrightarrow>
    \<exists>mem'. bump_loop fuel bo r b' (Suc c) mem = Some (Suc (n div 8), mem') \<and>
      (\<forall>i. mem' (base + 8 * i) = (if c \<le> i \<and> i < n div 8 then Suc i else mem (base + 8 * i)))"
proof (induction fuel arbitrary: c b r b' mem)
  case (Suc fuel)
  note step = bump_allocate_aligned [OF laws Suc.prems(3) base Suc.prems(4)]
  show ?case
  proof (cases "Suc c \<le> n div 8")
    case True
    then have r: "r = Some (base + 8 * c)" and b': "bump_view bo b' = (base + 8 * Suc c, base + n)"
      using step by auto
    obtain r2 b2 where two: "bump_allocate bo 8 8 b' = (r2, b2)" by fastforce
    have "n div 8 - Suc c < fuel" using Suc.prems(2) True by simp
    from Suc.IH [OF True this b' two, of "mem(base + 8 * c := Suc c)"]
    obtain mem' where "bump_loop fuel bo r2 b2 (Suc (Suc c)) (mem(base + 8 * c := Suc c)) = Some (Suc (n div 8), mem')"
      "\<forall>i. mem' (base + 8 * i) = (if Suc c \<le> i \<and> i < n div 8 then Suc i else (mem(base + 8 * c := Suc c)) (base + 8 * i))"
      by blast
    then show ?thesis using r two True by (auto simp: Suc_le_eq)
  next
    case False
    then have "r = None" "c = n div 8" using step Suc.prems(1) by auto
    then show ?thesis by auto
  qed
qed simp

text \<open>
  On memory at an address that is a multiple of 8 (which \<open>new std::byte[]\<close> gives) the loop ends
  after as many allocations as the memory has room for, and what is printed are the numbers
  from 1: every number was stored in its own place.
\<close>

theorem bump_fills_memory:
  assumes "bump_laws bo" "8 dvd memory" "mem_size div 8 < fuel"
  shows "bump_main fuel bo memory mem_size = Some (map show_nat [1..<Suc (mem_size div 8)])"
proof -
  obtain r b where rb: "bump_allocate bo 8 8 (bump_create bo memory mem_size) = (r, b)" by fastforce
  have "bump_view bo (bump_create bo memory mem_size) = (memory + 8 * 0, memory + mem_size)"
    using assms(1) by (simp add: bump_laws_def)
  from bump_loop_fills [OF assms(1,2) _ _ this rb, of fuel "\<lambda>_. 0"] assms(3)
  obtain mem' where "bump_loop fuel bo r b 1 (\<lambda>_. 0) = Some (Suc (mem_size div 8), mem')"
    "\<forall>i < mem_size div 8. mem' (memory + 8 * i) = Suc i" by auto
  then have "bump_main fuel bo memory mem_size = Some (map (\<lambda>i. show_nat (Suc i)) [0..<mem_size div 8])"
    by (simp add: bump_main_def rb)
  then show ?thesis by (simp add: map_Suc_upt [symmetric] comp_def del: upt_Suc)
qed

theorem bump_fills_memory_witness:
  "bump_main 129 pair_bump 4096 1024 = Some (map show_nat [1..<129])"
  using bump_fills_memory [OF pair_bump_laws, of 4096 1024 129] by simp

section \<open>Chained calls (012)\<close>

definition and_then_call :: "('a \<Rightarrow> console \<times> ('b, 'e) expected) \<Rightarrow> console \<times> ('a, 'e) expected \<Rightarrow> console \<times> ('b, 'e) expected" where
  "and_then_call f x = (case x of (out, Inl e) \<Rightarrow> (out, Inl e) | (out, Inr v) \<Rightarrow> (case f v of (o2, y) \<Rightarrow> (out @ o2, y)))"

definition or_else_call :: "('e \<Rightarrow> console \<times> ('a, 'e) expected) \<Rightarrow> console \<times> ('a, 'e) expected \<Rightarrow> console \<times> ('a, 'e) expected" where
  "or_else_call f x = (case x of (out, Inr v) \<Rightarrow> (out, Inr v) | (out, Inl e) \<Rightarrow> (case f e of (o2, y) \<Rightarrow> (out @ o2, y)))"

definition getExpected :: "(int, string) expected" where "getExpected = Inr 1"

definition getExpectedError :: "(int, string) expected" where "getExpectedError = Inl ''error''"

definition onExpectedValue :: "int \<Rightarrow> console \<times> (unit, string) expected" where
  "onExpectedValue v = ([''value: '' @ to_string v], Inr ())"

definition onExpectedError :: "string \<Rightarrow> console \<times> (unit, string) expected" where
  "onExpectedError e = ([''error: '' @ e], Inl e)"

definition expected_chain :: "(int, string) expected \<Rightarrow> console \<times> (unit, string) expected" where
  "expected_chain x = or_else_call onExpectedError (and_then_call onExpectedValue ([], x))"

definition expected_main :: console where
  "expected_main = fst (expected_chain getExpected) @ fst (expected_chain getExpectedError)"

text \<open>Exactly one of the two functions is called, and the error stays an error.\<close>

theorem expected_chain_calls_one:
  "expected_chain x = (case x of Inr v \<Rightarrow> ([''value: '' @ to_string v], Inr ()) | Inl e \<Rightarrow> ([''error: '' @ e], Inl e)) \<and>
   expected_main = [''value: 1'', ''error: error'']"
proof -
  have "expected_main = [''value: 1'', ''error: error'']" by code_simp
  then show ?thesis
    by (simp add: expected_chain_def and_then_call_def or_else_call_def onExpectedValue_def onExpectedError_def
        split: sum.splits)
qed

end
