(* ===== verification/Wake_Signal.thy ===== *)
theory Wake_Signal
  imports Prelude
begin

text \<open>
  \<open>src/behaviortree_test/027.emit_state_changed\<close>: a thread changes the blackboard and wakes the
  main thread out of \<open>tree.sleep\<close>. The wake-up signal and the blackboard are BehaviorTree.CPP:
  the signal is the argument \<open>wo\<close> with \<open>wake_laws\<close>, a flag that \<open>emitWakeUpSignal\<close> raises and
  \<open>sleep\<close> lowers when it returns; the blackboard holds the one entry that is used. A step is one
  call of either thread.
\<close>

section \<open>The program\<close>

record 'w wake_ops =
  wake_create :: 'w
  wake_emit :: "'w \<Rightarrow> 'w"
  wake_ready :: "'w \<Rightarrow> bool"
  wake_reset :: "'w \<Rightarrow> 'w"

definition wake_laws :: "'w wake_ops \<Rightarrow> bool" where
  "wake_laws wo \<longleftrightarrow> \<not> wake_ready wo (wake_create wo) \<and> (\<forall>w. wake_ready wo (wake_emit wo w)) \<and>
     (\<forall>w. \<not> wake_ready wo (wake_reset wo w))"

definition flag_wake :: "bool wake_ops" where
  "flag_wake = \<lparr>wake_create = False, wake_emit = (\<lambda>w. True), wake_ready = (\<lambda>w. w), wake_reset = (\<lambda>w. False)\<rparr>"

lemma flag_wake_laws: "wake_laws flag_wake"
  by (simp add: wake_laws_def flag_wake_def)

datatype event_pc = Ev_Sleep | Ev_Set | Ev_Emit | Ev_Over

datatype wake_main_pc = Mn_Tick1 | Mn_Sleep | Mn_Tick2 | Mn_Join | Mn_Over

record 'w wake_state =
  the_number :: "int option"
  signal :: 'w
  event_at :: event_pc
  main_at :: wake_main_pc
  was_woken :: bool
  wake_out :: console

text \<open>\<open>PrintNumber::tick\<close>, the only child of the sequence: what it prints and whether it succeeds.\<close>

definition print_the_number :: "int option \<Rightarrow> string \<times> bool" where
  "print_the_number val = (case val of
     None \<Rightarrow> (''[PrintNumber] No number'', False)
   | Some n \<Rightarrow> (''[PrintNumber] number = '' @ to_string n, True))"

definition tickOnce :: "'w wake_state \<Rightarrow> 'w wake_state" where
  "tickOnce s = s\<lparr>wake_out := wake_out s @ [fst (print_the_number (the_number s))]\<rparr>"

definition event_thread :: "'w wake_ops \<Rightarrow> 'w wake_state \<Rightarrow> 'w wake_state option" where
  "event_thread wo s = (case event_at s of
     Ev_Sleep \<Rightarrow> Some (s\<lparr>event_at := Ev_Set, wake_out := wake_out s @ ['''', ''[ExternalEvent] External event occurred!'']\<rparr>)
   | Ev_Set \<Rightarrow> Some (s\<lparr>event_at := Ev_Emit, the_number := Some 42,
        wake_out := wake_out s @ [''[ExternalEvent] Calling emitWakeUpSignal() to wake up the tree'']\<rparr>)
   | Ev_Emit \<Rightarrow> Some (s\<lparr>event_at := Ev_Over, signal := wake_emit wo (signal s)\<rparr>)
   | Ev_Over \<Rightarrow> None)"

text \<open>
  \<open>tree.sleep\<close> returns when the signal is raised, or after the time out (\<open>timed_out\<close>) with
  whether it is; \<open>duration\<close> is the measured time.
\<close>

definition wake_line :: "bool \<Rightarrow> string" where
  "wake_line woken = (if woken then ''[Wakeup] Tree woken by emitWakeUpSignal() (before timeout)''
     else ''[Wakeup] Tree woken by timeout'')"

definition wake_main_step :: "'w wake_ops \<Rightarrow> bool \<Rightarrow> nat \<Rightarrow> 'w wake_state \<Rightarrow> 'w wake_state option" where
  "wake_main_step wo timed_out duration s = (case main_at s of
     Mn_Tick1 \<Rightarrow> Some ((tickOnce s)\<lparr>main_at := Mn_Sleep,
        wake_out := wake_out (tickOnce s) @ [''[Tick] Tree is sleeping...'']\<rparr>)
   | Mn_Sleep \<Rightarrow>
       (let woken = wake_ready wo (signal s)
        in if woken \<or> timed_out
           then Some (s\<lparr>main_at := Mn_Tick2, signal := wake_reset wo (signal s), was_woken := woken,
                  wake_out := wake_out s @ [''sleep time: '' @ show_nat duration @ ''ms'', wake_line woken]\<rparr>)
           else None)
   | Mn_Tick2 \<Rightarrow> Some ((tickOnce s)\<lparr>main_at := Mn_Join\<rparr>)
   | Mn_Join \<Rightarrow> (if event_at s = Ev_Over then Some (s\<lparr>main_at := Mn_Over\<rparr>) else None)
   | Mn_Over \<Rightarrow> None)"

definition wake_start :: "'w wake_ops \<Rightarrow> 'w wake_state" where
  "wake_start wo = \<lparr>the_number = Some 0, signal = wake_create wo, event_at = Ev_Sleep, main_at = Mn_Tick1,
     was_woken = False, wake_out = []\<rparr>"

inductive wake_moves :: "'w wake_ops \<Rightarrow> 'w wake_state \<Rightarrow> 'w wake_state \<Rightarrow> bool" for wo where
  wake_event: "event_thread wo s = Some s' \<Longrightarrow> wake_moves wo s s'"
| wake_main: "wake_main_step wo timed_out duration s = Some s' \<Longrightarrow> wake_moves wo s s'"

section \<open>Properties\<close>

definition wake_inv :: "'w wake_ops \<Rightarrow> 'w wake_state \<Rightarrow> bool" where
  "wake_inv wo s \<longleftrightarrow>
     the_number s = Some (if event_at s = Ev_Emit \<or> event_at s = Ev_Over then 42 else 0) \<and>
     (event_at s \<noteq> Ev_Over \<longrightarrow> \<not> wake_ready wo (signal s)) \<and>
     (event_at s = Ev_Over \<longrightarrow> main_at s = Mn_Tick1 \<or> main_at s = Mn_Sleep \<longrightarrow> wake_ready wo (signal s)) \<and>
     (was_woken s \<longrightarrow> event_at s = Ev_Over) \<and>
     (main_at s = Mn_Over \<longrightarrow> event_at s = Ev_Over)"

definition wake_left :: "'w wake_state \<Rightarrow> nat" where
  "wake_left s =
     (case event_at s of Ev_Sleep \<Rightarrow> 3 | Ev_Set \<Rightarrow> 2 | Ev_Emit \<Rightarrow> 1 | Ev_Over \<Rightarrow> 0) +
     (case main_at s of Mn_Tick1 \<Rightarrow> 4 | Mn_Sleep \<Rightarrow> 3 | Mn_Tick2 \<Rightarrow> 2 | Mn_Join \<Rightarrow> 1 | Mn_Over \<Rightarrow> 0)"

lemma wake_event_inv:
  "\<lbrakk>wake_laws wo; wake_inv wo s; event_thread wo s = Some s'\<rbrakk> \<Longrightarrow> wake_inv wo s' \<and> wake_left s = Suc (wake_left s')"
  by (cases "event_at s") (auto simp: wake_inv_def wake_left_def event_thread_def wake_laws_def)

lemma wake_main_inv:
  "\<lbrakk>wake_laws wo; wake_inv wo s; wake_main_step wo to d s = Some s'\<rbrakk> \<Longrightarrow>
   wake_inv wo s' \<and> wake_left s = Suc (wake_left s')"
  by (cases "main_at s")
    (auto simp: wake_inv_def wake_left_def wake_main_step_def wake_laws_def tickOnce_def Let_def split: if_splits)

lemma wake_system:
  assumes "wake_laws wo"
  shows "invariant_system ((=) (wake_start wo)) (wake_moves wo) (\<lambda>s. wake_inv wo s \<and> wake_left s \<le> 7)"
proof (unfold_locales, goal_cases)
  case (1 s)
  then show ?case using assms by (auto simp: wake_start_def wake_inv_def wake_left_def wake_laws_def)
next
  case (2 s t)
  from 2(2,1) show ?case
    by (cases rule: wake_moves.cases) (auto dest: wake_event_inv [OF assms] wake_main_inv [OF assms])
qed

text \<open>
  No wake-up is lost and no interleaving blocks: as long as the program has not ended one of the
  threads can move even if \<open>sleep\<close> never times out, and it ends after seven steps. When the
  signal ended the sleep, the next tick prints the number that the event stored.
\<close>

theorem wakeup_is_not_lost:
  assumes "wake_laws wo" "reach ((=) (wake_start wo)) (wake_moves wo) s"
  shows "wake_left s \<le> 7 \<and>
    (main_at s = Mn_Over \<or> (\<exists>s'. event_thread wo s = Some s' \<or> wake_main_step wo False d s = Some s')) \<and>
    (was_woken s \<longrightarrow> fst (print_the_number (the_number s)) = ''[PrintNumber] number = 42'')"
proof -
  have inv: "wake_inv wo s" "wake_left s \<le> 7"
    using invariant_system.reach_inv [OF wake_system [OF assms(1)] assms(2)] by simp_all
  have n: "to_string 42 = ''42''" by code_simp
  have "main_at s = Mn_Over \<or> (\<exists>s'. event_thread wo s = Some s' \<or> wake_main_step wo False d s = Some s')"
    using inv(1) by (cases "event_at s"; cases "main_at s")
      (auto simp: event_thread_def wake_main_step_def wake_inv_def Let_def)
  moreover have "was_woken s \<longrightarrow> the_number s = Some 42" using inv(1) by (auto simp: wake_inv_def)
  ultimately show ?thesis using inv(2) n by (auto simp: print_the_number_def)
qed

fun wake_run :: "'w wake_ops \<Rightarrow> bool list \<Rightarrow> 'w wake_state \<Rightarrow> 'w wake_state option" where
  "wake_run wo [] s = Some s"
| "wake_run wo (e # es) s =
     Option.bind (if e then event_thread wo s else wake_main_step wo False 2000 s) (wake_run wo es)"

lemma wake_run_reach:
  "reach I (wake_moves wo) s \<Longrightarrow> wake_run wo es s = Some s' \<Longrightarrow> reach I (wake_moves wo) s'"
  by (induction es arbitrary: s)
    (auto split: if_splits simp: bind_eq_Some_conv intro: reach_step wake_moves.intros)

theorem wakeup_is_not_lost_witness:
  "\<exists>s. wake_run flag_wake [True, True, True, False, False] (wake_start flag_wake) = Some s \<and>
     fst (print_the_number (the_number s)) = ''[PrintNumber] number = 42''"
proof -
  have "map_option was_woken (wake_run flag_wake [True, True, True, False, False] (wake_start flag_wake)) = Some True"
    by code_simp
  then obtain s where s: "wake_run flag_wake [True, True, True, False, False] (wake_start flag_wake) = Some s" "was_woken s"
    by blast
  have "reach ((=) (wake_start flag_wake)) (wake_moves flag_wake) (wake_start flag_wake)"
    by (rule reach_init) simp
  from wakeup_is_not_lost [OF flag_wake_laws wake_run_reach [OF this s(1)]] s show ?thesis by blast
qed

end
