(* ===== verification/Atomic_File_Demo.thy ===== *)
theory Atomic_File_Demo
  imports Filesystem_Wrapper
begin

text \<open>
  \<open>src/cpp_test/stand_cpp/007.test_atomic_file\<close>: the program that writes a file four times with
  \<open>atomicWriteFile\<close> and reads it back through \<open>filesystem_wrapper\<close>. It composes the models of both;
  what it logs at level info or error is its output.
\<close>

section \<open>The program\<close>

text \<open>The answers of the operating system to one round of calls.\<close>

record round_env =
  r_ctor :: ctor_env
  r_write :: write_env
  r_commit :: commit_env
  r_dtor :: dtor_env
  r_open :: bool
  r_open_line :: bool

definition file_path :: string where "file_path = ''/tmp/test_atomic_file.txt''"

text \<open>\<open>atomicWriteFile\<close>, its check, \<open>readFileContent\<close>, its check, the log line.\<close>

definition write_and_read :: "round_env \<Rightarrow> string \<Rightarrow> console \<times> world \<Rightarrow> (console, int \<times> console) expected outcome \<times> world" where
  "write_and_read e content_text ow = (case ow of (out, w) \<Rightarrow>
     (case atomicWriteFile (r_ctor e) (r_write e) (r_commit e) (r_dtor e) file_path content_text w of
        (Thrown x, w1) \<Rightarrow> (Thrown x, w1)
      | (Terminated, w1) \<Rightarrow> (Terminated, w1)
      | (Returned False, w1) \<Rightarrow> (Returned (Inl (1, out @ [''Failed to write file: '' @ file_path])), w1)
      | (Returned True, w1) \<Rightarrow>
          (case readFileContent (r_open e) file_path w1 of
             Thrown x \<Rightarrow> (Thrown x, w1)
           | Terminated \<Rightarrow> (Terminated, w1)
           | Returned (Inl err) \<Rightarrow> (Returned (Inl (1, out @ [''Failed to read file: '' @ err])), w1)
           | Returned (Inr content) \<Rightarrow> (Returned (Inr (out @ [''content: '' @ content])), w1))))"

text \<open>\<open>getFileFirstNotEmptyLine\<close>, its check, the log line.\<close>

definition log_first_line :: "round_env \<Rightarrow> console \<times> world \<Rightarrow> (console, int \<times> console) expected outcome \<times> world" where
  "log_first_line e ow = (case ow of (out, w) \<Rightarrow>
     (case getFileFirstNotEmptyLine (r_open_line e) file_path w of
        Thrown x \<Rightarrow> (Thrown x, w)
      | Terminated \<Rightarrow> (Terminated, w)
      | Returned (Inl err) \<Rightarrow> (Returned (Inl (1, out @ [''Failed to get first not empty line: '' @ err])), w)
      | Returned (Inr line) \<Rightarrow> (Returned (Inr (out @ [''first line: '' @ line])), w)))"

definition and_go_on ::
  "(console \<times> world \<Rightarrow> (console, int \<times> console) expected outcome \<times> world) \<Rightarrow>
   (console, int \<times> console) expected outcome \<times> world \<Rightarrow> (console, int \<times> console) expected outcome \<times> world" where
  "and_go_on f r = (case r of (Returned (Inr out), w) \<Rightarrow> f (out, w) | _ \<Rightarrow> r)"

definition text3 :: string where
  "text3 = [newline, newline] @ ''       line1'' @ [newline] @ ''       line2'' @ [newline] @ ''       line3'' @
     [newline] @ ''    ''"

definition text4 :: string where
  "text4 = [newline] @ ''       xxxxxxx line1 xxxxxxx'' @ [newline] @ ''       xxxxxxx line2 xxxxxxx'' @ [newline] @
     ''       xxxxxxx line3 xxxxxxx'' @ [newline] @ ''    ''"

definition test_atomic_file_main :: "(nat \<Rightarrow> round_env) \<Rightarrow> world \<Rightarrow> (int \<times> console) outcome \<times> world" where
  "test_atomic_file_main env w =
     (case and_go_on (log_first_line (env 3)) (and_go_on (write_and_read (env 3) text4)
            (and_go_on (log_first_line (env 2)) (and_go_on (write_and_read (env 2) text3)
              (and_go_on (write_and_read (env 1) ''test2'') (write_and_read (env 0) ''test'' ([], w)))))) of
        (Thrown x, w1) \<Rightarrow> (Thrown x, w1)
      | (Terminated, w1) \<Rightarrow> (Terminated, w1)
      | (Returned (Inl co), w1) \<Rightarrow> (Returned co, w1)
      | (Returned (Inr out), w1) \<Rightarrow> (Returned (0, out), w1))"

section \<open>Properties\<close>

lemma write_and_read_ok:
  assumes "write_and_read e t (out, w) = (Returned (Inr out'), w')"
  shows "out' = out @ [''content: '' @ t] \<and> files w' file_path = Some t"
proof -
  obtain c where w1: "atomicWriteFile (r_ctor e) (r_write e) (r_commit e) (r_dtor e) file_path t w = (Returned True, w')"
    and c: "readFileContent (r_open e) file_path w' = Returned (Inr c)" "out' = out @ [''content: '' @ c]"
    using assms by (auto simp: write_and_read_def split: prod.splits outcome.splits bool.splits sum.splits)
  have f: "files w' file_path = Some t" using atomic_write_effect [OF w1] by blast
  with c(1) have "c = t"
    by (auto simp: readFileContent_def streambuf_contents_def Let_def split: if_splits)
  with c f show ?thesis by simp
qed

lemma log_first_line_ok:
  assumes "log_first_line e (out, w) = (Returned (Inr out'), w')" "files w file_path = Some t"
    "first_not_empty (getlines [] t) = Some l"
  shows "out' = out @ [''first line: '' @ l] \<and> w' = w"
  using assms
  by (auto simp: log_first_line_def getFileFirstNotEmptyLine_def readFileContent_def streambuf_contents_def Let_def
      split: outcome.splits sum.splits if_splits)

lemma and_go_on_ok:
  "and_go_on f r = (Returned (Inr out'), w') \<longleftrightarrow> (\<exists>out w. r = (Returned (Inr out), w) \<and> f (out, w) = (Returned (Inr out'), w'))"
  by (auto simp: and_go_on_def split: prod.splits outcome.splits sum.splits)

definition fails_with_1 :: "(console, int \<times> console) expected outcome \<times> world \<Rightarrow> bool" where
  "fails_with_1 r \<longleftrightarrow> (\<forall>c out w. r = (Returned (Inl (c, out)), w) \<longrightarrow> c = 1)"

lemma fails_write [intro]: "fails_with_1 (write_and_read e t ow)"
  by (auto simp: fails_with_1_def write_and_read_def split: prod.splits outcome.splits bool.splits sum.splits)

lemma fails_line [intro]: "fails_with_1 (log_first_line e ow)"
  by (auto simp: fails_with_1_def log_first_line_def split: prod.splits outcome.splits sum.splits)

lemma fails_and [intro]: "fails_with_1 r \<Longrightarrow> (\<And>ow. fails_with_1 (f ow)) \<Longrightarrow> fails_with_1 (and_go_on f r)"
  by (cases r) (auto simp: and_go_on_def split: outcome.splits sum.splits)

lemma first_lines:
  "first_not_empty (getlines [] text3) = Some ''line1''"
  "first_not_empty (getlines [] text4) = Some ''xxxxxxx line1 xxxxxxx''"
  by code_simp+

text \<open>
  Whatever the operating system answers: a run that returns 0 has logged the four texts as they
  were written and the first lines without the blanks around them, and leaves the last text in
  the file.
\<close>

theorem atomic_file_demo_output:
  assumes "test_atomic_file_main env w = (Returned (0, out), w')"
  shows "out = [''content: test'', ''content: test2'', ''content: '' @ text3, ''first line: line1'',
      ''content: '' @ text4, ''first line: xxxxxxx line1 xxxxxxx''] \<and> files w' file_path = Some text4"
proof -
  let ?r = "and_go_on (log_first_line (env 3)) (and_go_on (write_and_read (env 3) text4)
            (and_go_on (log_first_line (env 2)) (and_go_on (write_and_read (env 2) text3)
              (and_go_on (write_and_read (env 1) ''test2'') (write_and_read (env 0) ''test'' ([], w))))))"
  have "fails_with_1 ?r" by (intro fails_and fails_line fails_write)
  then have "?r = (Returned (Inr out), w')"
    using assms by (auto simp: test_atomic_file_main_def fails_with_1_def split: prod.splits outcome.splits sum.splits)
  then obtain o1 w1 o2 w2 o3 w3 o4 w4 o5 w5 where
    r: "write_and_read (env 0) ''test'' ([], w) = (Returned (Inr o1), w1)"
      "write_and_read (env 1) ''test2'' (o1, w1) = (Returned (Inr o2), w2)"
      "write_and_read (env 2) text3 (o2, w2) = (Returned (Inr o3), w3)"
      "log_first_line (env 2) (o3, w3) = (Returned (Inr o4), w4)"
      "write_and_read (env 3) text4 (o4, w4) = (Returned (Inr o5), w5)"
      "log_first_line (env 3) (o5, w5) = (Returned (Inr out), w')"
    unfolding and_go_on_ok by blast
  note ok = write_and_read_ok [OF r(1)] write_and_read_ok [OF r(2)] write_and_read_ok [OF r(3)] write_and_read_ok [OF r(5)]
  have "o4 = o3 @ [''first line: '' @ ''line1'']"
    using log_first_line_ok [OF r(4) _ first_lines(1)] ok by blast
  moreover have "out = o5 @ [''first line: '' @ ''xxxxxxx line1 xxxxxxx''] \<and> w' = w5"
    using log_first_line_ok [OF r(6) _ first_lines(2)] ok by blast
  ultimately show ?thesis using ok by simp
qed

definition good_round :: "nat \<Rightarrow> round_env" where
  "good_round n = \<lparr>r_ctor = \<lparr>create_directories_ok = True, fopen_ok = True\<rparr>,
     r_write = \<lparr>fwrite_count = n, fwrite_pushed = 0\<rparr>, r_commit = demo_commit,
     r_dtor = \<lparr>dtor_fclose_pushed = 0, exists_ok = True, remove_ok = True\<rparr>, r_open = True, r_open_line = True\<rparr>"

theorem atomic_file_demo_output_witness:
  "\<exists>out w'. test_atomic_file_main (\<lambda>i. good_round (length ([''test'', ''test2'', text3, text4] ! i)))
       (demo_world\<lparr>dirs := {''/tmp''}\<rparr>) = (Returned (0, out), w') \<and> files w' file_path = Some text4"
proof -
  let ?r = "test_atomic_file_main (\<lambda>i. good_round (length ([''test'', ''test2'', text3, text4] ! i)))
       (demo_world\<lparr>dirs := {''/tmp''}\<rparr>)"
  have "(case fst ?r of Returned (c, out) \<Rightarrow> c = 0 | _ \<Rightarrow> False)" by code_simp
  then obtain out w' where r: "?r = (Returned (0, out), w')"
    by (cases ?r) (auto split: outcome.splits)
  from atomic_file_demo_output [OF r] r show ?thesis by blast
qed

end
