(* ===== verification/Thread_Names.thy ===== *)
theory Thread_Names
  imports Pthread_Mutex
begin

text \<open>
  The first demonstration of \<open>src/cpp_test/iceoryx/004.pthread_platform\<close>: three threads that set
  and read back their names, and the joins of the main thread. Names are kept by the system:
  the argument \<open>no\<close>, with \<open>name_laws\<close> saying what the manual of \<open>pthread_setname_np\<close> says, up to 15
  characters and \<open>ERANGE\<close> beyond. A step is one call or one printed line of a thread.
\<close>

section \<open>The demonstration\<close>















section \<open>Properties\<close>














end
