(* ===== verification/Segment_Clients.thy ===== *)
theory Segment_Clients
  imports Roudi_Daemon Any_Type
begin

text \<open>
  The clients of the daemon, \<open>003.sender.cpp\<close> and \<open>003.receiver.cpp\<close> of
  \<open>src/cpp_test/iceoryx/003.relative_pointer\<close>, from their arguments to the point where they use
  the control message (\<open>Relative_Pointer\<close> has the accesses from there on): argument parsing, the
  table from the daemon, and the mapping of all segments into the own address space. The results
  of \<open>shm_open\<close> and \<open>mmap\<close> are arguments; \<open>shm_open\<close> finds what the kernel of \<open>Roudi_Daemon\<close> has
  under the name.
\<close>

section \<open>Mapping the segments\<close>

text \<open>A mapping: its base, its size, the object, and whether it may be written.\<close>

type_synonym mapping = "u64 \<times> u64 \<times> nat \<times> bool"

record seg_client =
  registry :: registry
  maps :: "mapping list"

definition client0 :: seg_client where
  "client0 = \<lparr>registry = (\<lambda>_. None), maps = []\<rparr>"

datatype map_answer = Open_Fails | Map_Fails | Mapped_At u64

text \<open>One round of the loop; the descriptor is closed on both paths.\<close>

definition map_segment :: "(SegmentInfo \<Rightarrow> bool) \<Rightarrow> kernel \<Rightarrow> map_answer \<Rightarrow> SegmentInfo \<Rightarrow> seg_client \<Rightarrow> (seg_client, string) expected" where
  "map_segment writable k ans si c = (case k_shm k (shm_name si) of
     None \<Rightarrow> Inl ''shm_open''
   | Some obj \<Rightarrow> (case ans of
       Open_Fails \<Rightarrow> Inl ''shm_open''
     | Map_Fails \<Rightarrow> Inl ''mmap''
     | Mapped_At a \<Rightarrow> Inr (c\<lparr>registry := registerSegment (seg_id si) a (registry c),
                          maps := maps c @ [(a, seg_size si, obj, writable si)]\<rparr>)))"

fun map_segments :: "(SegmentInfo \<Rightarrow> bool) \<Rightarrow> kernel \<Rightarrow> (nat \<Rightarrow> map_answer) \<Rightarrow> nat \<Rightarrow> SegmentInfo list \<Rightarrow> seg_client \<Rightarrow> (seg_client, string) expected" where
  "map_segments writable k ans n [] c = Inr c"
| "map_segments writable k ans n (si # infos) c = (case map_segment writable k (ans n) si c of
     Inl e \<Rightarrow> Inl e | Inr c' \<Rightarrow> map_segments writable k ans (Suc n) infos c')"

text \<open>The sender maps everything for writing, the receiver only the control segment.\<close>

definition sender_prot :: "SegmentInfo \<Rightarrow> bool" where
  "sender_prot si = True"

definition receiver_prot :: "SegmentInfo \<Rightarrow> bool" where
  "receiver_prot si \<longleftrightarrow> is_control si \<noteq> 0"

text \<open>What an address of the process means: the object, the offset in it, and whether it may be written.\<close>

definition in_mapping :: "u64 \<Rightarrow> mapping \<Rightarrow> bool" where
  "in_mapping a m = (case m of (b, n, obj, w) \<Rightarrow> unat b \<le> unat a \<and> unat a < unat b + unat n)"

definition locate :: "seg_client \<Rightarrow> u64 \<Rightarrow> (nat \<times> u64 \<times> bool) option" where
  "locate c a = map_option (\<lambda>(b, n, obj, w). (obj, a - b, w)) (find (in_mapping a) (maps c))"

text \<open>What \<open>mmap\<close> is documented to do: the new range does not overlap an old one and does not wrap.\<close>

definition disjoint_maps :: "mapping list \<Rightarrow> bool" where
  "disjoint_maps ms \<longleftrightarrow> (\<forall>(b, n, obj, w) \<in> set ms. unat b + unat n \<le> 2 ^ 64) \<and>
     (\<forall>a. \<forall>m \<in> set ms. \<forall>m' \<in> set ms. in_mapping a m \<longrightarrow> in_mapping a m' \<longrightarrow> m = m')"

section \<open>The programs\<close>

definition get_segments :: "kernel \<Rightarrow> (byte list \<Rightarrow> byte list) \<Rightarrow> (SegmentInfo list, string) expected" where
  "get_segments k server = (if k_sock k = None then Inl ''connect to roudi'' else getSegmentsFromRoudi server)"

text \<open>
  How the start of a client ends: an exit code with the message, an exception of the argument
  conversions, or the addresses of the data cell and of the control message with what is sent.
\<close>

datatype sender_start = Sender_Exit int string | Sender_Throws conv_error
  | Sends seg_client u64 u64 "u64 \<times> u64 \<times> u64"

definition value_check :: "u64 \<Rightarrow> u64 \<Rightarrow> string option" where
  "value_check off value = (if value = 0 then Some ''value must be non-zero''
     else if off mod 8 \<noteq> 0 then Some ''offset must be 8-byte aligned'' else None)"

definition sender_map :: "u32 \<Rightarrow> u64 \<Rightarrow> u64 \<Rightarrow> SegmentInfo list \<Rightarrow> kernel \<Rightarrow> (nat \<Rightarrow> map_answer) \<Rightarrow> sender_start" where
  "sender_map dataSegIdx off value segments k ans =
     (case sender_target dataSegIdx off value segments of
        Inl e \<Rightarrow> Sender_Exit 1 e
      | Inr (ctrlInfo, targetInfo) \<Rightarrow>
          (case map_segments sender_prot k ans 0 segments client0 of
             Inl e \<Rightarrow> Sender_Exit 1 e
           | Inr c \<Rightarrow> (case (get (RelativePointer (seg_id targetInfo) off) (registry c), getBase (seg_id ctrlInfo) (registry c)) of
                (Inr a, Inr ctrlBase) \<Rightarrow> Sends c a ctrlBase (seg_id targetInfo, off, value)
              | (Inl e, _) \<Rightarrow> Sender_Throws (Runtime_Error e)
              | (_, Inl e) \<Rightarrow> Sender_Throws (Runtime_Error e))))"

definition sender_main :: "string list \<Rightarrow> (byte list \<Rightarrow> byte list) \<Rightarrow> kernel \<Rightarrow> (nat \<Rightarrow> map_answer) \<Rightarrow> sender_start" where
  "sender_main args server k ans =
     (if length args < 3 then Sender_Exit 1 ''Usage''
      else case sto_unsigned ''stoul'' 64 (args ! 0) of Inl e \<Rightarrow> Sender_Throws e | Inr i \<Rightarrow>
        (case sto_unsigned ''stoull'' 64 (args ! 1) of Inl e \<Rightarrow> Sender_Throws e | Inr off \<Rightarrow>
        (case sto_signed ''stoll'' 64 (args ! 2) of Inl e \<Rightarrow> Sender_Throws e | Inr v \<Rightarrow>
        (case value_check (word_of_int off) (word_of_int v) of Some e \<Rightarrow> Sender_Exit 1 e | None \<Rightarrow>
        (case get_segments k server of Inl e \<Rightarrow> Sender_Exit 1 e | Inr segments \<Rightarrow>
           sender_map (word_of_int i) (word_of_int off) (word_of_int v) segments k ans)))))"

definition receiver_start :: "(byte list \<Rightarrow> byte list) \<Rightarrow> kernel \<Rightarrow> (nat \<Rightarrow> map_answer) \<Rightarrow> (seg_client \<times> u64, string) expected" where
  "receiver_start server k ans =
     (case get_segments k server of Inl e \<Rightarrow> Inl e | Inr segments \<Rightarrow>
       (case findControlSegment segments of None \<Rightarrow> Inl ''No control segment found'' | Some ctrlInfo \<Rightarrow>
         (case map_segments receiver_prot k ans 0 segments client0 of Inl e \<Rightarrow> Inl e | Inr c \<Rightarrow>
           (case getBase (seg_id ctrlInfo) (registry c) of Inl e \<Rightarrow> Inl e | Inr b \<Rightarrow> Inr (c, b)))))"

section \<open>Properties\<close>

lemma map_segments_keeps:
  "map_segments wr k ans n infos c = Inr c' \<Longrightarrow>
   set (maps c) \<subseteq> set (maps c') \<and> (\<forall>i. i \<notin> seg_id ` set infos \<longrightarrow> registry c' i = registry c i)"
  by (induction infos arbitrary: n c)
    (fastforce simp: map_segment_def registerSegment_def split: sum.splits option.splits map_answer.splits)+

lemma map_segments_maps:
  "\<lbrakk>map_segments wr k ans n infos c = Inr c'; distinct (map seg_id infos); si \<in> set infos\<rbrakk> \<Longrightarrow>
   \<exists>a obj. k_shm k (shm_name si) = Some obj \<and> registry c' (seg_id si) = Some a \<and>
     (a, seg_size si, obj, wr si) \<in> set (maps c')"
proof (induction infos arbitrary: n c)
  case (Cons x infos)
  from Cons.prems(1) obtain a obj where x: "k_shm k (shm_name x) = Some obj"
    and rest: "map_segments wr k ans (Suc n) infos (c\<lparr>registry := registerSegment (seg_id x) a (registry c),
        maps := maps c @ [(a, seg_size x, obj, wr x)]\<rparr>) = Inr c'"
    by (auto simp: map_segment_def split: option.splits map_answer.splits)
  show ?case
  proof (cases "si = x")
    case True
    then show ?thesis using x map_segments_keeps [OF rest] Cons.prems(2) by (auto simp: registerSegment_def)
  next
    case False
    then show ?thesis using Cons.IH [OF rest] Cons.prems by simp
  qed
qed simp

lemma locate_in_mapping:
  assumes "disjoint_maps (maps c)" "(b, n, obj, w) \<in> set (maps c)" "unat off < unat n"
  shows "locate c (b + off) = Some (obj, off, w)"
proof -
  have "unat b + unat n \<le> 2 ^ 64" using assms(1,2) by (auto simp: disjoint_maps_def)
  then have "unat (b + off) = unat b + unat off"
    using assms(3) by (intro unat_add_lem [THEN iffD1]) simp
  then have m: "in_mapping (b + off) (b, n, obj, w)" using assms(3) by (simp add: in_mapping_def)
  then obtain m' where "find (in_mapping (b + off)) (maps c) = Some m'"
    using assms(2) by (metis find_None_iff not_None_eq)
  moreover from this have "m' = (b, n, obj, w)"
    using assms(1,2) m unfolding disjoint_maps_def find_Some_iff by (metis nth_mem)
  ultimately show ?thesis by (simp add: locate_def)
qed

lemma table_ids: "distinct (map seg_id (table (Suc NUM_DATA_SEGMENTS)))"
  by code_simp

lemma table_fields:
  assumes "i \<le> NUM_DATA_SEGMENTS"
  shows "seg_id (segment_of i) = of_nat i" "seg_size (segment_of i) = 4096" "segment_of i \<in> set (table (Suc NUM_DATA_SEGMENTS))"
    "is_control (segment_of i) = (if i = 0 then 1 else 0)"
proof -
  show "segment_of i \<in> set (table (Suc NUM_DATA_SEGMENTS))" using assms by (auto simp: table_def less_Suc_eq_le simp del: upt_Suc)
qed (auto simp: segment_of_def control_segment_def data_segment_def split: nat.splits)

lemma pointer_located:
  assumes "map_segments wr k ans 0 (table (Suc NUM_DATA_SEGMENTS)) client0 = Inr c" "disjoint_maps (maps c)"
    "i \<le> NUM_DATA_SEGMENTS" "unat off < 4096"
  shows "\<exists>a obj. k_shm k (segment_name i) = Some obj \<and>
    get (RelativePointer (of_nat i) off) (registry c) = Inr a \<and> locate c a = Some (obj, off, wr (segment_of i))"
proof -
  note f = table_fields [OF assms(3)]
  obtain b obj where "k_shm k (segment_name i) = Some obj" "registry c (of_nat i) = Some b"
    "(b, 4096, obj, wr (segment_of i)) \<in> set (maps c)"
    using map_segments_maps [OF assms(1) table_ids f(3)] f(1,2) by (auto simp: segment_name_def)
  moreover from this(3) have "locate c (b + off) = Some (obj, off, wr (segment_of i))"
    using locate_in_mapping [OF assms(2)] assms(4) by simp
  ultimately show ?thesis by (auto simp: get_def getBase_def RelativePointer_def)
qed

text \<open>
  C31: Two processes that mapped the segments of one kernel resolve a segment id and an offset to the
  same byte of the same object, wherever their mappings are; the receiver may write the control
  segment only.
\<close>

theorem clients_share_cells:
  assumes "map_segments sender_prot k ans 0 (table (Suc NUM_DATA_SEGMENTS)) client0 = Inr c"
    "map_segments receiver_prot k ans' 0 (table (Suc NUM_DATA_SEGMENTS)) client0 = Inr c'"
    "disjoint_maps (maps c)" "disjoint_maps (maps c')" "i \<le> NUM_DATA_SEGMENTS" "unat off < 4096"
  shows "\<exists>a a' obj. get (RelativePointer (of_nat i) off) (registry c) = Inr a \<and>
    get (RelativePointer (of_nat i) off) (registry c') = Inr a' \<and>
    locate c a = Some (obj, off, True) \<and> locate c' a' = Some (obj, off, i = 0)"
  using pointer_located [OF assms(1,3,5,6)] pointer_located [OF assms(2,4,5,6)] table_fields(4) [OF assms(5)]
  by (fastforce simp: sender_prot_def receiver_prot_def split: if_splits)

text \<open>
  Clients of a daemon that has left its loop end with an error: they cannot connect, and if they
  had their table already they cannot open the segments.
\<close>

theorem clients_fail_after_exit:
  assumes "reach (\<lambda>(r, k). \<exists>p. r = roudi_init p) shared_moves (r, k)" "at r = At_Accept"
    "roudi_step Signal (r, k) = (r', k')"
  shows "receiver_start server k' ans = Inl ''connect to roudi'' \<and>
    map_segments wr k' ans 0 (table (Suc NUM_DATA_SEGMENTS)) c = Inl ''shm_open''"
proof -
  have "roudi_inv r" using shared_sys.reach_inv [OF assms(1)] by simp
  from loop_exit [OF this assms(2) _ assms(3)] have k': "k_sock k' = None" "k_shm k' (segment_name 0) = None" by auto
  have "table (Suc NUM_DATA_SEGMENTS) = segment_of 0 # map segment_of [1..<Suc NUM_DATA_SEGMENTS]"
    by (simp add: table_def upt_conv_Cons del: upt_Suc)
  with k' show ?thesis
    by (simp add: receiver_start_def get_segments_def map_segment_def segment_name_def)
qed

lemma nth_two: "[x, y, z] ! 2 = z"
  by (simp add: numeral_2_eq_2)

lemma sto_unsigned_show: "n < 2 ^ 64 \<Longrightarrow> sto_unsigned name 64 (show_nat n) = Inr (int n)"
  using scan_to_string [of "[]" "int n"]
  by (simp add: sto_unsigned_def to_string_def read_show_nat show_nat_nonempty)

lemma sto_signed_show: "- (2 ^ 63) \<le> v \<Longrightarrow> v < 2 ^ 63 \<Longrightarrow> sto_signed name 64 (to_string v) = Inr v"
  using scan_to_string [of "[]" v]
  by (simp add: sto_signed_def read_show_nat show_nat_nonempty Let_def)

lemma table_data: "filter (\<lambda>s. is_control s = 0) (table (Suc NUM_DATA_SEGMENTS)) = map data_segment [0..<NUM_DATA_SEGMENTS]"
  "findControlSegment (table (Suc NUM_DATA_SEGMENTS)) = Some control_segment"
  by code_simp+

lemma sender_target_table:
  assumes "i < NUM_DATA_SEGMENTS" "off mod 8 = 0" "off + 8 \<le> 4096" "v \<noteq> 0"
  shows "sender_target (word_of_nat i) (word_of_nat off) v (table (Suc NUM_DATA_SEGMENTS)) = Inr (control_segment, data_segment i)"
proof -
  have "unat (word_of_nat i :: u32) = i" "unat (word_of_nat off :: u64) = off"
    using assms(1,3) by (simp_all add: unat_of_nat NUM_DATA_SEGMENTS_def)
  then show ?thesis
    using assms by (auto simp: sender_accepts_iff table_data data_segment_def word_arith_nat_mod)
qed

definition daemon_server :: "roudi \<Rightarrow> byte list \<Rightarrow> byte list" where
  "daemon_server r req = handleClient req (map info (g_segments r))"

text \<open>
  C38: The way of a value, from the command line to the shared cell: a sender that is started on a
  serving daemon with a data segment, an aligned offset inside it and a non-zero number computes
  an address that lies, in its own mapping, at this offset of the object that the daemon created
  for the segment.
\<close>

theorem sender_reaches_cell:
  assumes "reach (\<lambda>(r, k). (\<exists>p. r = roudi_init p) \<and> fresh_kernel k) roudi_moves (r, k)" "at r = At_Accept"
    and "i < NUM_DATA_SEGMENTS" "off mod 8 = 0" "off + 8 \<le> 4096" "v \<noteq> 0" "- (2 ^ 63) \<le> v" "v < 2 ^ 63"
    and "map_segments sender_prot k ans 0 (table (Suc NUM_DATA_SEGMENTS)) client0 = Inr c" "disjoint_maps (maps c)"
  shows "\<exists>a ctrl obj. sender_main [show_nat i, show_nat off, to_string v] (daemon_server r) k ans =
      Sends c a ctrl (of_nat (Suc i), of_nat off, word_of_int v) \<and>
    k_shm k (segment_name (Suc i)) = Some obj \<and> locate c a = Some (obj, of_nat off, True)"
proof -
  have inv: "holds_inv r" and ok: "names_ok At_Accept (seg_object r) (pid r) k"
    using solo_sys.reach_inv [OF assms(1)] assms(2) by (auto simp: roudi_inv_def names_inv_def)
  have "map info (g_segments r) = table (Suc NUM_DATA_SEGMENTS)" using inv assms(2) by (simp add: holds_inv_def Let_def)
  then have segs: "get_segments k (daemon_server r) = Inr (table (Suc NUM_DATA_SEGMENTS))"
    using ok transfer_of_table by (simp add: get_segments_def daemon_server_def [abs_def] names_ok_def)
  have v: "(word_of_int v :: u64) \<noteq> 0"
    using dvd_imp_le_int [OF assms(6), of "2 ^ 64"] assms(7,8) by (auto simp: word_of_int_eq_0_iff)
  have off: "unat (of_nat off :: u64) = off" using assms(5) by (simp add: unat_of_nat)
  then have check: "value_check (of_nat off) (word_of_int v) = None"
    using v assms(4) by (simp add: value_check_def word_arith_nat_mod)
  obtain a obj where a: "k_shm k (segment_name (Suc i)) = Some obj"
      "get (RelativePointer (of_nat (Suc i)) (of_nat off)) (registry c) = Inr a"
      "locate c a = Some (obj, of_nat off, True)"
    using pointer_located [OF assms(9,10), of "Suc i" "of_nat off"] assms(3,5) off by (auto simp: sender_prot_def)
  obtain b where b: "getBase 0 (registry c) = Inr b"
    using map_segments_maps [OF assms(9) table_ids table_fields(3), of 0] table_fields(1) [of 0] by (auto simp: getBase_def)
  have "sender_map (of_nat i) (of_nat off) (word_of_int v) (table (Suc NUM_DATA_SEGMENTS)) k ans =
      Sends c a b (of_nat (Suc i), of_nat off, word_of_int v)"
    using sender_target_table [OF assms(3,4,5) v] assms(9) a(2) b
    by (simp add: sender_map_def control_segment_def data_segment_def)
  moreover have "i < 2 ^ 64" "off < 2 ^ 64" using assms(3,5) by (simp_all add: NUM_DATA_SEGMENTS_def)
  ultimately have "sender_main [show_nat i, show_nat off, to_string v] (daemon_server r) k ans =
      Sends c a b (of_nat (Suc i), of_nat off, word_of_int v)"
    using sto_signed_show [OF assms(7,8)] segs check by (simp add: sender_main_def sto_unsigned_show)
  with a show ?thesis by blast
qed

text \<open>
  The index is cut to 32 bits after the conversion: an index of \<open>2 ^ 32\<close> or more is not refused
  but names the segment of its remainder.
\<close>

theorem sender_index_truncated:
  assumes "i < 2 ^ 32"
  shows "sender_main [show_nat (i + 2 ^ 32), a, b] server k ans = sender_main [show_nat i, a, b] server k ans"
proof -
  have word_zero: "(4294967296 :: u32) = 0" by simp
  have "sto_unsigned ''stoul'' 64 (show_nat (i + 2 ^ 32)) = Inr (int (i + 2 ^ 32))"
    "sto_unsigned ''stoul'' 64 (show_nat i) = Inr (int i)"
    using assms by (intro sto_unsigned_show; simp)+
  then show ?thesis by (simp add: sender_main_def nth_two word_zero cong: sum.case_cong option.case_cong)
qed

theorem sender_index_truncated_witness:
  "sender_main [show_nat (1 + 2 ^ 32), ''0'', ''7''] server k ans = sender_main [show_nat 1, ''0'', ''7''] server k ans"
  using sender_index_truncated [of 1] by simp

section \<open>A concrete address space\<close>

text \<open>Each mapping on a page of its own.\<close>

definition page_answers :: "nat \<Rightarrow> nat \<Rightarrow> map_answer" where
  "page_answers first n = Mapped_At (of_nat (4096 * (first + n)))"

definition page_map :: "(SegmentInfo \<Rightarrow> bool) \<Rightarrow> kernel \<Rightarrow> nat \<Rightarrow> nat \<Rightarrow> mapping" where
  "page_map wr k first i = (of_nat (4096 * (first + i)), 4096, the (k_shm k (segment_name i)), wr (segment_of i))"

lemma page_maps:
  assumes "\<forall>i \<le> NUM_DATA_SEGMENTS. k_shm k (segment_name i) \<noteq> None"
  shows "n + m = Suc NUM_DATA_SEGMENTS \<Longrightarrow>
    \<exists>c'. map_segments wr k (page_answers first) n (map segment_of [n..<n + m]) c = Inr c' \<and>
      maps c' = maps c @ map (page_map wr k first) [n..<n + m]"
proof (induction m arbitrary: n c)
  case (Suc m)
  then have n: "n \<le> NUM_DATA_SEGMENTS" "Suc n + m = Suc NUM_DATA_SEGMENTS" by auto
  with assms obtain obj where obj: "k_shm k (segment_name n) = Some obj" by blast
  let ?c = "c\<lparr>registry := registerSegment (seg_id (segment_of n)) (of_nat (4096 * (first + n))) (registry c),
      maps := maps c @ [page_map wr k first n]\<rparr>"
  have "map_segment wr k (page_answers first n) (segment_of n) c = Inr ?c"
    using obj table_fields(2) [OF n(1)]
    by (simp add: map_segment_def page_answers_def page_map_def segment_name_def)
  then show ?case using Suc.IH [OF n(2), of ?c] by (auto simp: upt_conv_Cons simp del: upt_Suc)
qed simp

lemma page_maps_disjoint:
  assumes "set ms \<subseteq> page_map wr k first ` {..<8}" "first < 2 ^ 40"
  shows "disjoint_maps ms"
proof -
  have page: "unat (of_nat (4096 * (first + i)) :: u64) = 4096 * (first + i)" if "i < 8" for i
    using that assms(2) unfolding unat_of_nat by (intro mod_less) simp
  have "j = i" if "in_mapping a (page_map wr k first i)" "in_mapping a (page_map wr k first j)" "i < 8" "j < 8" for a i j
  proof -
    have "4096 * (first + i) \<le> unat a" "unat a < 4096 * (first + i) + 4096"
      "4096 * (first + j) \<le> unat a" "unat a < 4096 * (first + j) + 4096"
      using that page [of i] page [of j] by (simp_all add: in_mapping_def page_map_def)
    then show ?thesis unfolding distrib_left by linarith
  qed
  moreover have "unat (fst (page_map wr k first i)) + unat (4096 :: u64) \<le> 2 ^ 64" if "i < 8" for i
    using page [OF that] that assms(2) by (simp add: page_map_def)
  moreover have pages: "\<exists>i < 8. m = page_map wr k first i" if "m \<in> set ms" for m using assms(1) that by auto
  ultimately show ?thesis unfolding disjoint_maps_def
  proof (intro conjI ballI allI impI, goal_cases)
    case (1 m)
    then obtain i where "i < 8" "m = page_map wr k first i" using pages by blast
    with 1(2) [of i] show ?case by (simp add: page_map_def)
  next
    case (2 a m m')
    then obtain i j where "i < 8" "m = page_map wr k first i" "j < 8" "m' = page_map wr k first j" using pages by metis
    with 2(1) [of a i j] 2(6,7) show ?case by simp
  qed
qed

lemma page_clients:
  assumes "\<forall>i \<le> NUM_DATA_SEGMENTS. k_shm k (segment_name i) \<noteq> None" "first < 2 ^ 40"
  shows "\<exists>c. map_segments wr k (page_answers first) 0 (table (Suc NUM_DATA_SEGMENTS)) client0 = Inr c \<and> disjoint_maps (maps c)"
proof -
  obtain c where c: "map_segments wr k (page_answers first) 0 (table (Suc NUM_DATA_SEGMENTS)) client0 = Inr c"
    "maps c = map (page_map wr k first) [0..<Suc NUM_DATA_SEGMENTS]"
    using page_maps [OF assms(1), of 0 "Suc NUM_DATA_SEGMENTS" wr first client0]
    by (auto simp: table_def client0_def simp del: upt_Suc)
  have "set (maps c) \<subseteq> page_map wr k first ` {..<8}"
    unfolding c(2) by (auto simp: NUM_DATA_SEGMENTS_def simp del: upt_Suc)
  with c(1) page_maps_disjoint [OF _ assms(2)] show ?thesis by blast
qed

text \<open>The kernel of a daemon that has started.\<close>

definition served :: "roudi \<times> kernel" where
  "served = roudi_run (replicate 34 (Ret 3)) (roudi_init 1, empty_kernel)"

lemma served_reach: "reach (\<lambda>(r, k). (\<exists>p. r = roudi_init p) \<and> fresh_kernel k) roudi_moves (fst served, snd served)"
  unfolding served_def prod.collapse by (rule run_reaches_solo, rule reach_init) (auto simp: empty_kernel_fresh)

lemma served_at: "at (fst served) = At_Accept"
  unfolding served_def by (rule started)

lemma served_names: "\<forall>i \<le> NUM_DATA_SEGMENTS. k_shm (snd served) (segment_name i) \<noteq> None"
  using solo_sys.reach_inv [OF served_reach] served_at by (auto simp: names_inv_def names_ok_def)

theorem clients_share_cells_witness:
  "\<exists>c c' a a' obj. locate c a = Some (obj, 8, True) \<and> locate c' a' = Some (obj, 8, False) \<and>
     get (RelativePointer 2 8) (registry c) = Inr a \<and> get (RelativePointer 2 8) (registry c') = Inr a'"
proof -
  obtain c c' where c: "map_segments sender_prot (snd served) (page_answers 1) 0 (table (Suc NUM_DATA_SEGMENTS)) client0 = Inr c"
      "disjoint_maps (maps c)"
    and c': "map_segments receiver_prot (snd served) (page_answers 100) 0 (table (Suc NUM_DATA_SEGMENTS)) client0 = Inr c'"
      "disjoint_maps (maps c')"
    using page_clients [OF served_names, of 1 sender_prot] page_clients [OF served_names, of 100 receiver_prot] by auto
  from clients_share_cells [OF c(1) c'(1) c(2) c'(2), of 2 8] show ?thesis
    by (simp add: NUM_DATA_SEGMENTS_def) blast
qed

theorem clients_fail_after_exit_witness:
  "receiver_start (\<lambda>_. []) (snd (roudi_step Signal served)) (page_answers 1) = Inl ''connect to roudi''"
proof -
  have "reach (\<lambda>(r, k). \<exists>p. r = roudi_init p) shared_moves (fst served, snd served)"
    unfolding served_def prod.collapse by (rule run_reaches_shared, rule reach_init) auto
  from clients_fail_after_exit [OF this served_at, of "fst (roudi_step Signal served)"
      "snd (roudi_step Signal served)"]
  show ?thesis by simp
qed

theorem sender_reaches_cell_witness:
  "\<exists>c a ctrl obj. sender_main [show_nat 1, show_nat 16, to_string (- 5)] (daemon_server (fst served)) (snd served) (page_answers 1) =
       Sends c a ctrl (2, 16, - 5) \<and> locate c a = Some (obj, 16, True)"
proof -
  obtain c where c: "map_segments sender_prot (snd served) (page_answers 1) 0 (table (Suc NUM_DATA_SEGMENTS)) client0 = Inr c"
      "disjoint_maps (maps c)"
    using page_clients [OF served_names, of 1 sender_prot] by auto
  from sender_reaches_cell [OF served_reach served_at _ _ _ _ _ _ c, of 1 16 "- 5"]
  show ?thesis by (simp add: NUM_DATA_SEGMENTS_def) blast
qed

end
