(* ===== verification/Task_Mains.thy ===== *)
theory Task_Mains
  imports Task_Coroutine
begin

text \<open>
  The mains of \<open>024.test_task.cpp\<close> and \<open>025.test_user_data.cpp\<close>: a client thread that runs a
  \<open>TestTask\<close>, asks for its status, sends it inputs and cancels it. The thread that runs the
  coroutine may move before every call of the client (in the sources there is a sleep before
  most of them): a schedule holds, for each call, the steps the coroutine takes before it. The
  coroutine rests where it is suspended, so a schedule describes every interleaving of the two
  threads.
\<close>

section \<open>The mains\<close>

type_synonym ('c, 'i) test_task = "('c, 'i, bool \<times> TaskResult) coro"

definition test_task :: "string \<Rightarrow> 'i \<Rightarrow> 'c \<Rightarrow> ('c, 'i) test_task" where
  "test_task n ich cch = \<lparr>self = Task n ich cch, members = (False, SUCCESS), pc = Not_Started\<rparr>"

definition call_after :: "('c, TaskCommand) channel_ops \<Rightarrow> ('i, int) channel_ops \<Rightarrow> bool list
    \<Rightarrow> int task_call \<Rightarrow> ('c, 'i) test_task \<Rightarrow> answer \<times> ('c, 'i) test_task" where
  "call_after cops iops chs call s = call_step cops iops call (coro_run test_body cops iops chs s)"

definition final_answer :: "answer \<Rightarrow> bool" where
  "final_answer a \<longleftrightarrow> a \<in> {Status COMPLETED, Status FAILED, Status TaskStatus.CANCELLED}"

text \<open>\<open>024\<close>: repeat \<open>cancel()\<close>, then \<open>get_current_status()\<close>; \<open>None\<close> when the schedule ends first.\<close>

fun cancel_loop :: "('c, TaskCommand) channel_ops \<Rightarrow> ('i, int) channel_ops \<Rightarrow> bool list list
    \<Rightarrow> ('c, 'i) test_task \<Rightarrow> (bool list list \<times> ('c, 'i) test_task) option" where
  "cancel_loop cops iops [] s = None"
| "cancel_loop cops iops (chs # sch) s =
     (let (a, t) = call_after cops iops chs Cancel s
      in if a = Yes_No True then Some (sch, t) else cancel_loop cops iops sch t)"

fun status_loop :: "('c, TaskCommand) channel_ops \<Rightarrow> ('i, int) channel_ops \<Rightarrow> bool list list
    \<Rightarrow> ('c, 'i) test_task \<Rightarrow> (answer \<times> ('c, 'i) test_task) option" where
  "status_loop cops iops [] s = None"
| "status_loop cops iops (chs # sch) s =
     (let (a, t) = call_after cops iops chs Get_Status s
      in if final_answer a then Some (a, t) else status_loop cops iops sch t)"

definition main_024 :: "('c, TaskCommand) channel_ops \<Rightarrow> ('i, int) channel_ops \<Rightarrow> bool list list
    \<Rightarrow> ('c, 'i) test_task \<Rightarrow> (answer \<times> ('c, 'i) test_task) option" where
  "main_024 cops iops sch s =
     (let (_, t) = call_step cops iops Run s
      in case cancel_loop cops iops sch t of
           None \<Rightarrow> None
         | Some (rest, u) \<Rightarrow> status_loop cops iops rest u)"

text \<open>
  \<open>025\<close>: the loop with its counter \<open>i\<close> and the status of the last round; the answers of
  \<open>send_input_parameters\<close> are collected. Round \<open>i\<close> has the steps \<open>naps i\<close> during its sleep
  and \<open>gaps i\<close> between its two calls.
\<close>

function send_loop :: "('c, TaskCommand) channel_ops \<Rightarrow> ('i, int) channel_ops \<Rightarrow> (nat \<Rightarrow> bool list)
    \<Rightarrow> (nat \<Rightarrow> bool list) \<Rightarrow> nat \<Rightarrow> answer \<Rightarrow> ('c, 'i) test_task
    \<Rightarrow> answer list \<times> ('c, 'i) test_task" where
  "send_loop cops iops naps gaps i status s =
     (if \<not> final_answer status \<and> i < 10 then
        (let (status', t) = call_after cops iops (naps i) Get_Status s;
             (sent, u) = call_after cops iops (gaps i) (Send (int (Suc i))) t;
             (answers, v) = send_loop cops iops naps gaps (Suc i) status' u
         in (sent # answers, v))
      else ([], s))"
  by pat_completeness auto
termination by (relation "measure (\<lambda>(_, _, _, _, i, _, _). 10 - i)") auto

declare send_loop.simps [simp del]

definition main_025 :: "('c, TaskCommand) channel_ops \<Rightarrow> ('i, int) channel_ops \<Rightarrow> (nat \<Rightarrow> bool list)
    \<Rightarrow> (nat \<Rightarrow> bool list) \<Rightarrow> bool list \<Rightarrow> bool list \<Rightarrow> bool list \<Rightarrow> ('c, 'i) test_task
    \<Rightarrow> answer list \<times> answer \<times> ('c, 'i) test_task" where
  "main_025 cops iops naps gaps before_first before_cancel before_last s =
     (let (_, s0) = call_step cops iops Run s;
          (status, s1) = call_after cops iops before_first Get_Status s0;
          (answers, s2) = send_loop cops iops naps gaps 0 status s1;
          (_, s3) = call_after cops iops before_cancel Cancel s2;
          (status', s4) = call_after cops iops before_last Get_Status s3
      in (answers, status', s4))"

section \<open>A task that serves inputs\<close>

text \<open>
  While nobody has sent a command the coroutine is at one of four places of its loop, and the
  task is running.
\<close>

definition serving :: "('c \<Rightarrow> TaskCommand list) \<Rightarrow> ('c, 'i) test_task \<Rightarrow> bool" where
  "serving citems s \<longleftrightarrow>
     current_status (self s) = RUNNING \<and> result (self s) = Pending \<and> cached_result (self s) = None
     \<and> citems (task_control_channel (self s)) = [] \<and> \<not> fst (members s)
     \<and> pc s \<in> {At_Top, In_Wait Wait_Test, In_Wait (Wait_Done True), In_Input}"

abbreviation inbox :: "('i \<Rightarrow> int list) \<Rightarrow> ('c, 'i) test_task \<Rightarrow> int list" where
  "inbox iitems s \<equiv> iitems (input_parameters_channel (self s))"

text \<open>The steps until the coroutine has taken what is in the input channel.\<close>

fun drain_steps :: "coro_pc \<Rightarrow> nat" where
  "drain_steps In_Input = 1"
| "drain_steps (In_Wait (Wait_Done b)) = 2"
| "drain_steps (In_Wait Wait_Test) = 3"
| "drain_steps At_Top = 4"
| "drain_steps _ = 0"

lemmas mains_step = coro_step_def test_body_def is_cancelled_def is_paused_def async_wait_for_resume_def
  wait_resume_test_def select_received_def wait_for_input_parameters_def Let_def

lemma serving_step:
  assumes claw: "shared_channel_law cops citems 1" and ilaw: "shared_channel_law iops iitems 1"
    and s: "serving citems s" and step: "coro_step test_body cops iops ch s = Some t"
  shows "serving citems t
    \<and> (if pc s = In_Input then tl (inbox iitems s) = inbox iitems t \<and> inbox iitems s \<noteq> []
       else inbox iitems t = inbox iitems s \<and> drain_steps (pc t) < drain_steps (pc s))"
proof -
  have none: "receive cops (task_control_channel (self s)) = None"
    using shared_receive(2) [OF claw] s by (simp add: serving_def)
  consider "pc s = At_Top" | "pc s = In_Wait Wait_Test" | "pc s = In_Wait (Wait_Done True)"
    | "pc s = In_Input" using s by (auto simp: serving_def)
  then show ?thesis
  proof cases
    case 4
    show ?thesis
    proof (cases "inbox iitems s")
      case Nil
      then show ?thesis using step 4 none shared_receive(2) [OF ilaw Nil] by (simp add: mains_step)
    next
      case (Cons v vs)
      obtain ch' where "receive iops (input_parameters_channel (self s)) = Some ((None, v), ch')"
          and "iitems ch' = vs"
        using shared_receive(1) [OF ilaw Cons] by blast
      then show ?thesis using step 4 none s Cons by (auto simp: mains_step serving_def split: if_splits)
    qed
  qed (use step s in \<open>auto simp: mains_step serving_def split: prod.splits\<close>)
qed

lemma serving_moves:
  assumes ilaw: "shared_channel_law iops iitems 1" and s: "serving citems s"
    and busy: "pc s \<noteq> In_Input \<or> inbox iitems s \<noteq> []"
  shows "\<exists>t. coro_step test_body cops iops ch s = Some t"
proof (cases "pc s = In_Input")
  case True
  with busy obtain v vs where "inbox iitems s = v # vs" by (auto simp: neq_Nil_conv)
  then obtain ch' where "receive iops (input_parameters_channel (self s)) = Some ((None, v), ch')"
    using shared_receive(1) [OF ilaw] by blast
  then show ?thesis using True by (auto simp: mains_step split: option.splits sum.splits)
next
  case False
  then show ?thesis using s by (auto simp: mains_step serving_def)
qed

lemma serving_run:
  assumes claw: "shared_channel_law cops citems 1" and ilaw: "shared_channel_law iops iitems 1"
  shows "serving citems s \<Longrightarrow> serving citems (coro_run test_body cops iops chs s)
    \<and> length (inbox iitems (coro_run test_body cops iops chs s)) \<le> length (inbox iitems s)"
proof (induction chs arbitrary: s)
  case (Cons ch chs)
  show ?case
  proof (cases "coro_step test_body cops iops ch s")
    case (Some t)
    have "serving citems t" "length (inbox iitems t) \<le> length (inbox iitems s)"
      using serving_step [OF claw ilaw Cons.prems Some] by (auto split: if_splits dest: arg_cong [of _ _ length])
    then show ?thesis using Cons.IH [of t] Some by simp
  qed (use Cons.prems in simp)
qed simp

lemma serving_drains:
  assumes claw: "shared_channel_law cops citems 1" and ilaw: "shared_channel_law iops iitems 1"
  shows "serving citems s \<Longrightarrow> length (inbox iitems s) \<le> 1 \<Longrightarrow> drain_steps (pc s) \<le> length chs \<Longrightarrow>
    inbox iitems (coro_run test_body cops iops chs s) = []"
proof (induction chs arbitrary: s)
  case Nil
  then show ?case by (auto simp: serving_def)
next
  case (Cons ch chs)
  note step = serving_step [OF claw ilaw Cons.prems(1)]
  show ?case
  proof (cases "inbox iitems s = []")
    case True
    then show ?thesis using serving_run [OF claw ilaw Cons.prems(1), of "ch # chs"] by simp
  next
    case False
    then obtain t where t: "coro_step test_body cops iops ch s = Some t"
      using serving_moves [OF ilaw Cons.prems(1)] by blast
    show ?thesis
    proof (cases "pc s = In_Input")
      case True
      then have "serving citems t" "inbox iitems t = []"
        using step [OF t] Cons.prems(2) by (cases "inbox iitems s"; simp)+
      then show ?thesis using serving_run [OF claw ilaw, of t chs] t by simp
    next
      case False
      then show ?thesis using step [OF t] t Cons by simp
    qed
  qed
qed

section \<open>A cancelled task\<close>

text \<open>After \<open>cancel()\<close> the coroutine can only return CANCELLED, and the status stays CANCELLED.\<close>

definition leaving :: "('c, 'i) test_task \<Rightarrow> bool" where
  "leaving s \<longleftrightarrow>
     current_status (self s) = TaskStatus.CANCELLED \<and> cached_result (self s) = None
     \<and> result (self s) \<in> {Pending, Ready TaskResult.CANCELLED} \<and> \<not> fst (members s)
     \<and> (\<forall>r. pc s = Returning r \<longrightarrow> r = TaskResult.CANCELLED)"

lemma leaving_step:
  assumes "leaving s" and "coro_step test_body cops iops ch s = Some t"
  shows "leaving t"
proof (cases "pc s")
  case (In_Wait ws)
  then show ?thesis using assms
    by (cases ws) (auto simp: leaving_def mains_step set_status_def split: option.splits if_splits)
next
  case In_Input
  then show ?thesis using assms
    by (auto simp: leaving_def mains_step split: option.splits if_splits sum.splits)
qed (use assms in \<open>auto simp: leaving_def mains_step finish_def split: prod.splits if_splits\<close>)

lemma leaving_run: "leaving s \<Longrightarrow> leaving (coro_run test_body cops iops chs s)"
  by (induction chs arbitrary: s) (auto split: option.split dest: leaving_step)

lemma leaving_status: "leaving s \<Longrightarrow> fst (call_step cops iops Get_Status s) = Status TaskStatus.CANCELLED"
  by (auto simp: leaving_def call_step_def task_op_def get_current_status_def)

lemma serving_cancelled:
  assumes claw: "shared_channel_law cops citems 1" and s: "serving citems s"
  shows "\<exists>t. call_step cops iops Cancel s = (Yes_No True, t) \<and> leaving t"
proof -
  obtain ch' where "try_send cops CANCEL (task_control_channel (self s)) = (True, ch')"
    using shared_room [OF claw, of "task_control_channel (self s)" CANCEL] s by (auto simp: serving_def)
  then show ?thesis using s
    by (auto simp: call_step_def task_op_def cancel_def send_command_def serving_def leaving_def)
qed

lemma serving_after_run:
  assumes "citems cch = []"
  shows "serving citems (snd (call_step cops iops Run (test_task n ich cch)))"
  using assms by (simp add: call_step_def task_op_def run_def test_task_def Task_def serving_def)

lemma after_run:
  "inbox iitems (snd (call_step cops iops Run (test_task n ich cch))) = iitems ich"
  "pc (snd (call_step cops iops Run (test_task n ich cch))) = At_Top"
  by (simp_all add: call_step_def task_op_def run_def test_task_def Task_def)

lemma serving_status: "serving citems s \<Longrightarrow> call_step cops iops Get_Status s = (Status RUNNING, s)"
  by (simp add: serving_def call_step_def task_op_def get_current_status_def)

text \<open>One call of the client after some steps of the coroutine.\<close>

lemma call_after_cancel:
  assumes "shared_channel_law cops citems 1" and "shared_channel_law iops iitems 1" and "serving citems s"
  shows "\<exists>t. call_after cops iops chs Cancel s = (Yes_No True, t) \<and> leaving t"
  unfolding call_after_def
  by (rule serving_cancelled [OF assms(1)]) (rule conjunct1 [OF serving_run [OF assms]])

lemma call_after_leaving:
  "leaving s \<Longrightarrow> fst (call_after cops iops chs Get_Status s) = Status TaskStatus.CANCELLED"
  unfolding call_after_def by (intro leaving_status leaving_run)

section \<open>Inputs\<close>

lemma serving_send:
  assumes ilaw: "shared_channel_law iops iitems 1" and s: "serving citems s"
  shows "\<exists>ok t. call_step cops iops (Send v) s = (Yes_No ok, t) \<and> serving citems t \<and> pc t = pc s
    \<and> (inbox iitems s = [] \<longrightarrow> ok \<and> length (inbox iitems t) = 1)"
proof -
  obtain ok ch' where send: "try_send iops v (input_parameters_channel (self s)) = (ok, ch')" by fastforce
  then show ?thesis using s shared_sent [OF ilaw send]
    by (auto simp: call_step_def task_op_def send_input_parameters_def serving_def Let_def split: if_splits)
qed

text \<open>
  A round of the loop: the status is RUNNING, and an input that finds the channel empty is
  accepted.
\<close>

lemma send_round:
  assumes laws: "shared_channel_law cops citems 1" "shared_channel_law iops iitems 1"
    and s: "serving citems s" and i: "i < 10"
  obtains ok u where "serving citems u"
    and "send_loop cops iops naps gaps i (Status RUNNING) s =
      (let (as, v) = send_loop cops iops naps gaps (Suc i) (Status RUNNING) u in (Yes_No ok # as, v))"
    and "length (inbox iitems s) \<le> 1 \<Longrightarrow> 4 \<le> length (naps i) \<Longrightarrow> ok \<and> length (inbox iitems u) = 1"
proof -
  define t where "t = coro_run test_body cops iops (naps i) s"
  define t' where "t' = coro_run test_body cops iops (gaps i) t"
  have t: "serving citems t" and t': "serving citems t'" "length (inbox iitems t') \<le> length (inbox iitems t)"
    using serving_run [OF laws s, of "naps i"] serving_run [OF laws, of t "gaps i"] by (simp_all add: t_def t'_def)
  obtain ok u where u: "call_step cops iops (Send (int (Suc i))) t' = (Yes_No ok, u)" "serving citems u"
      "inbox iitems t' = [] \<longrightarrow> ok \<and> length (inbox iitems u) = 1"
    using serving_send [OF laws(2) t'(1)] by blast
  show thesis
  proof (rule that [OF u(2)])
    show "send_loop cops iops naps gaps i (Status RUNNING) s =
      (let (as, v) = send_loop cops iops naps gaps (Suc i) (Status RUNNING) u in (Yes_No ok # as, v))"
      using i serving_status [OF t, of cops iops] u(1)
      by (simp add: send_loop.simps [of _ _ _ _ i] final_answer_def call_after_def t'_def t_def)
    assume "length (inbox iitems s) \<le> 1" "4 \<le> length (naps i)"
    moreover have "drain_steps (pc s) \<le> 4" using s by (auto simp: serving_def)
    ultimately have "inbox iitems t = []" using serving_drains [OF laws s] by (simp add: t_def)
    with t'(2) u(3) show "ok \<and> length (inbox iitems u) = 1" by simp
  qed
qed

lemma send_loop_serving:
  assumes laws: "shared_channel_law cops citems 1" "shared_channel_law iops iitems 1"
  shows "k = 10 - i \<Longrightarrow> serving citems s \<Longrightarrow>
    \<exists>as t. send_loop cops iops naps gaps i (Status RUNNING) s = (as, t) \<and> serving citems t
      \<and> length as = k
      \<and> (length (inbox iitems s) \<le> 1 \<and> (\<forall>j. 4 \<le> length (naps j)) \<longrightarrow> as = replicate k (Yes_No True))"
proof (induction k arbitrary: i s)
  case 0
  then show ?case by (simp add: send_loop.simps)
next
  case (Suc k)
  then have i: "i < 10" and k: "k = 10 - Suc i" by auto
  obtain ok u where u: "serving citems u"
    "send_loop cops iops naps gaps i (Status RUNNING) s =
      (let (as, v) = send_loop cops iops naps gaps (Suc i) (Status RUNNING) u in (Yes_No ok # as, v))"
    "length (inbox iitems s) \<le> 1 \<Longrightarrow> 4 \<le> length (naps i) \<Longrightarrow> ok \<and> length (inbox iitems u) = 1"
    by (rule send_round [OF laws Suc.prems(2) i, of naps gaps], rule that)
  obtain as t where t: "send_loop cops iops naps gaps (Suc i) (Status RUNNING) u = (as, t)"
      "serving citems t" "length as = k"
      "length (inbox iitems u) \<le> 1 \<and> (\<forall>j. 4 \<le> length (naps j)) \<longrightarrow> as = replicate k (Yes_No True)"
    using Suc.IH [OF k u(1)] by blast
  then show ?case using u(2,3) by auto
qed

section \<open>The run of 024\<close>

lemma main_024_run:
  assumes "shared_channel_law cops citems 1" and "shared_channel_law iops iitems 1" and "citems cch = []"
  shows "\<exists>t. main_024 cops iops (chs # chs' # sch) (test_task n ich cch) =
      Some (Status TaskStatus.CANCELLED, t)
    \<and> t = snd (call_after cops iops chs' Get_Status (snd (call_after cops iops chs Cancel
            (snd (call_step cops iops Run (test_task n ich cch))))))"
proof -
  define s where "s = snd (call_step cops iops Run (test_task n ich cch))"
  have "serving citems s" unfolding s_def by (rule serving_after_run [of citems cch, OF assms(3)])
  then obtain t where t: "call_after cops iops chs Cancel s = (Yes_No True, t)" "leaving t"
    using call_after_cancel [OF assms(1,2)] by blast
  obtain a u where u: "call_after cops iops chs' Get_Status t = (a, u)" by fastforce
  then have "a = Status TaskStatus.CANCELLED" using call_after_leaving [OF t(2), of cops iops chs'] by simp
  then show ?thesis using t u by (simp add: main_024_def s_def [symmetric] split_beta final_answer_def)
qed

lemma suspended_run: "(\<And>ch. coro_step body cops iops ch s = None) \<Longrightarrow> coro_run body cops iops chs s = s"
  by (cases chs) simp_all

lemma three_steps: "3 \<le> length chs \<Longrightarrow> \<exists>a b c rest. chs = a # b # c # rest"
  by (auto simp: Suc_le_length_iff numeral_3_eq_3)

lemma run_to_input:
  assumes claw: "shared_channel_law cops citems 1" and ilaw: "shared_channel_law iops iitems 1"
    and s: "serving citems s" "inbox iitems s = []" "pc s = At_Top" and chs: "3 \<le> length chs"
  shows "coro_run test_body cops iops chs s = s\<lparr>pc := In_Input\<rparr>"
proof -
  obtain a b c rest where "chs = a # b # c # rest" using three_steps [OF chs] by blast
  moreover have "coro_run test_body cops iops rest (s\<lparr>pc := In_Input\<rparr>) = s\<lparr>pc := In_Input\<rparr>"
    using shared_receive(2) [OF claw, of "task_control_channel (self s)"] shared_receive(2) [OF ilaw s(2)] s(1)
    by (intro suspended_run) (simp add: mains_step serving_def)
  ultimately show ?thesis using s by (auto simp: mains_step serving_def split: prod.splits)
qed

lemma cancelled_returns:
  assumes claw: "shared_channel_law cops citems 1" and ilaw: "shared_channel_law iops iitems 1"
    and s: "serving citems s" "inbox iitems s = []" and chs: "3 \<le> length chs"
  shows "\<exists>t. call_step cops iops Cancel (s\<lparr>pc := In_Input\<rparr>) = (Yes_No True, t)
    \<and> pc (coro_run test_body cops iops chs t) = Returned
    \<and> current_status (self (coro_run test_body cops iops chs t)) = TaskStatus.CANCELLED
    \<and> citems (task_control_channel (self (coro_run test_body cops iops chs t))) = []"
proof -
  obtain a b c rest where chs: "chs = a # b # c # rest" using three_steps [OF chs] by blast
  obtain full where full: "try_send cops CANCEL (task_control_channel (self s)) = (True, full)"
      "citems full = [CANCEL]"
    using shared_room [OF claw, of "task_control_channel (self s)" CANCEL] s(1) by (auto simp: serving_def)
  obtain ch' where "receive cops full = Some ((None, CANCEL), ch')" "citems ch' = []"
    using shared_receive(1) [OF claw full(2)] by blast
  then show ?thesis unfolding chs using full s shared_receive(2) [OF ilaw s(2)]
    by (auto simp: call_step_def task_op_def cancel_def send_command_def serving_def mains_step
        finish_def suspended_run split: prod.splits)
qed

text \<open>Asking for the status moves neither the coroutine nor the channels.\<close>

lemma status_keeps:
  "pc (snd (call_step cops iops Get_Status s)) = pc s"
  "task_control_channel (self (snd (call_step cops iops Get_Status s))) = task_control_channel (self s)"
  "current_status (self s) = TaskStatus.CANCELLED \<Longrightarrow>
   current_status (self (snd (call_step cops iops Get_Status s))) \<in> {COMPLETED, FAILED, TaskStatus.CANCELLED}"
  by (auto simp: call_step_def task_op_def get_current_status_def Let_def split: future.split TaskResult.split)

section \<open>Properties of the programs\<close>

text \<open>
  \<open>024\<close> ends with its first \<open>cancel()\<close> and its first question for the status, whatever the
  coroutine has done before either of them, and the status is CANCELLED.
\<close>

theorem main_024_ends:
  assumes "shared_channel_law cops citems 1" and "shared_channel_law iops iitems 1" and "citems cch = []"
  shows "\<exists>t. main_024 cops iops (chs # chs' # sch) (test_task n ich cch) =
    Some (Status TaskStatus.CANCELLED, t)"
  using main_024_run [OF assms] by blast

text \<open>
  When the coroutine gets three steps in the sleep before \<open>cancel()\<close> and three before the
  status is asked, it has taken the command and returned, and the destructor of the task
  succeeds with its first attempt.
\<close>

theorem main_024_destroys:
  assumes "shared_channel_law cops citems 1" and "shared_channel_law iops iitems 1" and "citems cch = []"
    and "iitems ich = []" and "3 \<le> length chs" and "3 \<le> length chs'"
  shows "\<exists>t u. main_024 cops iops (chs # chs' # sch) (test_task n ich cch) =
      Some (Status TaskStatus.CANCELLED, t)
    \<and> pc t = Returned \<and> destroy_task cops iops 1 (self t) = Some u"
proof -
  define s where "s = snd (call_step cops iops Run (test_task n ich cch))"
  have s: "serving citems s" "inbox iitems s = []" "pc s = At_Top"
    using serving_after_run [of citems cch, OF assms(3)] assms(4) by (simp_all add: s_def after_run)
  have input: "coro_run test_body cops iops chs s = s\<lparr>pc := In_Input\<rparr>"
    by (rule run_to_input [OF assms(1,2) s assms(5)])
  obtain t where t: "call_step cops iops Cancel (s\<lparr>pc := In_Input\<rparr>) = (Yes_No True, t)"
    and gone: "pc (coro_run test_body cops iops chs' t) = Returned"
    "current_status (self (coro_run test_body cops iops chs' t)) = TaskStatus.CANCELLED"
    "citems (task_control_channel (self (coro_run test_body cops iops chs' t))) = []"
    using cancelled_returns [OF assms(1,2) s(1,2) assms(6)] by blast
  obtain u where u: "main_024 cops iops (chs # chs' # sch) (test_task n ich cch) =
      Some (Status TaskStatus.CANCELLED, u)"
    "u = snd (call_after cops iops chs' Get_Status (snd (call_after cops iops chs Cancel s)))"
    using main_024_run [OF assms(1-3)] unfolding s_def by blast
  have "pc u = Returned" "current_status (self u) \<in> {COMPLETED, FAILED, TaskStatus.CANCELLED}"
    "citems (task_control_channel (self u)) = []"
    using gone status_keeps(3) [OF gone(2), of cops iops] unfolding u(2)
    by (simp_all add: call_after_def input t status_keeps(1,2))
  moreover from this(3) obtain c where "try_send cops CANCEL (task_control_channel (self u)) = (True, c)"
    using shared_room [OF assms(1), of "task_control_channel (self u)" CANCEL] by auto
  ultimately have "\<exists>v. destroy_task cops iops 1 (self u) = Some v"
    by (auto simp: cancel_def send_command_def)
  then show ?thesis using u(1) \<open>pc u = Returned\<close> by blast
qed

text \<open>
  C34: When the coroutine gets no step before \<open>cancel()\<close>, it finds the task cancelled at the head
  of its loop and returns without receiving the command: the control channel stays full, and
  the destructor of the task, whose turn it then is, repeats \<open>cancel()\<close> forever.
\<close>

theorem main_024_can_hang:
  assumes "channel_law cops citems 1" and "channel_law iops iitems 1" and "citems cch = []"
    and "2 \<le> length chs'"
  shows "\<exists>t. main_024 cops iops ([] # chs' # sch) (test_task n ich cch) =
      Some (Status TaskStatus.CANCELLED, t)
    \<and> pc t = Returned \<and> (\<forall>attempts. destroy_task cops iops attempts (self t) = None)"
proof -
  obtain ch1 ch2 rest where chs': "chs' = ch1 # ch2 # rest"
    using assms(4) by (metis Suc_le_length_iff numeral_2_eq_2)
  obtain c where c: "try_send cops CANCEL cch = (True, c)" "citems c = [CANCEL]"
    using channel_room [OF assms(1), of cch CANCEL] assms(3) by auto
  obtain t where t: "main_024 cops iops ([] # chs' # sch) (test_task n ich cch) =
      Some (Status TaskStatus.CANCELLED, t)"
    "t = snd (call_after cops iops chs' Get_Status (snd (call_after cops iops [] Cancel
            (snd (call_step cops iops Run (test_task n ich cch))))))"
    using main_024_run [OF channel_law_shared [OF assms(1)] channel_law_shared [OF assms(2)] assms(3)] by blast
  have "pc t = Returned" "current_status (self t) = TaskStatus.CANCELLED" "task_control_channel (self t) = c"
    unfolding t(2) chs' using c(1)
    by (simp_all add: call_after_def call_step_def task_op_def run_def test_task_def Task_def cancel_def
        send_command_def mains_step finish_def get_current_status_def suspended_run)
  then have "cancel cops (self t) = (False, self t)"
    using c(2) by (intro cancel_refused [OF assms(1)]) auto
  then show ?thesis using t(1) \<open>pc t = Returned\<close> by (simp add: destroy_stuck)
qed

text \<open>
  \<open>025\<close> always ends: ten inputs are offered and the last status is CANCELLED, whatever the
  coroutine has done before each of the calls. When the coroutine gets four steps in every
  sleep of the loop, all ten inputs are accepted.
\<close>

theorem main_025_sends:
  assumes "shared_channel_law cops citems 1" and "shared_channel_law iops iitems 1" and "citems cch = []"
    and "iitems ich = []"
  shows "\<exists>as t. main_025 cops iops naps gaps x y z (test_task n ich cch) =
      (as, Status TaskStatus.CANCELLED, t) \<and> length as = 10
    \<and> ((\<forall>j. 4 \<le> length (naps j)) \<longrightarrow> as = replicate 10 (Yes_No True))"
proof -
  note laws = assms(1,2)
  define s where "s = snd (call_step cops iops Run (test_task n ich cch))"
  define s1 where "s1 = coro_run test_body cops iops x s"
  have s: "serving citems s" "inbox iitems s = []"
    using serving_after_run [of citems cch, OF assms(3)] assms(4) by (simp_all add: s_def after_run)
  then have s1: "serving citems s1" "inbox iitems s1 = []"
    using serving_run [OF laws s(1), of x] by (simp_all add: s1_def)
  then have first: "call_after cops iops x Get_Status s = (Status RUNNING, s1)"
    using serving_status [of citems s1] by (simp add: call_after_def s1_def)
  obtain as s2 where s2: "send_loop cops iops naps gaps 0 (Status RUNNING) s1 = (as, s2)"
      "serving citems s2" "length as = 10"
      "(\<forall>j. 4 \<le> length (naps j)) \<longrightarrow> as = replicate 10 (Yes_No True)"
    using send_loop_serving [OF laws refl s1(1), of naps gaps 0] s1(2) by auto
  obtain s3 where s3: "call_after cops iops y Cancel s2 = (Yes_No True, s3)" "leaving s3"
    using call_after_cancel [OF laws s2(2)] by blast
  obtain s4 where "call_after cops iops z Get_Status s3 = (Status TaskStatus.CANCELLED, s4)"
    using call_after_leaving [OF s3(2), of cops iops z] by (metis prod.collapse)
  then show ?thesis using first s2 s3(1)
    by (simp add: main_025_def s_def [symmetric] split_beta)
qed

text \<open>
  When the coroutine gets no step at all before the last input, so that no receive waits on
  the input channel, only the first input is accepted.
\<close>

lemma full_send:
  assumes "channel_law iops iitems 1" "length (inbox iitems s) = 1"
  shows "call_step cops iops (Send v) s = (Yes_No False, s)"
  using assms channel_full [OF assms(1), of "input_parameters_channel (self s)" v]
  by (simp add: call_step_def task_op_def send_input_parameters_def)

lemma starved_send_loop:
  assumes ilaw: "channel_law iops iitems 1" and s: "serving citems s" "length (inbox iitems s) = 1"
    and idle: "\<And>j. naps j = [] \<and> gaps j = []"
  shows "k = 10 - i \<Longrightarrow>
    send_loop cops iops naps gaps i (Status RUNNING) s = (replicate k (Yes_No False), s)"
proof (induction k arbitrary: i)
  case 0
  then show ?case by (simp add: send_loop.simps)
next
  case (Suc k)
  then have "i < 10" "k = 10 - Suc i" by auto
  with Suc.IH [of "Suc i"] show ?case
    by (simp add: send_loop.simps [of _ _ _ _ i] final_answer_def call_after_def idle
        serving_status [OF s(1)] full_send [OF ilaw s(2)])
qed

theorem main_025_starves:
  assumes "channel_law cops citems 1" and ilaw: "channel_law iops iitems 1" and "citems cch = []"
    and "iitems ich = []" and naps: "naps = (\<lambda>_. [])" and gaps: "gaps = (\<lambda>_. [])"
  shows "fst (main_025 cops iops naps gaps [] y z (test_task n ich cch)) = Yes_No True # replicate 9 (Yes_No False)"
proof -
  define s where "s = snd (call_step cops iops Run (test_task n ich cch))"
  have s: "serving citems s" "inbox iitems s = []"
    using serving_after_run [of citems cch, OF assms(3)] assms(4) by (simp_all add: s_def after_run)
  obtain u where u: "call_step cops iops (Send 1) s = (Yes_No True, u)" "serving citems u" "length (inbox iitems u) = 1"
    using serving_send [OF channel_law_shared [OF ilaw] s(1), of cops 1] s(2) by auto
  have "send_loop cops iops naps gaps 0 (Status RUNNING) s = (Yes_No True # replicate 9 (Yes_No False), u)"
    using starved_send_loop [OF ilaw u(2,3), of naps gaps 9 1 cops] u(1)
    by (simp add: send_loop.simps [of _ _ _ _ 0] final_answer_def call_after_def naps gaps serving_status [OF s(1)])
  then show ?thesis
    using serving_status [OF s(1), of cops iops]
    by (simp add: main_025_def s_def [symmetric] split_beta call_after_def)
qed

section \<open>Witnesses\<close>

theorem main_024_ends_witness:
  "\<exists>t. main_024 ctl inp [[True], []] (test_task ''TestTask'' [] []) = Some (Status TaskStatus.CANCELLED, t)"
  using main_024_ends [OF channel_law_shared [OF ctl_law] channel_law_shared [OF inp_law]] by simp

theorem main_024_destroys_witness:
  "\<exists>t u. main_024 ctl inp [[True, True, True], [False, False, False]] (test_task ''TestTask'' [] []) =
      Some (Status TaskStatus.CANCELLED, t)
    \<and> pc t = Returned \<and> destroy_task ctl inp 1 (self t) = Some u"
  by (rule main_024_destroys [OF channel_law_shared [OF ctl_law] channel_law_shared [OF inp_law]]) simp_all

theorem main_024_can_hang_witness:
  "\<exists>t. main_024 ctl inp [[], [True, True]] (test_task ''TestTask'' [] []) =
      Some (Status TaskStatus.CANCELLED, t)
    \<and> pc t = Returned \<and> (\<forall>attempts. destroy_task ctl inp attempts (self t) = None)"
  by (rule main_024_can_hang [OF ctl_law inp_law]) simp_all

theorem main_025_sends_witness:
  "fst (main_025 ctl inp (\<lambda>_. [True, True, True, True]) (\<lambda>_. []) [] [] [] (test_task ''TestTask'' [] []))
     = replicate 10 (Yes_No True)"
proof -
  have empty: "id ([] :: TaskCommand list) = []" "id ([] :: int list) = []" by simp_all
  show ?thesis
    using main_025_sends [OF channel_law_shared [OF ctl_law] channel_law_shared [OF inp_law] empty,
        of "\<lambda>_. [True, True, True, True]" "\<lambda>_. []" "[]" "[]" "[]" "''TestTask''"]
    by auto
qed

theorem main_025_starves_witness:
  "fst (main_025 ctl inp (\<lambda>_. []) (\<lambda>_. []) [] [] [] (test_task ''TestTask'' [] []))
     = Yes_No True # replicate 9 (Yes_No False)"
  by (rule main_025_starves [OF ctl_law inp_law]) simp_all

end
