(* ===== verification/Strand_Workers.thy ===== *)
theory Strand_Workers
  imports Prelude
begin

text \<open>
  \<open>boost_test/asio/006.test_scrand\<close>: four threads run one \<open>io_context\<close>, the main thread posts a
  thousand handlers to a strand and a fifth thread a thousand more to the context itself. The
  handlers record which threads ran them. The context is known by its documentation: a free
  thread inside \<open>run()\<close> takes any waiting handler, a strand lets one of its handlers at a time
  run, in the order they were posted, and a context whose work has run out is stopped, from
  which on its \<open>run()\<close> calls return and handlers posted later are not run. One action is one
  move of one thread; which handler a thread takes is part of the action.
\<close>

section \<open>State\<close>

datatype thread = T1 | T2 | T3 | T4 | T5

datatype scrand_pc = Posting nat | Joining "thread list" | Printed

definition posts :: nat where
  "posts = 1000"

definition workers :: "thread set" where
  "workers = {T1, T2, T4, T5}"

text \<open>
  The waiting and the running handlers of the strand and of the context, each by its number;
  the two sets of the program; the handlers that have run, in the order of their ends.
\<close>

record scrand =
  sc_guard :: bool
  sc_stopped :: bool
  strand_q :: "nat list"
  strand_run :: "(thread \<times> nat) option"
  plain_q :: "nat list"
  plain_run :: "(thread \<times> nat) list"
  sc_returned :: "thread set"
  sc_main :: scrand_pc
  t3_posted :: nat
  mani_thread_ids :: "thread set"
  t3_thread_ids :: "thread set"
  mani_done :: "nat list"
  t3_done :: "nat list"

definition scrand0 :: scrand where
  "scrand0 = \<lparr>sc_guard = True, sc_stopped = False, strand_q = [], strand_run = None, plain_q = [],
     plain_run = [], sc_returned = {}, sc_main = Posting 0, t3_posted = 0, mani_thread_ids = {},
     t3_thread_ids = {}, mani_done = [], t3_done = []\<rparr>"

section \<open>Steps\<close>

datatype scrand_act =
    Main_Step
  | Post_T3
  | Take_Strand thread
  | Take_Plain thread nat
  | End_Strand
  | End_Plain nat
  | Run_Out
  | Return thread

definition del_nth :: "nat \<Rightarrow> 'a list \<Rightarrow> 'a list" where
  "del_nth n xs = take n xs @ drop (Suc n) xs"

text \<open>A thread inside \<open>run()\<close> that runs no handler.\<close>

definition free :: "scrand \<Rightarrow> thread \<Rightarrow> bool" where
  "free s w \<longleftrightarrow> w \<in> workers \<and> w \<notin> sc_returned s
     \<and> map_option fst (strand_run s) \<noteq> Some w \<and> w \<notin> set (map fst (plain_run s))"

definition ended :: "scrand \<Rightarrow> thread \<Rightarrow> bool" where
  "ended s t \<longleftrightarrow> (if t = T3 then t3_posted s = posts else t \<in> sc_returned s)"

text \<open>
  The main thread: a thousand calls of \<open>print\<close>, then (after its sleep) \<open>guard.reset()\<close>, the
  joins in their order, and the printing of the two sets.
\<close>

definition main_step :: "scrand \<Rightarrow> scrand option" where
  "main_step s = (case sc_main s of
     Posting i \<Rightarrow>
       Some (if i < posts then s\<lparr>strand_q := strand_q s @ [i], sc_main := Posting (Suc i)\<rparr>
             else s\<lparr>sc_guard := False, sc_main := Joining [T3, T1, T2, T4, T5]\<rparr>)
   | Joining [] \<Rightarrow> Some (s\<lparr>sc_main := Printed\<rparr>)
   | Joining (t # ts) \<Rightarrow> if ended s t then Some (s\<lparr>sc_main := Joining ts\<rparr>) else None
   | Printed \<Rightarrow> None)"

definition idle_context :: "scrand \<Rightarrow> bool" where
  "idle_context s \<longleftrightarrow> \<not> sc_guard s \<and> strand_q s = [] \<and> strand_run s = None \<and> plain_q s = [] \<and> plain_run s = []"

definition scrand_step :: "scrand_act \<Rightarrow> scrand \<Rightarrow> scrand option" where
  "scrand_step a s = (case a of
     Main_Step \<Rightarrow> main_step s
   | Post_T3 \<Rightarrow>
       if t3_posted s < posts
       then Some (s\<lparr>plain_q := plain_q s @ [t3_posted s], t3_posted := Suc (t3_posted s)\<rparr>) else None
   | Take_Strand w \<Rightarrow>
       if free s w \<and> \<not> sc_stopped s \<and> strand_run s = None \<and> strand_q s \<noteq> []
       then Some (s\<lparr>strand_run := Some (w, hd (strand_q s)), strand_q := tl (strand_q s)\<rparr>) else None
   | Take_Plain w n \<Rightarrow>
       if free s w \<and> \<not> sc_stopped s \<and> n < length (plain_q s)
       then Some (s\<lparr>plain_run := (w, plain_q s ! n) # plain_run s, plain_q := del_nth n (plain_q s)\<rparr>) else None
   | End_Strand \<Rightarrow>
       (case strand_run s of
          None \<Rightarrow> None
        | Some (w, i) \<Rightarrow> Some (s\<lparr>strand_run := None, mani_thread_ids := insert w (mani_thread_ids s),
                                 mani_done := mani_done s @ [i]\<rparr>))
   | End_Plain n \<Rightarrow>
       if n < length (plain_run s)
       then (case plain_run s ! n of (w, i) \<Rightarrow>
               Some (s\<lparr>plain_run := del_nth n (plain_run s), t3_thread_ids := insert w (t3_thread_ids s),
                       t3_done := t3_done s @ [i]\<rparr>))
       else None
   | Run_Out \<Rightarrow> if idle_context s \<and> \<not> sc_stopped s then Some (s\<lparr>sc_stopped := True\<rparr>) else None
   | Return w \<Rightarrow>
       if free s w \<and> sc_stopped s then Some (s\<lparr>sc_returned := insert w (sc_returned s)\<rparr>) else None)"

inductive scrand_moves :: "scrand \<Rightarrow> scrand \<Rightarrow> bool" where
  "scrand_step a s = Some t \<Longrightarrow> scrand_moves s t"

inductive_cases scrand_movesE: "scrand_moves s t"

section \<open>Invariant\<close>

definition in_strand :: "scrand \<Rightarrow> nat list" where
  "in_strand s = (case strand_run s of None \<Rightarrow> [] | Some (w, i) \<Rightarrow> [i])"

fun main_posted :: "scrand_pc \<Rightarrow> nat" where
  "main_posted (Posting i) = i"
| "main_posted _ = posts"

fun joined :: "scrand_pc \<Rightarrow> thread set" where
  "joined (Posting i) = {}"
| "joined (Joining ts) = UNIV - set ts"
| "joined Printed = UNIV"

definition order_inv :: "scrand \<Rightarrow> bool" where
  "order_inv s \<longleftrightarrow> main_posted (sc_main s) \<le> posts \<and> t3_posted s \<le> posts
     \<and> mani_done s @ in_strand s @ strand_q s = [0..<main_posted (sc_main s)]
     \<and> mset (t3_done s) + mset (map snd (plain_run s)) + mset (plain_q s) = mset [0..<t3_posted s]"

definition stop_inv :: "scrand \<Rightarrow> bool" where
  "stop_inv s \<longleftrightarrow> (sc_guard s \<longleftrightarrow> (\<exists>i. sc_main s = Posting i))
     \<and> (sc_stopped s \<longrightarrow> \<not> sc_guard s \<and> strand_q s = [] \<and> strand_run s = None \<and> plain_run s = [])
     \<and> (sc_returned s \<noteq> {} \<longrightarrow> sc_stopped s) \<and> (\<forall>t \<in> joined (sc_main s). ended s t)"

definition ids_inv :: "scrand \<Rightarrow> bool" where
  "ids_inv s \<longleftrightarrow> (\<forall>w i. strand_run s = Some (w, i) \<longrightarrow> w \<in> workers)
     \<and> (\<forall>p \<in> set (plain_run s). fst p \<in> workers)
     \<and> mani_thread_ids s \<subseteq> workers \<and> t3_thread_ids s \<subseteq> workers
     \<and> (mani_done s \<noteq> [] \<longrightarrow> mani_thread_ids s \<noteq> {})"

definition scrand_inv :: "scrand \<Rightarrow> bool" where
  "scrand_inv s \<longleftrightarrow> order_inv s \<and> stop_inv s \<and> ids_inv s"

lemma mset_del_nth: "n < length xs \<Longrightarrow> mset xs = add_mset (xs ! n) (mset (del_nth n xs))"
  by (subst id_take_nth_drop [of n xs]) (simp_all add: del_nth_def)

lemma set_del_nth: "set (del_nth n xs) \<subseteq> set xs"
  unfolding del_nth_def by (auto dest: in_set_takeD in_set_dropD)

lemma map_del_nth: "map f (del_nth n xs) = del_nth n (map f xs)"
  by (simp add: del_nth_def take_map drop_map)

lemma length_del_nth: "n < length xs \<Longrightarrow> Suc (length (del_nth n xs)) = length xs"
  by (simp add: del_nth_def)

lemmas step_defs = scrand_step_def main_step_def idle_context_def in_strand_def

lemma order_step:
  assumes "order_inv s" and "stop_inv s" and "scrand_step a s = Some t"
  shows "order_inv t"
proof (cases a)
  case Main_Step
  then show ?thesis using assms
    by (auto simp: order_inv_def step_defs split: scrand_pc.splits list.splits option.splits if_splits)
next
  case (Take_Plain w n)
  then show ?thesis using assms mset_del_nth [of n "plain_q s"]
    by (auto simp: order_inv_def step_defs split: if_splits)
next
  case (End_Plain n)
  have "mset (map snd (plain_run s)) = add_mset (snd (plain_run s ! n)) (mset (map snd (del_nth n (plain_run s))))"
    if "n < length (plain_run s)"
    using mset_del_nth [of n "map snd (plain_run s)"] that by (simp add: map_del_nth)
  then show ?thesis using assms End_Plain
    by (auto simp: order_inv_def step_defs split: if_splits prod.splits)
qed (use assms in \<open>auto simp: order_inv_def step_defs neq_Nil_conv simp del: mset_upt
      split: if_splits option.splits\<close>)

lemma stop_step:
  assumes "order_inv s" and "stop_inv s" and "scrand_step a s = Some t"
  shows "stop_inv t"
  using assms(2,3)
  by (cases a)
    (auto simp: stop_inv_def step_defs ended_def free_def del_nth_def
      split: scrand_pc.splits list.splits option.splits if_splits prod.splits intro: thread.exhaust)

lemma ids_step:
  assumes "ids_inv s" and "scrand_step a s = Some t"
  shows "ids_inv t"
proof (cases a)
  case Main_Step
  then show ?thesis using assms
    by (auto simp: ids_inv_def step_defs split: scrand_pc.splits list.splits if_splits)
next
  case (End_Plain n)
  obtain w i where w: "plain_run s ! n = (w, i)" by fastforce
  have "w \<in> workers" if "n < length (plain_run s)"
    using assms(1) nth_mem [OF that] w unfolding ids_inv_def by force
  with w show ?thesis using assms End_Plain set_del_nth [of n "plain_run s"]
    by (auto simp: ids_inv_def step_defs subset_eq split: if_splits prod.splits)
qed (use assms in \<open>auto simp: ids_inv_def step_defs free_def split: if_splits option.splits\<close>)

interpretation scrand_sys: invariant_system "\<lambda>s. s = scrand0" scrand_moves scrand_inv
proof unfold_locales
  show "scrand_inv s" if "s = scrand0" for s
    using that by (simp add: scrand_inv_def order_inv_def stop_inv_def ids_inv_def scrand0_def in_strand_def posts_def)
  show "scrand_inv t" if "scrand_inv s" "scrand_moves s t" for s t
    using that by (auto simp: scrand_inv_def elim!: scrand_movesE intro: order_step stop_step ids_step)
qed

section \<open>Properties\<close>

lemma printed_state:
  assumes "reach (\<lambda>s. s = scrand0) scrand_moves s" and "sc_main s = Printed"
  shows "scrand_inv s" "sc_stopped s" "t3_posted s = posts" "sc_returned s \<supseteq> workers"
proof -
  show inv: "scrand_inv s" by (rule scrand_sys.reach_inv [OF assms(1)])
  then have ended: "ended s t" for t using assms(2) by (simp add: scrand_inv_def stop_inv_def)
  show "t3_posted s = posts" using ended [of T3] by (simp add: ended_def)
  show returned: "sc_returned s \<supseteq> workers"
    using ended [of T1] ended [of T2] ended [of T4] ended [of T5] by (simp add: ended_def workers_def)
  then show "sc_stopped s" using inv by (auto simp: scrand_inv_def stop_inv_def workers_def)
qed


text \<open>
  The handlers of the fifth thread run at most once each; all of them have run when that thread
  had posted them before the guard was reset, which nothing but the sleep of the main thread
  sees to.
\<close>

definition posted_inv :: "scrand \<Rightarrow> bool" where
  "posted_inv s \<longleftrightarrow> scrand_inv s \<and> t3_posted s = posts \<and> (sc_stopped s \<longrightarrow> plain_q s = [])"

lemma posted_step:
  assumes "posted_inv s" and "scrand_step a s = Some t"
  shows "posted_inv t"
proof -
  have "scrand_inv t"
    using scrand_sys.inv_step [of s t] assms by (auto simp: posted_inv_def intro: scrand_moves.intros)
  then show ?thesis using assms
    by (cases a) (auto simp: posted_inv_def step_defs split: scrand_pc.splits list.splits option.splits if_splits prod.splits)
qed

interpretation posted_sys: invariant_system posted_inv scrand_moves posted_inv
  by unfold_locales (auto elim!: scrand_movesE intro: posted_step)

theorem plain_handlers_run_once:
  assumes "reach (\<lambda>s. s = scrand0) scrand_moves s" and "sc_guard s" and "t3_posted s = posts"
    and "scrand_moves\<^sup>*\<^sup>* s t" and "sc_main t = Printed"
  shows "mset (t3_done t) = mset [0..<posts] \<and> t3_thread_ids t \<subseteq> workers"
proof -
  have s: "posted_inv s"
    using scrand_sys.reach_inv [OF assms(1)] assms(2,3) by (auto simp: posted_inv_def scrand_inv_def stop_inv_def)
  have t: "posted_inv t" by (rule posted_sys.steps_inv [OF assms(4) s])
  moreover have "sc_stopped t" "scrand_inv t"
    using printed_state [OF reach_steps [OF assms(4,1)] assms(5)] by simp_all
  ultimately show ?thesis by (auto simp: posted_inv_def scrand_inv_def order_inv_def stop_inv_def ids_inv_def)
qed

text \<open>
  The program always ends: every move brings the end nearer, whichever thread makes it, and
  until the main thread has printed some thread can move.
\<close>

fun main_left :: "scrand_pc \<Rightarrow> nat" where
  "main_left (Posting i) = 3 * (posts - i) + 7"
| "main_left (Joining ts) = Suc (length ts)"
| "main_left Printed = 0"

definition moves_left :: "scrand \<Rightarrow> nat" where
  "moves_left s = main_left (sc_main s) + 3 * (posts - t3_posted s)
     + 2 * (length (strand_q s) + length (plain_q s)) + length (in_strand s) + length (plain_run s)
     + (if sc_stopped s then 0 else 1) + card (workers - sc_returned s)"

lemma return_left:
  assumes "w \<in> workers" and "w \<notin> R"
  shows "card (workers - insert w R) < card (workers - R)"
  using assms by (intro psubset_card_mono) (auto simp: workers_def)

lemma moves_left_step: "scrand_step a s = Some t \<Longrightarrow> moves_left t < moves_left s"
proof (cases a)
  case (Take_Plain w n)
  assume "scrand_step a s = Some t"
  then show ?thesis using Take_Plain length_del_nth [of n "plain_q s"]
    by (auto simp: moves_left_def step_defs split: if_splits)
next
  case (End_Plain n)
  assume "scrand_step a s = Some t"
  then show ?thesis using End_Plain length_del_nth [of n "plain_run s"]
    by (auto simp: moves_left_def step_defs split: if_splits prod.splits)
next
  case (Return w)
  assume "scrand_step a s = Some t"
  then show ?thesis using Return return_left [of w "sc_returned s"]
    by (auto simp: moves_left_def step_defs free_def split: if_splits)
qed (auto simp: moves_left_def step_defs neq_Nil_conv
    split: scrand_pc.splits list.splits option.splits if_splits)

text \<open>A thread inside \<open>run()\<close> keeps the context moving until it can return.\<close>

lemma worker_moves:
  assumes guard: "\<not> sc_guard s" and w: "w \<in> workers" "w \<notin> sc_returned s"
  shows "\<exists>a t. scrand_step a s = Some t"
proof (cases "strand_run s = None \<and> plain_run s = []")
  case False
  then consider "\<exists>t. scrand_step End_Strand s = Some t" | "\<exists>t. scrand_step (End_Plain 0) s = Some t"
    by (auto simp: step_defs split: prod.splits)
  then show ?thesis by cases blast+
next
  case True
  then have "free s w" using w by (simp add: free_def)
  moreover have "sc_stopped s \<or> strand_q s \<noteq> [] \<or> plain_q s \<noteq> [] \<or> idle_context s"
    using True guard by (auto simp: idle_context_def)
  ultimately consider "\<exists>t. scrand_step (Return w) s = Some t" | "\<exists>t. scrand_step (Take_Strand w) s = Some t"
    | "\<exists>t. scrand_step (Take_Plain w 0) s = Some t" | "\<exists>t. scrand_step Run_Out s = Some t"
    using True by (cases "sc_stopped s") (auto simp: scrand_step_def)
  then show ?thesis by cases blast+
qed

lemma some_thread_moves:
  assumes inv: "scrand_inv s" and main: "sc_main s \<noteq> Printed"
  shows "\<exists>a t. scrand_step a s = Some t"
proof (cases "\<exists>t ts. sc_main s = Joining (t # ts) \<and> \<not> ended s t")
  case False
  then have "\<exists>t. scrand_step Main_Step s = Some t"
    using main by (auto simp: scrand_step_def main_step_def split: scrand_pc.splits list.splits)
  then show ?thesis by blast
next
  case True
  then obtain t ts where t: "sc_main s = Joining (t # ts)" "\<not> ended s t" by blast
  show ?thesis
  proof (cases "t = T3")
    case True
    then have "t3_posted s < posts" using t(2) inv by (simp add: ended_def scrand_inv_def order_inv_def)
    then have "\<exists>u. scrand_step Post_T3 s = Some u" by (simp add: scrand_step_def)
    then show ?thesis by blast
  next
    case False
    then have "t \<in> workers" "t \<notin> sc_returned s" using t(2) by (cases t; simp add: workers_def ended_def)+
    moreover have "\<not> sc_guard s" using inv t(1) by (simp add: scrand_inv_def stop_inv_def)
    ultimately show ?thesis using worker_moves by blast
  qed
qed

theorem scrand_always_ends:
  assumes "reach (\<lambda>s. s = scrand0) scrand_moves s"
  shows "(\<forall>t. scrand_moves s t \<longrightarrow> moves_left t < moves_left s)
    \<and> (sc_main s = Printed \<or> (\<exists>t. scrand_moves s t))"
  using some_thread_moves [OF scrand_sys.reach_inv [OF assms]]
  by (auto elim!: scrand_movesE intro: moves_left_step scrand_moves.intros)

section \<open>Runs\<close>

fun sc_exec :: "scrand_act list \<Rightarrow> scrand \<Rightarrow> scrand option" where
  "sc_exec [] s = Some s"
| "sc_exec (a # as) s = (case scrand_step a s of None \<Rightarrow> None | Some t \<Rightarrow> sc_exec as t)"

lemma two_moves: "sc_exec [a, b] s = Some t \<Longrightarrow> sc_exec (a # b # as) s = sc_exec as t"
  by (auto split: option.splits)

lemma sc_exec_moves: "sc_exec as s = Some t \<Longrightarrow> scrand_moves\<^sup>*\<^sup>* s t"
  by (induction as arbitrary: s)
    (auto split: option.splits intro: converse_rtranclp_into_rtranclp scrand_moves.intros)

lemma exec_main_posts:
  "i + n \<le> posts \<Longrightarrow> sc_main s = Posting i \<Longrightarrow>
   sc_exec (replicate n Main_Step) s = Some (s\<lparr>strand_q := strand_q s @ [i..<i + n], sc_main := Posting (i + n)\<rparr>)"
proof (induction n arbitrary: i s)
  case (Suc n)
  then show ?case
    using Suc.IH [of "Suc i" "s\<lparr>strand_q := strand_q s @ [i], sc_main := Posting (Suc i)\<rparr>"]
    by (simp add: scrand_step_def main_step_def upt_conv_Cons del: upt_Suc)
qed simp

lemma exec_t3_posts:
  "t3_posted s + n \<le> posts \<Longrightarrow> sc_exec (replicate n Post_T3) s =
     Some (s\<lparr>plain_q := plain_q s @ [t3_posted s..<t3_posted s + n], t3_posted := t3_posted s + n\<rparr>)"
proof (induction n arbitrary: s)
  case (Suc n)
  then show ?case
    using Suc.IH [of "s\<lparr>plain_q := plain_q s @ [t3_posted s], t3_posted := Suc (t3_posted s)\<rparr>"]
    by (simp add: scrand_step_def upt_conv_Cons del: upt_Suc)
qed simp

lemma exec_strand_drain:
  "strand_q s = is \<Longrightarrow> strand_run s = None \<Longrightarrow> free s T1 \<Longrightarrow> \<not> sc_stopped s \<Longrightarrow>
   \<exists>ids. sc_exec (concat (replicate (length is) [Take_Strand T1, End_Strand])) s =
     Some (s\<lparr>strand_q := [], mani_done := mani_done s @ is, mani_thread_ids := ids\<rparr>)"
proof (induction "is" arbitrary: s)
  case (Cons i "is")
  let ?s = "s\<lparr>strand_q := is, mani_done := mani_done s @ [i], mani_thread_ids := insert T1 (mani_thread_ids s)\<rparr>"
  have "free ?s T1" using Cons.prems(3) by (simp add: free_def)
  moreover have moves: "sc_exec [Take_Strand T1, End_Strand] s = Some ?s"
    using Cons.prems by (cases s) (simp add: scrand_step_def)
  ultimately show ?case using Cons.IH [of ?s] Cons.prems
    by (simp add: two_moves [OF moves] del: sc_exec.simps)
next
  case Nil
  then show ?case by (intro exI [of _ "mani_thread_ids s"]) (cases s, simp)
qed

lemma exec_plain_drain:
  "plain_q s = is \<Longrightarrow> plain_run s = [] \<Longrightarrow> free s T1 \<Longrightarrow> \<not> sc_stopped s \<Longrightarrow>
   \<exists>ids. sc_exec (concat (replicate (length is) [Take_Plain T1 0, End_Plain 0])) s =
     Some (s\<lparr>plain_q := [], t3_done := t3_done s @ is, t3_thread_ids := ids\<rparr>)"
proof (induction "is" arbitrary: s)
  case (Cons i "is")
  let ?s = "s\<lparr>plain_q := is, t3_done := t3_done s @ [i], t3_thread_ids := insert T1 (t3_thread_ids s)\<rparr>"
  have "free ?s T1" using Cons.prems(3) by (simp add: free_def)
  moreover have moves: "sc_exec [Take_Plain T1 0, End_Plain 0] s = Some ?s"
    using Cons.prems by (cases s) (simp add: scrand_step_def del_nth_def)
  ultimately show ?case using Cons.IH [of ?s] Cons.prems
    by (simp add: two_moves [OF moves] del: sc_exec.simps)
next
  case Nil
  then show ?case by (intro exI [of _ "t3_thread_ids s"]) (cases s, simp)
qed

text \<open>Both threads have posted everything, and nothing has run; or only the main thread has posted.\<close>

definition all_posted :: scrand where
  "all_posted = scrand0\<lparr>strand_q := [0..<posts], sc_main := Posting posts, plain_q := [0..<posts], t3_posted := posts\<rparr>"

definition main_only :: scrand where
  "main_only = scrand0\<lparr>strand_q := [0..<posts], sc_main := Posting posts\<rparr>"

lemma main_only_reach: "reach (\<lambda>s. s = scrand0) scrand_moves main_only"
proof -
  have "sc_exec (replicate posts Main_Step) scrand0 = Some main_only"
    using exec_main_posts [of 0 posts scrand0] by (simp add: main_only_def scrand0_def)
  then show ?thesis by (rule reach_steps [OF sc_exec_moves]) (simp add: reach_init)
qed

lemma all_posted_reach: "reach (\<lambda>s. s = scrand0) scrand_moves all_posted"
proof -
  have "sc_exec (replicate posts Post_T3) main_only = Some all_posted"
    using exec_t3_posts [of main_only posts] by (simp add: main_only_def all_posted_def scrand0_def)
  then show ?thesis by (rule reach_steps [OF sc_exec_moves main_only_reach])
qed

text \<open>The last moves: the workers return, the main thread joins and prints.\<close>

definition closing :: "scrand_act list" where
  "closing = map Return [T1, T2, T4, T5] @ replicate 6 Main_Step"

lemma exec_closing:
  assumes "sc_stopped s" and "sc_returned s = {}" and "strand_run s = None" and "plain_run s = []"
    and "sc_main s = Joining [T3, T1, T2, T4, T5]" and "t3_posted s = posts"
  shows "sc_exec closing s = Some (s\<lparr>sc_returned := {T5, T4, T2, T1}, sc_main := Printed\<rparr>)"
  using assms
  by (simp add: closing_def numeral_eq_Suc scrand_step_def main_step_def free_def workers_def ended_def)

lemma all_posted_ends: "\<exists>t. scrand_moves\<^sup>*\<^sup>* all_posted t \<and> sc_main t = Printed"
proof -
  have free: "free all_posted T1" by (simp add: free_def workers_def all_posted_def scrand0_def)
  obtain ids where 1: "sc_exec (concat (replicate posts [Take_Strand T1, End_Strand])) all_posted =
      Some (all_posted\<lparr>strand_q := [], mani_done := [0..<posts], mani_thread_ids := ids\<rparr>)"
    using exec_strand_drain [of all_posted "[0..<posts]"] free by (auto simp: all_posted_def scrand0_def)
  let ?s = "all_posted\<lparr>strand_q := [], mani_done := [0..<posts], mani_thread_ids := ids\<rparr>"
  have "free ?s T1" using free by (simp add: free_def)
  then obtain ids' where 2: "sc_exec (concat (replicate posts [Take_Plain T1 0, End_Plain 0])) ?s =
      Some (?s\<lparr>plain_q := [], t3_done := [0..<posts], t3_thread_ids := ids'\<rparr>)"
    using exec_plain_drain [of ?s "[0..<posts]"] by (auto simp: all_posted_def scrand0_def)
  let ?t = "?s\<lparr>plain_q := [], t3_done := [0..<posts], t3_thread_ids := ids'\<rparr>"
  let ?u = "?t\<lparr>sc_guard := False, sc_main := Joining [T3, T1, T2, T4, T5], sc_stopped := True\<rparr>"
  have 3: "sc_exec [Main_Step, Run_Out] ?t = Some ?u"
    by (simp add: scrand_step_def main_step_def idle_context_def all_posted_def scrand0_def)
  have 4: "\<exists>v. sc_exec closing ?u = Some v \<and> sc_main v = Printed"
    by (subst exec_closing) (simp_all add: all_posted_def scrand0_def)
  from 4 obtain v where v: "sc_exec closing ?u = Some v" "sc_main v = Printed" by blast
  show ?thesis using sc_exec_moves [OF 1] sc_exec_moves [OF 2] sc_exec_moves [OF 3] sc_exec_moves [OF v(1)] v(2)
    by (meson rtranclp_trans)
qed

text \<open>
  Nothing but the sleep keeps the fifth thread ahead of \<open>guard.reset()\<close>: when it posts later, the
  context can be stopped before, and the program ends without having run any of its handlers.
\<close>

theorem late_posts_are_lost:
  "\<exists>s. reach (\<lambda>s. s = scrand0) scrand_moves s \<and> sc_main s = Printed \<and> t3_done s = []
     \<and> plain_q s = [0..<posts]"
proof -
  have free: "free main_only T1" by (simp add: free_def workers_def main_only_def scrand0_def)
  obtain ids where 1: "sc_exec (concat (replicate posts [Take_Strand T1, End_Strand])) main_only =
      Some (main_only\<lparr>strand_q := [], mani_done := [0..<posts], mani_thread_ids := ids\<rparr>)"
    using exec_strand_drain [of main_only "[0..<posts]"] free by (auto simp: main_only_def scrand0_def)
  let ?s = "main_only\<lparr>strand_q := [], mani_done := [0..<posts], mani_thread_ids := ids\<rparr>"
  let ?t = "?s\<lparr>sc_guard := False, sc_main := Joining [T3, T1, T2, T4, T5], sc_stopped := True\<rparr>"
  have 2: "sc_exec [Main_Step, Run_Out] ?s = Some ?t"
    by (simp add: scrand_step_def main_step_def idle_context_def main_only_def scrand0_def)
  let ?u = "?t\<lparr>plain_q := [0..<posts], t3_posted := posts\<rparr>"
  have 3: "sc_exec (replicate posts Post_T3) ?t = Some ?u"
    using exec_t3_posts [of ?t posts] by (simp add: main_only_def scrand0_def)
  let ?v = "?u\<lparr>sc_returned := {T5, T4, T2, T1}, sc_main := Printed\<rparr>"
  have 4: "sc_exec closing ?u = Some ?v"
    by (rule exec_closing) (simp_all add: main_only_def scrand0_def)
  have "scrand_moves\<^sup>*\<^sup>* main_only ?v"
    using sc_exec_moves [OF 1] sc_exec_moves [OF 2] sc_exec_moves [OF 3] sc_exec_moves [OF 4]
    by (meson rtranclp_trans)
  then have "reach (\<lambda>s. s = scrand0) scrand_moves ?v" by (rule reach_steps) (rule main_only_reach)
  then show ?thesis by (intro exI [of _ ?v]) (simp add: main_only_def scrand0_def)
qed

section \<open>Witnesses\<close>


theorem plain_handlers_run_once_witness:
  "\<exists>s :: scrand. sc_main s = Printed \<and> mset (t3_done s) = mset [0..<posts]"
proof -
  obtain t where t: "scrand_moves\<^sup>*\<^sup>* all_posted t" "sc_main t = Printed" using all_posted_ends by blast
  have "sc_guard all_posted" "t3_posted all_posted = posts" by (simp_all add: all_posted_def scrand0_def)
  from plain_handlers_run_once [OF all_posted_reach this t] t(2) show ?thesis by blast
qed

theorem scrand_always_ends_witness: "\<exists>t. scrand_moves all_posted t"
  using scrand_always_ends [OF all_posted_reach] by (simp add: all_posted_def)

end
