(* ===== verification/Http_Client.thy ===== *)
theory Http_Client
  imports Prelude
begin

text \<open>
  \<open>boost_test/asio/007.tcp_clinet\<close>: a coroutine that fetches one page, started a thousand times
  on an \<open>io_context\<close> that a hundred threads and the main thread run. The answers of the network
  are the argument of a session; the lines with thread identifiers are left out.
\<close>

section \<open>A session\<close>

text \<open>
  What the network answers: the errors of connecting and writing, the four questions for the
  end points (each can throw), and what \<open>async_read_until\<close> leaves in the buffer.
\<close>

record client_net =
  connect_error :: "string option"
  open_after :: bool
  endpoint_answers :: "(string, string) expected list"
  write_error :: "string option"
  response :: "(string, string) expected"

definition endpoint_labels :: "string list" where
  "endpoint_labels = [''Socket remote address: '', ''Socket remote port: '', ''Socket local address: '', ''Socket local port: '']"

text \<open>A label is printed before its value is asked for.\<close>

fun print_endpoints :: "(string \<times> (string, string) expected) list \<Rightarrow> console \<times> string option" where
  "print_endpoints [] = ([], None)"
| "print_endpoints ((label, answer) # qs) = (case answer of
     Inl e \<Rightarrow> ([label], Some e)
   | Inr v \<Rightarrow> (let (out, e) = print_endpoints qs in ((label @ v) # out, e)))"

text \<open>The body of the \<open>try\<close> block: what it printed, and the exception it ended with.\<close>

definition session_body :: "client_net \<Rightarrow> console \<times> string option" where
  "session_body net = (case connect_error net of
     Some e \<Rightarrow> ([], Some e)
   | None \<Rightarrow>
       if \<not> open_after net then ([''Connection failed!''], None)
       else (case print_endpoints (zip endpoint_labels (endpoint_answers net)) of
           (out, Some e) \<Rightarrow> (''Connection successful!'' # out, Some e)
         | (out, None) \<Rightarrow>
             (let sending = ''Connection successful!'' # out @ [''Sending request...'']
              in case write_error net of
                   Some e \<Rightarrow> (sending, Some e)
                 | None \<Rightarrow>
                     (let reading = sending @ [''Request sent!'', ''Reading response...'']
                      in case response net of
                           Inl e \<Rightarrow> (reading, Some e)
                         | Inr buf \<Rightarrow>
                             (reading @ [''Response: ''] @ getlines [] buf @ [''Response read!''], None)))))"

definition client_session :: "client_net \<Rightarrow> console" where
  "client_session net = (case session_body net of
     (out, None) \<Rightarrow> out
   | (out, Some e) \<Rightarrow> out @ [''Exception in client: '' @ e])"

section \<open>What a session prints\<close>

text \<open>
  A session whose network answers are all good prints the lines of the response between its
  own, and these lines are the response: put together again they give it back, with the end of
  the last line supplied where it lacked one.
\<close>

theorem session_prints_response:
  assumes "connect_error net = None" and "open_after net" and "endpoint_answers net = map Inr vs"
    and "length vs = 4" and "write_error net = None" and "response net = Inr buf"
  shows "client_session net =
      [''Connection successful!''] @ map2 (@) endpoint_labels vs
      @ [''Sending request...'', ''Request sent!'', ''Reading response...'', ''Response: '']
      @ getlines [] buf @ [''Response read!'']
    \<and> (\<forall>l \<in> set (getlines [] buf). CHR 0x0A \<notin> set l)
    \<and> concat (map (\<lambda>l. l @ [CHR 0x0A]) (getlines [] buf)) = (if buf = [] \<or> last buf = CHR 0x0A then buf else buf @ [CHR 0x0A])"
proof -
  have "print_endpoints (zip ls (map Inr vs)) = (map2 (@) ls vs, None)" if "length ls = length vs" for ls
    using that by (induction ls vs rule: list_induct2) simp_all
  from this [of endpoint_labels] show ?thesis
    using assms getlines_join [of "[]" buf] getlines_no_newline [of "[]" _ buf] by (simp add: client_session_def session_body_def endpoint_labels_def)
qed

text \<open>Every other session ends with a line that reports a failed connection or the exception.\<close>

theorem session_reports_failure:
  "last (client_session net) = ''Response read!''
   \<or> last (client_session net) = ''Connection failed!''
   \<or> (\<exists>e. last (client_session net) = ''Exception in client: '' @ e)"
  by (auto simp: client_session_def session_body_def Let_def split: option.splits prod.splits sum.splits)

section \<open>The program\<close>

text \<open>
  The main thread keeps the work guard until it returns. The sessions that have been started
  and have not ended, and the threads whose \<open>run()\<close> has returned; the main thread is number 100.
\<close>

record client_main =
  cm_guard :: bool
  cm_stopped :: bool
  cm_spawned :: nat
  cm_active :: "nat set"
  cm_ended :: "nat set"
  cm_returned :: "nat set"

definition sessions :: nat where
  "sessions = 1000"

definition client_main0 :: client_main where
  "client_main0 = \<lparr>cm_guard = True, cm_stopped = False, cm_spawned = 0, cm_active = {}, cm_ended = {}, cm_returned = {}\<rparr>"

inductive client_moves :: "client_main \<Rightarrow> client_main \<Rightarrow> bool" where
  spawn: "cm_spawned s < sessions \<Longrightarrow>
    client_moves s (s\<lparr>cm_active := insert (cm_spawned s) (cm_active s), cm_spawned := Suc (cm_spawned s)\<rparr>)"
| session_ends: "i \<in> cm_active s \<Longrightarrow> \<not> cm_stopped s \<Longrightarrow>
    client_moves s (s\<lparr>cm_active := cm_active s - {i}, cm_ended := insert i (cm_ended s)\<rparr>)"
| run_out: "\<not> cm_guard s \<Longrightarrow> cm_active s = {} \<Longrightarrow> client_moves s (s\<lparr>cm_stopped := True\<rparr>)"
| run_returns: "cm_stopped s \<Longrightarrow> w < 100 \<or> w = 100 \<and> cm_spawned s = sessions \<Longrightarrow>
    client_moves s (s\<lparr>cm_returned := insert w (cm_returned s)\<rparr>)"

inductive_cases client_movesE: "client_moves s t"

definition guarded :: "client_main \<Rightarrow> bool" where
  "guarded s \<longleftrightarrow> cm_guard s \<and> \<not> cm_stopped s \<and> cm_returned s = {}
     \<and> cm_active s \<union> cm_ended s = {..<cm_spawned s} \<and> cm_spawned s \<le> sessions"

interpretation client_sys: invariant_system "\<lambda>s. s = client_main0" client_moves guarded
proof unfold_locales
  show "guarded s" if "s = client_main0" for s
    using that by (simp add: guarded_def client_main0_def)
  show "guarded t" if "guarded s" "client_moves s t" for s t
    using that(2,1) by cases (auto simp: guarded_def)
qed

text \<open>
  No \<open>run()\<close> ever returns, the one of the main thread included: the guard is never released. The
  program stands still exactly when all thousand sessions have ended.
\<close>

theorem client_never_returns:
  assumes "reach (\<lambda>s. s = client_main0) client_moves s"
  shows "cm_returned s = {} \<and> ((\<nexists>t. client_moves s t) \<longleftrightarrow> cm_ended s = {..<sessions} \<and> cm_active s = {})"
proof -
  have s: "guarded s" by (rule client_sys.reach_inv [OF assms])
  have "(\<exists>t. client_moves s t) \<longleftrightarrow> cm_spawned s < sessions \<or> cm_active s \<noteq> {}"
    using s by (auto simp: guarded_def elim!: client_movesE intro: client_moves.intros)
  moreover have "cm_ended s = {..<sessions} \<longleftrightarrow> cm_spawned s = sessions" if "cm_active s = {}"
    using s that by (auto simp: guarded_def)
  ultimately show ?thesis using s by (auto simp: guarded_def)
qed

section \<open>Witnesses\<close>

definition good_net :: client_net where
  "good_net = \<lparr>connect_error = None, open_after = True, endpoint_answers = map Inr [''a'', ''80'', ''b'', ''9''],
     write_error = None, response = Inr ''ok''\<rparr>"

theorem session_prints_response_witness: "last (client_session good_net) = ''Response read!''"
  using session_prints_response [of good_net "[''a'', ''80'', ''b'', ''9'']" "''ok''"]
  by (simp add: good_net_def)

theorem client_never_returns_witness: "cm_returned client_main0 = {} \<and> (\<exists>t. client_moves client_main0 t)"
proof -
  have "cm_ended client_main0 \<noteq> {..<sessions}"
    by (simp add: client_main0_def sessions_def eq_commute [of "{}"] lessThan_empty_iff [unfolded bot_nat_def])
  then show ?thesis using client_never_returns [OF reach_init, of client_main0] by blast
qed

end
