(* ===== verification/Spec2Isabelle.thy ===== *)
theory Spec2Isabelle
  imports Prelude State_Reducer Log_Struct Atomic_File Filesystem_Wrapper Task Task_Coroutine
    Ota_Node Chunk_Header Relative_Pointer Template_Policy Thread_Pool Coroutine_Pool Logging
    Bt_Nodes Bt_Actions Wait_Set Error_Reporting Debug_Assert
    Object_Pool Channel Echo_Session Throttling_Proxy Pthread_Mutex User_Trigger
    Stop_Token_Pool Concurrent_Queues Udp_Exchange Callable_Holder Unix_Socket Tcp_Exchange Mini_Listener
    Channel_Test Policy_Values Bt_Tutorials Chunk_Demos
    Queue_Flow Ota_Main Any_Type Roudi_Daemon Timers Iox_Demos Wake_Signal
    Atomic_File_Demo Thread_Names Segment_Clients
    Task_Mains Strand_Workers Http_Client
begin

text \<open>
  A verification library for the C++ code of this repository.

  \<^bold>\<open>The program.\<close> The repository holds a set of utility libraries (\<open>src/utils\<close>), a
  framework for tasks that run beside a behaviour tree (\<open>src/behaviortree_test/task\<close>) with
  its example tasks and nodes, and programs that work out one mechanism each: shared memory,
  wait sets, error reporting and sockets (\<open>src/cpp_test/iceoryx\<close>), policy classes,
  assertions, state filters (\<open>src/cpp_test/stand_cpp\<close>). The libraries are used by the
  programs: tasks run on a thread pool and receive commands over channels, the atomic file
  writer is reached through the filesystem wrapper, every component logs through the logging
  front end.

  \<^bold>\<open>Theories and sources.\<close>
  \<^item> \<open>Prelude\<close>: types, decimal printing, reachability and the locales \<open>invariant_system\<close>
    (a step relation with an invariant) and \<open>op_invariant\<close> (a set of operations with one).
  \<^item> \<open>State_Reducer\<close>: class \<open>StateReducer\<close> of \<open>stand_cpp/018.check_state\<close>; refinement of the
    window its design comment describes, for the codes the comment lists.
  \<^item> \<open>Log_Struct\<close>: \<open>utils/log_struct\<close>, the double-buffered logger as two interleaved threads
    and as functions on the object.
  \<^item> \<open>Atomic_File\<close>, \<open>Filesystem_Wrapper\<close>: \<open>utils/filesystem_wrapper\<close>, on a model of the
    file system that records every intermediate state.
  \<^item> \<open>Thread_Pool\<close>: \<open>utils/thread_pool/thread_pool.hpp\<close>; \<open>Coroutine_Pool\<close>:
    \<open>behaviortree_test/task/thread_pool.hpp\<close>. Workers, callers and long running threads are
    steps on one state; an action names the thread that moves. A coroutine of the second
    pool may wait for an event outside it and comes back when the event is ready.
  \<^item> \<open>Logging\<close>: \<open>utils/logging\<close>.
  \<^item> \<open>Task\<close>: \<open>behaviortree_test/task/task.hpp\<close>; \<open>Task_Coroutine\<close>: the coroutines of
    \<open>024.test_task\<close>, \<open>025.test_user_data\<close> and \<open>026.ota_state\<close>; \<open>Ota_Node\<close>: the node that
    drives the last of them; \<open>Task_Mains\<close>: the mains of \<open>024\<close> and \<open>025\<close> beside the coroutine, up to
    the destructor of the task.
  \<^item> \<open>Bt_Nodes\<close>, \<open>Bt_Actions\<close>: the nodes of \<open>behaviortree_test/sample_nodes\<close> and the trees
    of the tutorials \<open>002\<close>, \<open>004\<close>, \<open>007\<close>, \<open>014\<close>, \<open>015\<close>, \<open>021\<close>.
  \<^item> \<open>Chunk_Header\<close>, \<open>Relative_Pointer\<close>, \<open>Error_Reporting\<close>, \<open>Wait_Set\<close>, \<open>Object_Pool\<close>:
    \<open>cpp_test/iceoryx\<close> \<open>002\<close>, \<open>003\<close>, \<open>005\<close>, \<open>007\<close>, \<open>001\<close>.
  \<^item> \<open>Template_Policy\<close>, \<open>Debug_Assert\<close>: \<open>cpp_test/stand_cpp\<close> \<open>014\<close>, \<open>015\<close>.
  \<^item> \<open>Channel\<close>, \<open>Echo_Session\<close>, \<open>Throttling_Proxy\<close>, \<open>Channel_Test\<close>, \<open>Udp_Exchange\<close>, \<open>Tcp_Exchange\<close>,
    \<open>Timers\<close>, \<open>Strand_Workers\<close>, \<open>Http_Client\<close>: \<open>boost_test/asio\<close>. Bounded channels and their law, used
    by the tasks, the proxy and the channel test; the sessions of \<open>005.multithread\<close> and
    \<open>013.mutual_exclusion_1\<close> with the lock made of a channel; the proxy \<open>014\<close>; the coroutines of \<open>012\<close>; client and server of
    \<open>010\<close> with \<open>011\<close> and of \<open>008\<close> with \<open>009\<close> as exchanges over a network; the timers \<open>002\<close> to \<open>004\<close>;
    the threads on one context of \<open>006\<close> and \<open>007\<close>.
  \<^item> \<open>Pthread_Mutex\<close>, \<open>User_Trigger\<close>, \<open>Mini_Listener\<close>, \<open>Concurrent_Queues\<close>, \<open>Queue_Flow\<close>,
    \<open>Unix_Socket\<close>, \<open>Chunk_Demos\<close>, \<open>Roudi_Daemon\<close>, \<open>Segment_Clients\<close>, \<open>Thread_Names\<close>,
    \<open>Iox_Demos\<close>: \<open>cpp_test/iceoryx\<close> \<open>004\<close>, \<open>006\<close>, the
    listener of \<open>007\<close>, \<open>009\<close>, the queues of \<open>001\<close>, \<open>016\<close>, the demonstrations of \<open>002\<close>, the daemon of
    \<open>003\<close> (\<open>003.roudi.cpp\<close>) from start to exit, its clients on the same kernel, the thread names of \<open>004\<close>, and \<open>010\<close>, \<open>012\<close>, \<open>015\<close>.
  \<^item> \<open>Stop_Token_Pool\<close>, \<open>Callable_Holder\<close>, \<open>Double_Rounding\<close>, \<open>Policy_Values\<close>, \<open>Any_Type\<close>,
    \<open>Atomic_File_Demo\<close>: \<open>cpp_test/stand_cpp\<close> \<open>011\<close>, \<open>012\<close> with \<open>017\<close>, rounding of doubles with parts 3, 4
    and 7 of \<open>014\<close>, \<open>003\<close> with \<open>016\<close>, and \<open>007\<close>, which composes the atomic writer and the wrapper.
  \<^item> \<open>Bt_Tutorials\<close>, \<open>Ota_Main\<close>, \<open>Wake_Signal\<close>: the tutorials \<open>005\<close>, \<open>006\<close>, \<open>010\<close>, \<open>013\<close>, \<open>018\<close>, \<open>020\<close>;
    \<open>main\<close> of \<open>026\<close>, which composes the tree, the node, the task and its coroutine; and \<open>027\<close>.

  Each theory keeps the source's names for members and functions. A class is a record, its
  methods are functions that return the updated record, an exception or an error code is
  the left side of a sum, a program with several threads is a step function that takes the
  thread that moves.

  \<^bold>\<open>What the lemmas show.\<close>
  \<^item> Loss and ordering: what the logger is given is what reaches the file, in order
    (\<open>no_byte_lost\<close>); a promise of the pool is in exactly one place until it is fulfilled;
    an event fired at the wait set is collected unless its post failed; a message in shared memory is taken once;
    no slot of the object pool has two owners.
  \<^item> Atomicity: at every intermediate state of the file system the target is the old or the
    new file.
  \<^item> Termination and liveness: which stops and destructors return, which tasks end after a
    cancellation, which schedules block for ever.
  \<^item> Functional behaviour: sorting, trimming, alignment and layout of chunks, level filters,
    the transfer of tables over a socket, dispatch of reports.
  \<^item> Counterexamples: schedules on which a signal, a pause or a message is lost, or on which
    a pool blocks; each is proved on the model and listed among the findings of the manifest.

  \<^bold>\<open>Modelling decisions.\<close> Shared memory is sequentially consistent and a step is one access
  to it. The answers of the operating system, the readings of clocks and the choices of a
  scheduler are arguments. Libraries that are not part of the repository (Boost.Asio, spdlog,
  BehaviorTree.CPP, iceoryx) are records of operations passed to the definitions, with their
  documented behaviour as a named predicate (\<open>io_context_laws\<close>, \<open>spdlog_laws\<close>,
  \<open>engine_laws\<close>, \<open>tick_engine_laws\<close>, \<open>scoped_laws\<close>, \<open>wake_laws\<close>, \<open>sem_laws\<close>, \<open>bump_laws\<close>, \<open>iox_laws\<close>,
  \<open>free_laws\<close>, \<open>trigger_laws\<close>, \<open>queue_laws\<close>, \<open>sofi_laws\<close>, \<open>mutex_laws\<close>, \<open>lock_laws\<close>, \<open>name_laws\<close>, \<open>channel_law\<close>,
  \<open>shared_channel_law\<close> (a waiting receive may take a value beyond the capacity),
  \<open>loop_law\<close>); each predicate has an instance the
  witnesses run on. Arithmetic on type double is real arithmetic followed by a rounding
  that is monotone, idempotent and exact on the integers up to \<open>2 ^ 53\<close> (locale \<open>rounding\<close>). Sizes that the code computes with and that can wrap are words.
  The posts and waits of the semaphores in \<open>Wait_Set\<close> and \<open>Mini_Listener\<close> may fail; the daemon's
  \<open>handleClient\<close> and its cleanup are taken call by call, with other processes between the calls.

  \<^bold>\<open>Bounds and fuel.\<close> Loops with a decreasing measure are total functions. Loops that may
  run for ever take fuel, and the theorems say how much is enough: \<open>count_free\<close> one more than
  the number of slots, the loop of \<open>halt_main\<close> two rounds, the destructor of a task one more
  than the number of polls, the queue demonstrations six rounds, stopping the listener twice
  the number of sources and four steps, a coroutine of the channel test six steps, a cancelled coroutine of a task six steps, \<open>main\<close> of
  \<open>026\<close> 101 rounds with five steps of the coroutine in each pause, the start of the daemon 34
  calls, the allocation loop one more than the number of allocations; \<open>main\<close> of \<open>024\<close> ends within two
  calls, and the strand example within \<open>moves_left\<close> moves.

  \<^bold>\<open>Not modelled.\<close> Vendored headers other than \<open>debug_assert\<close> (asio, json, tl), build files,
  tests, programs that only call a library and print, overflow and special values of type
  double, weak memory orderings, the passing of real time. Each operation on a channel is one
  step: the data race on the channel objects that several threads share in \<open>012\<close> and in
  \<open>task.hpp\<close> is a finding and is not in the model. A signal during the daemon's cleanup and
  failing calls in it, and the durability of a written file after a crash of the machine. The manifest lists these parts with the reason.
\<close>

end
